(* ===== verification/RB_Prelude.thy ===== *)
theory RB_Prelude
  imports Main "HOL-Library.Word" "HOL-Library.Code_Target_Nat"
begin

text \<open>
  Shared vocabulary of the development: the machine types, the error values of
  \<^verbatim>\<open>src/error.rs\<close>, the result combinators every fallible operation is written with,
  the integer/byte conversions of Rust's standard library (\<^verbatim>\<open>to_le_bytes\<close>,
  \<^verbatim>\<open>from_le_bytes\<close> and their big-endian forms), and the lemmas about them that the
  component theories share.

  The model is for a 64-bit little-endian target: \<^verbatim>\<open>usize\<close> and \<^verbatim>\<open>u64\<close> counters, lengths and
  limits are \<^typ>\<open>nat\<close> with every checked operation of the source written out
  against \<open>usize_max\<close>; integer \<^emph>\<open>values\<close> carried by the codec stay machine words.
  A Rust panic is the error \<open>Panic\<close>, so that a panicking path is a visible branch of
  the model and never confused with a value.
\<close>

unbundle bit_operations_syntax

type_synonym byte = "8 word"
type_synonym u16 = "16 word"
type_synonym u32 = "32 word"
type_synonym u64 = "64 word"
type_synonym u128 = "128 word"

abbreviation usize_max :: nat where
  "usize_max \<equiv> 18446744073709551615"

named_theorems rb_bind \<open>unfolding of the result combinators\<close>
named_theorems rb_bytes \<open>round trips and lengths of the byte conversions\<close>

section \<open>Errors (\<^verbatim>\<open>src/error.rs\<close>)\<close>

datatype error =
    Io
  | SizeLimit nat
  | CollectionLimit nat
  | BufferTooSmall nat nat
  | InvalidFrame string
  | SchemaMismatch nat nat
  | Cbor string
  | Compression string
  | Encryption
  | Randomness
  | BitPacking string
  | Adaptive string
  | Entropy string
  | Delta string
  | Iblt string
  | Trust string
  | ParallelWorkerPanic
  | SchemaEvolution string
  | UnexpectedEnd
  | TrailingBytesError nat
  | InvalidBool byte
  | InvalidOption byte
  | InvalidChar
  | NonFiniteFloat
  | InvalidUtf8
  | IntegerOverflow string
  | InvalidVarintMarker byte
  | NonCanonicalVarint
  | SequenceMustHaveLength
  | Unsupported string
  | Custom string
  | Panic string

datatype error_category = UserInput | Protocol | Configuration | InternalBug

fun category :: "error \<Rightarrow> error_category" where
  "category Io = Configuration"
| "category (SizeLimit _) = Configuration"
| "category (CollectionLimit _) = Configuration"
| "category (BufferTooSmall _ _) = Configuration"
| "category SequenceMustHaveLength = Configuration"
| "category (Unsupported _) = Configuration"
| "category (InvalidFrame _) = Protocol"
| "category (SchemaMismatch _ _) = Protocol"
| "category (BitPacking _) = Protocol"
| "category (Adaptive _) = Protocol"
| "category (SchemaEvolution _) = Protocol"
| "category NonCanonicalVarint = Protocol"
| "category (Entropy _) = Protocol"
| "category (Delta _) = Protocol"
| "category (Iblt _) = Protocol"
| "category (Trust _) = Protocol"
| "category (Cbor _) = Protocol"
| "category (Compression _) = Protocol"
| "category Randomness = Configuration"
| "category Encryption = UserInput"
| "category ParallelWorkerPanic = InternalBug"
| "category (Panic _) = InternalBug"
| "category UnexpectedEnd = UserInput"
| "category (TrailingBytesError _) = UserInput"
| "category (InvalidBool _) = UserInput"
| "category (InvalidOption _) = UserInput"
| "category InvalidChar = UserInput"
| "category NonFiniteFloat = UserInput"
| "category InvalidUtf8 = UserInput"
| "category (IntegerOverflow _) = UserInput"
| "category (InvalidVarintMarker _) = UserInput"
| "category (Custom _) = UserInput"

section \<open>Results\<close>

text \<open>\<open>rbind\<close> is the \<^verbatim>\<open>?\<close> operator, \<open>ensure\<close> an early return, \<open>ok_or\<close> Rust's method.\<close>

type_synonym 'a result = "error + 'a"

definition rbind :: "'e + 'a \<Rightarrow> ('a \<Rightarrow> 'e + 'b) \<Rightarrow> 'e + 'b" where
  "rbind r f = (case r of Inl e \<Rightarrow> Inl e | Inr x \<Rightarrow> f x)"

definition ensure :: "bool \<Rightarrow> 'e \<Rightarrow> 'e + unit" where
  "ensure b e = (if b then Inr () else Inl e)"

definition ok_or :: "'e \<Rightarrow> 'a option \<Rightarrow> 'e + 'a" where
  "ok_or e x = (case x of None \<Rightarrow> Inl e | Some y \<Rightarrow> Inr y)"

definition rmap :: "('a \<Rightarrow> 'b) \<Rightarrow> 'e + 'a \<Rightarrow> 'e + 'b" where
  "rmap f r = (case r of Inl e \<Rightarrow> Inl e | Inr x \<Rightarrow> Inr (f x))"

lemma rbind_simps [simp, rb_bind]:
  "rbind (Inl e) f = Inl e"
  "rbind (Inr x) f = f x"
  by (simp_all add: rbind_def)

lemma rbind_eq_Inr [rb_bind]: "rbind r f = Inr y \<longleftrightarrow> (\<exists>x. r = Inr x \<and> f x = Inr y)"
  by (cases r) simp_all

lemma Inr_eq_rbind [rb_bind]: "Inr y = rbind r f \<longleftrightarrow> (\<exists>x. r = Inr x \<and> f x = Inr y)"
  by (cases r) auto

lemma rbind_eq_Inl [rb_bind]:
  "rbind r f = Inl e \<longleftrightarrow> r = Inl e \<or> (\<exists>x. r = Inr x \<and> f x = Inl e)"
  by (cases r) simp_all

lemma rbind_assoc: "rbind (rbind r f) g = rbind r (\<lambda>x. rbind (f x) g)"
  by (cases r) simp_all

lemma rbind_Inr_right [simp]: "rbind r Inr = r"
  by (cases r) simp_all

lemma rbind_cong [fundef_cong]:
  "r = r' \<Longrightarrow> (\<And>x. r' = Inr x \<Longrightarrow> f x = g x) \<Longrightarrow> rbind r f = rbind r' g"
  by (cases r') simp_all

lemma ensure_simps [simp, rb_bind]:
  "ensure True e = Inr ()"
  "ensure False e = Inl e"
  by (simp_all add: ensure_def)

lemma ensure_eq_Inr [simp, rb_bind]: "ensure b e = Inr u \<longleftrightarrow> b"
  by (simp add: ensure_def)

lemma ensure_eq_Inl [simp, rb_bind]: "ensure b e = Inl e' \<longleftrightarrow> \<not> b \<and> e' = e"
  by (auto simp add: ensure_def)

lemma ok_or_simps [simp, rb_bind]:
  "ok_or e None = Inl e"
  "ok_or e (Some x) = Inr x"
  by (simp_all add: ok_or_def)

lemma ok_or_eq_Inr [simp, rb_bind]: "ok_or e r = Inr y \<longleftrightarrow> r = Some y"
  by (cases r) simp_all

lemma ok_or_eq_Inl [simp, rb_bind]: "ok_or e r = Inl e' \<longleftrightarrow> r = None \<and> e' = e"
  by (cases r) auto

lemma rmap_simps [simp, rb_bind]:
  "rmap f (Inl e) = Inl e"
  "rmap f (Inr x) = Inr (f x)"
  by (simp_all add: rmap_def)

lemma rmap_eq_Inr [rb_bind]: "rmap f r = Inr y \<longleftrightarrow> (\<exists>x. r = Inr x \<and> y = f x)"
  by (cases r) auto

text \<open>The configured byte policy: \<open>None\<close> is unbounded, \<open>Some l\<close> allows up to \<open>l\<close>.\<close>

definition within :: "nat option \<Rightarrow> nat \<Rightarrow> bool" where
  "within limit n = (case limit of None \<Rightarrow> True | Some l \<Rightarrow> n \<le> l)"

lemma within_simps [simp]:
  "within None n"
  "within (Some l) n \<longleftrightarrow> n \<le> l"
  by (simp_all add: within_def)

lemma within_mono: "within limit n \<Longrightarrow> m \<le> n \<Longrightarrow> within limit m"
  by (cases limit) auto

lemma within_0 [simp]: "within limit 0"
  by (cases limit) auto

definition check_limit :: "nat option \<Rightarrow> nat \<Rightarrow> error + unit" where
  "check_limit limit n =
     (case limit of None \<Rightarrow> Inr () | Some l \<Rightarrow> if n > l then Inl (SizeLimit l) else Inr ())"

definition check_collection :: "nat option \<Rightarrow> nat \<Rightarrow> error + unit" where
  "check_collection limit n =
     (case limit of None \<Rightarrow> Inr () | Some l \<Rightarrow> if n > l then Inl (CollectionLimit l) else Inr ())"

lemma check_limit_Inr [simp]: "check_limit limit n = Inr u \<longleftrightarrow> within limit n"
  by (auto simp: check_limit_def split: option.split)

lemma check_collection_Inr [simp]: "check_collection limit n = Inr u \<longleftrightarrow> within limit n"
  by (auto simp: check_collection_def split: option.split)

lemma check_limit_Inl: "check_limit limit n = Inl e \<longleftrightarrow> (\<exists>l. limit = Some l \<and> l < n \<and> e = SizeLimit l)"
  by (auto simp: check_limit_def split: option.split)

lemma check_collection_Inl:
  "check_collection limit n = Inl e \<longleftrightarrow> (\<exists>l. limit = Some l \<and> l < n \<and> e = CollectionLimit l)"
  by (auto simp: check_collection_def split: option.split)

lemma check_limit_if: "check_limit limit n = (if within limit n then Inr () else Inl (SizeLimit (the limit)))"
  by (auto simp: check_limit_def split: option.split)

lemma check_collection_if:
  "check_collection limit n = (if within limit n then Inr () else Inl (CollectionLimit (the limit)))"
  by (auto simp: check_collection_def split: option.split)

section \<open>Operations on a mutable receiver\<close>

text \<open>
  A method \<^verbatim>\<open>fn f(&mut self, ..) -> Result<A>\<close> is a function from the receiver to the result and the
  receiver it leaves behind, on the error paths too.
\<close>

type_synonym ('s, 'a) op = "'s \<Rightarrow> (error + 'a) \<times> 's"

definition sret :: "'a \<Rightarrow> ('s, 'a) op" where
  "sret x s = (Inr x, s)"

definition sfail :: "error \<Rightarrow> ('s, 'a) op" where
  "sfail e s = (Inl e, s)"

definition sbind :: "('s, 'a) op \<Rightarrow> ('a \<Rightarrow> ('s, 'b) op) \<Rightarrow> ('s, 'b) op" where
  "sbind m f s = (case m s of (Inl e, s') \<Rightarrow> (Inl e, s') | (Inr x, s') \<Rightarrow> f x s')"

text \<open>A pure check of the receiver, and a field read.\<close>

definition slift :: "('s \<Rightarrow> error + 'a) \<Rightarrow> ('s, 'a) op" where
  "slift f s = (f s, s)"

definition smod :: "('s \<Rightarrow> 's) \<Rightarrow> ('s, unit) op" where
  "smod f s = (Inr (), f s)"

lemma sop_simps [simp]:
  "sret x s = (Inr x, s)"
  "sfail e s = (Inl e, s)"
  "slift g s = (g s, s)"
  "smod h s = (Inr (), h s)"
  by (simp_all add: sret_def sfail_def slift_def smod_def)

lemma sbind_ok [simp]: "m s = (Inr x, s') \<Longrightarrow> sbind m f s = f x s'"
  by (simp add: sbind_def)

lemma sbind_ok_bool [simp]:
  "m s = (Inr True, s') \<Longrightarrow> sbind m g s = g True s'"
  "m s = (Inr False, s') \<Longrightarrow> sbind m g s = g False s'"
  by (simp_all only: sbind_ok)

lemma sbind_err [simp]: "m s = (Inl e, s') \<Longrightarrow> sbind m f s = (Inl e, s')"
  by (simp add: sbind_def)

lemma sbind_Inr:
  "sbind m f s = (Inr y, t) \<longleftrightarrow> (\<exists>x s'. m s = (Inr x, s') \<and> f x s' = (Inr y, t))"
  by (auto simp: sbind_def split: prod.split sum.split)

lemma sbind_cases:
  obtains (err) e s' where "m s = (Inl e, s')" "sbind m f s = (Inl e, s')"
    | (ok) x s' where "m s = (Inr x, s')" "sbind m f s = f x s'"
  by (cases "m s"; cases "fst (m s)") (auto simp: sbind_def)

lemma sbind_cong [fundef_cong]:
  "m s = m' s' \<Longrightarrow> (\<And>x t. m' s' = (Inr x, t) \<Longrightarrow> f x t = g x t) \<Longrightarrow> sbind m f s = sbind m' g s'"
  by (auto simp: sbind_def split: prod.split sum.split)

lemma sbind_assoc: "sbind (sbind m f) g = sbind m (\<lambda>x. sbind (f x) g)"
  by (rule ext) (simp add: sbind_def split: prod.split sum.split)

section \<open>Bytes of machine integers\<close>

fun nat_to_le :: "nat \<Rightarrow> nat \<Rightarrow> byte list" where
  "nat_to_le 0 v = []"
| "nat_to_le (Suc n) v = of_nat v # nat_to_le n (v div 256)"

fun le_to_nat :: "byte list \<Rightarrow> nat" where
  "le_to_nat [] = 0"
| "le_to_nat (b # bs) = unat b + 256 * le_to_nat bs"

definition to_le_bytes :: "'a::len word \<Rightarrow> byte list" where
  "to_le_bytes w = nat_to_le (LENGTH('a) div 8) (unat w)"

definition from_le_bytes :: "byte list \<Rightarrow> 'a::len word" where
  "from_le_bytes bs = of_nat (le_to_nat bs)"

definition to_be_bytes :: "'a::len word \<Rightarrow> byte list" where
  "to_be_bytes w = rev (to_le_bytes w)"

definition from_be_bytes :: "byte list \<Rightarrow> 'a::len word" where
  "from_be_bytes bs = from_le_bytes (rev bs)"

lemma length_nat_to_le [simp, rb_bytes]: "length (nat_to_le n v) = n"
  by (induction n arbitrary: v) simp_all

lemma unat_byte_of_nat [simp]: "unat (of_nat v :: byte) = v mod 256"
  by (simp add: unat_of_nat)

lemma unat_byte_less [simp]: "unat (b :: byte) < 256"
  using unsigned_less[of b, where ?'a = nat] by simp

lemma le_to_nat_nat_to_le [simp, rb_bytes]: "le_to_nat (nat_to_le n v) = v mod 256 ^ n"
proof (induction n arbitrary: v)
  case 0
  then show ?case by simp
next
  case (Suc n)
  have "v mod 256 + 256 * (v div 256 mod 256 ^ n) = v mod (256 * 256 ^ n)"
    by (simp add: mod_mult2_eq)
  with Suc show ?case by simp
qed

lemma le_to_nat_bound: "le_to_nat bs < 256 ^ length bs"
proof (induction bs)
  case Nil
  then show ?case by simp
next
  case (Cons b bs)
  have "unat b + 256 * le_to_nat bs < 256 + 256 * le_to_nat bs" by simp
  also have "\<dots> \<le> 256 * 256 ^ length bs" using Cons by simp
  finally show ?case by simp
qed

lemma nat_to_le_le_to_nat [simp, rb_bytes]: "nat_to_le (length bs) (le_to_nat bs) = bs"
proof (induction bs)
  case Nil
  then show ?case by simp
next
  case (Cons b bs)
  have "of_nat (unat b + 256 * le_to_nat bs) = b"
    by (simp add: word_unat_eq_iff del: of_nat_add of_nat_mult)
  moreover have "(unat b + 256 * le_to_nat bs) div 256 = le_to_nat bs"
    by simp
  ultimately show ?case using Cons by simp
qed

lemma le_to_nat_append: "le_to_nat (xs @ ys) = le_to_nat xs + 256 ^ length xs * le_to_nat ys"
  by (induction xs) (simp_all add: algebra_simps)

lemma length_to_le_bytes [simp, rb_bytes]:
  "length (to_le_bytes (w :: 'a::len word)) = LENGTH('a) div 8"
  by (simp add: to_le_bytes_def)

lemma length_to_be_bytes [simp, rb_bytes]:
  "length (to_be_bytes (w :: 'a::len word)) = LENGTH('a) div 8"
  by (simp add: to_be_bytes_def)

lemma from_to_le_bytes:
  assumes "8 dvd LENGTH('a)"
  shows "from_le_bytes (to_le_bytes (w :: 'a::len word)) = w"
proof -
  from assms obtain k where "LENGTH('a) = 8 * k" ..
  then have "256 ^ (LENGTH('a) div 8) = (2::nat) ^ LENGTH('a)"
    by (simp add: power_mult)
  then show ?thesis
    using unsigned_less[of w, where ?'a = nat] by (simp add: from_le_bytes_def to_le_bytes_def)
qed

lemma unat_from_le_bytes:
  assumes "length bs = LENGTH('a) div 8" and "8 dvd LENGTH('a)"
  shows "unat (from_le_bytes bs :: 'a::len word) = le_to_nat bs"
proof -
  from assms(2) obtain k where k: "LENGTH('a) = 8 * k" ..
  then have "(2::nat) ^ LENGTH('a) = 256 ^ length bs"
    using assms(1) by (simp add: power_mult)
  then show ?thesis
    using le_to_nat_bound[of bs] by (simp add: from_le_bytes_def unat_of_nat)
qed

lemma to_from_le_bytes:
  assumes "length bs = LENGTH('a) div 8" and "8 dvd LENGTH('a)"
  shows "to_le_bytes (from_le_bytes bs :: 'a::len word) = bs"
  using unat_from_le_bytes[OF assms] nat_to_le_le_to_nat[of bs]
  by (simp add: to_le_bytes_def assms(1))

lemma from_to_be_bytes:
  "8 dvd LENGTH('a) \<Longrightarrow> from_be_bytes (to_be_bytes (w :: 'a::len word)) = w"
  by (simp add: from_be_bytes_def to_be_bytes_def from_to_le_bytes)

lemma to_from_be_bytes:
  "length bs = LENGTH('a) div 8 \<Longrightarrow> 8 dvd LENGTH('a) \<Longrightarrow>
   to_be_bytes (from_be_bytes bs :: 'a::len word) = bs"
  by (simp add: from_be_bytes_def to_be_bytes_def to_from_le_bytes)

lemmas byte_rt [simp, rb_bytes] =
  from_to_le_bytes[where 'a = 16, simplified] from_to_le_bytes[where 'a = 32, simplified]
  from_to_le_bytes[where 'a = 64, simplified] from_to_le_bytes[where 'a = 128, simplified]
  from_to_be_bytes[where 'a = 16, simplified] from_to_be_bytes[where 'a = 32, simplified]
  from_to_be_bytes[where 'a = 64, simplified] from_to_be_bytes[where 'a = 128, simplified]

section \<open>Slices\<close>

text \<open>\<open>slice i j xs\<close> is \<^verbatim>\<open>xs.get(i..j)\<close>: absent unless \<open>i \<le> j \<le> len\<close>.\<close>

definition slice :: "nat \<Rightarrow> nat \<Rightarrow> 'a list \<Rightarrow> 'a list option" where
  "slice i j xs = (if i \<le> j \<and> j \<le> length xs then Some (take (j - i) (drop i xs)) else None)"

lemma slice_eq_Some:
  "slice i j xs = Some ys \<longleftrightarrow> i \<le> j \<and> j \<le> length xs \<and> ys = take (j - i) (drop i xs)"
  by (auto simp: slice_def)

lemma slice_append [simp]:
  "slice (length pre) (length pre + length ys) (pre @ ys @ post) = Some ys"
  by (simp add: slice_def)

lemma length_slice: "slice i j xs = Some ys \<Longrightarrow> length ys = j - i"
  by (auto simp: slice_eq_Some)

lemma nth_opt_append [simp]: "(pre @ b # post) ! length pre = b"
  by (simp add: nth_append)

end
