(* ===== verification/Canonical.thy ===== *)
theory Canonical
  imports RB_Prelude
begin

text \<open>
  \<^verbatim>\<open>src/canonical.rs\<close> and the markers of \<^verbatim>\<open>src/tags.rs\<close>: the little-endian marker varint and the
  ZigZag map. A \<^verbatim>\<open>u128\<close> is a \<^typ>\<open>128 word\<close>; an \<^verbatim>\<open>i128\<close> is the same word read with \<open>sint\<close>.
\<close>

section \<open>Wire constants\<close>

definition MARKER_U16 :: byte where "MARKER_U16 = 251"
definition MARKER_U32 :: byte where "MARKER_U32 = 252"
definition MARKER_U64 :: byte where "MARKER_U64 = 253"
definition MARKER_U128 :: byte where "MARKER_U128 = 254"

lemmas marker_defs = MARKER_U16_def MARKER_U32_def MARKER_U64_def MARKER_U128_def

definition VARINT_MAX_BYTES :: nat where "VARINT_MAX_BYTES = 1 + 16"

section \<open>Varints\<close>

text \<open>The encoder fills a 17-byte array and returns it with the number of meaningful bytes.\<close>

definition encode_varint_le :: "u128 \<Rightarrow> byte list \<times> nat" where
  "encode_varint_le value =
    (let pad = (\<lambda>bs. bs @ replicate (VARINT_MAX_BYTES - length bs) 0) in
     if value \<le> 250 then (pad [ucast value], 1)
     else if value \<le> 0xffff then (pad (MARKER_U16 # to_le_bytes (ucast value :: u16)), 3)
     else if value \<le> 0xffffffff then (pad (MARKER_U32 # to_le_bytes (ucast value :: u32)), 5)
     else if value \<le> 0xffffffffffffffff then (pad (MARKER_U64 # to_le_bytes (ucast value :: u64)), 9)
     else (pad (MARKER_U128 # to_le_bytes value), 17))"

text \<open>What every caller uses: \<^verbatim>\<open>&bytes[..len]\<close>.\<close>

definition varint_bytes :: "u128 \<Rightarrow> byte list" where
  "varint_bytes value = take (snd (encode_varint_le value)) (fst (encode_varint_le value))"

definition read_le16 :: "byte list \<Rightarrow> u16 option" where
  "read_le16 bytes = (if length bytes < 2 then None else Some (from_le_bytes [bytes ! 0, bytes ! 1]))"

definition read_le32 :: "byte list \<Rightarrow> u32 option" where
  "read_le32 bytes = (if length bytes < 4 then None else Some (from_le_bytes (take 4 bytes)))"

definition read_le64 :: "byte list \<Rightarrow> u64 option" where
  "read_le64 bytes = (if length bytes < 8 then None else Some (from_le_bytes (take 8 bytes)))"

definition read_le128 :: "byte list \<Rightarrow> u128 option" where
  "read_le128 bytes = (if length bytes < 16 then None else Some (from_le_bytes (take 16 bytes)))"

definition decode_varint_le :: "byte \<Rightarrow> byte list \<Rightarrow> u128 option" where
  "decode_varint_le marker payload =
    (let check = (\<lambda>minimum value. if value < minimum then None else Some value) in
     if marker \<le> 250 then Some (ucast marker)
     else if marker = MARKER_U16
       then Option.bind (map_option ucast (read_le16 payload)) (check 251)
     else if marker = MARKER_U32
       then Option.bind (map_option ucast (read_le32 payload)) (check 0x10000)
     else if marker = MARKER_U64
       then Option.bind (map_option ucast (read_le64 payload)) (check 0x100000000)
     else if marker = MARKER_U128
       then Option.bind (read_le128 payload) (check 0x10000000000000000)
     else None)"

definition decode_varint_le_u64 :: "byte \<Rightarrow> byte list \<Rightarrow> u64 option" where
  "decode_varint_le_u64 marker payload =
    (let check = (\<lambda>minimum value. if value < minimum then None else Some value) in
     if marker \<le> 250 then Some (ucast marker)
     else if marker = MARKER_U16
       then Option.bind (map_option ucast (read_le16 payload)) (check 251)
     else if marker = MARKER_U32
       then Option.bind (map_option ucast (read_le32 payload)) (check 0x10000)
     else if marker = MARKER_U64
       then Option.bind (read_le64 payload) (check 0x100000000)
     else None)"

text \<open>Payload length announced by a marker byte, \<open>None\<close> for the reserved marker 255.\<close>

definition payload_len :: "byte \<Rightarrow> nat option" where
  "payload_len marker =
    (if marker \<le> 250 then Some 0
     else if marker = MARKER_U16 then Some 2
     else if marker = MARKER_U32 then Some 4
     else if marker = MARKER_U64 then Some 8
     else if marker = MARKER_U128 then Some 16
     else None)"

section \<open>ZigZag\<close>

definition zigzag_encode :: "u128 \<Rightarrow> u128" where
  "zigzag_encode value = push_bit 1 value XOR signed_drop_bit 127 value"

definition zigzag_decode :: "u128 \<Rightarrow> u128" where
  "zigzag_decode encoded = drop_bit 1 encoded XOR - (encoded AND 1)"

section \<open>Auxiliary lemmas\<close>

lemma nat_to_le_mod [simp]: "nat_to_le n (v mod 256 ^ n) = nat_to_le n v"
  by (metis le_to_nat_nat_to_le length_nat_to_le nat_to_le_le_to_nat)

lemma unat_ucast_id: "unat v < 2 ^ LENGTH('b) \<Longrightarrow> unat (ucast (v :: 'a::len word) :: 'b::len word) = unat v"
  by (simp add: unsigned_ucast_eq take_bit_nat_eq_self_iff)

lemma ucast_ucast_id: "unat v < 2 ^ LENGTH('b) \<Longrightarrow> ucast (ucast (v :: 'a::len word) :: 'b::len word) = v"
  by (simp only: word_unat_eq_iff unat_ucast_id unsigned_ucast_eq[of "ucast v"])
    (simp add: take_bit_nat_eq_self_iff)

lemma to_le_bytes_ucast:
  assumes "unat v < 2 ^ LENGTH('b)"
  shows "to_le_bytes (ucast (v :: 'a::len word) :: 'b::len word) = nat_to_le (LENGTH('b) div 8) (unat v)"
  using assms by (simp add: to_le_bytes_def unat_ucast_id)

lemma varint_bytes_nat:
  "varint_bytes v =
    (let n = unat v in
     if n \<le> 250 then [of_nat n]
     else if n \<le> 0xffff then MARKER_U16 # nat_to_le 2 n
     else if n \<le> 0xffffffff then MARKER_U32 # nat_to_le 4 n
     else if n \<le> 0xffffffffffffffff then MARKER_U64 # nat_to_le 8 n
     else MARKER_U128 # nat_to_le 16 n)"
proof -
  have u: "ucast v = (of_nat (unat v) :: byte)" by (simp add: of_nat_unat)
  have c: "v \<le> 250 \<longleftrightarrow> unat v \<le> 250" "v \<le> 0xffff \<longleftrightarrow> unat v \<le> 0xffff"
    "v \<le> 0xffffffff \<longleftrightarrow> unat v \<le> 0xffffffff" 
    "v \<le> 0xffffffffffffffff \<longleftrightarrow> unat v \<le> 0xffffffffffffffff"
    by (simp_all add: word_le_nat_alt)
  show ?thesis
    unfolding varint_bytes_def encode_varint_le_def Let_def c u
    by (simp add: to_le_bytes_def unat_ucast_id[where 'b = 16, simplified]
        unat_ucast_id[where 'b = 32, simplified] unat_ucast_id[where 'b = 64, simplified])
qed

lemma le_to_nat_bound_len:
  assumes "length p = LENGTH('a::len) div 8" and "8 dvd LENGTH('a)"
  shows "le_to_nat p < 2 ^ LENGTH('a)"
proof -
  from assms(2) obtain k where "LENGTH('a) = 8 * k" ..
  then show ?thesis
    using le_to_nat_bound[of p] assms(1) by (simp add: power_mult)
qed

lemma ucast_from_le_bytes:
  assumes "length p = LENGTH('a) div 8" and "8 dvd LENGTH('a)" and "LENGTH('a) \<le> LENGTH('b)"
  shows "ucast (from_le_bytes p :: 'a::len word) = (of_nat (le_to_nat p) :: 'b::len word)"
proof -
  have "le_to_nat p < 2 ^ LENGTH('b)"
    using le_to_nat_bound_len[OF assms(1,2)] assms(3)
    by (meson less_le_trans one_le_numeral power_increasing)
  then show ?thesis
    by (simp add: word_unat_eq_iff unsigned_ucast_eq unat_from_le_bytes[OF assms(1,2)]
        unat_of_nat take_bit_eq_mod)
qed

text \<open>A payload of exactly the announced length decodes to its number, if that is not too small.\<close>

lemma payload_len_simps [simp]:
  "m \<le> 250 \<Longrightarrow> payload_len m = Some 0"
  "payload_len 251 = Some 2" "payload_len 252 = Some 4"
  "payload_len 253 = Some 8" "payload_len 254 = Some 16" "payload_len 255 = None"
  by (simp_all add: payload_len_def marker_defs)

lemma payload_len_cases:
  assumes "payload_len m = Some n"
  obtains "m \<le> 250" "n = 0" | "m = 251" "n = 2" | "m = 252" "n = 4" | "m = 253" "n = 8"
    | "m = 254" "n = 16"
  using assms by (auto simp: payload_len_def marker_defs split: if_splits)

lemma decode_varint_le_small [simp]: "m \<le> 250 \<Longrightarrow> decode_varint_le m p = Some (ucast m)"
  by (simp add: decode_varint_le_def)

lemma decode_varint_le_wide:
  "length p = 2 \<Longrightarrow> decode_varint_le 251 p =
     (if le_to_nat p < 251 then None else Some (of_nat (le_to_nat p)))"
  "length p = 4 \<Longrightarrow> decode_varint_le 252 p =
     (if le_to_nat p < 0x10000 then None else Some (of_nat (le_to_nat p)))"
  "length p = 8 \<Longrightarrow> decode_varint_le 253 p =
     (if le_to_nat p < 0x100000000 then None else Some (of_nat (le_to_nat p)))"
  "length p = 16 \<Longrightarrow> decode_varint_le 254 p =
     (if le_to_nat p < 0x10000000000000000 then None else Some (of_nat (le_to_nat p)))"
proof -
  assume p: "length p = 2"
  then have "[p ! 0, p ! 1] = p"
    by (cases p; cases "tl p") (auto simp: numeral_2_eq_2)
  then show "decode_varint_le 251 p =
     (if le_to_nat p < 251 then None else Some (of_nat (le_to_nat p)))"
    using p ucast_from_le_bytes[of p, where 'a = 16 and 'b = 128]
      le_to_nat_bound_len[of p, where 'a = 16]
    by (simp add: decode_varint_le_def marker_defs read_le16_def word_less_nat_alt Let_def unat_of_nat)
next
  assume p: "length p = 4"
  then show "decode_varint_le 252 p =
     (if le_to_nat p < 0x10000 then None else Some (of_nat (le_to_nat p)))"
    using ucast_from_le_bytes[of p, where 'a = 32 and 'b = 128]
      le_to_nat_bound_len[of p, where 'a = 32]
    by (simp add: decode_varint_le_def marker_defs read_le32_def word_less_nat_alt Let_def unat_of_nat)
next
  assume p: "length p = 8"
  then show "decode_varint_le 253 p =
     (if le_to_nat p < 0x100000000 then None else Some (of_nat (le_to_nat p)))"
    using ucast_from_le_bytes[of p, where 'a = 64 and 'b = 128]
      le_to_nat_bound_len[of p, where 'a = 64]
    by (simp add: decode_varint_le_def marker_defs read_le64_def word_less_nat_alt Let_def unat_of_nat)
next
  assume p: "length p = 16"
  then show "decode_varint_le 254 p =
     (if le_to_nat p < 0x10000000000000000 then None else Some (of_nat (le_to_nat p)))"
    using le_to_nat_bound_len[of p, where 'a = 128]
    by (simp add: decode_varint_le_def marker_defs read_le128_def word_less_nat_alt Let_def
        unat_of_nat from_le_bytes_def)
qed

section \<open>Round trip, uniqueness and bounds\<close>

lemma unat_u128_bound: "unat (v :: u128) < 256 ^ 16"
  using unsigned_less[of v, where ?'a = nat] by simp

lemma varint_cases:
  obtains "unat v \<le> 250" "varint_bytes v = [ucast v]"
    | "250 < unat v" "unat v < 256 ^ 2" "varint_bytes v = 251 # nat_to_le 2 (unat v)"
    | "256 ^ 2 \<le> unat v" "unat v < 256 ^ 4" "varint_bytes v = 252 # nat_to_le 4 (unat v)"
    | "256 ^ 4 \<le> unat v" "unat v < 256 ^ 8" "varint_bytes v = 253 # nat_to_le 8 (unat v)"
    | "256 ^ 8 \<le> unat v" "unat v < 256 ^ 16" "varint_bytes v = 254 # nat_to_le 16 (unat v)"
  using unat_u128_bound[of v]
  by (cases "unat v \<le> 250"; cases "unat v \<le> 0xffff"; cases "unat v \<le> 0xffffffff";
      cases "unat v \<le> 0xffffffffffffffff")
    (simp_all add: varint_bytes_nat marker_defs Let_def)

lemma ucast_byte_le: "unat (v :: u128) \<le> 250 \<Longrightarrow> (ucast v :: byte) \<le> 250"
  by (simp add: word_le_nat_alt unsigned_ucast_eq take_bit_eq_mod)

lemma varint_bytes_shape:
  "payload_len (hd (varint_bytes v)) = Some (length (tl (varint_bytes v)))"
  by (cases v rule: varint_cases) (simp_all add: ucast_byte_le)

lemma varint_decode_encode:
  "decode_varint_le (hd (varint_bytes v)) (tl (varint_bytes v)) = Some v"
  by (cases v rule: varint_cases)
    (simp_all add: ucast_byte_le decode_varint_le_wide ucast_ucast_id)

lemma varint_bytes_small: "unat v \<le> 250 \<Longrightarrow> varint_bytes v = [ucast v]"
  by (simp add: varint_bytes_nat word_unat_eq_iff unsigned_ucast_eq take_bit_eq_mod)

lemma varint_encode_decode:
  assumes "payload_len m = Some (length p)" and "decode_varint_le m p = Some v"
  shows "varint_bytes v = m # p"
proof -
  have p: "nat_to_le (length p) (le_to_nat p) = p" by simp
  have b: "le_to_nat p < 256 ^ length p" by (rule le_to_nat_bound)
  from assms(1) show ?thesis
  proof (cases rule: payload_len_cases)
    case 1
    then have "unat m \<le> 250" by (simp add: word_le_nat_alt)
    then show ?thesis using 1 assms(2) varint_bytes_small[of v]
      by (auto simp: unsigned_ucast_eq take_bit_eq_mod word_unat_eq_iff)
  qed (use assms(2) p b in \<open>auto simp: decode_varint_le_wide varint_bytes_nat marker_defs Let_def
      unat_of_nat split: if_splits\<close>)
qed

lemma length_varint_bytes: "length (varint_bytes v) \<in> {1, 3, 5, 9, 17}"
  by (simp add: varint_bytes_nat Let_def)


lemma ucast_of_nat: "n < 2 ^ LENGTH('a) \<Longrightarrow> ucast (of_nat n :: 'a::len word) = (of_nat n :: 'b::len word)"
  by (simp add: word_unat_eq_iff unsigned_ucast_eq unat_of_nat take_bit_eq_mod)

lemma ucast_read_le:
  assumes "8 dvd LENGTH('a)" and "LENGTH('a) \<le> LENGTH('b)" and "length p = LENGTH('a) div 8"
  shows "ucast (from_le_bytes p :: 'a::len word) = (of_nat (le_to_nat p) :: 'b::len word)"
  using assms by (simp add: ucast_from_le_bytes)

lemma take_2: "2 \<le> length p \<Longrightarrow> [p ! 0, p ! 1] = take 2 p"
  by (cases p; cases "tl p") (auto simp: numeral_2_eq_2)

lemma read_le_ucast:
  "16 \<le> LENGTH('b::len) \<Longrightarrow> map_option ucast (read_le16 p) =
    (if length p < 2 then None else Some (of_nat (le_to_nat (take 2 p)) :: 'b word))"
  "32 \<le> LENGTH('b) \<Longrightarrow> map_option ucast (read_le32 p) =
    (if length p < 4 then None else Some (of_nat (le_to_nat (take 4 p)) :: 'b word))"
  "64 \<le> LENGTH('b) \<Longrightarrow> map_option ucast (read_le64 p) =
    (if length p < 8 then None else Some (of_nat (le_to_nat (take 8 p)) :: 'b word))"
  using take_2[of p] by (auto simp: read_le16_def read_le32_def read_le64_def ucast_read_le not_less)

lemma marker_cases:
  obtains "m \<le> 250" | "m = 251" | "m = 252" | "m = 253" | "m = 254" | "m = (255 :: byte)"
proof (cases "m \<le> 250")
  case False
  then have "unat m \<in> {251, 252, 253, 254, 255}"
    using unat_byte_less[of m] by (simp add: word_le_nat_alt del: unat_byte_less) arith
  then show thesis using that by (auto simp: word_unat_eq_iff)
qed (use that in blast)

lemma ucast_check:
  assumes "n < 2 ^ 64" and "k < 2 ^ 64"
  shows "(if (of_nat n :: u64) < of_nat k then None else Some (of_nat n :: u64)) =
    map_option ucast (if (of_nat n :: u128) < of_nat k then None else Some (of_nat n :: u128))"
  using assms by (simp add: word_less_nat_alt unat_of_nat ucast_of_nat)

lemma le_to_nat_take_bound:
  "n \<le> 8 \<Longrightarrow> le_to_nat (take n p) < 2 ^ 64"
proof -
  assume n: "n \<le> 8"
  have "le_to_nat (take n p) < 256 ^ length (take n p)" by (rule le_to_nat_bound)
  also have "\<dots> \<le> 256 ^ 8" using n by (intro power_increasing) auto
  finally show ?thesis by simp
qed

lemma decode_u64_eq:
  "decode_varint_le_u64 m p =
    (if m = MARKER_U128 then None else map_option ucast (decode_varint_le m p))"
proof -
  note defs = decode_varint_le_u64_def decode_varint_le_def marker_defs Let_def
  have 8: "read_le64 p = map_option ucast (read_le64 p)" by (cases "read_le64 p") simp_all
  show ?thesis
  proof (cases m rule: marker_cases)
    case 1
    then have "m \<noteq> 254" by auto
    with 1 show ?thesis by (auto simp: defs intro!: bit_word_eqI simp: bit_simps)
  next
    case 2
    then show ?thesis
      using ucast_check[of "le_to_nat (take 2 p)" 251] le_to_nat_take_bound[of 2 p]
      by (simp add: defs read_le_ucast )
  next
    case 3
    then show ?thesis
      using ucast_check[of "le_to_nat (take 4 p)" "0x10000"] le_to_nat_take_bound[of 4 p]
      by (simp add: defs read_le_ucast)
  next
    case 4
    then show ?thesis
      using ucast_check[of "le_to_nat (take 8 p)" "0x100000000"] le_to_nat_take_bound[of 8 p]
      by (subst (1) defs) (subst 8, simp add: defs read_le_ucast)
  qed (simp_all add: defs)
qed

text \<open>
  The hot-path decoder for \<^verbatim>\<open>u64\<close> targets agrees with the 128-bit decoder on every marker and
  every payload (long, short or non-canonical), except that it always refuses the 128-bit marker.
\<close>

theorem decode_varint_le_u64_eq:
  "decode_varint_le_u64 m p =
    (if m = MARKER_U128 then None else map_option ucast (decode_varint_le m p))"
  by (rule decode_u64_eq)

lemma bit_zigzag_encode:
  "bit (zigzag_encode v) n \<longleftrightarrow> n < 128 \<and> ((0 < n \<and> bit v (n - 1)) \<noteq> bit v 127)"
  unfolding zigzag_encode_def bit_xor_iff bit_push_bit_iff bit_signed_drop_bit_iff
  by (auto simp: bit_word_iff_drop_bit_and[symmetric] not_le min_def dest: bit_imp_le_length)

lemma bit_zigzag_decode:
  "bit (zigzag_decode e) n \<longleftrightarrow> n < 128 \<and> (bit e (Suc n) \<noteq> bit e 0)"
proof -
  have "- (e AND 1) = (if bit e 0 then - 1 else 0)"
    by (simp add: and_one_eq mod_2_eq_odd bit_0)
  then show ?thesis
    by (auto simp: zigzag_decode_def bit_xor_iff bit_drop_bit_eq dest: bit_imp_le_length)
qed

lemma zigzag_decode_encode: "zigzag_decode (zigzag_encode v) = v"
proof (rule bit_word_eqI)
  fix n :: nat
  assume "n < LENGTH(128)"
  then show "bit (zigzag_decode (zigzag_encode v)) n = bit v n"
    by (cases "n = 127") (auto simp: bit_zigzag_decode bit_zigzag_encode)
qed

lemma zigzag_encode_decode: "zigzag_encode (zigzag_decode e) = e"
proof (rule bit_word_eqI)
  fix n :: nat
  assume "n < LENGTH(128)"
  moreover have "\<not> bit e 128" by (auto dest: bit_imp_le_length)
  ultimately show "bit (zigzag_encode (zigzag_decode e)) n = bit e n"
    by (cases n) (auto simp: bit_zigzag_decode bit_zigzag_encode)
qed


lemma zigzag_nonneg: "\<not> bit v 127 \<Longrightarrow> zigzag_encode v = 2 * v"
  by (rule bit_word_eqI) (auto simp: bit_zigzag_encode bit_double_iff)

lemma zigzag_neg: "bit v 127 \<Longrightarrow> zigzag_encode v = - 2 * v - 1"
proof -
  assume "bit v 127"
  then have "zigzag_encode v = NOT (2 * v)"
    by (intro bit_word_eqI) (auto simp: bit_zigzag_encode bit_double_iff bit_not_iff)
  then show ?thesis by (simp add: not_eq_complement)
qed

lemma uint_zigzag_encode:
  "uint (zigzag_encode v) = (if 0 \<le> sint v then 2 * sint v else - 2 * sint v - 1)"
proof -
  have u: "0 \<le> uint v" "uint v < 2 ^ 128"
    using unsigned_less[of v, where ?'a = int] by simp_all
  then have s: "sint v = (if bit v 127 then uint v - 2 ^ 128 else uint v)"
    by (simp add: sint_uint signed_take_bit_eq_take_bit_minus take_bit_eq_mod bit_uint_iff)
  have b: "bit v 127 \<longleftrightarrow> 2 ^ 127 \<le> uint v"
  proof -
    have "bit v 127 \<longleftrightarrow> odd (uint v div 2 ^ 127)"
      using bit_uint_iff[of v 127] by (simp add: bit_iff_odd)
    moreover have "uint v div 2 ^ 127 = (if 2 ^ 127 \<le> uint v then 1 else 0)"
      using u by auto
    ultimately show ?thesis by auto
  qed
  show ?thesis
  proof (cases "bit v 127")
    case True
    then have "uint (zigzag_encode v) = (- 2 * uint v - 1) mod 2 ^ 128"
      by (simp add: zigzag_neg uint_word_ariths mod_simps)
    also have "\<dots> = (- 2 * uint v - 1 + 2 * 2 ^ 128) mod 2 ^ 128"
      by (rule mod_mult_self1[symmetric])
    also have "\<dots> = - 2 * uint v - 1 + 2 * 2 ^ 128"
      using True b u by (intro mod_pos_pos_trivial) auto
    finally show ?thesis using True s b u by simp
  next
    case False
    then show ?thesis using s b u by (simp add: zigzag_nonneg uint_word_ariths)
  qed
qed

text \<open>
  C8: the varint wire form is a bijection between 128-bit values and the accepted encodings: a marker
  and a payload of the announced length decode to a value exactly when they are the bytes the
  encoder writes for that value, so every value has one encoding and every accepted encoding is
  canonical.
\<close>

theorem varint_canonical_iff:
  "payload_len m = Some (length p) \<and> decode_varint_le m p = Some v \<longleftrightarrow> varint_bytes v = m # p"
  using varint_encode_decode[of m p v] varint_bytes_shape[of v] varint_decode_encode[of v] by auto

text \<open>
  ZigZag is a bijection of the 128-bit words (the decoder inverts the encoder and the encoder
  inverts the decoder), and it is the documented map: a signed value \<open>n\<close> becomes \<open>2n\<close> when it is not
  negative and \<open>-2n - 1\<close> otherwise, with no wrap-around at either end of \<^verbatim>\<open>i128\<close>.
\<close>

theorem zigzag_bijection:
  "zigzag_decode (zigzag_encode v) = v \<and> zigzag_encode (zigzag_decode e) = e \<and>
   uint (zigzag_encode v) = (if 0 \<le> sint v then 2 * sint v else - 2 * sint v - 1)"
  using zigzag_decode_encode zigzag_encode_decode uint_zigzag_encode by simp

end
