(* ===== verification/Config.thy ===== *)
theory Config
  imports Canonical
begin

text \<open>
  \<^verbatim>\<open>src/config.rs\<close>: the configuration value, its builders and the policies they set. The target is
  little-endian, so \<^verbatim>\<open>Endian::Native\<close> writes little-endian.
\<close>

definition DEFAULT_SIZE_LIMIT :: nat where "DEFAULT_SIZE_LIMIT = 64 * 1024 * 1024"
definition DEFAULT_COLLECTION_LIMIT :: nat where "DEFAULT_COLLECTION_LIMIT = 1000000"
definition MAX_DEPTH :: nat where "MAX_DEPTH = 128"

datatype endian = Little | Big | Native
datatype int_encoding = Fixed | Variable
datatype trailing = Allow | Reject
datatype binary_profile = SelfDescribing | CompactSchema | Evolution

definition endian_little :: "endian \<Rightarrow> bool" where
  "endian_little e = (case e of Little \<Rightarrow> True | Big \<Rightarrow> False | Native \<Rightarrow> True)"

record config =
  c_endian :: endian
  c_integers :: int_encoding
  c_trailing :: trailing
  c_limit :: "nat option"
  c_collection_limit :: "nat option"
  c_depth_limit :: nat

definition standard :: config where
  "standard = \<lparr> c_endian = Little, c_integers = Variable, c_trailing = Reject,
     c_limit = Some DEFAULT_SIZE_LIMIT, c_collection_limit = Some DEFAULT_COLLECTION_LIMIT,
     c_depth_limit = MAX_DEPTH \<rparr>"

definition legacy :: config where
  "legacy = \<lparr> c_endian = Little, c_integers = Fixed, c_trailing = Allow, c_limit = None,
     c_collection_limit = None, c_depth_limit = MAX_DEPTH \<rparr>"

definition with_little_endian :: "config \<Rightarrow> config" where
  "with_little_endian c = c\<lparr>c_endian := Little\<rparr>"

definition with_big_endian :: "config \<Rightarrow> config" where
  "with_big_endian c = c\<lparr>c_endian := Big\<rparr>"

definition with_native_endian :: "config \<Rightarrow> config" where
  "with_native_endian c = c\<lparr>c_endian := Native\<rparr>"

definition with_fixint_encoding :: "config \<Rightarrow> config" where
  "with_fixint_encoding c = c\<lparr>c_integers := Fixed\<rparr>"

definition with_varint_encoding :: "config \<Rightarrow> config" where
  "with_varint_encoding c = c\<lparr>c_integers := Variable\<rparr>"

definition with_limit :: "nat \<Rightarrow> config \<Rightarrow> config" where
  "with_limit l c = c\<lparr>c_limit := Some l,
     c_collection_limit := Some (case c_collection_limit c of
         Some current \<Rightarrow> if current < l then current else l
       | None \<Rightarrow> l)\<rparr>"

definition with_no_limit :: "config \<Rightarrow> config" where
  "with_no_limit c = c\<lparr>c_limit := None\<rparr>"

definition with_collection_limit :: "nat \<Rightarrow> config \<Rightarrow> config" where
  "with_collection_limit l c = c\<lparr>c_collection_limit := Some l\<rparr>"

definition with_no_collection_limit :: "config \<Rightarrow> config" where
  "with_no_collection_limit c = c\<lparr>c_collection_limit := None\<rparr>"

definition with_depth_limit :: "nat \<Rightarrow> config \<Rightarrow> config" where
  "with_depth_limit l c = c\<lparr>c_depth_limit := (if l > MAX_DEPTH then MAX_DEPTH else l)\<rparr>"

definition reject_trailing_bytes :: "config \<Rightarrow> config" where
  "reject_trailing_bytes c = c\<lparr>c_trailing := Reject\<rparr>"

definition allow_trailing_bytes :: "config \<Rightarrow> config" where
  "allow_trailing_bytes c = c\<lparr>c_trailing := Allow\<rparr>"

definition profile :: "config \<Rightarrow> binary_profile" where
  "profile c = SelfDescribing"

text \<open>The fluent interface as a command language: one constructor for each builder.\<close>

datatype builder =
    BLittle | BBig | BNative | BFixint | BVarint | BLimit nat | BNoLimit
  | BCollection nat | BNoCollection | BDepth nat | BReject | BAllow

fun build :: "builder \<Rightarrow> config \<Rightarrow> config" where
  "build BLittle = with_little_endian"
| "build BBig = with_big_endian"
| "build BNative = with_native_endian"
| "build BFixint = with_fixint_encoding"
| "build BVarint = with_varint_encoding"
| "build (BLimit l) = with_limit l"
| "build BNoLimit = with_no_limit"
| "build (BCollection l) = with_collection_limit l"
| "build BNoCollection = with_no_collection_limit"
| "build (BDepth l) = with_depth_limit l"
| "build BReject = reject_trailing_bytes"
| "build BAllow = allow_trailing_bytes"

lemmas config_defs = standard_def legacy_def with_little_endian_def with_big_endian_def
  with_native_endian_def with_fixint_encoding_def with_varint_encoding_def with_limit_def
  with_no_limit_def with_collection_limit_def with_no_collection_limit_def with_depth_limit_def
  reject_trailing_bytes_def allow_trailing_bytes_def

section \<open>The depth ceiling\<close>

text \<open>
  Configurations have private fields: outside the crate they are only ever obtained by a chain of
  builders from one of the two profiles.
\<close>

inductive reachable_config :: "config \<Rightarrow> bool" where
  standard: "reachable_config standard"
| legacy: "reachable_config legacy"
| build: "reachable_config c \<Longrightarrow> reachable_config (build b c)"

lemma build_depth: "c_depth_limit c \<le> MAX_DEPTH \<Longrightarrow> c_depth_limit (build b c) \<le> MAX_DEPTH"
  by (cases b) (simp_all add: config_defs)

lemma depth_reachable: "reachable_config c \<Longrightarrow> c_depth_limit c \<le> MAX_DEPTH"
  by (induction rule: reachable_config.induct) (simp_all add: build_depth, simp_all add: config_defs)

text \<open>Tightening the byte limit never loosens the element limit.\<close>

lemma with_limit_tightens:
  "c_collection_limit (with_limit l c) = Some (case c_collection_limit c of None \<Rightarrow> l | Some k \<Rightarrow> min k l)"
  by (auto simp: with_limit_def split: option.split)

end
