(* ===== verification/Writer.thy ===== *)
theory Writer
  imports Config
begin

text \<open>
  \<^verbatim>\<open>src/writer.rs\<close>: the byte sinks the encoders write to. The trait \<^verbatim>\<open>EncodeWriter\<close> is the locale
  \<open>sink\<close>: its \<^verbatim>\<open>write_all\<close> with the law every client relies on, that the sink keeps track of the bytes
  presented to it and refuses nothing while their number fits a \<^verbatim>\<open>usize\<close>. The vector, the
  caller-owned slice and the counter are its three interpretations.
\<close>

section \<open>Vector\<close>

definition vec_write_all :: "byte list \<Rightarrow> (byte list, unit) op" where
  "vec_write_all bytes out = (Inr (), out @ bytes)"

section \<open>Caller-owned slice\<close>

record slice_writer =
  sw_output :: "byte list"
  sw_required :: nat

definition slice_new :: "byte list \<Rightarrow> slice_writer" where
  "slice_new output = \<lparr> sw_output = output, sw_required = 0 \<rparr>"

definition written_len :: "slice_writer \<Rightarrow> nat" where
  "written_len w = min (sw_required w) (length (sw_output w))"

definition slice_finish :: "slice_writer \<Rightarrow> error + nat" where
  "slice_finish w =
    (if sw_required w > length (sw_output w)
     then Inl (BufferTooSmall (sw_required w) (length (sw_output w)))
     else Inr (sw_required w))"

definition slice_write_all :: "byte list \<Rightarrow> (slice_writer, unit) op" where
  "slice_write_all bytes w =
    (let start = min (sw_required w) (length (sw_output w));
         writable = min (length (sw_output w) - start) (length bytes);
         w' = w\<lparr>sw_output := take start (sw_output w) @ take writable bytes
                  @ drop (start + writable) (sw_output w)\<rparr>
     in if sw_required w + length bytes > usize_max then (Inl (SizeLimit usize_max), w')
        else (Inr (), w'\<lparr>sw_required := sw_required w + length bytes\<rparr>))"

section \<open>Counter\<close>

record count_writer =
  cw_written :: nat

definition count_new :: count_writer where
  "count_new = \<lparr> cw_written = 0 \<rparr>"

definition count_write_all :: "byte list \<Rightarrow> (count_writer, unit) op" where
  "count_write_all bytes w =
    (if length bytes > usize_max then (Inl (IntegerOverflow ''u64''), w)
     else if cw_written w + length bytes > usize_max then (Inl (SizeLimit usize_max), w)
     else (Inr (), w\<lparr>cw_written := cw_written w + length bytes\<rparr>))"

section \<open>The sink contract\<close>

text \<open>\<open>holds w bs\<close>: \<open>w\<close> is the state of the sink after the bytes \<open>bs\<close> have been presented to it.\<close>

locale sink =
  fixes write_all :: "byte list \<Rightarrow> ('w, unit) op"
    and holds :: "'w \<Rightarrow> byte list \<Rightarrow> bool"
  assumes write_ok: "holds w bs \<Longrightarrow> length bs + length x \<le> usize_max \<Longrightarrow>
      \<exists>w'. write_all x w = (Inr (), w') \<and> holds w' (bs @ x)"
begin

text \<open>Presenting a list of chunks is presenting their concatenation.\<close>

primrec write_chunks :: "byte list list \<Rightarrow> ('w, unit) op" where
  "write_chunks [] = sret ()"
| "write_chunks (x # xs) = sbind (write_all x) (\<lambda>_. write_chunks xs)"

lemma write_chunks_ok:
  "holds w bs \<Longrightarrow> length bs + length (concat xs) \<le> usize_max \<Longrightarrow>
   \<exists>w'. write_chunks xs w = (Inr (), w') \<and> holds w' (bs @ concat xs)"
proof (induction xs arbitrary: w bs)
  case Nil
  then show ?case by simp
next
  case (Cons x xs)
  then obtain w1 where w1: "write_all x w = (Inr (), w1)" "holds w1 (bs @ x)"
    using write_ok[of w bs x] by auto
  moreover have "length (bs @ x) + length (concat xs) \<le> usize_max"
    using Cons.prems(2) by simp
  ultimately show ?case
    using Cons.IH[OF w1(2)] by auto
qed

end

definition vec_holds :: "byte list \<Rightarrow> byte list \<Rightarrow> bool" where
  "vec_holds w bs \<longleftrightarrow> w = bs"

text \<open>\<open>orig\<close> is the content of the buffer before the first write.\<close>

definition slice_holds :: "byte list \<Rightarrow> slice_writer \<Rightarrow> byte list \<Rightarrow> bool" where
  "slice_holds orig w bs \<longleftrightarrow> sw_required w = length bs \<and>
     sw_output w = take (length orig) bs @ drop (length bs) orig"

definition count_holds :: "count_writer \<Rightarrow> byte list \<Rightarrow> bool" where
  "count_holds w bs \<longleftrightarrow> cw_written w = length bs"

interpretation vec_sink: sink vec_write_all vec_holds
  by unfold_locales (simp add: vec_write_all_def vec_holds_def)

lemma slice_write_step:
  assumes "slice_holds orig w bs" and "length bs + length x \<le> usize_max"
  shows "\<exists>w'. slice_write_all x w = (Inr (), w') \<and> slice_holds orig w' (bs @ x)"
proof -
  have r: "sw_required w = length bs" "sw_output w = take (length orig) bs @ drop (length bs) orig"
    using assms(1) by (auto simp: slice_holds_def)
  show ?thesis
  proof (cases "length bs \<le> length orig")
    case True
    then show ?thesis
      using assms(2) r by (simp add: slice_write_all_def slice_holds_def Let_def min_def
          add.commute)
  next
    case False
    then show ?thesis
      using assms(2) r by (simp add: slice_write_all_def slice_holds_def Let_def)
  qed
qed

interpretation slice_sink: sink slice_write_all "slice_holds orig" for orig
  by unfold_locales (rule slice_write_step)

interpretation count_sink: sink count_write_all count_holds
  by unfold_locales (simp add: count_write_all_def count_holds_def)

lemma slice_new_holds: "slice_holds orig (slice_new orig) []"
  by (simp add: slice_holds_def slice_new_def)

lemma count_new_holds: "count_holds count_new []"
  by (simp add: count_holds_def count_new_def)

lemma vec_new_holds: "vec_holds [] []"
  by (simp add: vec_holds_def)

lemma slice_holds_finish:
  assumes "slice_holds orig w bs"
  shows "slice_finish w = (if length bs \<le> length orig then Inr (length bs)
      else Inl (BufferTooSmall (length bs) (length orig)))"
    and "written_len w = min (length bs) (length orig)"
    and "take (written_len w) (sw_output w) = take (length orig) bs"
    and "drop (written_len w) (sw_output w) = drop (length bs) orig"
  using assms by (auto simp: slice_holds_def slice_finish_def written_len_def min_def)

end
