(* ===== verification/Ser.thy ===== *)
theory Ser
  imports Writer
begin

text \<open>
  \<^verbatim>\<open>src/ser.rs\<close>: the self-describing encoder. nextjson drives it through \<^verbatim>\<open>FormatEncoder\<close>; a
  serialised value is the list of the events its (third-party or derived) \<^verbatim>\<open>nextencode\<close> issues,
  which stops at the first error. The encoder's \<^verbatim>\<open>wire_error\<close> field is the result's error. Strings
  are the bytes of their UTF-8 form, a \<^verbatim>\<open>char\<close> is its scalar value, a float its bit pattern.
\<close>

section \<open>Tags (\<^verbatim>\<open>src/tags.rs\<close>)\<close>

definition TAG_NULL :: byte where "TAG_NULL = 0x00"
definition TAG_FALSE :: byte where "TAG_FALSE = 0x01"
definition TAG_TRUE :: byte where "TAG_TRUE = 0x02"
definition TAG_U64 :: byte where "TAG_U64 = 0x03"
definition TAG_U128 :: byte where "TAG_U128 = 0x04"
definition TAG_I64 :: byte where "TAG_I64 = 0x05"
definition TAG_I128 :: byte where "TAG_I128 = 0x06"
definition TAG_F64 :: byte where "TAG_F64 = 0x07"
definition TAG_F32 :: byte where "TAG_F32 = 0x08"
definition TAG_STRING :: byte where "TAG_STRING = 0x09"
definition TAG_ARRAY :: byte where "TAG_ARRAY = 0x0a"
definition TAG_OBJECT :: byte where "TAG_OBJECT = 0x0b"
definition TAG_END :: byte where "TAG_END = 0xff"

lemmas tag_defs = TAG_NULL_def TAG_FALSE_def TAG_TRUE_def TAG_U64_def TAG_U128_def TAG_I64_def
  TAG_I128_def TAG_F64_def TAG_F32_def TAG_STRING_def TAG_ARRAY_def TAG_OBJECT_def TAG_END_def

section \<open>Events\<close>

datatype number = U64 u64 | U128 u128 | I64 u64 | I128 u128 | F64 u64

datatype event =
    EvBeginArray | EvSeparator | EvEndArray | EvBeginObject | EvKey "byte list" | EvEndObject
  | EvNull | EvBool bool | EvU64 u64 | EvU128 u128 | EvI64 u64 | EvI128 u128
  | EvF64 u64 | EvF32 u32 | EvStr "byte list" | EvChar u32 | EvNumber number

definition is_finite64 :: "u64 \<Rightarrow> bool" where
  "is_finite64 w \<longleftrightarrow> (drop_bit 52 w) AND 0x7ff \<noteq> 0x7ff"

definition is_finite32 :: "u32 \<Rightarrow> bool" where
  "is_finite32 w \<longleftrightarrow> (drop_bit 23 w) AND 0xff \<noteq> 0xff"

text \<open>Rust's \<^verbatim>\<open>char::encode_utf8\<close>.\<close>

definition encode_utf8 :: "u32 \<Rightarrow> byte list" where
  "encode_utf8 c =
    (if c < 0x80 then [ucast c]
     else if c < 0x800 then [0xC0 OR ucast (drop_bit 6 c), 0x80 OR (ucast c AND 0x3F)]
     else if c < 0x10000 then
       [0xE0 OR ucast (drop_bit 12 c), 0x80 OR (ucast (drop_bit 6 c) AND 0x3F), 0x80 OR (ucast c AND 0x3F)]
     else [0xF0 OR ucast (drop_bit 18 c), 0x80 OR (ucast (drop_bit 12 c) AND 0x3F),
       0x80 OR (ucast (drop_bit 6 c) AND 0x3F), 0x80 OR (ucast c AND 0x3F)])"

section \<open>The encoder\<close>

record 'w encoder =
  e_writer :: 'w
  e_written :: nat
  e_depth :: nat
  e_counts :: "nat list"

definition encoder_new :: "'w \<Rightarrow> 'w encoder" where
  "encoder_new w = \<lparr> e_writer = w, e_written = 0, e_depth = 0, e_counts = replicate MAX_DEPTH 0 \<rparr>"

definition emit :: "(byte list \<Rightarrow> ('w, unit) op) \<Rightarrow> config \<Rightarrow> byte list \<Rightarrow> ('w encoder, unit) op" where
  "emit wr cfg bytes e =
    (if length bytes > usize_max then (Inl (IntegerOverflow ''u64''), e)
     else let next = e_written e + length bytes in
       if next > usize_max then (Inl (SizeLimit usize_max), e)
       else case check_limit (c_limit cfg) next of
           Inl err \<Rightarrow> (Inl err, e)
         | Inr _ \<Rightarrow>
           (case wr bytes (e_writer e) of
              (Inl err, w) \<Rightarrow> (Inl err, e\<lparr>e_writer := w\<rparr>)
            | (Inr _, w) \<Rightarrow> (Inr (), e\<lparr>e_writer := w, e_written := next\<rparr>)))"

definition emit_tag :: "(byte list \<Rightarrow> ('w, unit) op) \<Rightarrow> config \<Rightarrow> byte \<Rightarrow> ('w encoder, unit) op" where
  "emit_tag wr cfg tag = emit wr cfg [tag]"

definition enc_fixed ::
  "(byte list \<Rightarrow> ('w, unit) op) \<Rightarrow> config \<Rightarrow> byte list \<Rightarrow> byte list \<Rightarrow> ('w encoder, unit) op" where
  "enc_fixed wr cfg little big = emit wr cfg (if endian_little (c_endian cfg) then little else big)"

definition enc_varint :: "(byte list \<Rightarrow> ('w, unit) op) \<Rightarrow> config \<Rightarrow> u128 \<Rightarrow> ('w encoder, unit) op" where
  "enc_varint wr cfg value =
    (if endian_little (c_endian cfg)
     then (let (encoded, len) = encode_varint_le value in emit wr cfg (take len encoded))
     else if value \<le> 250 then emit_tag wr cfg (ucast value)
     else if value \<le> 0xffff then emit wr cfg (MARKER_U16 # to_be_bytes (ucast value :: u16))
     else if value \<le> 0xffffffff then emit wr cfg (MARKER_U32 # to_be_bytes (ucast value :: u32))
     else if value \<le> 0xffffffffffffffff then emit wr cfg (MARKER_U64 # to_be_bytes (ucast value :: u64))
     else emit wr cfg (MARKER_U128 # to_be_bytes value))"

definition enc_unsigned ::
  "(byte list \<Rightarrow> ('w, unit) op) \<Rightarrow> config \<Rightarrow> u128 \<Rightarrow> nat \<Rightarrow> ('w encoder, unit) op" where
  "enc_unsigned wr cfg value fixed_bytes =
    (if c_integers cfg = Variable \<and> fixed_bytes > 1 then enc_varint wr cfg value
     else emit wr cfg (if endian_little (c_endian cfg) then take fixed_bytes (to_le_bytes value)
            else drop (16 - fixed_bytes) (to_be_bytes value)))"

definition enc_signed ::
  "(byte list \<Rightarrow> ('w, unit) op) \<Rightarrow> config \<Rightarrow> u128 \<Rightarrow> nat \<Rightarrow> ('w encoder, unit) op" where
  "enc_signed wr cfg value fixed_bytes =
    (if c_integers cfg = Variable \<and> fixed_bytes > 1 then enc_varint wr cfg (zigzag_encode value)
     else emit wr cfg (if endian_little (c_endian cfg) then take fixed_bytes (to_le_bytes value)
            else drop (16 - fixed_bytes) (to_be_bytes value)))"

definition enc_length :: "(byte list \<Rightarrow> ('w, unit) op) \<Rightarrow> config \<Rightarrow> nat \<Rightarrow> ('w encoder, unit) op" where
  "enc_length wr cfg len =
    (if len > usize_max then sfail (IntegerOverflow ''u64'')
     else enc_unsigned wr cfg (of_nat len) 8)"

definition write_str_value ::
  "(byte list \<Rightarrow> ('w, unit) op) \<Rightarrow> config \<Rightarrow> byte list \<Rightarrow> ('w encoder, unit) op" where
  "write_str_value wr cfg value =
    sbind (emit_tag wr cfg TAG_STRING) (\<lambda>_.
    sbind (enc_length wr cfg (length value)) (\<lambda>_.
    emit wr cfg value))"

definition enter_container :: "(byte list \<Rightarrow> ('w, unit) op) \<Rightarrow> config \<Rightarrow> byte \<Rightarrow> ('w encoder, unit) op" where
  "enter_container wr cfg tag e =
    (if e_depth e \<ge> c_depth_limit cfg then (Inl (Custom ''encoder nesting depth limit exceeded''), e)
     else sbind (emit_tag wr cfg tag) (\<lambda>_. smod (\<lambda>e. e\<lparr>e_depth := e_depth e + 1\<rparr>)) e)"

text \<open>\<^verbatim>\<open>self.counts[index]\<close> with \<open>index\<close> out of the 128-entry table is a panic.\<close>

definition count_element :: "config \<Rightarrow> ('w encoder, unit) op" where
  "count_element cfg e =
    (if e_depth e = 0 then (Inl (Custom ''container element outside any container''), e)
     else let index = e_depth e - 1 in
       if index \<ge> length (e_counts e) then (Inl (Panic ''index out of bounds''), e)
       else let count = e_counts e ! index + 1 in
         if count > usize_max then (Inl (CollectionLimit usize_max), e)
         else case check_collection (c_collection_limit cfg) count of
             Inl err \<Rightarrow> (Inl err, e)
           | Inr _ \<Rightarrow> (Inr (), e\<lparr>e_counts := (e_counts e)[index := count]\<rparr>))"

definition enc_exit_container :: "(byte list \<Rightarrow> ('w, unit) op) \<Rightarrow> config \<Rightarrow> ('w encoder, unit) op" where
  "enc_exit_container wr cfg e =
    (if e_depth e = 0 then (Inl (Custom ''container end without matching start''), e)
     else let d = e_depth e - 1; e' = e\<lparr>e_depth := d\<rparr> in
       if d \<ge> length (e_counts e) then (Inl (Panic ''index out of bounds''), e')
       else emit_tag wr cfg TAG_END (e'\<lparr>e_counts := (e_counts e)[d := 0]\<rparr>))"

definition write_u64 :: "(byte list \<Rightarrow> ('w, unit) op) \<Rightarrow> config \<Rightarrow> u64 \<Rightarrow> ('w encoder, unit) op" where
  "write_u64 wr cfg value = sbind (emit_tag wr cfg TAG_U64) (\<lambda>_. enc_unsigned wr cfg (ucast value) 8)"

definition write_u128 :: "(byte list \<Rightarrow> ('w, unit) op) \<Rightarrow> config \<Rightarrow> u128 \<Rightarrow> ('w encoder, unit) op" where
  "write_u128 wr cfg value = sbind (emit_tag wr cfg TAG_U128) (\<lambda>_. enc_unsigned wr cfg value 16)"

definition write_i64 :: "(byte list \<Rightarrow> ('w, unit) op) \<Rightarrow> config \<Rightarrow> u64 \<Rightarrow> ('w encoder, unit) op" where
  "write_i64 wr cfg value = sbind (emit_tag wr cfg TAG_I64) (\<lambda>_. enc_signed wr cfg (scast value) 8)"

definition write_i128 :: "(byte list \<Rightarrow> ('w, unit) op) \<Rightarrow> config \<Rightarrow> u128 \<Rightarrow> ('w encoder, unit) op" where
  "write_i128 wr cfg value = sbind (emit_tag wr cfg TAG_I128) (\<lambda>_. enc_signed wr cfg value 16)"

definition write_f64 :: "(byte list \<Rightarrow> ('w, unit) op) \<Rightarrow> config \<Rightarrow> u64 \<Rightarrow> ('w encoder, unit) op" where
  "write_f64 wr cfg value =
    (if \<not> is_finite64 value then sfail NonFiniteFloat
     else sbind (emit_tag wr cfg TAG_F64) (\<lambda>_. enc_fixed wr cfg (to_le_bytes value) (to_be_bytes value)))"

definition write_f32 :: "(byte list \<Rightarrow> ('w, unit) op) \<Rightarrow> config \<Rightarrow> u32 \<Rightarrow> ('w encoder, unit) op" where
  "write_f32 wr cfg value =
    (if \<not> is_finite32 value then sfail NonFiniteFloat
     else sbind (emit_tag wr cfg TAG_F32) (\<lambda>_. enc_fixed wr cfg (to_le_bytes value) (to_be_bytes value)))"

definition write_number :: "(byte list \<Rightarrow> ('w, unit) op) \<Rightarrow> config \<Rightarrow> number \<Rightarrow> ('w encoder, unit) op" where
  "write_number wr cfg n =
    (case n of U64 v \<Rightarrow> write_u64 wr cfg v | U128 v \<Rightarrow> write_u128 wr cfg v
      | I64 v \<Rightarrow> write_i64 wr cfg v | I128 v \<Rightarrow> write_i128 wr cfg v | F64 v \<Rightarrow> write_f64 wr cfg v)"

text \<open>The \<^verbatim>\<open>FormatEncoder\<close> implementation: what each event does.\<close>

fun enc_event :: "(byte list \<Rightarrow> ('w, unit) op) \<Rightarrow> config \<Rightarrow> event \<Rightarrow> ('w encoder, unit) op" where
  "enc_event wr cfg EvBeginArray = enter_container wr cfg TAG_ARRAY"
| "enc_event wr cfg EvSeparator = count_element cfg"
| "enc_event wr cfg EvEndArray = enc_exit_container wr cfg"
| "enc_event wr cfg EvBeginObject = enter_container wr cfg TAG_OBJECT"
| "enc_event wr cfg (EvKey key) = sbind (count_element cfg) (\<lambda>_. write_str_value wr cfg key)"
| "enc_event wr cfg EvEndObject = enc_exit_container wr cfg"
| "enc_event wr cfg EvNull = emit_tag wr cfg TAG_NULL"
| "enc_event wr cfg (EvBool b) = emit_tag wr cfg (if b then TAG_TRUE else TAG_FALSE)"
| "enc_event wr cfg (EvU64 v) = write_u64 wr cfg v"
| "enc_event wr cfg (EvU128 v) = write_u128 wr cfg v"
| "enc_event wr cfg (EvI64 v) = write_i64 wr cfg v"
| "enc_event wr cfg (EvI128 v) = write_i128 wr cfg v"
| "enc_event wr cfg (EvF64 v) = write_f64 wr cfg v"
| "enc_event wr cfg (EvF32 v) = write_f32 wr cfg v"
| "enc_event wr cfg (EvStr s) = write_str_value wr cfg s"
| "enc_event wr cfg (EvChar c) = write_str_value wr cfg (encode_utf8 c)"
| "enc_event wr cfg (EvNumber n) = write_number wr cfg n"

primrec enc_events :: "(byte list \<Rightarrow> ('w, unit) op) \<Rightarrow> config \<Rightarrow> event list \<Rightarrow> ('w encoder, unit) op" where
  "enc_events wr cfg [] = sret ()"
| "enc_events wr cfg (v # vs) = sbind (enc_event wr cfg v) (\<lambda>_. enc_events wr cfg vs)"

section \<open>Entry points\<close>

definition to_writer ::
  "(byte list \<Rightarrow> ('w, unit) op) \<Rightarrow> config \<Rightarrow> event list \<Rightarrow> 'w \<Rightarrow> (error + nat) \<times> 'w" where
  "to_writer wr cfg vs w =
    (case enc_events wr cfg vs (encoder_new w) of
       (Inl err, e) \<Rightarrow> (Inl err, e_writer e)
     | (Inr _, e) \<Rightarrow>
         if e_depth e \<noteq> 0 then (Inl (Custom ''encoder finished inside an unclosed container''), e_writer e)
         else (Inr (e_written e), e_writer e))"

definition to_vec :: "config \<Rightarrow> event list \<Rightarrow> error + byte list" where
  "to_vec cfg vs = (let (r, out) = to_writer vec_write_all cfg vs [] in rmap (\<lambda>_. out) r)"

definition to_slice :: "config \<Rightarrow> event list \<Rightarrow> byte list \<Rightarrow> (error + nat) \<times> byte list" where
  "to_slice cfg vs output =
    (let (r, w) = to_writer slice_write_all cfg vs (slice_new output)
     in (rbind r (\<lambda>_. slice_finish w), sw_output w))"

definition ser_size :: "config \<Rightarrow> event list \<Rightarrow> error + nat" where
  "ser_size cfg vs = fst (to_writer count_write_all cfg vs count_new)"

section \<open>Any sink gives the vector's result\<close>

text \<open>
  An encoder over a sink follows the encoder over a vector: same result, same counters, and the sink
  holds the bytes the vector contains.
\<close>

context sink
begin

definition follows :: "'w encoder \<Rightarrow> byte list encoder \<Rightarrow> bool" where
  "follows e f \<longleftrightarrow> holds (e_writer e) (e_writer f) \<and> length (e_writer f) = e_written f \<and>
     e_written e = e_written f \<and> e_depth e = e_depth f \<and> e_counts e = e_counts f"

definition op_follows :: "('w encoder, unit) op \<Rightarrow> (byte list encoder, unit) op \<Rightarrow> bool" where
  "op_follows m n \<longleftrightarrow>
     (\<forall>e f. follows e f \<longrightarrow> fst (m e) = fst (n f) \<and> follows (snd (m e)) (snd (n f)))"

lemma op_followsI:
  "(\<And>e f. follows e f \<Longrightarrow> fst (m e) = fst (n f) \<and> follows (snd (m e)) (snd (n f))) \<Longrightarrow> op_follows m n"
  by (simp add: op_follows_def)

lemma op_follows_sbind:
  assumes "op_follows m n" and "\<And>u. op_follows (f u) (g u)"
  shows "op_follows (sbind m f) (sbind n g)"
proof (rule op_followsI)
  fix e1 e2 assume e: "follows e1 e2"
  then have m: "fst (m e1) = fst (n e2)" "follows (snd (m e1)) (snd (n e2))"
    using assms(1) by (auto simp: op_follows_def)
  then show "fst (sbind m f e1) = fst (sbind n g e2) \<and> follows (snd (sbind m f e1)) (snd (sbind n g e2))"
    using assms(2) unfolding op_follows_def
    by (cases "m e1"; cases "n e2"; cases "fst (m e1)") (auto simp: sbind_def)
qed

lemma op_follows_emit: "op_follows (emit write_all cfg x) (emit vec_write_all cfg x)"
proof (rule op_followsI)
  fix e f assume e: "follows e f"
  then have h: "holds (e_writer e) (e_writer f)" "length (e_writer f) = e_written f"
    by (simp_all add: follows_def)
  show "fst (emit write_all cfg x e) = fst (emit vec_write_all cfg x f) \<and>
      follows (snd (emit write_all cfg x e)) (snd (emit vec_write_all cfg x f))"
  proof (cases "length (e_writer f) + length x \<le> usize_max")
    case True
    then obtain w' where "write_all x (e_writer e) = (Inr (), w')" "holds w' (e_writer f @ x)"
      using write_ok[OF h(1)] by auto
    then show ?thesis
      using e by (simp add: emit_def follows_def Let_def vec_write_all_def check_limit_if)
  next
    case False
    then show ?thesis using e by (auto simp: emit_def follows_def Let_def)
  qed
qed

lemma op_follows_Pair: "op_follows (Pair r) (Pair r)" "op_follows (sfail err) (sfail err)"
  by (simp_all add: op_follows_def)

lemmas op_follows_basic = op_follows_sbind op_follows_emit op_follows_Pair

lemma op_follows_varint: "op_follows (enc_varint write_all cfg v) (enc_varint vec_write_all cfg v)"
  by (simp add: enc_varint_def emit_tag_def op_follows_basic split: prod.split)

lemma op_follows_int:
  "op_follows (enc_unsigned write_all cfg v n) (enc_unsigned vec_write_all cfg v n)"
  "op_follows (enc_signed write_all cfg v n) (enc_signed vec_write_all cfg v n)"
  by (simp_all add: enc_unsigned_def enc_signed_def op_follows_varint op_follows_emit)

lemma op_follows_str: "op_follows (write_str_value write_all cfg s) (write_str_value vec_write_all cfg s)"
  by (simp add: write_str_value_def emit_tag_def enc_length_def op_follows_basic op_follows_int)

lemma op_follows_enter:
  "op_follows (enter_container write_all cfg t) (enter_container vec_write_all cfg t)"
proof (rule op_followsI)
  fix e f assume e: "follows e f"
  have "op_follows (smod (\<lambda>e. e\<lparr>e_depth := e_depth e + 1\<rparr>)) (smod (\<lambda>e. e\<lparr>e_depth := e_depth e + 1\<rparr>))"
    by (simp add: op_follows_def follows_def)
  then have "op_follows (sbind (emit write_all cfg [t]) (\<lambda>_. smod (\<lambda>e. e\<lparr>e_depth := e_depth e + 1\<rparr>)))
     (sbind (emit vec_write_all cfg [t]) (\<lambda>_. smod (\<lambda>e. e\<lparr>e_depth := e_depth e + 1\<rparr>)))"
    by (intro op_follows_sbind op_follows_emit)
  then show "fst (enter_container write_all cfg t e) = fst (enter_container vec_write_all cfg t f) \<and>
      follows (snd (enter_container write_all cfg t e)) (snd (enter_container vec_write_all cfg t f))"
    using e by (simp add: enter_container_def emit_tag_def op_follows_def) (simp add: follows_def)
qed

lemma op_follows_count: "op_follows (count_element cfg) (count_element cfg)"
  by (simp add: op_follows_def count_element_def follows_def Let_def check_collection_if)

lemma op_follows_exit:
  "op_follows (enc_exit_container write_all cfg) (enc_exit_container vec_write_all cfg)"
proof (rule op_followsI)
  fix e f assume e: "follows e f"
  then have "follows (e\<lparr>e_depth := e_depth e - 1, e_counts := (e_counts e)[e_depth e - 1 := 0]\<rparr>)
      (f\<lparr>e_depth := e_depth f - 1, e_counts := (e_counts f)[e_depth f - 1 := 0]\<rparr>)"
    by (simp add: follows_def)
  moreover have "follows (e\<lparr>e_depth := e_depth e - 1\<rparr>) (f\<lparr>e_depth := e_depth f - 1\<rparr>)"
    using e by (simp add: follows_def)
  moreover have "e_depth e = e_depth f" "e_counts e = e_counts f"
    using e by (simp_all add: follows_def)
  ultimately show "fst (enc_exit_container write_all cfg e) = fst (enc_exit_container vec_write_all cfg f) \<and>
      follows (snd (enc_exit_container write_all cfg e)) (snd (enc_exit_container vec_write_all cfg f))"
    using op_follows_emit[of cfg "[TAG_END]"] e
    by (simp add: enc_exit_container_def Let_def emit_tag_def op_follows_def)
qed

lemma op_follows_event: "op_follows (enc_event write_all cfg v) (enc_event vec_write_all cfg v)"
proof (cases v)
  case (EvNumber n)
  then show ?thesis
    by (cases n) (simp_all add: write_number_def write_u64_def write_u128_def write_i64_def
        write_i128_def write_f64_def emit_tag_def enc_fixed_def op_follows_basic op_follows_int)
qed (simp_all add: op_follows_enter op_follows_count op_follows_exit op_follows_str emit_tag_def
    write_u64_def write_u128_def write_i64_def write_i128_def write_f64_def write_f32_def
    enc_fixed_def op_follows_basic op_follows_int)

lemma op_follows_events: "op_follows (enc_events write_all cfg vs) (enc_events vec_write_all cfg vs)"
  by (induction vs) (simp_all add: op_follows_basic op_follows_event)

lemma to_writer_follows:
  assumes "holds w []"
  shows "fst (to_writer write_all cfg vs w) = fst (to_writer vec_write_all cfg vs [])"
    and "holds (snd (to_writer write_all cfg vs w)) (snd (to_writer vec_write_all cfg vs []))"
proof -
  have "follows (encoder_new w) (encoder_new [])"
    using assms by (simp add: follows_def encoder_new_def)
  then have "fst (enc_events write_all cfg vs (encoder_new w)) =
        fst (enc_events vec_write_all cfg vs (encoder_new [])) \<and>
      follows (snd (enc_events write_all cfg vs (encoder_new w)))
        (snd (enc_events vec_write_all cfg vs (encoder_new [])))"
    using op_follows_events by (simp add: op_follows_def)
  then show "fst (to_writer write_all cfg vs w) = fst (to_writer vec_write_all cfg vs [])"
    and "holds (snd (to_writer write_all cfg vs w)) (snd (to_writer vec_write_all cfg vs []))"
    by (auto simp: to_writer_def follows_def split: prod.split sum.split)
qed

end

section \<open>What the events write\<close>

definition varint_be :: "u128 \<Rightarrow> byte list" where
  "varint_be v = hd (varint_bytes v) # rev (tl (varint_bytes v))"

text \<open>The bytes of an integer of \<open>n\<close> fixed bytes, of a scalar, of an event.\<close>

definition varint_of :: "config \<Rightarrow> u128 \<Rightarrow> byte list" where
  "varint_of cfg v = (if endian_little (c_endian cfg) then varint_bytes v else varint_be v)"

definition fixed_of :: "config \<Rightarrow> byte list \<Rightarrow> byte list" where
  "fixed_of cfg bs = (if endian_little (c_endian cfg) then bs else rev bs)"

definition unsigned_of :: "config \<Rightarrow> u128 \<Rightarrow> nat \<Rightarrow> byte list" where
  "unsigned_of cfg v n =
    (if c_integers cfg = Variable then varint_of cfg v else fixed_of cfg (take n (to_le_bytes v)))"

definition signed_of :: "config \<Rightarrow> u128 \<Rightarrow> nat \<Rightarrow> byte list" where
  "signed_of cfg v n =
    (if c_integers cfg = Variable then varint_of cfg (zigzag_encode v)
     else fixed_of cfg (take n (to_le_bytes v)))"

definition str_of :: "config \<Rightarrow> byte list \<Rightarrow> byte list" where
  "str_of cfg s = TAG_STRING # unsigned_of cfg (of_nat (length s)) 8 @ s"

fun ev_bytes :: "config \<Rightarrow> event \<Rightarrow> byte list" where
  "ev_bytes cfg EvBeginArray = [TAG_ARRAY]"
| "ev_bytes cfg EvSeparator = []"
| "ev_bytes cfg EvEndArray = [TAG_END]"
| "ev_bytes cfg EvBeginObject = [TAG_OBJECT]"
| "ev_bytes cfg (EvKey key) = str_of cfg key"
| "ev_bytes cfg EvEndObject = [TAG_END]"
| "ev_bytes cfg EvNull = [TAG_NULL]"
| "ev_bytes cfg (EvBool b) = [if b then TAG_TRUE else TAG_FALSE]"
| "ev_bytes cfg (EvU64 v) = TAG_U64 # unsigned_of cfg (ucast v) 8"
| "ev_bytes cfg (EvU128 v) = TAG_U128 # unsigned_of cfg v 16"
| "ev_bytes cfg (EvI64 v) = TAG_I64 # signed_of cfg (scast v) 8"
| "ev_bytes cfg (EvI128 v) = TAG_I128 # signed_of cfg v 16"
| "ev_bytes cfg (EvF64 v) = TAG_F64 # fixed_of cfg (to_le_bytes v)"
| "ev_bytes cfg (EvF32 v) = TAG_F32 # fixed_of cfg (to_le_bytes v)"
| "ev_bytes cfg (EvStr s) = str_of cfg s"
| "ev_bytes cfg (EvChar c) = str_of cfg (encode_utf8 c)"
| "ev_bytes cfg (EvNumber n) = (case n of U64 v \<Rightarrow> TAG_U64 # unsigned_of cfg (ucast v) 8
    | U128 v \<Rightarrow> TAG_U128 # unsigned_of cfg v 16 | I64 v \<Rightarrow> TAG_I64 # signed_of cfg (scast v) 8
    | I128 v \<Rightarrow> TAG_I128 # signed_of cfg v 16 | F64 v \<Rightarrow> TAG_F64 # fixed_of cfg (to_le_bytes v))"


section \<open>Events append their bytes\<close>

text \<open>Whenever the operation succeeds on a vector it has appended exactly \<open>x\<close>, within the byte limit.\<close>

definition grows :: "config \<Rightarrow> byte list \<Rightarrow> byte list encoder \<Rightarrow> byte list encoder \<Rightarrow> bool" where
  "grows cfg x f f' \<longleftrightarrow> e_writer f' = e_writer f @ x \<and> e_written f' = e_written f + length x \<and>
     (e_written f \<le> usize_max \<longrightarrow> e_written f' \<le> usize_max) \<and>
     (within (c_limit cfg) (e_written f) \<longrightarrow> within (c_limit cfg) (e_written f'))"

definition appends :: "config \<Rightarrow> (byte list encoder, unit) op \<Rightarrow> byte list \<Rightarrow> bool" where
  "appends cfg m x \<longleftrightarrow> (\<forall>f u f'. m f = (Inr u, f') \<longrightarrow> grows cfg x f f')"

lemma appendsI: "(\<And>f u f'. m f = (Inr u, f') \<Longrightarrow> grows cfg x f f') \<Longrightarrow> appends cfg m x"
  by (simp add: appends_def)

lemma appendsD: "appends cfg m x \<Longrightarrow> m f = (Inr u, f') \<Longrightarrow> grows cfg x f f'"
  by (simp add: appends_def)

lemma grows_trans: "grows cfg x f g \<Longrightarrow> grows cfg y g h \<Longrightarrow> grows cfg (x @ y) f h"
  unfolding grows_def by auto

lemma appends_emit: "appends cfg (emit vec_write_all cfg x) x"
  by (rule appendsI)
    (auto simp: grows_def emit_def Let_def check_limit_if vec_write_all_def split: if_splits)

lemma appends_sbind:
  assumes "appends cfg m x" and "\<And>u. appends cfg (f u) y"
  shows "appends cfg (sbind m f) (x @ y)"
proof (rule appendsI)
  fix s u t assume "sbind m f s = (Inr u, t)"
  then obtain v s' where "m s = (Inr v, s')" "f v s' = (Inr u, t)" by (auto simp: sbind_Inr)
  then show "grows cfg (x @ y) s t"
    using assms grows_trans by (blast dest: appendsD)
qed

lemma appends_sfail: "appends cfg (sfail e) x"
  by (simp add: appends_def)

lemma appends_sret: "appends cfg (Pair (Inr ())) []"
  by (simp add: appends_def grows_def)

lemma appends_guard:
  assumes "appends cfg n x" and "\<And>f. (\<exists>e f'. m f = (Inl e, f')) \<or> m f = n f"
  shows "appends cfg m x"
proof (rule appendsI)
  fix f u f' assume "m f = (Inr u, f')"
  then show "grows cfg x f f'" using assms(2)[of f] appendsD[OF assms(1)] by auto
qed

lemma appends_count: "appends cfg (count_element cfg) []"
  by (rule appendsI)
    (auto simp: grows_def count_element_def Let_def check_collection_if split: if_splits)

lemma varint_be_cases:
  "unat v \<le> 250 \<Longrightarrow> varint_be v = [ucast v]"
  "250 < unat v \<Longrightarrow> unat v \<le> 0xffff \<Longrightarrow> varint_be v = MARKER_U16 # to_be_bytes (ucast v :: u16)"
  "0xffff < unat v \<Longrightarrow> unat v \<le> 0xffffffff \<Longrightarrow> varint_be v = MARKER_U32 # to_be_bytes (ucast v :: u32)"
  "0xffffffff < unat v \<Longrightarrow> unat v \<le> 0xffffffffffffffff \<Longrightarrow>
     varint_be v = MARKER_U64 # to_be_bytes (ucast v :: u64)"
  "0xffffffffffffffff < unat v \<Longrightarrow> varint_be v = MARKER_U128 # to_be_bytes v"
  by (simp_all add: varint_be_def varint_bytes_nat Let_def to_be_bytes_def to_le_bytes_def
      unat_ucast_id[where 'b = 16, simplified] unat_ucast_id[where 'b = 32, simplified]
      unat_ucast_id[where 'b = 64, simplified])

lemma appends_varint: "appends cfg (enc_varint vec_write_all cfg v) (varint_of cfg v)"
proof (cases "endian_little (c_endian cfg)")
  case True
  then show ?thesis
    using appends_emit[of cfg "varint_bytes v"]
    by (cases "encode_varint_le v") (simp add: enc_varint_def varint_of_def varint_bytes_def)
next
  case False
  then show ?thesis
    by (simp add: enc_varint_def varint_of_def emit_tag_def word_le_nat_alt)
      (simp add: appends_emit varint_be_cases flip: varint_be_cases(2,3,4,5))
qed

lemma fixed_of_drop: "length bs = 16 \<Longrightarrow> n \<le> 16 \<Longrightarrow> drop (16 - n) (rev bs) = rev (take n bs)"
  by (simp add: rev_take)

lemma appends_int:
  "n \<in> {8, 16} \<Longrightarrow> appends cfg (enc_unsigned vec_write_all cfg v n) (unsigned_of cfg v n)"
  "n \<in> {8, 16} \<Longrightarrow> appends cfg (enc_signed vec_write_all cfg v n) (signed_of cfg v n)"
  using appends_varint appends_emit fixed_of_drop[of "to_le_bytes v" 8] fixed_of_drop[of "to_le_bytes v" 16]
  by (auto simp: enc_unsigned_def unsigned_of_def enc_signed_def signed_of_def fixed_of_def
      to_be_bytes_def)

lemma appends_tagged:
  "appends cfg m x \<Longrightarrow> appends cfg (sbind (emit_tag vec_write_all cfg t) (\<lambda>_. m)) (t # x)"
  using appends_sbind[OF appends_emit[of cfg "[t]"], of "\<lambda>_. m" x] by (simp add: emit_tag_def)

lemma appends_str: "appends cfg (write_str_value vec_write_all cfg s) (str_of cfg s)"
proof -
  have "appends cfg (sbind (enc_length vec_write_all cfg (length s)) (\<lambda>_. emit vec_write_all cfg s))
     (unsigned_of cfg (of_nat (length s)) 8 @ s)"
    by (intro appends_sbind) (simp_all add: enc_length_def appends_int appends_emit appends_sfail)
  then show ?thesis
    using appends_tagged by (simp add: write_str_value_def str_of_def)
qed

lemma appends_scalar:
  "appends cfg (write_u64 vec_write_all cfg a) (ev_bytes cfg (EvU64 a))"
  "appends cfg (write_u128 vec_write_all cfg b) (ev_bytes cfg (EvU128 b))"
  "appends cfg (write_i64 vec_write_all cfg a) (ev_bytes cfg (EvI64 a))"
  "appends cfg (write_i128 vec_write_all cfg b) (ev_bytes cfg (EvI128 b))"
  "appends cfg (write_f64 vec_write_all cfg a) (ev_bytes cfg (EvF64 a))"
  "appends cfg (write_f32 vec_write_all cfg c) (ev_bytes cfg (EvF32 c))"
  by (simp_all add: write_u64_def write_u128_def write_i64_def write_i128_def write_f64_def
      write_f32_def appends_tagged appends_int appends_sfail appends_emit enc_fixed_def fixed_of_def
      to_be_bytes_def)

lemma appends_enter:
  "appends cfg (enter_container vec_write_all cfg t) [t]"
  "appends cfg (enc_exit_container vec_write_all cfg) [TAG_END]"
proof -
  have m: "appends cfg (smod (\<lambda>e. e\<lparr>e_depth := e_depth e + 1\<rparr>)) []"
    by (simp add: appends_def grows_def)
  show "appends cfg (enter_container vec_write_all cfg t) [t]"
    by (rule appends_guard[OF appends_tagged[OF m, of t]]) (simp add: enter_container_def)
  show "appends cfg (enc_exit_container vec_write_all cfg) [TAG_END]"
  proof (rule appends_guard)
    show "appends cfg (\<lambda>e. emit vec_write_all cfg [TAG_END]
        (e\<lparr>e_depth := e_depth e - 1, e_counts := (e_counts e)[e_depth e - 1 := 0]\<rparr>)) [TAG_END]"
      by (rule appendsI, drule appendsD[OF appends_emit]) (auto simp: grows_def)
  qed (simp add: enc_exit_container_def emit_tag_def Let_def)
qed

lemma appends_event: "appends cfg (enc_event vec_write_all cfg v) (ev_bytes cfg v)"
proof (cases v)
  case (EvNumber n)
  then show ?thesis
    using appends_scalar[of cfg] by (cases n) (simp_all add: write_number_def)
next
  case (EvKey k)
  then show ?thesis
    using appends_sbind[OF appends_count appends_str] by simp
qed (use appends_scalar[of cfg] appends_emit in \<open>simp_all add: appends_enter appends_count appends_str emit_tag_def\<close>)

lemma appends_events: "appends cfg (enc_events vec_write_all cfg vs) (concat (map (ev_bytes cfg) vs))"
  by (induction vs) (simp_all add: appends_sret appends_sbind appends_event)


lemma vec_only_ok: "enc_event vec_write_all cfg v f = (Inr u, f') \<Longrightarrow> grows cfg (ev_bytes cfg v) f f'"
  by (rule appendsD[OF appends_event])

text \<open>
  Whatever sequence of events the serialiser issues, when \<^verbatim>\<open>to_vec\<close> succeeds its output is the
  concatenation of the wire bytes of the events, and it respects the configured byte limit: no
  branch of the encoder writes anything else, skips a tag or runs past the limit.
\<close>

theorem to_vec_bytes:
  assumes "to_vec cfg vs = Inr out"
  shows "out = concat (map (ev_bytes cfg) vs) \<and> within (c_limit cfg) (length out) \<and>
    length out \<le> usize_max"
proof -
  obtain r f where rf: "enc_events vec_write_all cfg vs (encoder_new []) = (r, f)"
    by (cases "enc_events vec_write_all cfg vs (encoder_new [])")
  with assms have "r = Inr ()" "out = e_writer f"
    by (auto simp: to_vec_def to_writer_def Let_def split: sum.splits if_splits)
  with rf have "grows cfg (concat (map (ev_bytes cfg) vs)) (encoder_new []) f"
    using appendsD[OF appends_events] by blast
  then show ?thesis
    using \<open>out = e_writer f\<close> by (auto simp: grows_def encoder_new_def)
qed

lemma to_vec_bytes_witness:
  "to_vec standard [EvBeginArray, EvSeparator, EvU64 7, EvSeparator, EvStr [0x68], EvEndArray] =
     Inr [0x0a, 0x03, 7, 0x09, 1, 0x68, 0xff] \<and>
   [0x0a, 0x03, 7, 0x09, 1, 0x68, 0xff] = concat (map (ev_bytes standard)
     [EvBeginArray, EvSeparator, EvU64 7, EvSeparator, EvStr [0x68], EvEndArray])"
proof -
  have "to_vec standard [EvBeginArray, EvSeparator, EvU64 7, EvSeparator, EvStr [0x68], EvEndArray] =
     Inr [0x0a, 0x03, 7, 0x09, 1, 0x68, 0xff]"
    by code_simp
  then show ?thesis using to_vec_bytes by blast
qed

lemma entry_points_eq:
  "ser_size cfg vs = rmap length (to_vec cfg vs) \<and>
   fst (to_slice cfg vs buf) = rbind (to_vec cfg vs) (\<lambda>out.
     if length out \<le> length buf then Inr (length out)
     else Inl (BufferTooSmall (length out) (length buf))) \<and>
   (\<forall>out. to_vec cfg vs = Inr out \<longrightarrow>
     snd (to_slice cfg vs buf) = take (length buf) out @ drop (length out) buf)"
proof -
  obtain r out where v: "to_writer vec_write_all cfg vs [] = (r, out)"
    by (cases "to_writer vec_write_all cfg vs []")
  then have tv: "to_vec cfg vs = rmap (\<lambda>_. out) r" by (simp add: to_vec_def)
  have len: "n = length out" if "r = Inr n" for n
  proof -
    from that v obtain f where f: "enc_events vec_write_all cfg vs (encoder_new []) = (Inr (), f)"
      "e_written f = n" "e_writer f = out"
      by (auto simp: to_writer_def split: prod.splits sum.splits if_splits)
    then show ?thesis
      using appendsD[OF appends_events f(1)] by (simp add: grows_def encoder_new_def)
  qed
  have c: "fst (to_writer count_write_all cfg vs count_new) = r"
    using count_sink.to_writer_follows[OF count_new_holds, of cfg vs] v by simp
  obtain w where s: "to_writer slice_write_all cfg vs (slice_new buf) = (r, w)"
    "slice_holds buf w out"
    using slice_sink.to_writer_follows[OF slice_new_holds[of buf], of cfg vs] v
    by (cases "to_writer slice_write_all cfg vs (slice_new buf)") simp
  then show ?thesis
    using tv c len slice_holds_finish(1)[OF s(2)]
    by (cases r) (auto simp: ser_size_def to_slice_def slice_holds_def)
qed

text \<open>
  C4: the three entry points agree on every event sequence, error cases included. \<^verbatim>\<open>serialized_size\<close>
  returns the length of what \<^verbatim>\<open>serialize\<close> returns or the same error, and \<^verbatim>\<open>serialize_into_slice\<close>
  writes those bytes at the start of the caller's buffer and leaves the rest of it alone, or, when
  they do not fit, reports exactly the required and available sizes.
\<close>

theorem entry_points_agree:
  "ser_size cfg vs = rmap length (to_vec cfg vs) \<and>
   fst (to_slice cfg vs buf) = rbind (to_vec cfg vs) (\<lambda>out.
     if length out \<le> length buf then Inr (length out)
     else Inl (BufferTooSmall (length out) (length buf))) \<and>
   (\<forall>out. to_vec cfg vs = Inr out \<longrightarrow>
     snd (to_slice cfg vs buf) = take (length buf) out @ drop (length out) buf)"
  by (rule entry_points_eq)

lemma entry_points_agree_witness:
  "to_vec legacy [EvU64 5] = Inr [3, 5, 0, 0, 0, 0, 0, 0, 0] \<and>
   snd (to_slice legacy [EvU64 5] (replicate 11 0xee)) = [3, 5, 0, 0, 0, 0, 0, 0, 0, 0xee, 0xee]"
proof -
  have "to_vec legacy [EvU64 5] = Inr [3, 5, 0, 0, 0, 0, 0, 0, 0]" by code_simp
  then show ?thesis
    using entry_points_agree[of legacy "[EvU64 5]" "replicate 11 0xee"] by (simp add: eval_nat_numeral)
qed

end
