(* ===== verification/EventEncoding.thy ===== *)
theory EventEncoding
  imports Ser
begin

text \<open>
  What every encoder of nextjson events has in common. The values of nextjson's data model, the events
  their serialisers issue, and the proof that an encoder which appends the bytes of each event, counts
  the entries of its containers and bounds their nesting accepts exactly the admissible values. The
  locale states the contract of one event; the self-describing profile and CBOR are its instances.
\<close>

section \<open>Values and their events\<close>

text \<open>
  A value of nextjson's data model and the events its serialiser issues. The array separator is
  issued between elements; whether it also precedes the first one is nextjson's choice, the
  parameter \<open>lead\<close>. Objects issue their keys, which count as the entries.
\<close>

datatype jv =
    JNull | JBool bool | JU64 u64 | JU128 u128 | JI64 u64 | JI128 u128 | JF64 u64 | JF32 u32
  | JStr "byte list" | JArr "jv list" | JObj "(byte list \<times> jv) list"

fun events :: "bool \<Rightarrow> jv \<Rightarrow> event list"
  and events_elems :: "bool \<Rightarrow> bool \<Rightarrow> jv list \<Rightarrow> event list"
  and events_fields :: "bool \<Rightarrow> (byte list \<times> jv) list \<Rightarrow> event list" where
  "events lead JNull = [EvNull]"
| "events lead (JBool b) = [EvBool b]"
| "events lead (JU64 v) = [EvU64 v]"
| "events lead (JU128 v) = [EvU128 v]"
| "events lead (JI64 v) = [EvI64 v]"
| "events lead (JI128 v) = [EvI128 v]"
| "events lead (JF64 v) = [EvF64 v]"
| "events lead (JF32 v) = [EvF32 v]"
| "events lead (JStr s) = [EvStr s]"
| "events lead (JArr vs) = EvBeginArray # events_elems lead lead vs @ [EvEndArray]"
| "events lead (JObj fs) = EvBeginObject # events_fields lead fs @ [EvEndObject]"
| "events_elems lead sep [] = []"
| "events_elems lead sep (v # vs) =
     (if sep then [EvSeparator] else []) @ events lead v @ events_elems lead True vs"
| "events_fields lead [] = []"
| "events_fields lead ((k, v) # fs) = EvKey k # events lead v @ events_fields lead fs"

text \<open>The nesting of a value, and the separators of an array.\<close>

fun height :: "jv \<Rightarrow> nat"
  and height_elems :: "jv list \<Rightarrow> nat"
  and height_fields :: "(byte list \<times> jv) list \<Rightarrow> nat" where
  "height (JArr vs) = Suc (height_elems vs)"
| "height (JObj fs) = Suc (height_fields fs)"
| "height _ = 0"
| "height_elems [] = 0"
| "height_elems (v # vs) = max (height v) (height_elems vs)"
| "height_fields [] = 0"
| "height_fields ((k, v) # fs) = max (height v) (height_fields fs)"

definition seps :: "bool \<Rightarrow> nat \<Rightarrow> nat" where
  "seps sep n = (if sep then n else n - 1)"

text \<open>
  Policies a value has to respect: entries per container within the collection limit, and what the
  encoder asks of a scalar. The encoder counts the separators of an array (\<open>lead\<close>).
\<close>

fun accepted :: "(event \<Rightarrow> bool) \<Rightarrow> bool \<Rightarrow> nat option \<Rightarrow> jv \<Rightarrow> bool"
  and accepted_elems :: "(event \<Rightarrow> bool) \<Rightarrow> bool \<Rightarrow> nat option \<Rightarrow> jv list \<Rightarrow> bool"
  and accepted_fields :: "(event \<Rightarrow> bool) \<Rightarrow> bool \<Rightarrow> nat option \<Rightarrow> (byte list \<times> jv) list \<Rightarrow> bool" where
  "accepted okay lead cl (JArr vs) \<longleftrightarrow> within cl (seps lead (length vs)) \<and> accepted_elems okay lead cl vs"
| "accepted okay lead cl (JObj fs) \<longleftrightarrow> within cl (length fs) \<and> accepted_fields okay lead cl fs"
| "accepted okay lead cl v = list_all okay (events lead v)"
| "accepted_elems okay lead cl [] = True"
| "accepted_elems okay lead cl (v # vs) \<longleftrightarrow> accepted okay lead cl v \<and> accepted_elems okay lead cl vs"
| "accepted_fields okay lead cl [] = True"
| "accepted_fields okay lead cl ((k, v) # fs) \<longleftrightarrow> accepted okay lead cl v \<and> accepted_fields okay lead cl fs"

text \<open>The events of a value, one after the other.\<close>

primrec issue :: "(event \<Rightarrow> ('w encoder, unit) op) \<Rightarrow> event list \<Rightarrow> ('w encoder, unit) op" where
  "issue ev [] = sret ()"
| "issue ev (v # vs) = sbind (ev v) (\<lambda>_. issue ev vs)"

lemma enc_events_issue: "enc_events wr cfg vs = issue (enc_event wr cfg) vs"
  by (induction vs) simp_all

definition scalar_event :: "event \<Rightarrow> bool" where
  "scalar_event e = (case e of EvBeginArray \<Rightarrow> False | EvSeparator \<Rightarrow> False | EvEndArray \<Rightarrow> False
     | EvBeginObject \<Rightarrow> False | EvKey _ \<Rightarrow> False | EvEndObject \<Rightarrow> False | _ \<Rightarrow> True)"

section \<open>Outcomes\<close>

text \<open>\<open>advance f x\<close>: \<open>f\<close> after \<open>x\<close> has been written.\<close>

definition advance :: "byte list encoder \<Rightarrow> byte list \<Rightarrow> byte list encoder" where
  "advance f x = f\<lparr>e_writer := e_writer f @ x, e_written := e_written f + length x\<rparr>"

lemma advance_simps [simp]:
  "e_depth (advance f x) = e_depth f" "e_counts (advance f x) = e_counts f"
  "e_written (advance f x) = e_written f + length x"
  "advance (advance f x) y = advance f (x @ y)"
  "advance f [] = f"
  "e_depth_update g (advance f x) = advance (e_depth_update g f) x"
  "e_counts_update h (advance f x) = advance (e_counts_update h f) x"
  by (simp_all add: advance_def)

definition room :: "config \<Rightarrow> byte list encoder \<Rightarrow> byte list \<Rightarrow> bool" where
  "room cfg f x \<longleftrightarrow> e_written f + length x \<le> usize_max \<and> within (c_limit cfg) (e_written f + length x)"

lemma room_append: "room cfg f (x @ y) \<Longrightarrow> room cfg f x"
  by (auto simp: room_def elim: within_mono)

lemma room_simps [simp]:
  "room cfg (advance f x) y \<longleftrightarrow> room cfg f (x @ y)"
  "room cfg (e_depth_update g f) x \<longleftrightarrow> room cfg f x"
  "room cfg (e_counts_update h f) x \<longleftrightarrow> room cfg f x"
  "room cfg f x \<and> room cfg f (x @ y) \<longleftrightarrow> room cfg f (x @ y)"
  using room_append by (auto simp: room_def add.assoc)

text \<open>The operation succeeds with final state \<open>g\<close> when \<open>P\<close> holds and fails otherwise.\<close>

definition outcome :: "(byte list encoder, unit) op \<Rightarrow> byte list encoder \<Rightarrow> bool \<Rightarrow> byte list encoder \<Rightarrow> bool" where
  "outcome m f P g \<longleftrightarrow> (if P then m f = (Inr (), g) else (\<exists>e f'. m f = (Inl e, f')))"

lemma outcome_sbind:
  assumes "outcome m f P g" and "P \<Longrightarrow> outcome (k ()) g Q h" and "R \<longleftrightarrow> P \<and> Q"
  shows "outcome (sbind m k) f R h"
  using assms by (cases P) (auto simp: outcome_def split: if_splits)

lemma outcome_emit: "outcome (emit vec_write_all cfg x) f (room cfg f x) (advance f x)"
  by (auto simp: outcome_def emit_def room_def Let_def check_limit_if vec_write_all_def advance_def)

lemma outcome_then:
  assumes "outcome m f (room cfg f x) (advance f x)"
    and "\<And>g. outcome (k ()) g (room cfg g y) (advance g y)"
  shows "outcome (sbind m k) f (room cfg f (x @ y)) (advance f (x @ y))"
  using outcome_sbind[OF assms(1), of k "room cfg f (x @ y)" "advance f (x @ y)"]
    assms(2)[of "advance f x"] room_append by auto

lemma sbind_sret [simp]: "sbind m sret = m"
  by (rule ext) (simp add: sbind_def split: prod.split sum.split)

lemma outcome_guard:
  "outcome m f P g \<Longrightarrow> outcome (if \<not> b then sfail e else m) f (b \<and> P) g"
  by (auto simp: outcome_def)

text \<open>Invariant between values: a full counter table whose unused levels are zero.\<close>

definition ready :: "config \<Rightarrow> byte list encoder \<Rightarrow> bool" where
  "ready cfg f \<longleftrightarrow> length (e_counts f) = MAX_DEPTH \<and> room cfg f [] \<and>
     (\<forall>i<MAX_DEPTH. e_depth f \<le> i \<longrightarrow> e_counts f ! i = 0)"

lemma ready_advance: "ready cfg f \<Longrightarrow> room cfg f x \<Longrightarrow> ready cfg (advance f x)"
  by (simp add: ready_def)

definition at_count :: "byte list encoder \<Rightarrow> nat \<Rightarrow> byte list encoder" where
  "at_count f c = f\<lparr>e_counts := (e_counts f)[e_depth f - 1 := c]\<rparr>"

lemma outcome_count:
  assumes "ready cfg f" and "0 < e_depth f" and "e_depth f \<le> MAX_DEPTH"
    and "e_counts f ! (e_depth f - 1) = c" and "c < e_written f"
  shows "outcome (count_element cfg) f (within (c_collection_limit cfg) (Suc c)) (at_count f (Suc c))"
  using assms by (auto simp: outcome_def count_element_def Let_def check_collection_if at_count_def
      ready_def room_def)

lemma at_count_simps [simp]:
  "e_depth (at_count f c) = e_depth f" "e_written (at_count f c) = e_written f"
  "at_count (at_count f c) d = at_count f d"
  "room cfg (at_count f c) x \<longleftrightarrow> room cfg f x"
  "at_count (advance f x) c = advance (at_count f c) x"
  "length (e_counts (at_count f c)) = length (e_counts f)"
  by (simp_all add: at_count_def)

lemma at_count_same: "e_counts f ! (e_depth f - 1) = c \<Longrightarrow> at_count f c = f"
  by (drule sym) (simp add: at_count_def)

lemma at_count_nth: "0 < e_depth f \<Longrightarrow> e_depth f \<le> length (e_counts f) \<Longrightarrow>
   e_counts (at_count f c) ! (e_depth f - 1) = c"
  by (simp add: at_count_def)

lemma ready_at_count: "ready cfg f \<Longrightarrow> 0 < e_depth f \<Longrightarrow> ready cfg (at_count f c)"
  by (auto simp: ready_def at_count_def nth_list_update)

lemma seps_Cons: "seps sep (Suc n) = (if sep then 1 else 0) + n"
  by (simp add: seps_def)

lemma seps_True [simp]: "seps True n = n"
  by (simp add: seps_def)

lemma outcome_weaken: "outcome m f P g \<Longrightarrow> P \<longleftrightarrow> Q \<Longrightarrow> (P \<Longrightarrow> g = h) \<Longrightarrow> outcome m f Q h"
  by (cases P) (auto simp: outcome_def)

lemma issue_single [simp]: "issue ev [v] = ev v"
  by (rule ext) (auto simp: sbind_def split: prod.split sum.split)

lemma sbind_Pair: "sbind (Pair (Inr x)) f = f x"
  by (rule ext) simp

lemma issue_append: "issue ev (xs @ ys) = sbind (issue ev xs) (\<lambda>_. issue ev ys)"
  by (induction xs) (simp_all add: sbind_assoc sbind_Pair)

section \<open>The contract of an event\<close>

text \<open>
  What the encoder does with one event: a scalar and a container head append their bytes, a separator
  and a key count an entry, a container end resets the counter of its level.
\<close>

locale event_encoder =
  fixes cfg :: config and depth_limit :: nat and ev :: "event \<Rightarrow> (byte list encoder, unit) op"
    and bytes :: "event \<Rightarrow> byte list" and okay :: "event \<Rightarrow> bool"
  assumes scalar: "scalar_event e \<Longrightarrow> outcome (ev e) f (okay e \<and> room cfg f (bytes e)) (advance f (bytes e))"
    and separator: "0 < e_depth f \<Longrightarrow> e_depth f \<le> MAX_DEPTH \<Longrightarrow> ready cfg f \<Longrightarrow> e_counts f ! (e_depth f - 1) = c \<Longrightarrow> c < e_written f \<Longrightarrow>
      outcome (ev EvSeparator) f (within (c_collection_limit cfg) (Suc c)) (at_count f (Suc c))"
    and key: "0 < e_depth f \<Longrightarrow> e_depth f \<le> MAX_DEPTH \<Longrightarrow> ready cfg f \<Longrightarrow> e_counts f ! (e_depth f - 1) = c \<Longrightarrow> c < e_written f \<Longrightarrow>
      outcome (ev (EvKey k)) f (within (c_collection_limit cfg) (Suc c) \<and> room cfg (at_count f (Suc c)) (bytes (EvKey k)))
        (advance (at_count f (Suc c)) (bytes (EvKey k)))"
    and enter: "b \<in> {EvBeginArray, EvBeginObject} \<Longrightarrow>
      outcome (ev b) f (e_depth f < depth_limit \<and> room cfg f (bytes b)) ((advance f (bytes b))\<lparr>e_depth := e_depth f + 1\<rparr>)"
    and exit: "b \<in> {EvEndArray, EvEndObject} \<Longrightarrow> 0 < e_depth f \<Longrightarrow> e_depth f \<le> length (e_counts f) \<Longrightarrow>
      outcome (ev b) f (room cfg f (bytes b))
        (advance (f\<lparr>e_depth := e_depth f - 1, e_counts := (e_counts f)[e_depth f - 1 := 0]\<rparr>) (bytes b))"
    and silent: "bytes EvSeparator = []"
    and nonempty: "scalar_event e \<or> e \<in> {EvBeginArray, EvBeginObject} \<Longrightarrow> bytes e \<noteq> []"
begin

definition out :: "bool \<Rightarrow> jv \<Rightarrow> byte list" where
  "out lead v = concat (map bytes (events lead v))"

definition out_elems :: "bool \<Rightarrow> bool \<Rightarrow> jv list \<Rightarrow> byte list" where
  "out_elems lead sep vs = concat (map bytes (events_elems lead sep vs))"

definition out_fields :: "bool \<Rightarrow> (byte list \<times> jv) list \<Rightarrow> byte list" where
  "out_fields lead fs = concat (map bytes (events_fields lead fs))"

lemma out_simps [simp]:
  "out lead (JArr vs) = bytes EvBeginArray @ out_elems lead lead vs @ bytes EvEndArray"
  "out lead (JObj fs) = bytes EvBeginObject @ out_fields lead fs @ bytes EvEndObject"
  "out_elems lead sep [] = []" "out_elems lead sep (v # vs) = out lead v @ out_elems lead True vs"
  "out_fields lead [] = []" "out_fields lead ((k, v) # fs) = bytes (EvKey k) @ out lead v @ out_fields lead fs"
  by (simp_all add: out_def out_elems_def out_fields_def silent)

lemma out_nonempty: "0 < length (out lead v)"
  using nonempty by (cases v) (simp_all add: out_def scalar_event_def)

text \<open>
  The three parts of the mutual induction. In a container the counter of the level is \<open>c\<close>, fewer
  than the bytes written so far, so that it cannot overflow.
\<close>

definition value_ok :: "bool \<Rightarrow> jv \<Rightarrow> bool" where
  "value_ok lead v \<longleftrightarrow> (\<forall>f. ready cfg f \<longrightarrow>
     outcome (issue ev (events lead v)) f
       (accepted okay lead (c_collection_limit cfg) v \<and> (height v = 0 \<or> e_depth f + height v \<le> depth_limit) \<and>
        room cfg f (out lead v)) (advance f (out lead v)))"

definition in_container :: "byte list encoder \<Rightarrow> nat \<Rightarrow> bool" where
  "in_container f c \<longleftrightarrow> ready cfg f \<and> 0 < e_depth f \<and> e_depth f \<le> depth_limit \<and>
     e_counts f ! (e_depth f - 1) = c \<and> c < e_written f \<and> within (c_collection_limit cfg) c"

definition elems_ok :: "bool \<Rightarrow> bool \<Rightarrow> jv list \<Rightarrow> bool" where
  "elems_ok lead sep vs \<longleftrightarrow> (\<forall>f c. in_container f c \<longrightarrow>
     outcome (issue ev (events_elems lead sep vs)) f
       (within (c_collection_limit cfg) (c + seps sep (length vs)) \<and>
        accepted_elems okay lead (c_collection_limit cfg) vs \<and>
        e_depth f + height_elems vs \<le> depth_limit \<and> room cfg f (out_elems lead sep vs))
       (at_count (advance f (out_elems lead sep vs)) (c + seps sep (length vs))))"

definition fields_ok :: "bool \<Rightarrow> (byte list \<times> jv) list \<Rightarrow> bool" where
  "fields_ok lead fs \<longleftrightarrow> (\<forall>f c. in_container f c \<longrightarrow>
     outcome (issue ev (events_fields lead fs)) f
       (within (c_collection_limit cfg) (c + length fs) \<and>
        accepted_fields okay lead (c_collection_limit cfg) fs \<and>
        e_depth f + height_fields fs \<le> depth_limit \<and> room cfg f (out_fields lead fs))
       (at_count (advance f (out_fields lead fs)) (c + length fs)))"

lemma in_container_step:
  assumes "in_container f c" and "room cfg f x" and "0 < length x"
    and "within (c_collection_limit cfg) (Suc c)" and "depth_limit \<le> MAX_DEPTH"
  shows "in_container (at_count (advance f x) (Suc c)) (Suc c)"
  using assms
  by (cases x; simp add: in_container_def ready_at_count ready_advance at_count_nth)
    (auto simp: at_count_def advance_def ready_def nth_list_update room_def)

lemma in_container_advance:
  assumes "in_container f c" and "room cfg f x"
  shows "in_container (advance f x) c"
  using assms by (simp add: in_container_def ready_advance)

text \<open>Wrapping a container body with its tag and terminator.\<close>

lemma outcome_container:
  assumes dl: "depth_limit \<le> MAX_DEPTH" and f: "ready cfg f"
    and b: "b \<in> {EvBeginArray, EvBeginObject}" "b' \<in> {EvEndArray, EvEndObject}"
    and body: "\<And>g. in_container g 0 \<Longrightarrow> outcome m g
      (A \<and> e_depth g + h \<le> depth_limit \<and> room cfg g x) (at_count (advance g x) n)"
  shows "outcome (sbind (ev b) (\<lambda>_. sbind m (\<lambda>_. ev b'))) f
    (A \<and> e_depth f + Suc h \<le> depth_limit \<and> room cfg f (bytes b @ x @ bytes b'))
    (advance f (bytes b @ x @ bytes b'))"
proof (rule outcome_sbind[OF enter[OF b(1)]])
  define g where "g = (advance f (bytes b))\<lparr>e_depth := e_depth f + 1\<rparr>"
  assume d: "e_depth f < depth_limit \<and> room cfg f (bytes b)"
  then have g: "in_container g 0"
    using f dl nonempty[of b] b(1) by (auto simp: in_container_def g_def ready_def)
  show "outcome (sbind m (\<lambda>_. ev b')) ((advance f (bytes b))\<lparr>e_depth := e_depth f + 1\<rparr>)
    (A \<and> e_depth g + h \<le> depth_limit \<and> room cfg g (x @ bytes b')) (advance f (bytes b @ x @ bytes b'))"
    unfolding g_def[symmetric]
  proof (rule outcome_sbind[OF body[OF g]])
    define k where "k = at_count (advance g x) n"
    have len: "length (e_counts f) = MAX_DEPTH" "e_counts f ! e_depth f = 0" "e_depth f < MAX_DEPTH"
      using f d dl by (auto simp: ready_def)
    have "(e_counts f)[e_depth f := 0] = e_counts f"
      using len by (metis list_update_id)
    then have "advance (k\<lparr>e_depth := e_depth k - 1, e_counts := (e_counts k)[e_depth k - 1 := 0]\<rparr>) (bytes b') =
        advance f (bytes b @ x @ bytes b')"
      by (simp add: k_def g_def at_count_def advance_def)
    moreover have "room cfg k (bytes b') \<longleftrightarrow> room cfg g (x @ bytes b')" by (simp add: k_def)
    ultimately show "outcome (ev b') (at_count (advance g x) n) (room cfg g (x @ bytes b')) (advance f (bytes b @ x @ bytes b'))"
      using exit[OF b(2), of k] len by (simp add: k_def g_def)
  qed (use room_append in auto)
next
  show "(A \<and> e_depth f + Suc h \<le> depth_limit \<and> room cfg f (bytes b @ x @ bytes b')) \<longleftrightarrow>
     (e_depth f < depth_limit \<and> room cfg f (bytes b)) \<and> A \<and>
     e_depth ((advance f (bytes b))\<lparr>e_depth := e_depth f + 1\<rparr>) + h \<le> depth_limit \<and>
     room cfg ((advance f (bytes b))\<lparr>e_depth := e_depth f + 1\<rparr>) (x @ bytes b')"
    using room_append[of cfg f "bytes b" "x @ bytes b'"] by auto
qed


lemma outcome_sep:
  assumes "in_container f c" and "depth_limit \<le> MAX_DEPTH"
  shows "outcome (ev EvSeparator) f (within (c_collection_limit cfg) (Suc c)) (at_count f (Suc c))"
  using assms by (intro separator) (auto simp: in_container_def)

lemma outcome_key:
  assumes "in_container f c" and "depth_limit \<le> MAX_DEPTH"
  shows "outcome (ev (EvKey k)) f (within (c_collection_limit cfg) (Suc c) \<and> room cfg (at_count f (Suc c)) (bytes (EvKey k)))
    (advance (at_count f (Suc c)) (bytes (EvKey k)))"
  using assms by (intro key) (auto simp: in_container_def)

lemma in_container_count:
  assumes "in_container f c" and "within (c_collection_limit cfg) (Suc c)"
    and "depth_limit \<le> MAX_DEPTH" and "Suc c < e_written f"
  shows "in_container (at_count f (Suc c)) (Suc c)"
  using assms by (simp add: in_container_def ready_at_count at_count_nth) (auto simp: at_count_def ready_def)

text \<open>An element: its separator if there is one, the value, the rest.\<close>

lemma elems_step:
  assumes dl: "depth_limit \<le> MAX_DEPTH" and v: "value_ok lead v" and vs: "elems_ok lead True vs"
  shows "elems_ok lead sep (v # vs)"
  unfolding elems_ok_def
proof (intro allI impI)
  fix f c assume f: "in_container f c"
  define c' where "c' = (if sep then Suc c else c)"
  have sep: "outcome (issue ev (if sep then [EvSeparator] else [])) f
      (within (c_collection_limit cfg) c') (at_count f c')"
    using outcome_sep[OF f dl] f at_count_same[of f c]
    by (auto simp: c'_def outcome_def in_container_def)
  have r: "ready cfg (at_count f c')" "0 < e_depth f"
    using f by (auto simp: in_container_def ready_at_count)
  have tail: "in_container (advance (at_count f c') (out lead v)) c'"
    if "within (c_collection_limit cfg) c'" "room cfg f (out lead v)"
    using in_container_step[OF f that(2) out_nonempty _ dl] in_container_advance[OF f that(2)] that(1)
      f at_count_same[of f c]
    by (auto simp: c'_def in_container_def)
  have step: "outcome (sbind (issue ev (events lead v))
        (\<lambda>_. issue ev (events_elems lead True vs))) (at_count f c')
      ((accepted okay lead (c_collection_limit cfg) v \<and>
        (height v = 0 \<or> e_depth (at_count f c') + height v \<le> depth_limit) \<and> room cfg (at_count f c') (out lead v)) \<and>
       within (c_collection_limit cfg) (c' + length vs) \<and>
       accepted_elems okay lead (c_collection_limit cfg) vs \<and>
       e_depth f + height_elems vs \<le> depth_limit \<and>
       room cfg (advance (at_count f c') (out lead v)) (out_elems lead True vs))
      (at_count (advance (advance (at_count f c') (out lead v)) (out_elems lead True vs)) (c' + length vs))"
    if w: "within (c_collection_limit cfg) c'"
  proof (rule outcome_sbind)
    show "outcome (issue ev (events lead v)) (at_count f c')
      (accepted okay lead (c_collection_limit cfg) v \<and>
        (height v = 0 \<or> e_depth (at_count f c') + height v \<le> depth_limit) \<and> room cfg (at_count f c') (out lead v))
      (advance (at_count f c') (out lead v))"
      by (rule v[unfolded value_ok_def, rule_format, OF r(1)])
  next
    assume "accepted okay lead (c_collection_limit cfg) v \<and>
        (height v = 0 \<or> e_depth (at_count f c') + height v \<le> depth_limit) \<and> room cfg (at_count f c') (out lead v)"
    then have "in_container (advance (at_count f c') (out lead v)) c'" using tail[OF w] by simp
    then show "outcome (issue ev (events_elems lead True vs)) (advance (at_count f c') (out lead v))
       (within (c_collection_limit cfg) (c' + length vs) \<and>
       accepted_elems okay lead (c_collection_limit cfg) vs \<and>
       e_depth f + height_elems vs \<le> depth_limit \<and>
       room cfg (advance (at_count f c') (out lead v)) (out_elems lead True vs))
      (at_count (advance (advance (at_count f c') (out lead v)) (out_elems lead True vs)) (c' + length vs))"
      using vs[unfolded elems_ok_def, rule_format] by (fastforce simp: seps_def)
  qed simp
  show "outcome (issue ev (events_elems lead sep (v # vs))) f
      (within (c_collection_limit cfg) (c + seps sep (length (v # vs))) \<and>
       accepted_elems okay lead (c_collection_limit cfg) (v # vs) \<and>
       e_depth f + height_elems (v # vs) \<le> depth_limit \<and> room cfg f (out_elems lead sep (v # vs)))
      (at_count (advance f (out_elems lead sep (v # vs))) (c + seps sep (length (v # vs))))"
    unfolding events_elems.simps issue_append
  proof (rule outcome_weaken[OF outcome_sbind[OF sep step refl]])
    have "within (c_collection_limit cfg) (c' + length vs) \<Longrightarrow> within (c_collection_limit cfg) c'"
      by (rule within_mono) auto
    then show "(within (c_collection_limit cfg) c' \<and>
        (accepted okay lead (c_collection_limit cfg) v \<and>
          (height v = 0 \<or> e_depth (at_count f c') + height v \<le> depth_limit) \<and>
          room cfg (at_count f c') (out lead v)) \<and>
         within (c_collection_limit cfg) (c' + length vs) \<and>
         accepted_elems okay lead (c_collection_limit cfg) vs \<and>
         e_depth f + height_elems vs \<le> depth_limit \<and>
         room cfg (advance (at_count f c') (out lead v)) (out_elems lead True vs)) \<longleftrightarrow>
      within (c_collection_limit cfg) (c + seps sep (length (v # vs))) \<and>
       accepted_elems okay lead (c_collection_limit cfg) (v # vs) \<and>
       e_depth f + height_elems (v # vs) \<le> depth_limit \<and> room cfg f (out_elems lead sep (v # vs))"
      using room_append[of cfg f "out lead v" "out_elems lead True vs"] f
      by (auto simp: c'_def seps_Cons in_container_def)
  qed (auto simp: c'_def seps_Cons)
qed


lemma fields_step:
  assumes dl: "depth_limit \<le> MAX_DEPTH" and v: "value_ok lead v" and fs: "fields_ok lead fs"
  shows "fields_ok lead ((k, v) # fs)"
  unfolding fields_ok_def
proof (intro allI impI)
  fix f c assume f: "in_container f c"
  let ?g = "at_count f (Suc c)" and ?h = "advance (at_count f (Suc c)) (bytes (EvKey k))"
  let ?cl = "c_collection_limit cfg" and ?kv = "bytes (EvKey k) @ out lead v"
  have key: "outcome (ev (EvKey k)) f (within ?cl (Suc c) \<and> room cfg ?g (bytes (EvKey k))) ?h"
    by (rule outcome_key[OF f dl])
  have tail: "in_container (advance ?h (out lead v)) (Suc c)"
    if "within ?cl (Suc c)" "room cfg f ?kv"
    using in_container_step[OF f that(2) _ that(1) dl] out_nonempty[of lead v] by simp
  have ready: "ready cfg ?h" if "room cfg ?g (bytes (EvKey k))"
    using f that by (auto simp: in_container_def ready_at_count ready_advance)
  have step: "outcome (sbind (issue ev (events lead v))
        (\<lambda>_. issue ev (events_fields lead fs))) ?h
      ((accepted okay lead ?cl v \<and> (height v = 0 \<or> e_depth ?h + height v \<le> depth_limit) \<and>
        room cfg ?h (out lead v)) \<and>
       within ?cl (Suc c + length fs) \<and> accepted_fields okay lead ?cl fs \<and>
       e_depth f + height_fields fs \<le> depth_limit \<and>
       room cfg (advance ?h (out lead v)) (out_fields lead fs))
      (at_count (advance (advance ?h (out lead v)) (out_fields lead fs)) (Suc c + length fs))"
    if w: "within ?cl (Suc c) \<and> room cfg ?g (bytes (EvKey k))"
  proof (rule outcome_sbind)
    show "outcome (issue ev (events lead v)) ?h
      (accepted okay lead ?cl v \<and> (height v = 0 \<or> e_depth ?h + height v \<le> depth_limit) \<and>
        room cfg ?h (out lead v)) (advance ?h (out lead v))"
      using w by (intro v[unfolded value_ok_def, rule_format] ready) simp
  next
    assume "accepted okay lead ?cl v \<and> (height v = 0 \<or> e_depth ?h + height v \<le> depth_limit) \<and>
        room cfg ?h (out lead v)"
    then have "in_container (advance ?h (out lead v)) (Suc c)" using tail w by simp
    then show "outcome (issue ev (events_fields lead fs)) (advance ?h (out lead v))
       (within ?cl (Suc c + length fs) \<and> accepted_fields okay lead ?cl fs \<and>
        e_depth f + height_fields fs \<le> depth_limit \<and>
        room cfg (advance ?h (out lead v)) (out_fields lead fs))
      (at_count (advance (advance ?h (out lead v)) (out_fields lead fs)) (Suc c + length fs))"
      using fs[unfolded fields_ok_def, rule_format] by fastforce
  qed simp
  show "outcome (issue ev (events_fields lead ((k, v) # fs))) f
      (within ?cl (c + length ((k, v) # fs)) \<and> accepted_fields okay lead ?cl ((k, v) # fs) \<and>
       e_depth f + height_fields ((k, v) # fs) \<le> depth_limit \<and>
       room cfg f (out_fields lead ((k, v) # fs)))
      (at_count (advance f (out_fields lead ((k, v) # fs))) (c + length ((k, v) # fs)))"
    unfolding events_fields.simps issue.simps issue_append
  proof (rule outcome_weaken[OF outcome_sbind[OF key step refl]])
    have "within ?cl (Suc c + length fs) \<Longrightarrow> within ?cl (Suc c)"
      by (rule within_mono) auto
    then show "((within ?cl (Suc c) \<and> room cfg ?g (bytes (EvKey k))) \<and>
        (accepted okay lead ?cl v \<and> (height v = 0 \<or> e_depth ?h + height v \<le> depth_limit) \<and>
        room cfg ?h (out lead v)) \<and>
       within ?cl (Suc c + length fs) \<and> accepted_fields okay lead ?cl fs \<and>
       e_depth f + height_fields fs \<le> depth_limit \<and>
       room cfg (advance ?h (out lead v)) (out_fields lead fs)) \<longleftrightarrow>
      within ?cl (c + length ((k, v) # fs)) \<and> accepted_fields okay lead ?cl ((k, v) # fs) \<and>
       e_depth f + height_fields ((k, v) # fs) \<le> depth_limit \<and>
       room cfg f (out_fields lead ((k, v) # fs))"
      using room_append[of cfg f "bytes (EvKey k)" "out lead v @ out_fields lead fs"]
        room_append[of cfg f "?kv" "out_fields lead fs"] f
      by (auto simp: in_container_def)
  qed auto
qed

lemma issue_container: "issue ev (b # xs @ [b']) = sbind (ev b) (\<lambda>_. sbind (issue ev xs) (\<lambda>_. ev b'))"
  by (simp add: issue_append)

lemma container_value_ok:
  assumes dl: "depth_limit \<le> MAX_DEPTH"
  shows "elems_ok lead lead vs \<Longrightarrow> value_ok lead (JArr vs)"
    and "fields_ok lead fs \<Longrightarrow> value_ok lead (JObj fs)"
proof -
  let ?cl = "c_collection_limit cfg"
  assume vs: "elems_ok lead lead vs"
  have "outcome (issue ev (events_elems lead lead vs)) g
      ((within ?cl (seps lead (length vs)) \<and> accepted_elems okay lead ?cl vs) \<and>
       e_depth g + height_elems vs \<le> depth_limit \<and> room cfg g (out_elems lead lead vs))
      (at_count (advance g (out_elems lead lead vs)) (seps lead (length vs)))"
    if "in_container g 0" for g
    using vs[unfolded elems_ok_def, rule_format, OF that] by simp
  from outcome_container[OF dl _ _ _ this] show "value_ok lead (JArr vs)"
    by (simp add: value_ok_def issue_container conj_assoc del: issue.simps(2))
next
  let ?cl = "c_collection_limit cfg"
  assume fs: "fields_ok lead fs"
  have "outcome (issue ev (events_fields lead fs)) g
      ((within ?cl (length fs) \<and> accepted_fields okay lead ?cl fs) \<and>
       e_depth g + height_fields fs \<le> depth_limit \<and> room cfg g (out_fields lead fs))
      (at_count (advance g (out_fields lead fs)) (length fs))"
    if "in_container g 0" for g
    using fs[unfolded fields_ok_def, rule_format, OF that] by simp
  from outcome_container[OF dl _ _ _ this] show "value_ok lead (JObj fs)"
    by (simp add: value_ok_def issue_container conj_assoc del: issue.simps(2))
qed

lemma values_ok:
  assumes dl: "depth_limit \<le> MAX_DEPTH"
  shows "value_ok lead v" and "elems_ok lead sep vs" and "fields_ok lead fs"
proof (induction lead v and lead sep vs and lead fs rule: events_events_elems_events_fields.induct)
  case (12 lead sep)
  then show ?case
    by (auto simp: elems_ok_def outcome_def in_container_def seps_def ready_def at_count_same)
next
  case (14 lead)
  then show ?case
    by (auto simp: fields_ok_def outcome_def in_container_def ready_def at_count_same)
next
  case (10 lead vs)
  then show ?case by (rule container_value_ok(1)[OF dl])
next
  case (11 lead fs)
  then show ?case by (rule container_value_ok(2)[OF dl])
qed (auto simp: elems_step[OF dl] fields_step[OF dl] value_ok_def out_def scalar_event_def
    intro!: scalar[simplified])

text \<open>The whole run, from a new encoder.\<close>

lemma run_outcome:
  assumes "depth_limit \<le> MAX_DEPTH"
  shows "outcome (issue ev (events lead v)) (encoder_new [])
    (accepted okay lead (c_collection_limit cfg) v \<and> height v \<le> depth_limit \<and>
     length (out lead v) \<le> usize_max \<and> within (c_limit cfg) (length (out lead v)))
    (advance (encoder_new []) (out lead v))"
proof -
  have r: "ready cfg (encoder_new [])"
    by (simp add: ready_def room_def encoder_new_def)
  show ?thesis
    by (rule outcome_weaken[OF values_ok(1)[OF assms, unfolded value_ok_def, rule_format, OF r]])
      (auto simp: encoder_new_def room_def)
qed

end

end
