(* ===== verification/Wire.thy ===== *)
theory Wire
  imports EventEncoding
begin

text \<open>
  The specification both directions of the self-describing profile are measured against: the wire
  grammar of nextjson's values. The encoder of \<^verbatim>\<open>src/ser.rs\<close> is an instance of the event contract: it
  writes exactly the grammar and accepts exactly the admissible values.
\<close>

section \<open>The wire grammar\<close>

text \<open>The wire grammar: the specification both directions are measured against.\<close>

fun wire :: "config \<Rightarrow> jv \<Rightarrow> byte list"
  and wire_elems :: "config \<Rightarrow> jv list \<Rightarrow> byte list"
  and wire_fields :: "config \<Rightarrow> (byte list \<times> jv) list \<Rightarrow> byte list" where
  "wire cfg JNull = [TAG_NULL]"
| "wire cfg (JBool b) = [if b then TAG_TRUE else TAG_FALSE]"
| "wire cfg (JU64 v) = TAG_U64 # unsigned_of cfg (ucast v) 8"
| "wire cfg (JU128 v) = TAG_U128 # unsigned_of cfg v 16"
| "wire cfg (JI64 v) = TAG_I64 # signed_of cfg (scast v) 8"
| "wire cfg (JI128 v) = TAG_I128 # signed_of cfg v 16"
| "wire cfg (JF64 v) = TAG_F64 # fixed_of cfg (to_le_bytes v)"
| "wire cfg (JF32 v) = TAG_F32 # fixed_of cfg (to_le_bytes v)"
| "wire cfg (JStr s) = str_of cfg s"
| "wire cfg (JArr vs) = TAG_ARRAY # wire_elems cfg vs @ [TAG_END]"
| "wire cfg (JObj fs) = TAG_OBJECT # wire_fields cfg fs @ [TAG_END]"
| "wire_elems cfg [] = []"
| "wire_elems cfg (v # vs) = wire cfg v @ wire_elems cfg vs"
| "wire_fields cfg [] = []"
| "wire_fields cfg ((k, v) # fs) = str_of cfg k @ wire cfg v @ wire_fields cfg fs"

lemma events_wire:
  "concat (map (ev_bytes cfg) (events lead v)) = wire cfg v"
  "concat (map (ev_bytes cfg) (events_elems lead sep vs)) = wire_elems cfg vs"
  "concat (map (ev_bytes cfg) (events_fields lead fs)) = wire_fields cfg fs"
  by (induction lead v and lead sep vs and lead fs rule: events_events_elems_events_fields.induct)
    (simp_all add: concat_map_singleton)

text \<open>
  Policies a value has to respect: entries per container within the collection limit, finite floats.
  The encoder counts the separators of an array (\<open>lead\<close>).
\<close>

fun admissible :: "bool \<Rightarrow> nat option \<Rightarrow> jv \<Rightarrow> bool"
  and admissible_elems :: "bool \<Rightarrow> nat option \<Rightarrow> jv list \<Rightarrow> bool"
  and admissible_fields :: "bool \<Rightarrow> nat option \<Rightarrow> (byte list \<times> jv) list \<Rightarrow> bool" where
  "admissible lead cl (JF64 v) = is_finite64 v"
| "admissible lead cl (JF32 v) = is_finite32 v"
| "admissible lead cl (JArr vs) \<longleftrightarrow> within cl (seps lead (length vs)) \<and> admissible_elems lead cl vs"
| "admissible lead cl (JObj fs) \<longleftrightarrow> within cl (length fs) \<and> admissible_fields lead cl fs"
| "admissible lead cl _ = True"
| "admissible_elems lead cl [] = True"
| "admissible_elems lead cl (v # vs) \<longleftrightarrow> admissible lead cl v \<and> admissible_elems lead cl vs"
| "admissible_fields lead cl [] = True"
| "admissible_fields lead cl ((k, v) # fs) \<longleftrightarrow> admissible lead cl v \<and> admissible_fields lead cl fs"

section \<open>The encoder accepts exactly the admissible values\<close>

lemma outcome_varint:
  "outcome (enc_varint vec_write_all cfg v) f (room cfg f (varint_of cfg v)) (advance f (varint_of cfg v))"
proof (cases "endian_little (c_endian cfg)")
  case True
  then show ?thesis
    using outcome_emit[of cfg "varint_bytes v"]
    by (cases "encode_varint_le v") (simp add: enc_varint_def varint_of_def varint_bytes_def)
next
  case False
  then show ?thesis
    by (simp add: enc_varint_def varint_of_def emit_tag_def word_le_nat_alt)
      (simp add: outcome_emit varint_be_cases flip: varint_be_cases(2,3,4,5))
qed

lemma outcome_int:
  "n \<in> {8, 16} \<Longrightarrow> outcome (enc_unsigned vec_write_all cfg v n) f
     (room cfg f (unsigned_of cfg v n)) (advance f (unsigned_of cfg v n))"
  "n \<in> {8, 16} \<Longrightarrow> outcome (enc_signed vec_write_all cfg v n) f
     (room cfg f (signed_of cfg v n)) (advance f (signed_of cfg v n))"
  using outcome_varint outcome_emit fixed_of_drop[of "to_le_bytes v" 8] fixed_of_drop[of "to_le_bytes v" 16]
  by (auto simp: enc_unsigned_def unsigned_of_def enc_signed_def signed_of_def fixed_of_def
      to_be_bytes_def)

lemma outcome_tagged:
  "(\<And>g. outcome m g (room cfg g y) (advance g y)) \<Longrightarrow>
   outcome (sbind (emit_tag vec_write_all cfg t) (\<lambda>_. m)) f (room cfg f (t # y)) (advance f (t # y))"
  using outcome_then[OF outcome_emit[of cfg "[t]"], of "\<lambda>_. m" y] by (simp add: emit_tag_def)

lemma outcome_str:
  "outcome (write_str_value vec_write_all cfg s) f (room cfg f (str_of cfg s)) (advance f (str_of cfg s))"
proof (cases "length s > usize_max")
  case True
  then have "\<not> room cfg f (str_of cfg s)" by (simp add: room_def str_of_def)
  moreover have "\<exists>e f'. write_str_value vec_write_all cfg s f = (Inl e, f')"
    using True outcome_emit[of cfg "[TAG_STRING]" f]
    by (cases "room cfg f [TAG_STRING]")
      (auto simp: write_str_value_def enc_length_def emit_tag_def outcome_def)
  ultimately show ?thesis by (simp add: outcome_def)
next
  case False
  then show ?thesis
    unfolding write_str_value_def str_of_def
    by (intro outcome_tagged outcome_then) (simp_all add: enc_length_def outcome_int outcome_emit)
qed


lemma enc_events_single [simp]: "enc_events wr cfg [v] = enc_event wr cfg v"
  by (rule ext) (auto simp: sbind_def split: prod.split sum.split)

lemma enc_events_append: "enc_events wr cfg (xs @ ys) = sbind (enc_events wr cfg xs) (\<lambda>_. enc_events wr cfg ys)"
  by (induction xs) (simp_all add: sbind_assoc sbind_Pair)

lemma outcome_scalar:
  "outcome (write_u64 vec_write_all cfg a) f (room cfg f (ev_bytes cfg (EvU64 a))) (advance f (ev_bytes cfg (EvU64 a)))"
  "outcome (write_u128 vec_write_all cfg b) f (room cfg f (ev_bytes cfg (EvU128 b))) (advance f (ev_bytes cfg (EvU128 b)))"
  "outcome (write_i64 vec_write_all cfg a) f (room cfg f (ev_bytes cfg (EvI64 a))) (advance f (ev_bytes cfg (EvI64 a)))"
  "outcome (write_i128 vec_write_all cfg b) f (room cfg f (ev_bytes cfg (EvI128 b))) (advance f (ev_bytes cfg (EvI128 b)))"
  by (simp_all add: write_u64_def write_u128_def write_i64_def write_i128_def outcome_tagged outcome_int)

lemma outcome_float:
  "outcome (write_f64 vec_write_all cfg a) f (is_finite64 a \<and> room cfg f (ev_bytes cfg (EvF64 a)))
     (advance f (ev_bytes cfg (EvF64 a)))"
  "outcome (write_f32 vec_write_all cfg c) f (is_finite32 c \<and> room cfg f (ev_bytes cfg (EvF32 c)))
     (advance f (ev_bytes cfg (EvF32 c)))"
proof -
  have o: "outcome (enc_fixed vec_write_all cfg (to_le_bytes w) (to_be_bytes w)) g
      (room cfg g (fixed_of cfg (to_le_bytes w))) (advance g (fixed_of cfg (to_le_bytes w)))"
    for w :: "'a::len word" and g
    by (simp add: enc_fixed_def fixed_of_def to_be_bytes_def outcome_emit)
  show "outcome (write_f64 vec_write_all cfg a) f (is_finite64 a \<and> room cfg f (ev_bytes cfg (EvF64 a)))
     (advance f (ev_bytes cfg (EvF64 a)))"
    unfolding write_f64_def by (rule outcome_guard) (simp add: outcome_tagged o)
  show "outcome (write_f32 vec_write_all cfg c) f (is_finite32 c \<and> room cfg f (ev_bytes cfg (EvF32 c)))
     (advance f (ev_bytes cfg (EvF32 c)))"
    unfolding write_f32_def by (rule outcome_guard) (simp add: outcome_tagged o)
qed

lemma wire_nonempty: "0 < length (wire cfg v)"
  by (cases v) (simp_all add: str_of_def)


text \<open>The encoder keeps the contract: a float has to be finite.\<close>

definition finite_event :: "event \<Rightarrow> bool" where
  "finite_event e = (case e of EvF64 v \<Rightarrow> is_finite64 v | EvF32 v \<Rightarrow> is_finite32 v
     | EvNumber (F64 v) \<Rightarrow> is_finite64 v | _ \<Rightarrow> True)"

lemma accepted_finite:
  "accepted finite_event lead cl v = admissible lead cl v"
  "accepted_elems finite_event lead cl vs = admissible_elems lead cl vs"
  "accepted_fields finite_event lead cl fs = admissible_fields lead cl fs"
  by (induction lead cl v and lead cl vs and lead cl fs rule: admissible_admissible_elems_admissible_fields.induct)
    (simp_all add: finite_event_def)

lemma ser_scalar:
  assumes "scalar_event e"
  shows "outcome (enc_event vec_write_all cfg e) f (finite_event e \<and> room cfg f (ev_bytes cfg e)) (advance f (ev_bytes cfg e))"
proof (cases e)
  case (EvNumber n)
  then show ?thesis
    using outcome_scalar[of cfg] outcome_float(1)[of cfg] by (cases n) (simp_all add: write_number_def finite_event_def)
qed (use assms outcome_scalar[of cfg] outcome_float[of cfg] outcome_str outcome_emit in
  \<open>simp_all add: scalar_event_def finite_event_def emit_tag_def\<close>)

lemma ser_enter:
  "outcome (enter_container vec_write_all cfg t) f (e_depth f < c_depth_limit cfg \<and> room cfg f [t])
    ((advance f [t])\<lparr>e_depth := e_depth f + 1\<rparr>)"
  using outcome_emit[of cfg "[t]" f] by (auto simp: enter_container_def outcome_def emit_tag_def split: if_splits)

lemma ser_exit:
  assumes "0 < e_depth f" and "e_depth f \<le> length (e_counts f)"
  shows "outcome (enc_exit_container vec_write_all cfg) f (room cfg f [TAG_END])
    (advance (f\<lparr>e_depth := e_depth f - 1, e_counts := (e_counts f)[e_depth f - 1 := 0]\<rparr>) [TAG_END])"
  using assms outcome_emit[of cfg "[TAG_END]" "f\<lparr>e_depth := e_depth f - 1, e_counts := (e_counts f)[e_depth f - 1 := 0]\<rparr>"]
  by (auto simp: enc_exit_container_def outcome_def Let_def emit_tag_def)

lemma ser_key:
  assumes "outcome (count_element cfg) f P g"
  shows "outcome (enc_event vec_write_all cfg (EvKey k)) f (P \<and> room cfg g (str_of cfg k)) (advance g (str_of cfg k))"
  using outcome_sbind[OF assms, of "\<lambda>_. write_str_value vec_write_all cfg k"] outcome_str[of cfg k g] by simp

interpretation ser: event_encoder cfg "c_depth_limit cfg" "enc_event vec_write_all cfg" "ev_bytes cfg" finite_event for cfg
proof
  fix e f assume "scalar_event e"
  then show "outcome (enc_event vec_write_all cfg e) f (finite_event e \<and> room cfg f (ev_bytes cfg e)) (advance f (ev_bytes cfg e))"
    by (rule ser_scalar)
next
  fix e assume "scalar_event e \<or> e \<in> {EvBeginArray, EvBeginObject}"
  then show "ev_bytes cfg e \<noteq> []" by (cases e) (auto simp: scalar_event_def str_of_def split: number.split)
next
  fix f :: "byte list encoder" and c k assume "0 < e_depth f" "e_depth f \<le> MAX_DEPTH" "ready cfg f" "e_counts f ! (e_depth f - 1) = c" "c < e_written f"
  note count = outcome_count[OF this(3,1,2,4,5)]
  show "outcome (enc_event vec_write_all cfg EvSeparator) f (within (c_collection_limit cfg) (Suc c)) (at_count f (Suc c))"
    using count by simp
  show "outcome (enc_event vec_write_all cfg (EvKey k)) f
    (within (c_collection_limit cfg) (Suc c) \<and> room cfg (at_count f (Suc c)) (ev_bytes cfg (EvKey k)))
    (advance (at_count f (Suc c)) (ev_bytes cfg (EvKey k)))"
    using ser_key[OF count] by simp
next
  fix b and f :: "byte list encoder" assume "b \<in> {EvBeginArray, EvBeginObject}"
  then show "outcome (enc_event vec_write_all cfg b) f (e_depth f < c_depth_limit cfg \<and> room cfg f (ev_bytes cfg b))
    ((advance f (ev_bytes cfg b))\<lparr>e_depth := e_depth f + 1\<rparr>)"
    using ser_enter by auto
next
  fix b and f :: "byte list encoder" assume "b \<in> {EvEndArray, EvEndObject}" "0 < e_depth f" "e_depth f \<le> length (e_counts f)"
  then show "outcome (enc_event vec_write_all cfg b) f (room cfg f (ev_bytes cfg b))
    (advance (f\<lparr>e_depth := e_depth f - 1, e_counts := (e_counts f)[e_depth f - 1 := 0]\<rparr>) (ev_bytes cfg b))"
    using ser_exit by auto
qed simp

lemma ser_out: "ser.out cfg lead v = wire cfg v"
  by (simp add: ser.out_def events_wire)

lemma to_vec_wire:
  assumes "reachable_config cfg"
  shows "to_vec cfg (events lead v) = Inr out \<longleftrightarrow>
    out = wire cfg v \<and> admissible lead (c_collection_limit cfg) v \<and> height v \<le> c_depth_limit cfg \<and>
    length (wire cfg v) \<le> usize_max \<and> within (c_limit cfg) (length (wire cfg v))"
  using ser.run_outcome[OF depth_reachable[OF assms], of lead v]
  by (auto simp: outcome_def to_vec_def to_writer_def Let_def encoder_new_def advance_def enc_events_issue ser_out
      accepted_finite split: if_splits)

text \<open>
  C2: \<^verbatim>\<open>serialize\<close> is total on nextjson's values: it returns the bytes of the wire grammar exactly when
  the value is admissible (finite floats, no more entries per container than the collection limit,
  nesting within the depth limit) and the bytes fit the byte limit, and an error in every other
  case. A nested container at the depth limit, one entry too many or one byte too many is never
  accepted, and nothing else is ever refused.
\<close>

theorem to_vec_total:
  assumes "reachable_config cfg"
  shows "to_vec cfg (events lead v) = Inr out \<longleftrightarrow>
    out = wire cfg v \<and> admissible lead (c_collection_limit cfg) v \<and> height v \<le> c_depth_limit cfg \<and>
    length (wire cfg v) \<le> usize_max \<and> within (c_limit cfg) (length (wire cfg v))"
  using assms by (rule to_vec_wire)

lemma to_vec_total_witness:
  "to_vec (with_depth_limit 1 standard) (events True (JArr [JArr []])) \<noteq> Inr [0x0a, 0x0a, 0xff, 0xff] \<and>
   to_vec (with_depth_limit 2 standard) (events True (JArr [JArr []])) = Inr [0x0a, 0x0a, 0xff, 0xff]"
proof -
  have r: "reachable_config (with_depth_limit n standard)" for n
    using reachable_config.build[OF reachable_config.standard, of "BDepth n"] by simp
  show ?thesis
    using to_vec_total[OF r, of 1 True "JArr [JArr []]" "[0x0a, 0x0a, 0xff, 0xff]"]
      to_vec_total[OF r, of 2 True "JArr [JArr []]" "[0x0a, 0x0a, 0xff, 0xff]"]
    by (simp add: config_defs MAX_DEPTH_def tag_defs DEFAULT_SIZE_LIMIT_def DEFAULT_COLLECTION_LIMIT_def)
qed

end
