(* ===== verification/Decoder.thy ===== *)
theory Decoder
  imports Wire
begin

text \<open>
  \<^verbatim>\<open>src/decoder.rs\<close>: the self-describing decoder, an implementation of nextjson's \<^verbatim>\<open>FormatDecoder\<close>.
  Its methods are operations on the record \<open>decoder\<close>; the configuration never changes and is an
  argument. \<^verbatim>\<open>wire_error\<close> is the error of the result, and \<^verbatim>\<open>expecting\<close>, which only words the
  type-mismatch message, is left out. Strings are their UTF-8 bytes and floats their bit patterns.
\<close>

section \<open>Standard library: UTF-8 and float widening\<close>

abbreviation utf8_cont :: "byte \<Rightarrow> bool" where
  "utf8_cont b \<equiv> 0x80 \<le> b \<and> b \<le> 0xBF"

text \<open>\<^verbatim>\<open>str::from_utf8\<close> succeeds: well-formed sequences only, no surrogates, no overlong forms.\<close>

definition utf8_second :: "byte \<Rightarrow> byte \<Rightarrow> bool" where
  "utf8_second b0 b1 \<longleftrightarrow>
    (if b0 = 0xE0 then 0xA0 \<le> b1 \<and> b1 \<le> 0xBF
     else if b0 = 0xED then 0x80 \<le> b1 \<and> b1 \<le> 0x9F
     else if b0 = 0xF0 then 0x90 \<le> b1 \<and> b1 \<le> 0xBF
     else if b0 = 0xF4 then 0x80 \<le> b1 \<and> b1 \<le> 0x8F
     else utf8_cont b1)"

definition utf8_width :: "byte \<Rightarrow> nat" where
  "utf8_width b0 =
    (if b0 < 0x80 then 1 else if 0xC2 \<le> b0 \<and> b0 \<le> 0xDF then 2
     else if 0xE0 \<le> b0 \<and> b0 \<le> 0xEF then 3 else if 0xF0 \<le> b0 \<and> b0 \<le> 0xF4 then 4 else 0)"

fun utf8_valid :: "byte list \<Rightarrow> bool" where
  "utf8_valid [] = True"
| "utf8_valid (b0 # r) =
    (if utf8_width b0 = 1 then utf8_valid r
     else case r of [] \<Rightarrow> False
     | b1 # r1 \<Rightarrow>
       if utf8_width b0 = 2 then utf8_second b0 b1 \<and> utf8_valid r1
       else case r1 of [] \<Rightarrow> False
       | b2 # r2 \<Rightarrow>
         if utf8_width b0 = 3 then utf8_second b0 b1 \<and> utf8_cont b2 \<and> utf8_valid r2
         else case r2 of [] \<Rightarrow> False
         | b3 # r3 \<Rightarrow> utf8_width b0 = 4 \<and> utf8_second b0 b1 \<and> utf8_cont b2 \<and> utf8_cont b3 \<and> utf8_valid r3)"

text \<open>\<^verbatim>\<open>Chars::next\<close> on a valid string: the first scalar value and the rest.\<close>

fun next_char :: "byte list \<Rightarrow> (u32 \<times> byte list) option" where
  "next_char [] = None"
| "next_char (b0 # r) =
    (let x = ucast b0 :: u32; at = (\<lambda>i. ucast (r ! i) AND 0x3F :: u32) in
     if utf8_width b0 \<le> 1 then Some (x, r)
     else if utf8_width b0 = 2 then Some (push_bit 6 (x AND 0x1F) OR at 0, drop 1 r)
     else if utf8_width b0 = 3
       then Some (push_bit 12 (x AND 0x0F) OR push_bit 6 (at 0) OR at 1, drop 2 r)
     else Some (push_bit 18 (x AND 0x07) OR push_bit 12 (at 0) OR push_bit 6 (at 1) OR at 2, drop 3 r))"

text \<open>
  \<^verbatim>\<open>f32 as f64\<close> on bit patterns: exact for every finite value; a subnormal of \<open>m\<close> units \<open>2^-149\<close> is
  normalised. A NaN keeps its payload and becomes quiet.
\<close>

fun top_bit :: "nat \<Rightarrow> nat" where
  "top_bit n = (if n \<le> 1 then 0 else Suc (top_bit (n div 2)))"

declare top_bit.simps [simp del]

definition f32_to_f64 :: "u32 \<Rightarrow> u64" where
  "f32_to_f64 w =
    (let s = push_bit 63 (ucast (drop_bit 31 w) :: u64);
         e = unat (drop_bit 23 w AND 0xff); m = unat (w AND 0x7fffff) in
     if e = 0xff then s OR push_bit 52 0x7ff OR
         (if m = 0 then 0 else push_bit 51 1 OR push_bit 29 (of_nat m))
     else if e = 0 then (if m = 0 then s
       else s OR push_bit 52 (of_nat (top_bit m + 874)) OR
         push_bit (52 - top_bit m) (of_nat (m - 2 ^ top_bit m)))
     else s OR push_bit 52 (of_nat (e + 896)) OR push_bit 29 (of_nat m))"

section \<open>State\<close>

datatype token =
    TNull | TBool bool | TNumber number | TStr "byte list"
  | TBeginObject | TEndObject | TBeginArray | TEndArray

record decoder =
  d_input :: "byte list"
  d_cursor :: nat
  d_depth :: nat
  d_counts :: "nat list"
  d_lookahead :: "token option"

definition decoder_new :: "byte list \<Rightarrow> decoder" where
  "decoder_new input = \<lparr> d_input = input, d_cursor = 0, d_depth = 0,
     d_counts = replicate MAX_DEPTH 0, d_lookahead = None \<rparr>"

definition invalid_type :: "string \<Rightarrow> token \<Rightarrow> error" where
  "invalid_type expected found = Custom (''invalid type: expected '' @ expected)"

section \<open>Bytes and integers\<close>

definition dec_take :: "config \<Rightarrow> nat \<Rightarrow> (decoder, byte list) op" where
  "dec_take cfg len d =
    (let e = d_cursor d + len in
     if e > usize_max then (Inl UnexpectedEnd, d)
     else case check_limit (c_limit cfg) e of
         Inl err \<Rightarrow> (Inl err, d)
       | Inr _ \<Rightarrow>
         (case slice (d_cursor d) e (d_input d) of
            None \<Rightarrow> (Inl UnexpectedEnd, d)
          | Some bytes \<Rightarrow> (Inr bytes, d\<lparr>d_cursor := e\<rparr>)))"

definition dec_byte :: "config \<Rightarrow> (decoder, byte) op" where
  "dec_byte cfg = sbind (dec_take cfg 1) (\<lambda>bs. sret (bs ! 0))"

definition peek_byte :: "decoder \<Rightarrow> error + byte" where
  "peek_byte d = (if d_cursor d < length (d_input d) then Inr (d_input d ! d_cursor d)
     else Inl UnexpectedEnd)"

text \<open>\<^verbatim>\<open>fixed::<N>\<close>: the slice has the length asked for, the conversion to an array cannot fail.\<close>

definition dec_fixed :: "config \<Rightarrow> nat \<Rightarrow> (decoder, byte list) op" where
  "dec_fixed cfg n = sbind (dec_take cfg n)
     (\<lambda>bs. if length bs = n then sret bs else sfail UnexpectedEnd)"

definition literal :: "config \<Rightarrow> nat \<Rightarrow> (decoder, 'a::len word) op" where
  "literal cfg n = sbind (dec_fixed cfg n) (\<lambda>bs.
     sret (if endian_little (c_endian cfg) then from_le_bytes bs else from_be_bytes bs))"

text \<open>The rest of a varint after its marker, in either byte order.\<close>

definition dec_varint_payload :: "config \<Rightarrow> byte \<Rightarrow> (decoder, u128) op" where
  "dec_varint_payload cfg marker =
    (if endian_little (c_endian cfg) then
      (if marker \<le> 250 then sret (ucast marker)
       else sbind (if marker = MARKER_U16 then sret 2 else if marker = MARKER_U32 then sret 4
            else if marker = MARKER_U64 then sret 8 else if marker = MARKER_U128 then sret 16
            else sfail (InvalidVarintMarker marker)) (\<lambda>payload_len.
         sbind (dec_take cfg payload_len) (\<lambda>bytes.
         case decode_varint_le marker bytes of
           Some value \<Rightarrow> sret value | None \<Rightarrow> sfail NonCanonicalVarint)))
    else if marker \<le> 250 then sret (ucast marker)
    else sbind
      (if marker = MARKER_U16
         then sbind (literal cfg 2) (\<lambda>v. sret (ucast (v :: u16), 251))
       else if marker = MARKER_U32
         then sbind (literal cfg 4) (\<lambda>v. sret (ucast (v :: u32), 0x10000))
       else if marker = MARKER_U64
         then sbind (literal cfg 8) (\<lambda>v. sret (ucast (v :: u64), 0x100000000))
       else if marker = MARKER_U128
         then sbind (literal cfg 16) (\<lambda>v. sret (v, 0x10000000000000000))
       else sfail (InvalidVarintMarker marker))
      (\<lambda>(value, minimum). if value < minimum then sfail NonCanonicalVarint else sret value))"

definition dec_varint :: "config \<Rightarrow> (decoder, u128) op" where
  "dec_varint cfg = sbind (dec_byte cfg) (dec_varint_payload cfg)"

definition unsigned_name :: "nat \<Rightarrow> string" where
  "unsigned_name n = (if n = 2 then ''u16'' else if n = 4 then ''u32'' else if n = 8 then ''u64''
     else if n = 16 then ''u128'' else ''unsigned integer'')"

definition signed_name :: "nat \<Rightarrow> string" where
  "signed_name n = (if n = 2 then ''i16'' else if n = 4 then ''i32'' else if n = 8 then ''i64''
     else if n = 16 then ''i128'' else ''signed integer'')"

definition dec_unsigned :: "config \<Rightarrow> nat \<Rightarrow> u128 \<Rightarrow> (decoder, u128) op" where
  "dec_unsigned cfg fixed_bytes target_max =
    sbind (if c_integers cfg = Variable \<and> fixed_bytes > 1 then dec_varint cfg
           else sbind (dec_take cfg fixed_bytes) (\<lambda>source. sret
             (if endian_little (c_endian cfg)
              then from_le_bytes (source @ replicate (16 - fixed_bytes) 0)
              else from_be_bytes (replicate (16 - fixed_bytes) 0 @ source))))
      (\<lambda>value. if value > target_max then sfail (IntegerOverflow (unsigned_name fixed_bytes))
        else sret value)"

definition dec_signed :: "config \<Rightarrow> nat \<Rightarrow> u128 \<Rightarrow> u128 \<Rightarrow> (decoder, u128) op" where
  "dec_signed cfg fixed_bytes lo hi =
    sbind (if c_integers cfg = Variable \<and> fixed_bytes > 1
           then sbind (dec_varint cfg) (\<lambda>encoded. sret (zigzag_decode encoded))
           else sbind (dec_take cfg fixed_bytes) (\<lambda>source.
             let fill = (if source \<noteq> [] \<and>
                   (if endian_little (c_endian cfg) then source ! (fixed_bytes - 1) AND 0x80 \<noteq> 0
                    else source ! 0 AND 0x80 \<noteq> 0) then 0xff else 0) in
             sret (if endian_little (c_endian cfg)
               then from_le_bytes (source @ replicate (16 - fixed_bytes) fill)
               else from_be_bytes (replicate (16 - fixed_bytes) fill @ source))))
      (\<lambda>value. if sint value < sint lo \<or> sint value > sint hi
        then sfail (IntegerOverflow (signed_name fixed_bytes)) else sret value)"

definition read_u64 :: "config \<Rightarrow> (decoder, u64) op" where
  "read_u64 cfg = sbind (dec_unsigned cfg 8 0xffffffffffffffff) (\<lambda>v. sret (ucast v))"

definition read_u128 :: "config \<Rightarrow> (decoder, u128) op" where
  "read_u128 cfg = dec_unsigned cfg 16 (- 1)"

definition read_i64 :: "config \<Rightarrow> (decoder, u64) op" where
  "read_i64 cfg = sbind (dec_signed cfg 8 (- (2 ^ 63)) (2 ^ 63 - 1)) (\<lambda>v. sret (ucast v))"

definition read_i128 :: "config \<Rightarrow> (decoder, u128) op" where
  "read_i128 cfg = dec_signed cfg 16 (2 ^ 127) (2 ^ 127 - 1)"

definition dec_length :: "config \<Rightarrow> (decoder, u64) op" where
  "dec_length cfg = sbind (dec_unsigned cfg 8 0xffffffffffffffff) (\<lambda>v. sret (ucast v))"

definition read_string :: "config \<Rightarrow> (decoder, byte list) op" where
  "read_string cfg = sbind (dec_length cfg) (\<lambda>len.
     sbind (dec_take cfg (unat len)) (\<lambda>bytes.
     if utf8_valid bytes then sret bytes else sfail InvalidUtf8))"

section \<open>Tokens\<close>

text \<open>The match on the tag: the payload of a value, if it has one.\<close>

definition read_payload :: "config \<Rightarrow> byte \<Rightarrow> (decoder, token) op" where
  "read_payload cfg tag =
    (if tag = TAG_NULL then sret TNull
     else if tag = TAG_FALSE then sret (TBool False)
     else if tag = TAG_TRUE then sret (TBool True)
     else if tag = TAG_U64 then sbind (read_u64 cfg) (\<lambda>v. sret (TNumber (U64 v)))
     else if tag = TAG_U128 then sbind (read_u128 cfg) (\<lambda>v. sret (TNumber (U128 v)))
     else if tag = TAG_I64 then sbind (read_i64 cfg) (\<lambda>v. sret (TNumber (I64 v)))
     else if tag = TAG_I128 then sbind (read_i128 cfg) (\<lambda>v. sret (TNumber (I128 v)))
     else if tag = TAG_F64 then sbind (literal cfg 8) (\<lambda>v. sret (TNumber (F64 v)))
     else if tag = TAG_F32 then sbind (literal cfg 4) (\<lambda>v. sret (TNumber (F64 (f32_to_f64 v))))
     else if tag = TAG_STRING then sbind (read_string cfg) (\<lambda>s. sret (TStr s))
     else if tag = TAG_ARRAY then sret TBeginArray
     else if tag = TAG_OBJECT then sret TBeginObject
     else if tag = TAG_END then sfail (Custom ''unexpected end-of-container terminator'')
     else sfail (Custom ''invalid value tag''))"

definition read_token :: "config \<Rightarrow> (decoder, token) op" where
  "read_token cfg = sbind (dec_byte cfg) (read_payload cfg)"

definition peek_token :: "config \<Rightarrow> (decoder, token) op" where
  "peek_token cfg d = (case d_lookahead d of
     Some token \<Rightarrow> (Inr token, d)
   | None \<Rightarrow> sbind (read_token cfg) (\<lambda>token d'. (Inr token, d'\<lparr>d_lookahead := Some token\<rparr>)) d)"

definition take_token :: "config \<Rightarrow> (decoder, token) op" where
  "take_token cfg d = (case d_lookahead d of
     Some token \<Rightarrow> (Inr token, d\<lparr>d_lookahead := None\<rparr>)
   | None \<Rightarrow> read_token cfg d)"

definition peek_end :: "(decoder, bool) op" where
  "peek_end d = (if d_lookahead d \<noteq> None then (Inr False, d)
     else (rmap (\<lambda>b. b = TAG_END) (peek_byte d), d))"

section \<open>Containers\<close>

definition push_frame :: "config \<Rightarrow> (decoder, unit) op" where
  "push_frame cfg d =
    (if d_depth d \<ge> c_depth_limit cfg then (Inl (Custom ''decoder nesting depth limit exceeded''), d)
     else (Inr (), d\<lparr>d_depth := d_depth d + 1\<rparr>))"

definition dec_exit_container :: "config \<Rightarrow> (decoder, unit) op" where
  "dec_exit_container cfg d =
    (if d_depth d = 0 then (Inl (Custom ''container end without matching start''), d)
     else sbind (dec_byte cfg) (\<lambda>b d.
       if b \<noteq> TAG_END then (Inl (Custom ''container end without terminator''), d)
       else let k = d_depth d - 1 in
         if k \<ge> length (d_counts d) then (Inl (Panic ''index out of bounds''), d\<lparr>d_depth := k\<rparr>)
         else (Inr (), d\<lparr>d_depth := k, d_counts := (d_counts d)[k := 0]\<rparr>)) d)"

definition container_sep :: "config \<Rightarrow> (decoder, bool) op" where
  "container_sep cfg d =
    (if d_depth d = 0 then (Inl (Custom ''container separator outside any container''), d)
     else let index = d_depth d - 1 in
       if index \<ge> length (d_counts d) then (Inl (Panic ''index out of bounds''), d)
       else let count = d_counts d ! index + 1 in
         if count > usize_max then (Inl (CollectionLimit usize_max), d)
         else case check_collection (c_collection_limit cfg) count of
             Inl err \<Rightarrow> (Inl err, d)
           | Inr _ \<Rightarrow>
             let d' = d\<lparr>d_counts := (d_counts d)[index := count]\<rparr> in
             if d_lookahead d' \<noteq> None then (Inr True, d')
             else (rmap (\<lambda>b. b \<noteq> TAG_END) (peek_byte d'), d'))"

definition begin_object :: "config \<Rightarrow> (decoder, unit) op" where
  "begin_object cfg = sbind (take_token cfg) (\<lambda>t. case t of
     TBeginObject \<Rightarrow> push_frame cfg | other \<Rightarrow> sfail (invalid_type ''an object'' other))"

definition begin_array :: "config \<Rightarrow> (decoder, unit) op" where
  "begin_array cfg = sbind (take_token cfg) (\<lambda>t. case t of
     TBeginArray \<Rightarrow> push_frame cfg | other \<Rightarrow> sfail (invalid_type ''an array'' other))"

definition object_key :: "config \<Rightarrow> (decoder, byte list option) op" where
  "object_key cfg = sbind peek_end (\<lambda>e. if e then sret None
     else sbind (take_token cfg) (\<lambda>t. case t of
       TStr key \<Rightarrow> sret (Some key) | other \<Rightarrow> sfail (invalid_type ''an object key string'' other)))"

definition array_has_more :: "(decoder, bool) op" where
  "array_has_more = sbind peek_end (\<lambda>e. sret (\<not> e))"

section \<open>Scalars\<close>

definition dec_unit :: "config \<Rightarrow> (decoder, unit) op" where
  "dec_unit cfg = sbind (take_token cfg) (\<lambda>t. case t of
     TNull \<Rightarrow> sret () | other \<Rightarrow> sfail (invalid_type ''null'' other))"

definition dec_bool :: "config \<Rightarrow> (decoder, bool) op" where
  "dec_bool cfg = sbind (take_token cfg) (\<lambda>t. case t of
     TBool v \<Rightarrow> sret v | other \<Rightarrow> sfail (invalid_type ''a boolean'' other))"

definition dec_number :: "config \<Rightarrow> (decoder, number) op" where
  "dec_number cfg = sbind (take_token cfg) (\<lambda>t. case t of
     TNumber v \<Rightarrow> sret v | other \<Rightarrow> sfail (invalid_type ''a number'' other))"

definition dec_string :: "config \<Rightarrow> (decoder, byte list) op" where
  "dec_string cfg = sbind (take_token cfg) (\<lambda>t. case t of
     TStr v \<Rightarrow> sret v | other \<Rightarrow> sfail (invalid_type ''a string'' other))"

definition dec_char :: "config \<Rightarrow> (decoder, u32) op" where
  "dec_char cfg = sbind (take_token cfg) (\<lambda>t. case t of
     TStr v \<Rightarrow> (case next_char v of Some (c, []) \<Rightarrow> sret c | _ \<Rightarrow> sfail InvalidChar)
   | other \<Rightarrow> sfail (invalid_type ''a character'' other))"

section \<open>Backtracking\<close>

text \<open>\<^verbatim>\<open>Mark::new(cursor, depth as u32)\<close>: nextjson stores both numbers.\<close>

definition dec_save :: "decoder \<Rightarrow> nat \<times> nat" where
  "dec_save d = (d_cursor d, d_depth d mod 2 ^ 32)"

definition dec_restore :: "nat \<times> nat \<Rightarrow> decoder \<Rightarrow> decoder" where
  "dec_restore mark d =
    (let depth = min (snd mark) (length (d_counts d)) in
     d\<lparr>d_cursor := fst mark, d_depth := depth,
       d_counts := take depth (d_counts d) @ replicate (length (d_counts d) - depth) 0,
       d_lookahead := None\<rparr>)"

section \<open>Reading operations only move the cursor forward, within the limits\<close>

definition moves :: "config \<Rightarrow> decoder \<Rightarrow> decoder \<Rightarrow> bool" where
  "moves cfg d d' \<longleftrightarrow> (\<exists>n. d' = d\<lparr>d_cursor := d_cursor d + n\<rparr> \<and>
     (n = 0 \<or> d_cursor d + n \<le> length (d_input d) \<and> within (c_limit cfg) (d_cursor d + n)))"

definition reads :: "config \<Rightarrow> (decoder, 'a) op \<Rightarrow> bool" where
  "reads cfg m \<longleftrightarrow> (\<forall>d r d'. m d = (r, d') \<longrightarrow> moves cfg d d')"

lemma moves_refl [simp]: "moves cfg d d"
  unfolding moves_def by (rule exI[of _ 0]) simp

lemma moves_trans:
  assumes "moves cfg d1 d2" and "moves cfg d2 d3"
  shows "moves cfg d1 d3"
proof -
  obtain n where n: "d2 = d1\<lparr>d_cursor := d_cursor d1 + n\<rparr>"
      "n = 0 \<or> d_cursor d1 + n \<le> length (d_input d1) \<and> within (c_limit cfg) (d_cursor d1 + n)"
    using assms(1) unfolding moves_def by blast
  obtain m where m: "d3 = d2\<lparr>d_cursor := d_cursor d2 + m\<rparr>"
      "m = 0 \<or> d_cursor d2 + m \<le> length (d_input d2) \<and> within (c_limit cfg) (d_cursor d2 + m)"
    using assms(2) unfolding moves_def by blast
  show ?thesis
    unfolding moves_def using n m by (intro exI[of _ "n + m"]) (auto simp: add.assoc)
qed

lemma readsD: "reads cfg m \<Longrightarrow> m d = (r, d') \<Longrightarrow> moves cfg d d'"
  by (simp add: reads_def)

lemma reads_take [simp]: "reads cfg (dec_take cfg n)"
  unfolding reads_def
proof (intro allI impI)
  fix d r d' assume "dec_take cfg n d = (r, d')"
  then have "d' = d \<or> d' = d\<lparr>d_cursor := d_cursor d + n\<rparr> \<and>
      d_cursor d + n \<le> length (d_input d) \<and> within (c_limit cfg) (d_cursor d + n)"
    by (auto simp: dec_take_def Let_def check_limit_if slice_eq_Some split: if_splits option.splits)
  then show "moves cfg d d'"
    using moves_refl unfolding moves_def by blast
qed

lemma reads_Pair [simp]: "reads cfg (Pair r)" "reads cfg (sret x)" "reads cfg (sfail e)"
  by (simp_all add: reads_def)

lemma reads_sbind [simp]:
  assumes "reads cfg m" and "\<And>x. reads cfg (f x)"
  shows "reads cfg (sbind m f)"
  unfolding reads_def
proof (intro allI impI)
  fix d r d' assume s: "sbind m f d = (r, d')"
  show "moves cfg d d'"
  proof (cases rule: sbind_cases[of m d f])
    case (err e s')
    then show ?thesis using s readsD[OF assms(1)] by auto
  next
    case (ok x s')
    then show ?thesis using s readsD[OF assms(1)] readsD[OF assms(2)] moves_trans by metis
  qed
qed

lemma reads_case [simp]:
  "reads cfg (case x of None \<Rightarrow> sfail e | Some v \<Rightarrow> sret v)"
  "(\<And>a b. reads cfg (g a b)) \<Longrightarrow> reads cfg (case p of (a, b) \<Rightarrow> g a b)"
  by (cases x; simp) (cases p; simp)

lemma reads_ops [simp]:
  "reads cfg (dec_byte cfg)" "reads cfg (dec_fixed cfg n)"
  "reads cfg (literal cfg n :: (decoder, 'a::len word) op)"
  by (simp_all add: dec_byte_def dec_fixed_def literal_def)

lemma reads_varint [simp]: "reads cfg (dec_varint cfg)"
  by (simp add: dec_varint_def dec_varint_payload_def)

lemma reads_int [simp]:
  "reads cfg (dec_unsigned cfg n m)" "reads cfg (dec_signed cfg n a b)"
  "reads cfg (read_u64 cfg)" "reads cfg (read_u128 cfg)" "reads cfg (read_i64 cfg)"
  "reads cfg (read_i128 cfg)" "reads cfg (dec_length cfg)" "reads cfg (read_string cfg)"
  by (auto simp: dec_unsigned_def dec_signed_def read_u64_def read_u128_def read_i64_def
      read_i128_def dec_length_def read_string_def Let_def)

lemma reads_token [simp]: "reads cfg (read_token cfg)"
  by (simp add: read_token_def read_payload_def)

lemma dec_byte_Inr: "dec_byte cfg d = (Inr b, d') \<Longrightarrow>
   d' = d\<lparr>d_cursor := d_cursor d + 1\<rparr> \<and> d_cursor d < length (d_input d) \<and> b = d_input d ! d_cursor d"
  by (auto simp: dec_byte_def sbind_Inr dec_take_def Let_def check_limit_if slice_eq_Some
      split: if_splits option.splits)

lemma moves_cursor: "moves cfg d d' \<Longrightarrow> d_cursor d \<le> d_cursor d' \<and> d_input d' = d_input d"
  by (auto simp: moves_def)

lemma read_token_progress:
  assumes "read_token cfg d = (Inr t, d')"
  shows "d_cursor d < d_cursor d'" and "d_input d' = d_input d" and "d_cursor d < length (d_input d)"
proof -
  obtain b d1 where b: "dec_byte cfg d = (Inr b, d1)" "read_payload cfg b d1 = (Inr t, d')"
    using assms by (auto simp: read_token_def sbind_Inr)
  have "reads cfg (read_payload cfg b)" by (simp add: read_payload_def)
  then show "d_cursor d < d_cursor d'" "d_input d' = d_input d" "d_cursor d < length (d_input d)"
    using dec_byte_Inr[OF b(1)] moves_cursor[OF readsD[of cfg "read_payload cfg b", OF _ b(2)]]
    by auto
qed

section \<open>Skipping\<close>

text \<open>
  The loop of \<^verbatim>\<open>skip_value_inner\<close>: it peeks for the terminator and steps over it by hand.
\<close>

function skip_loop :: "config \<Rightarrow> nat \<Rightarrow> (decoder, unit) op" where
  "skip_loop cfg nested d =
    (case peek_byte d of
       Inl e \<Rightarrow> (Inl e, d)
     | Inr b \<Rightarrow>
       if b = TAG_END then
         (let d' = d\<lparr>d_cursor := d_cursor d + 1\<rparr> in
          if nested - 1 = 0 then (Inr (), d') else skip_loop cfg (nested - 1) d')
       else sbind (read_token cfg)
         (\<lambda>t. skip_loop cfg (if t = TBeginArray \<or> t = TBeginObject then nested + 1 else nested)) d)"
  by pat_completeness auto

termination
  by (relation "measure (\<lambda>(cfg, nested, d). length (d_input d) - d_cursor d)")
    (auto simp: peek_byte_def read_token_progress(2) split: if_splits
      intro!: diff_less_mono2 dest: read_token_progress(1,3))

declare skip_loop.simps [simp del]

definition skip_value :: "config \<Rightarrow> (decoder, unit) op" where
  "skip_value cfg = sbind (take_token cfg) (\<lambda>t.
     if t = TBeginArray \<or> t = TBeginObject then skip_loop cfg 1 else sret ())"

section \<open>Widths of integers\<close>

lemma nat_to_le_add: "nat_to_le (a + b) v = nat_to_le a v @ nat_to_le b (v div 256 ^ a)"
  by (induction a arbitrary: v) (simp_all add: div_mult2_eq)

lemma nat_to_le_zero: "nat_to_le n 0 = replicate n 0"
  by (induction n) simp_all

lemma nth_nat_to_le: "i < n \<Longrightarrow> nat_to_le n v ! i = of_nat (v div 256 ^ i)"
  by (induction n arbitrary: v i) (auto simp: nth_Cons div_mult2_eq split: nat.split)

lemma le16_split:
  "to_le_bytes (v :: u128) = nat_to_le 8 (unat v) @ nat_to_le 8 (unat v div 2 ^ 64)"
  using nat_to_le_add[of 8 8 "unat v"] by (simp add: to_le_bytes_def)

lemma le16_take8: "take 8 (to_le_bytes (v :: u128)) = nat_to_le 8 (unat v)"
  by (simp add: le16_split)

lemma le16_small: "unat (v :: u128) < 2 ^ 64 \<Longrightarrow>
  take 8 (to_le_bytes v) @ replicate 8 0 = to_le_bytes v"
  by (simp add: le16_split nat_to_le_zero)

lemma unat_scast64:
  "unat (scast (w :: u64) :: u128) = unat w + (if bit w 63 then 2 ^ 128 - 2 ^ 64 else 0)"
proof -
  have u: "0 \<le> uint w" "uint w < 2 ^ 64" using unsigned_less[of w, where ?'a = int] by simp_all
  have "sint w = (if bit w 63 then uint w - 2 ^ 64 else uint w)"
    using u by (simp add: sint_uint signed_take_bit_eq_take_bit_minus take_bit_eq_mod bit_uint_iff)
  moreover have "uint (scast w :: u128) = sint w mod 2 ^ 128"
    by (simp only: scast_eq uint_word_of_int) simp
  moreover have "(uint w - 2 ^ 64) mod 2 ^ 128 = uint w + (2 ^ 128 - 2 ^ 64)"
  proof -
    have "(uint w - 2 ^ 64) mod 2 ^ 128 = (uint w - 2 ^ 64 + 2 ^ 128) mod 2 ^ 128"
      by (rule mod_add_self2[symmetric])
    also have "\<dots> = uint w - 2 ^ 64 + 2 ^ 128" using u by (intro mod_pos_pos_trivial) auto
    finally show ?thesis by simp
  qed
  ultimately have "uint (scast w :: u128) = uint w + (if bit w 63 then 2 ^ 128 - 2 ^ 64 else 0)"
    using u by auto
  then have "int (unat (scast w :: u128)) = int (unat w + (if bit w 63 then 2 ^ 128 - 2 ^ 64 else 0))"
    by simp
  then show ?thesis by (simp only: of_nat_eq_iff)
qed

lemma bit_of_nat_word: "bit (of_nat n :: 'a::len word) k \<longleftrightarrow> k < LENGTH('a) \<and> bit n k"
  using bit_unsigned_iff[where ?'a = nat, of "of_nat n :: 'a word" k] by (simp add: unsigned_of_nat bit_take_bit_iff)

lemma bit63_top: "bit (w :: u64) 63 \<longleftrightarrow> bit (of_nat (unat w div 256 ^ 7) :: byte) 7"
proof -
  have "bit (unat w div 256 ^ 7) 7 \<longleftrightarrow> bit (unat w) 63"
    by (simp add: bit_iff_odd div_mult2_eq[symmetric])
  then show ?thesis by (simp only: bit_of_nat_word bit_unsigned_iff) simp
qed

lemma and_0x80: "(b :: byte) AND 0x80 \<noteq> 0 \<longleftrightarrow> bit b 7"
proof -
  have "(0x80 :: byte) = 2 ^ 7" by simp
  then show ?thesis by (simp only: and_exp_eq_0_iff_not_bit not_not)
qed

lemma le16_scast:
  "to_le_bytes (scast (w :: u64) :: u128) =
     to_le_bytes w @ replicate 8 (if bit w 63 then 0xff else 0)"
proof -
  have b: "unat w < 2 ^ 64" using unsigned_less[of w, where ?'a = nat] by simp
  show ?thesis
  proof (cases "bit w 63")
    case True
    have "(unat w + 2 ^ 64 * (2 ^ 64 - 1)) mod 256 ^ 8 = unat w mod 256 ^ 8"
      using mod_mult_self2[of "unat w" "2 ^ 64" "2 ^ 64 - 1"] by simp
    then have "nat_to_le 8 (unat w + (2 ^ 128 - 2 ^ 64)) = nat_to_le 8 (unat w)"
      using nat_to_le_mod[of 8 "unat w + 2 ^ 64 * (2 ^ 64 - 1)"] nat_to_le_mod[of 8 "unat w"]
      by (simp del: nat_to_le_mod)
    moreover have "(unat w + (2 ^ 128 - 2 ^ 64)) div 2 ^ 64 = 2 ^ 64 - 1"
      using b by simp
    moreover have "nat_to_le 8 (2 ^ 64 - 1) = replicate 8 0xff"
      by code_simp
    ultimately show ?thesis
      using True by (simp only: le16_split unat_scast64 if_True) (simp add: to_le_bytes_def)
  next
    case False
    then show ?thesis
      using b by (simp add: le16_split unat_scast64 nat_to_le_zero to_le_bytes_def)
  qed
qed

lemma top_byte: "to_le_bytes (w :: u64) ! 7 = of_nat (unat w div 256 ^ 7)"
  by (simp add: to_le_bytes_def nth_nat_to_le)

lemma ucast_scast64 [simp]: "ucast (scast (w :: u64) :: u128) = w"
  by (rule bit_word_eqI) (simp add: bit_simps)

lemma ucast_ucast64 [simp]: "ucast (ucast (w :: u64) :: u128) = w"
  by (rule bit_word_eqI) (simp add: bit_simps)

lemma sint_scast64: "sint (scast (w :: u64) :: u128) = sint w"
  using sint_lt[of w] sint_ge[of w]
  by (simp add: signed_scast_eq signed_take_bit_int_eq_self)

lemma sint_bounds:
  "sint (w :: u64) < 2 ^ 63" "- (2 ^ 63) \<le> sint (w :: u64)"
  "sint (v :: u128) < 2 ^ 127" "- (2 ^ 127) \<le> sint (v :: u128)"
  using sint_lt[of w] sint_ge[of w] sint_lt[of v] sint_ge[of v] by simp_all
lemma sint_consts: "sint (- (2 ^ 63) :: u128) = - (2 ^ 63)" "sint (2 ^ 63 - 1 :: u128) = 2 ^ 63 - 1"
  "sint (2 ^ 127 :: u128) = - (2 ^ 127)" "sint (2 ^ 127 - 1 :: u128) = 2 ^ 127 - 1"
  by simp_all

section \<open>Reading back what the encoder wrote\<close>

text \<open>\<open>starts cfg d bs\<close>: the unread input begins with \<open>bs\<close> and the byte limit covers it.\<close>

definition starts :: "config \<Rightarrow> decoder \<Rightarrow> byte list \<Rightarrow> bool" where
  "starts cfg d bs \<longleftrightarrow> d_cursor d \<le> length (d_input d) \<and>
     (\<exists>rest. drop (d_cursor d) (d_input d) = bs @ rest) \<and>
     d_cursor d + length bs \<le> usize_max \<and> within (c_limit cfg) (d_cursor d + length bs)"

definition past :: "decoder \<Rightarrow> byte list \<Rightarrow> decoder" where
  "past d bs = d\<lparr>d_cursor := d_cursor d + length bs\<rparr>"

lemma past_simps [simp]:
  "past d [] = d" "past (past d x) y = past d (x @ y)"
  "d_depth (past d x) = d_depth d" "d_counts (past d x) = d_counts d"
  "d_lookahead (past d x) = d_lookahead d" "d_input (past d x) = d_input d"
  "d_cursor (past d x) = d_cursor d + length x"
  "d_lookahead_update h (past d x) = past (d_lookahead_update h d) x"
  "d_depth_update g (past d x) = past (d_depth_update g d) x"
  "d_counts_update k (past d x) = past (d_counts_update k d) x"
  by (simp_all add: past_def)

lemma starts_append: "starts cfg d (x @ y) \<longleftrightarrow> starts cfg d x \<and> starts cfg (past d x) y"
proof
  assume s: "starts cfg d (x @ y)"
  then obtain rest where r: "drop (d_cursor d) (d_input d) = x @ y @ rest"
    by (auto simp: starts_def)
  have "length (d_input d) - d_cursor d = length x + length y + length rest"
    using r by (metis length_append length_drop add.assoc)
  moreover have "drop (d_cursor d + length x) (d_input d) = y @ rest"
    using r by (metis append_eq_conv_conj drop_drop add.commute)
  ultimately show "starts cfg d x \<and> starts cfg (past d x) y"
    using s r by (auto simp: starts_def add.assoc elim: within_mono)
next
  assume s: "starts cfg d x \<and> starts cfg (past d x) y"
  then obtain r1 r2 where r: "drop (d_cursor d) (d_input d) = x @ r1"
    "drop (d_cursor d + length x) (d_input d) = y @ r2" by (auto simp: starts_def)
  then have "r1 = y @ r2"
    by (metis append_eq_conv_conj drop_drop add.commute)
  then show "starts cfg d (x @ y)" using s r by (auto simp: starts_def add.assoc)
qed

lemma starts_cong [simp]:
  "starts cfg (d_lookahead_update h d) x = starts cfg d x"
  "starts cfg (d_depth_update g d) x = starts cfg d x"
  "starts cfg (d_counts_update k d) x = starts cfg d x"
  by (simp_all add: starts_def)

lemma starts_slice:
  assumes "starts cfg d bs"
  shows "slice (d_cursor d) (d_cursor d + length bs) (d_input d) = Some bs"
proof -
  obtain rest where r: "drop (d_cursor d) (d_input d) = bs @ rest" using assms by (auto simp: starts_def)
  then have "length (d_input d) - d_cursor d = length bs + length rest"
    by (metis length_append length_drop)
  then show ?thesis using assms r by (auto simp: slice_eq_Some starts_def)
qed

definition yields :: "config \<Rightarrow> (decoder, 'a) op \<Rightarrow> byte list \<Rightarrow> 'a \<Rightarrow> bool" where
  "yields cfg m bs v \<longleftrightarrow> (\<forall>d. starts cfg d bs \<longrightarrow> m d = (Inr v, past d bs))"

lemma yieldsD: "yields cfg m bs v \<Longrightarrow> starts cfg d bs \<Longrightarrow> m d = (Inr v, past d bs)"
  by (simp add: yields_def)

lemma yields_take: "n = length bs \<Longrightarrow> yields cfg (dec_take cfg n) bs bs"
  using starts_slice by (auto simp: yields_def dec_take_def Let_def check_limit_if starts_def past_def)

lemma yields_sbind:
  assumes "yields cfg m x v" and "yields cfg (f v) y w"
  shows "yields cfg (sbind m f) (x @ y) w"
  unfolding yields_def
proof (intro allI impI)
  fix d assume "starts cfg d (x @ y)"
  then have "starts cfg d x" "starts cfg (past d x) y" by (simp_all add: starts_append)
  then show "sbind m f d = (Inr w, past d (x @ y))"
    using assms by (simp add: yields_def)
qed

lemma yields_ret: "yields cfg (sret v) [] v"
  by (simp add: yields_def)

lemma sbind_sret_left: "sbind (sret x) f = f x"
  by (rule ext) simp

lemma yields_map: "yields cfg m x v \<Longrightarrow> f v = sret w \<Longrightarrow> yields cfg (sbind m f) x w"
  using yields_sbind[of cfg m x v f "[]" w] yields_ret[of cfg w] by (simp del: sop_simps)

lemma yields_byte: "yields cfg (dec_byte cfg) [b] b"
  unfolding dec_byte_def by (rule yields_map[OF yields_take]) simp_all

lemma yields_fixed: "n = length bs \<Longrightarrow> yields cfg (dec_fixed cfg n) bs bs"
  unfolding dec_fixed_def by (rule yields_map[OF yields_take]) simp_all

lemma yields_literal:
  assumes "8 dvd LENGTH('a::len)"
  shows "yields cfg (literal cfg (LENGTH('a) div 8)) (fixed_of cfg (to_le_bytes (w :: 'a word))) w"
  unfolding literal_def fixed_of_def using assms
  by (intro yields_map[OF yields_fixed]) (simp_all add: from_to_le_bytes from_be_bytes_def)

lemma yields_literal_be:
  assumes "8 dvd LENGTH('a::len)" and "unat v < 2 ^ LENGTH('a)" and "\<not> endian_little (c_endian cfg)"
  shows "yields cfg (sbind (literal cfg (LENGTH('a) div 8)) (\<lambda>v. sret (ucast (v :: 'a word), lo)))
      (rev (nat_to_le (LENGTH('a) div 8) (unat v))) (v :: u128, lo :: u128)"
proof (rule yields_map)
  show "yields cfg (literal cfg (LENGTH('a) div 8)) (rev (nat_to_le (LENGTH('a) div 8) (unat v)))
      (ucast v :: 'a word)"
    using yields_literal[of cfg "ucast v :: 'a word", OF assms(1)] assms
    by (simp add: fixed_of_def to_le_bytes_ucast)
qed (simp only: ucast_ucast_id[OF assms(2)])

lemma yields_wide_be:
  assumes "8 dvd LENGTH('a::len)" and "unat v < 2 ^ LENGTH('a)" and "\<not> endian_little (c_endian cfg)"
    and "lo \<le> v"
  shows "yields cfg (sbind (sbind (literal cfg (LENGTH('a) div 8)) (\<lambda>v. sret (ucast (v :: 'a word), lo)))
      (\<lambda>(value, minimum). if value < minimum then sfail NonCanonicalVarint else sret value))
      (rev (nat_to_le (LENGTH('a) div 8) (unat v))) (v :: u128)"
  using assms(4) by (intro yields_map[OF yields_literal_be[OF assms(1-3)]]) (simp add: leD)

lemma yields_varint: "yields cfg (dec_varint cfg) (varint_of cfg v) v"
proof (cases "endian_little (c_endian cfg)")
  case True
  obtain m p where mp: "varint_bytes v = m # p" by (cases v rule: varint_cases) auto
  then have sh: "payload_len m = Some (length p)" "decode_varint_le m p = Some v"
    using varint_bytes_shape[of v] varint_decode_encode[of v] by simp_all
  have t: "yields cfg (sbind (dec_take cfg (length p)) (\<lambda>bytes. case decode_varint_le m bytes of
         Some value \<Rightarrow> sret value | None \<Rightarrow> sfail NonCanonicalVarint)) p v"
    by (rule yields_map[OF yields_take]) (simp_all add: sh)
  have "yields cfg (dec_varint_payload cfg m) p v"
    using sh(2) t True yields_ret[of cfg v]
    by (cases rule: payload_len_cases[OF sh(1)])
      (simp_all add: dec_varint_payload_def marker_defs sbind_sret_left del: sop_simps)
  then show ?thesis
    using yields_sbind[OF yields_byte] True mp by (fastforce simp: varint_of_def dec_varint_def)
next
  case False
  have "yields cfg (dec_varint_payload cfg (hd (varint_bytes v))) (rev (tl (varint_bytes v))) v"
  proof (cases v rule: varint_cases)
    case 1
    then show ?thesis
      using False yields_ret[of cfg v]
      by (simp add: dec_varint_payload_def ucast_byte_le ucast_ucast_id del: sop_simps)
  next
    case 2
    then show ?thesis
      using False yields_wide_be[where 'a = 16 and v = v and cfg = cfg]
      by (simp add: dec_varint_payload_def marker_defs word_le_nat_alt del: sop_simps)
  next
    case 3
    then show ?thesis
      using False yields_wide_be[where 'a = 32 and v = v and cfg = cfg]
      by (simp add: dec_varint_payload_def marker_defs word_le_nat_alt del: sop_simps)
  next
    case 4
    then show ?thesis
      using False yields_wide_be[where 'a = 64 and v = v and cfg = cfg]
      by (simp add: dec_varint_payload_def marker_defs word_le_nat_alt del: sop_simps)
  next
    case 5
    then show ?thesis
      using False yields_wide_be[where 'a = 128 and v = v and cfg = cfg]
      by (simp add: dec_varint_payload_def marker_defs word_le_nat_alt del: sop_simps)
  qed
  then show ?thesis
    using yields_sbind[OF yields_byte] False by (fastforce simp: varint_of_def dec_varint_def varint_be_def)
qed


lemma yields_fixed_unsigned:
  assumes "n = 8 \<and> unat v < 2 ^ 64 \<or> n = 16"
  shows "yields cfg (sbind (dec_take cfg n) (\<lambda>source. sret
     (if endian_little (c_endian cfg) then from_le_bytes (source @ replicate (16 - n) 0)
      else from_be_bytes (replicate (16 - n) 0 @ source))))
    (fixed_of cfg (take n (to_le_bytes v))) (v :: u128)"
proof (rule yields_map[OF yields_take])
  have "take n (to_le_bytes v) @ replicate (16 - n) 0 = to_le_bytes v"
    using assms le16_small[of v] by auto
  then show "sret (if endian_little (c_endian cfg)
      then from_le_bytes (fixed_of cfg (take n (to_le_bytes v)) @ replicate (16 - n) 0)
      else from_be_bytes (replicate (16 - n) 0 @ fixed_of cfg (take n (to_le_bytes v)))) = sret v"
    by (simp add: fixed_of_def from_be_bytes_def)
qed (use assms in \<open>auto simp: fixed_of_def\<close>)

lemma yields_unsigned:
  assumes "n = 8 \<and> unat v < 2 ^ 64 \<or> n = 16" and "v \<le> m"
  shows "yields cfg (dec_unsigned cfg n m) (unsigned_of cfg v n) v"
  unfolding dec_unsigned_def
proof (rule yields_map)
  show "yields cfg (if c_integers cfg = Variable \<and> 1 < n then dec_varint cfg
      else sbind (dec_take cfg n) (\<lambda>source. sret
       (if endian_little (c_endian cfg) then from_le_bytes (source @ replicate (16 - n) 0)
        else from_be_bytes (replicate (16 - n) 0 @ source)))) (unsigned_of cfg v n) v"
    using yields_varint[of cfg v] yields_fixed_unsigned[OF assms(1)] assms(1)
    by (auto simp: unsigned_of_def)
qed (use assms(2) in \<open>simp add: leD\<close>)

lemma yields_fixed_signed:
  assumes "n = 8 \<and> v = scast (w :: u64) \<or> n = 16"
  shows "yields cfg (sbind (dec_take cfg n) (\<lambda>source.
     let fill = (if source \<noteq> [] \<and>
           (if endian_little (c_endian cfg) then source ! (n - 1) AND 0x80 \<noteq> 0
            else source ! 0 AND 0x80 \<noteq> 0) then 0xff else 0) in
     sret (if endian_little (c_endian cfg)
       then from_le_bytes (source @ replicate (16 - n) fill)
       else from_be_bytes (replicate (16 - n) fill @ source))))
    (fixed_of cfg (take n (to_le_bytes v))) (v :: u128)"
proof (rule yields_map[OF yields_take])
  let ?s = "take n (to_le_bytes v)"
  have len: "length ?s = n" "?s \<noteq> []" using assms by (auto simp flip: length_greater_0_conv)
  have top: "(if endian_little (c_endian cfg) then fixed_of cfg ?s ! (n - 1) AND 0x80 \<noteq> 0
        else fixed_of cfg ?s ! 0 AND 0x80 \<noteq> 0) \<longleftrightarrow> bit (?s ! (n - 1)) 7"
    using len assms by (auto simp: fixed_of_def rev_nth and_0x80)
  have "?s @ replicate (16 - n) (if bit (?s ! (n - 1)) 7 then 0xff else 0) = to_le_bytes v"
    using assms
  proof
    assume n: "n = 8 \<and> v = scast w"
    then have s: "?s = to_le_bytes w" by (simp add: le16_scast)
    show ?thesis using n top_byte[of w] bit63_top[of w] unfolding s by (simp add: le16_scast)
  qed simp
  then show "(let fill = (if fixed_of cfg ?s \<noteq> [] \<and>
           (if endian_little (c_endian cfg) then fixed_of cfg ?s ! (n - 1) AND 0x80 \<noteq> 0
            else fixed_of cfg ?s ! 0 AND 0x80 \<noteq> 0) then 0xff else 0) in
     sret (if endian_little (c_endian cfg)
       then from_le_bytes (fixed_of cfg ?s @ replicate (16 - n) fill)
       else from_be_bytes (replicate (16 - n) fill @ fixed_of cfg ?s))) = sret v"
    unfolding top using len by (simp add: fixed_of_def from_be_bytes_def Let_def)
qed (use assms in \<open>auto simp: fixed_of_def\<close>)

lemma yields_signed:
  assumes "n = 8 \<and> v = scast (w :: u64) \<or> n = 16" and "sint lo \<le> sint v" and "sint v \<le> sint hi"
  shows "yields cfg (dec_signed cfg n lo hi) (signed_of cfg v n) v"
  unfolding dec_signed_def
proof (rule yields_map)
  have "yields cfg (sbind (dec_varint cfg) (\<lambda>encoded. sret (zigzag_decode encoded)))
      (varint_of cfg (zigzag_encode v)) v"
    by (rule yields_map[OF yields_varint]) (simp add: zigzag_decode_encode)
  then show "yields cfg (if c_integers cfg = Variable \<and> 1 < n
           then sbind (dec_varint cfg) (\<lambda>encoded. sret (zigzag_decode encoded))
           else sbind (dec_take cfg n) (\<lambda>source.
             let fill = (if source \<noteq> [] \<and>
                   (if endian_little (c_endian cfg) then source ! (n - 1) AND 0x80 \<noteq> 0
                    else source ! 0 AND 0x80 \<noteq> 0) then 0xff else 0) in
             sret (if endian_little (c_endian cfg)
               then from_le_bytes (source @ replicate (16 - n) fill)
               else from_be_bytes (replicate (16 - n) fill @ source)))) (signed_of cfg v n) v"
    using yields_fixed_signed[OF assms(1)] assms(1) by (auto simp: signed_of_def)
qed (use assms(2,3) in simp)

lemma yields_reads:
  "yields cfg (read_u64 cfg) (unsigned_of cfg (ucast a) 8) a"
  "yields cfg (read_u128 cfg) (unsigned_of cfg b 16) b"
  "yields cfg (read_i64 cfg) (signed_of cfg (scast a) 8) a"
  "yields cfg (read_i128 cfg) (signed_of cfg b 16) b"
proof -
  have a: "unat (ucast a :: u128) < 2 ^ 64"
    using unsigned_less[of a, where ?'a = nat] by (simp add: unsigned_ucast_eq take_bit_eq_mod)
  have le: "(ucast a :: u128) \<le> 0xffffffffffffffff" using a by (simp add: word_le_nat_alt)
  show "yields cfg (read_u64 cfg) (unsigned_of cfg (ucast a) 8) a"
    unfolding read_u64_def
    by (rule yields_map[OF yields_unsigned]) (use a le in simp_all)
  show "yields cfg (read_u128 cfg) (unsigned_of cfg b 16) b"
    unfolding read_u128_def by (rule yields_unsigned) simp_all
  show "yields cfg (read_i64 cfg) (signed_of cfg (scast a) 8) a"
    unfolding read_i64_def
    by (rule yields_map[OF yields_signed])
      (use sint_bounds(1,2)[of a] in \<open>auto simp only: sint_consts sint_scast64 ucast_scast64\<close>)
  show "yields cfg (read_i128 cfg) (signed_of cfg b 16) b"
    unfolding read_i128_def
    by (rule yields_signed) (use sint_bounds(3,4)[of b] in \<open>auto simp only: sint_consts\<close>)
qed


lemma yields_string:
  assumes "utf8_valid s" and "length s \<le> usize_max"
  shows "yields cfg (read_string cfg) (unsigned_of cfg (of_nat (length s)) 8 @ s) s"
  unfolding read_string_def
proof (rule yields_sbind)
  show "yields cfg (dec_length cfg) (unsigned_of cfg (of_nat (length s)) 8) (of_nat (length s))"
    unfolding dec_length_def
    by (rule yields_map[OF yields_unsigned])
      (use assms(2) in \<open>simp_all add: unat_of_nat word_le_nat_alt ucast_of_nat\<close>)
  show "yields cfg (sbind (dec_take cfg (unat (of_nat (length s) :: u64)))
      (\<lambda>bytes. if utf8_valid bytes then sret bytes else sfail InvalidUtf8)) s s"
    by (rule yields_map[OF yields_take]) (use assms in \<open>simp_all add: unat_of_nat\<close>)
qed

lemma yields_payload:
  "yields cfg (read_payload cfg t) x v \<Longrightarrow> yields cfg (read_token cfg) (t # x) v"
  using yields_sbind[OF yields_byte, of cfg "read_payload cfg" t x v] by (simp add: read_token_def)

lemma yields_str_token:
  "utf8_valid s \<Longrightarrow> length s \<le> usize_max \<Longrightarrow> yields cfg (read_token cfg) (str_of cfg s) (TStr s)"
  unfolding str_of_def
  by (intro yields_payload) (simp add: read_payload_def tag_defs yields_map[OF yields_string] del: sop_simps)

text \<open>The token of a value: what \<^verbatim>\<open>read_token\<close> gives for its first bytes.\<close>

fun token_of :: "jv \<Rightarrow> token" where
  "token_of JNull = TNull"
| "token_of (JBool b) = TBool b"
| "token_of (JU64 v) = TNumber (U64 v)"
| "token_of (JU128 v) = TNumber (U128 v)"
| "token_of (JI64 v) = TNumber (I64 v)"
| "token_of (JI128 v) = TNumber (I128 v)"
| "token_of (JF64 v) = TNumber (F64 v)"
| "token_of (JF32 v) = TNumber (F64 (f32_to_f64 v))"
| "token_of (JStr s) = TStr s"
| "token_of (JArr vs) = TBeginArray"
| "token_of (JObj fs) = TBeginObject"

fun str_ok :: "byte list \<Rightarrow> bool" where
  "str_ok s \<longleftrightarrow> utf8_valid s \<and> length s \<le> usize_max"

fun strings_ok :: "jv \<Rightarrow> bool"
  and strings_ok_elems :: "jv list \<Rightarrow> bool"
  and strings_ok_fields :: "(byte list \<times> jv) list \<Rightarrow> bool" where
  "strings_ok (JStr s) = str_ok s"
| "strings_ok (JArr vs) = strings_ok_elems vs"
| "strings_ok (JObj fs) = strings_ok_fields fs"
| "strings_ok _ = True"
| "strings_ok_elems [] = True"
| "strings_ok_elems (v # vs) \<longleftrightarrow> strings_ok v \<and> strings_ok_elems vs"
| "strings_ok_fields [] = True"
| "strings_ok_fields ((k, v) # fs) \<longleftrightarrow> str_ok k \<and> strings_ok v \<and> strings_ok_fields fs"

text \<open>The bytes of the token: all of a scalar, the opening tag of a container.\<close>

fun token_bytes :: "config \<Rightarrow> jv \<Rightarrow> byte list" where
  "token_bytes cfg (JArr vs) = [TAG_ARRAY]"
| "token_bytes cfg (JObj fs) = [TAG_OBJECT]"
| "token_bytes cfg v = wire cfg v"

lemma yields_wrap: "yields cfg m x v \<Longrightarrow> yields cfg (sbind m (\<lambda>v. sret (f v))) x (f v)"
  by (rule yields_map) auto

lemma yields_scalar_payload:
  "yields cfg (read_payload cfg TAG_U64) (unsigned_of cfg (ucast a) 8) (TNumber (U64 a))"
  "yields cfg (read_payload cfg TAG_U128) (unsigned_of cfg b 16) (TNumber (U128 b))"
  "yields cfg (read_payload cfg TAG_I64) (signed_of cfg (scast a) 8) (TNumber (I64 a))"
  "yields cfg (read_payload cfg TAG_I128) (signed_of cfg b 16) (TNumber (I128 b))"
  "yields cfg (read_payload cfg TAG_F64) (fixed_of cfg (to_le_bytes a)) (TNumber (F64 a))"
  "yields cfg (read_payload cfg TAG_F32) (fixed_of cfg (to_le_bytes c)) (TNumber (F64 (f32_to_f64 c)))"
  "yields cfg (read_payload cfg TAG_NULL) [] TNull"
  "yields cfg (read_payload cfg (if q then TAG_TRUE else TAG_FALSE)) [] (TBool q)"
  "yields cfg (read_payload cfg TAG_ARRAY) [] TBeginArray"
  "yields cfg (read_payload cfg TAG_OBJECT) [] TBeginObject"
  by (simp_all add: read_payload_def tag_defs yields_ret
      yields_wrap[OF yields_reads(1), where f = "\<lambda>v. TNumber (U64 v)"]
      yields_wrap[OF yields_reads(2), where f = "\<lambda>v. TNumber (U128 v)"]
      yields_wrap[OF yields_reads(3), where f = "\<lambda>v. TNumber (I64 v)"]
      yields_wrap[OF yields_reads(4), where f = "\<lambda>v. TNumber (I128 v)"]
      yields_wrap[OF yields_literal[where 'a = 64, simplified], where f = "\<lambda>v. TNumber (F64 v)"]
      yields_wrap[OF yields_literal[where 'a = 32, simplified],
        where f = "\<lambda>v. TNumber (F64 (f32_to_f64 v))"] del: sop_simps)

lemma yields_token:
  assumes "strings_ok v"
  shows "yields cfg (read_token cfg) (token_bytes cfg v) (token_of v)"
proof (cases v)
  case (JStr s)
  then show ?thesis using assms yields_str_token by simp
qed (simp_all add: yields_payload yields_scalar_payload)

section \<open>Skipping a value\<close>

lemma peek_starts: "starts cfg d (b # x) \<Longrightarrow> peek_byte d = Inr b"
proof -
  assume "starts cfg d (b # x)"
  then obtain rest where r: "drop (d_cursor d) (d_input d) = b # x @ rest" by (auto simp: starts_def)
  then have "d_cursor d < length (d_input d)"
    by (metis drop_all leI list.distinct(1))
  then show ?thesis using r by (simp add: peek_byte_def) (metis hd_drop_conv_nth list.sel(1))
qed

lemma starts_container:
  assumes "starts cfg d (t # x @ [e])"
  shows "starts cfg d [t]" and "starts cfg (past d [t]) x" and "starts cfg (past d (t # x)) [e]"
  using assms starts_append[of cfg d "[t]" "x @ [e]"] starts_append[of cfg "past d [t]" x "[e]"]
  by simp_all

lemma wire_first: "\<exists>b x. wire cfg v = b # x \<and> b \<noteq> TAG_END"
  by (cases v) (auto simp: tag_defs str_of_def)

lemma wire_split: "wire cfg v = token_bytes cfg v @ drop (length (token_bytes cfg v)) (wire cfg v)"
  by (cases v) simp_all

lemma starts_token: "starts cfg d (wire cfg v) \<Longrightarrow> starts cfg d (token_bytes cfg v)"
  by (subst (asm) wire_split) (simp add: starts_append)

text \<open>One round of the loop on a terminator and on a token.\<close>

lemma skip_loop_end:
  "starts cfg d [TAG_END] \<Longrightarrow> skip_loop cfg n d =
    (if n \<le> 1 then (Inr (), past d [TAG_END]) else skip_loop cfg (n - 1) (past d [TAG_END]))"
  by (subst skip_loop.simps) (simp add: peek_starts Let_def past_def)

lemma skip_loop_token:
  assumes "starts cfg d (wire cfg v)" and "strings_ok v"
  shows "skip_loop cfg n d = skip_loop cfg
    (if token_of v = TBeginArray \<or> token_of v = TBeginObject then n + 1 else n)
    (past d (token_bytes cfg v))"
proof -
  obtain b x where b: "wire cfg v = b # x" "b \<noteq> TAG_END" using wire_first by blast
  have "read_token cfg d = (Inr (token_of v), past d (token_bytes cfg v))"
    by (rule yieldsD[OF yields_token[OF assms(2)] starts_token[OF assms(1)]])
  then show ?thesis
    using b assms(1) by (subst skip_loop.simps) (simp add: peek_starts)
qed

lemma skip_loop_scalar:
  "starts cfg d (wire cfg v) \<Longrightarrow> strings_ok v \<Longrightarrow> token_bytes cfg v = wire cfg v \<Longrightarrow>
   token_of v \<noteq> TBeginArray \<and> token_of v \<noteq> TBeginObject \<Longrightarrow>
   skip_loop cfg n d = skip_loop cfg n (past d (wire cfg v))"
  using skip_loop_token[of cfg d v n] by simp

lemma skip_loop_key:
  assumes "starts cfg d (str_of cfg k)" and "str_ok k"
  shows "skip_loop cfg n d = skip_loop cfg n (past d (str_of cfg k))"
  using skip_loop_token[of cfg d "JStr k" n] assms by simp

lemma skip_loop_wire:
  "0 < n \<Longrightarrow> starts cfg d (wire cfg v) \<Longrightarrow> strings_ok v \<Longrightarrow>
     skip_loop cfg n d = skip_loop cfg n (past d (wire cfg v))"
  "0 < n \<Longrightarrow> starts cfg d (wire_elems cfg vs) \<Longrightarrow> strings_ok_elems vs \<Longrightarrow>
     skip_loop cfg n d = skip_loop cfg n (past d (wire_elems cfg vs))"
  "0 < n \<Longrightarrow> starts cfg d (wire_fields cfg fs) \<Longrightarrow> strings_ok_fields fs \<Longrightarrow>
     skip_loop cfg n d = skip_loop cfg n (past d (wire_fields cfg fs))"
proof (induction cfg v and cfg vs and cfg fs arbitrary: n d and n d and n d
    rule: wire_wire_elems_wire_fields.induct)
  case (10 cfg vs)
  have "skip_loop cfg n d = skip_loop cfg (n + 1) (past d [TAG_ARRAY])"
    using skip_loop_token[OF 10(3,4), of n] by simp
  also have "\<dots> = skip_loop cfg (n + 1) (past d (TAG_ARRAY # wire_elems cfg vs))"
    using 10(1)[of "n + 1" "past d [TAG_ARRAY]"] 10(4) starts_container(2)[OF 10(3)[simplified]]
    by simp
  also have "\<dots> = skip_loop cfg n (past d (wire cfg (JArr vs)))"
    using 10(2) skip_loop_end[OF starts_container(3)[OF 10(3)[simplified]], of "n + 1"] by simp
  finally show ?case .
next
  case (11 cfg fs)
  have "skip_loop cfg n d = skip_loop cfg (n + 1) (past d [TAG_OBJECT])"
    using skip_loop_token[OF 11(3,4), of n] by simp
  also have "\<dots> = skip_loop cfg (n + 1) (past d (TAG_OBJECT # wire_fields cfg fs))"
    using 11(1)[of "n + 1" "past d [TAG_OBJECT]"] 11(4) starts_container(2)[OF 11(3)[simplified]]
    by simp
  also have "\<dots> = skip_loop cfg n (past d (wire cfg (JObj fs)))"
    using 11(2) skip_loop_end[OF starts_container(3)[OF 11(3)[simplified]], of "n + 1"] by simp
  finally show ?case .
next
  case (13 cfg v vs)
  then show ?case by (simp add: starts_append)
next
  case (15 cfg k v fs)
  then show ?case using skip_loop_key[of cfg d k n] by (simp add: starts_append)
next
  case (12 cfg)
  then show ?case by simp
next
  case (14 cfg)
  then show ?case by simp
qed (rule skip_loop_scalar, assumption, assumption, simp, simp)+

lemma yields_skip:
  assumes "d_lookahead d = None" and "starts cfg d (wire cfg v)" and "strings_ok v"
  shows "skip_value cfg d = (Inr (), past d (wire cfg v))"
proof -
  have t: "take_token cfg d = (Inr (token_of v), past d (token_bytes cfg v))"
    using assms(1) yieldsD[OF yields_token[OF assms(3)] starts_token[OF assms(2)]]
    by (simp add: take_token_def)
  show ?thesis
  proof (cases v)
    case (JArr vs)
    then show ?thesis
      using t assms skip_loop_wire(2)[of 1 cfg "past d [TAG_ARRAY]" vs]
        starts_container[of cfg d TAG_ARRAY "wire_elems cfg vs" TAG_END]
        skip_loop_end[of cfg "past d (TAG_ARRAY # wire_elems cfg vs)" 1]
      by (simp add: skip_value_def)
  next
    case (JObj fs)
    then show ?thesis
      using t assms skip_loop_wire(3)[of 1 cfg "past d [TAG_OBJECT]" fs]
        starts_container[of cfg d TAG_OBJECT "wire_fields cfg fs" TAG_END]
        skip_loop_end[of cfg "past d (TAG_OBJECT # wire_fields cfg fs)" 1]
      by (simp add: skip_value_def)
  qed (use t in \<open>simp_all add: skip_value_def\<close>)
qed


section \<open>Entry points\<close>

text \<open>The target type's (third-party or derived) \<^verbatim>\<open>nextdecode\<close> is the operation \<open>T\<close> on the decoder.\<close>

definition from_slice_with_consumed :: "config \<Rightarrow> (decoder, 'a) op \<Rightarrow> byte list \<Rightarrow> error + ('a \<times> nat)" where
  "from_slice_with_consumed cfg T input =
    (case T (decoder_new input) of
       (Inl err, _) \<Rightarrow> Inl err
     | (Inr value, d) \<Rightarrow>
         if d_depth d \<noteq> 0 then Inl (Custom ''decoder finished inside an unclosed container'')
         else Inr (value, d_cursor d))"

definition from_slice :: "config \<Rightarrow> (decoder, 'a) op \<Rightarrow> byte list \<Rightarrow> error + 'a" where
  "from_slice cfg T input = rbind (from_slice_with_consumed cfg T input) (\<lambda>(value, consumed).
     if c_trailing cfg = Reject \<and> consumed \<noteq> length input
     then Inl (TrailingBytesError (length input - consumed)) else Inr value)"

section \<open>Every sequence of calls\<close>

text \<open>The trait's methods, as a client sees them: which call, and whether it succeeded.\<close>

datatype dec_call =
    MBeginObject | MEndObject | MObjectKey | MObjectSep | MBeginArray | MEndArray | MHasMore
  | MArraySep | MUnit | MBool | MNumber | MString | MChar | MSkip | MPeek | MNext

definition void :: "(decoder, 'a) op \<Rightarrow> (decoder, unit) op" where
  "void m d = (let (r, d') = m d in (rmap (\<lambda>_. ()) r, d'))"

fun call :: "config \<Rightarrow> dec_call \<Rightarrow> (decoder, unit) op" where
  "call cfg MBeginObject = begin_object cfg"
| "call cfg MEndObject = dec_exit_container cfg"
| "call cfg MObjectKey = void (object_key cfg)"
| "call cfg MObjectSep = void (container_sep cfg)"
| "call cfg MBeginArray = begin_array cfg"
| "call cfg MEndArray = dec_exit_container cfg"
| "call cfg MHasMore = void array_has_more"
| "call cfg MArraySep = void (container_sep cfg)"
| "call cfg MUnit = dec_unit cfg"
| "call cfg MBool = void (dec_bool cfg)"
| "call cfg MNumber = void (dec_number cfg)"
| "call cfg MString = void (dec_string cfg)"
| "call cfg MChar = void (dec_char cfg)"
| "call cfg MSkip = skip_value cfg"
| "call cfg MPeek = void (peek_token cfg)"
| "call cfg MNext = void (take_token cfg)"

text \<open>
  States a client can bring the decoder of an input into, by any calls in any order and by
  backtracking to any earlier state. The flag records whether \<^verbatim>\<open>skip_value\<close> has been called.
\<close>

inductive reach :: "config \<Rightarrow> byte list \<Rightarrow> bool \<Rightarrow> decoder \<Rightarrow> bool" for cfg input where
  init: "reach cfg input False (decoder_new input)"
| call: "reach cfg input s d \<Longrightarrow> call cfg m d = (r, d') \<Longrightarrow> reach cfg input (s \<or> m = MSkip) d'"
| restore: "reach cfg input s d \<Longrightarrow> reach cfg input s' d0 \<Longrightarrow>
    reach cfg input (s \<or> s') (dec_restore (dec_save d0) d)"

inductive_cases reach_False: "reach cfg input False d"

definition dec_inv :: "config \<Rightarrow> byte list \<Rightarrow> decoder \<Rightarrow> bool" where
  "dec_inv cfg input d \<longleftrightarrow> d_input d = input \<and> d_cursor d \<le> length input \<and>
     d_depth d \<le> c_depth_limit cfg \<and> length (d_counts d) = MAX_DEPTH \<and>
     (\<forall>i<MAX_DEPTH. within (c_collection_limit cfg) (d_counts d ! i)) \<and>
     (\<forall>i<MAX_DEPTH. d_depth d \<le> i \<longrightarrow> d_counts d ! i = 0)"

text \<open>What one operation may do: keep the invariant, and the byte limit, and not panic.\<close>

definition lim_inv :: "config \<Rightarrow> decoder \<Rightarrow> bool" where
  "lim_inv cfg d \<longleftrightarrow> within (c_limit cfg) (d_cursor d)"

definition sound :: "config \<Rightarrow> (decoder, 'a) op \<Rightarrow> bool" where
  "sound cfg m \<longleftrightarrow> (\<forall>input d r d'. dec_inv cfg input d \<longrightarrow> m d = (r, d') \<longrightarrow>
     dec_inv cfg input d' \<and> (\<forall>p. r \<noteq> Inl (Panic p)))"

definition bounded :: "config \<Rightarrow> (decoder, 'a) op \<Rightarrow> bool" where
  "bounded cfg m \<longleftrightarrow> (\<forall>d r d'. lim_inv cfg d \<longrightarrow> m d = (r, d') \<longrightarrow> lim_inv cfg d')"

lemma soundI: "(\<And>input d r d'. dec_inv cfg input d \<Longrightarrow> m d = (r, d') \<Longrightarrow>
    dec_inv cfg input d' \<and> (\<forall>p. r \<noteq> Inl (Panic p))) \<Longrightarrow> sound cfg m"
  by (simp add: sound_def)

lemma soundD: "sound cfg m \<Longrightarrow> dec_inv cfg input d \<Longrightarrow> m d = (r, d') \<Longrightarrow>
    dec_inv cfg input d' \<and> (\<forall>p. r \<noteq> Inl (Panic p))"
  by (simp add: sound_def)

lemma boundedD: "bounded cfg m \<Longrightarrow> lim_inv cfg d \<Longrightarrow> m d = (r, d') \<Longrightarrow> lim_inv cfg d'"
  by (simp add: bounded_def)

lemma sound_sbind [simp]:
  assumes "sound cfg m" and "\<And>x. sound cfg (f x)"
  shows "sound cfg (sbind m f)"
proof (rule soundI)
  fix input d r d' assume i: "dec_inv cfg input d" and s: "sbind m f d = (r, d')"
  show "dec_inv cfg input d' \<and> (\<forall>p. r \<noteq> Inl (Panic p))"
  proof (cases rule: sbind_cases[of m d f])
    case (err e s')
    then show ?thesis using s soundD[OF assms(1) i] by auto
  next
    case (ok x s')
    then show ?thesis using s soundD[OF assms(1) i ok(1)] soundD[OF assms(2)] by metis
  qed
qed

lemma bounded_sbind [simp]:
  assumes "bounded cfg m" and "\<And>x. bounded cfg (f x)"
  shows "bounded cfg (sbind m f)"
  unfolding bounded_def
proof (intro allI impI)
  fix d r d' assume i: "lim_inv cfg d" and s: "sbind m f d = (r, d')"
  show "lim_inv cfg d'"
  proof (cases rule: sbind_cases[of m d f])
    case (err e s')
    then show ?thesis using s boundedD[OF assms(1) i] by auto
  next
    case (ok x s')
    then show ?thesis using s boundedD[OF assms(1) i ok(1)] boundedD[OF assms(2)] by metis
  qed
qed

lemma moves_inv: "moves cfg d d' \<Longrightarrow> dec_inv cfg input d \<Longrightarrow> dec_inv cfg input d'"
  by (auto simp: moves_def dec_inv_def)

lemma moves_lim: "moves cfg d d' \<Longrightarrow> lim_inv cfg d \<Longrightarrow> lim_inv cfg d'"
  by (auto simp: moves_def lim_inv_def)

lemma bounded_reads: "reads cfg m \<Longrightarrow> bounded cfg m"
  unfolding bounded_def by (blast dest: readsD moves_lim)


lemma sound_basic [simp]:
  "sound cfg (Pair (Inr x))" "sound cfg (sret x)"
  "(\<And>p. e \<noteq> Panic p) \<Longrightarrow> sound cfg (sfail e)"
  by (auto simp: sound_def)

lemma sound_take [simp]: "sound cfg (dec_take cfg n)"
proof (rule soundI)
  fix input d r d' assume "dec_inv cfg input d" "dec_take cfg n d = (r, d')"
  then show "dec_inv cfg input d' \<and> (\<forall>p. r \<noteq> Inl (Panic p))"
    using moves_inv[OF readsD[OF reads_take]]
    by (auto simp: dec_take_def Let_def check_limit_if split: if_splits option.splits)
qed

lemma sound_case [simp]:
  "sound cfg (case x of None \<Rightarrow> sfail NonCanonicalVarint | Some v \<Rightarrow> sret v)"
  "(\<And>a b. sound cfg (g a b)) \<Longrightarrow> sound cfg (case p of (a, b) \<Rightarrow> g a b)"
  by (cases x; simp) (cases p; simp)

lemma sound_reads [simp]:
  "sound cfg (dec_byte cfg)" "sound cfg (dec_fixed cfg n)"
  "sound cfg (literal cfg n :: (decoder, 'a::len word) op)"
  by (simp_all add: dec_byte_def dec_fixed_def literal_def)

lemma sound_varint [simp]: "sound cfg (dec_varint cfg)"
  by (simp add: dec_varint_def dec_varint_payload_def)

lemma sound_int [simp]:
  "sound cfg (dec_unsigned cfg n m)" "sound cfg (dec_signed cfg n a b)"
  "sound cfg (read_u64 cfg)" "sound cfg (read_u128 cfg)" "sound cfg (read_i64 cfg)"
  "sound cfg (read_i128 cfg)" "sound cfg (dec_length cfg)" "sound cfg (read_string cfg)"
  by (auto simp: dec_unsigned_def dec_signed_def read_u64_def read_u128_def read_i64_def
      read_i128_def dec_length_def read_string_def Let_def)

lemma sound_token [simp]: "sound cfg (read_token cfg)"
  by (simp add: read_token_def read_payload_def)

lemma sound_look [simp]: "dec_inv cfg input (d_lookahead_update h d) = dec_inv cfg input d"
  "lim_inv cfg (d_lookahead_update h d) = lim_inv cfg d"
  by (simp_all add: dec_inv_def lim_inv_def)

lemma sound_peek_take [simp]:
  "sound cfg (peek_token cfg)" "sound cfg (take_token cfg)" "sound cfg peek_end"
proof -
  have "sound cfg (\<lambda>d. sbind (read_token cfg) (\<lambda>token d'. (Inr token, d'\<lparr>d_lookahead := Some token\<rparr>)) d)"
    by (intro sound_sbind sound_token) (auto simp: sound_def)
  then show "sound cfg (peek_token cfg)"
    by (auto simp: sound_def peek_token_def split: option.split)
  show "sound cfg (take_token cfg)"
    using sound_token[of cfg] by (auto simp: sound_def take_token_def split: option.split)
  show "sound cfg peek_end"
    by (auto simp: sound_def peek_end_def peek_byte_def split: if_splits)
qed

lemma bounded_peek_take [simp]:
  "bounded cfg (peek_token cfg)" "bounded cfg (take_token cfg)" "bounded cfg peek_end"
proof -
  have "bounded cfg (\<lambda>d. sbind (read_token cfg) (\<lambda>token d'. (Inr token, d'\<lparr>d_lookahead := Some token\<rparr>)) d)"
    by (rule bounded_sbind[OF bounded_reads[OF reads_token]]) (auto simp: bounded_def)
  then show "bounded cfg (peek_token cfg)"
    by (auto simp: bounded_def peek_token_def split: option.split)
  show "bounded cfg (take_token cfg)"
    using bounded_reads[OF reads_token, of cfg]
    by (auto simp: bounded_def take_token_def split: option.split)
  show "bounded cfg peek_end"
    by (auto simp: bounded_def peek_end_def split: if_splits)
qed

lemma sound_push [simp]: "sound cfg (push_frame cfg)" "bounded cfg (push_frame cfg)"
  by (auto simp: sound_def bounded_def push_frame_def dec_inv_def lim_inv_def split: if_splits)

lemma sound_exit [simp]:
  assumes "c_depth_limit cfg \<le> MAX_DEPTH"
  shows "sound cfg (dec_exit_container cfg)" and "bounded cfg (dec_exit_container cfg)"
proof -
  let ?f = "\<lambda>b d. if b \<noteq> TAG_END then (Inl (Custom ''container end without terminator''), d)
       else let k = d_depth d - 1 in
         if k \<ge> length (d_counts d) then (Inl (Panic ''index out of bounds''), d\<lparr>d_depth := k\<rparr>)
         else (Inr (), d\<lparr>d_depth := k, d_counts := (d_counts d)[k := 0]\<rparr>)"
  have f: "sound cfg (?f b)" for b
    using assms by (auto simp: sound_def dec_inv_def Let_def nth_list_update MAX_DEPTH_def split: if_splits)
  have g: "bounded cfg (?f b)" for b
    by (auto simp: bounded_def lim_inv_def Let_def split: if_splits)
  show "sound cfg (dec_exit_container cfg)"
    using sound_sbind[OF sound_reads(1) f] by (auto simp: sound_def dec_exit_container_def split: if_splits)
  show "bounded cfg (dec_exit_container cfg)"
    using bounded_sbind[OF bounded_reads[OF reads_ops(1)] g]
    by (auto simp: bounded_def dec_exit_container_def split: if_splits)
qed

lemma sound_sep [simp]:
  assumes "c_depth_limit cfg \<le> MAX_DEPTH"
  shows "sound cfg (container_sep cfg)" and "bounded cfg (container_sep cfg)"
  using assms
  by (auto simp: sound_def bounded_def container_sep_def dec_inv_def lim_inv_def Let_def
      check_collection_if nth_list_update peek_byte_def split: if_splits)

lemma sound_void [simp]: "sound cfg m \<Longrightarrow> sound cfg (void m)" "bounded cfg m \<Longrightarrow> bounded cfg (void m)"
  unfolding sound_def bounded_def void_def
  by (auto split: prod.splits simp: rmap_def split: sum.splits) blast+


text \<open>The skip loop keeps the invariant too, though not the byte limit.\<close>

lemma sound_skip_loop: "dec_inv cfg input d \<Longrightarrow> skip_loop cfg n d = (r, d') \<Longrightarrow>
   dec_inv cfg input d' \<and> (\<forall>p. r \<noteq> Inl (Panic p))"
proof (induction cfg n d arbitrary: r d' rule: skip_loop.induct)
  case (1 cfg nested d)
  show ?case
  proof (cases "peek_byte d")
    case (Inl e)
    then have "e = UnexpectedEnd" by (simp add: peek_byte_def split: if_splits)
    then show ?thesis using Inl 1(3,4) by (subst (asm) skip_loop.simps) auto
  next
    case (Inr b)
    then have c: "d_cursor d < length (d_input d)" by (simp add: peek_byte_def split: if_splits)
    show ?thesis
    proof (cases "b = TAG_END")
      case True
      have "dec_inv cfg input (d\<lparr>d_cursor := d_cursor d + 1\<rparr>)"
        using 1(3) c by (auto simp: dec_inv_def)
      then show ?thesis
        using 1(1)[OF Inr True refl] 1(4) Inr True
        by (subst (asm) (2) skip_loop.simps) (auto simp: Let_def split: if_splits)
    next
      case False
      show ?thesis
      proof (cases rule: sbind_cases[of "read_token cfg" d "\<lambda>t. skip_loop cfg
          (if t = TBeginArray \<or> t = TBeginObject then nested + 1 else nested)"])
        case (err e s')
        then show ?thesis
          using 1(4) Inr False soundD[OF sound_token 1(3) err(1)] by (subst (asm) skip_loop.simps) auto
      next
        case (ok x s')
        then show ?thesis
          using 1(2)[OF Inr False ok(1)] 1(4) Inr False soundD[OF sound_token 1(3) ok(1)]
          by (subst (asm) (2) skip_loop.simps) auto
      qed
    qed
  qed
qed

lemma sound_skip [simp]: "sound cfg (skip_value cfg)"
proof -
  have "sound cfg (skip_loop cfg 1)" using sound_skip_loop by (simp add: sound_def)
  then show ?thesis by (simp add: skip_value_def)
qed

lemma sound_call:
  assumes "c_depth_limit cfg \<le> MAX_DEPTH"
  shows "sound cfg (call cfg m)"
  using assms
  by (cases m) (auto simp: begin_object_def begin_array_def object_key_def array_has_more_def
      dec_unit_def dec_bool_def dec_number_def dec_string_def dec_char_def invalid_type_def
      split: token.splits option.splits list.splits)

lemma bounded_call:
  assumes "c_depth_limit cfg \<le> MAX_DEPTH" and "m \<noteq> MSkip"
  shows "bounded cfg (call cfg m)"
  using assms
  by (cases m) (auto simp: begin_object_def begin_array_def object_key_def array_has_more_def
      dec_unit_def dec_bool_def dec_number_def dec_string_def dec_char_def bounded_reads
      split: token.splits option.splits list.splits)

lemma dec_inv_restore:
  assumes "dec_inv cfg input d" and "dec_inv cfg input d0" and "c_depth_limit cfg \<le> MAX_DEPTH"
  shows "dec_inv cfg input (dec_restore (dec_save d0) d)"
  using assms by (auto simp: dec_inv_def dec_restore_def dec_save_def Let_def nth_append
      MAX_DEPTH_def)

lemma dec_inv_new: "dec_inv cfg input (decoder_new input)"
  by (simp add: dec_inv_def decoder_new_def)

lemma reach_inv:
  assumes "c_depth_limit cfg \<le> MAX_DEPTH"
  shows "reach cfg input s d \<Longrightarrow> dec_inv cfg input d \<and> (\<not> s \<longrightarrow> lim_inv cfg d)"
proof (induction rule: reach.induct)
  case init
  then show ?case by (simp add: dec_inv_new) (simp add: lim_inv_def decoder_new_def)
next
  case (call s d m r d')
  then show ?case using soundD[OF sound_call[OF assms]] boundedD[OF bounded_call[OF assms]] by blast
next
  case (restore s d s' d0)
  then show ?case
    using dec_inv_restore[OF _ _ assms] by (simp add: lim_inv_def dec_restore_def dec_save_def Let_def)
qed

text \<open>
  C3: safety of the decoder against every client and every input. Whatever methods a client calls,
  in whatever order, with any backtracking, on any bytes: the cursor stays inside the input, the
  nesting depth stays within the configured limit, every open container's element counter stays
  within the collection limit, no table is indexed out of bounds and no method panics. Unless the
  client skips values, the cursor also stays within the byte limit.
\<close>

theorem decoder_safe:
  assumes "reachable_config cfg" and "reach cfg input s d"
  shows "d_cursor d \<le> length input \<and> d_depth d \<le> c_depth_limit cfg \<and>
    (\<forall>c \<in> set (d_counts d). within (c_collection_limit cfg) c) \<and>
    (\<forall>m p. fst (call cfg m d) \<noteq> Inl (Panic p)) \<and>
    (\<not> s \<longrightarrow> within (c_limit cfg) (d_cursor d))"
proof -
  note dl = depth_reachable[OF assms(1)]
  note inv = reach_inv[OF dl assms(2)]
  moreover have "fst (call cfg m d) \<noteq> Inl (Panic p)" for m p
    using soundD[OF sound_call[OF dl], of input d m] inv by (cases "call cfg m d") auto
  ultimately show ?thesis by (auto simp: dec_inv_def lim_inv_def in_set_conv_nth)
qed


lemma decoder_safe_witness:
  "\<exists>d. reach (with_depth_limit 1 standard) [0x0a, 0x0a] False d \<and> d_depth d = 1 \<and>
     d_depth d \<le> c_depth_limit (with_depth_limit 1 standard)"
proof -
  let ?c = "with_depth_limit 1 standard"
  have rc: "reachable_config ?c"
    using reachable_config.build[OF reachable_config.standard, of "BDepth 1"] by simp
  have d: "snd (call ?c MBeginArray (decoder_new [0x0a, 0x0a])) =
      (decoder_new [0x0a, 0x0a])\<lparr>d_cursor := 1, d_depth := 1\<rparr>"
    by code_simp
  have "reach ?c [0x0a, 0x0a] (False \<or> MBeginArray = MSkip)
      (snd (call ?c MBeginArray (decoder_new [0x0a, 0x0a])))"
    by (rule reach.call[OF reach.init prod.collapse[symmetric]])
  then have r: "reach ?c [0x0a, 0x0a] False ((decoder_new [0x0a, 0x0a])\<lparr>d_cursor := 1, d_depth := 1\<rparr>)"
    by (simp only: d) simp
  have "d_depth ((decoder_new [0x0a, 0x0a])\<lparr>d_cursor := 1, d_depth := 1\<rparr>) \<le> c_depth_limit ?c"
    using decoder_safe[OF rc r] by blast
  with r show ?thesis
    by (intro exI[of _ "(decoder_new [0x0a, 0x0a])\<lparr>d_cursor := 1, d_depth := 1\<rparr>"] conjI) simp_all
qed

text \<open>
  The byte limit does not bind \<^verbatim>\<open>skip_value\<close>: its loop steps over terminators without counting them,
  and reads four bytes here under a limit of two.
\<close>

theorem skip_value_ignores_limit:
  "skip_value (with_limit 2 standard) (decoder_new [0x0a, 0x0a, 0xff, 0xff]) =
     (Inr (), (decoder_new [0x0a, 0x0a, 0xff, 0xff])\<lparr>d_cursor := 4\<rparr>)"
  by code_simp

text \<open>
  C5: \<^verbatim>\<open>skip_value\<close> steps over exactly the bytes of the value in front of it: on the wire form of any
  value whose strings are valid, followed by anything, it consumes that form and nothing else, in
  every endianness and integer profile.
\<close>

theorem skip_value_exact:
  assumes "d_lookahead d = None" and "starts cfg d (wire cfg v)" and "strings_ok v"
  shows "skip_value cfg d = (Inr (), d\<lparr>d_cursor := d_cursor d + length (wire cfg v)\<rparr>)"
  using yields_skip[OF assms] by (simp add: past_def)

lemma skip_value_exact_witness:
  "skip_value legacy (decoder_new (wire legacy (JArr [JStr [0x68], JU64 9]) @ [1, 2])) =
     (Inr (), (decoder_new (wire legacy (JArr [JStr [0x68], JU64 9]) @ [1, 2]))\<lparr>d_cursor := 21\<rparr>)"
proof -
  let ?w = "wire legacy (JArr [JStr [0x68], JU64 9])"
  have "length ?w = 21" by code_simp
  moreover have "starts legacy (decoder_new (?w @ [1, 2])) ?w"
    using calculation by (simp add: starts_def decoder_new_def legacy_def)
  moreover have "strings_ok (JArr [JStr [0x68], JU64 9])" by code_simp
  ultimately show ?thesis
    using skip_value_exact[of "decoder_new (?w @ [1, 2])" legacy "JArr [JStr [0x68], JU64 9]"]
    by (simp add: decoder_new_def)
qed

end
