(* ===== verification/Client.thy ===== *)
theory Client
  imports Decoder
begin

text \<open>
  What nextjson does with a decoder. The readers of nextjson are not part of this crate: the one of its dynamic
  \<^verbatim>\<open>Value\<close> is a parameter of the round-trip properties, described by \<open>reads_values\<close> in terms of the methods
  of \<^verbatim>\<open>FormatDecoder\<close> it calls. \<open>client_value\<close> is one such reader, for examples.
\<close>

section \<open>The methods a reader calls\<close>

record 's format_decoder =
  fd_peek_token :: "('s, token) op"
  fd_unit :: "('s, unit) op"
  fd_bool :: "('s, bool) op"
  fd_number :: "('s, number) op"
  fd_string :: "('s, byte list) op"
  fd_begin_array :: "('s, unit) op"
  fd_has_more :: "('s, bool) op"
  fd_entry_sep :: "('s, bool) op"
  fd_end_array :: "('s, unit) op"
  fd_begin_object :: "('s, unit) op"
  fd_object_key :: "('s, byte list option) op"
  fd_end_object :: "('s, unit) op"

definition number_value :: "number \<Rightarrow> jv" where
  "number_value x = (case x of U64 v \<Rightarrow> JU64 v | U128 v \<Rightarrow> JU128 v | I64 v \<Rightarrow> JI64 v | I128 v \<Rightarrow> JI128 v | F64 v \<Rightarrow> JF64 v)"

text \<open>
  A reader of dynamic values peeks at a token and calls the method of its kind. In an array it asks
  \<^verbatim>\<open>array_has_more\<close> once, and \<^verbatim>\<open>array_entry_sep\<close> after each element until it answers false; in an object it
  asks for a key before each field and for \<^verbatim>\<open>object_entry_sep\<close> after it.
\<close>

definition value_step ::
  "'s format_decoder \<Rightarrow> ('s, jv list) op \<Rightarrow> ('s, (byte list \<times> jv) list) op \<Rightarrow> (token \<Rightarrow> ('s, jv) op) \<Rightarrow> ('s, jv) op" where
  "value_step fd elems fs other = sbind (fd_peek_token fd) (\<lambda>t. case t of
      TNull \<Rightarrow> sbind (fd_unit fd) (\<lambda>_. sret JNull)
    | TBool _ \<Rightarrow> sbind (fd_bool fd) (\<lambda>b. sret (JBool b))
    | TNumber _ \<Rightarrow> sbind (fd_number fd) (\<lambda>x. sret (number_value x))
    | TStr _ \<Rightarrow> sbind (fd_string fd) (\<lambda>s. sret (JStr s))
    | TBeginArray \<Rightarrow> sbind (fd_begin_array fd) (\<lambda>_. sbind (fd_has_more fd) (\<lambda>another.
        sbind (if another then elems else sret []) (\<lambda>vs.
        sbind (fd_end_array fd) (\<lambda>_. sret (JArr vs)))))
    | TBeginObject \<Rightarrow> sbind (fd_begin_object fd) (\<lambda>_. sbind fs (\<lambda>xs.
        sbind (fd_end_object fd) (\<lambda>_. sret (JObj xs))))
    | _ \<Rightarrow> other t)"

definition array_step :: "'s format_decoder \<Rightarrow> ('s, jv) op \<Rightarrow> ('s, jv list) op \<Rightarrow> ('s, jv list) op" where
  "array_step fd read elems = sbind read (\<lambda>v. sbind (fd_entry_sep fd) (\<lambda>another.
     if another then sbind elems (\<lambda>vs. sret (v # vs)) else sret [v]))"

definition object_step ::
  "'s format_decoder \<Rightarrow> ('s, jv) op \<Rightarrow> ('s, (byte list \<times> jv) list) op \<Rightarrow> ('s, (byte list \<times> jv) list) op" where
  "object_step fd read fs = sbind (fd_object_key fd) (\<lambda>k. case k of
      None \<Rightarrow> sret []
    | Some key \<Rightarrow> sbind read (\<lambda>v. sbind (fd_entry_sep fd) (\<lambda>another.
        if another then sbind fs (\<lambda>xs. sret ((key, v) # xs)) else sret [(key, v)])))"

text \<open>
  The number bounds the recursion of the reader; nothing is said of a reader without any left, nor of
  what it does with a token that starts no value.
\<close>

definition reads_values :: "'s format_decoder \<Rightarrow> (nat \<Rightarrow> ('s, jv) op) \<Rightarrow> bool" where
  "reads_values fd read \<longleftrightarrow> (\<exists>elems fs other. \<forall>n.
     read (Suc n) = value_step fd (elems n) (fs n) other \<and>
     elems (Suc n) = array_step fd (read n) (elems n) \<and>
     fs (Suc n) = object_step fd (read n) (fs n))"

section \<open>A reader\<close>

fun client_value :: "'s format_decoder \<Rightarrow> nat \<Rightarrow> ('s, jv) op"
  and client_elems :: "'s format_decoder \<Rightarrow> nat \<Rightarrow> ('s, jv list) op"
  and client_fields :: "'s format_decoder \<Rightarrow> nat \<Rightarrow> ('s, (byte list \<times> jv) list) op" where
  "client_value fd 0 = sfail (Custom ''recursion'')"
| "client_value fd (Suc n) = value_step fd (client_elems fd n) (client_fields fd n) (\<lambda>_. sfail (Custom ''unexpected token''))"
| "client_elems fd 0 = sfail (Custom ''recursion'')"
| "client_elems fd (Suc n) = array_step fd (client_value fd n) (client_elems fd n)"
| "client_fields fd 0 = sfail (Custom ''recursion'')"
| "client_fields fd (Suc n) = object_step fd (client_value fd n) (client_fields fd n)"

lemmas client_steps = value_step_def array_step_def object_step_def number_value_def

lemma client_reads: "reads_values fd (client_value fd)"
  unfolding reads_values_def by (intro exI[of _ "client_elems fd"] exI[of _ "client_fields fd"]
      exI[of _ "\<lambda>_. sfail (Custom ''unexpected token'')"]) simp

text \<open>Where this reader succeeds, every reader does, with the same value.\<close>

definition read_by :: "('s, 'a) op \<Rightarrow> ('s, 'a) op \<Rightarrow> bool" where
  "read_by m m' \<longleftrightarrow> (\<forall>s v s'. m s = (Inr v, s') \<longrightarrow> m' s = (Inr v, s'))"

lemma read_by_refl [intro, simp]: "read_by m m"
  by (simp add: read_by_def)

lemma read_by_sfail [intro, simp]: "read_by (sfail e) m"
  by (simp add: read_by_def)

lemma read_by_sbind [intro]: "read_by m m' \<Longrightarrow> (\<And>x. read_by (f x) (f' x)) \<Longrightarrow> read_by (sbind m f) (sbind m' f')"
  unfolding read_by_def by (fastforce simp: sbind_Inr)

lemma read_by_if [intro]: "read_by m m' \<Longrightarrow> read_by k k' \<Longrightarrow> read_by (if b then m else k) (if b then m' else k')"
  by simp

lemma read_by_steps:
  assumes "read_by read read'" and "read_by elems elems'" and "read_by fs fs'"
  shows "read_by (value_step fd elems fs (\<lambda>_. sfail e)) (value_step fd elems' fs' other)"
    and "read_by (array_step fd read elems) (array_step fd read' elems')"
    and "read_by (object_step fd read fs) (object_step fd read' fs')"
proof -
  show "read_by (value_step fd elems fs (\<lambda>_. sfail e)) (value_step fd elems' fs' other)"
    unfolding value_step_def
    by (intro read_by_sbind read_by_refl) (auto intro!: read_by_sbind read_by_if assms split: token.split)
  show "read_by (array_step fd read elems) (array_step fd read' elems')"
    unfolding array_step_def by (intro read_by_sbind read_by_if read_by_refl assms)
  show "read_by (object_step fd read fs) (object_step fd read' fs')"
    unfolding object_step_def
    by (intro read_by_sbind read_by_refl) (auto intro!: read_by_sbind read_by_if assms split: option.split)
qed

lemma readers_agree:
  assumes "reads_values fd read" and "client_value fd n s = (Inr v, s')"
  shows "read n s = (Inr v, s')"
proof -
  obtain elems fs other where r: "\<And>n. read (Suc n) = value_step fd (elems n) (fs n) other \<and>
     elems (Suc n) = array_step fd (read n) (elems n) \<and> fs (Suc n) = object_step fd (read n) (fs n)"
    using assms(1) unfolding reads_values_def by blast
  have "read_by (client_value fd n) (read n) \<and> read_by (client_elems fd n) (elems n) \<and> read_by (client_fields fd n) (fs n)"
  proof (induction n)
    case 0
    show ?case by (simp del: sop_simps)
  next
    case (Suc n)
    then show ?case
      using read_by_steps[of "client_value fd n" "read n" "client_elems fd n" "elems n" "client_fields fd n" "fs n" fd] r by simp
  qed
  then show ?thesis using assms(2) unfolding read_by_def by blast
qed

section \<open>The self-describing decoder\<close>

definition self_describing :: "config \<Rightarrow> decoder format_decoder" where
  "self_describing cfg = \<lparr> fd_peek_token = peek_token cfg, fd_unit = dec_unit cfg, fd_bool = dec_bool cfg,
     fd_number = dec_number cfg, fd_string = dec_string cfg, fd_begin_array = begin_array cfg,
     fd_has_more = array_has_more, fd_entry_sep = container_sep cfg, fd_end_array = dec_exit_container cfg,
     fd_begin_object = begin_object cfg, fd_object_key = object_key cfg, fd_end_object = dec_exit_container cfg \<rparr>"

lemma self_describing_simps [simp]:
  "fd_peek_token (self_describing cfg) = peek_token cfg" "fd_unit (self_describing cfg) = dec_unit cfg"
  "fd_bool (self_describing cfg) = dec_bool cfg" "fd_number (self_describing cfg) = dec_number cfg"
  "fd_string (self_describing cfg) = dec_string cfg" "fd_begin_array (self_describing cfg) = begin_array cfg"
  "fd_has_more (self_describing cfg) = array_has_more" "fd_entry_sep (self_describing cfg) = container_sep cfg"
  "fd_end_array (self_describing cfg) = dec_exit_container cfg"
  "fd_begin_object (self_describing cfg) = begin_object cfg"
  "fd_object_key (self_describing cfg) = object_key cfg"
  "fd_end_object (self_describing cfg) = dec_exit_container cfg"
  by (simp_all add: self_describing_def)

end
