(* ===== verification/Stream.thy ===== *)
theory Stream
  imports Client
begin

text \<open>
  Readers over the self-describing decoder, and the round trip of the profile through \<^verbatim>\<open>serialize\<close> and
  \<^verbatim>\<open>deserialize\<close>.
\<close>

section \<open>What is decoded\<close>

text \<open>\<^verbatim>\<open>read_token\<close> widens an \<^verbatim>\<open>f32\<close>: what comes back is the same number as an \<^verbatim>\<open>f64\<close>.\<close>

fun widened :: "jv \<Rightarrow> jv"
  and widened_elems :: "jv list \<Rightarrow> jv list"
  and widened_fields :: "(byte list \<times> jv) list \<Rightarrow> (byte list \<times> jv) list" where
  "widened (JF32 v) = JF64 (f32_to_f64 v)"
| "widened (JArr vs) = JArr (widened_elems vs)"
| "widened (JObj fs) = JObj (widened_fields fs)"
| "widened v = v"
| "widened_elems [] = []"
| "widened_elems (v # vs) = widened v # widened_elems vs"
| "widened_fields [] = []"
| "widened_fields ((k, v) # fs) = (k, widened v) # widened_fields fs"

definition decodable :: "config \<Rightarrow> decoder \<Rightarrow> jv \<Rightarrow> bool" where
  "decodable cfg d v \<longleftrightarrow> d_lookahead d = None \<and> starts cfg d (wire cfg v) \<and> strings_ok v \<and>
     admissible True (c_collection_limit cfg) v \<and>
     (height v = 0 \<or> d_depth d + height v \<le> c_depth_limit cfg) \<and>
     length (d_counts d) = MAX_DEPTH \<and> (\<forall>i<MAX_DEPTH. d_depth d \<le> i \<longrightarrow> d_counts d ! i = 0)"

definition with_count :: "decoder \<Rightarrow> nat \<Rightarrow> decoder" where
  "with_count d c = d\<lparr>d_counts := (d_counts d)[d_depth d - 1 := c]\<rparr>"

lemma with_count_simps [simp]:
  "d_depth (with_count d c) = d_depth d" "d_cursor (with_count d c) = d_cursor d"
  "d_lookahead (with_count d c) = d_lookahead d" "d_input (with_count d c) = d_input d"
  "with_count (past d x) c = past (with_count d c) x"
  "with_count (with_count d a) c = with_count d c"
  "starts cfg (with_count d c) x = starts cfg d x"
  "length (d_counts (with_count d c)) = length (d_counts d)"
  "starts cfg (past (with_count d c) x) y = starts cfg (past d x) y"
  "starts cfg (past (d_depth_update g d) x) y = starts cfg (past d x) y"
  "starts cfg (past (d_lookahead_update h d) x) y = starts cfg (past d x) y"
  by (simp_all add: with_count_def starts_def past_def)

definition inside :: "config \<Rightarrow> decoder \<Rightarrow> nat \<Rightarrow> bool" where
  "inside cfg d c \<longleftrightarrow> d_lookahead d = None \<and> 0 < d_depth d \<and> d_depth d \<le> c_depth_limit cfg \<and>
     d_counts d ! (d_depth d - 1) = c \<and> c < d_cursor d \<and>
     length (d_counts d) = MAX_DEPTH \<and> (\<forall>i<MAX_DEPTH. d_depth d \<le> i \<longrightarrow> d_counts d ! i = 0)"

lemma sep_step:
  assumes "inside cfg d c" and "c_depth_limit cfg \<le> MAX_DEPTH" and "starts cfg d (b # x)"
    and "within (c_collection_limit cfg) (Suc c)"
  shows "container_sep cfg d = (Inr (b \<noteq> TAG_END), with_count d (Suc c))"
proof -
  have "peek_byte (d\<lparr>d_counts := k\<rparr>) = Inr b" for k
    using peek_starts[of cfg "d\<lparr>d_counts := k\<rparr>" b x] assms(3) by simp
  moreover have "Suc c \<le> usize_max"
    using assms(1,3) by (auto simp: inside_def starts_def)
  ultimately show ?thesis
    using assms by (auto simp: container_sep_def inside_def Let_def check_collection_if with_count_def
        split: if_splits)
qed

lemma peeked:
  assumes "d_lookahead d = None" and "starts cfg d (wire cfg v)" and "strings_ok v"
  shows "peek_token cfg d = (Inr (token_of v),
      (past d (token_bytes cfg v))\<lparr>d_lookahead := Some (token_of v)\<rparr>)"
  using assms(1) yieldsD[OF yields_token[OF assms(3)] starts_token[OF assms(2)]]
  by (simp add: peek_token_def)

lemma take_peeked:
  "take_token cfg (d\<lparr>d_lookahead := Some t\<rparr>) = (Inr t, d\<lparr>d_lookahead := None\<rparr>)"
  by (simp add: take_token_def)


lemma look_id: "d_lookahead d = None \<Longrightarrow> d\<lparr>d_lookahead := None\<rparr> = d"
  by simp

lemma dec_scalar:
  assumes "decodable cfg d v" and "length (wire cfg v) \<le> n" and "token_bytes cfg v = wire cfg v"
    and "token_of v \<noteq> TBeginArray \<and> token_of v \<noteq> TBeginObject"
  shows "client_value (self_describing cfg) n d = (Inr (widened v), past d (wire cfg v))"
proof -
  obtain m where n: "n = Suc m"
    using assms(2) wire_nonempty[of cfg v] by (cases n) auto
  have l: "d_lookahead d = None" and p: "peek_token cfg d = (Inr (token_of v),
      (past d (wire cfg v))\<lparr>d_lookahead := Some (token_of v)\<rparr>)"
    using peeked[of d cfg v] assms by (auto simp: decodable_def)
  then show ?thesis
    using assms(4) look_id[OF l]
    by (cases v) (simp_all add: n client_steps dec_unit_def dec_bool_def dec_number_def dec_string_def take_token_def)
qed

lemma peek_end_starts:
  assumes "d_lookahead d = None" and "starts cfg d (b # x)"
  shows "peek_end d = (Inr (b = TAG_END), d)" and "array_has_more d = (Inr (b \<noteq> TAG_END), d)"
  using assms peek_starts[OF assms(2)] by (simp_all add: peek_end_def array_has_more_def)

lemma with_count_same: "d_counts d ! (d_depth d - 1) = c \<Longrightarrow> with_count d c = d"
  by (drule sym) (simp add: with_count_def)

lemma dec_open:
  assumes "decodable cfg d v"
  shows "v = JArr vs \<Longrightarrow> \<exists>p. peek_token cfg d = (Inr TBeginArray, p) \<and>
      begin_array cfg p = (Inr (), (past d [TAG_ARRAY])\<lparr>d_depth := d_depth d + 1\<rparr>)"
    and "v = JObj fs \<Longrightarrow> \<exists>p. peek_token cfg d = (Inr TBeginObject, p) \<and>
      begin_object cfg p = (Inr (), (past d [TAG_OBJECT])\<lparr>d_depth := d_depth d + 1\<rparr>)"
    and "0 < height v \<Longrightarrow> c_depth_limit cfg \<le> MAX_DEPTH \<Longrightarrow>
      inside cfg ((past d [t])\<lparr>d_depth := d_depth d + 1\<rparr>) 0"
proof -
  have l: "d_lookahead d = None" and p: "peek_token cfg d = (Inr (token_of v),
      (past d (token_bytes cfg v))\<lparr>d_lookahead := Some (token_of v)\<rparr>)"
    using peeked[of d cfg v] assms by (auto simp: decodable_def)
  show "v = JArr vs \<Longrightarrow> \<exists>p. peek_token cfg d = (Inr TBeginArray, p) \<and>
      begin_array cfg p = (Inr (), (past d [TAG_ARRAY])\<lparr>d_depth := d_depth d + 1\<rparr>)"
    using p look_id[OF l] assms by (simp add: begin_array_def take_token_def push_frame_def decodable_def)
  show "v = JObj fs \<Longrightarrow> \<exists>p. peek_token cfg d = (Inr TBeginObject, p) \<and>
      begin_object cfg p = (Inr (), (past d [TAG_OBJECT])\<lparr>d_depth := d_depth d + 1\<rparr>)"
    using p look_id[OF l] assms by (simp add: begin_object_def take_token_def push_frame_def decodable_def)
  show "0 < height v \<Longrightarrow> c_depth_limit cfg \<le> MAX_DEPTH \<Longrightarrow>
      inside cfg ((past d [t])\<lparr>d_depth := d_depth d + 1\<rparr>) 0"
    using assms by (auto simp: inside_def decodable_def)
qed

lemma dec_close:
  assumes "d_depth d < MAX_DEPTH" and "length (d_counts d) = MAX_DEPTH" and "d_counts d ! d_depth d = 0"
    and "starts cfg (past d x) [TAG_END]"
  shows "dec_exit_container cfg (with_count ((past d x)\<lparr>d_depth := d_depth d + 1\<rparr>) c) =
     (Inr (), past d (x @ [TAG_END]))"
proof -
  have "dec_byte cfg (with_count ((past d x)\<lparr>d_depth := d_depth d + 1\<rparr>) c) =
      (Inr TAG_END, past (with_count ((past d x)\<lparr>d_depth := d_depth d + 1\<rparr>) c) [TAG_END])"
    using assms(4) by (intro yieldsD[OF yields_byte]) simp
  moreover have "(d_counts d)[d_depth d := 0] = d_counts d"
    using assms(3) by (metis list_update_id)
  ultimately show ?thesis
    using assms(1,2) by (simp add: dec_exit_container_def with_count_def past_def Let_def)
qed

lemma starts_tail: "starts cfg d (t # x) \<Longrightarrow> starts cfg (past d [t]) x"
  using starts_append[of cfg d "[t]" x] by simp

lemma inside_step:
  assumes "inside cfg d c" and "0 < length x" and "c_depth_limit cfg \<le> MAX_DEPTH"
  shows "inside cfg (past d x) c" and "inside cfg (with_count (past d x) (Suc c)) (Suc c)"
  using assms by (cases x; auto simp: inside_def with_count_def nth_list_update)+

text \<open>After a value in a container: the separator counts it and tells whether another one follows.\<close>

lemma sep_after:
  assumes "inside cfg d c" and "c_depth_limit cfg \<le> MAX_DEPTH" and "0 < length x"
    and "starts cfg d (x @ y @ [TAG_END])" and "y = [] \<or> hd y \<noteq> TAG_END"
    and "within (c_collection_limit cfg) (Suc c)"
  shows "container_sep cfg (past d x) = (Inr (y \<noteq> []), with_count (past d x) (Suc c))"
proof -
  obtain b z where b: "y @ [TAG_END] = b # z" by (cases "y @ [TAG_END]") auto
  then have "b \<noteq> TAG_END \<longleftrightarrow> y \<noteq> []" using assms(5) by (cases y) auto
  moreover have "starts cfg (past d x) (b # z)"
    using assms(4) b by (simp add: starts_append)
  ultimately show ?thesis
    using sep_step[OF inside_step(1)[OF assms(1,3,2)] assms(2)] assms(6) by simp
qed

lemma decodable_inside:
  assumes "inside cfg d c" and "starts cfg d (wire cfg v)" and "strings_ok v"
    and "admissible True (c_collection_limit cfg) v" and "d_depth d + height v \<le> c_depth_limit cfg"
  shows "decodable cfg d v"
  using assms by (simp add: decodable_def inside_def)

lemma hd_wire_elems: "wire_elems cfg vs = [] \<longleftrightarrow> vs = []" "vs \<noteq> [] \<Longrightarrow> hd (wire_elems cfg vs) \<noteq> TAG_END"
proof -
  obtain b x where b: "vs = [] \<or> wire cfg (hd vs) = b # x \<and> b \<noteq> TAG_END" using wire_first by blast
  then show "wire_elems cfg vs = [] \<longleftrightarrow> vs = []" "vs \<noteq> [] \<Longrightarrow> hd (wire_elems cfg vs) \<noteq> TAG_END"
    by (cases vs; simp)+
qed

lemma hd_wire_fields: "wire_fields cfg fs = [] \<longleftrightarrow> fs = []" "fs \<noteq> [] \<Longrightarrow> hd (wire_fields cfg fs) \<noteq> TAG_END"
  by (cases fs; cases "hd fs"; simp add: str_of_def tag_defs)+

lemma dec_wire:
  assumes dl: "c_depth_limit cfg \<le> MAX_DEPTH"
  shows "decodable cfg d v \<Longrightarrow> length (wire cfg v) \<le> n \<Longrightarrow>
      client_value (self_describing cfg) n d = (Inr (widened v), past d (wire cfg v))"
    and "vs \<noteq> [] \<Longrightarrow> inside cfg d c \<Longrightarrow> starts cfg d (wire_elems cfg vs @ [TAG_END]) \<Longrightarrow>
      strings_ok_elems vs \<Longrightarrow> admissible_elems True (c_collection_limit cfg) vs \<Longrightarrow>
      within (c_collection_limit cfg) (c + length vs) \<Longrightarrow>
      d_depth d + height_elems vs \<le> c_depth_limit cfg \<Longrightarrow> length (wire_elems cfg vs) < n \<Longrightarrow>
      client_elems (self_describing cfg) n d =
        (Inr (widened_elems vs), with_count (past d (wire_elems cfg vs)) (c + length vs))"
    and "inside cfg d c \<Longrightarrow> starts cfg d (wire_fields cfg fs @ [TAG_END]) \<Longrightarrow>
      strings_ok_fields fs \<Longrightarrow> admissible_fields True (c_collection_limit cfg) fs \<Longrightarrow>
      within (c_collection_limit cfg) (c + length fs) \<Longrightarrow>
      d_depth d + height_fields fs \<le> c_depth_limit cfg \<Longrightarrow> length (wire_fields cfg fs) < n \<Longrightarrow>
      client_fields (self_describing cfg) n d =
        (Inr (widened_fields fs), with_count (past d (wire_fields cfg fs)) (c + length fs))"
  using dl
proof (induction cfg v and cfg vs and cfg fs arbitrary: n d and n d c and n d c
    rule: wire_wire_elems_wire_fields.induct)
  case (10 cfg vs)
  then obtain m where n: "n = Suc m" by (cases n) auto
  let ?d = "(past d [TAG_ARRAY])\<lparr>d_depth := d_depth d + 1\<rparr>"
  obtain p where op: "peek_token cfg d = (Inr TBeginArray, p)" "begin_array cfg p = (Inr (), ?d)"
    using dec_open(1)[OF 10(2) refl] by blast
  have i: "inside cfg ?d 0"
    by (rule dec_open(3)[OF 10(2) _ 10(4)]) simp
  have s: "starts cfg d (TAG_ARRAY # wire_elems cfg vs @ [TAG_END])" using 10(2) by (simp add: decodable_def)
  note sc = starts_container[OF s]
  have l: "d_lookahead ?d = None" using 10(2) by (simp add: decodable_def)
  have "array_has_more ?d = (Inr (vs \<noteq> []), ?d) \<and>
      (if vs \<noteq> [] then client_elems (self_describing cfg) m else sret []) ?d =
      (Inr (widened_elems vs), with_count (past ?d (wire_elems cfg vs)) (length vs))"
  proof (cases "vs = []")
    case True
    then show ?thesis
      using peek_end_starts(2)[OF l, of cfg TAG_END "[]"] sc(3) i with_count_same[of ?d 0]
      by (simp add: inside_def)
  next
    case False
    then obtain v vs' where "vs = v # vs'" by (cases vs) auto
    then obtain b x where b: "wire_elems cfg vs = b # x" "b \<noteq> TAG_END"
      using wire_first[of cfg v] by auto
    have "client_elems (self_describing cfg) m ?d =
        (Inr (widened_elems vs), with_count (past ?d (wire_elems cfg vs)) (0 + length vs))"
      by (rule 10(1)[OF False i]) (use 10(2,3,4) s n in \<open>auto simp: decodable_def starts_container starts_tail\<close>)
    then show ?thesis
      using peek_end_starts(2)[OF l, of cfg b x] sc(2) b False by simp
  qed
  moreover have "dec_exit_container cfg (with_count (past ?d (wire_elems cfg vs)) (length vs)) =
      (Inr (), past d (wire cfg (JArr vs)))"
    using dec_close[of d cfg "TAG_ARRAY # wire_elems cfg vs" "length vs"] sc(3) 10(2,4)
    by (auto simp: decodable_def)
  ultimately show ?case
    unfolding n using op by (simp add: client_steps)
next
  case (11 cfg fs)
  then obtain m where n: "n = Suc m" by (cases n) auto
  let ?d = "(past d [TAG_OBJECT])\<lparr>d_depth := d_depth d + 1\<rparr>"
  obtain p where op: "peek_token cfg d = (Inr TBeginObject, p)" "begin_object cfg p = (Inr (), ?d)"
    using dec_open(2)[OF 11(2) refl] by blast
  have i: "inside cfg ?d 0"
    by (rule dec_open(3)[OF 11(2) _ 11(4)]) simp
  have s: "starts cfg d (TAG_OBJECT # wire_fields cfg fs @ [TAG_END])" using 11(2) by (simp add: decodable_def)
  have "client_fields (self_describing cfg) m ?d =
        (Inr (widened_fields fs), with_count (past ?d (wire_fields cfg fs)) (0 + length fs))"
    by (rule 11(1)[OF i]) (use 11(2,3,4) s n in \<open>auto simp: decodable_def starts_tail\<close>)
  moreover have "dec_exit_container cfg (with_count (past ?d (wire_fields cfg fs)) (length fs)) =
      (Inr (), past d (wire cfg (JObj fs)))"
    using dec_close[of d cfg "TAG_OBJECT # wire_fields cfg fs" "length fs"] starts_container(3)[OF s] 11(2,4)
    by (auto simp: decodable_def)
  ultimately show ?case
    unfolding n using op by (simp add: client_steps)
next
  case (12 cfg)
  then show ?case by simp
next
  case (13 cfg v vs)
  then obtain m where n: "n = Suc m" by (cases n) auto
  let ?x = "wire cfg v" and ?y = "wire_elems cfg vs"
  have st: "starts cfg d (?x @ ?y @ [TAG_END])" using 13(5) by simp
  then have st2: "starts cfg d ?x" "starts cfg (past d ?x) (?y @ [TAG_END])"
    by (simp_all add: starts_append)
  have len: "0 < length ?x" by (rule wire_nonempty)
  have m: "length ?y < m" using 13(10) n len by (simp del: length_greater_0_conv)
  have v: "client_value (self_describing cfg) m d = (Inr (widened v), past d ?x)"
    by (rule 13(1)[OF decodable_inside[OF 13(4) st2(1)]]) (use 13 n in auto)
  have cl: "within (c_collection_limit cfg) (Suc c)"
    using 13(8) by (rule within_mono) simp
  have sep: "container_sep cfg (past d ?x) = (Inr (vs \<noteq> []), with_count (past d ?x) (Suc c))"
    using sep_after[OF 13(4,11) len st _ cl] hd_wire_elems(1)[of cfg vs] hd_wire_elems(2)[of vs cfg]
    by fastforce
  show ?case
  proof (cases "vs = []")
    case True
    then show ?thesis using v sep n by (simp add: client_steps)
  next
    case False
    have "client_elems (self_describing cfg) m (with_count (past d ?x) (Suc c)) = (Inr (widened_elems vs),
        with_count (past (with_count (past d ?x) (Suc c)) ?y) (Suc c + length vs))"
      by (rule 13(2)[OF False inside_step(2)[OF 13(4) len 13(11)]])
        (use 13(6-11) st2(2) m in auto)
    then show ?thesis using v sep n False by (simp add: client_steps)
  qed
next
  case (14 cfg)
  then obtain m where n: "n = Suc m" by (cases n) auto
  have "d_lookahead d = None" "with_count d c = d"
    using 14 with_count_same[of d c] by (auto simp: inside_def)
  then show ?case
    unfolding n using peek_end_starts(1)[of d cfg TAG_END "[]"] 14 by (simp add: object_key_def client_steps)
next
  case (15 cfg k v fs)
  then obtain m where n: "n = Suc m" by (cases n) auto
  let ?k = "str_of cfg k" and ?x = "wire cfg v" and ?y = "wire_fields cfg fs"
  let ?d = "past d ?k"
  have st: "starts cfg d (?k @ ?x @ ?y @ [TAG_END])" using 15(4) by simp
  then have st2: "starts cfg d ?k" "starts cfg ?d (?x @ ?y @ [TAG_END])" "starts cfg ?d ?x"
    "starts cfg (past ?d ?x) (?y @ [TAG_END])"
    by (simp_all add: starts_append)
  have len: "0 < length ?x" "0 < length ?k"
    using wire_nonempty[of cfg v] by (simp_all add: str_of_def)
  obtain z where z: "?k = TAG_STRING # z" by (simp add: str_of_def)
  have "peek_end d = (Inr False, d)"
    using peek_end_starts(1)[of d cfg TAG_STRING "z"] st2(1) 15(3) z
    by (simp add: inside_def tag_defs)
  moreover have "take_token cfg d = (Inr (TStr k), ?d)"
    using yieldsD[OF yields_str_token st2(1)] 15(3,5) by (simp add: take_token_def inside_def)
  ultimately have k: "object_key cfg d = (Inr (Some k), ?d)"
    by (simp add: object_key_def)
  have i: "inside cfg ?d c" by (rule inside_step(1)[OF 15(3) len(2) 15(10)])
  have m: "length ?y < m" using 15(9) n len by (simp del: length_greater_0_conv)
  have v: "client_value (self_describing cfg) m ?d = (Inr (widened v), past ?d ?x)"
    by (rule 15(1)[OF decodable_inside[OF i st2(3)]]) (use 15 n in auto)
  have cl: "within (c_collection_limit cfg) (Suc c)"
    using 15(7) by (rule within_mono) simp
  have sep: "container_sep cfg (past ?d ?x) = (Inr (fs \<noteq> []), with_count (past ?d ?x) (Suc c))"
    using sep_after[OF i 15(10) len(1) st2(2) _ cl] hd_wire_fields(1)[of cfg fs] hd_wire_fields(2)[of fs cfg]
    by fastforce
  show ?case
  proof (cases "fs = []")
    case True
    then show ?thesis using k v sep n by (simp add: client_steps)
  next
    case False
    have "client_fields (self_describing cfg) m (with_count (past ?d ?x) (Suc c)) = (Inr (widened_fields fs),
        with_count (past (with_count (past ?d ?x) (Suc c)) ?y) (Suc c + length fs))"
      by (rule 15(2)[OF inside_step(2)[OF i len(1) 15(10)]])
        (use 15(5-10) st2(4) m in auto)
    then show ?thesis using k v sep n False by (simp add: client_steps)
  qed
qed (rule dec_scalar, assumption, assumption, simp, simp)+


section \<open>Round trip\<close>

lemma decode_wire:
  assumes "c_depth_limit cfg \<le> MAX_DEPTH" and "strings_ok v"
    and "admissible True (c_collection_limit cfg) v" and "height v \<le> c_depth_limit cfg"
    and "length (wire cfg v) \<le> usize_max" and "within (c_limit cfg) (length (wire cfg v))"
    and "length (wire cfg v) \<le> n"
  shows "client_value (self_describing cfg) n (decoder_new (wire cfg v @ rest)) =
     (Inr (widened v), past (decoder_new (wire cfg v @ rest)) (wire cfg v))"
  by (rule dec_wire(1)[OF assms(1) _ assms(7)])
    (use assms wire_nonempty[of cfg v] in \<open>auto simp: decodable_def decoder_new_def starts_def\<close>)

lemma decode_encoded:
  assumes "reachable_config cfg" and "reads_values (self_describing cfg) read" and "to_vec cfg (events lead v) = Inr out"
    and "strings_ok v" and "admissible True (c_collection_limit cfg) v" and "length out \<le> n"
  shows "from_slice cfg (read n) (out @ rest) =
    (if c_trailing cfg = Reject \<and> rest \<noteq> [] then Inl (TrailingBytesError (length rest))
     else Inr (widened v))"
proof -
  have o: "out = wire cfg v" "height v \<le> c_depth_limit cfg" "length out \<le> usize_max"
    "within (c_limit cfg) (length out)"
    using to_vec_wire[OF assms(1), of lead v out] assms(3) by auto
  have "client_value (self_describing cfg) n (decoder_new (wire cfg v @ rest)) =
      (Inr (widened v), past (decoder_new (wire cfg v @ rest)) (wire cfg v))"
    by (rule decode_wire) (use assms o depth_reachable[OF assms(1)] in auto)
  from readers_agree[OF assms(2) this] show ?thesis
    using o by (simp add: from_slice_def from_slice_with_consumed_def decoder_new_def)
qed

text \<open>
  C1: round trip of the self-describing profile. Whatever \<^verbatim>\<open>serialize\<close> returns for a value (in any
  endianness, integer profile and limits), \<^verbatim>\<open>deserialize\<close> under the same configuration, with any reader of
  dynamic values whose recursion is bound by no less than the length of the bytes, gives the same value back
  except that every \<^verbatim>\<open>f32\<close> comes back as the \<^verbatim>\<open>f64\<close> of the same number; bytes that follow it are left
  alone or reported with their exact number, as the trailing policy says. The one further condition
  is the decoder's own count: an array of \<open>n\<close> elements has \<open>n\<close> within the collection limit.
\<close>

theorem roundtrip:
  assumes "reachable_config cfg" and "reads_values (self_describing cfg) read" and "to_vec cfg (events lead v) = Inr out"
    and "strings_ok v" and "admissible True (c_collection_limit cfg) v" and "length out \<le> n"
  shows "from_slice cfg (read n) (out @ rest) =
    (if c_trailing cfg = Reject \<and> rest \<noteq> [] then Inl (TrailingBytesError (length rest))
     else Inr (widened v))"
  using assms by (rule decode_encoded)

lemma roundtrip_witness:
  "let v = JObj [([0xC3, 0xA9], JArr [JF32 0x3f800000, JBool True])]; cfg = with_big_endian standard;
       out = wire cfg v in
   from_slice cfg (client_value (self_describing cfg) (length out)) (out @ [7]) = Inl (TrailingBytesError 1) \<and>
   from_slice cfg (client_value (self_describing cfg) (length out)) out =
     Inr (JObj [([0xC3, 0xA9], JArr [JF64 0x3ff0000000000000, JBool True])])"
proof -
  let ?v = "JObj [([0xC3, 0xA9], JArr [JF32 0x3f800000, JBool True])]"
  let ?c = "with_big_endian standard"
  have rc: "reachable_config ?c"
    using reachable_config.build[OF reachable_config.standard, of BBig] by simp
  have len: "length (wire ?c ?v) = 14"
    by (simp add: str_of_def unsigned_of_def varint_of_def fixed_of_def config_defs endian_little_def
        varint_be_def varint_bytes_small)
  then have t1: "to_vec ?c (events True ?v) = Inr (wire ?c ?v)"
    using to_vec_wire[OF rc, of True ?v "wire ?c ?v"]
    by (simp add: config_defs MAX_DEPTH_def DEFAULT_SIZE_LIMIT_def DEFAULT_COLLECTION_LIMIT_def
        is_finite32_def)
  have t2: "strings_ok ?v" by code_simp
  have t3: "admissible True (c_collection_limit ?c) ?v" by code_simp
  have t4: "c_trailing ?c = Reject" by (simp add: config_defs)
  have "f32_to_f64 0x3f800000 = 0x3ff0000000000000"
    by (simp add: f32_to_f64_def Let_def)
  then have t5: "widened ?v = JObj [([0xC3, 0xA9], JArr [JF64 0x3ff0000000000000, JBool True])]"
    by simp
  show ?thesis
    using roundtrip[OF rc client_reads t1 t2 t3 order.refl, of "[7]"] roundtrip[OF rc client_reads t1 t2 t3 order.refl, of "[]"] t4 t5
    unfolding Let_def by simp
qed

end
