(* ===== verification/Reader.thy ===== *)
theory Reader
  imports Config
begin

text \<open>
  The contract of every cursor over a slice of bytes or bits: what is left to read, a
  forward step, and the positions it may stand at. The
  walker of \<^verbatim>\<open>src/probe.rs\<close> and the cursor of \<^verbatim>\<open>src/compact.rs\<close> are two of its models; the reading lemmas
  are proved once here.
\<close>

locale reader =
  fixes rest :: "'s \<Rightarrow> 'b list"
    and adv :: "nat \<Rightarrow> 's \<Rightarrow> 's"
    and valid :: "'s \<Rightarrow> bool"
  assumes rest_adv: "rest (adv n s) = drop n (rest s)"
    and adv_0: "adv 0 s = s"
    and adv_adv: "adv m (adv n s) = adv (n + m) s"
    and adv_valid: "valid s \<Longrightarrow> rest s = bs @ zs \<Longrightarrow> valid (adv (length bs) s)"
begin

definition starts :: "'s \<Rightarrow> 'b list \<Rightarrow> bool" where
  "starts s bs \<longleftrightarrow> valid s \<and> (\<exists>zs. rest s = bs @ zs)"

text \<open>The operation reads exactly \<open>bs\<close> and returns \<open>v\<close>.\<close>

definition yields :: "('s, 'a) op \<Rightarrow> 'b list \<Rightarrow> 'a \<Rightarrow> bool" where
  "yields m bs v \<longleftrightarrow> (\<forall>s. starts s bs \<longrightarrow> m s = (Inr v, adv (length bs) s))"

lemma rd_starts_append: "starts s (x @ y) \<longleftrightarrow> starts s x \<and> starts (adv (length x) s) y"
  using adv_valid[of s x] by (auto simp: starts_def rest_adv)

lemma rd_starts_Nil [simp]: "starts s [] \<longleftrightarrow> valid s"
  by (simp add: starts_def)

lemma rd_starts_Cons: "starts s (b # y) \<Longrightarrow> starts s [b] \<and> starts (adv 1 s) y"
  using rd_starts_append[of s "[b]" y] by simp

lemma rd_yieldsD: "yields m bs v \<Longrightarrow> starts s bs \<Longrightarrow> m s = (Inr v, adv (length bs) s)"
  by (simp add: yields_def)

lemma rd_yields_ret: "yields (sret v) [] v"
  by (simp add: yields_def adv_0)

lemma rd_yields_sbind:
  assumes "yields m x v" and "yields (f v) y w"
  shows "yields (sbind m f) (x @ y) w"
  unfolding yields_def
proof (intro allI impI)
  fix s assume "starts s (x @ y)"
  then have "m s = (Inr v, adv (length x) s)" "f v (adv (length x) s) = (Inr w, adv (length (x @ y)) s)"
    using assms by (simp_all add: yields_def rd_starts_append adv_adv)
  then show "sbind m f s = (Inr w, adv (length (x @ y)) s)"
    by (simp only: sbind_ok)
qed

lemma rd_yields_map:
  assumes "yields m x v" and "f v = sret w"
  shows "yields (sbind m f) x w"
  using rd_yields_sbind[OF assms(1), of f "[]" w] rd_yields_ret[of w] assms(2) by (simp del: sop_simps)

lemma rd_starts_peek: "starts s (b # x) \<Longrightarrow> rest s \<noteq> [] \<and> hd (rest s) = b"
  by (auto simp: starts_def)

end

text \<open>What a cursor position leaves to read under a byte limit.\<close>

definition unread :: "nat option \<Rightarrow> byte list \<Rightarrow> nat \<Rightarrow> byte list" where
  "unread limit input c =
     take ((case limit of None \<Rightarrow> usize_max | Some l \<Rightarrow> min l usize_max) - c) (drop c input)"

lemma unread_step: "unread limit input (c + n) = drop n (unread limit input c)"
  by (simp add: unread_def drop_take add.commute)

lemma unread_drop: "unread limit input c = xs \<Longrightarrow> \<exists>ys. drop c input = xs @ ys"
  unfolding unread_def by (metis append_take_drop_id)

lemma unread_prefix:
  assumes "unread limit input c = bs @ zs" and "c \<le> length input"
  shows "c + length bs \<le> length input" and "slice c (c + length bs) input = Some bs"
    and "bs \<noteq> [] \<Longrightarrow> c + length bs \<le> usize_max \<and> within limit (c + length bs)"
proof -
  obtain ys where ys: "drop c input = bs @ zs @ ys" using unread_drop[OF assms(1)] by auto
  then have "length input - c = length bs + length (zs @ ys)" by (metis length_append length_drop)
  then show a: "c + length bs \<le> length input" using assms(2) by simp
  show "slice c (c + length bs) input = Some bs"
    using a ys by (simp add: slice_eq_Some)
  assume bs: "bs \<noteq> []"
  have "length bs \<le> length (unread limit input c)" using assms(1) by simp
  also have "\<dots> \<le> (case limit of None \<Rightarrow> usize_max | Some l \<Rightarrow> min l usize_max) - c"
    by (simp add: unread_def)
  finally show "c + length bs \<le> usize_max \<and> within limit (c + length bs)"
    using bs by (cases bs; cases limit) auto
qed

lemma unread_hd:
  assumes "unread limit input c = b # zs"
  shows "c < length input" and "input ! c = b"
proof -
  obtain ys where ys: "drop c input = b # zs @ ys" using unread_drop[OF assms] by auto
  then show c: "c < length input" by (metis drop_all leI list.distinct(1))
  show "input ! c = b" using ys c by (metis hd_drop_conv_nth list.sel(1))
qed

end
