(* ===== verification/Probe.thy ===== *)
theory Probe
  imports Stream Reader
begin

text \<open>
  \<^verbatim>\<open>src/probe.rs\<close>: the allocation-free walk over one self-describing value. \<^verbatim>\<open>value\<close>, \<^verbatim>\<open>container\<close> and
  the container's loop are mutually recursive; they take fuel, which theorem
  \<open>walk_no_panic\<close> shows never runs out at the amount \<open>probe\<close> gives them. The two \<^verbatim>\<open>u64\<close> counters
  never exceed the number of bytes read and cannot overflow.
\<close>

record walker =
  w_input :: "byte list"
  w_cursor :: nat
  w_containers :: nat
  w_elements :: nat
  w_depth :: nat
  w_max_depth :: nat

record probe_report =
  p_bytes :: nat
  p_containers :: nat
  p_elements :: nat
  p_depth :: nat

definition fits_input :: "probe_report \<Rightarrow> nat \<Rightarrow> bool" where
  "fits_input p max_bytes \<longleftrightarrow> p_bytes p \<le> max_bytes"

definition fits_depth :: "probe_report \<Rightarrow> nat \<Rightarrow> bool" where
  "fits_depth p max_depth \<longleftrightarrow> p_depth p \<le> max_depth"

text \<open>The budget's three limits \<^verbatim>\<open>max_input\<close>, \<^verbatim>\<open>max_work\<close>, \<^verbatim>\<open>max_depth\<close>.\<close>

definition fits_budget :: "probe_report \<Rightarrow> nat \<Rightarrow> nat \<Rightarrow> nat \<Rightarrow> bool" where
  "fits_budget p max_input max_work max_depth \<longleftrightarrow>
     p_bytes p \<le> max_input \<and> p_bytes p \<le> max_work \<and> p_depth p \<le> max_depth"

definition wk_take :: "config \<Rightarrow> nat \<Rightarrow> (walker, unit) op" where
  "wk_take cfg len w =
    (let e = w_cursor w + len in
     if e > usize_max then (Inl UnexpectedEnd, w)
     else case check_limit (c_limit cfg) e of
         Inl err \<Rightarrow> (Inl err, w)
       | Inr _ \<Rightarrow> if e > length (w_input w) then (Inl UnexpectedEnd, w)
                  else (Inr (), w\<lparr>w_cursor := e\<rparr>))"

definition wk_byte :: "config \<Rightarrow> (walker, byte) op" where
  "wk_byte cfg = sbind (wk_take cfg 1) (\<lambda>_. slift (\<lambda>w. Inr (w_input w ! (w_cursor w - 1))))"

definition wk_peek :: "walker \<Rightarrow> error + byte" where
  "wk_peek w = (if w_cursor w < length (w_input w) then Inr (w_input w ! w_cursor w)
     else Inl UnexpectedEnd)"

definition wk_payload :: "config \<Rightarrow> byte \<Rightarrow> nat \<Rightarrow> (walker, u128) op" where
  "wk_payload cfg marker plen w =
    (let e = w_cursor w + plen in
     if e > usize_max then (Inl UnexpectedEnd, w)
     else case check_limit (c_limit cfg) e of
         Inl err \<Rightarrow> (Inl err, w)
       | Inr _ \<Rightarrow>
         (case slice (w_cursor w) e (w_input w) of
            None \<Rightarrow> (Inl UnexpectedEnd, w)
          | Some bytes \<Rightarrow>
            (case decode_varint_le marker bytes of
               Some value \<Rightarrow> (Inr value, w\<lparr>w_cursor := e\<rparr>)
             | None \<Rightarrow> (Inl NonCanonicalVarint, w\<lparr>w_cursor := e\<rparr>))))"

definition wk_varint :: "config \<Rightarrow> (walker, u128) op" where
  "wk_varint cfg = sbind (wk_byte cfg) (\<lambda>marker.
     if marker \<le> 250 then sret (ucast marker)
     else sbind (if marker = MARKER_U16 then sret 2 else if marker = MARKER_U32 then sret 4
          else if marker = MARKER_U64 then sret 8 else if marker = MARKER_U128 then sret 16
          else sfail (InvalidVarintMarker marker)) (wk_payload cfg marker))"

definition wk_number :: "config \<Rightarrow> nat \<Rightarrow> (walker, unit) op" where
  "wk_number cfg fixed_bytes =
    (if c_integers cfg = Variable \<and> fixed_bytes > 1 then sbind (wk_varint cfg) (\<lambda>_. sret ())
     else wk_take cfg fixed_bytes)"

definition wk_length :: "config \<Rightarrow> (walker, nat) op" where
  "wk_length cfg =
    (if c_integers cfg = Variable
     then sbind (wk_varint cfg) (\<lambda>v. if unat v > usize_max then sfail (IntegerOverflow ''u64'')
            else sret (unat v))
     else sbind (wk_take cfg 8) (\<lambda>_. sret 0))"

text \<open>The leaf cases of \<^verbatim>\<open>value\<close>.\<close>

definition wk_leaf :: "config \<Rightarrow> byte \<Rightarrow> (walker, unit) op" where
  "wk_leaf cfg tag =
    (if tag = TAG_NULL \<or> tag = TAG_FALSE \<or> tag = TAG_TRUE then sret ()
     else if tag = TAG_U64 \<or> tag = TAG_I64 then wk_number cfg 8
     else if tag = TAG_U128 \<or> tag = TAG_I128 then wk_number cfg 16
     else if tag = TAG_F64 then wk_take cfg 8
     else if tag = TAG_F32 then wk_take cfg 4
     else if tag = TAG_STRING then sbind (wk_length cfg) (\<lambda>len. wk_take cfg len)
     else if tag = TAG_END then sfail (Custom ''unexpected end-of-container terminator'')
     else sfail (Custom ''invalid value tag''))"

definition wk_key :: "config \<Rightarrow> (walker, unit) op" where
  "wk_key cfg = sbind (wk_byte cfg) (\<lambda>key_tag.
     if key_tag \<noteq> TAG_STRING then sfail (Custom ''invalid object key'')
     else sbind (wk_length cfg) (\<lambda>key_len. wk_take cfg key_len))"

abbreviation (input) out_of_fuel :: error where "out_of_fuel \<equiv> Panic ''fuel''"

fun walk_value :: "nat \<Rightarrow> config \<Rightarrow> (walker, unit) op"
  and walk_container :: "nat \<Rightarrow> config \<Rightarrow> bool \<Rightarrow> (walker, unit) op"
  and walk_entries :: "nat \<Rightarrow> config \<Rightarrow> bool \<Rightarrow> nat \<Rightarrow> (walker, nat) op" where
  "walk_value 0 cfg = sfail out_of_fuel"
| "walk_value (Suc n) cfg = sbind (wk_byte cfg) (\<lambda>tag.
     if tag = TAG_ARRAY then walk_container n cfg False
     else if tag = TAG_OBJECT then walk_container n cfg True
     else wk_leaf cfg tag)"
| "walk_container 0 cfg is_object = sfail out_of_fuel"
| "walk_container (Suc n) cfg is_object =
     sbind (smod (\<lambda>w. w\<lparr>w_containers := w_containers w + 1\<rparr>)) (\<lambda>_.
     sbind (slift (\<lambda>w. if w_depth w \<ge> c_depth_limit cfg
         then Inl (Custom ''decoder nesting depth limit exceeded'') else Inr ())) (\<lambda>_.
     sbind (smod (\<lambda>w. w\<lparr>w_depth := w_depth w + 1,
         w_max_depth := (if w_depth w + 1 > w_max_depth w then w_depth w + 1 else w_max_depth w)\<rparr>)) (\<lambda>_.
     sbind (walk_entries n cfg is_object 0) (\<lambda>count.
     smod (\<lambda>w. w\<lparr>w_elements := w_elements w + count, w_depth := w_depth w - 1\<rparr>)))))"
| "walk_entries 0 cfg is_object count = sfail out_of_fuel"
| "walk_entries (Suc n) cfg is_object count = sbind (slift wk_peek) (\<lambda>tag.
     if tag = TAG_END then sbind (wk_take cfg 1) (\<lambda>_. sret count)
     else sbind (slift (\<lambda>_. check_collection (c_collection_limit cfg) (count + 1))) (\<lambda>_.
          sbind (if is_object then wk_key cfg else sret ()) (\<lambda>_.
          sbind (walk_value n cfg) (\<lambda>_.
          walk_entries n cfg is_object (count + 1)))))"

definition walker_new :: "byte list \<Rightarrow> walker" where
  "walker_new input = \<lparr> w_input = input, w_cursor = 0, w_containers = 0, w_elements = 0,
     w_depth = 0, w_max_depth = 0 \<rparr>"

definition probe_fuel :: "byte list \<Rightarrow> nat" where
  "probe_fuel input = 3 * length input + 3"

definition probe :: "config \<Rightarrow> byte list \<Rightarrow> error + probe_report" where
  "probe cfg input =
    (case walk_value (probe_fuel input) cfg (walker_new input) of
       (Inl err, _) \<Rightarrow> Inl err
     | (Inr _, w) \<Rightarrow>
         if c_trailing cfg = Reject \<and> w_cursor w \<noteq> length input
         then Inl (TrailingBytesError (length input - w_cursor w))
         else Inr \<lparr> p_bytes = w_cursor w, p_containers = w_containers w,
                    p_elements = w_elements w, p_depth = w_max_depth w \<rparr>)"

section \<open>The walker as a reader\<close>

definition wk_rest :: "config \<Rightarrow> walker \<Rightarrow> byte list" where
  "wk_rest cfg w = (if w_cursor w \<le> length (w_input w)
     then unread (c_limit cfg) (w_input w) (w_cursor w) else [])"

definition wk_adv :: "nat \<Rightarrow> walker \<Rightarrow> walker" where
  "wk_adv n w = w\<lparr>w_cursor := w_cursor w + n\<rparr>"

lemma unread_beyond: "length input \<le> c \<Longrightarrow> unread limit input c = []"
  by (simp add: unread_def)

lemma drop_unread: "length input \<le> c + n \<Longrightarrow> length (unread limit input c) \<le> n"
  by (simp add: unread_def)

interpretation wk: reader "wk_rest cfg" wk_adv "\<lambda>_. True" for cfg
  by unfold_locales
    (auto simp: wk_rest_def wk_adv_def drop_unread unread_step add.assoc)

lemma wk_adv_simps [simp]:
  "w_depth (wk_adv n w) = w_depth w" "w_max_depth (wk_adv n w) = w_max_depth w"
  "w_containers (wk_adv n w) = w_containers w" "w_elements (wk_adv n w) = w_elements w"
  "w_input (wk_adv n w) = w_input w" "w_cursor (wk_adv n w) = w_cursor w + n"
  "w_containers_update f (wk_adv n w) = wk_adv n (w_containers_update f w)"
  "w_elements_update f (wk_adv n w) = wk_adv n (w_elements_update f w)"
  "w_depth_update f (wk_adv n w) = wk_adv n (w_depth_update f w)"
  "w_max_depth_update f (wk_adv n w) = wk_adv n (w_max_depth_update f w)"
  "wk_adv m (wk_adv n w) = wk_adv (n + m) w" "wk_adv 0 w = w"
  by (simp_all add: wk_adv_def add.assoc)

lemma wk_rest_simps [simp]:
  "wk_rest cfg (w_containers_update f w) = wk_rest cfg w"
  "wk_rest cfg (w_elements_update f w) = wk_rest cfg w"
  "wk_rest cfg (w_depth_update f w) = wk_rest cfg w"
  "wk_rest cfg (w_max_depth_update f w) = wk_rest cfg w"
  by (simp_all add: wk_rest_def)

lemma wk_starts_simps [simp]:
  "wk.starts cfg (w_containers_update f w) x = wk.starts cfg w x"
  "wk.starts cfg (w_elements_update f w) x = wk.starts cfg w x"
  "wk.starts cfg (w_depth_update f w) x = wk.starts cfg w x"
  "wk.starts cfg (w_max_depth_update f w) x = wk.starts cfg w x"
  "wk.starts cfg (wk_adv n (w_containers_update f w)) x = wk.starts cfg (wk_adv n w) x"
  "wk.starts cfg (wk_adv n (w_elements_update f w)) x = wk.starts cfg (wk_adv n w) x"
  "wk.starts cfg (wk_adv n (w_depth_update f w)) x = wk.starts cfg (wk_adv n w) x"
  "wk.starts cfg (wk_adv n (w_max_depth_update f w)) x = wk.starts cfg (wk_adv n w) x"
  by (simp_all add: wk.starts_def wk.rest_adv)

lemma wk_starts_unread:
  assumes "wk.starts cfg w bs" and "bs \<noteq> []"
  obtains zs where "unread (c_limit cfg) (w_input w) (w_cursor w) = bs @ zs"
    and "w_cursor w \<le> length (w_input w)"
proof -
  obtain zs where z: "wk_rest cfg w = bs @ zs" using assms(1) unfolding wk.starts_def by blast
  have "w_cursor w \<le> length (w_input w)"
    by (rule ccontr) (use z assms(2) in \<open>simp add: wk_rest_def\<close>)
  with z that show thesis by (simp add: wk_rest_def)
qed

lemma wk_starts_take:
  assumes "wk.starts cfg w bs" and "bs \<noteq> []"
  shows "w_cursor w + length bs \<le> usize_max" and "within (c_limit cfg) (w_cursor w + length bs)"
    and "w_cursor w + length bs \<le> length (w_input w)"
    and "slice (w_cursor w) (w_cursor w + length bs) (w_input w) = Some bs"
proof -
  obtain zs where z: "unread (c_limit cfg) (w_input w) (w_cursor w) = bs @ zs"
    "w_cursor w \<le> length (w_input w)" by (rule wk_starts_unread[OF assms])
  show "w_cursor w + length bs \<le> usize_max" "within (c_limit cfg) (w_cursor w + length bs)"
    using unread_prefix(3)[OF z assms(2)] by simp_all
  show "w_cursor w + length bs \<le> length (w_input w)"
    by (rule unread_prefix(1)[OF z])
  show "slice (w_cursor w) (w_cursor w + length bs) (w_input w) = Some bs"
    by (rule unread_prefix(2)[OF z])
qed

lemma wk_yields_take:
  assumes "bs \<noteq> []" and "n = length bs"
  shows "wk.yields cfg (wk_take cfg n) bs ()"
  unfolding wk.yields_def
proof (intro allI impI)
  fix w assume w: "wk.starts cfg w bs"
  show "wk_take cfg n w = (Inr (), wk_adv (length bs) w)"
    using wk_starts_take[OF w assms(1)] assms(2)
    by (simp add: wk_take_def Let_def check_limit_if wk_adv_def)
qed

lemma wk_peek_starts: "wk.starts cfg w (b # x) \<Longrightarrow> wk_peek w = Inr b"
proof -
  assume "wk.starts cfg w (b # x)"
  then obtain zs where "unread (c_limit cfg) (w_input w) (w_cursor w) = b # x @ zs"
    by (auto simp: wk.starts_def wk_rest_def split: if_splits)
  from unread_hd[OF this] show ?thesis by (simp add: wk_peek_def)
qed

lemma wk_yields_byte: "wk.yields cfg (wk_byte cfg) [b] b"
  unfolding wk.yields_def
proof (intro allI impI)
  fix w assume w: "wk.starts cfg w [b]"
  then have "w_input w ! w_cursor w = b"
    using wk_peek_starts[of cfg w b "[]"] by (simp add: wk_peek_def split: if_splits)
  moreover have "wk_take cfg 1 w = (Inr (), wk_adv 1 w)"
    using wk.rd_yieldsD[OF wk_yields_take w] by simp
  ultimately show "wk_byte cfg w = (Inr b, wk_adv (length [b]) w)"
    by (simp add: wk_byte_def)
qed

lemma wk_yields_varint: "wk.yields cfg (wk_varint cfg) (varint_bytes v) v"
proof -
  obtain m p where mp: "varint_bytes v = m # p" by (cases v rule: varint_cases) auto
  then have sh: "payload_len m = Some (length p)" "decode_varint_le m p = Some v"
    using varint_bytes_shape[of v] varint_decode_encode[of v] by simp_all
  have f: "p = [] \<or> wk.yields cfg (wk_payload cfg m (length p)) p v"
  proof (cases "p = []")
    case False
    have "wk_payload cfg m (length p) w = (Inr v, wk_adv (length p) w)" if w: "wk.starts cfg w p" for w
      using wk_starts_take[OF w False] sh(2)
      by (simp add: wk_payload_def Let_def check_limit_if wk_adv_def)
    then show ?thesis by (simp add: wk.yields_def)
  qed simp
  have "wk.yields cfg (wk_varint cfg) ([m] @ p) v"
    unfolding wk_varint_def
    by (rule wk.rd_yields_sbind[OF wk_yields_byte], cases rule: payload_len_cases[OF sh(1)])
      (use f sh(2) wk.rd_yields_ret[of cfg v] in \<open>auto simp: marker_defs sbind_sret_left simp del: sop_simps\<close>)
  then show ?thesis using mp by simp
qed


section \<open>The probe reports the exact shape\<close>

fun containers :: "jv \<Rightarrow> nat"
  and containers_elems :: "jv list \<Rightarrow> nat"
  and containers_fields :: "(byte list \<times> jv) list \<Rightarrow> nat" where
  "containers (JArr vs) = 1 + containers_elems vs"
| "containers (JObj fs) = 1 + containers_fields fs"
| "containers _ = 0"
| "containers_elems [] = 0"
| "containers_elems (v # vs) = containers v + containers_elems vs"
| "containers_fields [] = 0"
| "containers_fields ((k, v) # fs) = containers v + containers_fields fs"

fun entries :: "jv \<Rightarrow> nat"
  and entries_elems :: "jv list \<Rightarrow> nat"
  and entries_fields :: "(byte list \<times> jv) list \<Rightarrow> nat" where
  "entries (JArr vs) = length vs + entries_elems vs"
| "entries (JObj fs) = length fs + entries_fields fs"
| "entries _ = 0"
| "entries_elems [] = 0"
| "entries_elems (v # vs) = entries v + entries_elems vs"
| "entries_fields [] = 0"
| "entries_fields ((k, v) # fs) = entries v + entries_fields fs"

definition varint_profile :: "config \<Rightarrow> bool" where
  "varint_profile cfg \<longleftrightarrow> endian_little (c_endian cfg) \<and> c_integers cfg = Variable"

lemma wk_yields_const: "wk.yields cfg m x v \<Longrightarrow> wk.yields cfg (sbind m (\<lambda>_. sret u)) x u"
  by (rule wk.rd_yields_map) auto

lemma wk_yields_fixed:
  "wk.yields cfg (wk_take cfg 8) (fixed_of cfg (to_le_bytes (a :: u64))) ()"
  "wk.yields cfg (wk_take cfg 4) (fixed_of cfg (to_le_bytes (b :: u32))) ()"
  by (rule wk_yields_take; auto simp: fixed_of_def dest: arg_cong[of _ _ length])+

lemma wk_yields_number:
  assumes "varint_profile cfg" and "n \<in> {8, 16}"
  shows "wk.yields cfg (wk_number cfg n) (unsigned_of cfg v n) ()"
    and "wk.yields cfg (wk_number cfg n) (signed_of cfg v n) ()"
  using assms wk_yields_const[OF wk_yields_varint[of cfg]]
  by (auto simp: wk_number_def varint_profile_def unsigned_of_def signed_of_def varint_of_def
      simp del: sop_simps)

lemma wk_yields_length:
  assumes "varint_profile cfg" and "n \<le> usize_max"
  shows "wk.yields cfg (wk_length cfg) (unsigned_of cfg (of_nat n) 8) n"
  using assms
  by (auto simp: wk_length_def varint_profile_def unsigned_of_def varint_of_def unat_of_nat
      intro!: wk.rd_yields_map[OF wk_yields_varint] simp del: sop_simps)

text \<open>A step that may read nothing: an empty string body.\<close>

lemma wk_take_0: "w_cursor w \<le> length (w_input w) \<Longrightarrow> w_cursor w \<le> usize_max \<Longrightarrow>
  within (c_limit cfg) (w_cursor w) \<Longrightarrow> wk_take cfg 0 w = (Inr (), w)"
  by (simp add: wk_take_def Let_def check_limit_if)

lemma wk_str_body:
  assumes "varint_profile cfg" and "length s \<le> usize_max"
    and "wk.starts cfg w (unsigned_of cfg (of_nat (length s)) 8 @ s)"
  shows "sbind (wk_length cfg) (\<lambda>n. wk_take cfg n) w =
     (Inr (), wk_adv (length (unsigned_of cfg (of_nat (length s)) 8 @ s)) w)"
proof -
  let ?u = "unsigned_of cfg (of_nat (length s)) 8"
  have u: "?u \<noteq> []"
    using varint_bytes_shape[of "of_nat (length s)"] assms(1) length_varint_bytes[of "of_nat (length s)"]
    by (auto simp: unsigned_of_def varint_profile_def varint_of_def)
  have st: "wk.starts cfg w ?u" "wk.starts cfg (wk_adv (length ?u) w) s"
    using assms(3) by (simp_all add: wk.rd_starts_append)
  have l: "wk_length cfg w = (Inr (length s), wk_adv (length ?u) w)"
    by (rule wk.rd_yieldsD[OF wk_yields_length[OF assms(1,2)] st(1)])
  show ?thesis
  proof (cases "s = []")
    case True
    then show ?thesis
      using l wk_take_0[of "wk_adv (length ?u) w" cfg] wk_starts_take[OF st(1) u] by simp
  next
    case False
    then show ?thesis
      using l wk.rd_yieldsD[OF wk_yields_take[OF False refl] st(2)] by simp
  qed
qed

definition tally :: "nat \<Rightarrow> nat \<Rightarrow> nat \<Rightarrow> walker \<Rightarrow> walker" where
  "tally c e m w = w\<lparr>w_containers := w_containers w + c, w_elements := w_elements w + e,
     w_max_depth := max (w_max_depth w) m\<rparr>"

lemma tally_simps [simp]:
  "w_depth (tally c e m w) = w_depth w" "w_max_depth (tally c e m w) = max (w_max_depth w) m"
  "wk.starts cfg (tally c e m w) x = wk.starts cfg w x"
  "wk.starts cfg (wk_adv n (tally c e m w)) x = wk.starts cfg (wk_adv n w) x"
  "tally c e m (wk_adv n w) = wk_adv n (tally c e m w)"
  "tally c e m (tally c' e' m' w) = tally (c' + c) (e' + e) (max m' m) w"
  by (simp_all add: tally_def add.assoc max.assoc)

lemma tally_0: "m \<le> w_max_depth w \<Longrightarrow> tally 0 0 m w = w"
  by (simp add: tally_def max_def)

lemma walk_scalar:
  assumes "varint_profile cfg" and "strings_ok v" and "token_bytes cfg v = wire cfg v"
    and "token_of v \<noteq> TBeginArray \<and> token_of v \<noteq> TBeginObject" and "wk.starts cfg w (wire cfg v)"
  shows "walk_value (Suc n) cfg w = (Inr (), wk_adv (length (wire cfg v)) w)"
proof -
  obtain t x where t: "wire cfg v = t # x" by (cases v) (auto simp: str_of_def)
  then have st: "wk.starts cfg w [t]" "wk.starts cfg (wk_adv 1 w) x"
    using wk.rd_starts_Cons[of cfg w t x] assms(5) by auto
  have b: "wk_byte cfg w = (Inr t, wk_adv 1 w)"
    using wk.rd_yieldsD[OF wk_yields_byte st(1)] by simp
  have "wk_leaf cfg t (wk_adv 1 w) = (Inr (), wk_adv (length x) (wk_adv 1 w)) \<and>
      t \<noteq> TAG_ARRAY \<and> t \<noteq> TAG_OBJECT"
  proof (cases v)
    case (JStr s)
    then show ?thesis
      using t st(2) wk_str_body[OF assms(1), of s "wk_adv 1 w"] assms(2)
      by (auto simp: wk_leaf_def tag_defs str_of_def)
  qed (use t st(2) assms(1,4) in \<open>auto simp: wk_leaf_def tag_defs split: if_splits
      dest: wk.rd_yieldsD[OF wk_yields_number(1)[OF assms(1)], rotated] wk.rd_yieldsD[OF wk_yields_number(2)[OF assms(1)], rotated]
        wk.rd_yieldsD[OF wk_yields_fixed(1), rotated] wk.rd_yieldsD[OF wk_yields_fixed(2), rotated]\<close>)
  then show ?thesis using b t by simp
qed


lemma walk_end:
  "wk.starts cfg w [TAG_END] \<Longrightarrow> walk_entries (Suc n) cfg obj c w = (Inr c, wk_adv 1 w)"
  using wk_peek_starts[of cfg w TAG_END "[]"] wk.rd_yieldsD[OF wk_yields_take[of "[TAG_END]" 1 cfg], of w]
  by simp

lemma walk_key:
  assumes "varint_profile cfg" and "str_ok k" and "wk.starts cfg w (str_of cfg k)"
  shows "wk_key cfg w = (Inr (), wk_adv (length (str_of cfg k)) w)"
proof -
  have st: "wk.starts cfg w [TAG_STRING]"
    "wk.starts cfg (wk_adv 1 w) (unsigned_of cfg (of_nat (length k)) 8 @ k)"
    using wk.rd_starts_Cons[of cfg w TAG_STRING] assms(3) by (auto simp: str_of_def)
  show ?thesis
    using wk.rd_yieldsD[OF wk_yields_byte st(1)] wk_str_body[OF assms(1) _ st(2)] assms(2)
    by (simp add: wk_key_def str_of_def)
qed

lemma walk_container_step:
  assumes "w_depth w < c_depth_limit cfg"
    and "walk_entries n cfg obj 0 (w\<lparr>w_containers := w_containers w + 1, w_depth := w_depth w + 1,
      w_max_depth := max (w_max_depth w) (w_depth w + 1)\<rparr>) =
      (Inr k, wk_adv l (tally c e m (w\<lparr>w_containers := w_containers w + 1, w_depth := w_depth w + 1,
      w_max_depth := max (w_max_depth w) (w_depth w + 1)\<rparr>)))"
    and "w_depth w + 1 \<le> m"
  shows "walk_container (Suc n) cfg obj w = (Inr (), wk_adv l (tally (1 + c) (e + k) m w))"
proof -
  let ?w = "w\<lparr>w_containers := w_containers w + 1, w_depth := w_depth w + 1,
      w_max_depth := max (w_max_depth w) (w_depth w + 1)\<rparr>"
  have m: "(if w_max_depth w < Suc (w_depth w) then Suc (w_depth w) else w_max_depth w) =
      max (w_max_depth w) (Suc (w_depth w))" by auto
  have "walk_container (Suc n) cfg obj w = sbind (walk_entries n cfg obj 0) (\<lambda>count.
     smod (\<lambda>w. w\<lparr>w_elements := w_elements w + count, w_depth := w_depth w - 1\<rparr>)) ?w"
    using assms(1) by (simp add: m del: walk_entries.simps)
  also have "\<dots> = (Inr (), (\<lambda>w. w\<lparr>w_elements := w_elements w + k, w_depth := w_depth w - 1\<rparr>)
      (wk_adv l (tally c e m ?w)))"
    by (simp only: sbind_ok[of "walk_entries n cfg obj 0", OF assms(2)] sop_simps)
  also have "\<dots> = (Inr (), wk_adv l (tally (1 + c) (e + k) m w))"
  proof -
    have "max (max (w_max_depth w) (Suc (w_depth w))) m = max (w_max_depth w) m"
      using assms(3) by simp
    then show ?thesis by (simp add: tally_def wk_adv_def add.assoc)
  qed
  finally show ?thesis .
qed

lemma walk_scalar_tally:
  assumes "varint_profile cfg" and "wk.starts cfg w (wire cfg v)" and "strings_ok v"
    and "w_depth w \<le> w_max_depth w" and "3 * length (wire cfg v) \<le> n"
    and "token_bytes cfg v = wire cfg v" and "token_of v \<noteq> TBeginArray \<and> token_of v \<noteq> TBeginObject"
  shows "walk_value n cfg w = (Inr (), wk_adv (length (wire cfg v))
     (tally (containers v) (entries v) (w_depth w + height v) w))"
proof -
  obtain m where "n = Suc m" using assms(5) wire_nonempty[of cfg v] by (cases n) auto
  moreover have "tally (containers v) (entries v) (w_depth w + height v) w = w"
    using assms(4,7) by (cases v) (simp_all add: tally_0)
  ultimately show ?thesis using walk_scalar[OF assms(1,3,6,7,2)] by simp
qed

lemma walk_wire:
  assumes vp: "varint_profile cfg"
  shows "wk.starts cfg w (wire cfg v) \<Longrightarrow> strings_ok v \<Longrightarrow> admissible True (c_collection_limit cfg) v \<Longrightarrow>
      height v = 0 \<or> w_depth w + height v \<le> c_depth_limit cfg \<Longrightarrow> w_depth w \<le> w_max_depth w \<Longrightarrow>
      3 * length (wire cfg v) \<le> n \<Longrightarrow>
      walk_value n cfg w = (Inr (), wk_adv (length (wire cfg v))
        (tally (containers v) (entries v) (w_depth w + height v) w))"
    and "wk.starts cfg w (wire_elems cfg vs @ [TAG_END]) \<Longrightarrow> strings_ok_elems vs \<Longrightarrow>
      admissible_elems True (c_collection_limit cfg) vs \<Longrightarrow>
      w_depth w + height_elems vs \<le> c_depth_limit cfg \<Longrightarrow> w_depth w \<le> w_max_depth w \<Longrightarrow>
      within (c_collection_limit cfg) (k + length vs) \<Longrightarrow> 3 * length (wire_elems cfg vs) + 1 \<le> n \<Longrightarrow>
      walk_entries n cfg False k w = (Inr (k + length vs), wk_adv (length (wire_elems cfg vs) + 1)
        (tally (containers_elems vs) (entries_elems vs) (w_depth w + height_elems vs) w))"
    and "wk.starts cfg w (wire_fields cfg fs @ [TAG_END]) \<Longrightarrow> strings_ok_fields fs \<Longrightarrow>
      admissible_fields True (c_collection_limit cfg) fs \<Longrightarrow>
      w_depth w + height_fields fs \<le> c_depth_limit cfg \<Longrightarrow> w_depth w \<le> w_max_depth w \<Longrightarrow>
      within (c_collection_limit cfg) (k + length fs) \<Longrightarrow> 3 * length (wire_fields cfg fs) + 1 \<le> n \<Longrightarrow>
      walk_entries n cfg True k w = (Inr (k + length fs), wk_adv (length (wire_fields cfg fs) + 1)
        (tally (containers_fields fs) (entries_fields fs) (w_depth w + height_fields fs) w))"
  using vp
proof (induction cfg v and cfg vs and cfg fs arbitrary: w n and w n k and w n k
    rule: wire_wire_elems_wire_fields.induct)
  case (10 cfg vs)
  then obtain m where n: "n = Suc (Suc m)" "3 * length (wire_elems cfg vs) + 1 \<le> m"
    by (cases n; cases "n - 1") auto
  let ?w = "(wk_adv 1 w)\<lparr>w_containers := w_containers w + 1, w_depth := w_depth w + 1,
      w_max_depth := max (w_max_depth w) (w_depth w + 1)\<rparr>"
  have st: "wk.starts cfg w [TAG_ARRAY]" "wk.starts cfg (wk_adv 1 w) (wire_elems cfg vs @ [TAG_END])"
    using wk.rd_starts_Cons[of cfg w TAG_ARRAY] 10(2) by auto
  have "walk_entries m cfg False 0 ?w = (Inr (0 + length vs), wk_adv (length (wire_elems cfg vs) + 1)
        (tally (containers_elems vs) (entries_elems vs) (w_depth ?w + height_elems vs) ?w))"
    by (rule 10(1)) (use 10 st n in auto)
  then have "walk_container (Suc m) cfg False (wk_adv 1 w) = (Inr (), wk_adv (length (wire_elems cfg vs) + 1)
      (tally (1 + containers_elems vs) (entries_elems vs + length vs) (w_depth ?w + height_elems vs) (wk_adv 1 w)))"
    by (intro walk_container_step) (use 10(5) in auto)
  then show ?case
    using wk.rd_yieldsD[OF wk_yields_byte st(1)] n by (simp add: add.commute tag_defs)
next
  case (11 cfg fs)
  then obtain m where n: "n = Suc (Suc m)" "3 * length (wire_fields cfg fs) + 1 \<le> m"
    by (cases n; cases "n - 1") auto
  let ?w = "(wk_adv 1 w)\<lparr>w_containers := w_containers w + 1, w_depth := w_depth w + 1,
      w_max_depth := max (w_max_depth w) (w_depth w + 1)\<rparr>"
  have st: "wk.starts cfg w [TAG_OBJECT]" "wk.starts cfg (wk_adv 1 w) (wire_fields cfg fs @ [TAG_END])"
    using wk.rd_starts_Cons[of cfg w TAG_OBJECT] 11(2) by auto
  have "walk_entries m cfg True 0 ?w = (Inr (0 + length fs), wk_adv (length (wire_fields cfg fs) + 1)
        (tally (containers_fields fs) (entries_fields fs) (w_depth ?w + height_fields fs) ?w))"
    by (rule 11(1)) (use 11 st n in auto)
  then have "walk_container (Suc m) cfg True (wk_adv 1 w) = (Inr (), wk_adv (length (wire_fields cfg fs) + 1)
      (tally (1 + containers_fields fs) (entries_fields fs + length fs) (w_depth ?w + height_fields fs) (wk_adv 1 w)))"
    by (intro walk_container_step) (use 11(5) in auto)
  then show ?case
    using wk.rd_yieldsD[OF wk_yields_byte st(1)] n by (simp add: add.commute tag_defs)
next
  case (12 cfg)
  then show ?case by (cases n) (auto simp: walk_end tally_0 simp del: walk_entries.simps)
next
  case (13 cfg v vs)
  then obtain m where n: "n = Suc m" by (cases n) auto
  let ?x = "wire cfg v" and ?y = "wire_elems cfg vs"
  let ?w = "wk_adv (length ?x) (tally (containers v) (entries v) (w_depth w + height v) w)"
  have st: "wk.starts cfg w ?x" "wk.starts cfg (wk_adv (length ?x) w) (?y @ [TAG_END])"
    using 13(3) by (simp_all add: wk.rd_starts_append)
  have len: "0 < length ?x" by (rule wire_nonempty)
  obtain b z where b: "?x = b # z" "b \<noteq> TAG_END" using wire_first by blast
  then have peek: "wk_peek w = Inr b" using wk_peek_starts[of cfg w b z] st(1) by simp
  have cl: "within (c_collection_limit cfg) (Suc k)"
    using 13(8) by (rule within_mono) simp
  have v: "walk_value m cfg w = (Inr (), ?w)"
    by (rule 13(1)) (use 13 st n in auto)
  have "3 * length ?y + 1 \<le> m" using 13(9) n len by (simp del: length_greater_0_conv)
  then have "walk_entries m cfg False (Suc k) ?w = (Inr (Suc k + length vs), wk_adv (length ?y + 1)
        (tally (containers_elems vs) (entries_elems vs) (w_depth ?w + height_elems vs) ?w))"
    by (intro 13(2)) (use 13 st in auto)
  then show ?case
    using v peek b(2) cl n by (simp add: check_collection_if add.assoc nat_add_max_right)
next
  case (14 cfg)
  then show ?case by (cases n) (auto simp: walk_end tally_0 simp del: walk_entries.simps)
next
  case (15 cfg key v fs)
  then obtain m where n: "n = Suc m" by (cases n) auto
  let ?s = "str_of cfg key" and ?x = "wire cfg v" and ?y = "wire_fields cfg fs"
  let ?u = "wk_adv (length ?s) w"
  let ?w = "wk_adv (length ?x) (tally (containers v) (entries v) (w_depth ?u + height v) ?u)"
  have st: "wk.starts cfg w ?s" "wk.starts cfg ?u ?x" "wk.starts cfg (wk_adv (length ?x) ?u) (?y @ [TAG_END])"
    using 15(3) by (simp_all add: wk.rd_starts_append)
  have len: "0 < length ?x" "0 < length ?s" using wire_nonempty[of cfg v] by (simp_all add: str_of_def)
  obtain z where z: "?s = TAG_STRING # z" by (simp add: str_of_def)
  have peek: "wk_peek w = Inr TAG_STRING"
    using wk_peek_starts[of cfg w TAG_STRING z] st(1) z by simp
  have key: "wk_key cfg w = (Inr (), ?u)"
    by (rule walk_key[OF 15(10) _ st(1)]) (use 15 in simp)
  have cl: "within (c_collection_limit cfg) (Suc k)"
    using 15(8) by (rule within_mono) simp
  have v: "walk_value m cfg ?u = (Inr (), ?w)"
    by (rule 15(1)) (use 15 st n in auto)
  have "3 * length ?y + 1 \<le> m" using 15 n len by (simp del: length_greater_0_conv)
  then have "walk_entries m cfg True (Suc k) ?w = (Inr (Suc k + length fs), wk_adv (length ?y + 1)
        (tally (containers_fields fs) (entries_fields fs) (w_depth ?w + height_fields fs) ?w))"
    by (intro 15(2)) (use 15 st in auto)
  then show ?case
    using v peek key cl n by (simp add: check_collection_if add.assoc nat_add_max_right tag_defs)
qed (rule walk_scalar_tally, assumption, assumption, assumption, assumption, assumption, simp, simp)+


text \<open>
  C6: on everything the encoder writes in the little-endian varint profiles, the probe's report is
  exact: the number of bytes written, of containers, of entries over all containers, and the
  nesting depth; what follows the value is treated as the trailing policy says. Nothing is
  materialised and no admissible value is refused.
\<close>

theorem probe_exact:
  assumes "reachable_config cfg" and "varint_profile cfg" and "strings_ok v"
    and "to_vec cfg (events lead v) = Inr out" and "admissible True (c_collection_limit cfg) v"
  shows "probe cfg (out @ rest) =
    (if c_trailing cfg = Reject \<and> rest \<noteq> [] then Inl (TrailingBytesError (length rest))
     else Inr \<lparr> p_bytes = length out, p_containers = containers v, p_elements = entries v,
                p_depth = height v \<rparr>)"
proof -
  have o: "out = wire cfg v" "height v \<le> c_depth_limit cfg" "length out \<le> usize_max"
    "within (c_limit cfg) (length out)"
    using to_vec_wire[OF assms(1), of lead v out] assms(4) by auto
  have "wk.starts cfg (walker_new (out @ rest)) (wire cfg v)"
    using o(3,4) unfolding o(1)[symmetric]
    by (cases "c_limit cfg") (auto simp: wk.starts_def wk_rest_def walker_new_def unread_def)
  then have "walk_value (probe_fuel (out @ rest)) cfg (walker_new (out @ rest)) =
      (Inr (), wk_adv (length (wire cfg v)) (tally (containers v) (entries v)
        (w_depth (walker_new (out @ rest)) + height v) (walker_new (out @ rest))))"
    by (rule walk_wire(1)[OF assms(2)])
      (use assms o in \<open>auto simp: walker_new_def probe_fuel_def\<close>)
  then show ?thesis
    unfolding probe_def using o(1) by (simp add: walker_new_def tally_def wk_adv_def)
qed

lemma probe_exact_witness:
  "let v = JObj [([0x6b], JArr [JU64 300, JNull]), ([0x6c], JBool True)] in
   probe standard (wire standard v) = Inr \<lparr> p_bytes = 16, p_containers = 2, p_elements = 4, p_depth = 2 \<rparr>"
proof -
  let ?v = "JObj [([0x6b], JArr [JU64 300, JNull]), ([0x6c], JBool True)]"
  have t1: "to_vec standard (events True ?v) = Inr (wire standard ?v)" by code_simp
  have t2: "strings_ok ?v" by code_simp
  have t3: "admissible True (c_collection_limit standard) ?v" by code_simp
  have t4: "varint_profile standard" by code_simp
  have t5: "length (wire standard ?v) = 16" by code_simp
  show ?thesis
    using probe_exact[OF reachable_config.standard t4 t2 t1 t3, of "[]"] t5 by simp
qed

section \<open>Any input\<close>

text \<open>A leaf operation never panics and only moves the cursor, within the input and the limit.\<close>

definition leaf_safe :: "config \<Rightarrow> (walker, 'a) op \<Rightarrow> bool" where
  "leaf_safe cfg m \<longleftrightarrow> (\<forall>w r w'. m w = (r, w') \<longrightarrow> (\<forall>p. r \<noteq> Inl (Panic p)) \<and>
     (\<exists>n. w' = wk_adv n w \<and> (n = 0 \<or> w_cursor w + n \<le> length (w_input w) \<and>
        within (c_limit cfg) (w_cursor w + n))))"

lemma leaf_safeD: "leaf_safe cfg m \<Longrightarrow> m w = (r, w') \<Longrightarrow> (\<forall>p. r \<noteq> Inl (Panic p)) \<and>
     (\<exists>n. w' = wk_adv n w \<and> (n = 0 \<or> w_cursor w + n \<le> length (w_input w) \<and>
        within (c_limit cfg) (w_cursor w + n)))"
  by (simp add: leaf_safe_def)

lemma leaf_safe_take [simp]: "leaf_safe cfg (wk_take cfg n)"
proof -
  have "(\<forall>p. r \<noteq> Inl (Panic p)) \<and> (w' = wk_adv 0 w \<or> w' = wk_adv n w \<and>
      w_cursor w + n \<le> length (w_input w) \<and> within (c_limit cfg) (w_cursor w + n))"
    if "wk_take cfg n w = (r, w')" for w r w'
    using that by (auto simp: wk_take_def Let_def check_limit_if wk_adv_def split: if_splits)
  then show ?thesis unfolding leaf_safe_def by blast
qed

lemma leaf_safe_payload [simp]: "leaf_safe cfg (wk_payload cfg m n)"
proof -
  have "(\<forall>p. r \<noteq> Inl (Panic p)) \<and> (w' = wk_adv 0 w \<or> w' = wk_adv n w \<and>
      w_cursor w + n \<le> length (w_input w) \<and> within (c_limit cfg) (w_cursor w + n))"
    if "wk_payload cfg m n w = (r, w')" for w r w'
    using that by (auto simp: wk_payload_def Let_def check_limit_if wk_adv_def slice_eq_Some
        split: if_splits option.splits)
  then show ?thesis unfolding leaf_safe_def by blast
qed

lemma leaf_safe_basic [simp]:
  "leaf_safe cfg (Pair (Inr x))" "leaf_safe cfg (sret x)"
  "(\<And>p. e \<noteq> Panic p) \<Longrightarrow> leaf_safe cfg (sfail e)"
  "leaf_safe cfg (slift (\<lambda>w. Inr (g w)))"
  unfolding leaf_safe_def by (auto intro: exI[of _ 0])

lemma leaf_safe_sbind [simp]:
  assumes "leaf_safe cfg m" and "\<And>x. leaf_safe cfg (f x)"
  shows "leaf_safe cfg (sbind m f)"
  unfolding leaf_safe_def
proof (intro allI impI)
  fix w r w' assume s: "sbind m f w = (r, w')"
  show "(\<forall>p. r \<noteq> Inl (Panic p)) \<and> (\<exists>n. w' = wk_adv n w \<and> (n = 0 \<or>
      w_cursor w + n \<le> length (w_input w) \<and> within (c_limit cfg) (w_cursor w + n)))"
  proof (cases rule: sbind_cases[of m w f])
    case (err e s')
    then have "r = Inl e" "w' = s'" using s by auto
    then show ?thesis
      using leaf_safeD[OF assms(1) err(1)] by simp
  next
    case (ok x s')
    obtain n where n: "s' = wk_adv n w" "n = 0 \<or> w_cursor w + n \<le> length (w_input w) \<and>
        within (c_limit cfg) (w_cursor w + n)"
      using leaf_safeD[OF assms(1) ok(1)] by blast
    have "f x s' = (r, w')" using s ok(2) by simp
    from leaf_safeD[OF assms(2)[of x] this]
    obtain k where k: "w' = wk_adv k s'" "k = 0 \<or> w_cursor s' + k \<le> length (w_input s') \<and>
        within (c_limit cfg) (w_cursor s' + k)" "\<forall>p. r \<noteq> Inl (Panic p)"
      by blast
    show ?thesis
    proof (intro conjI exI)
      show "\<forall>p. r \<noteq> Inl (Panic p)" by (rule k(3))
      show "w' = wk_adv (n + k) w" by (simp add: n(1) k(1))
      show "n + k = 0 \<or> w_cursor w + (n + k) \<le> length (w_input w) \<and>
          within (c_limit cfg) (w_cursor w + (n + k))"
        using n(2) k(2) unfolding n(1) by (cases "k = 0") (simp_all add: add.assoc)
    qed
  qed
qed

lemma leaf_safe_ops [simp]:
  "leaf_safe cfg (wk_byte cfg)" "leaf_safe cfg (wk_varint cfg)" "leaf_safe cfg (wk_number cfg n)"
  "leaf_safe cfg (wk_length cfg)" "leaf_safe cfg (wk_leaf cfg t)" "leaf_safe cfg (wk_key cfg)"
  by (simp_all add: wk_byte_def wk_varint_def wk_number_def wk_length_def wk_leaf_def wk_key_def)


text \<open>
  What a successful walk has done, \<open>k\<close> bytes further on: no more containers and entries than bytes.
\<close>

definition walked :: "config \<Rightarrow> walker \<Rightarrow> walker \<Rightarrow> nat \<Rightarrow> nat \<Rightarrow> bool" where
  "walked cfg w w' c e \<longleftrightarrow> w_input w' = w_input w \<and> w_depth w' = w_depth w \<and>
     w_cursor w < w_cursor w' \<and> w_cursor w' \<le> length (w_input w) \<and>
     within (c_limit cfg) (w_cursor w') \<and>
     w_max_depth w' \<le> max (w_max_depth w) (c_depth_limit cfg) \<and>
     w_containers w' + w_cursor w \<le> w_containers w + c + w_cursor w' \<and>
     w_elements w' + e + w_cursor w \<le> w_elements w + w_cursor w'"

lemma leaf_moves:
  assumes "leaf_safe cfg m" and "m w = (Inr x, w')"
  obtains n where "w' = wk_adv n w" "n = 0 \<or> w_cursor w + n \<le> length (w_input w) \<and>
     within (c_limit cfg) (w_cursor w + n)"
  using assms unfolding leaf_safe_def by blast

lemma wk_take_Inr: "wk_take cfg n w = (Inr u, w') \<Longrightarrow> w' = wk_adv n w \<and>
   w_cursor w + n \<le> length (w_input w) \<and> within (c_limit cfg) (w_cursor w + n)"
  by (auto simp: wk_take_def Let_def check_limit_if wk_adv_def split: if_splits)

lemma wk_byte_Inr: "wk_byte cfg w = (Inr b, w') \<Longrightarrow> w' = wk_adv 1 w \<and>
   w_cursor w + 1 \<le> length (w_input w) \<and> within (c_limit cfg) (w_cursor w + 1)"
  by (auto simp: wk_byte_def sbind_Inr dest: wk_take_Inr)

lemma walk_progress:
  "walk_value n cfg w = (Inr u, w') \<Longrightarrow> walked cfg w w' 0 1"
  "walk_container n cfg obj w = (Inr u, w') \<Longrightarrow> walked cfg w w' 1 0"
  "walk_entries n cfg obj c w = (Inr d, w') \<Longrightarrow> c \<le> d \<and> walked cfg w w' 0 (d - c)"
proof (induction n cfg and n cfg obj and n cfg obj c arbitrary: u w w' and u w w' and d w w'
    rule: walk_value_walk_container_walk_entries.induct)
  case (2 n cfg)
  obtain t w1 where b: "wk_byte cfg w = (Inr t, w1)"
    and r1: "(if t = TAG_ARRAY then walk_container n cfg False
        else if t = TAG_OBJECT then walk_container n cfg True else wk_leaf cfg t) w1 = (Inr u, w')"
    using 2(3) unfolding walk_value.simps sbind_Inr by blast
  note t = wk_byte_Inr[OF b]
  then have r: "(if t = TAG_ARRAY then walk_container n cfg False
        else if t = TAG_OBJECT then walk_container n cfg True else wk_leaf cfg t) (wk_adv 1 w) = (Inr u, w')"
    using r1 by simp
  consider "t = TAG_ARRAY \<or> t = TAG_OBJECT" | "wk_leaf cfg t (wk_adv 1 w) = (Inr u, w')"
    using r by (auto split: if_splits)
  then show ?case
  proof cases
    case 1
    then have "walked cfg (wk_adv 1 w) w' 1 0"
      using r 2(1) 2(2) by (auto split: if_splits)
    then show ?thesis by (auto simp: walked_def)
  next
    case 2
    then obtain m where "w' = wk_adv m (wk_adv 1 w)" "m = 0 \<or> w_cursor w + 1 + m \<le> length (w_input w) \<and>
     within (c_limit cfg) (w_cursor w + 1 + m)"
      by (rule leaf_moves[OF leaf_safe_ops(5)]) simp
    then show ?thesis using t by (auto simp: walked_def)
  qed
next
  case (4 n cfg obj)
  let ?w = "w\<lparr>w_containers := w_containers w + 1, w_depth := w_depth w + 1,
         w_max_depth := (if w_depth w + 1 > w_max_depth w then w_depth w + 1 else w_max_depth w)\<rparr>"
  obtain k w1 where d: "w_depth w < c_depth_limit cfg"
    and k: "walk_entries n cfg obj 0 ?w = (Inr k, w1)"
    and w': "w' = w1\<lparr>w_elements := w_elements w1 + k, w_depth := w_depth w1 - 1\<rparr>"
    using 4(2) unfolding walk_container.simps sbind_Inr slift_def smod_def
    by (simp split: if_splits; elim exE conjE; auto)
  show ?case
    using 4(1)[OF k] d unfolding w' by (auto simp: walked_def max_def split: if_splits)
next
  case (6 n cfg obj c)
  obtain t where t: "wk_peek w = Inr t" and
    r: "(if t = TAG_END then sbind (wk_take cfg 1) (\<lambda>_. sret c)
     else sbind (slift (\<lambda>_. check_collection (c_collection_limit cfg) (c + 1))) (\<lambda>_.
          sbind (if obj then wk_key cfg else sret ()) (\<lambda>_.
          sbind (walk_value n cfg) (\<lambda>_.
          walk_entries n cfg obj (c + 1))))) w = (Inr d, w')"
    using 6(3) unfolding walk_entries.simps sbind_Inr slift_def by blast
  show ?case
  proof (cases "t = TAG_END")
    case True
    then show ?thesis using r wk_take_Inr[of cfg 1 w] by (auto simp: sbind_Inr walked_def)
  next
    case False
    with r obtain w1 w2 where k: "(if obj then wk_key cfg else sret ()) w = (Inr (), w1)"
      and v: "walk_value n cfg w1 = (Inr (), w2)" and e: "walk_entries n cfg obj (c + 1) w2 = (Inr d, w')"
      by (auto simp: sbind_Inr)
    have "leaf_safe cfg (if obj then wk_key cfg else sret ())" by simp
    from leaf_moves[OF this k] obtain m where m: "w1 = wk_adv m w"
      "m = 0 \<or> w_cursor w + m \<le> length (w_input w) \<and> within (c_limit cfg) (w_cursor w + m)" .
    show ?thesis
      using 6(1)[OF False v] 6(2)[OF False e] m(1) by (auto simp: walked_def)
  qed
qed simp_all


text \<open>The fuel: three units for every unread byte, and no operation panics otherwise.\<close>

definition unread_len :: "walker \<Rightarrow> nat" where
  "unread_len w = length (w_input w) - w_cursor w"

lemma leaf_no_panic: "leaf_safe cfg m \<Longrightarrow> fst (m w) \<noteq> Inl (Panic p)"
  by (cases "m w") (auto dest: leaf_safeD)

lemma walk_no_panic:
  "3 * unread_len w + 1 \<le> n \<Longrightarrow> fst (walk_value n cfg w) \<noteq> Inl (Panic p)"
  "3 * unread_len w + 3 \<le> n \<Longrightarrow> fst (walk_container n cfg obj w) \<noteq> Inl (Panic p)"
  "3 * unread_len w + 2 \<le> n \<Longrightarrow> fst (walk_entries n cfg obj c w) \<noteq> Inl (Panic p)"
proof (induction n cfg and n cfg obj and n cfg obj c arbitrary: w and w and w
    rule: walk_value_walk_container_walk_entries.induct)
  case (2 n cfg)
  show ?case
  proof (cases rule: sbind_cases[of "wk_byte cfg" w "\<lambda>tag. if tag = TAG_ARRAY then walk_container n cfg False
      else if tag = TAG_OBJECT then walk_container n cfg True else wk_leaf cfg tag"])
    case (err e s')
    then show ?thesis using leaf_no_panic[of cfg "wk_byte cfg" w p] by simp
  next
    case (ok t w1)
    have "3 * unread_len w1 + 3 \<le> n"
      using wk_byte_Inr[OF ok(1)] 2(3) by (auto simp: unread_len_def)
    then show ?thesis
      using 2(1)[of t w1] 2(2)[of t w1] leaf_no_panic[of cfg "wk_leaf cfg t" w1 p] ok(2)
      by (auto simp del: walk_container.simps)
  qed
next
  case (4 n cfg obj)
  let ?w = "w\<lparr>w_containers := w_containers w + 1, w_depth := w_depth w + 1,
         w_max_depth := (if w_depth w + 1 > w_max_depth w then w_depth w + 1 else w_max_depth w)\<rparr>"
  have e: "fst (walk_entries n cfg obj 0 ?w) \<noteq> Inl (Panic p)"
    using 4(1)[of ?w] 4(2) by (simp add: unread_len_def)
  show ?case
  proof (cases "w_depth w < c_depth_limit cfg")
    case True
    then have "walk_container (Suc n) cfg obj w = sbind (walk_entries n cfg obj 0) (\<lambda>count.
        smod (\<lambda>w. w\<lparr>w_elements := w_elements w + count, w_depth := w_depth w - 1\<rparr>)) ?w"
      by (simp del: walk_entries.simps)
    then show ?thesis using e by (auto simp: sbind_def split: prod.split sum.split)
  next
    case False
    then show ?thesis by simp
  qed
next
  case (6 n cfg obj c)
  show ?case
  proof (cases "wk_peek w")
    case (Inl e)
    then show ?thesis by (auto simp: wk_peek_def split: if_splits)
  next
    case (Inr t)
    let ?k = "if obj then wk_key cfg else sret ()"
    have k: "leaf_safe cfg ?k" by simp
    show ?thesis
    proof (cases "t = TAG_END \<or> \<not> within (c_collection_limit cfg) (c + 1)")
      case True
      then show ?thesis
        using Inr leaf_no_panic[of cfg "wk_take cfg 1" w p]
        by (auto simp: sbind_def check_collection_if split: prod.split sum.split)
    next
      case False
      then have eq: "walk_entries (Suc n) cfg obj c w =
          sbind ?k (\<lambda>_. sbind (walk_value n cfg) (\<lambda>_. walk_entries n cfg obj (c + 1))) w"
        using Inr by (simp add: check_collection_if)
      show ?thesis
      proof (cases rule: sbind_cases[of ?k w "\<lambda>_. sbind (walk_value n cfg) (\<lambda>_. walk_entries n cfg obj (c + 1))"])
        case (err e s')
        then show ?thesis using eq leaf_no_panic[OF k, of w p] by simp
      next
        case (ok u w1)
        obtain m where m: "w1 = wk_adv m w" by (rule leaf_moves[OF k ok(1)])
        then have u: "unread_len w1 \<le> unread_len w" by (simp add: unread_len_def)
        show ?thesis
        proof (cases rule: sbind_cases[of "walk_value n cfg" w1 "\<lambda>_. walk_entries n cfg obj (c + 1)"])
          case (err e s')
          then show ?thesis using eq ok(2) 6(1)[of t w1] False u 6(3) by auto
        next
          case ok2: (ok u2 w2)
          have "unread_len w2 < unread_len w1"
            using walk_progress(1)[OF ok2(1)] by (auto simp: walked_def unread_len_def)
          then show ?thesis using eq ok(2) ok2(2) 6(2)[of t w2] False u 6(3) by auto
        qed
      qed
    qed
  qed
qed simp_all

text \<open>
  C7: the probe is total and bounded on hostile input. Its walk always ends within the fuel it is
  given, whatever the bytes and limits, and never panics. A report names at most the bytes of the
  input and of the byte limit, a depth within the depth limit, and no more containers or entries
  than bytes.
\<close>

theorem probe_bounded:
  "(\<forall>p. probe cfg input \<noteq> Inl (Panic p)) \<and>
   (case probe cfg input of Inl _ \<Rightarrow> True | Inr r \<Rightarrow>
      0 < p_bytes r \<and> p_bytes r \<le> length input \<and> within (c_limit cfg) (p_bytes r) \<and>
      p_depth r \<le> c_depth_limit cfg \<and> p_containers r \<le> p_bytes r \<and> p_elements r < p_bytes r)"
proof -
  obtain res w where rw: "walk_value (probe_fuel input) cfg (walker_new input) = (res, w)"
    by (cases "walk_value (probe_fuel input) cfg (walker_new input)")
  have "fst (walk_value (probe_fuel input) cfg (walker_new input)) \<noteq> Inl (Panic p)" for p
    by (rule walk_no_panic(1)) (simp add: unread_len_def walker_new_def probe_fuel_def)
  then have "res \<noteq> Inl (Panic p)" for p using rw by simp
  moreover have "walked cfg (walker_new input) w 0 1" if "res = Inr u" for u
    using walk_progress(1) rw that by blast
  ultimately show ?thesis
    using rw by (cases res) (auto simp: probe_def walked_def walker_new_def)
qed


section \<open>Where the probe and the decoder disagree\<close>

text \<open>Under fixed-width integers the length of a string is read as zero and its body is left unread.\<close>

lemma probe_misses_fixed_string:
  "to_vec legacy (events True (JStr [0x68])) = Inr [9, 1, 0, 0, 0, 0, 0, 0, 0, 0x68]"
  "probe legacy [9, 1, 0, 0, 0, 0, 0, 0, 0, 0x68] =
     Inr \<lparr> p_bytes = 9, p_containers = 0, p_elements = 0, p_depth = 0 \<rparr>"
  by code_simp+

text \<open>Varints are read little-endian in every profile.\<close>

lemma probe_reads_big_endian_varints_as_little:
  "to_vec (with_big_endian standard) (events True (JU64 0x10000)) = Inr [3, 252, 0, 1, 0, 0]"
  "probe (with_big_endian standard) [3, 252, 0, 1, 0, 0] = Inl NonCanonicalVarint"
  by code_simp+

text \<open>String bytes are not validated and a 64-bit tag may carry a 128-bit number.\<close>

lemma probe_accepts_what_decode_rejects:
  "probe standard [9, 1, 0x80] = Inr \<lparr> p_bytes = 3, p_containers = 0, p_elements = 0, p_depth = 0 \<rparr>"
  "from_slice standard (dec_string standard) [9, 1, 0x80] = Inl InvalidUtf8"
  "rmap p_bytes (probe standard [3, 254, 0,0,0,0, 0,0,0,0, 1,0,0,0, 0,0,0,0]) = Inr 18"
  "from_slice standard (dec_number standard) [3, 254, 0,0,0,0, 0,0,0,0, 1,0,0,0, 0,0,0,0] =
     Inl (IntegerOverflow ''u64'')"
  by code_simp+

end
