(* ===== verification/Compact.thy ===== *)
theory Compact
  imports Decoder Reader
begin

text \<open>
  \<^verbatim>\<open>src/compact.rs\<close>, encoding half: the schema-guided profile. A Rust type with a compact encoding is
  a \<open>cty\<close>, its values are \<open>cval\<close>; \<open>ctyped\<close> says which values a type has. The trait
  \<^verbatim>\<open>EncodeWriter\<close> with its container hooks is the record \<open>ew\<close>; the locale \<open>compact_sink\<close> is what the
  encoders rely on, and the bounded writer over each sink and the bare counter are its instances.
\<close>

section \<open>Types and values\<close>

datatype sty = SUnit | SBool | SU8 | SI8 | SU16 | SU32 | SU64 | SU128 | SI16 | SI32 | SI64 | SI128
  | SF32 | SF64 | SChar | SStr

datatype sval = XUnit | XBool bool | XU8 byte | XI8 byte | XU16 u16 | XU32 u32 | XU64 u64 | XU128 u128
  | XI16 u16 | XI32 u32 | XI64 u64 | XI128 u128 | XF32 u32 | XF64 u64 | XChar u32 | XStr "byte list"

text \<open>
  \<open>CBytes\<close> is the borrowed \<^verbatim>\<open>&[u8]\<close>. A map is the list of its entries in the order it iterates; a
  struct is the tuple of its fields, an enum the list of its variants' payload types.
\<close>

datatype cty = CScalar sty | CBytes | CVec cty | CArray nat cty | CDeque cty | COption cty
  | CMap cty cty | CTuple "cty list" | CEnum "cty list"

datatype cval = VScalar sval | VSeq "cval list" | VArr "cval list" | VOpt "cval option"
  | VMap "(cval \<times> cval) list" | VTuple "cval list" | VEnum u32 cval

text \<open>The scalar values of Rust's \<^verbatim>\<open>char\<close>.\<close>

definition char_ok :: "u32 \<Rightarrow> bool" where
  "char_ok c \<longleftrightarrow> c < 0xD800 \<or> (0xE000 \<le> c \<and> c < 0x110000)"

fun styped :: "sty \<Rightarrow> sval \<Rightarrow> bool" where
  "styped SUnit x = (x = XUnit)"
| "styped SBool x = (case x of XBool _ \<Rightarrow> True | _ \<Rightarrow> False)"
| "styped SU8 x = (case x of XU8 _ \<Rightarrow> True | _ \<Rightarrow> False)"
| "styped SI8 x = (case x of XI8 _ \<Rightarrow> True | _ \<Rightarrow> False)"
| "styped SU16 x = (case x of XU16 _ \<Rightarrow> True | _ \<Rightarrow> False)"
| "styped SU32 x = (case x of XU32 _ \<Rightarrow> True | _ \<Rightarrow> False)"
| "styped SU64 x = (case x of XU64 _ \<Rightarrow> True | _ \<Rightarrow> False)"
| "styped SU128 x = (case x of XU128 _ \<Rightarrow> True | _ \<Rightarrow> False)"
| "styped SI16 x = (case x of XI16 _ \<Rightarrow> True | _ \<Rightarrow> False)"
| "styped SI32 x = (case x of XI32 _ \<Rightarrow> True | _ \<Rightarrow> False)"
| "styped SI64 x = (case x of XI64 _ \<Rightarrow> True | _ \<Rightarrow> False)"
| "styped SI128 x = (case x of XI128 _ \<Rightarrow> True | _ \<Rightarrow> False)"
| "styped SF32 x = (case x of XF32 _ \<Rightarrow> True | _ \<Rightarrow> False)"
| "styped SF64 x = (case x of XF64 _ \<Rightarrow> True | _ \<Rightarrow> False)"
| "styped SChar x = (case x of XChar c \<Rightarrow> char_ok c | _ \<Rightarrow> False)"
| "styped SStr x = (case x of XStr s \<Rightarrow> utf8_valid s \<and> length s \<le> usize_max | _ \<Rightarrow> False)"

function (sequential) ctyped :: "cty \<Rightarrow> cval \<Rightarrow> bool"
  and ctyped_all :: "cty \<Rightarrow> cval list \<Rightarrow> bool"
  and ctyped_map :: "cty \<Rightarrow> cty \<Rightarrow> (cval \<times> cval) list \<Rightarrow> bool"
  and ctyped_tuple :: "cty list \<Rightarrow> cval list \<Rightarrow> bool" where
  "ctyped (CScalar s) v = (case v of VScalar x \<Rightarrow> styped s x | _ \<Rightarrow> False)"
| "ctyped CBytes v = (case v of VSeq vs \<Rightarrow> ctyped_all (CScalar SU8) vs \<and> length vs \<le> usize_max | _ \<Rightarrow> False)"
| "ctyped (CVec t) v = (case v of VSeq vs \<Rightarrow> ctyped_all t vs \<and> length vs \<le> usize_max | _ \<Rightarrow> False)"
| "ctyped (CArray n t) v = (case v of VArr vs \<Rightarrow> ctyped_all t vs \<and> length vs = n | _ \<Rightarrow> False)"
| "ctyped (CDeque t) v = (case v of VSeq vs \<Rightarrow> ctyped_all t vs \<and> length vs \<le> usize_max | _ \<Rightarrow> False)"
| "ctyped (COption t) v = (case v of VOpt None \<Rightarrow> True | VOpt (Some x) \<Rightarrow> ctyped t x | _ \<Rightarrow> False)"
| "ctyped (CMap k t) v = (case v of VMap kvs \<Rightarrow>
     ctyped_map k t kvs \<and> distinct (map fst kvs) \<and> length kvs \<le> usize_max | _ \<Rightarrow> False)"
| "ctyped (CTuple ts) v = (case v of VTuple vs \<Rightarrow> ctyped_tuple ts vs | _ \<Rightarrow> False)"
| "ctyped (CEnum ts) v = (case v of VEnum i x \<Rightarrow>
     (if unat i < length ts then ctyped (ts ! unat i) x else False) | _ \<Rightarrow> False)"
| "ctyped_all t [] = True"
| "ctyped_all t (v # vs) = (ctyped t v \<and> ctyped_all t vs)"
| "ctyped_map k t [] = True"
| "ctyped_map k t ((a, b) # kvs) = (ctyped k a \<and> ctyped t b \<and> ctyped_map k t kvs)"
| "ctyped_tuple [] vs = (vs = [])"
| "ctyped_tuple (t # ts) vs = (case vs of v # ws \<Rightarrow> ctyped t v \<and> ctyped_tuple ts ws | [] \<Rightarrow> False)"
  by pat_completeness auto

text \<open>Every call is on a part of the value.\<close>

abbreviation entries_size :: "(cval \<times> cval) list \<Rightarrow> nat" where
  "entries_size kvs \<equiv> size_list (size_prod size size) kvs"

termination ctyped
  by (relation "measure (\<lambda>x. case x of
        Inl (Inl (t, v)) \<Rightarrow> size v | Inl (Inr (t, vs)) \<Rightarrow> size_list size vs
      | Inr (Inl (k, t, kvs)) \<Rightarrow> entries_size kvs | Inr (Inr (ts, vs)) \<Rightarrow> size_list size vs)")
    auto

section \<open>Writers\<close>

text \<open>The trait \<^verbatim>\<open>EncodeWriter\<close>; plain sinks keep its default container hooks.\<close>

record 'w ew =
  ew_write :: "byte list \<Rightarrow> ('w, unit) op"
  ew_enter :: "('w, unit) op"
  ew_exit :: "('w, unit) op"

definition plain :: "(byte list \<Rightarrow> ('w, unit) op) \<Rightarrow> 'w ew" where
  "plain wr = \<lparr> ew_write = wr, ew_enter = sret (), ew_exit = sret () \<rparr>"

record 'w bounded_writer =
  bw_inner :: 'w
  bw_limit :: "nat option"
  bw_depth_limit :: nat
  bw_written :: nat
  bw_depth :: nat

definition bw_new :: "'w \<Rightarrow> config \<Rightarrow> 'w bounded_writer" where
  "bw_new inner cfg = \<lparr> bw_inner = inner, bw_limit = c_limit cfg, bw_depth_limit = c_depth_limit cfg,
     bw_written = 0, bw_depth = 0 \<rparr>"

definition bw_write_all :: "(byte list \<Rightarrow> ('w, unit) op) \<Rightarrow> byte list \<Rightarrow> ('w bounded_writer, unit) op" where
  "bw_write_all wr bytes w =
    (if length bytes > usize_max then (Inl (IntegerOverflow ''u64''), w)
     else let next = bw_written w + length bytes in
       if next > usize_max then (Inl (SizeLimit usize_max), w)
       else case check_limit (bw_limit w) next of
           Inl err \<Rightarrow> (Inl err, w)
         | Inr _ \<Rightarrow>
           (case wr bytes (bw_inner w) of
              (Inl err, i) \<Rightarrow> (Inl err, w\<lparr>bw_inner := i\<rparr>)
            | (Inr _, i) \<Rightarrow> (Inr (), w\<lparr>bw_inner := i, bw_written := next\<rparr>)))"

definition bw_enter :: "('w bounded_writer, unit) op" where
  "bw_enter w =
    (if bw_depth w \<ge> bw_depth_limit w
     then (Inl (Custom ''compact encode nesting depth limit exceeded''), w)
     else (Inr (), w\<lparr>bw_depth := bw_depth w + 1\<rparr>))"

definition bw_exit :: "('w bounded_writer, unit) op" where
  "bw_exit w = (if bw_depth w = 0 then (Inl (Panic ''attempt to subtract with overflow''), w)
     else (Inr (), w\<lparr>bw_depth := bw_depth w - 1\<rparr>))"

definition bounded :: "(byte list \<Rightarrow> ('w, unit) op) \<Rightarrow> 'w bounded_writer ew" where
  "bounded wr = \<lparr> ew_write = bw_write_all wr, ew_enter = bw_enter, ew_exit = bw_exit \<rparr>"

text \<open>
  \<^verbatim>\<open>enter()?; let outcome = body; exit(); outcome\<close>: the container is left on the error path too.
\<close>

definition bracketed :: "('s, unit) op \<Rightarrow> ('s, unit) op \<Rightarrow> ('s, 'a) op \<Rightarrow> ('s, 'a) op" where
  "bracketed enter exit body = sbind enter (\<lambda>_ s.
     let (outcome, s1) = body s in
     case exit s1 of (Inl p, s2) \<Rightarrow> (Inl p, s2) | (Inr _, s2) \<Rightarrow> (outcome, s2))"

section \<open>Encoding primitives\<close>

definition encode_varint :: "'w ew \<Rightarrow> u64 \<Rightarrow> ('w, unit) op" where
  "encode_varint W value = (let (bytes, len) = encode_varint_le (ucast value) in ew_write W (take len bytes))"

definition encode_varint_u128 :: "'w ew \<Rightarrow> u128 \<Rightarrow> ('w, unit) op" where
  "encode_varint_u128 W value = (let (bytes, len) = encode_varint_le value in ew_write W (take len bytes))"

definition encode_zigzag :: "'w ew \<Rightarrow> u64 \<Rightarrow> ('w, unit) op" where
  "encode_zigzag W value = encode_varint_u128 W (zigzag_encode (scast value))"

definition encode_zigzag_i128 :: "'w ew \<Rightarrow> u128 \<Rightarrow> ('w, unit) op" where
  "encode_zigzag_i128 W value = encode_varint_u128 W (zigzag_encode value)"

definition encode_bool :: "'w ew \<Rightarrow> bool \<Rightarrow> ('w, unit) op" where
  "encode_bool W value = ew_write W [if value then 1 else 0]"

definition encode_length :: "'w ew \<Rightarrow> nat \<Rightarrow> ('w, unit) op" where
  "encode_length W len =
    (if len > usize_max then sfail (IntegerOverflow ''u64'') else encode_varint W (of_nat len))"

definition encode_bytes :: "'w ew \<Rightarrow> byte list \<Rightarrow> ('w, unit) op" where
  "encode_bytes W bytes = sbind (encode_length W (length bytes)) (\<lambda>_. ew_write W bytes)"

definition encode_variant_index :: "'w ew \<Rightarrow> u32 \<Rightarrow> ('w, unit) op" where
  "encode_variant_index W index = encode_varint W (ucast index)"

text \<open>Indexing past the buffer's end is a panic.\<close>

definition write_varint_into :: "byte list \<Rightarrow> u64 \<Rightarrow> error + (byte list \<times> nat)" where
  "write_varint_into buffer value =
    (let bytes =
       (if value \<le> 250 then [ucast value]
        else if value \<le> 0xffff then MARKER_U16 # to_le_bytes (ucast value :: u16)
        else if value \<le> 0xffffffff then MARKER_U32 # to_le_bytes (ucast value :: u32)
        else MARKER_U64 # to_le_bytes value)
     in if length bytes > length buffer then Inl (Panic ''index out of bounds'')
        else Inr (bytes @ drop (length bytes) buffer, length bytes))"

primrec varints_loop :: "'w ew \<Rightarrow> u64 list \<Rightarrow> byte list \<Rightarrow> nat \<Rightarrow> ('w, unit) op" where
  "varints_loop W [] buffer used = (if used > 0 then ew_write W (take used buffer) else sret ())"
| "varints_loop W (value # values) buffer used =
     sbind (if used + 17 > length buffer
            then sbind (ew_write W (take used buffer)) (\<lambda>_. sret 0) else sret used) (\<lambda>used.
     case write_varint_into (drop used buffer) value of
       Inl e \<Rightarrow> sfail e
     | Inr (tail, n) \<Rightarrow> varints_loop W values (take used buffer @ tail) (used + n))"

definition encode_varints_bulk :: "'w ew \<Rightarrow> u64 list \<Rightarrow> ('w, unit) op" where
  "encode_varints_bulk W values = varints_loop W values (replicate 64 0) 0"

definition write_f64_slice_le :: "'w ew \<Rightarrow> u64 list \<Rightarrow> ('w, unit) op" where
  "write_f64_slice_le W values =
    (if length values * 8 > usize_max then sfail (IntegerOverflow ''usize'')
     else ew_write W (concat (map to_le_bytes values)))"

definition write_f32_slice_le :: "'w ew \<Rightarrow> u32 list \<Rightarrow> ('w, unit) op" where
  "write_f32_slice_le W values =
    (if length values * 4 > usize_max then sfail (IntegerOverflow ''usize'')
     else ew_write W (concat (map to_le_bytes values)))"

section \<open>Scalars\<close>

definition untyped :: "('s, 'a) op" where
  "untyped = sfail (Custom ''no value of this type'')"

fun encode_scalar :: "'w ew \<Rightarrow> sval \<Rightarrow> ('w, unit) op" where
  "encode_scalar W XUnit = sret ()"
| "encode_scalar W (XBool b) = encode_bool W b"
| "encode_scalar W (XU8 b) = ew_write W [b]"
| "encode_scalar W (XI8 b) = ew_write W [b]"
| "encode_scalar W (XU16 v) = encode_varint W (ucast v)"
| "encode_scalar W (XU32 v) = encode_varint W (ucast v)"
| "encode_scalar W (XU64 v) = encode_varint W v"
| "encode_scalar W (XU128 v) = encode_varint_u128 W v"
| "encode_scalar W (XI16 v) = encode_zigzag W (scast v)"
| "encode_scalar W (XI32 v) = encode_zigzag W (scast v)"
| "encode_scalar W (XI64 v) = encode_zigzag W v"
| "encode_scalar W (XI128 v) = encode_zigzag_i128 W v"
| "encode_scalar W (XF32 v) = ew_write W (to_le_bytes v)"
| "encode_scalar W (XF64 v) = ew_write W (to_le_bytes v)"
| "encode_scalar W (XChar c) = encode_varint W (ucast c)"
| "encode_scalar W (XStr s) = encode_bytes W s"

text \<open>
  The fast paths of \<^verbatim>\<open>encode_elements\<close>: \<open>\<^verbatim>\<open>__type_equal\<close>\<close> and the reinterpreting casts are the
  case split on the element type and the projections below.
\<close>

definition as_byte :: "cval \<Rightarrow> byte" where
  "as_byte v = (case v of VScalar (XU8 b) \<Rightarrow> b | VScalar (XI8 b) \<Rightarrow> b | _ \<Rightarrow> 0)"

definition as_f64 :: "cval \<Rightarrow> u64" where
  "as_f64 v = (case v of VScalar (XF64 b) \<Rightarrow> b | _ \<Rightarrow> 0)"

definition as_f32 :: "cval \<Rightarrow> u32" where
  "as_f32 v = (case v of VScalar (XF32 b) \<Rightarrow> b | _ \<Rightarrow> 0)"

definition as_varint :: "cval \<Rightarrow> u64" where
  "as_varint v = (case v of
      VScalar (XU64 n) \<Rightarrow> n
    | VScalar (XI64 n) \<Rightarrow> ucast (zigzag_encode (scast n))
    | VScalar (XU32 n) \<Rightarrow> ucast n
    | VScalar (XI32 n) \<Rightarrow> ucast (zigzag_encode (scast n))
    | VScalar (XU16 n) \<Rightarrow> ucast n
    | VScalar (XI16 n) \<Rightarrow> ucast (zigzag_encode (scast n))
    | _ \<Rightarrow> 0)"

fun encode_bulk :: "'w ew \<Rightarrow> cty \<Rightarrow> cval list \<Rightarrow> ('w, unit) op option" where
  "encode_bulk W (CScalar s) vs =
    (if s \<in> {SU8, SI8} then Some (ew_write W (map as_byte vs))
     else if s = SF64 then Some (write_f64_slice_le W (map as_f64 vs))
     else if s = SF32 then Some (write_f32_slice_le W (map as_f32 vs))
     else if s \<in> {SU64, SI64, SU32, SI32, SU16, SI16}
       then Some (encode_varints_bulk W (map as_varint vs))
     else None)"
| "encode_bulk W _ vs = None"

section \<open>\<^verbatim>\<open>encode_compact\<close>\<close>

text \<open>
  \<open>wrap\<close> is where the ring buffer of a \<^verbatim>\<open>VecDeque\<close> wraps around: the length of the first of its two
  \<^verbatim>\<open>as_slices\<close>.
\<close>

function (sequential) encode_compact :: "(cval list \<Rightarrow> nat) \<Rightarrow> 'w ew \<Rightarrow> cty \<Rightarrow> cval \<Rightarrow> ('w, unit) op"
  and encode_elements :: "(cval list \<Rightarrow> nat) \<Rightarrow> 'w ew \<Rightarrow> cty \<Rightarrow> cval list \<Rightarrow> ('w, unit) op"
  and encode_each :: "(cval list \<Rightarrow> nat) \<Rightarrow> 'w ew \<Rightarrow> cty \<Rightarrow> cval list \<Rightarrow> ('w, unit) op"
  and encode_map :: "(cval list \<Rightarrow> nat) \<Rightarrow> 'w ew \<Rightarrow> cty \<Rightarrow> cty \<Rightarrow> (cval \<times> cval) list \<Rightarrow> ('w, unit) op"
  and encode_tuple :: "(cval list \<Rightarrow> nat) \<Rightarrow> 'w ew \<Rightarrow> cty list \<Rightarrow> cval list \<Rightarrow> ('w, unit) op" where
  "encode_compact wrap W (CScalar s) v = (case v of VScalar x \<Rightarrow> encode_scalar W x | _ \<Rightarrow> untyped)"
| "encode_compact wrap W CBytes v = (case v of
     VSeq vs \<Rightarrow> sbind (encode_length W (length vs)) (\<lambda>_.
       bracketed (ew_enter W) (ew_exit W) (encode_elements wrap W (CScalar SU8) vs)) | _ \<Rightarrow> untyped)"
| "encode_compact wrap W (CVec t) v = (case v of
     VSeq vs \<Rightarrow> sbind (encode_length W (length vs)) (\<lambda>_.
       bracketed (ew_enter W) (ew_exit W) (encode_elements wrap W t vs)) | _ \<Rightarrow> untyped)"
| "encode_compact wrap W (CArray n t) v = (case v of
     VArr vs \<Rightarrow> encode_elements wrap W t vs | _ \<Rightarrow> untyped)"
| "encode_compact wrap W (CDeque t) v = (case v of
     VSeq vs \<Rightarrow> sbind (encode_length W (length vs)) (\<lambda>_.
       bracketed (ew_enter W) (ew_exit W)
         (sbind (encode_elements wrap W t (take (wrap vs) vs)) (\<lambda>_.
          encode_elements wrap W t (drop (wrap vs) vs)))) | _ \<Rightarrow> untyped)"
| "encode_compact wrap W (COption t) v = (case v of
     VOpt None \<Rightarrow> encode_bool W False
   | VOpt (Some x) \<Rightarrow> sbind (encode_bool W True) (\<lambda>_. encode_compact wrap W t x) | _ \<Rightarrow> untyped)"
| "encode_compact wrap W (CMap k t) v = (case v of
     VMap kvs \<Rightarrow> sbind (encode_length W (length kvs)) (\<lambda>_.
       bracketed (ew_enter W) (ew_exit W) (encode_map wrap W k t kvs)) | _ \<Rightarrow> untyped)"
| "encode_compact wrap W (CTuple ts) v = (case v of
     VTuple vs \<Rightarrow> encode_tuple wrap W ts vs | _ \<Rightarrow> untyped)"
| "encode_compact wrap W (CEnum ts) v = (case v of
     VEnum i x \<Rightarrow> if unat i < length ts
       then sbind (encode_variant_index W i) (\<lambda>_. encode_compact wrap W (ts ! unat i) x) else untyped
   | _ \<Rightarrow> untyped)"
| "encode_elements wrap W t vs = (case encode_bulk W t vs of Some m \<Rightarrow> m | None \<Rightarrow> encode_each wrap W t vs)"
| "encode_each wrap W t [] = sret ()"
| "encode_each wrap W t (v # vs) = sbind (encode_compact wrap W t v) (\<lambda>_. encode_each wrap W t vs)"
| "encode_map wrap W k t [] = sret ()"
| "encode_map wrap W k t ((a, b) # kvs) = sbind (encode_compact wrap W k a) (\<lambda>_.
     sbind (encode_compact wrap W t b) (\<lambda>_. encode_map wrap W k t kvs))"
| "encode_tuple wrap W [] vs = (case vs of [] \<Rightarrow> sret () | _ \<Rightarrow> untyped)"
| "encode_tuple wrap W (t # ts) vs = (case vs of
     v # ws \<Rightarrow> sbind (encode_compact wrap W t v) (\<lambda>_. encode_tuple wrap W ts ws) | [] \<Rightarrow> untyped)"
  by pat_completeness auto

lemma size_list_split: "size_list f (take n xs) + size_list f (drop n xs) = size_list f xs"
proof (induction xs arbitrary: n)
  case Nil
  then show ?case by simp
next
  case (Cons x xs)
  show ?case using Cons[of "n - 1"] by (cases n) simp_all
qed

lemma size_list_take_drop:
  "size_list f (take n xs) \<le> size_list f xs" "size_list f (drop n xs) \<le> size_list f xs"
  using size_list_split[of f n xs] by simp_all

termination encode_compact
  by (relation "measure (\<lambda>x. case x of
        Inl (Inl (wrap, W, t, v)) \<Rightarrow> 2 * size v
      | Inl (Inr (wrap, W, t, vs)) \<Rightarrow> 2 * size_list size vs + 1
      | Inr (Inl (wrap, W, t, vs)) \<Rightarrow> 2 * size_list size vs
      | Inr (Inr (Inl (wrap, W, k, t, kvs))) \<Rightarrow> 2 * entries_size kvs
      | Inr (Inr (Inr (wrap, W, ts, vs))) \<Rightarrow> 2 * size_list size vs)")
    (auto simp: le_imp_less_Suc size_list_take_drop)

section \<open>Entry points\<close>

definition compact_serialize :: "(cval list \<Rightarrow> nat) \<Rightarrow> config \<Rightarrow> cty \<Rightarrow> cval \<Rightarrow> error + byte list" where
  "compact_serialize wrap cfg t v =
    (let (r, w) = encode_compact wrap (bounded vec_write_all) t v (bw_new [] cfg)
     in rmap (\<lambda>_. bw_inner w) r)"

definition compact_serialize_into_slice ::
  "(cval list \<Rightarrow> nat) \<Rightarrow> config \<Rightarrow> byte list \<Rightarrow> cty \<Rightarrow> cval \<Rightarrow> (error + nat) \<times> byte list" where
  "compact_serialize_into_slice wrap cfg output t v =
    (let (r, w) = encode_compact wrap (bounded slice_write_all) t v (bw_new (slice_new output) cfg)
     in (rbind r (\<lambda>_. slice_finish (bw_inner w)), sw_output (bw_inner w)))"

definition compact_serialized_size :: "(cval list \<Rightarrow> nat) \<Rightarrow> cty \<Rightarrow> cval \<Rightarrow> error + nat" where
  "compact_serialized_size wrap t v =
    (let (r, w) = encode_compact wrap (plain count_write_all) t v count_new
     in rmap (\<lambda>_. cw_written w) r)"

section \<open>Wire form\<close>

lemma size_prod_measure [measure_function]:
  "is_measure f \<Longrightarrow> is_measure g \<Longrightarrow> is_measure (size_prod f g)"
  by (rule is_measure_trivial)

text \<open>What every value becomes, whatever the writer and the fast path.\<close>

fun swire :: "sval \<Rightarrow> byte list" where
  "swire XUnit = []"
| "swire (XBool b) = [if b then 1 else 0]"
| "swire (XU8 b) = [b]"
| "swire (XI8 b) = [b]"
| "swire (XU16 v) = varint_bytes (ucast v)"
| "swire (XU32 v) = varint_bytes (ucast v)"
| "swire (XU64 v) = varint_bytes (ucast v)"
| "swire (XU128 v) = varint_bytes v"
| "swire (XI16 v) = varint_bytes (zigzag_encode (scast v))"
| "swire (XI32 v) = varint_bytes (zigzag_encode (scast v))"
| "swire (XI64 v) = varint_bytes (zigzag_encode (scast v))"
| "swire (XI128 v) = varint_bytes (zigzag_encode v)"
| "swire (XF32 v) = to_le_bytes v"
| "swire (XF64 v) = to_le_bytes v"
| "swire (XChar c) = varint_bytes (ucast c)"
| "swire (XStr s) = varint_bytes (of_nat (length s)) @ s"

fun cwire :: "cval \<Rightarrow> byte list"
  and cwire_all :: "cval list \<Rightarrow> byte list"
  and cwire_map :: "(cval \<times> cval) list \<Rightarrow> byte list" where
  "cwire (VScalar x) = swire x"
| "cwire (VSeq vs) = varint_bytes (of_nat (length vs)) @ cwire_all vs"
| "cwire (VArr vs) = cwire_all vs"
| "cwire (VOpt None) = [0]"
| "cwire (VOpt (Some v)) = 1 # cwire v"
| "cwire (VMap kvs) = varint_bytes (of_nat (length kvs)) @ cwire_map kvs"
| "cwire (VTuple vs) = cwire_all vs"
| "cwire (VEnum i v) = varint_bytes (ucast i) @ cwire v"
| "cwire_all [] = []"
| "cwire_all (v # vs) = cwire v @ cwire_all vs"
| "cwire_map [] = []"
| "cwire_map ((a, b) # kvs) = cwire a @ cwire b @ cwire_map kvs"

text \<open>How many length-prefixed containers nest.\<close>

fun cheight :: "cval \<Rightarrow> nat"
  and cheight_all :: "cval list \<Rightarrow> nat"
  and cheight_map :: "(cval \<times> cval) list \<Rightarrow> nat" where
  "cheight (VScalar x) = 0"
| "cheight (VSeq vs) = Suc (cheight_all vs)"
| "cheight (VArr vs) = cheight_all vs"
| "cheight (VOpt None) = 0"
| "cheight (VOpt (Some v)) = cheight v"
| "cheight (VMap kvs) = Suc (cheight_map kvs)"
| "cheight (VTuple vs) = cheight_all vs"
| "cheight (VEnum i v) = cheight v"
| "cheight_all [] = 0"
| "cheight_all (v # vs) = max (cheight v) (cheight_all vs)"
| "cheight_map [] = 0"
| "cheight_map ((a, b) # kvs) = max (cheight a) (max (cheight b) (cheight_map kvs))"

lemma ucast_ucast_up:
  "LENGTH('a) \<le> LENGTH('b) \<Longrightarrow>
   (ucast (ucast (v :: 'a::len word) :: 'b::len word) :: 'c::len word) = ucast v"
  by (rule bit_word_eqI) (auto simp: bit_unsigned_iff dest: bit_imp_le_length)

lemma scast_scast_up:
  "LENGTH('a) \<le> LENGTH('b) \<Longrightarrow>
   (scast (scast (v :: 'a::len word) :: 'b::len word) :: 'c::len word) = scast v"
  by transfer (simp add: signed_take_bit_signed_take_bit min_def take_bit_signed_take_bit)
lemma cwire_all_append: "cwire_all (xs @ ys) = cwire_all xs @ cwire_all ys"
  by (induction xs) simp_all

lemma cwire_all_concat: "cwire_all vs = concat (map cwire vs)"
  by (induction vs) simp_all

lemma cheight_all_append: "cheight_all (xs @ ys) = max (cheight_all xs) (cheight_all ys)"
  by (induction xs) simp_all

lemma ctyped_all_iff: "ctyped_all t vs \<longleftrightarrow> (\<forall>v\<in>set vs. ctyped t v)"
  by (induction vs) simp_all

lemma length_varint_u64: "length (varint_bytes (ucast (v :: u64))) \<le> 9"
  using unsigned_less[of v, where ?'a = nat]
  by (simp add: varint_bytes_nat Let_def unat_ucast_id)

text \<open>\<^verbatim>\<open>write_varint_into\<close> mirrors the shared varint encoder.\<close>

lemma write_varint_into_eq:
  assumes "17 \<le> length b"
  shows "write_varint_into b v = Inr (varint_bytes (ucast v) @ drop (length (varint_bytes (ucast v))) b,
    length (varint_bytes (ucast v)))"
proof -
  have n: "unat v < 2 ^ 64" using unsigned_less[of v, where ?'a = nat] by simp
  have "(if v \<le> 250 then [ucast v]
        else if v \<le> 0xffff then MARKER_U16 # to_le_bytes (ucast v :: u16)
        else if v \<le> 0xffffffff then MARKER_U32 # to_le_bytes (ucast v :: u32)
        else MARKER_U64 # to_le_bytes v) = varint_bytes (ucast v)"
    using n by (simp add: varint_bytes_nat Let_def unat_ucast_id to_le_bytes_def word_le_nat_alt)
  then show ?thesis
    using assms length_varint_u64[of v] by (simp add: write_varint_into_def Let_def)
qed

section \<open>The writers' contract\<close>

definition proper :: "error \<Rightarrow> bool" where
  "proper e \<longleftrightarrow> (case e of Panic _ \<Rightarrow> False | _ \<Rightarrow> True)"

lemma proper_simps [simp]:
  "proper (SizeLimit n)" "proper (Custom s)" "proper (IntegerOverflow s)" "proper UnexpectedEnd"
  "proper (CollectionLimit n)" "\<not> proper (Panic s)" "proper InvalidUtf8" "proper InvalidChar"
  "proper (InvalidBool b)" "proper NonCanonicalVarint" "proper (InvalidVarintMarker b)"
  "proper (TrailingBytesError n)" "proper (BufferTooSmall n m)"
  by (simp_all add: proper_def)

text \<open>
  \<open>holds d w out\<close>: \<open>w\<close> is the writer at nesting depth \<open>d\<close> after the bytes \<open>out\<close>. It takes a write as
  long as the total is \<open>room\<close>, and a container as long as its depth is \<open>deep\<close>.
\<close>

locale compact_sink =
  fixes W :: "'w ew"
    and holds :: "nat \<Rightarrow> 'w \<Rightarrow> byte list \<Rightarrow> bool"
    and room :: "nat \<Rightarrow> bool"
    and deep :: "nat \<Rightarrow> bool"
  assumes room_mono: "i \<le> n \<Longrightarrow> room n \<Longrightarrow> room i"
    and room_usize: "room n \<Longrightarrow> n \<le> usize_max"
    and deep_mono: "c \<le> d \<Longrightarrow> deep d \<Longrightarrow> deep c"
    and holds_room: "holds d w out \<Longrightarrow> room (length out)"
    and write_room: "holds d w out \<Longrightarrow> room (length out + length x) \<Longrightarrow>
      \<exists>w'. ew_write W x w = (Inr (), w') \<and> holds d w' (out @ x)"
    and write_full: "holds d w out \<Longrightarrow> \<not> room (length out + length x) \<Longrightarrow>
      \<exists>e w'. ew_write W x w = (Inl e, w') \<and> proper e \<and> holds d w' out"
    and enter_deep: "holds d w out \<Longrightarrow> deep d \<Longrightarrow> \<exists>w'. ew_enter W w = (Inr (), w') \<and> holds (Suc d) w' out"
    and enter_full: "holds d w out \<Longrightarrow> \<not> deep d \<Longrightarrow>
      \<exists>e w'. ew_enter W w = (Inl e, w') \<and> proper e \<and> holds d w' out"
    and leave: "holds (Suc d) w out \<Longrightarrow> \<exists>w'. ew_exit W w = (Inr (), w') \<and> holds d w' out"
begin

definition fits :: "nat \<Rightarrow> nat \<Rightarrow> bool" where
  "fits d k \<longleftrightarrow> k = 0 \<or> deep (d + k - 1)"

text \<open>The operation writes \<open>bs\<close> and nests \<open>k\<close> deep, or fails on a limit with a prefix written.\<close>

definition emits :: "('w, unit) op \<Rightarrow> byte list \<Rightarrow> nat \<Rightarrow> bool" where
  "emits m bs k \<longleftrightarrow> (\<forall>d w out. holds d w out \<longrightarrow>
     (if room (length out + length bs) \<and> fits d k
      then \<exists>w'. m w = (Inr (), w') \<and> holds d w' (out @ bs)
      else \<exists>e w' p q. m w = (Inl e, w') \<and> proper e \<and> holds d w' (out @ p) \<and> bs = p @ q))"

lemma fits_0 [simp]: "fits d 0"
  by (simp add: fits_def)

lemma fits_Suc: "fits d (Suc k) \<longleftrightarrow> deep d \<and> fits (Suc d) k"
  using deep_mono[of d "d + k"] by (cases k) (auto simp: fits_def)

lemma fits_max: "fits d (max j k) \<longleftrightarrow> fits d j \<and> fits d k"
proof -
  have "fits d b \<Longrightarrow> a \<le> b \<Longrightarrow> fits d a" for a b
    using deep_mono[of "d + (a - 1)" "d + (b - 1)"] by (cases a; cases b) (auto simp: fits_def)
  then show ?thesis by (auto simp: max_def)
qed

lemma emits_ok:
  "emits m bs k \<Longrightarrow> holds d w out \<Longrightarrow> room (length out + length bs) \<Longrightarrow> fits d k \<Longrightarrow>
   \<exists>w'. m w = (Inr (), w') \<and> holds d w' (out @ bs)"
  by (simp add: emits_def)

lemma emits_full:
  "emits m bs k \<Longrightarrow> holds d w out \<Longrightarrow> \<not> (room (length out + length bs) \<and> fits d k) \<Longrightarrow>
   \<exists>e w' p q. m w = (Inl e, w') \<and> proper e \<and> holds d w' (out @ p) \<and> bs = p @ q"
  unfolding emits_def by (metis (full_types))

lemma emitsI:
  assumes "\<And>d w out. holds d w out \<Longrightarrow> room (length out + length bs) \<Longrightarrow> fits d k \<Longrightarrow>
      \<exists>w'. m w = (Inr (), w') \<and> holds d w' (out @ bs)"
    and "\<And>d w out. holds d w out \<Longrightarrow> \<not> (room (length out + length bs) \<and> fits d k) \<Longrightarrow>
      \<exists>e w' p q. m w = (Inl e, w') \<and> proper e \<and> holds d w' (out @ p) \<and> bs = p @ q"
  shows "emits m bs k"
  unfolding emits_def using assms by simp

lemma emits_write: "emits (ew_write W x) x 0"
proof (rule emitsI)
  fix d w out assume h: "holds d w out" and "\<not> (room (length out + length x) \<and> fits d 0)"
  then obtain e w' where "ew_write W x w = (Inl e, w')" "proper e" "holds d w' (out @ [])"
    using write_full[OF h, of x] by auto
  then show "\<exists>e w' p q. ew_write W x w = (Inl e, w') \<and> proper e \<and> holds d w' (out @ p) \<and> x = p @ q"
    by blast
qed (rule write_room)

lemma emits_ret: "emits (sret ()) [] 0"
  by (rule emitsI) (auto dest: holds_room)

lemma emits_bind:
  assumes m: "emits m x j" and n: "emits n y k"
  shows "emits (sbind m (\<lambda>_. n)) (x @ y) (max j k)"
proof (rule emitsI)
  fix d w out assume h: "holds d w out" and r: "room (length out + length (x @ y))" "fits d (max j k)"
  then have r': "room (length out + length x)" "fits d j" "fits d k"
    using room_mono[of "length out + length x" "length out + length (x @ y)"] by (simp_all add: fits_max)
  then obtain w1 where w1: "m w = (Inr (), w1)" "holds d w1 (out @ x)"
    using emits_ok[OF m h] by blast
  then show "\<exists>w'. sbind m (\<lambda>_. n) w = (Inr (), w') \<and> holds d w' (out @ x @ y)"
    using emits_ok[OF n w1(2)] r r' by (simp add: add.assoc)
next
  fix d w out assume h: "holds d w out" and r: "\<not> (room (length out + length (x @ y)) \<and> fits d (max j k))"
  show "\<exists>e w' p q. sbind m (\<lambda>_. n) w = (Inl e, w') \<and> proper e \<and> holds d w' (out @ p) \<and> x @ y = p @ q"
  proof (cases "room (length out + length x) \<and> fits d j")
    case True
    then obtain w1 where w1: "m w = (Inr (), w1)" "holds d w1 (out @ x)"
      using emits_ok[OF m h] by blast
    have "\<not> (room (length (out @ x) + length y) \<and> fits d k)"
      using r True by (auto simp: fits_max add.assoc)
    from emits_full[OF n w1(2) this] obtain e w' p q where
      "n w1 = (Inl e, w')" "proper e" "holds d w' (out @ x @ p)" "y = p @ q" by auto
    moreover from this have "sbind m (\<lambda>_. n) w = (Inl e, w')" using w1(1) by simp
    ultimately show ?thesis by (metis append.assoc)
  next
    case False
    from emits_full[OF m h this] show ?thesis by (metis append.assoc sbind_err)
  qed
qed

lemma emits_bind0: "emits m x 0 \<Longrightarrow> emits n y k \<Longrightarrow> emits (sbind m (\<lambda>_. n)) (x @ y) k"
  using emits_bind[of m x 0 n y k] by simp

lemma emits_bracket:
  assumes m: "emits m x k"
  shows "emits (bracketed (ew_enter W) (ew_exit W) m) x (Suc k)"
proof (rule emitsI)
  fix d w out assume h: "holds d w out" and r: "room (length out + length x)" "fits d (Suc k)"
  obtain w1 where w1: "ew_enter W w = (Inr (), w1)" "holds (Suc d) w1 out"
    using enter_deep[OF h] r(2) by (auto simp: fits_Suc)
  obtain w2 where w2: "m w1 = (Inr (), w2)" "holds (Suc d) w2 (out @ x)"
    using emits_ok[OF m w1(2) r(1)] r(2) by (auto simp: fits_Suc)
  obtain w3 where "ew_exit W w2 = (Inr (), w3)" "holds d w3 (out @ x)" using leave[OF w2(2)] by auto
  then show "\<exists>w'. bracketed (ew_enter W) (ew_exit W) m w = (Inr (), w') \<and> holds d w' (out @ x)"
    using w1(1) w2(1) by (simp add: bracketed_def)
next
  fix d w out assume h: "holds d w out" and r: "\<not> (room (length out + length x) \<and> fits d (Suc k))"
  show "\<exists>e w' p q. bracketed (ew_enter W) (ew_exit W) m w = (Inl e, w') \<and> proper e \<and>
      holds d w' (out @ p) \<and> x = p @ q"
  proof (cases "deep d")
    case True
    obtain w1 where w1: "ew_enter W w = (Inr (), w1)" "holds (Suc d) w1 out"
      using enter_deep[OF h True] by auto
    obtain e w2 p q where w2: "m w1 = (Inl e, w2)" "proper e" "holds (Suc d) w2 (out @ p)" "x = p @ q"
      using emits_full[OF m w1(2)] r True by (auto simp: fits_Suc)
    obtain w3 where "ew_exit W w2 = (Inr (), w3)" "holds d w3 (out @ p)" using leave[OF w2(3)] by auto
    then have "bracketed (ew_enter W) (ew_exit W) m w = (Inl e, w3) \<and> holds d w3 (out @ p)"
      using w1(1) w2(1) by (simp add: bracketed_def)
    then show ?thesis using w2(2,4) by blast
  next
    case False
    from enter_full[OF h this] obtain e w' where
      e: "ew_enter W w = (Inl e, w')" "proper e" "holds d w' out" by blast
    have "bracketed (ew_enter W) (ew_exit W) m w = (Inl e, w') \<and> proper e \<and> holds d w' (out @ []) \<and>
        x = [] @ x"
      using e by (simp add: bracketed_def)
    then show ?thesis by blast
  qed
qed

lemma emits_fail:
  assumes "usize_max < length bs" and "proper e"
  shows "emits (sfail e) bs 0"
proof (rule emitsI)
  fix d w out assume "holds d w out" and "room (length out + length bs)"
  then show "\<exists>w'. sfail e w = (Inr (), w') \<and> holds d w' (out @ bs)"
    using room_usize[of "length out + length bs"] assms(1) by simp
next
  fix d w out assume "holds d w out"
  then have "sfail e w = (Inl e, w) \<and> proper e \<and> holds d w (out @ []) \<and> bs = [] @ bs"
    using assms(2) by simp
  then show "\<exists>e' w' p q. sfail e w = (Inl e', w') \<and> proper e' \<and> holds d w' (out @ p) \<and> bs = p @ q"
    by blast
qed

section \<open>Every encoder writes the wire form\<close>

lemma emits_varint:
  "emits (encode_varint W v) (varint_bytes (ucast v)) 0"
  "emits (encode_varint_u128 W u) (varint_bytes u) 0"
  using emits_write[of "varint_bytes (ucast v)"] emits_write[of "varint_bytes u"]
  by (simp_all add: encode_varint_def encode_varint_u128_def varint_bytes_def case_prod_beta)

lemma emits_zigzag:
  "emits (encode_zigzag W v) (varint_bytes (zigzag_encode (scast v))) 0"
  "emits (encode_zigzag_i128 W u) (varint_bytes (zigzag_encode u)) 0"
  by (simp_all add: encode_zigzag_def encode_zigzag_i128_def emits_varint)

lemma emits_length: "n \<le> usize_max \<Longrightarrow> emits (encode_length W n) (varint_bytes (of_nat n)) 0"
  using emits_varint(1)[of "of_nat n"] by (simp add: encode_length_def ucast_of_nat)

lemma emits_bool: "emits (encode_bool W b) [if b then 1 else 0] 0"
  using emits_write[of "[if b then 1 else 0]"] by (simp add: encode_bool_def)

lemma emits_widened:
  "emits (encode_varint W (ucast (a :: u16))) (varint_bytes (ucast a)) 0"
  "emits (encode_varint W (ucast (b :: u32))) (varint_bytes (ucast b)) 0"
  "emits (encode_zigzag W (scast a)) (varint_bytes (zigzag_encode (scast a))) 0"
  "emits (encode_zigzag W (scast b)) (varint_bytes (zigzag_encode (scast b))) 0"
  using emits_varint(1)[of "ucast a"] emits_varint(1)[of "ucast b"]
    emits_zigzag(1)[of "scast a"] emits_zigzag(1)[of "scast b"]
  by (simp_all add: ucast_ucast_up scast_scast_up)

lemma emits_scalar:
  assumes "styped s x"
  shows "emits (encode_scalar W x) (swire x) 0"
proof (cases x)
  case (XUnit)
  then show ?thesis by (simp add: emits_ret)
next
  case (XStr t)
  then have "emits (encode_length W (length t)) (varint_bytes (of_nat (length t))) 0"
    using assms by (cases s) (auto intro: emits_length)
  from emits_bind0[OF this emits_write[of t]] XStr show ?thesis by (simp add: encode_bytes_def)
qed (simp_all add: emits_write emits_varint emits_zigzag emits_bool emits_widened)

text \<open>The batched loop writes the same bytes as one varint after the other.\<close>

lemma varints_loop_emits:
  "length buffer = 64 \<Longrightarrow> used \<le> 64 \<Longrightarrow>
   emits (varints_loop W vs buffer used) (take used buffer @ concat (map (\<lambda>v. varint_bytes (ucast v)) vs)) 0"
proof (induction vs arbitrary: buffer used)
  case Nil
  then show ?case using emits_write[of "take used buffer"] emits_ret by (cases "used = 0") (auto simp del: sop_simps)
next
  case (Cons v vs)
  let ?x = "varint_bytes (ucast v)"
  note into = write_varint_into_eq[of _ v] and short = length_varint_u64[of v]
  show ?case
  proof (cases "used + 17 > length buffer")
    case True
    let ?b = "?x @ drop (length ?x) buffer"
    have "emits (varints_loop W vs (take 0 buffer @ ?b) (0 + length ?x))
        (take (length ?x) ?b @ concat (map (\<lambda>v. varint_bytes (ucast v)) vs)) 0"
      using Cons.IH[of ?b "length ?x"] Cons.prems short by simp
    from emits_bind0[OF emits_write[of "take used buffer"] this] True Cons.prems into[of buffer]
    show ?thesis by (simp add: sbind_assoc sbind_sret_left)
  next
    case False
    let ?b = "take used buffer @ ?x @ drop (length ?x) (drop used buffer)"
    have "emits (varints_loop W vs ?b (used + length ?x))
        (take (used + length ?x) ?b @ concat (map (\<lambda>v. varint_bytes (ucast v)) vs)) 0"
      using Cons.IH[of ?b "used + length ?x"] Cons.prems short False by simp
    then show ?thesis
      using False Cons.prems into[of "drop used buffer"] by (simp add: sbind_def)
  qed
qed

end

lemma zigzag_narrow:
  assumes "LENGTH('a::len) \<le> 64"
  shows "ucast (ucast (zigzag_encode (scast (n :: 'a word))) :: u64) = zigzag_encode (scast n)"
proof (rule bit_word_eqI)
  fix k assume k: "k < LENGTH(128)"
  have s: "bit (scast n :: u128) j = bit n (LENGTH('a) - 1)" if "LENGTH('a) - 1 \<le> j" "j < 128" for j
    using that by (auto simp: bit_signed_iff min_def dest: bit_imp_le_length)
  have "\<not> bit (zigzag_encode (scast n)) k" if "64 \<le> k"
    using s[of "k - 1"] s[of 127] assms that k by (simp add: bit_zigzag_encode)
  then show "bit (ucast (ucast (zigzag_encode (scast n)) :: u64) :: u128) k = bit (zigzag_encode (scast n)) k"
    using k by (cases "k < 64") (auto simp: bit_unsigned_iff)
qed

lemma as_varint_wire:
  "ctyped (CScalar s) v \<Longrightarrow> s \<in> {SU64, SI64, SU32, SI32, SU16, SI16} \<Longrightarrow>
   varint_bytes (ucast (as_varint v)) = cwire v"
  by (cases v; cases s)
    (auto simp: as_varint_def zigzag_narrow ucast_ucast_up split: sval.splits)

lemma scalar_height: "ctyped (CScalar s) v \<Longrightarrow> cheight v = 0"
  by (cases v) simp_all

lemma scalar_height_all: "ctyped_all (CScalar s) vs \<Longrightarrow> cheight_all vs = 0"
proof (induction vs)
  case (Cons v vs)
  then show ?case using scalar_height[of s v] by simp
qed simp

lemma cwire_all_map: "(\<And>v. v \<in> set vs \<Longrightarrow> f v = cwire v) \<Longrightarrow> concat (map f vs) = cwire_all vs"
  by (induction vs) simp_all

lemma float_wire_length:
  "ctyped_all (CScalar SF64) vs \<Longrightarrow> length (cwire_all vs) = length vs * 8"
  "ctyped_all (CScalar SF32) vs \<Longrightarrow> length (cwire_all vs) = length vs * 4"
  by (induction vs) (auto split: cval.splits sval.splits)

context compact_sink
begin

lemma emits_bulk:
  assumes "encode_bulk W t vs = Some m" and "ctyped_all t vs"
  shows "emits m (cwire_all vs) (cheight_all vs)"
proof -
  obtain s where t: "t = CScalar s" using assms(1) by (cases t) simp_all
  then have ty: "ctyped (CScalar s) v" if "v \<in> set vs" for v
    using assms(2) that unfolding ctyped_all_iff by simp
  have h: "cheight_all vs = 0" using scalar_height_all assms(2) t by simp
  consider (b) "s \<in> {SU8, SI8}" | (d) "s = SF64" | (f) "s = SF32"
    | (v) "s \<in> {SU64, SI64, SU32, SI32, SU16, SI16}"
    using assms(1) t by (auto split: if_splits)
  then show ?thesis
  proof cases
    case b
    then have "[as_byte v] = cwire v" if "v \<in> set vs" for v
      using ty[OF that] by (auto simp: as_byte_def split: cval.splits sval.splits)
    then have "map as_byte vs = cwire_all vs"
      using cwire_all_map[of vs "\<lambda>v. [as_byte v]"] by simp
    then show ?thesis using b t assms(1) h emits_write[of "cwire_all vs"] by auto
  next
    case d
    then have "to_le_bytes (as_f64 v) = cwire v" if "v \<in> set vs" for v
      using ty[OF that] by (auto simp: as_f64_def split: cval.splits sval.splits)
    then have w: "concat (map (\<lambda>v. to_le_bytes (as_f64 v)) vs) = cwire_all vs" by (rule cwire_all_map)
    have m: "m = write_f64_slice_le W (map as_f64 vs)" using assms(1) t d by simp
    have l: "length (cwire_all vs) = length vs * 8" using float_wire_length(1) assms(2) t d by simp
    show ?thesis
      using emits_write[of "cwire_all vs"] emits_fail[of "cwire_all vs" "IntegerOverflow ''usize''"]
      by (simp add: m h l w write_f64_slice_le_def comp_def del: sop_simps)
  next
    case f
    then have "to_le_bytes (as_f32 v) = cwire v" if "v \<in> set vs" for v
      using ty[OF that] by (auto simp: as_f32_def split: cval.splits sval.splits)
    then have w: "concat (map (\<lambda>v. to_le_bytes (as_f32 v)) vs) = cwire_all vs" by (rule cwire_all_map)
    have m: "m = write_f32_slice_le W (map as_f32 vs)" using assms(1) t f by simp
    have l: "length (cwire_all vs) = length vs * 4" using float_wire_length(2) assms(2) t f by simp
    show ?thesis
      using emits_write[of "cwire_all vs"] emits_fail[of "cwire_all vs" "IntegerOverflow ''usize''"]
      by (simp add: m h l w write_f32_slice_le_def comp_def del: sop_simps)
  next
    case v
    then have "varint_bytes (ucast (as_varint x)) = cwire x" if "x \<in> set vs" for x
      using as_varint_wire[OF ty[OF that]] by blast
    then have w: "concat (map (\<lambda>x. varint_bytes (ucast (as_varint x))) vs) = cwire_all vs"
      by (rule cwire_all_map)
    have m: "m = encode_varints_bulk W (map as_varint vs)" using assms(1) t v by auto
    show ?thesis
      using varints_loop_emits[of "replicate 64 0" 0 "map as_varint vs"]
      by (simp add: m h w encode_varints_bulk_def comp_def)
  qed
qed

lemma emits_counted:
  assumes "emits m x k" and "n \<le> usize_max"
  shows "emits (sbind (encode_length W n) (\<lambda>_. bracketed (ew_enter W) (ew_exit W) m))
    (varint_bytes (of_nat n) @ x) (Suc k)"
  by (rule emits_bind0[OF emits_length[OF assms(2)] emits_bracket[OF assms(1)]])

lemma ctyped_all_append: "ctyped_all t (xs @ ys) \<longleftrightarrow> ctyped_all t xs \<and> ctyped_all t ys"
  by (auto simp: ctyped_all_iff)

lemma emits_value:
  shows "U = W \<Longrightarrow> ctyped t v \<Longrightarrow> emits (encode_compact wrap U t v) (cwire v) (cheight v)"
    and "U = W \<Longrightarrow> ctyped_all t vs \<Longrightarrow> emits (encode_elements wrap U t vs) (cwire_all vs) (cheight_all vs)"
    and "U = W \<Longrightarrow> ctyped_all t vs \<Longrightarrow> emits (encode_each wrap U t vs) (cwire_all vs) (cheight_all vs)"
    and "U = W \<Longrightarrow> ctyped_map k t kvs \<Longrightarrow> emits (encode_map wrap U k t kvs) (cwire_map kvs) (cheight_map kvs)"
    and "U = W \<Longrightarrow> ctyped_tuple ts vs \<Longrightarrow> emits (encode_tuple wrap U ts vs) (cwire_all vs) (cheight_all vs)"
proof (induction wrap U t v and wrap U t vs and wrap U t vs and wrap U k t kvs and wrap U ts vs
    rule: encode_compact_encode_elements_encode_each_encode_map_encode_tuple.induct)
  case (1 wrap U s v)
  then show ?case using emits_scalar[of s] by (cases v) simp_all
next
  case (2 wrap U v)
  then show ?case by (cases v) (simp_all add: emits_counted)
next
  case (3 wrap U t v)
  then show ?case by (cases v) (simp_all add: emits_counted)
next
  case (4 wrap U n t v)
  then show ?case by (cases v) simp_all
next
  case (5 wrap U t v)
  then obtain vs where v: "v = VSeq vs" by (cases v) simp_all
  have ty: "ctyped_all t (take (wrap vs) vs)" "ctyped_all t (drop (wrap vs) vs)" "length vs \<le> usize_max"
    using 5(4) v ctyped_all_append[of t "take (wrap vs) vs" "drop (wrap vs) vs"] by simp_all
  have "emits (sbind (encode_elements wrap W t (take (wrap vs) vs)) (\<lambda>_. encode_elements wrap W t (drop (wrap vs) vs)))
      (cwire_all (take (wrap vs) vs) @ cwire_all (drop (wrap vs) vs))
      (max (cheight_all (take (wrap vs) vs)) (cheight_all (drop (wrap vs) vs)))"
    by (rule emits_bind[OF 5(1)[OF v 5(3) ty(1), unfolded 5(3)] 5(2)[OF v 5(3) ty(2), unfolded 5(3)]])
  then show ?case
    using v ty(3) 5(3) by (simp add: emits_counted cwire_all_append[symmetric] cheight_all_append[symmetric]
        del: encode_elements.simps)
next
  case (6 wrap U t v)
  then obtain x where v: "v = VOpt x" by (cases v) simp_all
  show ?case
  proof (cases x)
    case None
    then show ?thesis using v 6(2) emits_bool[of False] by simp
  next
    case (Some y)
    then show ?thesis using v 6 emits_bind0[OF emits_bool[of True]] by simp
  qed
next
  case (7 wrap U k t v)
  then show ?case by (cases v) (simp_all add: emits_counted)
next
  case (8 wrap U ts v)
  then show ?case by (cases v) simp_all
next
  case (9 wrap U ts v)
  then obtain i x where v: "v = VEnum i x" "unat i < length ts" "ctyped (ts ! unat i) x"
    by (cases v) (simp_all split: if_splits)
  then show ?case
    using 9(2) emits_bind0[OF emits_widened(2)[of i] 9(1)[OF v(1,2) 9(2) v(3), unfolded 9(2)]] by (simp add: encode_variant_index_def)
next
  case (10 wrap U t vs)
  then show ?case
    by (cases "encode_bulk W t vs") (simp_all add: emits_bulk)
next
  case (11 wrap U t)
  then show ?case by (simp add: emits_ret del: sop_simps)
next
  case (12 wrap U t v vs)
  then show ?case by (simp add: emits_bind)
next
  case (13 wrap U k t)
  then show ?case by (simp add: emits_ret del: sop_simps)
next
  case (14 wrap U k t a b kvs)
  then show ?case by (simp add: emits_bind)
next
  case (15 wrap U vs)
  then show ?case by (simp add: emits_ret del: sop_simps)
next
  case (16 wrap U t ts vs)
  then show ?case by (cases vs) (simp_all add: emits_bind)
qed

text \<open>The whole encoder, from a fresh writer.\<close>

lemma encode_total:
  assumes "ctyped t v" and "holds 0 w []"
  shows "room (length (cwire v)) \<Longrightarrow> cheight v = 0 \<or> deep (cheight v - 1) \<Longrightarrow>
      \<exists>w'. encode_compact wrap W t v w = (Inr (), w') \<and> holds 0 w' (cwire v)"
    and "\<not> (room (length (cwire v)) \<and> (cheight v = 0 \<or> deep (cheight v - 1))) \<Longrightarrow>
      \<exists>e w' p q. encode_compact wrap W t v w = (Inl e, w') \<and> proper e \<and> holds 0 w' p \<and> cwire v = p @ q"
  using emits_ok[OF emits_value(1)[OF refl assms(1)] assms(2)]
    emits_full[OF emits_value(1)[OF refl assms(1)] assms(2)] by (simp_all add: fits_def)

end

section \<open>The bounded writer over every sink, and the counter\<close>

definition byte_room :: "config \<Rightarrow> nat \<Rightarrow> bool" where
  "byte_room cfg n \<longleftrightarrow> n \<le> usize_max \<and> within (c_limit cfg) n"

definition depth_room :: "config \<Rightarrow> nat \<Rightarrow> bool" where
  "depth_room cfg d \<longleftrightarrow> d < c_depth_limit cfg"

definition bw_holds ::
  "('w \<Rightarrow> byte list \<Rightarrow> bool) \<Rightarrow> config \<Rightarrow> nat \<Rightarrow> 'w bounded_writer \<Rightarrow> byte list \<Rightarrow> bool" where
  "bw_holds holds cfg d w out \<longleftrightarrow> holds (bw_inner w) out \<and> bw_written w = length out \<and> bw_depth w = d \<and>
     bw_limit w = c_limit cfg \<and> bw_depth_limit w = c_depth_limit cfg \<and> byte_room cfg (length out)"

lemma bw_new_holds: "holds w [] \<Longrightarrow> bw_holds holds cfg 0 (bw_new w cfg) []"
  by (simp add: bw_holds_def bw_new_def byte_room_def)

context sink
begin

lemma bounded_write:
  assumes h: "bw_holds holds cfg d w out" and r: "byte_room cfg (length out + length x)"
  shows "\<exists>w'. ew_write (bounded write_all) x w = (Inr (), w') \<and> bw_holds holds cfg d w' (out @ x)"
proof -
  have l: "length out + length x \<le> usize_max" "within (c_limit cfg) (length out + length x)"
    using r by (simp_all add: byte_room_def)
  obtain i where i: "write_all x (bw_inner w) = (Inr (), i)" "holds i (out @ x)"
    using write_ok[of "bw_inner w" out x] h l by (auto simp: bw_holds_def)
  show ?thesis
    using h l r i by (simp add: bounded_def bw_write_all_def bw_holds_def Let_def check_limit_if)
qed

lemma bounded_write_full:
  assumes h: "bw_holds holds cfg d w out" and r: "\<not> byte_room cfg (length out + length x)"
  shows "\<exists>e w'. ew_write (bounded write_all) x w = (Inl e, w') \<and> proper e \<and> bw_holds holds cfg d w' out"
proof (cases "length out + length x \<le> usize_max")
  case True
  then show ?thesis
    using h r by (simp add: bounded_def bw_write_all_def bw_holds_def Let_def check_limit_if byte_room_def)
next
  case False
  then show ?thesis
    using h by (cases "length x \<le> usize_max") (simp_all add: bounded_def bw_write_all_def bw_holds_def Let_def)
qed

lemma bounded_sink: "compact_sink (bounded write_all) (bw_holds holds cfg) (byte_room cfg) (depth_room cfg)"
proof unfold_locales
  show "i \<le> n \<Longrightarrow> byte_room cfg n \<Longrightarrow> byte_room cfg i" for i n
    using within_mono[of "c_limit cfg" n i] by (auto simp: byte_room_def)
  show "byte_room cfg n \<Longrightarrow> n \<le> usize_max" for n by (simp add: byte_room_def)
  show "c \<le> d \<Longrightarrow> depth_room cfg d \<Longrightarrow> depth_room cfg c" for c d by (simp add: depth_room_def)
  show "bw_holds holds cfg d w out \<Longrightarrow> byte_room cfg (length out)" for d w out
    by (simp add: bw_holds_def)
  show "bw_holds holds cfg d w out \<Longrightarrow> \<not> byte_room cfg (length out + length x) \<Longrightarrow>
      \<exists>e w'. ew_write (bounded write_all) x w = (Inl e, w') \<and> proper e \<and> bw_holds holds cfg d w' out"
    for d w out x by (rule bounded_write_full)
qed (simp_all only: bounded_write,
     simp_all add: bounded_def bw_enter_def bw_exit_def bw_holds_def depth_room_def)

end

interpretation bvec: compact_sink "bounded vec_write_all" "bw_holds vec_holds cfg" "byte_room cfg"
    "depth_room cfg" for cfg
  by (rule vec_sink.bounded_sink)

interpretation bslice: compact_sink "bounded slice_write_all" "bw_holds (slice_holds orig) cfg"
    "byte_room cfg" "depth_room cfg" for cfg orig
  by (rule slice_sink.bounded_sink)

interpretation bare: compact_sink "plain count_write_all" "\<lambda>d w out. count_holds w out \<and> length out \<le> usize_max"
    "\<lambda>n. n \<le> usize_max" "\<lambda>d. True"
  by unfold_locales (auto simp: plain_def count_write_all_def count_holds_def)

section \<open>Entry points\<close>

definition compact_fits :: "config \<Rightarrow> cval \<Rightarrow> bool" where
  "compact_fits cfg v \<longleftrightarrow> byte_room cfg (length (cwire v)) \<and> cheight v \<le> c_depth_limit cfg"

lemma compact_fits_rooms:
  "compact_fits cfg v \<longleftrightarrow> byte_room cfg (length (cwire v)) \<and> (cheight v = 0 \<or> depth_room cfg (cheight v - 1))"
  by (auto simp: compact_fits_def depth_room_def)

lemma serialize_outcome:
  assumes "ctyped t v"
  shows "if compact_fits cfg v then compact_serialize wrap cfg t v = Inr (cwire v)
    else \<exists>e. compact_serialize wrap cfg t v = Inl e \<and> proper e"
proof -
  have h: "bw_holds vec_holds cfg 0 (bw_new [] cfg) []" by (rule bw_new_holds) (simp add: vec_holds_def)
  show ?thesis
    using bvec.encode_total[OF assms h, of wrap]
    by (auto simp: compact_serialize_def compact_fits_rooms bw_holds_def vec_holds_def)
qed

text \<open>
  C10: the compact encoder is total on the values of every type. It succeeds exactly when the value's wire
  form fits the byte limit and its nesting the depth limit, and then returns the wire form, whatever
  fast path an element type takes and wherever a ring buffer wraps; otherwise it returns an error
  and never panics.
\<close>

theorem compact_serialize_total:
  assumes "ctyped t v"
  shows "if compact_fits cfg v then compact_serialize wrap cfg t v = Inr (cwire v)
    else \<exists>e. compact_serialize wrap cfg t v = Inl e \<and> proper e"
  by (rule serialize_outcome[OF assms])

text \<open>
  The other two entry points. \<^verbatim>\<open>serialized_size\<close> gives the length of the wire form without
  any byte, element or depth limit; \<^verbatim>\<open>serialize_into_slice\<close> gives that length and a buffer whose
  first bytes are the wire form when it fits, and on an undersized buffer reports the exact capacity
  needed, with the prefix that fits written.
\<close>

theorem compact_entry_points:
  assumes "ctyped t v" and "length (cwire v) \<le> usize_max"
  shows "compact_serialized_size wrap t v = Inr (length (cwire v)) \<and>
    (compact_fits cfg v \<longrightarrow> compact_serialize_into_slice wrap cfg output t v =
      (if length (cwire v) \<le> length output then Inr (length (cwire v))
       else Inl (BufferTooSmall (length (cwire v)) (length output)),
       take (length output) (cwire v) @ drop (length (cwire v)) output))"
proof (intro conjI impI)
  have h: "count_holds count_new [] \<and> length ([] :: byte list) \<le> usize_max"
    by (simp add: count_new_holds)
  show "compact_serialized_size wrap t v = Inr (length (cwire v))"
    using bare.encode_total(1)[OF assms(1) h assms(2), of wrap]
    by (auto simp: compact_serialized_size_def count_holds_def)
next
  assume f: "compact_fits cfg v"
  have h: "bw_holds (slice_holds output) cfg 0 (bw_new (slice_new output) cfg) []"
    by (rule bw_new_holds) (rule slice_new_holds)
  obtain w where w: "encode_compact wrap (bounded slice_write_all) t v (bw_new (slice_new output) cfg) = (Inr (), w)"
    "slice_holds output (bw_inner w) (cwire v)"
    using bslice.encode_total(1)[OF assms(1) h, of wrap] f by (auto simp: compact_fits_rooms bw_holds_def)
  then show "compact_serialize_into_slice wrap cfg output t v =
      (if length (cwire v) \<le> length output then Inr (length (cwire v))
       else Inl (BufferTooSmall (length (cwire v)) (length output)),
       take (length output) (cwire v) @ drop (length (cwire v)) output)"
    using slice_holds_finish(1)[OF w(2)]
    by (simp add: compact_serialize_into_slice_def slice_holds_def)
qed

lemma compact_serialize_total_witness:
  "compact_serialize (\<lambda>_. 1) standard (CTuple [CVec (CScalar SU16), COption (CScalar SI32), CDeque (CScalar SU8)])
     (VTuple [VSeq [VScalar (XU16 300), VScalar (XU16 7)], VOpt (Some (VScalar (XI32 (- 3)))),
       VSeq [VScalar (XU8 1), VScalar (XU8 2)]]) = Inr [2, 251, 44, 1, 7, 1, 5, 2, 1, 2]"
proof -
  let ?t = "CTuple [CVec (CScalar SU16), COption (CScalar SI32), CDeque (CScalar SU8)]"
  let ?v = "VTuple [VSeq [VScalar (XU16 300), VScalar (XU16 7)], VOpt (Some (VScalar (XI32 (- 3)))),
       VSeq [VScalar (XU8 1), VScalar (XU8 2)]]"
  have ty: "ctyped ?t ?v" by simp
  have z: "zigzag_encode (- 3) = 5" by (simp add: zigzag_neg)
  have "varint_bytes 300 = 251 # [44, 1]"
    by (rule varint_encode_decode) (simp_all add: decode_varint_le_wide)
  then have w: "cwire ?v = [2, 251, 44, 1, 7, 1, 5, 2, 1, 2]"
    by (simp add: z varint_bytes_small)
  have "compact_fits standard ?v"
    unfolding compact_fits_def w by (simp add: byte_room_def standard_def DEFAULT_SIZE_LIMIT_def MAX_DEPTH_def)
  then show ?thesis using compact_serialize_total[OF ty, of standard "\<lambda>_. 1"] w by simp
qed

lemma compact_entry_points_witness:
  "compact_serialized_size (\<lambda>_. 0) (CArray 2 (CScalar SU8)) (VArr [VScalar (XU8 9), VScalar (XU8 8)]) = Inr 2 \<and>
   compact_serialize_into_slice (\<lambda>_. 0) standard [0] (CArray 2 (CScalar SU8)) (VArr [VScalar (XU8 9), VScalar (XU8 8)]) =
     (Inl (BufferTooSmall 2 1), [9])"
proof -
  let ?v = "VArr [VScalar (XU8 9), VScalar (XU8 8)]"
  have ty: "ctyped (CArray 2 (CScalar SU8)) ?v" by simp
  have w: "cwire ?v = [9, 8]" by simp
  have "compact_fits standard ?v"
    unfolding compact_fits_def w by (simp add: byte_room_def standard_def DEFAULT_SIZE_LIMIT_def)
  then show ?thesis using compact_entry_points[OF ty, of "\<lambda>_. 0" standard "[0]"] w by simp
qed

end
