(* ===== verification/CompactCursor.thy ===== *)
theory CompactCursor
  imports Compact
begin

text \<open>
  \<^verbatim>\<open>src/compact.rs\<close>, decoding half: the bounded cursor, the bulk decoders and \<^verbatim>\<open>decode_compact\<close>. The
  cursor is an interpretation of the locale \<open>reader\<close>. Two facts outside the crate are parameters:
  the machine address of the input (the float fast path tests its alignment) and what the allocator
  grants to \<^verbatim>\<open>try_reserve\<close>.
\<close>

record host =
  h_addr :: nat
  h_reserve :: "cty \<Rightarrow> nat \<Rightarrow> bool"

record cursor =
  cc_input :: "byte list"
  cc_position :: nat
  cc_limit_end :: "nat option"
  cc_collection_limit :: "nat option"
  cc_depth_limit :: nat
  cc_depth :: nat

definition cursor_new :: "byte list \<Rightarrow> config \<Rightarrow> cursor" where
  "cursor_new input cfg = \<lparr> cc_input = input, cc_position = 0,
     cc_limit_end = (case c_limit cfg of
         Some l \<Rightarrow> if l \<le> usize_max \<and> length input > l then Some l else None
       | None \<Rightarrow> None),
     cc_collection_limit = c_collection_limit cfg, cc_depth_limit = c_depth_limit cfg, cc_depth = 0 \<rparr>"

definition enforce_limit :: "nat \<Rightarrow> cursor \<Rightarrow> error + unit" where
  "enforce_limit e c = check_limit (cc_limit_end c) e"

definition cc_take :: "nat \<Rightarrow> (cursor, byte list) op" where
  "cc_take len c =
    (let e = cc_position c + len in
     if e > usize_max then (Inl UnexpectedEnd, c)
     else case enforce_limit e c of
         Inl err \<Rightarrow> (Inl err, c)
       | Inr _ \<Rightarrow> (case slice (cc_position c) e (cc_input c) of
           None \<Rightarrow> (Inl UnexpectedEnd, c)
         | Some bytes \<Rightarrow> (Inr bytes, c\<lparr>cc_position := e\<rparr>)))"

text \<open>\<open>get\<close> is \<^verbatim>\<open>input.get(position)\<close>.\<close>

definition cc_get :: "cursor \<Rightarrow> byte option" where
  "cc_get c = (if cc_position c < length (cc_input c) then Some (cc_input c ! cc_position c) else None)"

definition advance_one :: "nat \<Rightarrow> (cursor, unit) op" where
  "advance_one position c = (case enforce_limit (position + 1) c of
     Inl err \<Rightarrow> (Inl err, c) | Inr _ \<Rightarrow> (Inr (), c\<lparr>cc_position := position + 1\<rparr>))"

definition cc_byte :: "(cursor, byte) op" where
  "cc_byte c = (case cc_get c of
     Some b \<Rightarrow> sbind (advance_one (cc_position c)) (\<lambda>_. sret b) c
   | None \<Rightarrow> (Inl UnexpectedEnd, c))"

text \<open>The total width of a varint by its marker.\<close>

definition marker_width :: "byte \<Rightarrow> error + nat" where
  "marker_width m = (if m = MARKER_U16 then Inr 3 else if m = MARKER_U32 then Inr 5
     else if m = MARKER_U64 then Inr 9 else if m = MARKER_U128 then Inr 17
     else Inl (InvalidVarintMarker m))"

definition u64_of_payload :: "byte \<Rightarrow> byte list \<Rightarrow> error + u64" where
  "u64_of_payload marker bytes =
    (if marker = MARKER_U128
     then rbind (ok_or NonCanonicalVarint (decode_varint_le marker bytes)) (\<lambda>v.
       if unat v < 2 ^ 64 then Inr (ucast v) else Inl (IntegerOverflow ''u64''))
     else ok_or NonCanonicalVarint (decode_varint_le_u64 marker bytes))"

text \<open>The payload of a multi-byte varint, without moving the cursor.\<close>

definition payload_at :: "byte \<Rightarrow> cursor \<Rightarrow> error + (nat \<times> byte list)" where
  "payload_at marker c =
    rbind (marker_width marker) (\<lambda>width.
      let e = cc_position c + width in
      rbind (enforce_limit e c) (\<lambda>_.
      rbind (ok_or UnexpectedEnd (slice (cc_position c + 1) e (cc_input c))) (\<lambda>bytes.
      Inr (e, bytes))))"

definition read_varint :: "(cursor, u64) op" where
  "read_varint c = (case cc_get c of
     None \<Rightarrow> (Inl UnexpectedEnd, c)
   | Some marker \<Rightarrow>
       if marker \<le> 250 then sbind (advance_one (cc_position c)) (\<lambda>_. sret (ucast marker)) c
       else (case payload_at marker c of
         Inl err \<Rightarrow> (Inl err, c)
       | Inr (e, bytes) \<Rightarrow> (u64_of_payload marker bytes, c\<lparr>cc_position := e\<rparr>)))"

definition read_varint_u128 :: "(cursor, u128) op" where
  "read_varint_u128 c = (case cc_get c of
     None \<Rightarrow> (Inl UnexpectedEnd, c)
   | Some marker \<Rightarrow>
       if marker \<le> 250 then sbind (advance_one (cc_position c)) (\<lambda>_. sret (ucast marker)) c
       else (case payload_at marker c of
         Inl err \<Rightarrow> (Inl err, c)
       | Inr (e, bytes) \<Rightarrow> (ok_or NonCanonicalVarint (decode_varint_le marker bytes), c\<lparr>cc_position := e\<rparr>)))"

text \<open>A range-checked narrowing of a signed 128-bit word: \<^verbatim>\<open>iN::try_from\<close>.\<close>

definition try_signed :: "nat \<Rightarrow> string \<Rightarrow> u128 \<Rightarrow> error + u128" where
  "try_signed bits name v = (if - (2 ^ (bits - 1)) \<le> sint v \<and> sint v < 2 ^ (bits - 1) then Inr v
     else Inl (IntegerOverflow name))"

definition read_zigzag :: "(cursor, u64) op" where
  "read_zigzag = sbind read_varint_u128 (\<lambda>encoded. slift (\<lambda>_.
     rmap ucast (try_signed 64 ''i64'' (zigzag_decode encoded))))"

definition read_zigzag_i128 :: "(cursor, u128) op" where
  "read_zigzag_i128 = sbind read_varint_u128 (\<lambda>encoded. sret (zigzag_decode encoded))"

definition read_bool :: "(cursor, bool) op" where
  "read_bool = sbind cc_byte (\<lambda>b. if b = 0 then sret False else if b = 1 then sret True
     else sfail (InvalidBool b))"

definition cc_read_f32 :: "(cursor, u32) op" where
  "cc_read_f32 = sbind (cc_take 4) (\<lambda>bytes. sret (from_le_bytes bytes))"

definition cc_read_f64 :: "(cursor, u64) op" where
  "cc_read_f64 = sbind (cc_take 8) (\<lambda>bytes. sret (from_le_bytes bytes))"

text \<open>\<^verbatim>\<open>usize::try_from\<close> of a \<^verbatim>\<open>u64\<close> never fails on a 64-bit target.\<close>

definition read_length :: "(cursor, nat) op" where
  "read_length = sbind read_varint (\<lambda>v. sret (unat v))"

definition read_str :: "(cursor, byte list) op" where
  "read_str = sbind read_length (\<lambda>len. sbind (cc_take len) (\<lambda>bytes.
     if utf8_valid bytes then sret bytes else sfail InvalidUtf8))"

definition cc_enter :: "nat \<Rightarrow> (cursor, unit) op" where
  "cc_enter len c = (case check_collection (cc_collection_limit c) len of
     Inl err \<Rightarrow> (Inl err, c)
   | Inr _ \<Rightarrow> if cc_depth c \<ge> cc_depth_limit c
       then (Inl (Custom ''compact decode nesting depth limit exceeded''), c)
       else (Inr (), c\<lparr>cc_depth := cc_depth c + 1\<rparr>))"

definition cc_exit :: "(cursor, unit) op" where
  "cc_exit c = (if cc_depth c = 0 then (Inl (Panic ''attempt to subtract with overflow''), c)
     else (Inr (), c\<lparr>cc_depth := cc_depth c - 1\<rparr>))"

definition decode_variant_index :: "(cursor, u32) op" where
  "decode_variant_index = sbind read_varint (\<lambda>index.
     if unat index < 2 ^ 32 then sret (ucast index) else sfail (IntegerOverflow ''u32''))"

section \<open>Bulk decoders\<close>

definition plain_varint_prefix :: "byte list \<Rightarrow> nat" where
  "plain_varint_prefix input = length (takeWhile (\<lambda>b. b \<le> 250) input)"

function bulk_loop :: "nat \<Rightarrow> u64 list \<Rightarrow> (cursor, u64 list) op" where
  "bulk_loop remaining out c =
    (if remaining = 0 then (Inr out, c)
     else case cc_get c of
       None \<Rightarrow> (Inl UnexpectedEnd, c)
     | Some marker \<Rightarrow>
         if marker \<le> 250 then
           (let available = drop (cc_position c + 1) (cc_input c);
                window = take (min (remaining - 1) (length available)) available;
                extra = min (plain_varint_prefix window) (remaining - 1);
                e = cc_position c + 1 + extra
            in case enforce_limit e c of
                 Inl err \<Rightarrow> (Inl err, c)
               | Inr _ \<Rightarrow> bulk_loop (remaining - (1 + extra))
                   (out @ map ucast (take (e - cc_position c) (drop (cc_position c) (cc_input c))))
                   (c\<lparr>cc_position := e\<rparr>))
         else (case payload_at marker c of
             Inl err \<Rightarrow> (Inl err, c)
           | Inr (e, bytes) \<Rightarrow> (case u64_of_payload marker bytes of
               Inl err \<Rightarrow> (Inl err, c)
             | Inr v \<Rightarrow> bulk_loop (remaining - 1) (out @ [v]) (c\<lparr>cc_position := e\<rparr>))))"
  by pat_completeness auto

text \<open>Every round takes at least one element off.\<close>

termination
  by (relation "measure (\<lambda>(remaining, _). remaining)") (simp_all only: in_measure split_conv wf_measure, arith+)

declare bulk_loop.simps [simp del]

definition reserve :: "host \<Rightarrow> cty \<Rightarrow> nat \<Rightarrow> (cursor, unit) op" where
  "reserve h t len = (if h_reserve h t len then sret () else sfail (SizeLimit usize_max))"

definition read_varints_bulk :: "host \<Rightarrow> nat \<Rightarrow> (cursor, u64 list) op" where
  "read_varints_bulk h len = sbind (reserve h (CScalar SU64) len) (\<lambda>_. bulk_loop len [])"

text \<open>\<^verbatim>\<open>chunks_exact\<close>: a shorter last piece is dropped.\<close>

function chunks_exact :: "nat \<Rightarrow> byte list \<Rightarrow> byte list list" where
  "chunks_exact n xs = (if n = 0 \<or> length xs < n then [] else take n xs # chunks_exact n (drop n xs))"
  by pat_completeness auto

termination by (relation "measure (\<lambda>(n, xs). length xs)") auto

declare chunks_exact.simps [simp del]

text \<open>
  \<^verbatim>\<open>out.copy_from_slice(values)\<close> on the freshly reserved, still empty vector: it panics unless the
  source is empty too.
\<close>

definition copy_into_empty :: "'a list \<Rightarrow> (cursor, 'a list) op" where
  "copy_into_empty values = (if values = [] then sret []
     else sfail (Panic ''copy_from_slice: source slice length does not match destination slice length''))"

definition read_f64_vec :: "host \<Rightarrow> nat \<Rightarrow> (cursor, u64 list) op" where
  "read_f64_vec h len =
    (if len * 8 > usize_max then sfail (IntegerOverflow ''usize'')
     else (\<lambda>c. sbind (cc_take (len * 8)) (\<lambda>bytes.
            sbind (reserve h (CScalar SF64) len) (\<lambda>_.
            let values = map from_le_bytes (chunks_exact 8 bytes)
            in if (h_addr h + cc_position c) mod 8 = 0 then copy_into_empty values else sret values)) c))"

definition read_f32_vec :: "host \<Rightarrow> nat \<Rightarrow> (cursor, u32 list) op" where
  "read_f32_vec h len =
    (if len * 4 > usize_max then sfail (IntegerOverflow ''usize'')
     else (\<lambda>c. sbind (cc_take (len * 4)) (\<lambda>bytes.
            sbind (reserve h (CScalar SF32) len) (\<lambda>_.
            let values = map from_le_bytes (chunks_exact 4 bytes)
            in if (h_addr h + cc_position c) mod 4 = 0 then copy_into_empty values else sret values)) c))"

section \<open>\<^verbatim>\<open>decode_compact\<close>\<close>

definition narrow_u :: "nat \<Rightarrow> string \<Rightarrow> u64 \<Rightarrow> error + u64" where
  "narrow_u bits name v = (if unat v < 2 ^ bits then Inr v else Inl (IntegerOverflow name))"

fun decode_scalar :: "sty \<Rightarrow> (cursor, sval) op" where
  "decode_scalar SUnit = sret XUnit"
| "decode_scalar SBool = sbind read_bool (\<lambda>b. sret (XBool b))"
| "decode_scalar SU8 = sbind cc_byte (\<lambda>b. sret (XU8 b))"
| "decode_scalar SI8 = sbind cc_byte (\<lambda>b. sret (XI8 b))"
| "decode_scalar SU16 = sbind read_varint (\<lambda>v. slift (\<lambda>_. rmap (\<lambda>v. XU16 (ucast v)) (narrow_u 16 ''u16'' v)))"
| "decode_scalar SU32 = sbind read_varint (\<lambda>v. slift (\<lambda>_. rmap (\<lambda>v. XU32 (ucast v)) (narrow_u 32 ''u32'' v)))"
| "decode_scalar SU64 = sbind read_varint (\<lambda>v. slift (\<lambda>_. rmap XU64 (narrow_u 64 ''u64'' v)))"
| "decode_scalar SU128 = sbind read_varint_u128 (\<lambda>v. sret (XU128 v))"
| "decode_scalar SI16 = sbind read_zigzag (\<lambda>v. slift (\<lambda>_. rmap (\<lambda>v. XI16 (ucast v)) (try_signed 16 ''i16'' (scast v))))"
| "decode_scalar SI32 = sbind read_zigzag (\<lambda>v. slift (\<lambda>_. rmap (\<lambda>v. XI32 (ucast v)) (try_signed 32 ''i32'' (scast v))))"
| "decode_scalar SI64 = sbind read_zigzag (\<lambda>v. slift (\<lambda>_. rmap (\<lambda>v. XI64 (ucast v)) (try_signed 64 ''i64'' (scast v))))"
| "decode_scalar SI128 = sbind read_zigzag_i128 (\<lambda>v. sret (XI128 v))"
| "decode_scalar SF32 = sbind cc_read_f32 (\<lambda>v. sret (XF32 v))"
| "decode_scalar SF64 = sbind cc_read_f64 (\<lambda>v. sret (XF64 v))"
| "decode_scalar SChar = sbind read_varint (\<lambda>v. slift (\<lambda>_. rbind (narrow_u 32 ''u32'' v) (\<lambda>v.
     if char_ok (ucast v) then Inr (XChar (ucast v)) else Inl InvalidChar)))"
| "decode_scalar SStr = sbind read_str (\<lambda>s. sret (XStr s))"

text \<open>The fast paths of a vector's elements.\<close>

fun decode_bulk :: "host \<Rightarrow> cty \<Rightarrow> nat \<Rightarrow> (cursor, cval list) op option" where
  "decode_bulk h (CScalar s) len =
    (if s = SU8 then Some (sbind (cc_take len) (\<lambda>bytes. sbind (reserve h (CScalar SU8) len) (\<lambda>_.
         sret (map (\<lambda>b. VScalar (XU8 b)) bytes))))
     else if s = SI8 then Some (sbind (cc_take len) (\<lambda>bytes. sbind (reserve h (CScalar SI8) len) (\<lambda>_.
         copy_into_empty (map (\<lambda>b. VScalar (XI8 b)) bytes))))
     else if s = SF64 then Some (sbind (read_f64_vec h len) (\<lambda>vs. sret (map (\<lambda>v. VScalar (XF64 v)) vs)))
     else if s = SF32 then Some (sbind (read_f32_vec h len) (\<lambda>vs. sret (map (\<lambda>v. VScalar (XF32 v)) vs)))
     else if s = SU64 then Some (sbind (read_varints_bulk h len) (\<lambda>vs. sret (map (\<lambda>v. VScalar (XU64 v)) vs)))
     else None)"
| "decode_bulk h _ len = None"

text \<open>
  A \<^verbatim>\<open>BTreeMap\<close> does not reserve: for its type the host's grant is \<open>True\<close>.
\<close>

function (sequential) decode_compact :: "host \<Rightarrow> cty \<Rightarrow> (cursor, cval) op"
  and decode_each :: "host \<Rightarrow> cty \<Rightarrow> nat \<Rightarrow> (cursor, cval list) op"
  and decode_map :: "host \<Rightarrow> cty \<Rightarrow> cty \<Rightarrow> nat \<Rightarrow> (cval \<times> cval) list \<Rightarrow> (cursor, (cval \<times> cval) list) op"
  and decode_tuple :: "host \<Rightarrow> cty list \<Rightarrow> (cursor, cval list) op" where
  "decode_compact h (CScalar s) = sbind (decode_scalar s) (\<lambda>x. sret (VScalar x))"
| "decode_compact h CBytes = sbind read_length (\<lambda>len. sbind (cc_take len) (\<lambda>bytes.
     sret (VSeq (map (\<lambda>b. VScalar (XU8 b)) bytes))))"
| "decode_compact h (CVec t) = sbind read_length (\<lambda>len.
     sbind (bracketed (cc_enter len) cc_exit (case decode_bulk h t len of
         Some m \<Rightarrow> m
       | None \<Rightarrow> sbind (reserve h t len) (\<lambda>_. decode_each h t len))) (\<lambda>vs. sret (VSeq vs)))"
| "decode_compact h (CArray n t) = sbind (decode_each h t n) (\<lambda>vs. sret (VArr vs))"
| "decode_compact h (CDeque t) = sbind read_length (\<lambda>len.
     sbind (bracketed (cc_enter len) cc_exit
       (sbind (reserve h t len) (\<lambda>_. decode_each h t len))) (\<lambda>vs. sret (VSeq vs)))"
| "decode_compact h (COption t) = sbind read_bool (\<lambda>b.
     if b then sbind (decode_compact h t) (\<lambda>v. sret (VOpt (Some v))) else sret (VOpt None))"
| "decode_compact h (CMap k t) = sbind read_length (\<lambda>len.
     sbind (bracketed (cc_enter len) cc_exit
       (sbind (reserve h (CMap k t) len) (\<lambda>_. decode_map h k t len []))) (\<lambda>kvs. sret (VMap kvs)))"
| "decode_compact h (CTuple ts) = sbind (decode_tuple h ts) (\<lambda>vs. sret (VTuple vs))"
| "decode_compact h (CEnum ts) = sbind decode_variant_index (\<lambda>i.
     if unat i < length ts then sbind (decode_compact h (ts ! unat i)) (\<lambda>v. sret (VEnum i v))
     else sfail (Custom ''unknown compact enum variant''))"
| "decode_each h t 0 = sret []"
| "decode_each h t (Suc n) = sbind (decode_compact h t) (\<lambda>v. sbind (decode_each h t n) (\<lambda>vs. sret (v # vs)))"
| "decode_map h k t 0 out = sret out"
| "decode_map h k t (Suc n) out = sbind (decode_compact h k) (\<lambda>key. sbind (decode_compact h t) (\<lambda>value.
     if key \<in> set (map fst out) then sfail (Custom ''duplicate map key'')
     else decode_map h k t n (out @ [(key, value)])))"
| "decode_tuple h [] = sret []"
| "decode_tuple h (t # ts) = sbind (decode_compact h t) (\<lambda>v. sbind (decode_tuple h ts) (\<lambda>vs. sret (v # vs)))"
  by pat_completeness auto

lemma size_nth_less: "i < length ts \<Longrightarrow> 2 * size (ts ! i) < Suc (Suc (2 * size_list size ts))"
  using size_list_estimation'[of "ts ! i" ts "size (ts ! i)" size] by simp

termination decode_compact
  by (relation "measures [(\<lambda>x. case x of
        Inl (Inl (h, t)) \<Rightarrow> 2 * size t
      | Inl (Inr (h, t, n)) \<Rightarrow> 2 * size t + 1
      | Inr (Inl (h, k, t, n, out)) \<Rightarrow> 2 * (size k + size t) + 1
      | Inr (Inr (h, ts)) \<Rightarrow> 2 * size_list size ts),
    (\<lambda>x. case x of
        Inl (Inl (h, t)) \<Rightarrow> 0
      | Inl (Inr (h, t, n)) \<Rightarrow> n
      | Inr (Inl (h, k, t, n, out)) \<Rightarrow> n
      | Inr (Inr (h, ts)) \<Rightarrow> 0)]")
    (auto simp: size_nth_less)

definition compact_deserialize :: "host \<Rightarrow> config \<Rightarrow> cty \<Rightarrow> byte list \<Rightarrow> error + cval" where
  "compact_deserialize h cfg t input =
    (case decode_compact h t (cursor_new input cfg) of
       (Inl err, _) \<Rightarrow> Inl err
     | (Inr v, c) \<Rightarrow>
         if c_trailing cfg = Reject \<and> cc_position c \<noteq> length input
         then Inl (TrailingBytesError (length input - cc_position c)) else Inr v)"

section \<open>The cursor as a reader\<close>

definition cc_adv :: "nat \<Rightarrow> cursor \<Rightarrow> cursor" where
  "cc_adv n c = c\<lparr>cc_position := cc_position c + n\<rparr>"

definition cc_rest :: "cursor \<Rightarrow> byte list" where
  "cc_rest c = unread (cc_limit_end c) (cc_input c) (cc_position c)"

definition cc_valid :: "cursor \<Rightarrow> bool" where
  "cc_valid c \<longleftrightarrow> cc_position c \<le> length (cc_input c) \<and> length (cc_input c) \<le> usize_max \<and>
     within (cc_limit_end c) (cc_position c)"

lemma cc_adv_simps [simp]:
  "cc_position (cc_adv n c) = cc_position c + n" "cc_input (cc_adv n c) = cc_input c"
  "cc_limit_end (cc_adv n c) = cc_limit_end c" "cc_depth (cc_adv n c) = cc_depth c"
  "cc_collection_limit (cc_adv n c) = cc_collection_limit c"
  "cc_depth_limit (cc_adv n c) = cc_depth_limit c"
  "cc_adv 0 c = c" "cc_adv m (cc_adv n c) = cc_adv (n + m) c"
  by (simp_all add: cc_adv_def add.assoc)

interpretation cc: reader cc_rest cc_adv cc_valid
proof unfold_locales
  show "cc_rest (cc_adv n s) = drop n (cc_rest s)" for n s
    by (simp add: cc_rest_def unread_step)
  show "cc_valid (cc_adv (length bs) s)" if "cc_valid s" "cc_rest s = bs @ zs" for s bs zs
    using that unread_prefix[of "cc_limit_end s" "cc_input s" "cc_position s" bs zs]
    by (cases "bs = []") (auto simp: cc_valid_def cc_rest_def)
qed simp_all

lemma cc_starts_slice:
  assumes "cc.starts c bs"
  shows "cc_position c + length bs \<le> length (cc_input c)" "length (cc_input c) \<le> usize_max"
    "within (cc_limit_end c) (cc_position c + length bs)"
    "slice (cc_position c) (cc_position c + length bs) (cc_input c) = Some bs"
proof -
  obtain zs where z: "cc_valid c" "cc_rest c = bs @ zs" using assms by (auto simp: cc.starts_def)
  note p = unread_prefix[OF z(2)[unfolded cc_rest_def]]
  show "cc_position c + length bs \<le> length (cc_input c)" "length (cc_input c) \<le> usize_max"
    "slice (cc_position c) (cc_position c + length bs) (cc_input c) = Some bs"
    using z(1) p(1,2) by (simp_all add: cc_valid_def)
  show "within (cc_limit_end c) (cc_position c + length bs)"
    using z(1) p(3) by (cases "bs = []") (simp_all add: cc_valid_def)
qed

lemma cc_yields_take: "n = length bs \<Longrightarrow> cc.yields (cc_take n) bs bs"
  unfolding cc.yields_def
proof (intro allI impI)
  fix c assume n: "n = length bs" and c: "cc.starts c bs"
  note s = cc_starts_slice[OF c]
  then show "cc_take n c = (Inr bs, cc_adv (length bs) c)"
    using n by (simp add: cc_take_def Let_def enforce_limit_def check_limit_if cc_adv_def)
qed

lemma cc_starts_get:
  assumes "cc.starts c (b # x)"
  shows "cc_get c = Some b"
proof -
  obtain zs where "cc_rest c = b # x @ zs" using assms by (auto simp: cc.starts_def)
  from unread_hd[OF this[unfolded cc_rest_def]] show ?thesis by (simp add: cc_get_def)
qed

lemma cc_advance:
  assumes "cc.starts c (b # x)"
  shows "advance_one (cc_position c) c = (Inr (), cc_adv 1 c)"
  using cc_starts_slice(3)[OF conjunct1[OF cc.rd_starts_Cons[OF assms]]]
  by (simp add: advance_one_def enforce_limit_def check_limit_if cc_adv_def)

lemma cc_yields_byte: "cc.yields cc_byte [b] b"
  by (simp add: cc.yields_def cc_byte_def cc_starts_get cc_advance)

lemma marker_width_payload:
  "payload_len m = Some n \<Longrightarrow> \<not> m \<le> 250 \<Longrightarrow> marker_width m = Inr (Suc n)"
  by (erule payload_len_cases) (simp_all add: marker_width_def marker_defs)

lemma payload_at_starts:
  assumes "cc.starts c (m # p)" and "payload_len m = Some (length p)" and "\<not> m \<le> 250"
  shows "payload_at m c = Inr (cc_position c + length (m # p), p)"
proof -
  have s1: "slice (cc_position c) (cc_position c + length (m # p)) (cc_input c) = Some (m # p)"
    "within (cc_limit_end c) (cc_position c + length (m # p))"
    using cc_starts_slice[OF assms(1)] by simp_all
  have "cc.starts (cc_adv 1 c) p" using cc.rd_starts_Cons[OF assms(1)] by simp
  from cc_starts_slice(4)[OF this]
  have "slice (cc_position c + 1) (cc_position c + length (m # p)) (cc_input c) = Some p" by simp
  then show ?thesis
    using s1(2) marker_width_payload[OF assms(2,3)]
    by (simp add: payload_at_def enforce_limit_def check_limit_if Let_def)
qed

lemma varint_decomp:
  obtains m p where "varint_bytes v = m # p" "payload_len m = Some (length p)" "decode_varint_le m p = Some v"
    "m \<le> 250 \<longrightarrow> p = [] \<and> v = ucast m"
proof -
  obtain m p where mp: "varint_bytes v = m # p" by (cases v rule: varint_cases) auto
  have s: "payload_len m = Some (length p)" "decode_varint_le m p = Some v"
    using varint_bytes_shape[of v] varint_decode_encode[of v] mp by simp_all
  show thesis
  proof (rule that[OF mp s], rule impI)
    assume "m \<le> 250"
    then show "p = [] \<and> v = ucast m" using s by simp
  qed
qed

lemma cc_yields_varint_u128: "cc.yields read_varint_u128 (varint_bytes v) v"
  unfolding cc.yields_def
proof (intro allI impI)
  fix c assume c: "cc.starts c (varint_bytes v)"
  obtain m p where mp: "varint_bytes v = m # p" "payload_len m = Some (length p)"
    "decode_varint_le m p = Some v" "m \<le> 250 \<longrightarrow> p = [] \<and> v = ucast m" by (rule varint_decomp[of v])
  show "read_varint_u128 c = (Inr v, cc_adv (length (varint_bytes v)) c)"
    using c mp(3,4) cc_starts_get[of c m p] cc_advance[of c m p] payload_at_starts[of c m p] mp(2)
    by (simp add: mp(1) read_varint_u128_def cc_adv_def)
qed

lemma cc_yields_varint: "cc.yields read_varint (varint_bytes (ucast v)) v"
  unfolding cc.yields_def
proof (intro allI impI)
  fix c assume c: "cc.starts c (varint_bytes (ucast v))"
  obtain m p where mp: "varint_bytes (ucast v) = m # p" "payload_len m = Some (length p)"
    "decode_varint_le m p = Some (ucast v)" "m \<le> 250 \<longrightarrow> p = [] \<and> (ucast v :: u128) = ucast m"
    by (rule varint_decomp[of "ucast v"])
  have b: "unat (ucast v :: u128) < 2 ^ 64"
    using unsigned_less[of v, where ?'a = nat] by (simp add: unat_ucast_id)
  have u: "(ucast (ucast v :: u128) :: u64) = v" by (simp add: ucast_ucast_up)
  have "m \<le> 250 \<Longrightarrow> ucast m = v"
    using mp(4) u ucast_ucast_up[of m, where 'b = 128 and 'c = 64] by simp
  moreover have "u64_of_payload m p = Inr v"
    using mp(3) b u by (cases "m = MARKER_U128") (auto simp: u64_of_payload_def decode_u64_eq)
  ultimately show "read_varint c = (Inr v, cc_adv (length (varint_bytes (ucast v))) c)"
    using c mp(4) cc_starts_get[of c m p] cc_advance[of c m p] payload_at_starts[of c m p] mp(2)
    by (simp add: mp(1) read_varint_def cc_adv_def)
qed

section \<open>Round trip\<close>

text \<open>Scalars and lengths.\<close>

lemma cc_yields_length: "n \<le> usize_max \<Longrightarrow> cc.yields read_length (varint_bytes (of_nat n)) n"
  unfolding read_length_def
  by (rule cc.rd_yields_map[where v = "of_nat n"])
    (use cc_yields_varint[of "of_nat n"] in \<open>simp_all add: ucast_of_nat unat_of_nat del: sop_simps\<close>)

lemma sint_scast_up: "LENGTH('a) \<le> LENGTH('b) \<Longrightarrow> sint (scast (n :: 'a::len word) :: 'b::len word) = sint n"
  by (simp add: sint_up_scast is_up_def source_size target_size)

lemma try_signed_fits:
  "LENGTH('a::len) = bits \<Longrightarrow> bits \<le> 128 \<Longrightarrow> try_signed bits name (scast (n :: 'a word)) = Inr (scast n)"
  using sint_ge[of n] sint_lt[of n] by (simp add: try_signed_def sint_scast_up)

lemma ucast_scast_back: "LENGTH('a) \<le> LENGTH('b) \<Longrightarrow> (ucast (scast (n :: 'a::len word) :: 'b::len word) :: 'a word) = n"
  by (rule bit_word_eqI) (auto simp: bit_unsigned_iff bit_signed_iff)

lemma cc_yields_zigzag: "cc.yields read_zigzag (varint_bytes (zigzag_encode (scast v))) v"
  unfolding read_zigzag_def
  by (rule cc.rd_yields_map[OF cc_yields_varint_u128])
    (auto simp: fun_eq_iff zigzag_decode_encode try_signed_fits ucast_scast_back)

lemma cc_yields_zigzag_i128: "cc.yields read_zigzag_i128 (varint_bytes (zigzag_encode v)) v"
  unfolding read_zigzag_i128_def
  by (rule cc.rd_yields_map[OF cc_yields_varint_u128]) (simp add: zigzag_decode_encode)

lemma cc_yields_bool: "cc.yields read_bool [if b then 1 else 0] b"
  unfolding read_bool_def by (rule cc.rd_yields_map[OF cc_yields_byte]) auto

lemma cc_yields_str:
  assumes "utf8_valid s" and "length s \<le> usize_max"
  shows "cc.yields read_str (varint_bytes (of_nat (length s)) @ s) s"
  unfolding read_str_def
  by (rule cc.rd_yields_sbind[OF cc_yields_length[OF assms(2)]],
      rule cc.rd_yields_map[OF cc_yields_take]) (simp_all add: assms(1))

lemma narrow_u_fits: "LENGTH('a::len) = bits \<Longrightarrow> bits \<le> 64 \<Longrightarrow> narrow_u bits name (ucast (n :: 'a word)) = Inr (ucast n)"
proof -
  assume b: "LENGTH('a) = bits" "bits \<le> 64"
  have n: "unat n < 2 ^ bits" using unsigned_less[of n, where ?'a = nat] b(1) by simp
  also have "(2::nat) ^ bits \<le> 2 ^ 64" using b(2) by (intro power_increasing) simp_all
  finally have "unat (ucast n :: u64) = unat n" by (simp add: unat_ucast_id)
  then show ?thesis using n by (simp add: narrow_u_def)
qed

lemma cc_yields_varint_up:
  "cc.yields read_varint (varint_bytes (ucast (a :: u16))) (ucast a)"
  "cc.yields read_varint (varint_bytes (ucast (b :: u32))) (ucast b)"
  using cc_yields_varint[of "ucast a"] cc_yields_varint[of "ucast b"] by (simp_all add: ucast_ucast_up)

lemma cc_yields_zigzag_up:
  "cc.yields read_zigzag (varint_bytes (zigzag_encode (scast (a :: u16)))) (scast a)"
  "cc.yields read_zigzag (varint_bytes (zigzag_encode (scast (b :: u32)))) (scast b)"
  using cc_yields_zigzag[of "scast a"] cc_yields_zigzag[of "scast b"] by (simp_all add: scast_scast_up)

lemma cc_yields_float:
  "cc.yields cc_read_f32 (to_le_bytes a) a" "cc.yields cc_read_f64 (to_le_bytes b) b"
  unfolding cc_read_f32_def cc_read_f64_def
  by (rule cc.rd_yields_map[OF cc_yields_take]; simp)+

lemmas cc_yields_leaf = cc_yields_byte cc_yields_varint cc_yields_varint_u128 cc_yields_zigzag
  cc_yields_zigzag_i128 cc_yields_bool cc_yields_varint_up cc_yields_zigzag_up cc_yields_float

lemma cc_yields_then:
  "cc.yields m x v \<Longrightarrow> f v = Inr w \<Longrightarrow> cc.yields (sbind m (\<lambda>v. slift (\<lambda>_. f v))) x w"
  by (rule cc.rd_yields_map) (auto simp: fun_eq_iff)

lemma cc_yields_ret: "cc.yields m x v \<Longrightarrow> cc.yields (sbind m (\<lambda>v. sret (f v))) x (f v)"
  by (rule cc.rd_yields_map) auto

lemma cc_yields_scalar:
  assumes "styped s x"
  shows "cc.yields (decode_scalar s) (swire x) x"
proof (cases x)
  case XUnit
  then show ?thesis using assms cc.rd_yields_ret[of XUnit] by (cases s) (simp_all del: sop_simps)
next
  case (XBool b)
  then show ?thesis using assms cc_yields_ret[OF cc_yields_bool[of b]] by (cases s; cases b) (simp_all del: sop_simps)
next
  case (XU16 a)
  then show ?thesis
    using assms cc_yields_then[OF cc_yields_varint_up(1)[of a], of _ x]
    by (cases s) (simp_all add: narrow_u_fits ucast_ucast_up)
next
  case (XU32 a)
  then show ?thesis
    using assms cc_yields_then[OF cc_yields_varint_up(2)[of a], of _ x]
    by (cases s) (simp_all add: narrow_u_fits ucast_ucast_up)
next
  case (XU64 a)
  then show ?thesis
    using assms cc_yields_then[OF cc_yields_varint[of a], of _ x] narrow_u_fits[of 64 _ a]
    by (cases s) (simp_all)
next
  case (XI16 a)
  then show ?thesis
    using assms cc_yields_then[OF cc_yields_zigzag_up(1)[of a], of _ x]
    by (cases s) (simp_all add: try_signed_fits scast_scast_up ucast_scast_back)
next
  case (XI32 a)
  then show ?thesis
    using assms cc_yields_then[OF cc_yields_zigzag_up(2)[of a], of _ x]
    by (cases s) (simp_all add: try_signed_fits scast_scast_up ucast_scast_back)
next
  case (XI64 a)
  then show ?thesis
    using assms cc_yields_then[OF cc_yields_zigzag[of a], of _ x]
    by (cases s) (simp_all add: try_signed_fits scast_scast_up ucast_scast_back)
next
  case (XChar a)
  then show ?thesis
    using assms cc_yields_then[OF cc_yields_varint_up(2)[of a], of _ x]
    by (cases s) (simp_all add: narrow_u_fits ucast_ucast_up)
next
  case (XStr t)
  then show ?thesis
    using assms cc_yields_ret[OF cc_yields_str[of t]] by (cases s) (simp_all del: sop_simps)
next
  case (XU8 a)
  then show ?thesis using assms cc_yields_ret[OF cc_yields_byte[of a]] by (cases s) (simp_all del: sop_simps)
next
  case (XI8 a)
  then show ?thesis using assms cc_yields_ret[OF cc_yields_byte[of a]] by (cases s) (simp_all del: sop_simps)
next
  case (XU128 a)
  then show ?thesis using assms cc_yields_ret[OF cc_yields_varint_u128[of a]] by (cases s) (simp_all del: sop_simps)
next
  case (XI128 a)
  then show ?thesis using assms cc_yields_ret[OF cc_yields_zigzag_i128[of a]] by (cases s) (simp_all del: sop_simps)
next
  case (XF32 a)
  then show ?thesis using assms cc_yields_ret[OF cc_yields_float(1)[of a]] by (cases s) (simp_all del: sop_simps)
next
  case (XF64 a)
  then show ?thesis using assms cc_yields_ret[OF cc_yields_float(2)[of a]] by (cases s) (simp_all del: sop_simps)
qed

section \<open>The bulk varint decoder is the element loop\<close>

primrec varint_each :: "nat \<Rightarrow> (cursor, u64 list) op" where
  "varint_each 0 = sret []"
| "varint_each (Suc n) = sbind read_varint (\<lambda>v. sbind (varint_each n) (\<lambda>vs. sret (v # vs)))"

text \<open>Same result, and on success the same cursor; a failed batch stops at its first byte.\<close>

definition agree :: "(error + 'a) \<times> cursor \<Rightarrow> (error + 'a) \<times> cursor \<Rightarrow> bool" where
  "agree r r' \<longleftrightarrow> fst r = fst r' \<and> (\<forall>v. fst r = Inr v \<longrightarrow> snd r = snd r')"

lemma agree_refl [simp]: "agree r r"
  by (simp add: agree_def)

lemma agree_err: "agree (Inl e, c) (Inl e, c')"
  by (simp add: agree_def)

lemma agree_trans: "agree r s \<Longrightarrow> agree s t \<Longrightarrow> agree r t"
  by (auto simp: agree_def)

lemma agree_map: "agree r s \<Longrightarrow> agree (sbind (\<lambda>_. r) (\<lambda>v. sret (f v)) c) (sbind (\<lambda>_. s) (\<lambda>v. sret (f v)) c)"
  by (cases r; cases s; cases "fst r"; cases "fst s") (auto simp: agree_def sbind_def)

lemma read_varint_plain:
  assumes "cc_get c = Some b" and "b \<le> 250"
  shows "read_varint c = (if within (cc_limit_end c) (cc_position c + 1)
     then (Inr (ucast b), cc_adv 1 c) else (Inl (SizeLimit (the (cc_limit_end c))), c))"
  using assms by (simp add: read_varint_def advance_one_def enforce_limit_def check_limit_if sbind_def cc_adv_def)

definition plain_run :: "nat \<Rightarrow> cursor \<Rightarrow> bool" where
  "plain_run k c \<longleftrightarrow> cc_position c + k \<le> length (cc_input c) \<and>
     (\<forall>b\<in>set (take k (drop (cc_position c) (cc_input c))). b \<le> 250)"

lemma plain_run_Suc:
  assumes "plain_run (Suc k) c"
  obtains b where "cc_get c = Some b" "b \<le> 250" "plain_run k (cc_adv 1 c)"
    "take (Suc k) (drop (cc_position c) (cc_input c)) = b # take k (drop (cc_position c + 1) (cc_input c))"
proof -
  have l: "cc_position c < length (cc_input c)" using assms by (simp add: plain_run_def)
  then have d: "drop (cc_position c) (cc_input c) = cc_input c ! cc_position c # drop (cc_position c + 1) (cc_input c)"
    by (simp add: Cons_nth_drop_Suc)
  show thesis
    by (rule that[of "cc_input c ! cc_position c"])
      (use assms l d in \<open>simp_all add: plain_run_def cc_get_def\<close>)
qed

lemma varint_each_run:
  "plain_run k c \<Longrightarrow> within (cc_limit_end c) (cc_position c + k) \<Longrightarrow>
   varint_each (k + m) c = sbind (varint_each m) (\<lambda>vs. sret
     (map ucast (take k (drop (cc_position c) (cc_input c))) @ vs)) (cc_adv k c)"
proof (induction k arbitrary: c)
  case 0
  then show ?case by (simp add: sbind_def split: prod.split sum.split)
next
  case (Suc k)
  obtain b where b: "cc_get c = Some b" "b \<le> 250" "plain_run k (cc_adv 1 c)"
    "take (Suc k) (drop (cc_position c) (cc_input c)) = b # take k (drop (cc_position c + 1) (cc_input c))"
    by (rule plain_run_Suc[OF Suc.prems(1)])
  have "read_varint c = (Inr (ucast b), cc_adv 1 c)"
    using read_varint_plain[OF b(1,2)] within_mono[OF Suc.prems(2), of "cc_position c + 1"] by simp
  then show ?case
    using Suc.IH[OF b(3)] Suc.prems(2) by (simp add: b(4) sbind_assoc) (simp add: sbind_def split: prod.split sum.split)
qed

lemma varint_each_over:
  "plain_run k c \<Longrightarrow> 0 < k \<Longrightarrow> \<not> within (cc_limit_end c) (cc_position c + k) \<Longrightarrow>
   fst (varint_each (k + m) c) = Inl (SizeLimit (the (cc_limit_end c)))"
proof (induction k arbitrary: c)
  case (Suc k)
  obtain b where b: "cc_get c = Some b" "b \<le> 250" "plain_run k (cc_adv 1 c)" by (rule plain_run_Suc[OF Suc.prems(1)])
  show ?case
  proof (cases "within (cc_limit_end c) (cc_position c + 1)")
    case True
    then have k: "0 < k" using Suc.prems(3) by (cases k) simp_all
    have r: "read_varint c = (Inr (ucast b), cc_adv 1 c)" using read_varint_plain[OF b(1,2)] True by simp
    have "fst (varint_each (k + m) (cc_adv 1 c)) = Inl (SizeLimit (the (cc_limit_end c)))"
      using Suc.IH[OF b(3) k] Suc.prems(3) by simp
    then show ?thesis using r by (cases "varint_each (k + m) (cc_adv 1 c)") simp
  next
    case False
    then show ?thesis using read_varint_plain[OF b(1,2)] by simp
  qed
qed simp

lemma take_takeWhile_all:
  assumes "k \<le> length (takeWhile P xs)" and "b \<in> set (take k xs)"
  shows "P b"
proof -
  have "take k xs = take k (takeWhile P xs)"
    using assms(1) by (subst takeWhile_eq_take) (simp add: min_absorb1)
  then have "b \<in> set (takeWhile P xs)" using assms(2) by (simp only: in_set_takeD)
  then show ?thesis by (rule set_takeWhileD[THEN conjunct2])
qed

lemma batch_run:
  assumes "cc_get c = Some m" and "m \<le> 250"
    and "window = take (min k (length (drop (cc_position c + 1) (cc_input c)))) (drop (cc_position c + 1) (cc_input c))"
  shows "plain_run (1 + min (plain_varint_prefix window) k) c"
proof -
  let ?x = "min (plain_varint_prefix window) k"
  let ?d = "drop (cc_position c + 1) (cc_input c)"
  have p: "cc_position c < length (cc_input c)" "cc_input c ! cc_position c = m"
    using assms(1) by (auto simp: cc_get_def split: if_splits)
  then have d: "drop (cc_position c) (cc_input c) = m # ?d" by (metis Cons_nth_drop_Suc Suc_eq_plus1)
  have x: "?x \<le> length (takeWhile (\<lambda>b. b \<le> 250) window)" by (simp add: plain_varint_prefix_def)
  also have "\<dots> \<le> length window" by (rule length_takeWhile_le)
  finally have l: "?x \<le> length window" .
  then have t: "take ?x ?d = take ?x window" using assms(3) by (simp add: min_def)
  have "\<forall>b\<in>set (take ?x ?d). b \<le> 250"
    unfolding t using take_takeWhile_all[OF x] by blast
  moreover have "?x \<le> length ?d" using l assms(3) by simp
  ultimately show ?thesis using p(1) assms(2) d by (simp add: plain_run_def)
qed

lemma bulk_loop_agree:
  "agree (bulk_loop n out c) (sbind (varint_each n) (\<lambda>vs. sret (out @ vs)) c)"
proof (induction n out c rule: bulk_loop.induct)
  case (1 n out c)
  show ?case
  proof (cases "n = 0")
    case True
    then show ?thesis by (simp add: bulk_loop.simps)
  next
    case n: False
    show ?thesis
    proof (cases "cc_get c")
      case None
      then show ?thesis using n by (cases n) (simp_all add: bulk_loop.simps read_varint_def)
    next
      case (Some marker)
      show ?thesis
      proof (cases "marker \<le> 250")
        case plain: True
        define available where "available = drop (cc_position c + 1) (cc_input c)"
        define window where "window = take (min (n - 1) (length available)) available"
        define extra where "extra = min (plain_varint_prefix window) (n - 1)"
        define e where "e = cc_position c + 1 + extra"
        have run: "plain_run (1 + extra) c"
          unfolding extra_def by (rule batch_run[OF Some plain]) (simp add: window_def available_def)
        have split: "n = (1 + extra) + (n - (1 + extra))" using n by (simp add: extra_def)
        note IH = 1(1)[OF n Some plain available_def window_def extra_def e_def]
        have e: "e - cc_position c = 1 + extra" "c\<lparr>cc_position := e\<rparr> = cc_adv (1 + extra) c"
          by (simp_all add: e_def cc_adv_def)
        have step: "bulk_loop n out c = (case enforce_limit e c of Inl err \<Rightarrow> (Inl err, c)
            | Inr _ \<Rightarrow> bulk_loop (n - (1 + extra))
                (out @ map ucast (take (e - cc_position c) (drop (cc_position c) (cc_input c)))) (c\<lparr>cc_position := e\<rparr>))"
          unfolding e_def extra_def window_def available_def
          by (subst bulk_loop.simps) (simp only: n Some plain Let_def if_False if_True option.case)
        show ?thesis
        proof (cases "within (cc_limit_end c) e")
          case True
          then have l: "enforce_limit e c = Inr ()" by (simp add: enforce_limit_def)
          have "varint_each n c = sbind (varint_each (n - (1 + extra))) (\<lambda>vs. sret
              (map ucast (take (1 + extra) (drop (cc_position c) (cc_input c))) @ vs)) (cc_adv (1 + extra) c)"
            by (subst split, rule varint_each_run[OF run]) (use True in \<open>simp add: e_def\<close>)
          moreover have "bulk_loop n out c = bulk_loop (n - (1 + extra))
              (out @ map ucast (take (1 + extra) (drop (cc_position c) (cc_input c)))) (cc_adv (1 + extra) c)"
            unfolding step l e by simp
          ultimately show ?thesis
            using IH[OF l, unfolded e]
            by (simp add: sbind_def split: prod.splits sum.splits)
        next
          case False
          then have l: "enforce_limit e c = Inl (SizeLimit (the (cc_limit_end c)))"
            by (simp add: enforce_limit_def check_limit_if)
          have "fst (varint_each n c) = Inl (SizeLimit (the (cc_limit_end c)))"
            by (subst split, rule varint_each_over[OF run]) (use False in \<open>simp_all add: e_def\<close>)
          then show ?thesis
            unfolding step l by (cases "varint_each n c") (simp add: agree_def)
        qed
      next
        case False
        obtain m where m: "n = Suc m" using n by (cases n) auto
        show ?thesis
        proof (cases "payload_at marker c")
          case (Inl err)
          then show ?thesis using m Some False
            by (subst bulk_loop.simps) (simp add: read_varint_def agree_def)
        next
          case (Inr p)
          obtain e bytes where p: "p = (e, bytes)" by (cases p)
          show ?thesis
          proof (cases "u64_of_payload marker bytes")
            case (Inl err)
            then show ?thesis using m Some False Inr p
              by (subst bulk_loop.simps) (simp add: read_varint_def agree_def)
          next
            case v: (Inr v)
            have r: "read_varint c = (Inr v, c\<lparr>cc_position := e\<rparr>)"
              using Some False Inr p v by (simp add: read_varint_def)
            have "bulk_loop n out c = bulk_loop m (out @ [v]) (c\<lparr>cc_position := e\<rparr>)"
              using m Some False Inr p v by (subst bulk_loop.simps) simp
            then show ?thesis
              using 1(2)[OF n Some False Inr p[symmetric] v] r m
              by (simp add: sbind_def split: prod.splits sum.splits)
          qed
        qed
      qed
    qed
  qed
qed

text \<open>
  C12: the bulk decoder of numeric vectors is the element-by-element loop. On every cursor, whatever the
  input, the byte limit and the mix of short and long varints, it returns the same values and leaves
  the same cursor, or fails with the same error.
\<close>

theorem bulk_decode_equivalent:
  "rmap (\<lambda>vs. (vs, snd (read_varints_bulk h n c))) (fst (read_varints_bulk h n c)) =
   rmap (\<lambda>vs. (vs, snd (sbind (reserve h (CScalar SU64) n) (\<lambda>_. varint_each n) c)))
     (fst (sbind (reserve h (CScalar SU64) n) (\<lambda>_. varint_each n) c))"
proof (cases "h_reserve h (CScalar SU64) n")
  case True
  have "agree (bulk_loop n [] c) (varint_each n c)"
    using bulk_loop_agree[of n "[]" c] by (simp add: sbind_def agree_def split: prod.splits sum.splits)
  then show ?thesis
    using True by (cases "fst (varint_each n c)") (auto simp: read_varints_bulk_def reserve_def agree_def sbind_def)
next
  case False
  then show ?thesis by (simp add: read_varints_bulk_def reserve_def sbind_def)
qed

section \<open>What a decoder takes\<close>

definition takes :: "nat option \<Rightarrow> (cursor, 'a) op \<Rightarrow> byte list \<Rightarrow> 'a \<Rightarrow> nat \<Rightarrow> bool" where
  "takes cl m bs v k \<longleftrightarrow> (\<forall>c. cc.starts c bs \<longrightarrow> cc_collection_limit c = cl \<longrightarrow>
     cc_depth c + k \<le> cc_depth_limit c \<longrightarrow> m c = (Inr v, cc_adv (length bs) c))"

lemma takesD:
  "takes cl m bs v k \<Longrightarrow> cc.starts c bs \<Longrightarrow> cc_collection_limit c = cl \<Longrightarrow>
   cc_depth c + k \<le> cc_depth_limit c \<Longrightarrow> m c = (Inr v, cc_adv (length bs) c)"
  by (simp add: takes_def)

lemma takes_yields: "cc.yields m bs v \<Longrightarrow> takes cl m bs v k"
  by (simp add: takes_def cc.yields_def)

lemma takes_ret: "takes cl (sret v) [] v k"
  by (simp add: takes_def)

lemma takes_bind:
  assumes "takes cl m x v j" and "takes cl (f v) y w k"
  shows "takes cl (sbind m f) (x @ y) w (max j k)"
  unfolding takes_def
proof (intro allI impI)
  fix c assume c: "cc.starts c (x @ y)" "cc_collection_limit c = cl" "cc_depth c + max j k \<le> cc_depth_limit c"
  then have s: "cc.starts c x" "cc.starts (cc_adv (length x) c) y" by (simp_all add: cc.rd_starts_append)
  have "m c = (Inr v, cc_adv (length x) c)" using takesD[OF assms(1) s(1) c(2)] c(3) by simp
  then show "sbind m f c = (Inr w, cc_adv (length (x @ y)) c)"
    using takesD[OF assms(2) s(2)] c by simp
qed

lemma takes_bind0: "takes cl m x v 0 \<Longrightarrow> takes cl (f v) y w k \<Longrightarrow> takes cl (sbind m f) (x @ y) w k"
  using takes_bind[of cl m x v 0 f y w k] by simp

lemma takes_map: "takes cl m x v k \<Longrightarrow> f v = sret w \<Longrightarrow> takes cl (sbind m f) x w k"
  using takes_bind[of cl m x v k f "[]" w 0] takes_ret[of cl w 0] by simp

lemma takes_fun: "takes cl m x v k \<Longrightarrow> takes cl (sbind m (\<lambda>v. sret (g v))) x (g v) k"
  by (rule takes_map) (auto simp del: sop_simps)

lemma cc_depth_simps [simp]:
  "cc_rest (cc_depth_update f c) = cc_rest c" "cc_valid (cc_depth_update f c) = cc_valid c"
  by (simp_all add: cc_rest_def cc_valid_def)

lemma takes_bracket:
  assumes m: "takes cl m x v k" and cl: "within cl n"
  shows "takes cl (bracketed (cc_enter n) cc_exit m) x v (Suc k)"
  unfolding takes_def
proof (intro allI impI)
  fix c assume c: "cc.starts c x" "cc_collection_limit c = cl" "cc_depth c + Suc k \<le> cc_depth_limit c"
  let ?c = "c\<lparr>cc_depth := cc_depth c + 1\<rparr>"
  have e: "cc_enter n c = (Inr (), ?c)" using c cl by (simp add: cc_enter_def check_collection_if)
  have "m ?c = (Inr v, cc_adv (length x) ?c)"
    by (rule takesD[OF m]) (use c in \<open>simp_all add: cc.starts_def\<close>)
  then show "bracketed (cc_enter n) cc_exit m c = (Inr v, cc_adv (length x) c)"
    using e by (simp add: bracketed_def cc_exit_def cc_adv_def)
qed

lemma takes_counted:
  assumes "takes cl m x v k" and "within cl n" and "n \<le> usize_max" and "f n = m"
  shows "takes cl (sbind read_length (\<lambda>len. sbind (bracketed (cc_enter len) cc_exit (f len)) (\<lambda>v. sret (g v))))
     (varint_bytes (of_nat n) @ x) (g v) (Suc k)"
  by (rule takes_bind0[OF takes_yields[OF cc_yields_length[OF assms(3)]]])
    (use takes_fun[OF takes_bracket[OF assms(1,2)]] assms(4) in simp)

lemma takes_reserve: "h_reserve h t n \<Longrightarrow> takes cl m x v k \<Longrightarrow> takes cl (sbind (reserve h t n) (\<lambda>_. m)) x v k"
  by (simp add: reserve_def sbind_sret_left del: sop_simps)

text \<open>
  What the decoder needs beyond the type: the element counts within the collection limit, the allocator's
  consent, and no non-empty vector of a type whose fast path panics.
\<close>

definition vec_safe :: "cty \<Rightarrow> bool" where
  "vec_safe t \<longleftrightarrow> t \<notin> {CScalar SI8, CScalar SF32, CScalar SF64}"

function (sequential) decodable_c :: "host \<Rightarrow> nat option \<Rightarrow> cty \<Rightarrow> cval \<Rightarrow> bool"
  and decodable_all :: "host \<Rightarrow> nat option \<Rightarrow> cty \<Rightarrow> cval list \<Rightarrow> bool"
  and decodable_map :: "host \<Rightarrow> nat option \<Rightarrow> cty \<Rightarrow> cty \<Rightarrow> (cval \<times> cval) list \<Rightarrow> bool"
  and decodable_tuple :: "host \<Rightarrow> nat option \<Rightarrow> cty list \<Rightarrow> cval list \<Rightarrow> bool" where
  "decodable_c h cl (CVec t) v = (case v of VSeq vs \<Rightarrow> within cl (length vs) \<and> h_reserve h t (length vs) \<and>
     (vec_safe t \<or> vs = []) \<and> decodable_all h cl t vs | _ \<Rightarrow> False)"
| "decodable_c h cl (CArray n t) v = (case v of VArr vs \<Rightarrow> decodable_all h cl t vs | _ \<Rightarrow> False)"
| "decodable_c h cl (CDeque t) v = (case v of VSeq vs \<Rightarrow> within cl (length vs) \<and> h_reserve h t (length vs) \<and>
     decodable_all h cl t vs | _ \<Rightarrow> False)"
| "decodable_c h cl (COption t) v = (case v of VOpt (Some x) \<Rightarrow> decodable_c h cl t x | _ \<Rightarrow> True)"
| "decodable_c h cl (CMap k t) v = (case v of VMap kvs \<Rightarrow> within cl (length kvs) \<and>
     h_reserve h (CMap k t) (length kvs) \<and> decodable_map h cl k t kvs | _ \<Rightarrow> False)"
| "decodable_c h cl (CTuple ts) v = (case v of VTuple vs \<Rightarrow> decodable_tuple h cl ts vs | _ \<Rightarrow> False)"
| "decodable_c h cl (CEnum ts) v = (case v of VEnum i x \<Rightarrow>
     (if unat i < length ts then decodable_c h cl (ts ! unat i) x else False) | _ \<Rightarrow> False)"
| "decodable_c h cl _ v = True"
| "decodable_all h cl t [] = True"
| "decodable_all h cl t (v # vs) = (decodable_c h cl t v \<and> decodable_all h cl t vs)"
| "decodable_map h cl k t [] = True"
| "decodable_map h cl k t ((a, b) # kvs) = (decodable_c h cl k a \<and> decodable_c h cl t b \<and> decodable_map h cl k t kvs)"
| "decodable_tuple h cl [] vs = True"
| "decodable_tuple h cl (t # ts) vs = (case vs of v # ws \<Rightarrow> decodable_c h cl t v \<and> decodable_tuple h cl ts ws | [] \<Rightarrow> True)"
  by pat_completeness auto

termination decodable_c
  by (relation "measure (\<lambda>x. case x of
        Inl (Inl (h, cl, t, v)) \<Rightarrow> size v | Inl (Inr (h, cl, t, vs)) \<Rightarrow> size_list size vs
      | Inr (Inl (h, cl, k, t, kvs)) \<Rightarrow> entries_size kvs | Inr (Inr (h, cl, ts, vs)) \<Rightarrow> size_list size vs)")
    auto

lemma cc_yields_bulk:
  "cc.yields (bulk_loop (length vs) out) (concat (map (\<lambda>v. varint_bytes (ucast v)) vs)) (out @ vs)"
proof -
  have each: "cc.yields (varint_each (length vs)) (concat (map (\<lambda>v. varint_bytes (ucast v)) vs)) vs"
  proof (induction vs)
    case Nil
    show ?case by (simp add: cc.rd_yields_ret del: sop_simps)
  next
    case (Cons v vs)
    show ?case
      using cc.rd_yields_sbind[OF cc_yields_varint[of v] cc_yields_ret[OF Cons]]
      by (simp del: sop_simps)
  qed
  show ?thesis
    unfolding cc.yields_def
  proof (intro allI impI)
    fix c assume c: "cc.starts c (concat (map (\<lambda>v. varint_bytes (ucast v)) vs))"
    have "varint_each (length vs) c = (Inr vs, cc_adv (length (concat (map (\<lambda>v. varint_bytes (ucast v)) vs))) c)"
      by (rule cc.rd_yieldsD[OF each c])
    then show "bulk_loop (length vs) out c =
        (Inr (out @ vs), cc_adv (length (concat (map (\<lambda>v. varint_bytes (ucast v)) vs))) c)"
      using bulk_loop_agree[of "length vs" out c]
      by (cases "bulk_loop (length vs) out c") (simp add: agree_def)
  qed
qed

text \<open>The fast paths of a vector.\<close>

lemma scalar_shape:
  "ctyped (CScalar SU8) v \<Longrightarrow> v = VScalar (XU8 (as_byte v))"
  "ctyped (CScalar SU64) v \<Longrightarrow> v = VScalar (XU64 (as_varint v))"
  by (cases v; simp add: as_byte_def as_varint_def split: sval.splits)+

lemma bytes_of_seq:
  assumes "ctyped_all (CScalar SU8) vs"
  obtains bs where "vs = map (\<lambda>b. VScalar (XU8 b)) bs" "cwire_all vs = bs"
proof (rule that[of "map as_byte vs"])
  have b: "v = VScalar (XU8 (as_byte v))" if "v \<in> set vs" for v
    by (rule scalar_shape(1)) (use assms that in \<open>simp only: ctyped_all_iff\<close>)
  then show "vs = map (\<lambda>b. VScalar (XU8 b)) (map as_byte vs)" by (simp add: map_idI[symmetric])
  show "cwire_all vs = map as_byte vs"
  proof -
    have "[as_byte v] = cwire v" if "v \<in> set vs" for v
      using arg_cong[OF b[OF that], of cwire] by simp
    then show ?thesis using cwire_all_map[of vs "\<lambda>v. [as_byte v]"] by simp
  qed
qed

lemma words_of_seq:
  assumes "ctyped_all (CScalar SU64) vs"
  obtains ws where "vs = map (\<lambda>b. VScalar (XU64 b)) ws" "cwire_all vs = concat (map (\<lambda>v. varint_bytes (ucast v)) ws)"
proof (rule that[of "map as_varint vs"])
  have b: "v = VScalar (XU64 (as_varint v))" if "v \<in> set vs" for v
    by (rule scalar_shape(2)) (use assms that in \<open>simp only: ctyped_all_iff\<close>)
  then show "vs = map (\<lambda>b. VScalar (XU64 b)) (map as_varint vs)" by (simp add: map_idI[symmetric])
  have "varint_bytes (ucast (as_varint v)) = cwire v" if "v \<in> set vs" for v
    using arg_cong[OF b[OF that], of cwire] by simp
  then have "concat (map (\<lambda>v. varint_bytes (ucast (as_varint v))) vs) = cwire_all vs" by (rule cwire_all_map)
  then show "cwire_all vs = concat (map (\<lambda>v. varint_bytes (ucast v)) (map as_varint vs))" by (simp add: comp_def)
qed

lemma takes_bulk:
  assumes b: "decode_bulk h t (length vs) = Some m" and ty: "ctyped_all t vs"
    and r: "h_reserve h t (length vs)" and s: "vec_safe t \<or> vs = []"
  shows "takes cl m (cwire_all vs) vs k"
proof -
  obtain s where t: "t = CScalar s" using b by (cases t) simp_all
  consider (u8) "s = SU8" | (u64) "s = SU64" | (nil) "vs = []" "s \<in> {SI8, SF32, SF64}"
    using b s t by (cases s) (auto simp: vec_safe_def)
  then show ?thesis
  proof cases
    case u8
    obtain bs where bs: "vs = map (\<lambda>b. VScalar (XU8 b)) bs" "cwire_all vs = bs"
      using bytes_of_seq ty t u8 by blast
    have "takes cl m bs (map (\<lambda>b. VScalar (XU8 b)) bs) k"
      using b t u8 bs r takes_fun[OF takes_yields[OF cc_yields_take[OF refl, of bs]], where g = "map (\<lambda>b. VScalar (XU8 b))"]
      by (auto simp: reserve_def sbind_sret_left simp del: sop_simps)
    then show ?thesis using bs by simp
  next
    case u64
    obtain ws where ws: "vs = map (\<lambda>b. VScalar (XU64 b)) ws"
      "cwire_all vs = concat (map (\<lambda>v. varint_bytes (ucast v)) ws)"
      using words_of_seq ty t u64 by blast
    have "takes cl (read_varints_bulk h (length ws)) (concat (map (\<lambda>v. varint_bytes (ucast v)) ws)) ws k"
      unfolding read_varints_bulk_def
      by (rule takes_reserve) (use r t u64 ws(1) takes_yields[OF cc_yields_bulk[of ws "[]"]] in simp_all)
    from takes_fun[OF this, where g = "map (\<lambda>v. VScalar (XU64 v))"] show ?thesis
      using b t u64 ws by auto
  next
    case nil
    have z: "cc_take 0 c = (Inr [], c)" if "cc.starts c []" for c
      using cc.rd_yieldsD[OF cc_yields_take[of 0 "[]"] that] by simp
    show ?thesis
      unfolding takes_def
    proof (intro allI impI)
      fix c assume "cc.starts c (cwire_all vs)"
      then have "cc.starts c []" using nil(1) by simp
      from z[OF this] show "m c = (Inr vs, cc_adv (length (cwire_all vs)) c)"
        using b nil r t by (auto simp: read_f64_vec_def read_f32_vec_def reserve_def sbind_def
            copy_into_empty_def chunks_exact.simps Let_def)
    qed
  qed
qed

lemma takes_cons:
  assumes "takes cl m x v j" and "takes cl n y ws k"
  shows "takes cl (sbind m (\<lambda>v. sbind n (\<lambda>vs. sret (v # vs)))) (x @ y) (v # ws) (max j k)"
  by (rule takes_bind[where v = v, OF assms(1)]) (rule takes_fun[where g = "Cons v", OF assms(2)])

lemma takes_value:
  shows "ctyped t v \<Longrightarrow> decodable_c h cl t v \<Longrightarrow> takes cl (decode_compact h t) (cwire v) v (cheight v)"
    and "ctyped_all t vs \<Longrightarrow> decodable_all h cl t vs \<Longrightarrow> n = length vs \<Longrightarrow>
      takes cl (decode_each h t n) (cwire_all vs) vs (cheight_all vs)"
    and "ctyped_map k t kvs \<Longrightarrow> decodable_map h cl k t kvs \<Longrightarrow> n = length kvs \<Longrightarrow>
      distinct (map fst (out @ kvs)) \<Longrightarrow>
      takes cl (decode_map h k t n out) (cwire_map kvs) (out @ kvs) (cheight_map kvs)"
    and "ctyped_tuple ts vs \<Longrightarrow> decodable_tuple h cl ts vs \<Longrightarrow>
      takes cl (decode_tuple h ts) (cwire_all vs) vs (cheight_all vs)"
proof (induction h t and h t n and h k t n out and h ts arbitrary: v and vs and kvs and vs
    rule: decode_compact_decode_each_decode_map_decode_tuple.induct)
  case (1 h s)
  then obtain x where x: "v = VScalar x" "styped s x" by (cases v) simp_all
  show ?case using takes_fun[OF takes_yields[OF cc_yields_scalar[OF x(2)]]] x(1) by simp
next
  case (2 h)
  then obtain vs where vs: "v = VSeq vs" "ctyped_all (CScalar SU8) vs" "length vs \<le> usize_max"
    by (cases v) simp_all
  obtain bs where bs: "vs = map (\<lambda>b. VScalar (XU8 b)) bs" "cwire_all vs = bs"
    using bytes_of_seq[OF vs(2)] .
  have l: "length bs \<le> usize_max" using vs(3) bs(1) by simp
  have "takes cl (sbind read_length (\<lambda>len. sbind (cc_take len) (\<lambda>bytes.
      sret (VSeq (map (\<lambda>b. VScalar (XU8 b)) bytes))))) (varint_bytes (of_nat (length bs)) @ bs)
      (VSeq (map (\<lambda>b. VScalar (XU8 b)) bs)) (cheight v)"
    by (rule takes_bind0[OF takes_yields[OF cc_yields_length[OF l]]])
      (rule takes_fun[OF takes_yields[OF cc_yields_take[OF refl]]])
  then show ?case using vs(1) bs by simp
next
  case (3 h t)
  then obtain vs where vs: "v = VSeq vs" "ctyped_all t vs" "length vs \<le> usize_max" "within cl (length vs)"
    "h_reserve h t (length vs)" "vec_safe t \<or> vs = []" "decodable_all h cl t vs"
    by (cases v) simp_all
  have m: "takes cl (case decode_bulk h t (length vs) of Some m \<Rightarrow> m
      | None \<Rightarrow> sbind (reserve h t (length vs)) (\<lambda>_. decode_each h t (length vs))) (cwire_all vs) vs (cheight_all vs)"
  proof (cases "decode_bulk h t (length vs)")
    case None
    then show ?thesis using takes_reserve[OF vs(5) 3(1)[OF None vs(2,7) refl]] by simp
  next
    case (Some m)
    then show ?thesis using takes_bulk[OF Some vs(2,5,6)] by simp
  qed
  show ?case
    using takes_counted[where f = "\<lambda>len. case decode_bulk h t len of Some m \<Rightarrow> m
        | None \<Rightarrow> sbind (reserve h t len) (\<lambda>_. decode_each h t len)" and g = VSeq, OF m vs(4,3) refl] vs(1) by simp
next
  case (4 h n t)
  then show ?case by (cases v) (auto intro: takes_fun)
next
  case (5 h t)
  then obtain vs where vs: "v = VSeq vs" "ctyped_all t vs" "length vs \<le> usize_max" "within cl (length vs)"
    "h_reserve h t (length vs)" "decodable_all h cl t vs"
    by (cases v) simp_all
  show ?case
    using takes_counted[OF takes_reserve[OF vs(5) 5(1)[OF vs(2,6) refl]] vs(4,3), of
        "\<lambda>len. sbind (reserve h t len) (\<lambda>_. decode_each h t len)" VSeq] vs(1) by simp
next
  case (6 h t)
  then obtain x where v: "v = VOpt x" by (cases v) simp_all
  show ?case
  proof (cases x)
    case None
    show ?thesis
      using takes_map[OF takes_yields[OF cc_yields_bool[of False]], of _ "VOpt None"] v None by simp
  next
    case (Some y)
    have "takes cl (decode_compact h t) (cwire y) y (cheight y)"
      using 6 v Some by simp
    from takes_bind0[OF takes_yields[OF cc_yields_bool[of True]], of _ _ "cwire y" "VOpt (Some y)" "cheight y"]
      takes_fun[OF this, where g = "\<lambda>v. VOpt (Some v)"] show ?thesis using v Some by simp
  qed
next
  case (7 h k t)
  then obtain kvs where kvs: "v = VMap kvs" "ctyped_map k t kvs" "distinct (map fst kvs)" "length kvs \<le> usize_max"
    "within cl (length kvs)" "h_reserve h (CMap k t) (length kvs)" "decodable_map h cl k t kvs"
    by (cases v) simp_all
  have "takes cl (decode_map h k t (length kvs) []) (cwire_map kvs) kvs (cheight_map kvs)"
    using 7(1)[OF kvs(2,7) refl] kvs(3) by simp
  from takes_counted[OF takes_reserve[OF kvs(6) this] kvs(5,4), of
      "\<lambda>len. sbind (reserve h (CMap k t) len) (\<lambda>_. decode_map h k t len [])" VMap]
  show ?case using kvs(1) by simp
next
  case (8 h ts)
  then show ?case by (cases v) (auto intro: takes_fun)
next
  case (9 h ts)
  then obtain i x where v: "v = VEnum i x" "unat i < length ts" "ctyped (ts ! unat i) x"
    "decodable_c h cl (ts ! unat i) x"
    by (cases v) (simp_all split: if_splits)
  have i: "cc.yields decode_variant_index (varint_bytes (ucast i)) i"
    unfolding decode_variant_index_def
    by (rule cc.rd_yields_map[OF cc_yields_varint_up(2)])
      (use unsigned_less[of i, where ?'a = nat] in \<open>simp add: unat_ucast_id ucast_ucast_up del: sop_simps\<close>)
  show ?case
    using takes_bind0[OF takes_yields[OF i], of _ _ "cwire x" v "cheight x"]
      takes_fun[OF 9(1)[OF v(2,3,4)], where g = "VEnum i"] v(1,2) by simp
next
  case (10 h t)
  then show ?case using takes_ret[of cl "[]" 0] by (simp del: sop_simps)
next
  case (11 h t n)
  then obtain v ws where vs: "vs = v # ws" by (cases vs) simp_all
  then show ?case
    using takes_cons[where m = "decode_compact h t" and v = v, OF 11(1) 11(2)[of ws]] 11(3-5) by simp
next
  case (12 h k t out)
  then show ?case using takes_ret[of cl out 0] by (simp del: sop_simps)
next
  case (13 h k t n out)
  then obtain a b ws where kvs: "kvs = (a, b) # ws" by (cases kvs) auto
  have d: "a \<notin> set (map fst out)" "distinct (map fst ((out @ [(a, b)]) @ ws))"
    using 13(7) kvs by auto
  have key: "takes cl (decode_compact h k) (cwire a) a (cheight a)" by (rule 13(1)) (use 13(4-6) kvs in simp_all)
  have rest: "takes cl (decode_map h k t n (out @ [(a, b)])) (cwire_map ws) ((out @ [(a, b)]) @ ws) (cheight_map ws)"
    by (rule 13(3)) (use 13(4-6) kvs d in simp_all)
  have "takes cl (sbind (decode_compact h t) (\<lambda>value. if a \<in> set (map fst out) then sfail (Custom ''duplicate map key'')
      else decode_map h k t n (out @ [(a, value)]))) (cwire b @ cwire_map ws) (out @ kvs)
      (max (cheight b) (cheight_map ws))"
    by (rule takes_bind[where v = b]) (use 13(2) 13(4-6) rest kvs d(1) in simp_all)
  from takes_bind[where m = "decode_compact h k" and v = a and f = "\<lambda>key. sbind (decode_compact h t) (\<lambda>value.
      if key \<in> set (map fst out) then sfail (Custom ''duplicate map key'')
      else decode_map h k t n (out @ [(key, value)]))", OF key this] show ?case
    using kvs by simp
next
  case (14 h)
  then show ?case using takes_ret[of cl "[]" 0] by (cases vs) (simp_all del: sop_simps)
next
  case (15 h t ts)
  then obtain v ws where vs: "vs = v # ws" by (cases vs) simp_all
  then show ?case
    using takes_cons[where m = "decode_compact h t" and v = v, OF 15(1) 15(2)[of ws]] 15(3-4) by simp
qed

lemma cursor_new_starts:
  assumes "byte_room cfg (length bs)" and "length (bs @ rest) \<le> usize_max"
  shows "cc.starts (cursor_new (bs @ rest) cfg) bs"
proof -
  let ?c = "cursor_new (bs @ rest) cfg"
  have "within (cc_limit_end ?c) (length bs)"
    using assms(1) by (cases "c_limit cfg") (simp_all add: cursor_new_def byte_room_def)
  then have "cc_rest ?c = bs @ drop (length bs) (cc_rest ?c)"
    using assms(2) by (cases "cc_limit_end ?c") (simp_all add: cc_rest_def unread_def cursor_new_def min_def)
  then show ?thesis
    using assms(2) by (auto simp: cc.starts_def cc_valid_def cursor_new_def split: option.split)
qed

lemma compact_fits_serialize:
  "ctyped t v \<Longrightarrow> compact_serialize wrap cfg t v = Inr bs \<Longrightarrow> compact_fits cfg v \<and> bs = cwire v"
  using serialize_outcome[of t v cfg wrap] by (auto split: if_splits)

text \<open>
  C9: round trip of the compact profile. Whatever the encoder returns for a value of any type, the decoder
  reads back as that value, stopping at its last byte: bytes that follow are rejected or ignored as
  the configuration says. The hypotheses beyond the type are what the decoder asks for and the encoder
  does not: element counts within the collection limit, an allocator that grants the reservations, and
  no non-empty vector of \<^verbatim>\<open>i8\<close>, \<^verbatim>\<open>f32\<close> or \<^verbatim>\<open>f64\<close>, whose fast paths can panic.
\<close>

theorem compact_roundtrip:
  assumes "ctyped t v" and "decodable_c h (c_collection_limit cfg) t v"
    and "compact_serialize wrap cfg t v = Inr bs" and "length (bs @ rest) \<le> usize_max"
  shows "compact_deserialize h cfg t (bs @ rest) =
    (if c_trailing cfg = Reject \<and> rest \<noteq> [] then Inl (TrailingBytesError (length rest)) else Inr v)"
proof -
  have f: "compact_fits cfg v" "bs = cwire v" using compact_fits_serialize[OF assms(1,3)] by simp_all
  have s: "cc.starts (cursor_new (bs @ rest) cfg) bs"
    using cursor_new_starts[of cfg bs rest] f assms(4) by (simp add: compact_fits_def)
  have "decode_compact h t (cursor_new (bs @ rest) cfg) = (Inr v, cc_adv (length bs) (cursor_new (bs @ rest) cfg))"
    unfolding f(2)
    by (rule takesD[OF takes_value(1)[OF assms(1,2)] s[unfolded f(2)]])
      (use f(1) in \<open>simp_all add: cursor_new_def compact_fits_def\<close>)
  then show ?thesis by (simp add: compact_deserialize_def cursor_new_def)
qed

definition generous :: host where
  "generous = \<lparr> h_addr = 1, h_reserve = (\<lambda>t n. n \<le> 1000) \<rparr>"

lemma compact_roundtrip_witness:
  "compact_deserialize generous standard
     (CTuple [CVec (CScalar SU64), CMap (CScalar SU8) (COption (CScalar SBool))])
     (cwire (VTuple [VSeq [VScalar (XU64 300)],
       VMap [(VScalar (XU8 1), VOpt None), (VScalar (XU8 2), VOpt (Some (VScalar (XBool True))))]]) @ [0]) =
   Inl (TrailingBytesError 1)"
proof -
  let ?t = "CTuple [CVec (CScalar SU64), CMap (CScalar SU8) (COption (CScalar SBool))]"
  let ?v = "VTuple [VSeq [VScalar (XU64 300)],
       VMap [(VScalar (XU8 1), VOpt None), (VScalar (XU8 2), VOpt (Some (VScalar (XBool True))))]]"
  have ty: "ctyped ?t ?v" by simp
  have d: "decodable_c generous (c_collection_limit standard) ?t ?v"
    by (simp add: generous_def standard_def DEFAULT_COLLECTION_LIMIT_def vec_safe_def)
  have "varint_bytes 300 = 251 # [44, 1]"
    by (rule varint_encode_decode) (simp_all add: decode_varint_le_wide)
  then have l: "length (cwire ?v) = 10" by (simp add: varint_bytes_small)
  then have "compact_fits standard ?v"
    by (simp add: compact_fits_def byte_room_def standard_def DEFAULT_SIZE_LIMIT_def MAX_DEPTH_def del: cwire.simps)
  then have s: "compact_serialize (\<lambda>_. 0) standard ?t ?v = Inr (cwire ?v)"
    using serialize_outcome[OF ty, of standard "\<lambda>_. 0"] by simp
  have n: "length (cwire ?v @ [0]) \<le> usize_max" using l by (simp del: cwire.simps)
  show ?thesis
    using compact_roundtrip[OF ty d s n] by (simp add: standard_def del: cwire.simps)
qed

section \<open>The fast paths that panic\<close>

lemma vec_open:
  assumes s: "cc.starts c (varint_bytes (of_nat n) @ x)" and n: "n \<le> usize_max"
    and cl: "within (cc_collection_limit c) n" and d: "cc_depth c < cc_depth_limit c"
    and b: "decode_bulk h t n = Some m"
    and r: "m ((cc_adv (length (varint_bytes (of_nat n))) c)\<lparr>cc_depth := cc_depth c + 1\<rparr>) = (Inl e, c2)"
    and e: "cc_depth c2 = cc_depth c + 1"
  shows "fst (decode_compact h (CVec t) c) = Inl e"
proof -
  have l: "read_length c = (Inr n, cc_adv (length (varint_bytes (of_nat n))) c)"
    by (rule cc.rd_yieldsD[OF cc_yields_length[OF n]]) (use s in \<open>simp add: cc.rd_starts_append\<close>)
  show ?thesis
    using cl d b r e by (simp add: l bracketed_def cc_enter_def check_collection_if cc_exit_def)
qed

lemma bytes_at:
  assumes "cc.starts c (p @ x)" and "n = length x"
  shows "cc_take n ((cc_adv (length p) c)\<lparr>cc_depth := k\<rparr>) = (Inr x, (cc_adv (length (p @ x)) c)\<lparr>cc_depth := k\<rparr>)"
proof -
  have "cc.starts ((cc_adv (length p) c)\<lparr>cc_depth := k\<rparr>) x"
    using cc.rd_starts_append[THEN iffD1, OF assms(1)] by (simp add: cc.starts_def del: cc_adv_simps)
  from cc.rd_yieldsD[OF cc_yields_take[OF assms(2)] this] show ?thesis by (simp add: cc_adv_def add.assoc)
qed

text \<open>
  Decoding a non-empty \<^verbatim>\<open>Vec<i8>\<close> panics. For every vector of signed bytes the encoder accepts,
  and every host that grants the reservation, \<^verbatim>\<open>deserialize\<close> of the encoder's own output ends in the
  length mismatch of \<^verbatim>\<open>copy_from_slice\<close> on the freshly reserved, still empty vector.
\<close>

theorem i8_vector_panics:
  assumes "bs \<noteq> []" and "length bs \<le> usize_max" and "h_reserve h (CScalar SI8) (length bs)"
    and "compact_serialize wrap cfg (CVec (CScalar SI8)) (VSeq (map (\<lambda>b. VScalar (XI8 b)) bs)) = Inr out"
    and "within (c_collection_limit cfg) (length bs)"
  shows "\<exists>msg. compact_deserialize h cfg (CVec (CScalar SI8)) out = Inl (Panic msg)"
proof -
  let ?v = "VSeq (map (\<lambda>b. VScalar (XI8 b)) bs)"
  let ?p = "varint_bytes (of_nat (length bs))"
  have ty: "ctyped (CVec (CScalar SI8)) ?v" using assms(2) by (simp add: ctyped_all_iff)
  have w: "cwire ?v = ?p @ bs" by (simp add: cwire_all_concat comp_def)
  have f: "compact_fits cfg ?v" "out = ?p @ bs"
    using compact_fits_serialize[OF ty assms(4)] w by simp_all
  let ?c = "cursor_new out cfg"
  have s: "cc.starts ?c (?p @ bs)"
    using cursor_new_starts[of cfg out "[]"] f w by (simp add: compact_fits_def byte_room_def)
  define m where "m = sbind (cc_take (length bs)) (\<lambda>bytes. sbind (reserve h (CScalar SI8) (length bs)) (\<lambda>_.
         copy_into_empty (map (\<lambda>b. VScalar (XI8 b)) bytes)))"
  let ?e = "Panic ''copy_from_slice: source slice length does not match destination slice length''"
  let ?c2 = "(cc_adv (length (?p @ bs)) ?c)\<lparr>cc_depth := cc_depth ?c + 1\<rparr>"
  have b: "decode_bulk h (CScalar SI8) (length bs) = Some m" by (simp add: m_def)
  have r: "m ((cc_adv (length ?p) ?c)\<lparr>cc_depth := cc_depth ?c + 1\<rparr>) = (Inl ?e, ?c2)"
    unfolding m_def using assms(1,3) bytes_at[OF s refl, of "cc_depth ?c + 1"]
    by (simp add: reserve_def copy_into_empty_def)
  have "cc_depth ?c < cc_depth_limit ?c" "within (cc_collection_limit ?c) (length bs)"
    using f(1) assms(5) by (simp_all add: compact_fits_def cursor_new_def)
  from vec_open[OF s assms(2) this(2,1) b r] have "fst (decode_compact h (CVec (CScalar SI8)) ?c) = Inl ?e"
    by simp
  then show ?thesis
    by (cases "decode_compact h (CVec (CScalar SI8)) ?c") (simp add: compact_deserialize_def)
qed

lemma i8_vector_panics_witness:
  "\<exists>msg. compact_deserialize generous standard (CVec (CScalar SI8)) [1, 255] = Inl (Panic msg)"
proof -
  have ty: "ctyped (CVec (CScalar SI8)) (VSeq [VScalar (XI8 255)])" by simp
  have w: "cwire (VSeq [VScalar (XI8 255)]) = [1, 255]" by (simp add: varint_bytes_small)
  have "compact_fits standard (VSeq [VScalar (XI8 255)])"
    unfolding compact_fits_def w by (simp add: byte_room_def standard_def DEFAULT_SIZE_LIMIT_def MAX_DEPTH_def)
  then have "compact_serialize (\<lambda>_. 0) standard (CVec (CScalar SI8)) (VSeq (map (\<lambda>b. VScalar (XI8 b)) [255])) = Inr [1, 255]"
    using serialize_outcome[OF ty, of standard "\<lambda>_. 0"] w by simp
  from i8_vector_panics[OF _ _ _ this] show ?thesis
    by (simp add: generous_def standard_def DEFAULT_COLLECTION_LIMIT_def)
qed

text \<open>The float fast path: it panics exactly when the payload happens to be aligned.\<close>

lemma chunks_words:
  "map from_le_bytes (chunks_exact 8 (concat (map to_le_bytes (vs :: u64 list)))) = vs"
proof (induction vs)
  case Nil
  then show ?case by (simp add: chunks_exact.simps)
next
  case (Cons v vs)
  then show ?case by (subst chunks_exact.simps) simp
qed

lemma f64_vector_panics_when_aligned:
  fixes vs :: "u64 list"
  assumes "vs \<noteq> []" and "length vs \<le> usize_max div 8" and "h_reserve h (CScalar SF64) (length vs)"
    and "cc.starts c (varint_bytes (of_nat (length vs)) @ concat (map to_le_bytes vs))"
    and "within (cc_collection_limit c) (length vs)" and "cc_depth c < cc_depth_limit c"
    and "(h_addr h + cc_position c + length (varint_bytes (of_nat (length vs)))) mod 8 = 0"
  shows "\<exists>msg. fst (decode_compact h (CVec (CScalar SF64)) c) = Inl (Panic msg)"
proof -
  let ?p = "varint_bytes (of_nat (length vs))" and ?x = "concat (map to_le_bytes vs)"
  let ?e = "Panic ''copy_from_slice: source slice length does not match destination slice length''"
  have x: "length vs * 8 = length ?x" by (induction vs) simp_all
  let ?c2 = "(cc_adv (length (?p @ ?x)) c)\<lparr>cc_depth := cc_depth c + 1\<rparr>"
  have ne: "chunks_exact 8 ?x \<noteq> []" using chunks_words[of vs] assms(1) by auto
  have "read_f64_vec h (length vs) ((cc_adv (length ?p) c)\<lparr>cc_depth := cc_depth c + 1\<rparr>) = (Inl ?e, ?c2)"
    unfolding read_f64_vec_def x using assms(1,2,3,7) x bytes_at[OF assms(4) refl, of "cc_depth c + 1"]
    by (simp add: ne reserve_def copy_into_empty_def Let_def add.assoc)
  then have r: "sbind (read_f64_vec h (length vs)) (\<lambda>vs. sret (map (\<lambda>v. VScalar (XF64 v)) vs))
      ((cc_adv (length ?p) c)\<lparr>cc_depth := cc_depth c + 1\<rparr>) = (Inl ?e, ?c2)" by simp
  have n: "length vs \<le> usize_max" using assms(2) by simp
  have b: "decode_bulk h (CScalar SF64) (length vs) =
      Some (sbind (read_f64_vec h (length vs)) (\<lambda>vs. sret (map (\<lambda>v. VScalar (XF64 v)) vs)))" by simp
  from vec_open[OF assms(4) n assms(5,6) b r] show ?thesis by simp
qed

section \<open>Safety on every input\<close>

text \<open>
  The types whose decoder has no panicking fast path: no vector of \<^verbatim>\<open>i8\<close>, \<^verbatim>\<open>f32\<close> or \<^verbatim>\<open>f64\<close> anywhere.
\<close>

fun safe_type :: "cty \<Rightarrow> bool" where
  "safe_type (CScalar s) = True"
| "safe_type CBytes = True"
| "safe_type (CVec t) = (vec_safe t \<and> safe_type t)"
| "safe_type (CArray n t) = safe_type t"
| "safe_type (CDeque t) = safe_type t"
| "safe_type (COption t) = safe_type t"
| "safe_type (CMap k t) = (safe_type k \<and> safe_type t)"
| "safe_type (CTuple ts) = (\<forall>t\<in>set ts. safe_type t)"
| "safe_type (CEnum ts) = (\<forall>t\<in>set ts. safe_type t)"

definition keeps :: "cursor \<Rightarrow> cursor \<Rightarrow> bool" where
  "keeps c c' \<longleftrightarrow> cc_valid c' \<and> cc_input c' = cc_input c \<and> cc_limit_end c' = cc_limit_end c \<and>
     cc_collection_limit c' = cc_collection_limit c \<and> cc_depth_limit c' = cc_depth_limit c \<and>
     cc_depth c' = cc_depth c \<and> cc_position c \<le> cc_position c'"

definition tame :: "(cursor, 'a) op \<Rightarrow> bool" where
  "tame m \<longleftrightarrow> (\<forall>c r c'. cc_valid c \<longrightarrow> m c = (r, c') \<longrightarrow> keeps c c' \<and> (\<forall>e. r = Inl e \<longrightarrow> proper e))"

lemma keeps_refl [simp]: "keeps c c \<longleftrightarrow> cc_valid c"
  by (simp add: keeps_def)

lemma keeps_trans: "keeps a b \<Longrightarrow> keeps b c \<Longrightarrow> keeps a c"
  by (simp add: keeps_def)

lemma keeps_valid: "keeps a b \<Longrightarrow> cc_valid b"
  by (simp add: keeps_def)

lemma tameI: "(\<And>c r c'. cc_valid c \<Longrightarrow> m c = (r, c') \<Longrightarrow> keeps c c' \<and> (\<forall>e. r = Inl e \<longrightarrow> proper e)) \<Longrightarrow> tame m"
  by (simp add: tame_def)

lemma tameD: "tame m \<Longrightarrow> cc_valid c \<Longrightarrow> m c = (r, c') \<Longrightarrow> keeps c c' \<and> (\<forall>e. r = Inl e \<longrightarrow> proper e)"
  by (simp add: tame_def)

lemma tame_basic [intro]: "tame (sret v)" "proper e \<Longrightarrow> tame (sfail e)"
  by (auto intro!: tameI)

lemma tame_slift: "(\<And>c e. g c = Inl e \<Longrightarrow> proper e) \<Longrightarrow> tame (slift g)"
  by (auto intro!: tameI)

lemma tame_bind:
  assumes m: "tame m" and f: "\<And>v. tame (f v)"
  shows "tame (sbind m f)"
proof (rule tameI)
  fix c r c' assume c: "cc_valid c" and s: "sbind m f c = (r, c')"
  obtain r1 c1 where m1: "m c = (r1, c1)" by (cases "m c")
  note k = tameD[OF m c m1]
  show "keeps c c' \<and> (\<forall>e. r = Inl e \<longrightarrow> proper e)"
  proof (cases r1)
    case (Inl e)
    then have "r = Inl e" "c1 = c'" using s m1 by (simp_all add: sbind_def)
    then show ?thesis using k Inl by simp
  next
    case (Inr v)
    then have fv: "f v c1 = (r, c')" using s m1 by (simp add: sbind_def)
    have v1: "cc_valid c1" using k keeps_valid by blast
    show ?thesis using tameD[OF f v1 fv] k keeps_trans by blast
  qed
qed

lemma valid_move:
  "cc_valid c \<Longrightarrow> cc_position c \<le> p \<Longrightarrow> p \<le> length (cc_input c) \<Longrightarrow> within (cc_limit_end c) p \<Longrightarrow>
   keeps c (c\<lparr>cc_position := p\<rparr>)"
  by (simp add: keeps_def cc_valid_def)

lemma tame_take: "tame (cc_take n)"
proof (rule tameI)
  fix c r c' assume "cc_valid c" "cc_take n c = (r, c')"
  then show "keeps c c' \<and> (\<forall>e. r = Inl e \<longrightarrow> proper e)"
    using valid_move[of c "cc_position c + n"]
    by (auto simp: cc_take_def enforce_limit_def check_limit_if Let_def slice_def split: if_splits)
qed

lemma advance_ret_eq:
  "sbind (advance_one (cc_position c)) (\<lambda>_. sret v) c =
    (if within (cc_limit_end c) (cc_position c + 1) then (Inr v, c\<lparr>cc_position := cc_position c + 1\<rparr>)
     else (Inl (SizeLimit (the (cc_limit_end c))), c))"
  by (simp add: advance_one_def enforce_limit_def check_limit_if sbind_def)

lemma get_less: "cc_get c = Some b \<Longrightarrow> cc_position c < length (cc_input c)"
  by (simp add: cc_get_def split: if_splits)

lemma tame_byte: "tame cc_byte"
proof (rule tameI)
  fix c r c' assume "cc_valid c" "cc_byte c = (r, c')"
  then show "keeps c c' \<and> (\<forall>e. r = Inl e \<longrightarrow> proper e)"
    using valid_move[of c "cc_position c + 1"] get_less[of c]
    by (auto simp: cc_byte_def advance_ret_eq split: option.splits if_splits)
qed

lemma payload_at_tame:
  "payload_at m c = Inl e \<Longrightarrow> proper e"
  "payload_at m c = Inr (p, bs) \<Longrightarrow> cc_valid c \<Longrightarrow> keeps c (c\<lparr>cc_position := p\<rparr>)"
  using valid_move[of c p]
  by (auto simp: payload_at_def rbind_eq_Inl rbind_eq_Inr marker_width_def Let_def enforce_limit_def
      check_limit_if slice_def ok_or_def split: if_splits)

lemma u64_of_payload_tame: "u64_of_payload m bs = Inl e \<Longrightarrow> proper e"
  by (auto simp: u64_of_payload_def rbind_eq_Inl split: if_splits)

lemma tame_varint: "tame read_varint" "tame read_varint_u128"
proof -
  have "keeps c c' \<and> (\<forall>e. r = Inl e \<longrightarrow> proper e)" if "cc_valid c" "read_varint c = (r, c')" for c r c'
    using that valid_move[of c "cc_position c + 1"] get_less[of c] payload_at_tame u64_of_payload_tame
    by (auto simp: read_varint_def advance_ret_eq split: option.splits if_splits sum.splits prod.splits)
  then show "tame read_varint" by (rule tameI)
  have "keeps c c' \<and> (\<forall>e. r = Inl e \<longrightarrow> proper e)" if "cc_valid c" "read_varint_u128 c = (r, c')" for c r c'
    using that valid_move[of c "cc_position c + 1"] get_less[of c] payload_at_tame
    by (auto simp: read_varint_u128_def advance_ret_eq split: option.splits if_splits sum.splits prod.splits)
  then show "tame read_varint_u128" by (rule tameI)
qed

lemma try_signed_tame: "try_signed n s v = Inl e \<Longrightarrow> proper e"
  by (auto simp: try_signed_def split: if_splits)

lemma narrow_u_tame: "narrow_u n s v = Inl e \<Longrightarrow> proper e"
  by (auto simp: narrow_u_def split: if_splits)

lemma rmap_Inl: "rmap f r = Inl e \<longleftrightarrow> r = Inl e"
  by (cases r) simp_all

lemmas tame_rules = tame_bind tame_basic tame_take tame_byte tame_varint

lemma tame_zigzag: "tame read_zigzag" "tame read_zigzag_i128"
  unfolding read_zigzag_def read_zigzag_i128_def
  by (intro tame_rules tame_slift; auto simp: rmap_Inl dest: try_signed_tame)+

lemma tame_scalar: "tame (decode_scalar s)"
  by (cases s)
    (auto simp: read_bool_def read_str_def read_length_def cc_read_f32_def cc_read_f64_def rmap_Inl rbind_eq_Inl
        dest!: try_signed_tame narrow_u_tame intro!: tame_rules tame_slift tame_zigzag simp del: sop_simps split: if_splits)

lemma tame_bulk_loop:
  "cc_valid c \<Longrightarrow> bulk_loop n out c = (r, c') \<Longrightarrow> keeps c c' \<and> (\<forall>e. r = Inl e \<longrightarrow> proper e)"
proof (induction n out c arbitrary: r c' rule: bulk_loop.induct)
  case (1 n out c)
  show ?case
  proof (cases "n = 0 \<or> cc_get c = None")
    case True
    then show ?thesis using 1(3,4) by (subst (asm) bulk_loop.simps) (auto split: option.splits if_splits)
  next
    case n: False
    then obtain marker where m: "cc_get c = Some marker" "n \<noteq> 0" by auto
    show ?thesis
    proof (cases "marker \<le> 250")
      case plain: True
      define available where "available = drop (cc_position c + 1) (cc_input c)"
      define window where "window = take (min (n - 1) (length available)) available"
      define extra where "extra = min (plain_varint_prefix window) (n - 1)"
      define e where "e = cc_position c + 1 + extra"
      have step: "bulk_loop n out c = (case enforce_limit e c of Inl err \<Rightarrow> (Inl err, c)
          | Inr _ \<Rightarrow> bulk_loop (n - (1 + extra))
              (out @ map ucast (take (e - cc_position c) (drop (cc_position c) (cc_input c)))) (c\<lparr>cc_position := e\<rparr>))"
        unfolding e_def extra_def window_def available_def
        by (subst bulk_loop.simps) (simp only: m plain Let_def if_False if_True option.case)
      have run: "plain_run (1 + extra) c"
        unfolding extra_def by (rule batch_run[OF m(1) plain]) (simp add: window_def available_def)
      show ?thesis
      proof (cases "within (cc_limit_end c) e")
        case True
        then have l: "enforce_limit e c = Inr ()" by (simp add: enforce_limit_def)
        have k: "keeps c (c\<lparr>cc_position := e\<rparr>)"
          by (rule valid_move[OF 1(3)]) (use run True in \<open>simp_all add: e_def plain_run_def\<close>)
        show ?thesis
          using 1(1)[OF m(2,1) plain available_def window_def extra_def e_def l keeps_valid[OF k]]
            1(4)[unfolded step l] keeps_trans[OF k] by simp
      next
        case False
        then show ?thesis using 1(3,4) by (auto simp: step enforce_limit_def check_limit_if)
      qed
    next
      case False
      show ?thesis
      proof (cases "payload_at marker c")
        case (Inl err)
        then show ?thesis using 1(3,4) m False payload_at_tame(1)[OF Inl]
          by (subst (asm) bulk_loop.simps) auto
      next
        case (Inr p)
        obtain e bytes where p: "p = (e, bytes)" by (cases p)
        note k = payload_at_tame(2)[OF Inr[unfolded p] 1(3)]
        show ?thesis
        proof (cases "u64_of_payload marker bytes")
          case (Inl err)
          then show ?thesis using 1(3,4) m False Inr p u64_of_payload_tame[OF Inl]
            by (subst (asm) bulk_loop.simps) auto
        next
          case v: (Inr v)
          have "bulk_loop (n - 1) (out @ [v]) (c\<lparr>cc_position := e\<rparr>) = (r, c')"
            using 1(4) m False Inr p v by (subst (asm) bulk_loop.simps) simp
          from 1(2)[OF m(2,1) False Inr p[symmetric] v keeps_valid[OF k] this] show ?thesis
            using keeps_trans[OF k] by blast
        qed
      qed
    qed
  qed
qed

lemma tame_bracket:
  assumes "tame m"
  shows "tame (bracketed (cc_enter n) cc_exit m)"
proof (rule tameI)
  fix c r c' assume c: "cc_valid c" and b: "bracketed (cc_enter n) cc_exit m c = (r, c')"
  let ?c = "c\<lparr>cc_depth := cc_depth c + 1\<rparr>"
  show "keeps c c' \<and> (\<forall>e. r = Inl e \<longrightarrow> proper e)"
  proof (cases "within (cc_collection_limit c) n \<and> cc_depth c < cc_depth_limit c")
    case True
    then have e: "cc_enter n c = (Inr (), ?c)" by (simp add: cc_enter_def check_collection_if)
    obtain r1 c1 where m1: "m ?c = (r1, c1)" by (cases "m ?c")
    have "cc_valid ?c" using c by simp
    note k = tameD[OF assms this m1]
    then have d: "cc_depth c1 = cc_depth c + 1" by (simp add: keeps_def)
    then have "r = r1 \<and> c' = c1\<lparr>cc_depth := cc_depth c\<rparr>"
      using b e m1 by (simp add: bracketed_def cc_exit_def)
    then show ?thesis using k by (simp add: keeps_def)
  next
    case False
    then show ?thesis
      using b c by (auto simp: bracketed_def cc_enter_def check_collection_if sbind_def split: if_splits)
  qed
qed

lemma tame_reserve: "tame (reserve h t n)"
  unfolding reserve_def by (auto intro: tame_rules simp del: sop_simps)

lemma tame_length: "tame read_length"
  unfolding read_length_def by (intro tame_rules)

lemma tame_bulk:
  assumes "decode_bulk h t n = Some m" and "vec_safe t"
  shows "tame m"
proof -
  obtain s where t: "t = CScalar s" using assms(1) by (cases t) simp_all
  have "tame (bulk_loop n [])" by (rule tameI) (rule tame_bulk_loop)
  then have "tame (sbind (read_varints_bulk h n) (\<lambda>vs. sret (map (\<lambda>v. VScalar (XU64 v)) vs)))"
    unfolding read_varints_bulk_def by (intro tame_rules tame_reserve)
  moreover have "tame (sbind (cc_take n) (\<lambda>bytes. sbind (reserve h (CScalar SU8) n) (\<lambda>_.
         sret (map (\<lambda>b. VScalar (XU8 b)) bytes))))" by (intro tame_rules tame_reserve)
  ultimately show ?thesis using assms t by (cases s) (auto simp: vec_safe_def)
qed

lemma tame_decode:
  shows "safe_type t \<Longrightarrow> tame (decode_compact h t)"
    and "safe_type t \<Longrightarrow> tame (decode_each h t n)"
    and "safe_type k \<Longrightarrow> safe_type t \<Longrightarrow> tame (decode_map h k t n out)"
    and "\<forall>t\<in>set ts. safe_type t \<Longrightarrow> tame (decode_tuple h ts)"
proof (induction h t and h t n and h k t n out and h ts
    rule: decode_compact_decode_each_decode_map_decode_tuple.induct)
  case (1 h s)
  show ?case by (simp del: sop_simps) (intro tame_rules tame_scalar)
next
  case (2 h)
  show ?case by (simp del: sop_simps) (intro tame_rules tame_length)
next
  case (3 h t)
  have "tame (case decode_bulk h t len of Some m \<Rightarrow> m
      | None \<Rightarrow> sbind (reserve h t len) (\<lambda>_. decode_each h t len))" for len
  proof (cases "decode_bulk h t len")
    case None
    then show ?thesis using tame_bind[OF tame_reserve] 3(1)[OF None] 3(2) by simp
  next
    case (Some m)
    then show ?thesis using tame_bulk[OF Some] 3(2) by simp
  qed
  then show ?case by (simp del: sop_simps) (intro tame_rules tame_length tame_bracket)
next
  case (4 h n t)
  then show ?case by (simp del: sop_simps) (intro tame_rules)
next
  case (5 h t)
  then show ?case by (simp del: sop_simps) (intro tame_rules tame_length tame_bracket tame_reserve)
next
  case (6 h t)
  have b: "tame read_bool" unfolding read_bool_def by (auto intro!: tame_rules simp del: sop_simps)
  have "tame (if b then sbind (decode_compact h t) (\<lambda>v. sret (VOpt (Some v))) else sret (VOpt None))" for b
    using 6 by (cases b) (simp_all add: tame_bind tame_basic del: sop_simps)
  then show ?case by (simp del: sop_simps) (intro tame_rules b)
next
  case (7 h k t)
  then show ?case by (simp del: sop_simps) (intro tame_rules tame_length tame_bracket tame_reserve)
next
  case (8 h ts)
  then show ?case by (simp del: sop_simps) (intro tame_rules)
next
  case (9 h ts)
  have i: "tame decode_variant_index"
    unfolding decode_variant_index_def by (auto intro!: tame_rules simp del: sop_simps)
  have "tame (if unat i < length ts then sbind (decode_compact h (ts ! unat i)) (\<lambda>v. sret (VEnum i v))
     else sfail (Custom ''unknown compact enum variant''))" for i
    using 9 by (auto intro!: tame_rules simp del: sop_simps)
  then show ?case by (simp del: sop_simps) (intro tame_rules i)
next
  case (11 h t n)
  then show ?case by (simp del: sop_simps) (intro tame_rules)
next
  case (13 h k t n out)
  then show ?case by (auto intro!: tame_rules simp del: sop_simps)
next
  case (15 h t ts)
  then show ?case by (simp del: sop_simps) (intro tame_rules)
qed (simp_all add: tame_basic del: sop_simps)

text \<open>
  C11: safety of the compact decoder on hostile input. For every type without a vector of \<^verbatim>\<open>i8\<close>, \<^verbatim>\<open>f32\<close> or
  \<^verbatim>\<open>f64\<close>, every configuration, every host and every input, decoding terminates without a panic, never
  reads past the input or the byte limit, and leaves every container it entered, on the error paths too.
\<close>

theorem compact_decode_safe:
  assumes "safe_type t" and "length input \<le> usize_max"
    and "decode_compact h t (cursor_new input cfg) = (r, c)"
  shows "(\<forall>msg. r \<noteq> Inl (Panic msg)) \<and> cc_position c \<le> length input \<and>
    within (c_limit cfg) (cc_position c) \<and> cc_depth c = 0"
proof -
  have v: "cc_valid (cursor_new input cfg)"
    using assms(2) by (simp add: cc_valid_def cursor_new_def split: option.split)
  note k = tameD[OF tame_decode(1)[OF assms(1)] v assms(3)]
  then have "cc_valid c" "cc_input c = input" "cc_limit_end c = cc_limit_end (cursor_new input cfg)" "cc_depth c = 0"
    by (simp_all add: keeps_def cursor_new_def)
  moreover from this have "within (c_limit cfg) (cc_position c)"
    using assms(2) by (cases "c_limit cfg") (auto simp: cc_valid_def cursor_new_def split: if_splits)
  ultimately show ?thesis using k by (auto simp: cc_valid_def)
qed

lemma compact_decode_safe_witness:
  "\<exists>c. decode_compact generous (CVec (CScalar SU64)) (cursor_new [2, 7] standard) = (Inl UnexpectedEnd, c) \<and>
     cc_depth c = 0"
proof -
  let ?r = "decode_compact generous (CVec (CScalar SU64)) (cursor_new [2, 7] standard)"
  have "fst ?r = Inl UnexpectedEnd"
    by (simp add: cursor_new_def standard_def generous_def read_length_def read_varint_def cc_get_def advance_one_def
        enforce_limit_def check_limit_def bracketed_def cc_enter_def check_collection_def MAX_DEPTH_def
        DEFAULT_SIZE_LIMIT_def DEFAULT_COLLECTION_LIMIT_def read_varints_bulk_def reserve_def bulk_loop.simps
        plain_varint_prefix_def cc_exit_def Let_def sbind_def)
  moreover have "safe_type (CVec (CScalar SU64))" by (simp add: vec_safe_def)
  ultimately show ?thesis
    using compact_decode_safe[of "CVec (CScalar SU64)" "[2, 7]" generous standard "fst ?r" "snd ?r"]
    by (intro exI[of _ "snd ?r"]) (simp add: prod_eq_iff del: decode_compact.simps)
qed

end
