(* ===== verification/Alloc.thy ===== *)
theory Alloc
  imports RB_Prelude
begin

text \<open>
  Allocation. Whether the allocator serves a request of a number of bytes is outside the program: it is
  the parameter \<open>alloc\<close>. A capacity above \<^verbatim>\<open>isize::MAX\<close> bytes fails whatever the allocator does, and
  nothing is asked of the allocator for an empty one.
\<close>

text \<open>\<^verbatim>\<open>Vec::with_capacity\<close>, of so many bytes, panics where it fails.\<close>

definition with_capacity :: "(nat \<Rightarrow> bool) \<Rightarrow> nat \<Rightarrow> error + unit" where
  "with_capacity alloc bytes =
    (if bytes > 2 ^ 63 - 1 then Inl (Panic ''capacity overflow'')
     else if bytes \<noteq> 0 \<and> \<not> alloc bytes then Inl (Panic ''memory allocation failed'') else Inr ())"

text \<open>\<open>try_reserve_exact\<close> refuses what exceeds \<^verbatim>\<open>isize::MAX\<close> or what the allocator does not serve.\<close>

definition try_reserve :: "(nat \<Rightarrow> bool) \<Rightarrow> nat \<Rightarrow> error + unit" where
  "try_reserve alloc n = (if n > 2 ^ 63 - 1 \<or> n \<noteq> 0 \<and> \<not> alloc n then Inl (SizeLimit usize_max) else Inr ())"

end
