(* ===== verification/Delta.thy ===== *)
theory Delta
  imports Reader Canonical Alloc
begin

text \<open>
  \<^verbatim>\<open>src/delta.rs\<close>: differential frames. The dynamic table is a record with its entries newest first; a
  frame is encoded and decoded against it, and both sides must end with the same table. The varints of
  this module are LEB128, not the shared marker form. \<open>alloc\<close> is what the allocator grants to
  \<^verbatim>\<open>Vec::with_capacity\<close>, in bytes.
\<close>

definition DELTA_MAGIC :: "byte list" where "DELTA_MAGIC = [82, 66, 68, 76]"
definition FORMAT_VERSION :: u16 where "FORMAT_VERSION = 1"
definition FLAG_RESET_TABLE :: u16 where "FLAG_RESET_TABLE = 0x0001"
definition DELTA_HEADER_LEN :: nat where "DELTA_HEADER_LEN = 16"
definition TAG_REF :: byte where "TAG_REF = 0x00"
definition TAG_LITERAL :: byte where "TAG_LITERAL = 0x01"

lemmas delta_consts = DELTA_MAGIC_def FORMAT_VERSION_def FLAG_RESET_TABLE_def DELTA_HEADER_LEN_def
  TAG_REF_def TAG_LITERAL_def

section \<open>The dynamic table\<close>

record delta_table =
  dt_entries :: "byte list list"
  dt_max_entries :: nat

definition table_new :: "nat \<Rightarrow> delta_table" where
  "table_new max_entries = \<lparr> dt_entries = [], dt_max_entries = max_entries \<rparr>"

text \<open>\<^verbatim>\<open>iter().position(..)\<close>.\<close>

fun position_of :: "'a \<Rightarrow> 'a list \<Rightarrow> nat option" where
  "position_of x [] = None"
| "position_of x (y # ys) = (if y = x then Some 0 else map_option Suc (position_of x ys))"

definition table_lookup :: "delta_table \<Rightarrow> byte list \<Rightarrow> nat option" where
  "table_lookup t value = position_of value (dt_entries t)"

definition table_get :: "delta_table \<Rightarrow> nat \<Rightarrow> byte list option" where
  "table_get t index = (if index < length (dt_entries t) then Some (dt_entries t ! index) else None)"

text \<open>\<open>while len > max { pop_back }\<close> keeps the first \<open>max\<close> entries.\<close>

definition table_insert :: "byte list \<Rightarrow> delta_table \<Rightarrow> delta_table" where
  "table_insert value t =
    (if dt_max_entries t = 0 then t
     else t\<lparr>dt_entries := take (dt_max_entries t) (value # dt_entries t)\<rparr>)"

definition table_clear :: "delta_table \<Rightarrow> delta_table" where
  "table_clear t = t\<lparr>dt_entries := []\<rparr>"

section \<open>Varints\<close>

lemma unat_drop_bit: "unat (drop_bit k (w :: 'a::len word)) = unat w div 2 ^ k"
  by (subst unat_drop_bit_eq) (simp add: drop_bit_eq_div)

function leb_bytes :: "u128 \<Rightarrow> byte list" where
  "leb_bytes value =
    (let b = ucast (value AND 0x7f); rest = drop_bit 7 value
     in if rest = 0 then [b] else (b OR 0x80) # leb_bytes rest)"
  by pat_completeness auto

termination
proof (relation "measure unat")
  fix v :: u128 and b rest
  assume "rest = drop_bit 7 v" "rest \<noteq> 0"
  then have "unat rest = unat v div 128" "unat rest \<noteq> 0"
    by (simp_all add: unat_drop_bit word_unat_eq_iff)
  then show "(rest, v) \<in> measure unat" by simp
qed simp

declare leb_bytes.simps [simp del]

definition dl_write_varint :: "byte list \<Rightarrow> u128 \<Rightarrow> byte list" where
  "dl_write_varint output value = output @ leb_bytes value"

definition dl_write_zigzag :: "byte list \<Rightarrow> u128 \<Rightarrow> byte list" where
  "dl_write_zigzag output value = dl_write_varint output (zigzag_encode value)"

section \<open>The cursor\<close>

record delta_cursor =
  dc_input :: "byte list"
  dc_pos :: nat

definition dc_new :: "byte list \<Rightarrow> delta_cursor" where
  "dc_new input = \<lparr> dc_input = input, dc_pos = 0 \<rparr>"

definition dc_byte :: "(delta_cursor, byte) op" where
  "dc_byte c = (if dc_pos c < length (dc_input c)
     then (Inr (dc_input c ! dc_pos c), c\<lparr>dc_pos := dc_pos c + 1\<rparr>) else (Inl UnexpectedEnd, c))"

definition dc_take :: "nat \<Rightarrow> (delta_cursor, byte list) op" where
  "dc_take len c =
    (let e = dc_pos c + len in
     if e > usize_max then (Inl (Delta ''delta length overflows''), c)
     else case slice (dc_pos c) e (dc_input c) of
         None \<Rightarrow> (Inl UnexpectedEnd, c)
       | Some bytes \<Rightarrow> (Inr bytes, c\<lparr>dc_pos := e\<rparr>))"

text \<open>The loop of \<^verbatim>\<open>varint\<close> with its two variables; the shift grows by seven and is capped at 128.\<close>

function dc_varint_loop :: "u128 \<Rightarrow> nat \<Rightarrow> (delta_cursor, u128) op" where
  "dc_varint_loop value shift c = (case dc_byte c of
     (Inl e, c') \<Rightarrow> (Inl e, c')
   | (Inr b, c') \<Rightarrow>
       if shift \<ge> 128 then (Inl (Delta ''delta varint overflows u128''), c')
       else
         (let remaining = 128 - shift; low = b AND 0x7f in
          if remaining < 7 \<and> drop_bit remaining low \<noteq> 0
          then (Inl (Delta ''delta varint overflows u128''), c')
          else
            (let value' = value OR push_bit shift (ucast low) in
             if b AND 0x80 = 0 then (Inr value', c') else dc_varint_loop value' (shift + 7) c')))"
  by pat_completeness auto

termination by (relation "measure (\<lambda>(value, shift, c). 135 - shift)") auto

declare dc_varint_loop.simps [simp del]

definition dc_varint :: "(delta_cursor, u128) op" where
  "dc_varint = dc_varint_loop 0 0"

definition dc_usize_varint :: "(delta_cursor, nat) op" where
  "dc_usize_varint = sbind dc_varint (\<lambda>v.
     if unat v > usize_max then sfail (Delta ''delta varint does not fit usize'') else sret (unat v))"

definition dc_zigzag :: "(delta_cursor, u128) op" where
  "dc_zigzag = sbind dc_varint (\<lambda>v. sret (zigzag_decode v))"

definition dc_finish :: "delta_cursor \<Rightarrow> error + unit" where
  "dc_finish c = (if dc_pos c \<noteq> length (dc_input c)
     then Inl (TrailingBytesError (length (dc_input c) - dc_pos c)) else Inr ())"

section \<open>Integer deltas\<close>

definition fits_i128 :: "int \<Rightarrow> bool" where
  "fits_i128 k \<longleftrightarrow> - (2 ^ 127) \<le> k \<and> k < 2 ^ 127"

definition encode_delta :: "u128 \<Rightarrow> u128 \<Rightarrow> error + byte list" where
  "encode_delta base value =
    (if fits_i128 (sint value - sint base) then Inr (dl_write_zigzag [] (value - base))
     else Inl (Delta ''delta overflows i128''))"

definition decode_delta :: "u128 \<Rightarrow> byte list \<Rightarrow> error + u128" where
  "decode_delta base input =
    (case dc_zigzag (dc_new input) of
       (Inl e, _) \<Rightarrow> Inl e
     | (Inr delta, c) \<Rightarrow> rbind (dc_finish c) (\<lambda>_.
         if fits_i128 (sint base + sint delta) then Inr (base + delta)
         else Inl (Delta ''reconstructed value overflows i128'')))"

section \<open>Update frames\<close>

definition enforce_byte_limit :: "config \<Rightarrow> nat \<Rightarrow> error + unit" where
  "enforce_byte_limit cfg len = check_limit (c_limit cfg) len"

primrec encode_entries :: "byte list list \<Rightarrow> delta_table \<Rightarrow> byte list \<Rightarrow> byte list \<times> delta_table" where
  "encode_entries [] t payload = (payload, t)"
| "encode_entries (value # updates) t payload =
    (case table_lookup t value of
       Some index \<Rightarrow> encode_entries updates t (dl_write_varint (payload @ [TAG_REF]) (of_nat index))
     | None \<Rightarrow> encode_entries updates (table_insert value t)
         (dl_write_varint (payload @ [TAG_LITERAL]) (of_nat (length value)) @ value))"

definition encode_updates :: "(nat \<Rightarrow> bool) \<Rightarrow> config \<Rightarrow> delta_table \<Rightarrow> byte list list \<Rightarrow> (error + byte list) \<times> delta_table" where
  "encode_updates alloc cfg t updates =
    (let (payload, t') = encode_entries updates t []; total = DELTA_HEADER_LEN + length payload in
     if total > usize_max then (Inl (SizeLimit usize_max), t')
     else (rmap (\<lambda>_. DELTA_MAGIC @ to_le_bytes FORMAT_VERSION @ to_le_bytes (0 :: u16) @
         to_le_bytes (of_nat (length updates) :: u64) @ payload) 
       (rbind (enforce_byte_limit cfg total) (\<lambda>_. with_capacity alloc total)), t'))"

fun decode_entries ::
  "nat \<Rightarrow> delta_cursor \<Rightarrow> delta_table \<Rightarrow> byte list list \<Rightarrow> (error + byte list list \<times> delta_cursor) \<times> delta_table" where
  "decode_entries 0 c t updates = (Inr (updates, c), t)"
| "decode_entries (Suc n) c t updates = (case dc_byte c of
     (Inl e, _) \<Rightarrow> (Inl e, t)
   | (Inr tag, c1) \<Rightarrow>
       if tag = TAG_REF then (case dc_varint c1 of
           (Inl e, _) \<Rightarrow> (Inl e, t)
         | (Inr index, c2) \<Rightarrow>
             if unat index > usize_max then (Inl (Delta ''delta table index does not fit usize''), t)
             else (case table_get t (unat index) of
                 None \<Rightarrow> (Inl (Delta ''delta table reference out of range''), t)
               | Some value \<Rightarrow> decode_entries n c2 t (updates @ [value])))
       else if tag = TAG_LITERAL then (case dc_usize_varint c1 of
           (Inl e, _) \<Rightarrow> (Inl e, t)
         | (Inr len, c2) \<Rightarrow> (case dc_take len c2 of
               (Inl e, _) \<Rightarrow> (Inl e, t)
             | (Inr value, c3) \<Rightarrow> decode_entries n c3 (table_insert value t) (updates @ [value])))
       else (Inl (Delta ''unknown delta entry tag''), t))"

text \<open>The result vector is reserved first: a \<^verbatim>\<open>Vec<u8>\<close> takes 24 bytes.\<close>

definition decode_updates ::
  "(nat \<Rightarrow> bool) \<Rightarrow> config \<Rightarrow> delta_table \<Rightarrow> byte list \<Rightarrow> (error + byte list list) \<times> delta_table" where
  "decode_updates alloc cfg t input =
    (case enforce_byte_limit cfg (length input) of Inl e \<Rightarrow> (Inl e, t) | Inr _ \<Rightarrow>
     if length input < DELTA_HEADER_LEN then (Inl UnexpectedEnd, t)
     else if take 4 input \<noteq> DELTA_MAGIC then (Inl (InvalidFrame ''delta magic does not match''), t)
     else if from_le_bytes [input ! 4, input ! 5] \<noteq> FORMAT_VERSION
       then (Inl (InvalidFrame ''unsupported delta format version''), t)
     else let flags = from_le_bytes [input ! 6, input ! 7] in
       if flags AND NOT FLAG_RESET_TABLE \<noteq> 0 then (Inl (InvalidFrame ''unknown delta frame flags''), t)
       else let t1 = (if flags AND FLAG_RESET_TABLE \<noteq> 0 then table_clear t else t);
                count = unat (from_le_bytes (take 8 (drop 8 input)) :: u64) in
         case with_capacity alloc (count * 24) of
           Inl e \<Rightarrow> (Inl e, t1)
         | Inr _ \<Rightarrow> (case decode_entries count (dc_new (drop DELTA_HEADER_LEN input)) t1 [] of
             (Inl e, t2) \<Rightarrow> (Inl e, t2)
           | (Inr (updates, c), t2) \<Rightarrow> (rmap (\<lambda>_. updates) (dc_finish c), t2)))"

section \<open>The cursor as a reader\<close>

definition dc_adv :: "nat \<Rightarrow> delta_cursor \<Rightarrow> delta_cursor" where
  "dc_adv n c = c\<lparr>dc_pos := dc_pos c + n\<rparr>"

definition dc_rest :: "delta_cursor \<Rightarrow> byte list" where
  "dc_rest c = drop (dc_pos c) (dc_input c)"

definition dc_valid :: "delta_cursor \<Rightarrow> bool" where
  "dc_valid c \<longleftrightarrow> dc_pos c \<le> length (dc_input c) \<and> length (dc_input c) \<le> usize_max"

lemma dc_adv_simps [simp]:
  "dc_pos (dc_adv n c) = dc_pos c + n" "dc_input (dc_adv n c) = dc_input c"
  "dc_adv 0 c = c" "dc_adv m (dc_adv n c) = dc_adv (n + m) c"
  by (simp_all add: dc_adv_def add.assoc)

lemma dc_rest_length: "dc_valid c \<Longrightarrow> dc_rest c = bs @ zs \<Longrightarrow> dc_pos c + length bs \<le> length (dc_input c)"
proof -
  assume "dc_valid c" and r: "dc_rest c = bs @ zs"
  moreover have "length (dc_input c) - dc_pos c = length bs + length zs"
    using arg_cong[OF r, of length] by (simp add: dc_rest_def)
  ultimately show ?thesis unfolding dc_valid_def by arith
qed

interpretation dl: reader dc_rest dc_adv dc_valid
proof unfold_locales
  show "dc_valid (dc_adv (length bs) s)" if "dc_valid s" "dc_rest s = bs @ zs" for s bs zs
    using that dc_rest_length[OF that] by (simp add: dc_valid_def)
qed (simp_all add: dc_rest_def add.commute)

lemma dl_yields_byte: "dl.yields dc_byte [b] b"
  unfolding dl.yields_def
proof (intro allI impI)
  fix c assume "dl.starts c [b]"
  then obtain zs where z: "dc_valid c" "dc_rest c = [b] @ zs" by (auto simp: dl.starts_def)
  have "dc_pos c < length (dc_input c)" using dc_rest_length[OF z] by simp
  moreover have "dc_input c ! dc_pos c = b"
    using z(2) calculation by (metis append_Cons dc_rest_def hd_drop_conv_nth list.sel(1))
  ultimately show "dc_byte c = (Inr b, dc_adv (length [b]) c)" by (simp add: dc_byte_def dc_adv_def)
qed

lemma dl_yields_take: "n = length bs \<Longrightarrow> dl.yields (dc_take n) bs bs"
  unfolding dl.yields_def
proof (intro allI impI)
  fix c assume n: "n = length bs" and "dl.starts c bs"
  then obtain zs where z: "dc_valid c" "dc_rest c = bs @ zs" by (auto simp: dl.starts_def)
  have l: "dc_pos c + length bs \<le> length (dc_input c)" by (rule dc_rest_length[OF z])
  moreover have "take (length bs) (drop (dc_pos c) (dc_input c)) = bs" using z(2) by (simp add: dc_rest_def)
  ultimately show "dc_take n c = (Inr bs, dc_adv (length bs) c)"
    using n z(1) by (simp add: dc_take_def slice_def Let_def dc_valid_def dc_adv_def)
qed

section \<open>LEB128 round trip\<close>

text \<open>What is left of \<open>v\<close> after the low seven bits is shifted in next.\<close>

lemma and_seven: "(v :: 'a::len word) AND 0x7f = take_bit 7 v"
  by (simp add: take_bit_eq_mask mask_eq_exp_minus_1)

lemma and_top: "(b :: byte) AND 0x80 = 0 \<longleftrightarrow> \<not> bit b 7"
  using and_exp_eq_0_iff_not_bit[of b 7] by simp

lemma leb_split:
  "(acc OR push_bit s (v AND 0x7f)) OR push_bit (s + 7) (drop_bit 7 v) = acc OR push_bit s (v :: u128)"
proof (rule bit_word_eqI)
  fix n :: nat
  assume "n < LENGTH(128)"
  have "7 + (n - (s + 7)) = n - s" if "s + 7 \<le> n" using that by simp
  moreover have "n - s < 7" if "\<not> s + 7 \<le> n" "s \<le> n" using that by simp
  ultimately show "bit ((acc OR push_bit s (v AND 127)) OR push_bit (s + 7) (drop_bit 7 v)) n = bit (acc OR push_bit s v) n"
    unfolding and_seven by (cases "s + 7 \<le> n"; cases "s \<le> n") (auto simp: bit_simps)
qed

lemma bit_top: "bit (0x80 :: byte) n \<longleftrightarrow> n = 7"
proof -
  have "(0x80 :: byte) = 2 ^ 7" by simp
  then show ?thesis by (simp only: bit_exp_iff) (auto simp: exp_eq_zero_iff)
qed

lemma low_seven:
  "ucast (ucast (v AND 0x7f) AND 0x7f :: byte) = (v :: u128) AND 0x7f"
  "ucast ((ucast (v AND 0x7f) OR 0x80) AND 0x7f :: byte) = (v :: u128) AND 0x7f"
  "(ucast ((v :: u128) AND 0x7f) :: byte) AND 0x80 = 0"
  "(ucast (v AND 0x7f) OR 0x80 :: byte) AND 0x80 \<noteq> 0"
  unfolding and_top unfolding and_seven
  by (auto intro!: bit_word_eqI simp: bit_simps bit_top)

lemma dc_varint_loop_step:
  assumes "dc_byte c = (Inr b, c1)" and "s < 128"
    and "\<not> (128 - s < 7 \<and> drop_bit (128 - s) (b AND 0x7f) \<noteq> 0)"
  shows "dc_varint_loop acc s c = (if b AND 0x80 = 0 then (Inr (acc OR push_bit s (ucast (b AND 0x7f))), c1)
     else dc_varint_loop (acc OR push_bit s (ucast (b AND 0x7f))) (s + 7) c1)"
  using assms by (subst dc_varint_loop.simps) (simp only: Let_def prod.case sum.case if_False not_le if_not_P simp_thms)

lemma dc_varint_loop_leb:
  "unat v < 2 ^ (128 - s) \<Longrightarrow> s < 128 \<Longrightarrow>
   dl.yields (dc_varint_loop acc s) (leb_bytes v) (acc OR push_bit s v)"
proof (induction v arbitrary: acc s rule: leb_bytes.induct)
  case (1 v)
  let ?low = "v AND 0x7f :: u128"
  let ?r = "drop_bit 7 v"
  have fits: "\<not> (128 - s < 7 \<and> drop_bit (128 - s) (b AND 0x7f) \<noteq> 0)"
    if b: "ucast (b AND 0x7f) = ?low" for b :: byte
  proof -
    have "drop_bit (128 - s) (b AND 0x7f) = 0" if "128 - s < 7"
    proof (rule bit_word_eqI)
      fix n :: nat
      have "bit (b AND 0x7f) (128 - s + n) = bit (ucast (b AND 0x7f) :: u128) (128 - s + n)" if "128 - s + n < 8"
        using that by (simp add: bit_simps)
      moreover have "\<not> bit v (128 - s + n)"
      proof -
        have "take_bit (128 - s) v = v"
          using 1(2) by (simp add: word_unat_eq_iff unsigned_take_bit_eq take_bit_nat_eq_self_iff)
        then have "bit v (128 - s + n) = bit (take_bit (128 - s) v) (128 - s + n)" by simp
        then show ?thesis by (simp add: bit_take_bit_iff)
      qed
      ultimately show "bit (drop_bit (128 - s) (b AND 0x7f)) n = bit (0 :: byte) n"
        unfolding b by (cases "128 - s + n < 8") (auto simp: bit_simps dest: bit_imp_le_length)
    qed
    then show ?thesis by blast
  qed
  show ?case
  proof (cases "?r = 0")
    case True
    have e: "leb_bytes v = [ucast ?low]" using True by (subst leb_bytes.simps) (simp add: Let_def)
    have "acc OR push_bit s ?low = acc OR push_bit s v" using leb_split[of acc s v] True by simp
    then show ?thesis
      unfolding dl.yields_def e
      using dc_varint_loop_step[OF dl.rd_yieldsD[OF dl_yields_byte] 1(3) fits[OF low_seven(1)]]
      by (simp add: low_seven)
  next
    case False
    have e: "leb_bytes v = (ucast ?low OR 0x80) # leb_bytes ?r"
      using False by (subst leb_bytes.simps) (simp add: Let_def)
    have s: "s + 7 < 128" "unat ?r < 2 ^ (128 - (s + 7))"
    proof -
      have r: "unat ?r = unat v div 2 ^ 7" "unat ?r \<noteq> 0"
        using False by (simp_all add: unat_drop_bit word_unat_eq_iff)
      then have "2 ^ 7 \<le> unat v" by (simp add: div_greater_zero_iff)
      then have "(2::nat) ^ 7 < 2 ^ (128 - s)" using 1(2) by linarith
      then have "7 < 128 - s" by (rule power_less_imp_less_exp[rotated]) simp
      then show "s + 7 < 128" by simp
      then have "128 - s = 128 - (s + 7) + 7" by simp
      then have "(2::nat) ^ (128 - s) = 2 ^ (128 - (s + 7)) * 2 ^ 7" by (simp only: power_add)
      then have "unat v < 2 ^ (128 - (s + 7)) * 2 ^ 7" using 1(2) by simp
      then show "unat ?r < 2 ^ (128 - (s + 7))" unfolding r(1) by (rule less_mult_imp_div_less)
    qed
    have IH: "dl.yields (dc_varint_loop (acc OR push_bit s ?low) (s + 7)) (leb_bytes ?r)
       ((acc OR push_bit s ?low) OR push_bit (s + 7) ?r)"
      by (rule 1(1)[OF refl refl False s(2,1)])
    show ?thesis
      unfolding dl.yields_def e
    proof (intro allI impI)
      fix c assume c: "dl.starts c ((ucast ?low OR 0x80) # leb_bytes ?r)"
      note st = dl.rd_starts_Cons[OF c]
      have "dc_byte c = (Inr (ucast ?low OR 0x80), dc_adv 1 c)"
        using dl.rd_yieldsD[OF dl_yields_byte conjunct1[OF st]] by simp
      then have "dc_varint_loop acc s c = dc_varint_loop (acc OR push_bit s ?low) (s + 7) (dc_adv 1 c)"
        using dc_varint_loop_step[OF _ 1(3) fits[OF low_seven(2)], of c] by (simp only: low_seven if_False)
      then show "dc_varint_loop acc s c = (Inr (acc OR push_bit s v),
          dc_adv (length ((ucast ?low OR 0x80) # leb_bytes ?r)) c)"
        using dl.rd_yieldsD[OF IH conjunct2[OF st]] leb_split[of acc s v] by simp
    qed
  qed
qed

lemma dl_yields_varint: "dl.yields dc_varint (leb_bytes v) v"
  using dc_varint_loop_leb[of v 0 0] unsigned_less[of v, where ?'a = nat] by (simp add: dc_varint_def)

lemma dl_yields_usize: "n \<le> usize_max \<Longrightarrow> dl.yields dc_usize_varint (leb_bytes (of_nat n)) n"
  unfolding dc_usize_varint_def
  by (rule dl.rd_yields_map[OF dl_yields_varint]) (simp add: unat_of_nat)

lemma dl_yields_zigzag: "dl.yields dc_zigzag (leb_bytes (zigzag_encode v)) v"
  unfolding dc_zigzag_def by (rule dl.rd_yields_map[OF dl_yields_varint]) (simp add: zigzag_decode_encode)

section \<open>Integer deltas\<close>

lemma sint_sub_fits: "fits_i128 (sint v - sint b) \<Longrightarrow> sint (v - b :: u128) = sint v - sint b"
  unfolding fits_i128_def sint_word_ariths by (simp add: signed_take_bit_int_eq_self)

lemma fits_sint: "fits_i128 (sint (v :: u128))"
  using sint_ge[of v] sint_lt[of v] by (simp add: fits_i128_def)

lemma dc_new_starts: "length (bs @ rest) \<le> usize_max \<Longrightarrow> dl.starts (dc_new (bs @ rest)) bs"
  by (simp add: dl.starts_def dc_new_def dc_valid_def dc_rest_def)

text \<open>
  Integer deltas. Encoding succeeds only when the difference fits 128 signed bits, and a receiver
  with the same base gets the value back from the bytes; bytes that follow them are an error.
\<close>

theorem delta_roundtrip:
  assumes "encode_delta base v = Inr bs" and "length (bs @ rest) \<le> usize_max"
  shows "fits_i128 (sint v - sint base) \<and> decode_delta base (bs @ rest) =
    (if rest = [] then Inr v else Inl (TrailingBytesError (length rest)))"
proof -
  have f: "fits_i128 (sint v - sint base)" "bs = leb_bytes (zigzag_encode (v - base))"
    using assms(1) by (auto simp: encode_delta_def dl_write_zigzag_def dl_write_varint_def split: if_splits)
  have "dc_zigzag (dc_new (bs @ rest)) = (Inr (v - base), dc_adv (length bs) (dc_new (bs @ rest)))"
    unfolding f(2) by (rule dl.rd_yieldsD[OF dl_yields_zigzag dc_new_starts]) (use assms(2) f(2) in simp)
  then have "decode_delta base (bs @ rest) =
      (if rest = [] then Inr v else Inl (TrailingBytesError (length rest)))"
    using fits_sint[of v]
    by (simp add: decode_delta_def dc_finish_def dc_new_def sint_sub_fits[OF f(1)])
  with f(1) show ?thesis by simp
qed

lemma delta_roundtrip_witness: "decode_delta 1000 [5] = Inr 997"
proof -
  have "zigzag_encode (- 3) = 5" by (simp add: zigzag_neg)
  then have "encode_delta 1000 997 = Inr [5]"
    by (simp add: encode_delta_def fits_i128_def dl_write_zigzag_def dl_write_varint_def leb_bytes.simps and_seven)
  from delta_roundtrip[OF this, of "[]"] show ?thesis by simp
qed

text \<open>A difference that does not fit is refused, in both directions.\<close>

lemma encode_delta_refuses: "\<not> fits_i128 (sint v - sint base) \<Longrightarrow> encode_delta base v = Inl (Delta ''delta overflows i128'')"
  by (simp add: encode_delta_def)

section \<open>The dynamic table\<close>

definition table_ok :: "delta_table \<Rightarrow> bool" where
  "table_ok t \<longleftrightarrow> length (dt_entries t) \<le> dt_max_entries t"

lemma table_ok_insert: "table_ok t \<Longrightarrow> table_ok (table_insert v t)"
  by (auto simp: table_ok_def table_insert_def)

lemma position_of_Some: "position_of x xs = Some i \<Longrightarrow> i < length xs \<and> xs ! i = x"
  by (induction xs arbitrary: i) (auto split: if_splits simp: less_Suc_eq_0_disj)

lemma lookup_get: "table_lookup t v = Some i \<Longrightarrow> table_get t i = Some v \<and> i < length (dt_entries t)"
  using position_of_Some by (fastforce simp: table_lookup_def table_get_def)

lemma insert_max [simp]: "dt_max_entries (table_insert v t) = dt_max_entries t"
  by (simp add: table_insert_def)

section \<open>Update frames\<close>

text \<open>The payload is a concatenation, entry by entry.\<close>

fun entries_wire :: "byte list list \<Rightarrow> delta_table \<Rightarrow> byte list"
  and entries_table :: "byte list list \<Rightarrow> delta_table \<Rightarrow> delta_table" where
  "entries_wire [] t = []"
| "entries_wire (v # vs) t = (case table_lookup t v of
     Some i \<Rightarrow> TAG_REF # leb_bytes (of_nat i) @ entries_wire vs t
   | None \<Rightarrow> TAG_LITERAL # leb_bytes (of_nat (length v)) @ v @ entries_wire vs (table_insert v t))"
| "entries_table [] t = t"
| "entries_table (v # vs) t = (case table_lookup t v of
     Some i \<Rightarrow> entries_table vs t | None \<Rightarrow> entries_table vs (table_insert v t))"

lemma table_ok_entries: "table_ok t \<Longrightarrow> table_ok (entries_table vs t)"
  by (induction vs arbitrary: t) (simp_all add: table_ok_insert split: option.split)

lemma encode_entries_eq:
  "encode_entries vs t p = (p @ entries_wire vs t, entries_table vs t)"
  by (induction vs arbitrary: t p) (auto simp: dl_write_varint_def split: option.split)

lemma decode_entries_wire:
  assumes "dl.starts c (entries_wire vs t)" and "table_ok t" and "dt_max_entries t \<le> usize_max"
    and "\<forall>v\<in>set vs. length v \<le> usize_max"
  shows "decode_entries (length vs) c t ups =
    (Inr (ups @ vs, dc_adv (length (entries_wire vs t)) c), entries_table vs t)"
  using assms
proof (induction vs arbitrary: c t ups)
  case Nil
  then show ?case by simp
next
  case (Cons v vs)
  show ?case
  proof (cases "table_lookup t v")
    case None
    let ?l = "leb_bytes (of_nat (length v))" and ?r = "entries_wire vs (table_insert v t)"
    have s0: "dl.starts c (TAG_LITERAL # ?l @ v @ ?r)" using Cons.prems(1) None by simp
    note st = dl.rd_starts_Cons[OF s0]
    have b: "dc_byte c = (Inr TAG_LITERAL, dc_adv 1 c)"
      using dl.rd_yieldsD[OF dl_yields_byte conjunct1[OF st]] by simp
    have s1: "dl.starts (dc_adv 1 c) ?l" "dl.starts (dc_adv (1 + length ?l) c) v"
      "dl.starts (dc_adv (1 + length ?l + length v) c) ?r"
      using conjunct2[OF st] by (simp_all add: dl.rd_starts_append)
    have n: "length v \<le> usize_max" using Cons.prems(4) by simp
    have l: "dc_usize_varint (dc_adv 1 c) = (Inr (length v), dc_adv (1 + length ?l) c)"
      using dl.rd_yieldsD[OF dl_yields_usize[OF n] s1(1)] by simp
    have v: "dc_take (length v) (dc_adv (1 + length ?l) c) = (Inr v, dc_adv (1 + length ?l + length v) c)"
      using dl.rd_yieldsD[OF dl_yields_take[OF refl] s1(2)] by simp
    show ?thesis
      using Cons.IH[OF s1(3) table_ok_insert[OF Cons.prems(2)], of "ups @ [v]"] Cons.prems(3,4) None b l v
      by (simp add: delta_consts add.assoc)
  next
    case (Some i)
    let ?l = "leb_bytes (of_nat i)" and ?r = "entries_wire vs t"
    note g = lookup_get[OF Some]
    have i: "i \<le> usize_max" using g Cons.prems(2,3) by (simp add: table_ok_def)
    then have u: "unat (of_nat i :: u128) = i" by (simp add: unat_of_nat)
    have s0: "dl.starts c (TAG_REF # ?l @ ?r)" using Cons.prems(1) Some by simp
    note st = dl.rd_starts_Cons[OF s0]
    have b: "dc_byte c = (Inr TAG_REF, dc_adv 1 c)"
      using dl.rd_yieldsD[OF dl_yields_byte conjunct1[OF st]] by simp
    have s1: "dl.starts (dc_adv 1 c) ?l" "dl.starts (dc_adv (1 + length ?l) c) ?r"
      using conjunct2[OF st] by (simp_all add: dl.rd_starts_append)
    have l: "dc_varint (dc_adv 1 c) = (Inr (of_nat i), dc_adv (1 + length ?l) c)"
      using dl.rd_yieldsD[OF dl_yields_varint s1(1)] by simp
    show ?thesis
      using Cons.IH[OF s1(2) Cons.prems(2), of "ups @ [v]"] Cons.prems(3,4) Some b l g i u
      by (simp add: add.assoc)
  qed
qed

lemma u16_bytes: obtains x y where "to_le_bytes (w :: u16) = [x, y]" "from_le_bytes [x, y] = w"
proof -
  have two: "length xs = 2 \<Longrightarrow> \<exists>x y. xs = [x, y]" for xs :: "byte list"
    by (auto simp: numeral_2_eq_2 length_Suc_conv)
  have "length (to_le_bytes w) = 2" by simp
  then obtain x y where xy: "to_le_bytes w = [x, y]" using two by blast
  then have "from_le_bytes [x, y] = w" using byte_rt(1)[of w] by simp
  with xy show thesis by (rule that)
qed

lemma delta_header:
  fixes count :: u64
  defines "hd16 \<equiv> DELTA_MAGIC @ to_le_bytes FORMAT_VERSION @ to_le_bytes (0 :: u16) @ to_le_bytes count"
  shows "length hd16 = 16" "take 4 (hd16 @ p) = DELTA_MAGIC"
    "from_le_bytes [(hd16 @ p) ! 4, (hd16 @ p) ! 5] = FORMAT_VERSION"
    "(from_le_bytes [(hd16 @ p) ! 6, (hd16 @ p) ! 7] :: u16) = 0"
    "from_le_bytes (take 8 (drop 8 (hd16 @ p))) = count" "drop 16 (hd16 @ p) = p"
proof -
  obtain a b where ab: "to_le_bytes FORMAT_VERSION = [a, b]" "from_le_bytes [a, b] = FORMAT_VERSION"
    by (rule u16_bytes)
  obtain c d where cd: "to_le_bytes (0 :: u16) = [c, d]" "from_le_bytes [c, d] = (0 :: u16)"
    by (rule u16_bytes)
  have h: "hd16 @ p = 82 # 66 # 68 # 76 # a # b # c # d # to_le_bytes count @ p"
    unfolding hd16_def ab cd by (simp add: DELTA_MAGIC_def)
  show "length hd16 = 16" unfolding hd16_def ab cd by (simp add: DELTA_MAGIC_def)
  show "take 4 (hd16 @ p) = DELTA_MAGIC" unfolding h by (simp add: DELTA_MAGIC_def)
  show "from_le_bytes [(hd16 @ p) ! 4, (hd16 @ p) ! 5] = FORMAT_VERSION" unfolding h by (simp add: ab)
  show "(from_le_bytes [(hd16 @ p) ! 6, (hd16 @ p) ! 7] :: u16) = 0" unfolding h by (simp add: cd)
  show "from_le_bytes (take 8 (drop 8 (hd16 @ p))) = count" unfolding h by simp
  show "drop 16 (hd16 @ p) = p" unfolding h by simp
qed

text \<open>
  C13: update frames. When a frame is produced, a receiver whose table is in the sender's state decodes
  exactly the updates and ends in exactly the sender's new state, references to entries inserted or
  evicted by the same frame included, so the tables never drift apart.
\<close>

theorem update_frames_roundtrip:
  assumes "encode_updates sender cfg t updates = (Inr frame, t')" and "table_ok t" and "dt_max_entries t \<le> usize_max"
    and "\<forall>v\<in>set updates. length v \<le> usize_max" and "length updates \<le> usize_max"
    and "24 * length updates < 2 ^ 63" and "alloc (24 * length updates)"
  shows "decode_updates alloc cfg t frame = (Inr updates, t') \<and> table_ok t'"
proof -
  let ?p = "entries_wire updates t"
  let ?h = "DELTA_MAGIC @ to_le_bytes FORMAT_VERSION @ to_le_bytes (0 :: u16) @
      to_le_bytes (of_nat (length updates) :: u64)"
  have f: "frame = ?h @ ?p" "t' = entries_table updates t" "16 + length ?p \<le> usize_max"
    "within (c_limit cfg) (16 + length ?p)"
    using assms(1) by (auto simp: encode_updates_def encode_entries_eq enforce_byte_limit_def
        DELTA_HEADER_LEN_def Let_def rmap_eq_Inr rbind_eq_Inr split: if_splits)
  have l: "length frame = 16 + length ?p" using f(1) delta_header(1) by simp
  have n: "unat (of_nat (length updates) :: u64) = length updates" using assms(5) by (simp add: unat_of_nat)
  have "decode_entries (length updates) (dc_new ?p) t [] = (Inr (updates, dc_adv (length ?p) (dc_new ?p)), t')"
    using decode_entries_wire[OF dc_new_starts[of ?p "[]", simplified] assms(2,3,4), of "[]"] f(2,3) by simp
  moreover have "dc_finish (dc_adv (length ?p) (dc_new ?p)) = Inr ()"
    by (simp add: dc_finish_def dc_new_def)
  moreover have "enforce_byte_limit cfg (length frame) = Inr ()"
    using f(4) l by (simp add: enforce_byte_limit_def)
  moreover have "with_capacity alloc (length updates * 24) = Inr ()"
    using assms(6,7) by (simp add: with_capacity_def mult.commute)
  moreover note hd = delta_header(2-6)[where count = "of_nat (length updates)" and p = ?p, folded f(1)]
  ultimately have "decode_updates alloc cfg t frame = (Inr updates, t')"
    using l n by (simp add: decode_updates_def DELTA_HEADER_LEN_def Let_def)
  then show ?thesis using f(2) table_ok_entries[OF assms(2)] by simp
qed

lemma update_frames_roundtrip_witness:
  "decode_updates (\<lambda>_. True) standard (table_new 2)
     (DELTA_MAGIC @ to_le_bytes FORMAT_VERSION @ to_le_bytes (0 :: u16) @ to_le_bytes (3 :: u64) @
        [1, 2, 7, 8, 1, 1, 9, 0, 1]) =
   (Inr [[7, 8], [9], [7, 8]], \<lparr> dt_entries = [[9], [7, 8]], dt_max_entries = 2 \<rparr>)"
proof -
  let ?f = "DELTA_MAGIC @ to_le_bytes FORMAT_VERSION @ to_le_bytes (0 :: u16) @ to_le_bytes (3 :: u64) @
        [1, 2, 7, 8, 1, 1, 9, 0, 1]"
  have l: "leb_bytes 2 = [2]" "leb_bytes 1 = [1]"
    by (simp_all add: leb_bytes.simps and_seven)
  have e: "encode_updates (\<lambda>_. True) standard (table_new 2) [[7, 8], [9], [7, 8]] =
      (Inr ?f, \<lparr> dt_entries = [[9], [7, 8]], dt_max_entries = 2 \<rparr>)"
    by (simp add: encode_updates_def table_new_def table_lookup_def table_insert_def dl_write_varint_def l
        enforce_byte_limit_def standard_def DEFAULT_SIZE_LIMIT_def check_limit_def DELTA_HEADER_LEN_def with_capacity_def
        TAG_REF_def TAG_LITERAL_def)
  show ?thesis
    using update_frames_roundtrip[OF e, of "\<lambda>_. True"] by (simp add: table_ok_def table_new_def)
qed

text \<open>
  A header alone can stop the receiver. The element count of a frame is passed to \<^verbatim>\<open>Vec::with_capacity\<close>
  before any entry is read, so a well-formed 16-byte frame that declares \<open>2 ^ 60\<close> updates panics whatever
  the table, the allocator and the byte limit, as long as 16 bytes are within it.
\<close>

theorem delta_count_panics:
  assumes "within (c_limit cfg) 16"
  shows "\<exists>msg. fst (decode_updates alloc cfg t (DELTA_MAGIC @ to_le_bytes FORMAT_VERSION @ to_le_bytes (0 :: u16) @
     to_le_bytes (2 ^ 60 :: u64))) = Inl (Panic msg)"
proof -
  let ?f = "DELTA_MAGIC @ to_le_bytes FORMAT_VERSION @ to_le_bytes (0 :: u16) @ to_le_bytes (2 ^ 60 :: u64)"
  note hd = delta_header(2-5)[where count = "2 ^ 60" and p = "[]", simplified append_Nil2]
  have "length ?f = 16" by (rule delta_header(1))
  moreover have "unat (2 ^ 60 :: u64) = 2 ^ 60" by simp
  ultimately show ?thesis
    using assms hd by (simp add: decode_updates_def enforce_byte_limit_def DELTA_HEADER_LEN_def Let_def
        check_limit_if with_capacity_def)
qed

lemma delta_count_panics_witness:
  "\<exists>msg. fst (decode_updates (\<lambda>_. True) standard (table_new 8) (DELTA_MAGIC @ to_le_bytes FORMAT_VERSION @
     to_le_bytes (0 :: u16) @ to_le_bytes (2 ^ 60 :: u64))) = Inl (Panic msg)"
  by (rule delta_count_panics) (simp add: standard_def DEFAULT_SIZE_LIMIT_def)

end
