(* ===== verification/Bits.thy ===== *)
theory Bits
  imports RB_Prelude
begin

text \<open>
  Bit strings shared by the bit-level codecs: bytes and machine words as lists of bits, least
  significant first, the order \<^verbatim>\<open>src/bitpack.rs\<close> and \<^verbatim>\<open>src/lz.rs\<close> write them in.
\<close>

definition word_bits :: "nat \<Rightarrow> 'a::len word \<Rightarrow> bool list" where
  "word_bits n w = map (bit w) [0..<n]"

definition bits_of :: "byte list \<Rightarrow> bool list" where
  "bits_of bs = concat (map (word_bits 8) bs)"

fun of_bits :: "bool list \<Rightarrow> 'a::len word" where
  "of_bits [] = 0"
| "of_bits (b # bs) = of_bool b + 2 * of_bits bs"

lemma length_word_bits [simp]: "length (word_bits n w) = n"
  by (simp add: word_bits_def)

lemma word_bits_0 [simp]: "word_bits 0 w = []"
  by (simp add: word_bits_def)

lemma nth_word_bits [simp]: "i < n \<Longrightarrow> word_bits n w ! i = bit w i"
  by (simp add: word_bits_def)

lemma length_bits_of [simp]: "length (bits_of bs) = 8 * length bs"
  by (induction bs) (simp_all add: bits_of_def)

lemma bits_of_simps [simp]:
  "bits_of [] = []" "bits_of (b # bs) = word_bits 8 b @ bits_of bs"
  by (simp_all add: bits_of_def)

lemma bits_of_append [simp]: "bits_of (xs @ ys) = bits_of xs @ bits_of ys"
  by (simp add: bits_of_def)

lemma nth_bits_of: "k < 8 * length bs \<Longrightarrow> bits_of bs ! k = bit (bs ! (k div 8)) (k mod 8)"
proof (induction bs arbitrary: k)
  case (Cons b bs)
  show ?case
  proof (cases "k < 8")
    case True
    then show ?thesis by (simp add: nth_append)
  next
    case False
    then obtain j where j: "k = j + 8" by (metis le_add_diff_inverse2 not_less)
    have "(j + 8) div 8 = Suc (j div 8)" by simp
    then show ?thesis using j Cons.IH[of j] Cons.prems by (simp add: nth_append)
  qed
qed simp

lemma bit_of_bits: "bit (of_bits bs :: 'a::len word) i \<longleftrightarrow> i < LENGTH('a) \<and> i < length bs \<and> bs ! i"
proof (induction bs arbitrary: i)
  case (Cons b bs)
  show ?case
  proof (cases i)
    case 0
    then show ?thesis by (simp add: bit_0 even_add)
  next
    case (Suc n)
    have "of_bool b + 2 * of_bits bs = (of_bool b OR (2 * of_bits bs) :: 'a word)"
      by (rule disjunctive_add) (auto simp: bit_simps)
    then show ?thesis
      using Cons.IH[of n] Suc by (auto simp: bit_or_iff bit_double_iff bit_of_bool_iff dest: bit_imp_le_length)
  qed
qed simp

lemma of_bits_word_bits: "of_bits (word_bits n w) = take_bit n (w :: 'a::len word)"
  by (rule bit_word_eqI) (auto simp: bit_of_bits bit_take_bit_iff)

lemma of_bits_word_bits_wide:
  "LENGTH('a) \<le> LENGTH('b) \<Longrightarrow> unat w < 2 ^ n \<Longrightarrow> (of_bits (word_bits n (w :: 'a::len word)) :: 'b::len word) = ucast w"
proof (rule bit_word_eqI)
  fix k assume l: "LENGTH('a) \<le> LENGTH('b)" and w: "unat w < 2 ^ n" and "k < LENGTH('b)"
  have "take_bit n w = w" using w by (simp add: word_unat_eq_iff unsigned_take_bit_eq take_bit_nat_eq_self_iff)
  then have "bit w k \<Longrightarrow> k < n" by (metis bit_take_bit_iff)
  then show "bit (of_bits (word_bits n w) :: 'b word) k = bit (ucast w :: 'b word) k"
    using \<open>k < LENGTH('b)\<close> l by (auto simp: bit_of_bits bit_unsigned_iff dest: bit_imp_le_length)
qed

lemma word_bits_of_bits: "length bs \<le> LENGTH('a) \<Longrightarrow> word_bits (length bs) (of_bits bs :: 'a::len word) = bs"
  by (rule nth_equalityI) (simp_all add: bit_of_bits)

lemma word_bits_eqD:
  "word_bits n v = word_bits n w \<Longrightarrow> i < n \<Longrightarrow> bit v i = bit w i"
  by (metis nth_word_bits)

lemma take_word_bits: "m \<le> n \<Longrightarrow> take m (word_bits n w) = word_bits m w"
  by (rule nth_equalityI) simp_all

lemma drop_word_bits: "drop m (word_bits n w) = word_bits (n - m) (drop_bit m (w :: 'a::len word))"
  by (rule nth_equalityI) (simp_all add: bit_drop_bit_eq add.commute)

lemma word_bits_add: "word_bits (m + n) w = word_bits m w @ word_bits n (drop_bit m (w :: 'a::len word))"
  using append_take_drop_id[of m "word_bits (m + n) w"] by (simp add: take_word_bits drop_word_bits)

lemma bits_of_inj: "bits_of xs = bits_of ys \<Longrightarrow> xs = ys"
proof (induction xs arbitrary: ys)
  case Nil
  then show ?case by (cases ys) (simp_all add: word_bits_def)
next
  case (Cons x xs)
  have "8 * length (x # xs) = 8 * length ys" by (metis length_bits_of Cons.prems)
  then obtain y zs where ys: "ys = y # zs" by (cases ys) simp_all
  then have "word_bits 8 x = word_bits 8 y" "bits_of xs = bits_of zs"
    using Cons.prems by (simp_all add: append_eq_append_conv)
  moreover from this(1) have "x = y"
    by (intro bit_word_eqI) (rule word_bits_eqD[where n = 8], simp_all)
  ultimately show ?case using ys Cons.IH by simp
qed

text \<open>Setting one bit of a byte buffer.\<close>

lemma bits_of_set:
  assumes "k < 8 * length bs"
  shows "bits_of (bs[k div 8 := bs ! (k div 8) OR push_bit (k mod 8) (of_bool b)]) = (bits_of bs)[k := (bits_of bs ! k \<or> b)]"
proof (rule nth_equalityI)
  let ?bs = "bs[k div 8 := bs ! (k div 8) OR push_bit (k mod 8) (of_bool b)]"
  fix i assume "i < length (bits_of ?bs)"
  then have i: "i < 8 * length bs" by simp
  have d: "k div 8 < length bs" using assms by (simp add: less_mult_imp_div_less mult.commute)
  have p: "bit (push_bit (k mod 8) (of_bool b) :: byte) (i mod 8) \<longleftrightarrow> i mod 8 = k mod 8 \<and> b"
    by (auto simp: bit_push_bit_iff bit_of_bool_iff)
  have l: "bits_of ?bs ! i = bit (?bs ! (i div 8)) (i mod 8)" using i by (simp add: nth_bits_of)
  show "bits_of ?bs ! i = (bits_of bs)[k := (bits_of bs ! k \<or> b)] ! i"
  proof (cases "i div 8 = k div 8")
    case True
    show ?thesis
    proof (cases "i mod 8 = k mod 8")
      case m: True
      then have "i = k" using True by (metis div_mult_mod_eq)
      then show ?thesis using l d p assms by (simp add: nth_bits_of bit_or_iff)
    next
      case False
      then have "i \<noteq> k" by auto
      then show ?thesis using l True d p False i by (simp add: nth_bits_of bit_or_iff)
    qed
  next
    case False
    then have "i \<noteq> k" by auto
    then show ?thesis using l False i by (simp add: nth_bits_of)
  qed
qed simp

text \<open>Values and their bits.\<close>

lemma fits_iff: "drop_bit n v = 0 \<longleftrightarrow> unat (v :: 'a::len word) < 2 ^ n"
  
proof -
  have "drop_bit n v = 0 \<longleftrightarrow> unat (drop_bit n v) = 0" by (rule unat_eq_0[symmetric])
  also have "unat (drop_bit n v) = unat v div 2 ^ n" by (subst unat_drop_bit_eq) (rule drop_bit_eq_div)
  finally show ?thesis by (simp add: div_eq_0_iff)
qed

lemma word_bits_inj:
  assumes "word_bits n v = word_bits n w" and "unat (v :: 'a::len word) < 2 ^ n" and "unat w < 2 ^ n"
  shows "v = w"
proof -
  have "take_bit n v = take_bit n w" using arg_cong[OF assms(1), of "of_bits :: _ \<Rightarrow> 'a word"] by (simp only: of_bits_word_bits)
  moreover have "take_bit n v = v" "take_bit n w = w"
    using assms(2,3) by (simp_all add: word_unat_eq_iff unsigned_take_bit_eq take_bit_nat_eq_self_iff)
  ultimately show ?thesis by simp
qed

lemma word_zero_iff: "(w :: 'a::len word) = 0 \<longleftrightarrow> (\<forall>i. \<not> bit w i)"
  by (auto intro: bit_word_eqI)

lemma all_false_iff: "length xs = k \<Longrightarrow> xs = replicate k False \<longleftrightarrow> (\<forall>i<k. \<not> xs ! i)"
  by (auto simp: list_eq_iff_nth_eq)

end
