(* ===== verification/Bitpack.thy ===== *)
theory Bitpack
  imports Bits Reader
begin

text \<open>
  \<^verbatim>\<open>src/bitpack.rs\<close>: bit-level output over a caller-owned buffer, the matching reader, and the field
  conversions. A type's \<^verbatim>\<open>BitPack\<close> implementation is the list of its fields, each with the declared
  width, packed one after the other, as the derived implementations do.
\<close>

section \<open>Writer\<close>

record bit_writer =
  bw_output :: "byte list"
  bw_position :: nat

definition sat_add :: "nat \<Rightarrow> nat \<Rightarrow> nat" where
  "sat_add a b = min (a + b) usize_max"

definition sat_mul :: "nat \<Rightarrow> nat \<Rightarrow> nat" where
  "sat_mul a b = min (a * b) usize_max"

definition bytes_for_bits :: "nat \<Rightarrow> nat" where
  "bytes_for_bits bits = sat_add bits 7 div 8"

definition bit_writer_new :: "byte list \<Rightarrow> bit_writer" where
  "bit_writer_new output = \<lparr> bw_output = replicate (length output) 0, bw_position = 0 \<rparr>"

text \<open>One round of the loop: \<open>output[p / 8] |= source << (p % 8)\<close>.\<close>

definition put_bit :: "nat \<Rightarrow> bool \<Rightarrow> byte list \<Rightarrow> byte list" where
  "put_bit p source output = output[p div 8 := output ! (p div 8) OR push_bit (p mod 8) (of_bool source)]"

definition bit_write :: "u128 \<Rightarrow> nat \<Rightarrow> (bit_writer, unit) op" where
  "bit_write v width w =
    (if width > 128 then (Inl (BitPacking ''field width exceeds 128 bits''), w)
     else if width < 128 \<and> drop_bit width v \<noteq> 0
       then (Inl (BitPacking ''field value does not fit declared width''), w)
     else let e = bw_position w + width in
       if e > usize_max then (Inl (BitPacking ''bit position overflow''), w)
       else if e > sat_mul (length (bw_output w)) 8
         then (Inl (BufferTooSmall (bytes_for_bits e) (length (bw_output w))), w)
       else (Inr (), w\<lparr>bw_output := fold (\<lambda>i. put_bit (bw_position w + i) (bit v i)) [0..<width] (bw_output w),
                     bw_position := e\<rparr>))"

definition bytes_written :: "bit_writer \<Rightarrow> nat" where
  "bytes_written w = bytes_for_bits (bw_position w)"

section \<open>Reader\<close>

record bit_reader =
  br_input :: "byte list"
  br_position :: nat

definition bit_reader_new :: "byte list \<Rightarrow> bit_reader" where
  "bit_reader_new input = \<lparr> br_input = input, br_position = 0 \<rparr>"

definition get_bit :: "byte list \<Rightarrow> nat \<Rightarrow> bool" where
  "get_bit input p = bit (input ! (p div 8)) (p mod 8)"

definition bit_read :: "nat \<Rightarrow> (bit_reader, u128) op" where
  "bit_read width r =
    (if width > 128 then (Inl (BitPacking ''field width exceeds 128 bits''), r)
     else let e = br_position r + width in
       if e > usize_max then (Inl (BitPacking ''bit position overflow''), r)
       else if e > sat_mul (length (br_input r)) 8 then (Inl UnexpectedEnd, r)
       else (Inr (fold (\<lambda>i v. v OR push_bit i (of_bool (get_bit (br_input r) (br_position r + i)))) [0..<width] 0),
             r\<lparr>br_position := e\<rparr>))"

definition validate_end :: "trailing \<Rightarrow> bit_reader \<Rightarrow> error + unit" where
  "validate_end policy r =
    (let used = bytes_for_bits (br_position r) in
     if br_position r mod 8 \<noteq> 0 \<and> used \<noteq> 0 \<and> drop_bit (br_position r mod 8) (br_input r ! (used - 1)) \<noteq> 0
     then Inl (BitPacking ''non-zero bit padding'')
     else if policy = Reject \<and> length (br_input r) \<noteq> used
       then Inl (TrailingBytesError (length (br_input r) - used)) else Inr ())"

section \<open>Field values\<close>

text \<open>
  A field value carries its native width, of 8, 16, 32, 64 or 128 bits. The value is held in 128 bits:
  zero-extended when unsigned, sign-extended when signed.
\<close>

datatype bit_value = BBool bool | BUnsigned nat u128 | BSigned nat u128

datatype bit_kind = KBool | KUnsigned nat | KSigned nat

primrec kind_of :: "bit_value \<Rightarrow> bit_kind" where
  "kind_of (BBool b) = KBool" | "kind_of (BUnsigned n v) = KUnsigned n" | "kind_of (BSigned n v) = KSigned n"

definition native_ok :: "bit_value \<Rightarrow> bool" where
  "native_ok x = (case x of
      BBool b \<Rightarrow> True
    | BUnsigned n v \<Rightarrow> n \<in> {8, 16, 32, 64, 128} \<and> unat v < 2 ^ n
    | BSigned n v \<Rightarrow> n \<in> {8, 16, 32, 64, 128} \<and> - (2 ^ (n - 1)) \<le> sint v \<and> sint v < 2 ^ (n - 1))"

primrec encode_bits :: "bit_value \<Rightarrow> nat \<Rightarrow> error + u128" where
  "encode_bits (BBool b) width =
    (if width \<noteq> 1 then Inl (BitPacking ''boolean fields require exactly one bit'') else Inr (of_bool b))"
| "encode_bits (BUnsigned n v) width =
    (if width = 0 \<or> width > n then Inl (BitPacking ''invalid unsigned field width'')
     else if width < 128 \<and> v \<ge> push_bit width 1 then Inl (BitPacking ''unsigned field value is out of range'')
     else Inr v)"
| "encode_bits (BSigned n v) width =
    (if width = 0 \<or> width > n then Inl (BitPacking ''invalid signed field width'')
     else if sint v < (if width = 128 then - (2 ^ 127) else - (2 ^ (width - 1)))
          \<or> sint v > (if width = 128 then 2 ^ 127 - 1 else 2 ^ (width - 1) - 1)
       then Inl (BitPacking ''signed field value is out of range'')
     else Inr (v AND (if width = 128 then NOT 0 else push_bit width 1 - 1)))"

primrec decode_bits :: "bit_kind \<Rightarrow> u128 \<Rightarrow> nat \<Rightarrow> error + bit_value" where
  "decode_bits KBool v width =
    (if width \<noteq> 1 \<or> v > 1 then Inl (BitPacking ''invalid packed boolean'') else Inr (BBool (v \<noteq> 0)))"
| "decode_bits (KUnsigned n) v width =
    (if width = 0 \<or> width > n \<or> unat v > 2 ^ n - 1 then Inl (BitPacking ''invalid packed unsigned value'')
     else Inr (BUnsigned n v))"
| "decode_bits (KSigned n) v width =
    (if width = 0 \<or> width > n then Inl (BitPacking ''invalid packed signed width'')
     else let signed = (if width = 128 then v
                        else if v AND push_bit (width - 1) 1 \<noteq> 0 then v OR push_bit width (NOT 0) else v)
       in if sint signed < - (2 ^ (n - 1)) \<or> sint signed > 2 ^ (n - 1) - 1
          then Inl (BitPacking ''invalid packed signed value'') else Inr (BSigned n signed))"

section \<open>Packing\<close>

text \<open>
  \<open>pack\<close> and \<open>unpack\<close> of a struct: its fields in declaration order. A primitive is one field of its
  native width.
\<close>

primrec pack :: "(bit_value \<times> nat) list \<Rightarrow> (bit_writer, unit) op" where
  "pack [] = sret ()"
| "pack (f # fs) = sbind (slift (\<lambda>_. encode_bits (fst f) (snd f))) (\<lambda>v.
     sbind (bit_write v (snd f)) (\<lambda>_. pack fs))"

primrec unpack :: "(bit_kind \<times> nat) list \<Rightarrow> (bit_reader, bit_value list) op" where
  "unpack [] = sret []"
| "unpack (f # fs) = sbind (bit_read (snd f)) (\<lambda>v.
     sbind (slift (\<lambda>_. decode_bits (fst f) v (snd f))) (\<lambda>x.
     sbind (unpack fs) (\<lambda>xs. sret (x # xs))))"

definition bits_serialize_into ::
  "config \<Rightarrow> nat \<Rightarrow> byte list \<Rightarrow> (bit_value \<times> nat) list \<Rightarrow> (error + nat) \<times> byte list" where
  "bits_serialize_into cfg max_bits output fs =
    (let maximum = bytes_for_bits max_bits in
     if length output < maximum then (Inl (BufferTooSmall maximum (length output)), output)
     else (case pack fs (bit_writer_new output) of
         (Inl e, w) \<Rightarrow> (Inl e, bw_output w)
       | (Inr _, w) \<Rightarrow> (rmap (\<lambda>_. bytes_written w) (check_limit (c_limit cfg) (bytes_written w)), bw_output w)))"

definition bits_serialize :: "config \<Rightarrow> nat \<Rightarrow> (bit_value \<times> nat) list \<Rightarrow> error + byte list" where
  "bits_serialize cfg max_bits fs =
    (let maximum = bytes_for_bits max_bits in
     rbind (check_limit (c_limit cfg) maximum) (\<lambda>_.
     let (r, output) = bits_serialize_into cfg max_bits (replicate maximum 0) fs
     in rmap (\<lambda>written. take written output) r))"

definition bits_deserialize :: "config \<Rightarrow> (bit_kind \<times> nat) list \<Rightarrow> byte list \<Rightarrow> error + bit_value list" where
  "bits_deserialize cfg kinds input =
    rbind (check_limit (c_limit cfg) (length input)) (\<lambda>_.
      case unpack kinds (bit_reader_new input) of
        (Inl e, _) \<Rightarrow> Inl e
      | (Inr xs, r) \<Rightarrow> rmap (\<lambda>_. xs) (validate_end (c_trailing cfg) r))"

section \<open>Field conversions\<close>

lemma sign_bits:
  assumes "- (2 ^ n) \<le> sint v" and "sint v < 2 ^ n" and "n < LENGTH('a)" and "i < LENGTH('a)"
  shows "bit (v :: 'a::len word) i = bit v (min i n)"
proof -
  have "bit v i = bit (signed_take_bit n (sint v)) i"
    using assms by (simp add: signed_take_bit_int_eq_self bit_sint_iff)
  also have "\<dots> = bit v (min i n)"
    using assms by (simp add: bit_signed_take_bit_iff bit_sint_iff min.commute)
  finally show ?thesis .
qed

lemma sint_of_sign_bits:
  assumes "\<And>i. n \<le> i \<Longrightarrow> i < LENGTH('a) \<Longrightarrow> bit v i = bit v n" and "n < LENGTH('a)"
  shows "- (2 ^ n) \<le> sint (v :: 'a::len word) \<and> sint v < 2 ^ n"
proof -
  have "bit (sint v) i = bit (signed_take_bit n (sint v)) i" for i
    using assms(1)[of i] assms(1)[of "LENGTH('a) - 1"] assms(2)
    by (cases "i < LENGTH('a)") (auto simp: bit_signed_take_bit_iff bit_sint_iff min_def dest: bit_imp_le_length)
  then have "sint v = signed_take_bit n (sint v)" by (rule bit_eqI)
  then show ?thesis using signed_take_bit_int_greater_eq_minus_exp[of n "sint v"]
      signed_take_bit_int_less_exp[of n "sint v"] by simp
qed

lemma width_mask: "(if width = 128 then NOT 0 else push_bit width 1 - 1 :: u128) = mask width" if "width \<le> 128"
proof (cases "width = 128")
  case True
  then show ?thesis by (intro bit_word_eqI) (simp add: bit_mask_iff bit_not_iff)
next
  case False
  then show ?thesis by (simp add: mask_eq_exp_minus_1)
qed

lemma fits_128: "unat (v :: u128) < 2 ^ 128"
  using unsigned_less[of v, where ?'a = nat] by simp

lemma fits_wide: "128 \<le> n \<Longrightarrow> unat (v :: u128) < 2 ^ n"
  using fits_128[of v] power_increasing[of 128 n "2::nat"] by linarith

lemma push_bit_le_iff: "n < 128 \<Longrightarrow> push_bit n 1 \<le> (v :: u128) \<longleftrightarrow> \<not> unat v < 2 ^ n"
proof -
  assume n: "n < 128"
  then have "(2::nat) ^ n < 2 ^ 128" by (intro power_strict_increasing) simp_all
  then have "unat (push_bit n 1 :: u128) = 2 ^ n"
    
    by (simp only: unsigned_push_bit_eq) (use n in \<open>simp add: take_bit_nat_eq_self_iff push_bit_eq_mult\<close>)
  then show ?thesis by (simp add: word_le_nat_alt not_less)
qed

lemma exp_le_iff: "n < 128 \<Longrightarrow> 2 ^ n \<le> (v :: u128) \<longleftrightarrow> \<not> unat v < 2 ^ n"
  using push_bit_le_iff[of n v] by simp

definition sign_extend :: "nat \<Rightarrow> u128 \<Rightarrow> u128" where
  "sign_extend width v =
    (if width = 128 then v else if v AND push_bit (width - 1) 1 \<noteq> 0 then v OR push_bit width (NOT 0) else v)"

lemma bit_sign_extend:
  assumes "0 < width" and "width \<le> 128" and "unat v < 2 ^ width" and "i < 128"
  shows "bit (sign_extend width v) i \<longleftrightarrow> bit v (min i (width - 1))"
proof -
  have "take_bit width v = v" using assms(3) by (simp add: word_unat_eq_iff unsigned_take_bit_eq take_bit_nat_eq_self_iff)
  then have b: "bit v i \<Longrightarrow> i < width" for i by (metis bit_take_bit_iff)
  have t: "v AND push_bit (width - 1) 1 \<noteq> 0 \<longleftrightarrow> bit v (width - 1)" if "width \<noteq> 128"
    using assms(1,2) that by (auto simp add: and_exp_eq_0_iff_not_bit push_bit_eq_mult)
  show ?thesis
    using t assms(1,2,4) b[of i] unfolding sign_extend_def
    by (cases "i < width") (auto simp: bit_simps min_def)
qed

lemma encode_decode_field:
  assumes "encode_bits x width = Inr v" and "native_ok x"
  shows "width \<le> 128 \<and> unat v < 2 ^ width \<and> decode_bits (kind_of x) v width = Inr x"
proof (cases x)
  case (BBool b)
  then show ?thesis using assms by (cases b) (simp_all split: if_splits)
next
  case (BUnsigned n w)
  then have "width \<noteq> 0" "width \<le> n" "n \<le> 128" "v = w" "unat w < 2 ^ n" "width < 128 \<longrightarrow> unat w < 2 ^ width"
    using assms by (auto simp: native_ok_def exp_le_iff split: if_splits)
  moreover from this have "unat w < 2 ^ width" by (cases "width < 128") (simp_all add: fits_wide)
  ultimately show ?thesis using BUnsigned by (auto simp: not_less Suc_le_eq)
next
  case (BSigned n w)
  let ?m = "width - 1"
  have w: "width \<noteq> 0" "width \<le> n" "n \<le> 128" "- (2 ^ ?m) \<le> sint w" "sint w < 2 ^ ?m"
    and n: "- (2 ^ (n - 1)) \<le> sint w" "sint w < 2 ^ (n - 1)" and v: "v = w AND mask width"
    using assms BSigned width_mask[of width] by (auto simp: native_ok_def split: if_splits)
  have b: "bit w i = bit w (min i ?m)" if "i < 128" for i
    using sign_bits[OF w(4,5), of i] w(1-3) that by simp
  have fit: "unat v < 2 ^ width"
    using w by (simp add: v flip: fits_iff take_bit_eq_mask) (simp add: drop_bit_take_bit)
  have "sign_extend width v = w"
  proof (rule bit_word_eqI)
    fix i assume "i < LENGTH(128)"
    then have i: "i < 128" by simp
    then have "bit (sign_extend width v) i = bit v (min i ?m)"
      using w(1-3) fit by (intro bit_sign_extend) simp_all
    also have "\<dots> = bit w (min i ?m)" using w(1-3) i by (auto simp: v bit_and_iff bit_mask_iff)
    also have "\<dots> = bit w i" by (rule b[OF i, symmetric])
    finally show "bit (sign_extend width v) i = bit w i" .
  qed
  then show ?thesis using BSigned w n fit by (simp add: Let_def sign_extend_def)
qed

lemma decode_encode_field:
  assumes "decode_bits k v width = Inr x" and "unat v < 2 ^ width" and "width \<le> 128"
    and k: "case k of KBool \<Rightarrow> True | KUnsigned n \<Rightarrow> n \<in> {8, 16, 32, 64, 128} | KSigned n \<Rightarrow> n \<in> {8, 16, 32, 64, 128}"
  shows "kind_of x = k \<and> native_ok x \<and> encode_bits x width = Inr v"
proof (cases k)
  case KBool
  have "\<not> 1 < v \<Longrightarrow> v = 0 \<or> v = 1"
    by (simp add: word_less_nat_alt word_unat_eq_iff) linarith
  then show ?thesis using assms KBool by (auto simp: native_ok_def split: if_splits)
next
  case (KUnsigned n)
  then have n: "width \<noteq> 0" "width \<le> n" "n \<le> 128" "unat v \<le> 2 ^ n - 1" "x = BUnsigned n v" "n \<in> {8, 16, 32, 64, 128}"
    using assms by (auto split: if_splits)
  have "unat v < 2 ^ n" using n(4) zero_less_power[of "2::nat" n] by linarith
  then show ?thesis using n KUnsigned assms(2) by (auto simp: native_ok_def exp_le_iff)
next
  case (KSigned n)
  let ?m = "width - 1"
  define s where "s = sign_extend width v"
  have n: "width \<noteq> 0" "width \<le> n" "n \<le> 128" "- (2 ^ (n - 1)) \<le> sint s" "sint s \<le> 2 ^ (n - 1) - 1"
    "x = BSigned n s" "n \<in> {8, 16, 32, 64, 128}"
    using assms(1) k KSigned by (auto simp: s_def sign_extend_def Let_def split: if_splits)
  have v: "take_bit width v = v" using assms(2) by (simp add: word_unat_eq_iff unsigned_take_bit_eq take_bit_nat_eq_self_iff)
  have b: "bit v i \<Longrightarrow> i < width" for i using v by (metis bit_take_bit_iff)
  have s: "bit s i \<longleftrightarrow> bit v (min i ?m)" if "i < 128" for i
    using bit_sign_extend[of width v i] n(1-3) assms(2) that by (simp add: s_def)
  have r: "- (2 ^ ?m) \<le> sint s \<and> sint s < 2 ^ ?m"
    by (rule sint_of_sign_bits) (use n(1-3) s in \<open>simp_all add: min_def\<close>)
  have "s AND mask width = v"
  proof (rule bit_word_eqI)
    fix i assume "i < LENGTH(128)"
    then show "bit (s AND mask width) i = bit v i"
      using s[of i] b[of i] n(1-3) by (auto simp: bit_simps min_def)
  qed
  then show ?thesis using r n KSigned width_mask[of width] by (auto simp: native_ok_def)
qed

section \<open>Bits written and read\<close>

lemma length_put_bit [simp]: "length (put_bit p b out) = length out"
  by (simp add: put_bit_def)

lemma length_put_bits [simp]: "length (fold (\<lambda>i. put_bit (p + i) (f i)) is out) = length out"
  by (induction "is" arbitrary: out) simp_all

lemma bits_of_put_bit:
  "p < 8 * length out \<Longrightarrow> \<not> bits_of out ! p \<Longrightarrow> bits_of (put_bit p b out) = (bits_of out)[p := b]"
  by (simp add: put_bit_def bits_of_set)

lemma bits_of_put_bits:
  assumes "p + n \<le> 8 * length out" and "drop p (bits_of out) = replicate (8 * length out - p) False"
  shows "bits_of (fold (\<lambda>i. put_bit (p + i) (bit v i)) [0..<n] out) =
         take p (bits_of out) @ word_bits n v @ replicate (8 * length out - (p + n)) False"
  using assms(1)
proof (induction n)
  case 0
  then show ?case using assms(2) by (metis add_0_right append_Nil append_take_drop_id fold_simps(1) upt_0 word_bits_0)
next
  case (Suc n)
  let ?o = "fold (\<lambda>i. put_bit (p + i) (bit v i)) [0..<n] out"
  let ?t = "take p (bits_of out) @ word_bits n v"
  obtain k where k: "8 * length out - (p + n) = Suc k" using Suc.prems by (cases "8 * length out - (p + n)") auto
  have o: "bits_of ?o = ?t @ replicate (Suc k) False" using Suc k by simp
  have t: "length ?t = p + n" using Suc.prems by simp
  have "\<not> bits_of ?o ! (p + n)" unfolding o t[symmetric] replicate_Suc append_Cons nth_append_length by simp
  then have "bits_of (put_bit (p + n) (bit v n) ?o) = (bits_of ?o)[p + n := bit v n]"
    using Suc.prems by (intro bits_of_put_bit) simp_all
  also have "\<dots> = ?t @ bit v n # replicate k False"
    unfolding o by (simp only: replicate_Suc t[symmetric] list_update_length)
  finally show ?case using k by (simp add: word_bits_def)
qed

lemma get_bits_fold:
  assumes "p + n \<le> 8 * length input" and "n \<le> 128"
  shows "fold (\<lambda>i v. v OR push_bit i (of_bool (get_bit input (p + i)))) [0..<n] 0 =
         (of_bits (take n (drop p (bits_of input))) :: u128)"
  using assms
proof (induction n)
  case (Suc n)
  show ?case
  proof (rule bit_word_eqI)
    fix i assume "i < LENGTH(128)"
    then show "bit (fold (\<lambda>i v. v OR push_bit i (of_bool (get_bit input (p + i)))) [0..<Suc n] 0 :: u128) i =
      bit (of_bits (take (Suc n) (drop p (bits_of input))) :: u128) i"
      using Suc by (cases "i = n") (auto simp: bit_of_bits bit_simps get_bit_def nth_bits_of less_Suc_eq)
  qed
qed simp

text \<open>The writer: bits written so far, the rest of the buffer zero.\<close>

definition bw_bits :: "bit_writer \<Rightarrow> bool list" where
  "bw_bits w = take (bw_position w) (bits_of (bw_output w))"

definition bw_ok :: "bit_writer \<Rightarrow> bool" where
  "bw_ok w \<longleftrightarrow> bw_position w \<le> 8 * length (bw_output w) \<and>
     drop (bw_position w) (bits_of (bw_output w)) = replicate (8 * length (bw_output w) - bw_position w) False"

lemma bits_of_zero: "bits_of (replicate n 0) = replicate (8 * n) False"
proof (induction n)
  case (Suc n)
  have "word_bits 8 (0 :: byte) = replicate 8 False" by (rule nth_equalityI) simp_all
  then show ?case using Suc by (simp add: replicate_add)
qed simp

lemma bw_new [simp]: "bw_ok (bit_writer_new out)" "bw_bits (bit_writer_new out) = []"
  "length (bw_output (bit_writer_new out)) = length out" "bw_position (bit_writer_new out) = 0"
  by (simp_all add: bit_writer_new_def bw_ok_def bw_bits_def bits_of_zero)

lemma bytes_for_bits_le: "bytes_for_bits n \<le> m \<longleftrightarrow> (n \<le> 8 * m \<or> usize_max div 8 \<le> m)"
  by (auto simp: bytes_for_bits_def sat_add_def min_def)

lemma bit_write_ok:
  assumes "bw_ok w" and "width \<le> 128" and "unat v < 2 ^ width"
    and "bw_position w + width \<le> sat_mul (length (bw_output w)) 8"
  obtains w' where "bit_write v width w = (Inr (), w')" and "bw_ok w'" and "bw_bits w' = bw_bits w @ word_bits width v"
    and "length (bw_output w') = length (bw_output w)" and "bw_position w' = bw_position w + width"
proof -
  let ?out = "fold (\<lambda>i. put_bit (bw_position w + i) (bit v i)) [0..<width] (bw_output w)"
  let ?w = "w\<lparr>bw_output := ?out, bw_position := bw_position w + width\<rparr>"
  have e: "bw_position w + width \<le> 8 * length (bw_output w)" "bw_position w + width \<le> usize_max"
    using assms(4) by (simp_all add: sat_mul_def)
  have "drop_bit width v = 0" using assms(3) by (simp add: fits_iff)
  then have "bit_write v width w = (Inr (), ?w)"
    using assms(2,4) e(2) by (simp add: bit_write_def Let_def)
  moreover have b: "bits_of ?out = bw_bits w @ word_bits width v @ replicate (8 * length (bw_output w) - (bw_position w + width)) False"
    using assms(1) e(1) by (simp add: bits_of_put_bits bw_bits_def bw_ok_def)
  moreover have "length (bw_bits w) = bw_position w" using assms(1) by (simp add: bw_bits_def bw_ok_def)
  ultimately show ?thesis using e(1) by (intro that[of ?w]) (simp_all add: bw_ok_def bw_bits_def[of ?w])
qed

lemma bit_write_Inr:
  assumes "bit_write v width w = (Inr u, w')"
  shows "width \<le> 128 \<and> unat v < 2 ^ width \<and> bw_position w + width \<le> sat_mul (length (bw_output w)) 8"
proof -
  have a: "width \<le> 128" "width < 128 \<longrightarrow> drop_bit width v = 0" "bw_position w + width \<le> sat_mul (length (bw_output w)) 8"
    using assms by (auto simp: bit_write_def Let_def split: if_splits)
  then have "unat v < 2 ^ width" by (cases "width < 128") (simp_all add: fits_iff fits_wide del: power_numeral)
  then show ?thesis using a by simp
qed

section \<open>Fields in sequence\<close>

definition field_bits :: "bit_value \<times> nat \<Rightarrow> bool list" where
  "field_bits f = word_bits (snd f) (case encode_bits (fst f) (snd f) of Inl e \<Rightarrow> 0 | Inr v \<Rightarrow> v)"

definition fields_bits :: "(bit_value \<times> nat) list \<Rightarrow> bool list" where
  "fields_bits fs = concat (map field_bits fs)"

definition field_ok :: "bit_value \<times> nat \<Rightarrow> bool" where
  "field_ok f \<longleftrightarrow> (\<exists>v. encode_bits (fst f) (snd f) = Inr v)"

abbreviation width_sum :: "('a \<times> nat) list \<Rightarrow> nat" where
  "width_sum fs \<equiv> sum_list (map snd fs)"

lemma fields_bits_simps [simp]:
  "fields_bits [] = []" "fields_bits (f # fs) = field_bits f @ fields_bits fs"
  by (simp_all add: fields_bits_def)

lemma length_field_bits [simp]: "length (field_bits f) = snd f"
  by (simp add: field_bits_def)

lemma length_fields_bits [simp]: "length (fields_bits fs) = width_sum fs"
  by (induction fs) simp_all

lemma field_bitsI: "encode_bits (fst f) (snd f) = Inr v \<Longrightarrow> field_bits f = word_bits (snd f) v"
  by (simp add: field_bits_def)

lemma field_ok_fits:
  assumes "field_ok f" and "native_ok (fst f)"
  obtains v where "encode_bits (fst f) (snd f) = Inr v" and "snd f \<le> 128" and "unat v < 2 ^ snd f"
    and "decode_bits (kind_of (fst f)) v (snd f) = Inr (fst f)"
  using assms encode_decode_field[of "fst f" "snd f"] unfolding field_ok_def by blast

lemma pack_ok:
  "bw_ok w \<Longrightarrow> \<forall>f\<in>set fs. field_ok f \<and> native_ok (fst f) \<Longrightarrow>
   bw_position w + width_sum fs \<le> sat_mul (length (bw_output w)) 8 \<Longrightarrow> \<exists>w'. pack fs w = (Inr (), w')"
proof (induction fs arbitrary: w)
  case (Cons f fs)
  obtain v where v: "encode_bits (fst f) (snd f) = Inr v" "snd f \<le> 128" "unat v < 2 ^ snd f"
    using Cons.prems(2) by (auto elim: field_ok_fits)
  have "bw_position w + snd f \<le> sat_mul (length (bw_output w)) 8" using Cons.prems(3) by simp
  then obtain w' where w': "bit_write v (snd f) w = (Inr (), w')" "bw_ok w'"
    "length (bw_output w') = length (bw_output w)" "bw_position w' = bw_position w + snd f"
    using bit_write_ok[OF Cons.prems(1) v(2,3)] by metis
  have "pack (f # fs) w = pack fs w'" using v(1) w'(1) by simp
  then show ?case using Cons.IH[OF w'(2)] Cons.prems(2,3) w'(3,4) by (simp add: add.assoc)
qed simp

lemma pack_Inr:
  "pack fs w = (Inr u, w') \<Longrightarrow> bw_ok w \<Longrightarrow>
   (\<forall>f\<in>set fs. field_ok f) \<and> bw_ok w' \<and> bw_bits w' = bw_bits w @ fields_bits fs \<and>
   length (bw_output w') = length (bw_output w) \<and> bw_position w' = bw_position w + width_sum fs"
proof (induction fs arbitrary: w)
  case (Cons f fs)
  then obtain v w1 where v: "encode_bits (fst f) (snd f) = Inr v" and w1: "bit_write v (snd f) w = (Inr (), w1)"
    and r: "pack fs w1 = (Inr u, w')"
    by (auto simp: sbind_Inr)
  have "bw_ok w1 \<and> bw_bits w1 = bw_bits w @ word_bits (snd f) v \<and>
    length (bw_output w1) = length (bw_output w) \<and> bw_position w1 = bw_position w + snd f"
    using bit_write_Inr[OF w1] w1 by (auto elim!: bit_write_ok[OF Cons.prems(2), of "snd f" v])
  then show ?case using Cons.IH[OF r] v by (auto simp: field_bitsI field_ok_def)
qed simp

section \<open>Reading back\<close>

definition br_rest :: "bit_reader \<Rightarrow> bool list" where
  "br_rest r = drop (br_position r) (take usize_max (bits_of (br_input r)))"

definition br_adv :: "nat \<Rightarrow> bit_reader \<Rightarrow> bit_reader" where
  "br_adv n r = r\<lparr>br_position := br_position r + n\<rparr>"

definition br_valid :: "bit_reader \<Rightarrow> bool" where
  "br_valid r \<longleftrightarrow> br_position r \<le> sat_mul (length (br_input r)) 8"

interpretation br: reader br_rest br_adv br_valid
proof unfold_locales
  fix s :: bit_reader and bs zs
  assume "br_valid s" and "br_rest s = bs @ zs"
  then have "length bs \<le> length (br_rest s)" by simp
  then show "br_valid (br_adv (length bs) s)"
    using \<open>br_valid s\<close> by (auto simp: br_valid_def br_adv_def br_rest_def sat_mul_def)
qed (simp_all add: br_rest_def br_adv_def add.commute add.left_commute)

lemma bit_read_eq:
  assumes "n \<le> 128" and "br_position r + n \<le> sat_mul (length (br_input r)) 8"
  shows "bit_read n r = (Inr (of_bits (take n (drop (br_position r) (bits_of (br_input r))))), br_adv n r)"
proof -
  have "br_position r + n \<le> 8 * length (br_input r)" "\<not> usize_max < br_position r + n"
    using assms(2) by (simp_all add: sat_mul_def)
  then show ?thesis using assms get_bits_fold[of "br_position r" n "br_input r"]
    by (simp add: bit_read_def Let_def br_adv_def)
qed

lemma bit_read_Inr:
  assumes "bit_read n r = (Inr v, r')"
  shows "n \<le> 128 \<and> r' = br_adv n r \<and> br_valid r' \<and> br_rest r = word_bits n v @ br_rest r' \<and> unat v < 2 ^ n"
proof -
  have a: "n \<le> 128" "br_position r + n \<le> sat_mul (length (br_input r)) 8" "r' = br_adv n r"
    and v: "v = of_bits (take n (drop (br_position r) (bits_of (br_input r))))"
    using assms get_bits_fold[of "br_position r" n "br_input r"]
    by (auto simp: bit_read_def Let_def sat_mul_def br_adv_def split: if_splits)
  let ?b = "take n (drop (br_position r) (bits_of (br_input r)))"
  have l: "length ?b = n" using a(2) by (simp add: sat_mul_def min_absorb2 le_diff_conv2)
  have "word_bits n v = ?b" using word_bits_of_bits[of ?b, where 'a = 128] a(1) l by (simp add: v)
  moreover have "take n (br_rest r) = ?b"
    using a(2) by (simp add: br_rest_def sat_mul_def drop_take min_absorb1 le_diff_conv2)
  then have "br_rest r = ?b @ br_rest (br_adv n r)" unfolding br.rest_adv by (metis append_take_drop_id)
  moreover have "unat v < 2 ^ n"
    unfolding fits_iff[symmetric] by (rule bit_word_eqI) (use l in \<open>auto simp: v bit_drop_bit_eq bit_of_bits\<close>)
  ultimately show ?thesis using a by (simp add: br_valid_def br_adv_def)
qed

lemma br_yields_read:
  assumes "n \<le> 128" and "unat v < 2 ^ n"
  shows "br.yields (bit_read n) (word_bits n v) v"
  unfolding br.yields_def
proof (intro allI impI)
  fix s assume "br.starts s (word_bits n v)"
  then obtain zs where s: "br_valid s" "br_rest s = word_bits n v @ zs" by (auto simp: br.starts_def)
  have "n \<le> length (br_rest s)" by (simp add: s(2))
  then have e: "br_position s + n \<le> sat_mul (length (br_input s)) 8"
    using s(1) by (auto simp: br_rest_def sat_mul_def br_valid_def)
  obtain w where r: "bit_read n s = (Inr w, br_adv n s)"
    using bit_read_eq[OF assms(1) e] by blast
  have "word_bits n w = word_bits n v" "unat w < 2 ^ n"
    using bit_read_Inr[OF r] s(2) by (simp_all add: append_eq_append_conv)
  then have "w = v" using word_bits_inj assms(2) by blast
  then show "bit_read n s = (Inr v, br_adv (length (word_bits n v)) s)" using r by simp
qed

definition kinds_of :: "(bit_value \<times> nat) list \<Rightarrow> (bit_kind \<times> nat) list" where
  "kinds_of fs = map (\<lambda>f. (kind_of (fst f), snd f)) fs"

definition kind_ok :: "bit_kind \<Rightarrow> bool" where
  "kind_ok k = (case k of KBool \<Rightarrow> True | KUnsigned n \<Rightarrow> n \<in> {8, 16, 32, 64, 128} | KSigned n \<Rightarrow> n \<in> {8, 16, 32, 64, 128})"

lemma br_yields_unpack:
  "\<forall>f\<in>set fs. field_ok f \<and> native_ok (fst f) \<Longrightarrow> br.yields (unpack (kinds_of fs)) (fields_bits fs) (map fst fs)"
proof (induction fs)
  case Nil
  show ?case by (simp add: kinds_of_def br.rd_yields_ret del: sop_simps)
next
  case (Cons f fs)
  obtain v where v: "encode_bits (fst f) (snd f) = Inr v" "snd f \<le> 128" "unat v < 2 ^ snd f"
    "decode_bits (kind_of (fst f)) v (snd f) = Inr (fst f)"
    using Cons.prems by (auto elim: field_ok_fits)
  have "br.yields (slift (\<lambda>_ :: bit_reader. decode_bits (kind_of (fst f)) v (snd f))) [] (fst f)"
    using v(4) by (simp add: br.yields_def br.adv_0)
  moreover have "br.yields (sbind (unpack (kinds_of fs)) (\<lambda>xs. sret (fst f # xs))) (fields_bits fs) (map fst (f # fs))"
    using Cons by (auto intro: br.rd_yields_map)
  ultimately have "br.yields (sbind (slift (\<lambda>_ :: bit_reader. decode_bits (kind_of (fst f)) v (snd f)))
      (\<lambda>x. sbind (unpack (kinds_of fs)) (\<lambda>xs. sret (x # xs)))) ([] @ fields_bits fs) (map fst (f # fs))"
    by (rule br.rd_yields_sbind)
  then show ?case
    using br.rd_yields_sbind[OF br_yields_read[OF v(2,3)]] field_bitsI[OF v(1)] by (simp add: kinds_of_def)
qed

lemma unpack_Inr:
  "unpack ks r = (Inr xs, r') \<Longrightarrow> br_valid r \<Longrightarrow> \<forall>k\<in>set ks. kind_ok (fst k) \<Longrightarrow>
   map kind_of xs = map fst ks \<and> (\<forall>f\<in>set (zip xs (map snd ks)). field_ok f \<and> native_ok (fst f)) \<and> br_valid r' \<and>
   br_rest r = fields_bits (zip xs (map snd ks)) @ br_rest r' \<and>
   br_position r' = br_position r + width_sum ks \<and> br_input r' = br_input r"
proof (induction ks arbitrary: r xs)
  case (Cons k ks)
  then obtain v r1 x ys where v: "bit_read (snd k) r = (Inr v, r1)" and x: "decode_bits (fst k) v (snd k) = Inr x"
    and ys: "unpack ks r1 = (Inr ys, r')" and xs: "xs = x # ys"
    by (auto simp: sbind_Inr)
  have r: "snd k \<le> 128" "r1 = br_adv (snd k) r" "br_valid r1" "br_rest r = word_bits (snd k) v @ br_rest r1" "unat v < 2 ^ snd k"
    using bit_read_Inr[OF v] by blast+
  have "kind_of x = fst k \<and> native_ok x \<and> encode_bits x (snd k) = Inr v"
    using decode_encode_field[OF x r(5,1)] Cons.prems(3) by (simp add: kind_ok_def)
  then show ?case using Cons.IH[OF ys r(3)] Cons.prems(3) xs r field_bitsI[of "(x, snd k)" v]
    by (auto simp: field_ok_def br_adv_def)
qed simp

section \<open>Whole values\<close>

lemma bytes_for_bits_bounds:
  assumes "n \<le> 8 * m" and "m \<le> usize_max div 8"
  shows "bytes_for_bits n \<le> m" and "n \<le> 8 * bytes_for_bits n" and "8 * bytes_for_bits n < n + 8"
proof -
  have "bytes_for_bits n = (n + 7) div 8" using assms by (simp add: bytes_for_bits_def sat_add_def)
  then show "bytes_for_bits n \<le> m" "n \<le> 8 * bytes_for_bits n" "8 * bytes_for_bits n < n + 8"
    using assms by simp_all
qed

lemma bytes_for_bits_max: "bytes_for_bits n \<le> usize_max div 8"
proof -
  have "sat_add n 7 \<le> usize_max" by (simp add: sat_add_def)
  then show ?thesis unfolding bytes_for_bits_def by (rule div_le_mono)
qed

lemma bits_of_take: "bits_of (take n bs) = take (8 * n) (bits_of bs)"
proof (induction bs arbitrary: n)
  case (Cons b bs)
  then show ?case by (cases n) simp_all
qed simp

lemma same_byte: "p mod 8 + i < 8 \<Longrightarrow> (p + i) div 8 = p div 8 \<and> (p + i) mod 8 = p mod 8 + i" for p i :: nat
proof -
  assume a: "p mod 8 + i < 8"
  have p: "p + i = (p mod 8 + i) + 8 * (p div 8)" by simp
  show ?thesis unfolding p using a by (simp only: div_mult_self2 mod_mult_self2) simp
qed

lemma byte_ends: "p mod 8 = 0 \<Longrightarrow> 8 * ((p + 7) div 8) = p" "p mod 8 \<noteq> 0 \<Longrightarrow> (p + 7) div 8 = Suc (p div 8)" for p :: nat
proof -
  have p: "p + 7 = (p mod 8 + 7) + 8 * (p div 8)" by simp
  { assume a: "p mod 8 = 0"
    have "(p + 7) div 8 = p div 8" unfolding p a by simp
    then show "8 * ((p + 7) div 8) = p" using a by simp }
  assume a: "p mod 8 \<noteq> 0"
  have "p mod 8 + 7 = (p mod 8 - 1) + 8 * 1" using a by simp
  moreover have "(p mod 8 - 1) div 8 = 0" by simp
  ultimately have "(p mod 8 + 7) div 8 = 1" by simp
  moreover have "(p mod 8 + 7 + 8 * (p div 8)) div 8 = p div 8 + (p mod 8 + 7) div 8"
    by (rule div_mult_self2) simp
  ultimately show "(p + 7) div 8 = Suc (p div 8)" unfolding p by (simp only: add_Suc_right One_nat_def add_0_right)
qed

text \<open>What a successful \<open>serialize\<close> has produced.\<close>

lemma bits_serialize_Inr:
  assumes "bits_serialize cfg max_bits fs = Inr bytes"
  shows "\<forall>f\<in>set fs. field_ok f" and "length bytes = bytes_for_bits (width_sum fs)"
    and "width_sum fs \<le> 8 * length bytes" and "length bytes \<le> usize_max div 8"
    and "bits_of bytes = fields_bits fs @ replicate (8 * length bytes - width_sum fs) False"
    and "within (c_limit cfg) (length bytes)"
proof -
  let ?n = "bytes_for_bits max_bits"
  obtain w where w: "pack fs (bit_writer_new (replicate ?n 0)) = (Inr (), w)"
    and b: "bytes = take (bytes_written w) (bw_output w)" and l: "within (c_limit cfg) (bytes_written w)"
    using assms by (auto simp: bits_serialize_def bits_serialize_into_def Let_def rbind_eq_Inr rmap_eq_Inr
      split: prod.splits sum.splits if_splits)
  have p: "\<forall>f\<in>set fs. field_ok f" "bw_ok w" "bw_bits w = fields_bits fs" "length (bw_output w) = ?n"
    "bw_position w = width_sum fs"
    using pack_Inr[OF w] by simp_all
  have s: "width_sum fs \<le> 8 * ?n" using p(2,4,5) by (simp add: bw_ok_def)
  note bb = bytes_for_bits_bounds[OF s bytes_for_bits_max]
  show "\<forall>f\<in>set fs. field_ok f" by (rule p(1))
  show len: "length bytes = bytes_for_bits (width_sum fs)"
    using bb(1) by (simp add: b bytes_written_def p(4,5))
  show "width_sum fs \<le> 8 * length bytes" "length bytes \<le> usize_max div 8"
    using bb(2) bytes_for_bits_max by (simp_all add: len)
  have "bits_of (bw_output w) = fields_bits fs @ replicate (8 * ?n - width_sum fs) False"
    using p(2-5) append_take_drop_id[of "width_sum fs" "bits_of (bw_output w)"] by (simp add: bw_ok_def bw_bits_def)
  then show "bits_of bytes = fields_bits fs @ replicate (8 * length bytes - width_sum fs) False"
    using bb by (simp add: b bits_of_take bytes_written_def p(4,5) len)
  show "within (c_limit cfg) (length bytes)" using l bb(1) by (simp add: len bytes_written_def p(5))
qed

lemma validate_end_iff:
  assumes "bits_of input = pre @ zs" and "br_input r = input" and "br_position r = length pre"
    and "length input \<le> usize_max div 8"
  shows "validate_end policy r = Inr u \<longleftrightarrow>
    take (8 * bytes_for_bits (length pre) - length pre) zs = replicate (8 * bytes_for_bits (length pre) - length pre) False \<and>
    (policy = Reject \<longrightarrow> length input = bytes_for_bits (length pre))"
proof -
  let ?p = "length pre" and ?u = "bytes_for_bits (length pre)"
  have s: "?p \<le> 8 * length input" using arg_cong[OF assms(1), of length] by simp
  note bb = bytes_for_bits_bounds[OF s assms(4)]
  have u: "?u = (?p + 7) div 8" using s assms(4) by (simp add: bytes_for_bits_def sat_add_def)
  let ?k = "8 * ?u - ?p"
  have len: "length (take ?k zs) = ?k" using arg_cong[OF assms(1), of length] bb(1) s by (simp; linarith)
  have pad: "?p mod 8 \<noteq> 0 \<and> ?u \<noteq> 0 \<and> drop_bit (?p mod 8) (input ! (?u - 1)) \<noteq> 0 \<longleftrightarrow> take ?k zs \<noteq> replicate ?k False"
  proof (cases "?p mod 8 = 0")
    case True
    then have "8 * ?u = ?p" unfolding u by (rule byte_ends(1))
    then show ?thesis using True by simp
  next
    case False
    then have d: "?u = Suc (?p div 8)" "?p = 8 * (?p div 8) + ?p mod 8"
      unfolding u by (simp_all only: byte_ends(2) mult_div_mod_eq not_False_eq_True)
    have z: "bit (drop_bit (?p mod 8) (input ! (?u - 1))) i = (i < ?k \<and> take ?k zs ! i)" for i
    proof (cases "i < ?k")
      case True
      then have "?p mod 8 + i < 8" using d by linarith
      then have "(?p + i) div 8 = ?u - 1" "(?p + i) mod 8 = ?p mod 8 + i"
        using same_byte[of ?p i] d(1) by simp_all
      moreover have "?p + i < 8 * length input" using True bb(1) by linarith
      ultimately have "bit (drop_bit (?p mod 8) (input ! (?u - 1))) i = bits_of input ! (?p + i)"
        by (simp add: nth_bits_of bit_drop_bit_eq)
      then show ?thesis using True by (simp add: assms(1))
    next
      case False
      then have "8 \<le> ?p mod 8 + i" using d by linarith
      then show ?thesis using False by (auto simp: bit_drop_bit_eq dest: bit_imp_le_length)
    qed
    have "drop_bit (?p mod 8) (input ! (?u - 1)) = 0 \<longleftrightarrow> (\<forall>i<?k. \<not> take ?k zs ! i)"
      unfolding word_zero_iff z by blast
    also have "\<dots> \<longleftrightarrow> take ?k zs = replicate ?k False"
      by (rule all_false_iff[OF len, symmetric])
    finally have "drop_bit (?p mod 8) (input ! (?u - 1)) = 0 \<longleftrightarrow> take ?k zs = replicate ?k False" .
    moreover have "?u \<noteq> 0" unfolding d(1) by (rule Suc_not_Zero)
    ultimately show ?thesis using False by blast
  qed
  show ?thesis using pad by (auto simp: validate_end_def Let_def assms(2,3))
qed

definition fields_native :: "(bit_value \<times> nat) list \<Rightarrow> bool" where
  "fields_native fs \<longleftrightarrow> (\<forall>f\<in>set fs. native_ok (fst f))"

lemma br_new: "br_valid (bit_reader_new input)" "length input \<le> usize_max div 8 \<Longrightarrow> br_rest (bit_reader_new input) = bits_of input"
  by (simp_all add: br_valid_def br_rest_def bit_reader_new_def)

lemma width_kinds [simp]: "width_sum (kinds_of fs) = width_sum fs"
  by (induction fs) (simp_all add: kinds_of_def)

lemma bits_decode_encoded:
  assumes s: "bits_serialize cfg max_bits fs = Inr bytes" and n: "fields_native fs"
  shows "bits_deserialize cfg (kinds_of fs) bytes = Inr (map fst fs)"
proof -
  note b = bits_serialize_Inr[OF s]
  let ?r = "bit_reader_new bytes" and ?r' = "br_adv (width_sum fs) (bit_reader_new bytes)"
  have "br.starts ?r (fields_bits fs)" using br_new[of bytes] b(4,5) by (simp add: br.starts_def)
  then have u: "unpack (kinds_of fs) ?r = (Inr (map fst fs), ?r')"
    using br_yields_unpack[of fs] b(1) n by (simp add: br.yields_def fields_native_def)
  have "validate_end (c_trailing cfg) ?r' = Inr ()"
    by (subst validate_end_iff[OF b(5) _ _ b(4)]) (use b(2) in \<open>simp_all add: br_adv_def bit_reader_new_def\<close>)
  then show ?thesis using u b(6) by (simp add: bits_deserialize_def check_limit_if)
qed

lemma kinds_of_zip:
  "map kind_of xs = map fst ks \<Longrightarrow> kinds_of (zip xs (map snd ks)) = ks \<and> map fst (zip xs (map snd ks)) = xs"
proof (induction xs arbitrary: ks)
  case (Cons x xs)
  then show ?case by (cases ks) (auto simp: kinds_of_def)
qed (simp add: kinds_of_def)

lemma bits_serialize_ok:
  assumes "fields_native fs" and "\<forall>f\<in>set fs. field_ok f" and "m = bytes_for_bits max_bits"
    and "width_sum fs \<le> 8 * m" and "within (c_limit cfg) m"
  shows "\<exists>bytes. bits_serialize cfg max_bits fs = Inr bytes"
proof -
  let ?w = "bit_writer_new (replicate m 0)"
  have m: "8 * m \<le> usize_max" using bytes_for_bits_max[of max_bits] assms(3) by simp
  then obtain w where w: "pack fs ?w = (Inr (), w)"
    using pack_ok[of ?w fs] assms(1,2,4) by (auto simp: fields_native_def sat_mul_def)
  have "length (bw_output w) = m" "bw_position w = width_sum fs" using pack_Inr[OF w] by simp_all
  then have "bytes_written w \<le> m"
    using assms(3,4) m by (simp add: bytes_written_def bytes_for_bits_bounds)
  then have "within (c_limit cfg) (bytes_written w)" using assms(5) within_mono by blast
  then show ?thesis using w assms(3,5)
    by (simp add: bits_serialize_def bits_serialize_into_def check_limit_if)
qed

lemma bits_encode_decoded:
  assumes d: "bits_deserialize cfg ks bytes = Inr xs" and t: "c_trailing cfg = Reject" and k: "\<forall>k\<in>set ks. kind_ok (fst k)"
    and fs: "fs = zip xs (map snd ks)"
  shows "kinds_of fs = ks \<and> map fst fs = xs \<and> fields_native fs \<and> bits_serialize cfg (width_sum ks) fs = Inr bytes"
proof -
  let ?r = "bit_reader_new bytes" and ?n = "length bytes"
  obtain r where u: "unpack ks ?r = (Inr xs, r)" and v: "validate_end Reject r = Inr ()" and l: "within (c_limit cfg) ?n"
    using d t by (auto simp: bits_deserialize_def rbind_eq_Inr rmap_eq_Inr split: prod.splits sum.splits)
  note a = unpack_Inr[OF u br_new(1) k, folded fs]
  have r: "br_input r = bytes" "br_position r = width_sum ks" using a by (simp_all add: bit_reader_new_def)
  have f: "kinds_of fs = ks" "map fst fs = xs" using kinds_of_zip[of xs ks] a fs by simp_all
  then have w: "width_sum fs = width_sum ks" by (metis width_kinds)
  have len: "?n = bytes_for_bits (width_sum ks)" using v by (auto simp: validate_end_def Let_def r split: if_splits)
  then have n: "?n \<le> usize_max div 8" using bytes_for_bits_max by simp
  have rest: "bits_of bytes = fields_bits fs @ br_rest r" using a br_new(2)[OF n] by simp
  have s: "width_sum fs \<le> 8 * ?n" using arg_cong[OF rest, of length] by simp
  have "br_rest r = replicate (8 * ?n - width_sum fs) False"
    using iffD1[OF validate_end_iff[OF rest r(1) _ n] v] arg_cong[OF rest, of length] r(2) w len by simp
  then have bits: "bits_of bytes = fields_bits fs @ replicate (8 * ?n - width_sum fs) False" using rest by simp
  have fn: "fields_native fs" "\<forall>f\<in>set fs. field_ok f" using a by (auto simp: fields_native_def)
  then obtain bytes' where b': "bits_serialize cfg (width_sum ks) fs = Inr bytes'"
    using bits_serialize_ok[OF fn len s l] by blast
  note b = bits_serialize_Inr[OF b']
  have "bits_of bytes' = bits_of bytes" using b(2,5) bits len w by simp
  then show ?thesis using bits_of_inj b' f fn(1) by blast
qed

text \<open>
  Bit packing is lossless under every configuration. If \<open>serialize\<close> accepts the fields of a value,
  \<open>deserialize\<close> of the bytes returns exactly those fields, whatever the widths, and whether the
  last byte is full or padded.
\<close>

theorem bits_roundtrip:
  assumes "bits_serialize cfg max_bits fs = Inr bytes" and "fields_native fs"
  shows "bits_deserialize cfg (kinds_of fs) bytes = Inr (map fst fs)"
  using assms by (rule bits_decode_encoded)

text \<open>
  C14: the packed form is canonical. Under the strict trailing policy, for a type whose worst case is
  the sum of its field widths, \<open>deserialize\<close> accepts exactly the one byte string that \<open>serialize\<close>
  writes for the value it returns: dirty padding, surplus bytes and out-of-range fields are all
  refused.
\<close>

theorem bits_canonical:
  assumes "c_trailing cfg = Reject" and "map kind_of xs = map fst ks" and "\<forall>k\<in>set ks. kind_ok (fst k)"
    and "\<forall>x\<in>set xs. native_ok x"
  shows "bits_deserialize cfg ks bytes = Inr xs \<longleftrightarrow>
         bits_serialize cfg (width_sum ks) (zip xs (map snd ks)) = Inr bytes"
proof
  let ?fs = "zip xs (map snd ks)"
  have n: "fields_native ?fs" using assms(4) by (auto simp: fields_native_def dest: set_zip_leftD)
  assume "bits_serialize cfg (width_sum ks) ?fs = Inr bytes"
  then show "bits_deserialize cfg ks bytes = Inr xs"
    using bits_decode_encoded[OF _ n, of cfg "width_sum ks" bytes] kinds_of_zip[OF assms(2)] by simp
qed (use bits_encode_decoded[OF _ assms(1,3) refl] in blast)

text \<open>
  C20: \<open>encode_bits\<close> accepts a field exactly when its value fits the declared width: one bit for a
  boolean, \<open>0 \<le> v < 2 ^ width\<close> for an unsigned and the two's complement range
  \<open>-2 ^ (width - 1) \<le> v < 2 ^ (width - 1)\<close> for a signed integer, with the width between one
  and the type's own.
\<close>

theorem encode_bits_range:
  assumes "native_ok x"
  shows "(\<exists>v. encode_bits x width = Inr v) \<longleftrightarrow>
    (case x of
       BBool b \<Rightarrow> width = 1
     | BUnsigned n v \<Rightarrow> 1 \<le> width \<and> width \<le> n \<and> unat v < 2 ^ width
     | BSigned n v \<Rightarrow> 1 \<le> width \<and> width \<le> n \<and> - (2 ^ (width - 1)) \<le> sint v \<and> sint v < 2 ^ (width - 1))"
proof (cases x)
  case (BUnsigned n v)
  then have "n \<le> 128" using assms by (auto simp: native_ok_def)
  then show ?thesis using BUnsigned fits_wide[of width v]
    by (cases "width < 128") (auto simp: exp_le_iff not_less Suc_le_eq)
next
  case (BSigned n v)
  then have "n \<le> 128" using assms by (auto simp: native_ok_def)
  then show ?thesis using BSigned by (auto simp: not_less Suc_le_eq)
qed simp

lemma sample_fields:
  "bits_serialize standard 4 [(BBool True, 1), (BSigned 8 (- 1), 3)] = Inr [15]"
  "fields_native [(BBool True, 1), (BSigned 8 (- 1), 3)]"
proof -
  show "bits_serialize standard 4 [(BBool True, 1), (BSigned 8 (- 1), 3)] = Inr [15]"
    by code_simp
  show "fields_native [(BBool True, 1), (BSigned 8 (- 1), 3)]"
    by (simp add: fields_native_def native_ok_def)
qed

theorem bits_roundtrip_witness:
  "bits_deserialize standard [(KBool, 1), (KSigned 8, 3)] [15] = Inr [BBool True, BSigned 8 (- 1)]"
  using bits_roundtrip[OF sample_fields] by (simp add: kinds_of_def)

theorem bits_canonical_witness:
  "bits_deserialize standard [(KBool, 1), (KSigned 8, 3)] [31] \<noteq> Inr [BBool True, BSigned 8 (- 1)]"
proof -
  have "bits_deserialize standard [(KBool, 1), (KSigned 8, 3)] [31] = Inr [BBool True, BSigned 8 (- 1)] \<longleftrightarrow>
    bits_serialize standard (width_sum [(KBool, 1), (KSigned 8, 3)])
      (zip [BBool True, BSigned 8 (- 1)] (map snd [(KBool, 1), (KSigned 8, 3)])) = Inr [31]"
    by (rule bits_canonical) (simp_all add: standard_def kind_ok_def native_ok_def)
  then show ?thesis using sample_fields(1) by simp
qed

theorem encode_bits_range_witness:
  "(\<exists>v. encode_bits (BSigned 8 (- 4)) 3 = Inr v) \<and> \<not> (\<exists>v. encode_bits (BSigned 8 4) 3 = Inr v)"
proof -
  have "native_ok (BSigned 8 (- 4))" "native_ok (BSigned 8 4)" by (simp_all add: native_ok_def)
  note r = this[THEN encode_bits_range, of 3]
  show ?thesis unfolding r by simp
qed

end
