(* ===== verification/Lz.thy ===== *)
theory Lz
  imports Bits Reader
begin

text \<open>
  \<^verbatim>\<open>src/lz.rs\<close>: the LZ77 compressor with its packed bit stream. The hash-chain tables are functions
  (\<open>head\<close> on the 65536 buckets, \<open>prev\<close> on the input positions), the two vectors of the code: every
  index the code uses is shown in range.
\<close>

section \<open>Constants and errors\<close>

definition WINDOW_SIZE :: nat where "WINDOW_SIZE = 32768"
definition MIN_MATCH :: nat where "MIN_MATCH = 3"
definition MAX_MATCH :: nat where "MAX_MATCH = 258"
definition HASH_BUCKETS :: nat where "HASH_BUCKETS = 65536"

lemmas lz_consts [simp] = WINDOW_SIZE_def MIN_MATCH_def MAX_MATCH_def HASH_BUCKETS_def

datatype lz_error = LzUnexpectedEnd | LzInvalidDistance | LzLengthMismatch

fun lz_display :: "lz_error \<Rightarrow> string" where
  "lz_display LzUnexpectedEnd = ''LZ77 stream ended unexpectedly''"
| "lz_display LzInvalidDistance = ''LZ77 match distance out of range''"
| "lz_display LzLengthMismatch = ''LZ77 decompressed length mismatch''"

section \<open>Bit writer\<close>

record lz_writer =
  lw_buffer :: "byte list"
  lw_bit_buffer :: u64
  lw_bit_count :: nat

definition lw_new :: lz_writer where
  "lw_new = \<lparr> lw_buffer = [], lw_bit_buffer = 0, lw_bit_count = 0 \<rparr>"

function lw_flush :: "lz_writer \<Rightarrow> lz_writer" where
  "lw_flush w = (if lw_bit_count w \<ge> 8
     then lw_flush (w\<lparr>lw_buffer := lw_buffer w @ [ucast (lw_bit_buffer w AND 0xff)],
       lw_bit_buffer := drop_bit 8 (lw_bit_buffer w), lw_bit_count := lw_bit_count w - 8\<rparr>)
     else w)"
  by pat_completeness auto
termination by (relation "measure lw_bit_count") auto

declare lw_flush.simps [simp del]

definition lw_ensure_capacity :: "nat \<Rightarrow> lz_writer \<Rightarrow> lz_writer" where
  "lw_ensure_capacity needed w = (if lw_bit_count w + needed > 64 then lw_flush w else w)"

definition lw_write_bit :: "bool \<Rightarrow> lz_writer \<Rightarrow> lz_writer" where
  "lw_write_bit v w0 =
    (let w = lw_ensure_capacity 1 w0;
         w' = w\<lparr>lw_bit_buffer := lw_bit_buffer w OR push_bit (lw_bit_count w) (of_bool v), lw_bit_count := lw_bit_count w + 1\<rparr>
     in if lw_bit_count w' = 64 then lw_flush w' else w')"

definition lw_write_bits :: "u32 \<Rightarrow> nat \<Rightarrow> lz_writer \<Rightarrow> lz_writer" where
  "lw_write_bits v count w0 =
    (let w = lw_ensure_capacity count w0;
         w' = w\<lparr>lw_bit_buffer := lw_bit_buffer w OR push_bit (lw_bit_count w) (ucast v), lw_bit_count := lw_bit_count w + count\<rparr>
     in if lw_bit_count w' \<ge> 64 then lw_flush w' else w')"

definition lw_write_u32 :: "u32 \<Rightarrow> lz_writer \<Rightarrow> lz_writer" where
  "lw_write_u32 v w =
    (if lw_bit_count w = 0 then w\<lparr>lw_buffer := lw_buffer w @ to_le_bytes v\<rparr>
     else fold (\<lambda>shift. lw_write_bits (drop_bit shift v AND 0xff) 8) [0, 8, 16, 24] w)"

definition lw_finish :: "lz_writer \<Rightarrow> byte list" where
  "lw_finish w0 =
    (let w = lw_flush w0 in
     if lw_bit_count w > 0 then lw_buffer w @ [ucast (lw_bit_buffer w AND 0xff)] else lw_buffer w)"

section \<open>Match search\<close>

type_synonym chain_table = "nat \<Rightarrow> u32"

definition hash3 :: "byte list \<Rightarrow> nat" where
  "hash3 bytes =
    (let p = 0x01000193 :: u64;
         h1 = (0x811c9dc5 XOR ucast (bytes ! 0)) * p;
         h2 = (h1 XOR ucast (bytes ! 1)) * p;
         h3 = (h2 XOR ucast (bytes ! 2)) * p
     in unat (drop_bit 16 h3 AND 0xffff))"

definition max_chain_of :: "int \<Rightarrow> nat" where
  "max_chain_of level = min (4 + nat (max 1 (min level 22)) * 4) 96"

text \<open>The inner comparison loop.\<close>

function match_len :: "byte list \<Rightarrow> nat \<Rightarrow> nat \<Rightarrow> nat \<Rightarrow> nat \<Rightarrow> nat" where
  "match_len input c pos remaining len =
    (if len < remaining \<and> input ! (c + len) = input ! (pos + len)
     then match_len input c pos remaining (len + 1) else len)"
  by pat_completeness auto
termination by (relation "measure (\<lambda>(_, _, _, remaining, len). remaining - len)") auto

declare match_len.simps [simp del]

text \<open>The walk along one hash chain; \<open>candidate = u32::MAX\<close> is the end of the chain.\<close>

function search ::
  "byte list \<Rightarrow> chain_table \<Rightarrow> nat \<Rightarrow> nat \<Rightarrow> nat \<Rightarrow> u32 \<Rightarrow> nat \<Rightarrow> nat \<times> nat \<Rightarrow> nat \<times> nat" where
  "search input prev pos max_len max_chain candidate chain best =
    (if candidate = -1 \<or> \<not> chain < max_chain then best
     else let c = unat candidate in
       if c < pos - WINDOW_SIZE then best
       else let dist = pos - c in
         if dist > WINDOW_SIZE then search input prev pos max_len max_chain (prev c) (chain + 1) best
         else if c + max_len \<le> length input then
           (let len = match_len input c pos (min max_len (length input - c)) 0 in
            if len > fst best then
              (if len = max_len then (len, dist)
               else search input prev pos max_len max_chain (prev c) (chain + 1) (len, dist))
            else search input prev pos max_len max_chain (prev c) (chain + 1) best)
         else search input prev pos max_len max_chain (prev c) (chain + 1) best)"
  by pat_completeness auto
termination by (relation "measure (\<lambda>(_, _, _, _, max_chain, _, chain, _). max_chain - chain)") auto

declare search.simps [simp del]

text \<open>\<open>pos\<close> enters its hash chain: \<open>prev[i] = head[h]; head[h] = i\<close>.\<close>

definition chain_insert :: "byte list \<Rightarrow> nat \<Rightarrow> chain_table \<times> chain_table \<Rightarrow> chain_table \<times> chain_table" where
  "chain_insert input i tables =
    (if i + MIN_MATCH \<le> length input then
       (let h = hash3 (drop i input); (head, prev) = tables in (head(h := of_nat i), prev(i := head h)))
     else tables)"

definition best_match :: "byte list \<Rightarrow> nat \<Rightarrow> chain_table \<times> chain_table \<Rightarrow> nat \<Rightarrow> nat \<times> nat" where
  "best_match input max_chain tables pos =
    (let max_len = min MAX_MATCH (length input - pos) in
     if max_len \<ge> MIN_MATCH
     then search input (snd tables) pos max_len max_chain (fst tables (hash3 (drop pos input))) 0 (0, 0)
     else (0, 0))"

section \<open>Compressor\<close>

function compress_loop ::
  "byte list \<Rightarrow> nat \<Rightarrow> nat \<Rightarrow> chain_table \<times> chain_table \<Rightarrow> lz_writer \<Rightarrow> lz_writer" where
  "compress_loop input max_chain pos tables w =
    (if pos < length input then
       (let (best_len, best_dist) = best_match input max_chain tables pos in
        if best_len \<ge> MIN_MATCH then
          (let w' = lw_write_bits (of_nat (best_dist - 1)) 15
                 (lw_write_bits (of_nat (best_len - MIN_MATCH)) 8 (lw_write_bit True w));
               end = min (pos + best_len) (length input)
           in compress_loop input max_chain end (fold (chain_insert input) [pos..<end] tables) w')
        else compress_loop input max_chain (pos + 1) (chain_insert input pos tables)
               (lw_write_bits (ucast (input ! pos)) 8 (lw_write_bit False w)))
     else w)"
  by pat_completeness auto
termination
  by (relation "measure (\<lambda>(input, _, pos, _). length input - pos)") auto

declare compress_loop.simps [simp del]

definition compress :: "byte list \<Rightarrow> int \<Rightarrow> byte list" where
  "compress input level =
    (if length input < MIN_MATCH then []
     else lw_finish (compress_loop input (max_chain_of level) 0 (\<lambda>_. -1, \<lambda>_. -1)
            (lw_write_u32 (of_nat (length input)) lw_new)))"

section \<open>Bit reader\<close>

record lz_reader =
  lr_bytes :: "byte list"
  lr_byte_pos :: nat
  lr_bit_pos :: nat

definition lr_new :: "byte list \<Rightarrow> lz_reader" where
  "lr_new bytes = \<lparr> lr_bytes = bytes, lr_byte_pos = 0, lr_bit_pos = 0 \<rparr>"

definition lr_read_bit :: "lz_reader \<Rightarrow> (bool \<times> lz_reader) option" where
  "lr_read_bit r =
    (if lr_byte_pos r < length (lr_bytes r) then
       Some (bit (lr_bytes r ! lr_byte_pos r) (lr_bit_pos r),
             if lr_bit_pos r + 1 = 8 then r\<lparr>lr_bit_pos := 0, lr_byte_pos := lr_byte_pos r + 1\<rparr>
             else r\<lparr>lr_bit_pos := lr_bit_pos r + 1\<rparr>)
     else None)"

text \<open>The loop \<open>for i in 0..count\<close>, from \<open>i\<close> on.\<close>

fun lr_bits_loop :: "nat \<Rightarrow> nat \<Rightarrow> u32 \<Rightarrow> lz_reader \<Rightarrow> (u32 \<times> lz_reader) option" where
  "lr_bits_loop 0 i v r = Some (v, r)"
| "lr_bits_loop (Suc n) i v r = (case lr_read_bit r of None \<Rightarrow> None
   | Some (b, r') \<Rightarrow> lr_bits_loop n (i + 1) (v OR push_bit i (of_bool b)) r')"

definition lr_read_bits :: "nat \<Rightarrow> lz_reader \<Rightarrow> (u32 \<times> lz_reader) option" where
  "lr_read_bits count r = lr_bits_loop count 0 0 r"

definition lr_read_u32 :: "lz_reader \<Rightarrow> (u32 \<times> lz_reader) option" where
  "lr_read_u32 r =
    Option.bind (lr_read_bits 8 r) (\<lambda>(a, r1). Option.bind (lr_read_bits 8 r1) (\<lambda>(b, r2).
    Option.bind (lr_read_bits 8 r2) (\<lambda>(c, r3). Option.bind (lr_read_bits 8 r3) (\<lambda>(d, r4).
    Some (a OR push_bit 8 b OR push_bit 16 c OR push_bit 24 d, r4)))))"

section \<open>Decompressor\<close>

text \<open>The copy loop reads bytes it has just written when the match overlaps itself.\<close>

fun copy_match :: "nat \<Rightarrow> nat \<Rightarrow> byte list \<Rightarrow> byte list" where
  "copy_match 0 distance output = output"
| "copy_match (Suc n) distance output = copy_match n distance (output @ [output ! (length output - distance)])"

definition decompress_step :: "lz_reader \<Rightarrow> byte list \<Rightarrow> lz_error + (byte list \<times> lz_reader)" where
  "decompress_step r output =
    rbind (ok_or LzUnexpectedEnd (lr_read_bit r)) (\<lambda>(is_match, r1).
      if is_match then
        rbind (ok_or LzUnexpectedEnd (lr_read_bits 8 r1)) (\<lambda>(l, r2).
        rbind (ok_or LzUnexpectedEnd (lr_read_bits 15 r2)) (\<lambda>(d, r3).
          let len = unat l + MIN_MATCH; distance = unat d + 1 in
          if distance > length output then Inl LzInvalidDistance
          else Inr (copy_match len distance output, r3)))
      else rbind (ok_or LzUnexpectedEnd (lr_read_bits 8 r1)) (\<lambda>(b, r2). Inr (output @ [ucast b], r2)))"

lemma length_copy_match [simp]: "length (copy_match n d out) = length out + n"
  by (induction n arbitrary: out) simp_all

lemma decompress_step_grows: "decompress_step r output = Inr (output', r') \<Longrightarrow> length output < length output'"
  by (auto simp: decompress_step_def rbind_eq_Inr Let_def split: if_splits prod.splits)

function decompress_loop :: "nat \<Rightarrow> lz_reader \<Rightarrow> byte list \<Rightarrow> lz_error + byte list" where
  "decompress_loop declared r output =
    (if length output < declared then
       (case decompress_step r output of
          Inl e \<Rightarrow> Inl e
        | Inr (output', r') \<Rightarrow> decompress_loop declared r' output')
     else Inr output)"
  by pat_completeness auto
termination
  by (relation "measure (\<lambda>(declared, _, output). declared - length output)") (auto dest: decompress_step_grows)

declare decompress_loop.simps [simp del]

definition decompress :: "byte list \<Rightarrow> nat \<Rightarrow> lz_error + byte list" where
  "decompress input expected =
    rbind (ok_or LzUnexpectedEnd (lr_read_u32 (lr_new input))) (\<lambda>(d, r).
      let declared = unat d in
      if declared > expected then Inl LzLengthMismatch
      else rbind (decompress_loop declared r []) (\<lambda>output.
        if length output \<noteq> declared then Inl LzLengthMismatch else Inr output))"

section \<open>The bits a writer holds\<close>

definition lw_bits :: "lz_writer \<Rightarrow> bool list" where
  "lw_bits w = bits_of (lw_buffer w) @ word_bits (lw_bit_count w) (lw_bit_buffer w)"

definition lw_ok :: "lz_writer \<Rightarrow> bool" where
  "lw_ok w \<longleftrightarrow> lw_bit_count w \<le> 64 \<and> unat (lw_bit_buffer w) < 2 ^ lw_bit_count w"

lemma bit_ff: "i < 8 \<Longrightarrow> bit (0xff :: u64) i"
proof -
  have "(0xff :: u64) = mask 8" by (simp add: mask_eq_exp_minus_1)
  moreover assume "i < 8"
  ultimately show ?thesis by (simp only: bit_mask_iff) simp
qed

lemma word_bits_low: "n \<le> 8 \<Longrightarrow> word_bits n (ucast ((w :: u64) AND 0xff) :: byte) = word_bits n w"
proof (rule nth_equalityI)
  fix i assume "n \<le> 8" "i < length (word_bits n (ucast (w AND 0xff) :: byte))"
  then have "i < n" "i < 8" "bit (0xff :: u64) i" using bit_ff[of i] by simp_all
  then show "word_bits n (ucast (w AND 0xff) :: byte) ! i = word_bits n w ! i"
    by (simp add: bit_and_iff bit_unsigned_iff)
qed simp

lemma unat_ucast_u32: "unat (ucast (v :: u32) :: u64) = unat v"
  using unsigned_less[of v, where ?'a = nat] by (simp add: unsigned_ucast_eq take_bit_nat_eq_self_iff)

lemma lw_flush_bits:
  "lw_ok w \<Longrightarrow> lw_bits (lw_flush w) = lw_bits w \<and> lw_ok (lw_flush w) \<and> lw_bit_count (lw_flush w) < 8"
proof (induction w rule: lw_flush.induct)
  case (1 w)
  show ?case
  proof (cases "lw_bit_count w \<ge> 8")
    case True
    let ?w = "w\<lparr>lw_buffer := lw_buffer w @ [ucast (lw_bit_buffer w AND 0xff)],
       lw_bit_buffer := drop_bit 8 (lw_bit_buffer w), lw_bit_count := lw_bit_count w - 8\<rparr>"
    obtain n where n: "lw_bit_count w = 8 + n" using True le_Suc_ex by blast
    have "unat (drop_bit 8 (lw_bit_buffer w)) < 2 ^ n"
      using 1(2) n by (simp only: fits_iff[symmetric] lw_ok_def drop_bit_drop_bit) (simp add: add.commute)
    then have "lw_ok ?w" using 1(2) n by (simp add: lw_ok_def)
    moreover have "lw_bits ?w = lw_bits w"
      by (simp add: lw_bits_def n word_bits_add[of 8 n] word_bits_low)
    moreover have "lw_flush w = lw_flush ?w" using True by (subst lw_flush.simps) simp
    ultimately show ?thesis using 1(1)[OF True] by simp
  next
    case False
    then show ?thesis using 1(2) by (subst (1 2 3) lw_flush.simps) simp
  qed
qed

lemma lw_ensure_bits:
  assumes "lw_ok w" and "n \<le> 32"
  shows "lw_bits (lw_ensure_capacity n w) = lw_bits w \<and> lw_ok (lw_ensure_capacity n w) \<and>
    lw_bit_count (lw_ensure_capacity n w) + n \<le> 64"
  using assms lw_flush_bits[of w] by (auto simp: lw_ensure_capacity_def)

lemma word_bits_or_push:
  assumes "unat (b :: u64) < 2 ^ c" and "unat v < 2 ^ n" and "c + n \<le> 64"
  shows "word_bits (c + n) (b OR push_bit c v) = word_bits c b @ word_bits n v"
    and "unat (b OR push_bit c v) < 2 ^ (c + n)"
proof -
  have d: "drop_bit c b = 0" "drop_bit n v = 0" using assms(1,2) by (simp_all add: fits_iff)
  have bd: "\<not> bit b (c + i)" "\<not> bit v (n + i)" for i
    using d[THEN arg_cong[of _ _ "\<lambda>w. bit w i"]] by (simp_all add: bit_drop_bit_eq)
  show "word_bits (c + n) (b OR push_bit c v) = word_bits c b @ word_bits n v"
  proof (rule nth_equalityI)
    fix i assume "i < length (word_bits (c + n) (b OR push_bit c v))"
    then have "i < c + n" by simp
    then show "word_bits (c + n) (b OR push_bit c v) ! i = (word_bits c b @ word_bits n v) ! i"
      using bd(1)[of "i - c"] assms(3) by (cases "i < c") (simp_all add: nth_append bit_or_iff bit_push_bit_iff)
  qed simp
  have "drop_bit (c + n) (b OR push_bit c v) = 0"
    using bd(1)[of "n + _"] bd(2) by (auto simp: word_zero_iff bit_drop_bit_eq bit_or_iff bit_push_bit_iff add.assoc)
  then show "unat (b OR push_bit c v) < 2 ^ (c + n)" by (rule iffD1[OF fits_iff])
qed

lemma lw_append_bits:
  assumes "lw_ok w" and "unat (v :: u64) < 2 ^ n" and "lw_bit_count w + n \<le> 64"
  defines "w' \<equiv> w\<lparr>lw_bit_buffer := lw_bit_buffer w OR push_bit (lw_bit_count w) v, lw_bit_count := lw_bit_count w + n\<rparr>"
  shows "lw_bits w' = lw_bits w @ word_bits n v" and "lw_ok w'"
  using word_bits_or_push[of "lw_bit_buffer w" "lw_bit_count w" v n] assms
  by (simp_all add: lw_bits_def lw_ok_def)

lemma lw_write_bits_bits:
  assumes "lw_ok w" and "unat v < 2 ^ n" and "n \<le> 32"
  shows "lw_bits (lw_write_bits v n w) = lw_bits w @ word_bits n v \<and> lw_ok (lw_write_bits v n w)"
proof -
  let ?w = "lw_ensure_capacity n w"
  let ?v = "ucast v :: u64"
  let ?w' = "?w\<lparr>lw_bit_buffer := lw_bit_buffer ?w OR push_bit (lw_bit_count ?w) ?v, lw_bit_count := lw_bit_count ?w + n\<rparr>"
  have v: "unat ?v < 2 ^ n" using assms(2) by (simp add: unat_ucast_u32)
  have vb: "word_bits n ?v = word_bits n v"
    using assms(3) by (auto intro!: nth_equalityI simp: bit_unsigned_iff)
  note e = lw_ensure_bits[OF assms(1,3)]
  have a: "lw_bits ?w' = lw_bits w @ word_bits n v" "lw_ok ?w'"
    using lw_append_bits[of ?w ?v n] e v vb by simp_all
  have "lw_write_bits v n w = ?w' \<or> lw_write_bits v n w = lw_flush ?w'"
    by (simp add: lw_write_bits_def Let_def)
  then show ?thesis using a lw_flush_bits[of ?w'] by metis
qed

lemma lw_write_bit_bits:
  assumes "lw_ok w"
  shows "lw_bits (lw_write_bit b w) = lw_bits w @ [b] \<and> lw_ok (lw_write_bit b w)"
proof -
  let ?w = "lw_ensure_capacity 1 w"
  let ?w' = "?w\<lparr>lw_bit_buffer := lw_bit_buffer ?w OR push_bit (lw_bit_count ?w) (of_bool b), lw_bit_count := lw_bit_count ?w + 1\<rparr>"
  have b: "unat (of_bool b :: u64) < 2 ^ 1" "word_bits 1 (of_bool b :: u64) = [b]"
    by (simp_all add: word_bits_def bit_0 del: bit_0_eq)
  note e = lw_ensure_bits[OF assms, of 1]
  have a: "lw_bits ?w' = lw_bits w @ [b]" "lw_ok ?w'"
    using lw_append_bits[of ?w "of_bool b" 1] e b by simp_all
  have "lw_write_bit b w = ?w' \<or> lw_write_bit b w = lw_flush ?w'"
    by (simp add: lw_write_bit_def Let_def)
  then show ?thesis using a lw_flush_bits[of ?w'] by metis
qed

lemma lw_new_u32: "lw_ok (lw_write_u32 v lw_new) \<and> lw_bits (lw_write_u32 v lw_new) = bits_of (to_le_bytes v)"
  by (simp add: lw_write_u32_def lw_new_def lw_ok_def lw_bits_def)

lemma lw_finish_bits:
  assumes "lw_ok w"
  obtains pad where "bits_of (lw_finish w) = lw_bits w @ replicate pad False" and "pad < 8"
proof -
  let ?w = "lw_flush w"
  note f = lw_flush_bits[OF assms]
  let ?n = "lw_bit_count ?w"
  show ?thesis
  proof (cases "?n = 0")
    case True
    then show ?thesis using f by (intro that[of 0]) (simp_all add: lw_finish_def lw_bits_def[of ?w])
  next
    case False
    have "drop_bit ?n (lw_bit_buffer ?w) = 0" using f by (simp add: lw_ok_def fits_iff)
    then have "word_bits (8 - ?n) (drop_bit ?n (lw_bit_buffer ?w)) = replicate (8 - ?n) False"
      by (auto intro!: nth_equalityI)
    then have "word_bits 8 (lw_bit_buffer ?w) = word_bits ?n (lw_bit_buffer ?w) @ replicate (8 - ?n) False"
      using word_bits_add[of ?n "8 - ?n" "lw_bit_buffer ?w"] f by simp
    then have "bits_of (lw_finish w) = lw_bits w @ replicate (8 - ?n) False"
      using f False by (simp add: lw_finish_def Let_def lw_bits_def[of ?w] word_bits_low)
    then show ?thesis using that False f by simp
  qed
qed

lemma of_bits_Cons: "of_bits (b # bs) = (of_bool b OR push_bit 1 (of_bits bs) :: 'a::len word)"
proof (rule bit_word_eqI)
  fix i
  show "bit (of_bits (b # bs) :: 'a word) i = bit (of_bool b OR push_bit 1 (of_bits bs) :: 'a word) i"
    unfolding bit_of_bits bit_or_iff bit_push_bit_iff bit_of_bool_iff
    by (cases i) (auto simp: bit_of_bits dest: bit_imp_le_length)
qed

section \<open>The bits a reader has left\<close>

definition lr_pos :: "lz_reader \<Rightarrow> nat" where
  "lr_pos r = 8 * lr_byte_pos r + lr_bit_pos r"

definition lr_rest :: "lz_reader \<Rightarrow> bool list" where
  "lr_rest r = drop (lr_pos r) (bits_of (lr_bytes r))"

definition lr_adv :: "nat \<Rightarrow> lz_reader \<Rightarrow> lz_reader" where
  "lr_adv n r = (if n = 0 then r
     else r\<lparr>lr_byte_pos := (lr_pos r + n) div 8, lr_bit_pos := (lr_pos r + n) mod 8\<rparr>)"

definition lr_valid :: "lz_reader \<Rightarrow> bool" where
  "lr_valid r \<longleftrightarrow> lr_bit_pos r < 8"

lemma lr_pos_adv [simp]: "lr_pos (lr_adv n r) = lr_pos r + n" "lr_bytes (lr_adv n r) = lr_bytes r"
  by (simp_all add: lr_adv_def lr_pos_def)

interpretation lr: reader lr_rest lr_adv lr_valid
proof unfold_locales
  fix n m s
  show "lr_rest (lr_adv n s) = drop n (lr_rest s)" by (simp add: lr_rest_def add.commute)
  show "lr_adv 0 s = s" by (simp add: lr_adv_def)
  show "lr_adv m (lr_adv n s) = lr_adv (n + m) s"
    using lr_pos_adv(1)[of n s] by (auto simp: lr_adv_def[of m] lr_adv_def[of "n + m"] add.assoc) (simp_all add: lr_adv_def)
  fix bs zs
  assume "lr_valid s"
  then show "lr_valid (lr_adv (length bs) s)" by (simp add: lr_valid_def lr_adv_def)
qed

lemma lr_read_bit_eq:
  assumes "lr_valid r"
  shows "lr_read_bit r = (case lr_rest r of [] \<Rightarrow> None | b # zs \<Rightarrow> Some (b, lr_adv 1 r))"
proof (cases "lr_byte_pos r < length (lr_bytes r)")
  case True
  have b: "lr_bit_pos r < 8" using assms by (simp add: lr_valid_def)
  then have p: "lr_pos r < 8 * length (lr_bytes r)" "lr_pos r div 8 = lr_byte_pos r" "lr_pos r mod 8 = lr_bit_pos r"
    using True by (simp_all add: lr_pos_def)
  then have "lr_rest r = bits_of (lr_bytes r) ! lr_pos r # drop (Suc (lr_pos r)) (bits_of (lr_bytes r))"
    by (simp add: lr_rest_def Cons_nth_drop_Suc)
  moreover have "bits_of (lr_bytes r) ! lr_pos r = bit (lr_bytes r ! lr_byte_pos r) (lr_bit_pos r)"
    using p by (simp add: nth_bits_of)
  moreover have "(if lr_bit_pos r + 1 = 8 then r\<lparr>lr_bit_pos := 0, lr_byte_pos := lr_byte_pos r + 1\<rparr>
             else r\<lparr>lr_bit_pos := lr_bit_pos r + 1\<rparr>) = lr_adv 1 r"
    using b by (cases r) (auto simp: lr_adv_def lr_pos_def)
  ultimately show ?thesis using True by (simp add: lr_read_bit_def)
next
  case False
  then have "lr_rest r = []" by (simp add: lr_rest_def lr_pos_def)
  then show ?thesis using False by (simp add: lr_read_bit_def)
qed

lemma lr_bits_loop_eq:
  "lr_valid r \<Longrightarrow> i + n \<le> 32 \<Longrightarrow> lr_bits_loop n i v r =
    (if n \<le> length (lr_rest r) then Some (v OR push_bit i (of_bits (take n (lr_rest r))), lr_adv n r) else None)"
proof (induction n arbitrary: i v r)
  case 0
  then show ?case by (simp add: lr.adv_0)
next
  case (Suc n)
  show ?case
  proof (cases "lr_rest r")
    case Nil
    then show ?thesis using Suc.prems by (simp add: lr_read_bit_eq)
  next
    case (Cons b zs)
    let ?r = "lr_adv 1 r"
    have r: "lr_valid ?r" "lr_rest ?r = zs" using lr.adv_valid[of r "[b]"] Suc.prems Cons by (simp_all add: lr.rest_adv)
    have "v OR push_bit i (of_bits (b # take n zs)) = v OR push_bit i (of_bool b) OR push_bit (i + 1) (of_bits (take n zs) :: u32)"
      by (simp only: of_bits_Cons push_bit_or push_bit_push_bit or.assoc)
    then show ?thesis using Suc.IH[OF r(1), of "i + 1"] Suc.prems Cons r
      by (simp add: lr_read_bit_eq lr.adv_adv or.assoc)
  qed
qed

lemma lr_read_bits_eq:
  "lr_valid r \<Longrightarrow> n \<le> 32 \<Longrightarrow> lr_read_bits n r =
    (if n \<le> length (lr_rest r) then Some (of_bits (take n (lr_rest r)), lr_adv n r) else None)"
  by (simp add: lr_read_bits_def lr_bits_loop_eq)

lemma lr_read_starts:
  assumes "lr.starts r (word_bits n w)" and "unat (w :: 'a::len word) < 2 ^ n" and "n \<le> 32" and "LENGTH('a) \<le> 32"
  shows "lr_read_bits n r = Some (ucast w, lr_adv n r)"
  using assms of_bits_word_bits_wide[where 'b = 32, of w n]
  by (auto simp: lr.starts_def lr_read_bits_eq)

lemma lr_new_simps [simp]: "lr_valid (lr_new bs)" "lr_rest (lr_new bs) = bits_of bs"
  by (simp_all add: lr_new_def lr_valid_def lr_rest_def lr_pos_def)

section \<open>Tokens\<close>

text \<open>The contract of the stream: a list of literals and back references, and the bytes it stands for.\<close>

datatype lz_token = Lit byte | Mat nat nat

fun token_ok :: "lz_token \<Rightarrow> bool" where
  "token_ok (Lit b) = True"
| "token_ok (Mat len dist) = (3 \<le> len \<and> len \<le> 258 \<and> 1 \<le> dist \<and> dist \<le> 32768)"

fun token_bits :: "lz_token \<Rightarrow> bool list" where
  "token_bits (Lit b) = False # word_bits 8 b"
| "token_bits (Mat len dist) = True # word_bits 8 (of_nat (len - 3) :: u32) @ word_bits 15 (of_nat (dist - 1) :: u32)"

fun apply_token :: "byte list \<Rightarrow> lz_token \<Rightarrow> byte list option" where
  "apply_token out (Lit b) = Some (out @ [b])"
| "apply_token out (Mat len dist) = (if dist > length out then None else Some (copy_match len dist out))"

primrec expand :: "lz_token list \<Rightarrow> byte list \<Rightarrow> byte list option" where
  "expand [] out = Some out"
| "expand (t # ts) out = Option.bind (apply_token out t) (expand ts)"

abbreviation tokens_bits :: "lz_token list \<Rightarrow> bool list" where
  "tokens_bits ts \<equiv> concat (map token_bits ts)"

lemma unat_small: "n < 2 ^ 32 \<Longrightarrow> unat (of_nat n :: u32) = n"
  by (simp add: unat_of_nat take_bit_nat_eq_self_iff)

lemma byte_through_u32: "ucast (ucast (b :: byte) :: u32) = b"
  by (rule bit_word_eqI) (auto simp: bit_unsigned_iff)

lemma expand_grows: "expand ts out = Some out' \<Longrightarrow> length out \<le> length out'"
proof (induction ts arbitrary: out)
  case (Cons t ts)
  then show ?case by (cases t) (fastforce simp: bind_eq_Some_conv split: if_splits)+
qed simp

lemma decompress_step_token:
  assumes "lr.starts r (token_bits t)" and "token_ok t"
  shows "decompress_step r out = (case apply_token out t of
    None \<Rightarrow> Inl LzInvalidDistance | Some out' \<Rightarrow> Inr (out', lr_adv (length (token_bits t)) r))"
proof (cases t)
  case (Lit b)
  let ?r = "lr_adv 1 r"
  have s: "lr_valid r" "lr.starts r [False]" "lr.starts ?r (word_bits 8 b)"
    using assms(1) Lit lr.rd_starts_append[of r "[False]" "word_bits 8 b"] by (auto simp: lr.starts_def)
  have "lr_read_bit r = Some (False, ?r)" using s by (auto simp: lr_read_bit_eq lr.starts_def)
  moreover have "lr_read_bits 8 ?r = Some (ucast b, lr_adv 8 ?r)"
    using lr_read_starts[OF s(3)] by simp
  ultimately show ?thesis using Lit by (simp add: decompress_step_def lr.adv_adv byte_through_u32)
next
  case (Mat len dist)
  let ?r = "lr_adv 1 r" let ?l = "word_bits 8 (of_nat (len - 3) :: u32)" let ?d = "word_bits 15 (of_nat (dist - 1) :: u32)"
  have ok: "3 \<le> len" "len \<le> 258" "1 \<le> dist" "dist \<le> 32768" using assms(2) Mat by simp_all
  have u: "unat (of_nat (len - 3) :: u32) = len - 3" "unat (of_nat (dist - 1) :: u32) = dist - 1"
    by (rule unat_small, use ok in simp)+
  have "lr.starts r ([True] @ ?l @ ?d)" using assms(1) Mat by simp
  then have s: "lr.starts r [True]" "lr.starts ?r ?l" "lr.starts (lr_adv 8 ?r) ?d"
    unfolding lr.rd_starts_append by simp_all
  have "lr_read_bit r = Some (True, ?r)" using s(1) by (auto simp: lr_read_bit_eq lr.starts_def)
  moreover have "lr_read_bits 8 ?r = Some (of_nat (len - 3), lr_adv 8 ?r)"
    using lr_read_starts[OF s(2)] u ok by simp
  moreover have "lr_read_bits 15 (lr_adv 8 ?r) = Some (of_nat (dist - 1), lr_adv 15 (lr_adv 8 ?r))"
    using lr_read_starts[OF s(3)] u ok by simp
  ultimately show ?thesis using Mat ok u
    by (simp add: decompress_step_def lr.adv_adv del: of_nat_diff)
qed

lemma decompress_loop_tokens:
  "lr.starts r (tokens_bits ts) \<Longrightarrow> \<forall>t\<in>set ts. token_ok t \<Longrightarrow> expand ts out = Some out' \<Longrightarrow>
   decompress_loop (length out') r out = Inr out'"
proof (induction ts arbitrary: r out)
  case Nil
  then show ?case by (simp add: decompress_loop.simps)
next
  case (Cons t ts)
  then obtain o1 where o1: "apply_token out t = Some o1" "expand ts o1 = Some out'"
    by (auto simp: bind_eq_Some_conv)
  let ?r = "lr_adv (length (token_bits t)) r"
  have s: "lr.starts r (token_bits t)" "lr.starts ?r (tokens_bits ts)"
    using Cons.prems(1) lr.rd_starts_append by simp_all
  have step: "decompress_step r out = Inr (o1, ?r)" using decompress_step_token[OF s(1)] Cons.prems(2) o1 by simp
  then have "length out < length out'" using decompress_step_grows[OF step] expand_grows[OF o1(2)] by simp
  then show ?case using Cons.IH[OF s(2)] Cons.prems(2) step o1 by (subst decompress_loop.simps) simp
qed

text \<open>A match found by comparing input bytes reproduces them when copied from the output.\<close>

lemma copy_match_input:
  assumes "1 \<le> d" "d \<le> p" and "p + n \<le> length input" and "\<forall>k<n. input ! (p - d + k) = input ! (p + k)"
  shows "copy_match n d (take p input) = take (p + n) input"
  using assms
proof (induction n arbitrary: p)
  case (Suc n)
  have "take p input ! (p - d) = input ! p" using Suc.prems spec[of _ 0] by (auto dest: spec[of _ 0])
  then have "take p input @ [take p input ! (length (take p input) - d)] = take (Suc p) input"
    using Suc.prems by (simp add: take_Suc_conv_app_nth min_absorb2)
  moreover have "\<forall>k<n. input ! (Suc p - d + k) = input ! (Suc p + k)"
  proof (intro allI impI)
    fix k assume "k < n"
    then have "input ! (p - d + Suc k) = input ! (p + Suc k)" using Suc.prems(4) by blast
    moreover have "p - d + Suc k = Suc p - d + k" "p + Suc k = Suc p + k" using Suc.prems(2) by simp_all
    ultimately show "input ! (Suc p - d + k) = input ! (Suc p + k)" by (simp only:)
  qed
  ultimately show ?case using Suc.IH[of "Suc p"] Suc.prems by simp
qed simp

section \<open>Search\<close>

text \<open>Every candidate in the tables lies before \<open>pos\<close>, and every bucket index is in range.\<close>

definition before :: "nat \<Rightarrow> u32 \<Rightarrow> bool" where
  "before pos c \<longleftrightarrow> c = -1 \<or> unat c < pos"

definition tables_ok :: "nat \<Rightarrow> chain_table \<times> chain_table \<Rightarrow> bool" where
  "tables_ok pos tables \<longleftrightarrow> (\<forall>i. before pos (fst tables i) \<and> before pos (snd tables i))"

lemma hash3_bound: "hash3 bytes < HASH_BUCKETS"
proof -
  have "unat (w AND 0xffff) \<le> 65535" for w :: u64
    using word_and_le1[of w "0xffff"] by (simp add: word_le_nat_alt)
  then have "unat (w AND 0xffff) < 65536" for w :: u64 by (rule le_less_trans) simp
  then show ?thesis unfolding hash3_def Let_def HASH_BUCKETS_def .
qed

lemma before_mono: "before pos c \<Longrightarrow> pos \<le> pos' \<Longrightarrow> before pos' c"
  by (auto simp: before_def)

lemma tables_ok_insert: "tables_ok pos tables \<Longrightarrow> tables_ok (Suc pos) (chain_insert input pos tables)"
  using take_bit_nat_less_eq_self[of 32 pos]
  by (auto simp: tables_ok_def chain_insert_def Let_def before_def unat_of_nat unsigned_of_nat less_Suc_eq_le
      split: prod.splits intro: less_imp_le)

lemma tables_ok_inserts: "tables_ok pos tables \<Longrightarrow> tables_ok (pos + n) (fold (chain_insert input) [pos..<pos + n] tables)"
  by (induction n) (simp_all add: tables_ok_insert)

lemma match_len_prefix:
  "\<forall>k<len. input ! (c + k) = input ! (pos + k) \<Longrightarrow> len \<le> remaining \<Longrightarrow>
   (let m = match_len input c pos remaining len in m \<le> remaining \<and> (\<forall>k<m. input ! (c + k) = input ! (pos + k)))"
proof (induction input c pos remaining len rule: match_len.induct)
  case (1 input c pos remaining len)
  show ?case
  proof (cases "len < remaining \<and> input ! (c + len) = input ! (pos + len)")
    case True
    then show ?thesis using 1 by (subst match_len.simps) (simp add: less_Suc_eq)
  next
    case False
    then show ?thesis using 1(2,3) by (subst match_len.simps) (auto simp: Let_def)
  qed
qed

definition good_match :: "byte list \<Rightarrow> nat \<Rightarrow> nat \<Rightarrow> nat \<times> nat \<Rightarrow> bool" where
  "good_match input pos max_len best \<longleftrightarrow> fst best = 0 \<or>
     (fst best \<le> max_len \<and> 1 \<le> snd best \<and> snd best \<le> pos \<and> snd best \<le> 32768 \<and>
      (\<forall>k<fst best. input ! (pos - snd best + k) = input ! (pos + k)))"

lemma search_good:
  assumes "\<forall>i. before pos (prev i)"
  shows "before pos candidate \<Longrightarrow> good_match input pos max_len best \<Longrightarrow>
    good_match input pos max_len (search input prev pos max_len max_chain candidate chain best)"
  using assms
proof (induction input prev pos max_len max_chain candidate chain best rule: search.induct)
  case (1 input prev pos max_len max_chain candidate chain best)
  let ?c = "unat candidate" let ?len = "match_len input ?c pos (min max_len (length input - ?c)) 0"
  show ?case
  proof (cases "candidate = -1 \<or> \<not> chain < max_chain")
    case True
    then show ?thesis using "1.prems" by (subst search.simps) simp
  next
    case False
    then have c: "?c < pos" using "1.prems"(1) by (auto simp: before_def)
    have m: "?len \<le> max_len" "\<forall>k<?len. input ! (?c + k) = input ! (pos + k)"
      using match_len_prefix[of 0 input ?c pos "min max_len (length input - ?c)"] by (simp_all add: Let_def)
    have "pos - (pos - ?c) = ?c" using c by simp
    then have g: "pos - ?c \<le> 32768 \<Longrightarrow> good_match input pos max_len (?len, pos - ?c)"
      using m c by (auto simp add: good_match_def)
    have g2: "pos - ?c \<le> 32768 \<Longrightarrow> ?c + max_len \<le> length input \<Longrightarrow>
        good_match input pos max_len (match_len input ?c pos max_len 0, pos - ?c)"
      using g by (simp add: min_absorb1 le_diff_conv2)
    show ?thesis
      using False "1.IH" "1.prems"(2,3) "1.prems"(3)[rule_format, of ?c] g2
      by (subst search.simps) (auto simp: Let_def not_less)
  qed
qed

section \<open>The compressor writes tokens\<close>

lemma best_match_good:
  assumes "tables_ok pos tables" and "best_match input max_chain tables pos = (l, d)" and "3 \<le> l"
  shows "token_ok (Mat l d) \<and> pos + l \<le> length input \<and> apply_token (take pos input) (Mat l d) = Some (take (pos + l) input)"
proof -
  let ?m = "min MAX_MATCH (length input - pos)"
  have "good_match input pos ?m (best_match input max_chain tables pos)"
  proof (cases "MIN_MATCH \<le> ?m")
    case True
    have "good_match input pos ?m (search input (snd tables) pos ?m max_chain (fst tables (hash3 (drop pos input))) 0 (0, 0))"
      using assms(1) by (intro search_good) (simp_all add: tables_ok_def good_match_def)
    then show ?thesis using True unfolding best_match_def Let_def by (simp only: if_True)
  qed (simp add: best_match_def good_match_def Let_def)
  then have g: "l \<le> ?m" "1 \<le> d" "d \<le> pos" "d \<le> 32768" "\<forall>k<l. input ! (pos - d + k) = input ! (pos + k)"
    using assms(2,3) by (auto simp: good_match_def)
  from g(1) have "l \<le> length input - pos" by simp
  then have "pos + l \<le> length input" using assms(3) by linarith
  then show ?thesis using g assms(3) copy_match_input[OF g(2,3) _ g(5)] by simp
qed

lemma lw_token_bits:
  assumes "lw_ok w"
  shows "lw_bits (lw_write_bits (ucast b) 8 (lw_write_bit False w)) = lw_bits w @ token_bits (Lit b) \<and>
         lw_ok (lw_write_bits (ucast b) 8 (lw_write_bit False w))"
    and "token_ok (Mat l d) \<Longrightarrow>
      lw_bits (lw_write_bits (of_nat (d - 1)) 15 (lw_write_bits (of_nat (l - 3)) 8 (lw_write_bit True w))) =
        lw_bits w @ token_bits (Mat l d) \<and>
      lw_ok (lw_write_bits (of_nat (d - 1)) 15 (lw_write_bits (of_nat (l - 3)) 8 (lw_write_bit True w)))"
proof -
  note w = lw_write_bit_bits[OF assms]
  have "unat (ucast b :: u32) = unat b" by (simp add: unsigned_ucast_eq take_bit_nat_eq_self_iff)
      (use unat_byte_less[of b] in linarith)
  then have "unat (ucast b :: u32) < 2 ^ 8" using unat_byte_less[of b] by simp
  moreover have "word_bits 8 (ucast b :: u32) = word_bits 8 b" by (rule nth_equalityI) (auto simp: bit_unsigned_iff)
  ultimately show "lw_bits (lw_write_bits (ucast b) 8 (lw_write_bit False w)) = lw_bits w @ token_bits (Lit b) \<and>
         lw_ok (lw_write_bits (ucast b) 8 (lw_write_bit False w))"
    using lw_write_bits_bits[of "lw_write_bit False w" "ucast b" 8] w by simp
  assume "token_ok (Mat l d)"
  then have ok: "3 \<le> l" "l \<le> 258" "1 \<le> d" "d \<le> 32768" by simp_all
  have "unat (of_nat (l - 3) :: u32) = l - 3" "unat (of_nat (d - 1) :: u32) = d - 1"
    by (rule unat_small, use ok in simp)+
  then have u: "unat (of_nat (l - 3) :: u32) < 2 ^ 8" "unat (of_nat (d - 1) :: u32) < 2 ^ 15"
    using ok by (simp_all del: of_nat_diff)
  let ?w1 = "lw_write_bit True w" let ?w2 = "lw_write_bits (of_nat (l - 3)) 8 ?w1"
  have "lw_bits ?w2 = lw_bits w @ True # word_bits 8 (of_nat (l - 3) :: u32) \<and> lw_ok ?w2"
    using lw_write_bits_bits[OF _ u(1), of ?w1] w by (simp del: of_nat_diff)
  then show "lw_bits (lw_write_bits (of_nat (d - 1)) 15 ?w2) = lw_bits w @ token_bits (Mat l d) \<and>
      lw_ok (lw_write_bits (of_nat (d - 1)) 15 ?w2)"
    using lw_write_bits_bits[OF _ u(2), of ?w2] by (simp del: of_nat_diff)
qed

definition writes_tokens :: "lz_writer \<Rightarrow> lz_token list \<Rightarrow> lz_writer \<Rightarrow> bool" where
  "writes_tokens w ts w' \<longleftrightarrow> lw_ok w' \<and> lw_bits w' = lw_bits w @ tokens_bits ts"

lemma compress_loop_tokens:
  "tables_ok pos tables \<Longrightarrow> lw_ok w \<Longrightarrow> pos \<le> length input \<Longrightarrow>
   \<exists>ts. writes_tokens w ts (compress_loop input max_chain pos tables w) \<and>
        (\<forall>t\<in>set ts. token_ok t) \<and> expand ts (take pos input) = Some input"
proof (induction input max_chain pos tables w rule: compress_loop.induct)
  case (1 input max_chain pos tables w)
  show ?case
  proof (cases "pos < length input")
    case False
    then show ?thesis using "1.prems" by (intro exI[of _ "[]"]) (simp add: compress_loop.simps writes_tokens_def)
  next
    case True
    obtain l d where ld: "best_match input max_chain tables pos = (l, d)" by fastforce
    show ?thesis
    proof (cases "3 \<le> l")
      case l: True
      let ?w = "lw_write_bits (of_nat (d - 1)) 15 (lw_write_bits (of_nat (l - 3)) 8 (lw_write_bit True w))"
      let ?tables = "fold (chain_insert input) [pos..<pos + l] tables"
      note g = best_match_good[OF "1.prems"(1) ld l]
      then have e: "min (pos + l) (length input) = pos + l" by simp
      note b = lw_token_bits(2)[OF "1.prems"(2), of l d]
      have t: "tables_ok (pos + l) ?tables" by (rule tables_ok_inserts[OF "1.prems"(1)])
      have "\<exists>ts. writes_tokens ?w ts (compress_loop input max_chain (pos + l) ?tables ?w) \<and>
        (\<forall>t\<in>set ts. token_ok t) \<and> expand ts (take (pos + l) input) = Some input"
        using "1.IH"(1)[OF True ld[symmetric] refl] g b t l e by simp
      then obtain ts where ts: "writes_tokens ?w ts (compress_loop input max_chain (pos + l) ?tables ?w)"
        "\<forall>t\<in>set ts. token_ok t" "expand ts (take (pos + l) input) = Some input" by blast
      have "compress_loop input max_chain pos tables w = compress_loop input max_chain (pos + l) ?tables ?w"
        using True l e ld by (subst compress_loop.simps) (simp add: Let_def)
      then show ?thesis using ts g b
        by (intro exI[of _ "Mat l d # ts"]) (simp add: writes_tokens_def del: apply_token.simps token_bits.simps token_ok.simps)
    next
      case l: False
      let ?w = "lw_write_bits (ucast (input ! pos)) 8 (lw_write_bit False w)"
      note b = lw_token_bits(1)[OF "1.prems"(2), of "input ! pos"]
      have "\<exists>ts. writes_tokens ?w ts (compress_loop input max_chain (pos + 1) (chain_insert input pos tables) ?w) \<and>
        (\<forall>t\<in>set ts. token_ok t) \<and> expand ts (take (pos + 1) input) = Some input"
        using "1.IH"(2)[OF True ld[symmetric] refl] l b True tables_ok_insert[OF "1.prems"(1)] by simp
      then obtain ts where ts: "writes_tokens ?w ts (compress_loop input max_chain (pos + 1) (chain_insert input pos tables) ?w)"
        "\<forall>t\<in>set ts. token_ok t" "expand ts (take (pos + 1) input) = Some input" by blast
      have "compress_loop input max_chain pos tables w =
          compress_loop input max_chain (pos + 1) (chain_insert input pos tables) ?w"
        using True l ld by (subst compress_loop.simps) simp
      then show ?thesis using ts b True
        by (intro exI[of _ "Lit (input ! pos) # ts"]) (simp add: writes_tokens_def take_Suc_conv_app_nth)
    qed
  qed
qed

lemma compress_tokens:
  assumes "3 \<le> length input"
  obtains ts pad where "bits_of (compress input level) = bits_of (to_le_bytes (of_nat (length input) :: u32)) @ tokens_bits ts @ replicate pad False"
    and "pad < 8" and "\<forall>t\<in>set ts. token_ok t" and "expand ts [] = Some input"
proof -
  let ?w0 = "lw_write_u32 (of_nat (length input)) lw_new"
  have "tables_ok 0 (\<lambda>_. -1, \<lambda>_. -1)" by (simp add: tables_ok_def before_def)
  from compress_loop_tokens[OF this, of ?w0 input "max_chain_of level"] lw_new_u32[of "of_nat (length input)"]
  obtain ts where ts: "writes_tokens ?w0 ts (compress_loop input (max_chain_of level) 0 (\<lambda>_. -1, \<lambda>_. -1) ?w0)"
    "\<forall>t\<in>set ts. token_ok t" "expand ts [] = Some input" by auto
  have "lw_ok (compress_loop input (max_chain_of level) 0 (\<lambda>_. -1, \<lambda>_. -1) ?w0)" using ts(1) by (simp add: writes_tokens_def)
  from lw_finish_bits[OF this]
  obtain pad where "bits_of (compress input level) = lw_bits (compress_loop input (max_chain_of level) 0 (\<lambda>_. -1, \<lambda>_. -1) ?w0) @ replicate pad False" "pad < 8"
    using assms by (auto simp: compress_def)
  then show ?thesis using ts lw_new_u32[of "of_nat (length input)"]
    by (intro that[of ts pad]) (simp_all add: writes_tokens_def)
qed

section \<open>Whole streams\<close>

lemma unat_div_exp: "unat w div 2 ^ k = unat (drop_bit k (w :: 'a::len word))"
  by (subst unat_drop_bit_eq) (rule drop_bit_eq_div[symmetric])

lemma le_bytes_u32:
  "to_le_bytes (w :: u32) = [ucast w, ucast (drop_bit 8 w), ucast (drop_bit 16 w), ucast (drop_bit 24 w)]"
proof -
  have d: "unat w div 256 = unat (drop_bit 8 w)" "unat w div 65536 = unat (drop_bit 16 w)"
    "unat w div 16777216 = unat (drop_bit 24 w)"
    using unat_div_exp[of w 8] unat_div_exp[of w 16] unat_div_exp[of w 24] by simp_all
  have "to_le_bytes w = [of_nat (unat w), of_nat (unat w div 256), of_nat (unat w div 65536), of_nat (unat w div 16777216)]"
  proof -
    have n: "LENGTH(32) div 8 = Suc (Suc (Suc (Suc 0)))" by simp
    show ?thesis unfolding to_le_bytes_def n nat_to_le.simps div_mult2_eq[symmetric] by simp
  qed
  then show ?thesis unfolding d of_nat_unat .
qed

lemma lr_read_u32_starts:
  assumes "lr.starts r (bits_of (to_le_bytes (w :: u32)))"
  shows "lr_read_u32 r = Some (w, lr_adv 32 r)"
proof -
  let ?b = "\<lambda>k. ucast (drop_bit k w) :: byte"
  have s: "lr.starts r (word_bits 8 (?b 0))" "lr.starts (lr_adv 8 r) (word_bits 8 (?b 8))"
    "lr.starts (lr_adv 8 (lr_adv 8 r)) (word_bits 8 (?b 16))"
    "lr.starts (lr_adv 8 (lr_adv 8 (lr_adv 8 r))) (word_bits 8 (?b 24))"
    using assms by (simp_all add: le_bytes_u32 lr.rd_starts_append)
  have u: "unat (b :: byte) < 2 ^ 8" for b using unat_byte_less[of b] by simp
  note r = s[THEN lr_read_starts, OF u, simplified]
  have "ucast (?b 0) OR push_bit 8 (ucast (?b 8)) OR push_bit 16 (ucast (?b 16)) OR push_bit 24 (ucast (?b 24)) = w"
  proof (rule bit_word_eqI)
    fix i assume "i < LENGTH(32)"
    then have "i < 8 \<or> 8 \<le> i \<and> i < 16 \<or> 16 \<le> i \<and> i < 24 \<or> 24 \<le> i \<and> i < 32" by auto
    then show "bit (ucast (?b 0) OR push_bit 8 (ucast (?b 8)) OR push_bit 16 (ucast (?b 16)) OR push_bit 24 (ucast (?b 24)) :: u32) i = bit w i"
      by (elim disjE) (auto simp add: bit_or_iff bit_push_bit_iff bit_unsigned_iff bit_drop_bit_eq)
  qed
  then show ?thesis using r by (simp add: lr_read_u32_def lr.adv_adv)
qed

lemma lr_valid_adv: "lr_valid r \<Longrightarrow> lr_valid (lr_adv n r)"
  by (simp add: lr_valid_def lr_adv_def)

lemma lr_read_bits_Some:
  "lr_read_bits n r = Some (v, r') \<Longrightarrow> lr_valid r \<Longrightarrow> n \<le> 32 \<Longrightarrow>
   lr_valid r' \<and> length (lr_rest r) = length (lr_rest r') + n"
  by (auto simp: lr_read_bits_eq lr.rest_adv lr_valid_adv split: if_splits)

lemma lr_read_bits_bound: "lr_read_bits n r = Some (v, r') \<Longrightarrow> lr_valid r \<Longrightarrow> n \<le> 32 \<Longrightarrow> unat v < 2 ^ n"
  unfolding fits_iff[symmetric] word_zero_iff
  by (auto simp: lr_read_bits_eq bit_drop_bit_eq bit_of_bits split: if_splits)

lemma lr_read_bit_Some:
  "lr_read_bit r = Some (v, r') \<Longrightarrow> lr_valid r \<Longrightarrow> lr_valid r' \<and> length (lr_rest r) = length (lr_rest r') + 1"
  by (auto simp: lr_read_bit_eq lr.rest_adv lr_valid_adv split: list.splits)

text \<open>One token of any stream: the output grows by at most 258 bytes for every 24 bits read.\<close>

lemma decompress_step_rate:
  assumes "decompress_step r out = Inr (out', r')" and "lr_valid r"
  shows "lr_valid r' \<and> 24 * length out' + 258 * length (lr_rest r') \<le> 24 * length out + 258 * length (lr_rest r)"
proof -
  obtain b r1 where b: "lr_read_bit r = Some (b, r1)" using assms(1) by (auto simp: decompress_step_def rbind_eq_Inr)
  note r1 = lr_read_bit_Some[OF b assms(2)]
  show ?thesis
  proof (cases b)
    case True
    then obtain l r2 d where l: "lr_read_bits 8 r1 = Some (l, r2)" and d: "lr_read_bits 15 r2 = Some (d, r')"
      and o: "length out' = length out + (unat l + 3)"
      using assms(1) b by (auto simp: decompress_step_def rbind_eq_Inr Let_def split: if_splits)
    have "unat l < 256" using lr_read_bits_bound[OF l] r1 by simp
    moreover note r2 = lr_read_bits_Some[OF l, OF conjunct1[OF r1]]
    moreover note lr_read_bits_Some[OF d]
    ultimately show ?thesis using o r1 by simp
  next
    case False
    then obtain v where v: "lr_read_bits 8 r1 = Some (v, r')" and o: "length out' = length out + 1"
      using assms(1) b by (auto simp: decompress_step_def rbind_eq_Inr)
    show ?thesis using lr_read_bits_Some[OF v] r1 o by simp
  qed
qed

lemma decompress_loop_rate:
  "decompress_loop declared r out = Inr out' \<Longrightarrow> lr_valid r \<Longrightarrow>
   24 * length out' \<le> 24 * length out + 258 * length (lr_rest r)"
proof (induction declared r out rule: decompress_loop.induct)
  case (1 declared r out)
  show ?case
  proof (cases "length out < declared")
    case True
    then obtain o1 r1 where s: "decompress_step r out = Inr (o1, r1)" and l: "decompress_loop declared r1 o1 = Inr out'"
      using "1.prems"(1) by (subst (asm) decompress_loop.simps) (auto split: sum.splits)
    show ?thesis using decompress_step_rate[OF s "1.prems"(2)] "1.IH"[OF True s refl l] by simp
  next
    case False
    then show ?thesis using "1.prems"(1) by (subst (asm) decompress_loop.simps) simp
  qed
qed

lemma lr_read_u32_Some:
  assumes "lr_read_u32 r = Some (v, r')" and "lr_valid r"
  shows "lr_valid r' \<and> length (lr_rest r) = length (lr_rest r') + 32"
proof -
  obtain a r1 b r2 c r3 d where s: "lr_read_bits 8 r = Some (a, r1)" "lr_read_bits 8 r1 = Some (b, r2)"
    "lr_read_bits 8 r2 = Some (c, r3)" "lr_read_bits 8 r3 = Some (d, r')"
    using assms(1) by (auto simp: lr_read_u32_def bind_eq_Some_conv)
  show ?thesis using lr_read_bits_Some[OF s(1)] lr_read_bits_Some[OF s(2)] lr_read_bits_Some[OF s(3)] lr_read_bits_Some[OF s(4)]
      assms(2) by simp
qed

lemma decompress_compress:
  assumes "3 \<le> length input" and "length input < 2 ^ 32" and "length input \<le> expected"
  shows "decompress (compress input level) expected = Inr input"
proof -
  let ?n = "of_nat (length input) :: u32" and ?r = "lr_new (compress input level)"
  obtain ts pad where b: "bits_of (compress input level) = bits_of (to_le_bytes ?n) @ tokens_bits ts @ replicate pad False"
    and ts: "\<forall>t\<in>set ts. token_ok t" "expand ts [] = Some input"
    using compress_tokens[OF assms(1)] by metis
  have "lr.starts ?r (bits_of (to_le_bytes ?n) @ tokens_bits ts)"
    using b by (auto simp: lr.starts_def)
  then have s: "lr.starts ?r (bits_of (to_le_bytes ?n))" "lr.starts (lr_adv 32 ?r) (tokens_bits ts)"
    unfolding lr.rd_starts_append by simp_all
  have "decompress_loop (length input) (lr_adv 32 ?r) [] = Inr input"
    by (rule decompress_loop_tokens[OF s(2) ts])
  then show ?thesis using lr_read_u32_starts[OF s(1)] unat_small[OF assms(2)] assms(3)
    by (simp add: decompress_def Let_def)
qed

lemma decompress_Inr:
  assumes "decompress input expected = Inr out"
  shows "length out \<le> expected" and "24 * length out + 258 * 32 \<le> 258 * (8 * length input)" and "length out < 2 ^ 32"
proof -
  obtain d r where d: "lr_read_u32 (lr_new input) = Some (d, r)" and e: "unat d \<le> expected"
    and l: "decompress_loop (unat d) r [] = Inr out" and o: "length out = unat d"
    using assms by (auto simp: decompress_def rbind_eq_Inr Let_def split: if_splits)
  note r = lr_read_u32_Some[OF d]
  show "length out \<le> expected" using o e by simp
  show "24 * length out + 258 * 32 \<le> 258 * (8 * length input)"
    using decompress_loop_rate[OF l] r by simp
  show "length out < 2 ^ 32" using o unsigned_less[of d, where ?'a = nat] by simp
qed

lemma tokens_bits_le:
  "\<forall>t\<in>set ts. token_ok t \<Longrightarrow> expand ts out = Some out' \<Longrightarrow>
   length (tokens_bits ts) + 9 * length out \<le> 9 * length out' \<and>
   24 * length out' \<le> 24 * length out + 258 * length (tokens_bits ts)"
proof (induction ts arbitrary: out)
  case (Cons t ts)
  then obtain o1 where o1: "apply_token out t = Some o1" "expand ts o1 = Some out'"
    by (auto simp: bind_eq_Some_conv)
  have "length (token_bits t) + 9 * length out \<le> 9 * length o1 \<and> 24 * length o1 \<le> 24 * length out + 258 * length (token_bits t)"
    using o1(1) Cons.prems(1) by (cases t) (auto split: if_splits)
  then show ?case using Cons.IH[OF _ o1(2)] Cons.prems(1) by simp
qed simp

lemma length_compress:
  assumes "3 \<le> length input"
  shows "5 \<le> length (compress input level) \<and> length (compress input level) \<le> 4 + (9 * length input + 7) div 8"
proof -
  obtain ts pad where b: "bits_of (compress input level) = bits_of (to_le_bytes (of_nat (length input) :: u32)) @ tokens_bits ts @ replicate pad False"
    and p: "pad < 8" and ts: "\<forall>t\<in>set ts. token_ok t" "expand ts [] = Some input"
    by (rule compress_tokens[OF assms])
  have "8 * length (compress input level) = 32 + length (tokens_bits ts) + pad"
    using arg_cong[OF b, of length] by simp
  moreover have "length (tokens_bits ts) \<le> 9 * length input" "24 * length input \<le> 258 * length (tokens_bits ts)"
    using tokens_bits_le[OF ts] by simp_all
  ultimately have "8 * length (compress input level) \<le> 39 + 9 * length input" "32 < 8 * length (compress input level)"
    using p assms by linarith+
  then show ?thesis by linarith
qed

text \<open>
  C15: the compressor is lossless. For every input of at least three bytes and less than 4 GiB, at every
  level, decompressing the packed stream with a bound that admits the input returns the input: the hash
  chains, the window and the overlapping copies only ever affect the size.
\<close>

theorem lz_roundtrip:
  assumes "MIN_MATCH \<le> length input" and "length input < 2 ^ 32" and "length input \<le> expected"
  shows "decompress (compress input level) expected = Inr input"
  using assms by (simp add: decompress_compress)

lemma lz_roundtrip_witness: "decompress (compress (replicate 100 7) 3) 200 = Inr (replicate 100 7)"
  by (rule lz_roundtrip) simp_all

text \<open>
  Decompression is bounded on every input, hostile or not. What is returned is within the caller's
  bound, and no stream expands by more than a factor of 86: each token of 24 bits yields at most 258
  bytes.
\<close>

theorem decompress_bounded:
  assumes "decompress input expected = Inr out"
  shows "length out \<le> expected \<and> length out \<le> 86 * (length input - 4)"
  using decompress_Inr(1,2)[OF assms] by simp

lemma decompress_bounded_witness: "100 \<le> 86 * (length (compress (replicate 100 7) 3) - 4)"
proof -
  have "decompress (compress (replicate 100 7) 3) 200 = Inr (replicate 100 7)"
    by (rule decompress_compress) simp_all
  from decompress_bounded[OF this] show ?thesis by simp
qed

text \<open>
  The size of the packed stream. At least three bytes always give a non-empty stream, of at most
  four bytes and nine eighths of the input, so the stream can be longer than the input; the comment on
  \<open>compress\<close> promises an empty vector in that case.
\<close>

theorem compress_size:
  assumes "MIN_MATCH \<le> length input"
  shows "5 \<le> length (compress input level) \<and> length (compress input level) \<le> 4 + (9 * length input + 7) div 8"
  using assms by (simp add: length_compress)

lemma compress_size_witness: "length [1, 2, 3 :: byte] < length (compress [1, 2, 3] 3)"
  using compress_size[of "[1, 2, 3]" 3] by simp

text \<open>
  The 32-bit length field. An input of 4 GiB or more is compressed without complaint, its length
  truncated, and no bound makes the result decompress to the input.
\<close>

theorem lz_length_truncated:
  assumes "2 ^ 32 \<le> length input"
  shows "decompress (compress input level) expected \<noteq> Inr input"
  using decompress_Inr(3)[of "compress input level" expected input] assms by auto

lemma lz_length_truncated_witness:
  "decompress (compress (replicate (2 ^ 32) 0) 3) (2 ^ 33) \<noteq> Inr (replicate (2 ^ 32) 0)"
  by (rule lz_length_truncated) (simp only: length_replicate)

end
