(* ===== verification/Frames.thy ===== *)
theory Frames
  imports RB_Prelude
begin

text \<open>
  What the frame headers of the profiles share: 64-bit lengths, a flag word with one known bit, and the
  24-byte layout of magic, version, flags and two counters.
\<close>

lemma flag_cases: "(f :: u16) AND NOT 1 = 0 \<longleftrightarrow> f = 0 \<or> f = 1"
proof
  assume a: "f AND NOT 1 = 0"
  have "f = (f AND 1) OR (f AND NOT 1)" by (rule bit_word_eqI) (auto simp: bit_simps)
  then have "f = f AND 1" unfolding a by (simp only: or.right_neutral)
  moreover have "f AND 1 = 0 \<or> f AND 1 = 1" by (simp add: and_one_eq mod2_eq_if)
  ultimately show "f = 0 \<or> f = 1" by metis
qed auto

lemma unat_u64: "n \<le> usize_max \<Longrightarrow> unat (of_nat n :: u64) = n"
  by (simp add: unat_of_nat take_bit_nat_eq_self_iff)

lemma unat_u64_max: "unat (w :: u64) \<le> usize_max"
  using unsigned_less[of w, where ?'a = nat] by simp

lemma split_header:
  assumes "length h = 24"
  shows "h = take 4 h @ take 2 (drop 4 h) @ take 2 (drop 6 h) @ take 8 (drop 8 h) @ take 8 (drop 16 h)"
proof -
  have a: "h = take 4 h @ drop 4 h" "drop 4 h = take 2 (drop 4 h) @ drop 6 h" "drop 6 h = take 2 (drop 6 h) @ drop 8 h"
    "drop 8 h = take 8 (drop 8 h) @ drop 16 h" "drop 16 h = take 8 (drop 16 h)"
    using assms append_take_drop_id[of 2 "drop 4 h"] append_take_drop_id[of 2 "drop 6 h"] append_take_drop_id[of 8 "drop 8 h"]
    by simp_all
  show ?thesis using a by metis
qed

end
