(* ===== verification/Compression.thy ===== *)
theory Compression
  imports Lz Stream Frames Alloc
begin

text \<open>
  \<^verbatim>\<open>src/compression.rs\<close>: the adaptive compression frame around the self-describing profile, and the
  bounded reading of \<^verbatim>\<open>src/adapters.rs\<close>. The payload format is \<^verbatim>\<open>PayloadFormat::Binary\<close>, the only one
  of a build without the \<^verbatim>\<open>cbor\<close> feature. A reader is the list of bytes it would still return.
\<close>

section \<open>Configuration\<close>

definition CZ_MAGIC :: "byte list" where "CZ_MAGIC = [0x52, 0x42, 0x5A, 0x31]"
definition CZ_VERSION :: u16 where "CZ_VERSION = 1"
definition COMPRESSED :: u16 where "COMPRESSED = 1"
definition CZ_HEADER_LEN :: nat where "CZ_HEADER_LEN = 24"
definition DEFAULT_THRESHOLD :: nat where "DEFAULT_THRESHOLD = 256"

lemmas cz_consts [simp] = CZ_MAGIC_def CZ_VERSION_def COMPRESSED_def CZ_HEADER_LEN_def

record compressed_config =
  zc_payload :: config
  zc_level :: int
  zc_threshold :: nat

definition cz_binary :: "config \<Rightarrow> int \<Rightarrow> compressed_config" where
  "cz_binary cfg level = \<lparr> zc_payload = cfg, zc_level = level, zc_threshold = DEFAULT_THRESHOLD \<rparr>"

definition with_compression_threshold :: "nat \<Rightarrow> compressed_config \<Rightarrow> compressed_config" where
  "with_compression_threshold threshold z = z\<lparr>zc_threshold := threshold\<rparr>"

definition enforce_raw_limit :: "compressed_config \<Rightarrow> nat \<Rightarrow> error + unit" where
  "enforce_raw_limit z raw_len =
    (let bound = (case c_limit (zc_payload z) of None \<Rightarrow> DEFAULT_SIZE_LIMIT | Some l \<Rightarrow> l) in
     if raw_len > bound then Inl (SizeLimit bound) else Inr ())"

section \<open>The frame\<close>

definition cz_header :: "u16 \<Rightarrow> nat \<Rightarrow> nat \<Rightarrow> byte list" where
  "cz_header flags raw_len stored_len =
    CZ_MAGIC @ to_le_bytes CZ_VERSION @ to_le_bytes flags @
    to_le_bytes (of_nat raw_len :: u64) @ to_le_bytes (of_nat stored_len :: u64)"

definition cz_parse_header :: "byte list \<Rightarrow> error + (u16 \<times> nat \<times> nat)" where
  "cz_parse_header header =
    (if length header \<noteq> CZ_HEADER_LEN then Inl (InvalidFrame ''invalid compression header length'')
     else if take 4 header \<noteq> CZ_MAGIC then Inl (InvalidFrame ''bad compression magic'')
     else if from_le_bytes (take 2 (drop 4 header)) \<noteq> CZ_VERSION
       then Inl (InvalidFrame ''unsupported compression frame version'')
     else let flags = from_le_bytes (take 2 (drop 6 header)) in
       if flags AND NOT COMPRESSED \<noteq> 0 then Inl (InvalidFrame ''unknown compression frame flags'')
       else let raw_len = unat (from_le_bytes (take 8 (drop 8 header)) :: u64);
                stored_len = unat (from_le_bytes (take 8 (drop 16 header)) :: u64) in
         if flags AND COMPRESSED \<noteq> 0 \<and> stored_len \<ge> raw_len
           then Inl (InvalidFrame ''compressed payload must be smaller than its raw payload'')
         else if \<not> flags AND COMPRESSED \<noteq> 0 \<and> stored_len \<noteq> raw_len
           then Inl (InvalidFrame ''raw compression frame has inconsistent lengths'')
         else Inr (flags, raw_len, stored_len))"

definition cz_parse_frame :: "byte list \<Rightarrow> trailing \<Rightarrow> error + (u16 \<times> nat \<times> nat \<times> byte list)" where
  "cz_parse_frame input policy =
    rbind (ok_or UnexpectedEnd (slice 0 CZ_HEADER_LEN input)) (\<lambda>header.
    rbind (cz_parse_header header) (\<lambda>(flags, raw_len, stored_len).
    rbind (if CZ_HEADER_LEN + stored_len > usize_max then Inl UnexpectedEnd else Inr (CZ_HEADER_LEN + stored_len)) (\<lambda>end.
    rbind (ok_or UnexpectedEnd (slice CZ_HEADER_LEN end input)) (\<lambda>stored.
    if policy = Reject \<and> end \<noteq> length input then Inl (TrailingBytesError (length input - end))
    else Inr (flags, raw_len, stored_len, stored)))))"

definition cz_serialize :: "(nat \<Rightarrow> bool) \<Rightarrow> compressed_config \<Rightarrow> event list \<Rightarrow> error + byte list" where
  "cz_serialize alloc z evs =
    rbind (to_vec (zc_payload z) evs) (\<lambda>raw.
      let compressed = (if length raw \<ge> zc_threshold z then
            (let packed = compress raw (zc_level z) in if packed = [] then None else Some packed)
          else None);
          (flags, stored) = (case compressed of
              Some bytes \<Rightarrow> if length bytes < length raw then (COMPRESSED, bytes) else (0, raw)
            | None \<Rightarrow> (0, raw))
      in rbind (try_reserve alloc (min (CZ_HEADER_LEN + length stored) usize_max)) (\<lambda>_.
           Inr (cz_header flags (length raw) (length stored) @ stored)))"

definition cz_stored_payload :: "u16 \<Rightarrow> nat \<Rightarrow> nat \<Rightarrow> byte list \<Rightarrow> error + byte list" where
  "cz_stored_payload flags raw_len stored_len stored =
    (if flags AND COMPRESSED \<noteq> 0 then
       rbind (if raw_len + 1 > usize_max then Inl (SizeLimit usize_max) else Inr (raw_len + 1)) (\<lambda>cap.
       rbind (case decompress stored cap of Inl e \<Rightarrow> Inl (error.Compression (lz_display e)) | Inr p \<Rightarrow> Inr p) (\<lambda>payload.
         if length payload \<noteq> raw_len
         then Inl (InvalidFrame ''decompressed length does not match compression header'') else Inr payload))
     else if stored_len \<noteq> raw_len then Inl (InvalidFrame ''raw compression frame has inconsistent lengths'')
     else Inr stored)"

definition cz_deserialize :: "compressed_config \<Rightarrow> (decoder, 'a) op \<Rightarrow> byte list \<Rightarrow> error + 'a" where
  "cz_deserialize z T input =
    rbind (ok_or UnexpectedEnd (slice 0 CZ_HEADER_LEN input)) (\<lambda>header.
    rbind (cz_parse_header header) (\<lambda>(_, declared_raw_len, _).
    rbind (enforce_raw_limit z declared_raw_len) (\<lambda>_.
    rbind (cz_parse_frame input (c_trailing (zc_payload z))) (\<lambda>(flags, raw_len, stored_len, stored).
    rbind (cz_stored_payload flags raw_len stored_len stored) (from_slice (zc_payload z) T)))))"

section \<open>Readers\<close>

definition read_exact :: "nat \<Rightarrow> byte list \<Rightarrow> error + (byte list \<times> byte list)" where
  "read_exact n source = (if length source < n then Inl Io else Inr (take n source, drop n source))"

definition cz_deserialize_from ::
  "(nat \<Rightarrow> bool) \<Rightarrow> compressed_config \<Rightarrow> (decoder, 'a) op \<Rightarrow> byte list \<Rightarrow> error + 'a" where
  "cz_deserialize_from alloc z T source =
    rbind (read_exact CZ_HEADER_LEN source) (\<lambda>(header, source1).
    rbind (cz_parse_header header) (\<lambda>(_, raw_len, stored_len).
    rbind (enforce_raw_limit z raw_len) (\<lambda>_.
    rbind (if CZ_HEADER_LEN + stored_len > usize_max then Inl (InvalidFrame ''compression frame size overflow'')
           else Inr (CZ_HEADER_LEN + stored_len)) (\<lambda>frame_len.
    rbind (try_reserve alloc frame_len) (\<lambda>_.
      let frame = header @ take stored_len source1 in
      if length frame \<noteq> CZ_HEADER_LEN + stored_len then Inl UnexpectedEnd
      else cz_deserialize z T frame)))))"

text \<open>\<^verbatim>\<open>adapters::deserialize_from\<close>: at most one byte more than the limit is read.\<close>

definition deserialize_from :: "config \<Rightarrow> (decoder, 'a) op \<Rightarrow> byte list \<Rightarrow> error + 'a" where
  "deserialize_from cfg T source =
    (let limit = (case c_limit cfg of None \<Rightarrow> usize_max | Some l \<Rightarrow> l);
         bytes = take (min (limit + 1) usize_max) source
     in if length bytes > limit then Inl (SizeLimit limit) else from_slice cfg T bytes)"

section \<open>Frames round-trip\<close>

lemma length_cz_header [simp]: "length (cz_header flags raw_len stored_len) = 24"
  by (simp add: cz_header_def)

lemma cz_header_fields:
  "take 4 (cz_header f r s) = CZ_MAGIC"
  "take 2 (drop 4 (cz_header f r s)) = to_le_bytes CZ_VERSION"
  "take 2 (drop 6 (cz_header f r s)) = to_le_bytes f"
  "take 8 (drop 8 (cz_header f r s)) = to_le_bytes (of_nat r :: u64)"
  "take 8 (drop 16 (cz_header f r s)) = to_le_bytes (of_nat s :: u64)"
  by (simp_all add: cz_header_def)

definition cz_lengths_ok :: "u16 \<Rightarrow> nat \<Rightarrow> nat \<Rightarrow> bool" where
  "cz_lengths_ok f r s \<longleftrightarrow> r \<le> usize_max \<and> s \<le> usize_max \<and> (f = 0 \<and> s = r \<or> f = 1 \<and> s < r)"

lemma cz_parse_header_header: "cz_lengths_ok f r s \<Longrightarrow> cz_parse_header (cz_header f r s) = Inr (f, r, s)"
  by (auto simp: cz_parse_header_def cz_header_fields Let_def unat_u64 cz_lengths_ok_def)

lemma cz_parse_header_Inr:
  assumes "cz_parse_header h = Inr (f, r, s)"
  shows "h = cz_header f r s \<and> cz_lengths_ok f r s"
proof -
  let ?f = "from_le_bytes (take 2 (drop 6 h)) :: u16" and ?r = "from_le_bytes (take 8 (drop 8 h)) :: u64"
  let ?s = "from_le_bytes (take 8 (drop 16 h)) :: u64"
  have h: "length h = 24" "take 4 h = CZ_MAGIC" "from_le_bytes (take 2 (drop 4 h)) = CZ_VERSION"
    and f: "f AND NOT 1 = 0" "f = ?f" "r = unat ?r" "s = unat ?s"
    and l: "f AND 1 \<noteq> 0 \<longrightarrow> s < r" "f AND 1 = 0 \<longrightarrow> s = r"
    using assms by (auto simp: cz_parse_header_def Let_def split: if_splits)
  have "take 2 (drop 4 h) = to_le_bytes CZ_VERSION" using h(3) to_from_le_bytes[of "take 2 (drop 4 h)", where 'a = 16] h(1) by simp
  moreover have "take 2 (drop 6 h) = to_le_bytes f" using f(2) to_from_le_bytes[of "take 2 (drop 6 h)", where 'a = 16] h(1) by simp
  moreover have "take 8 (drop 8 h) = to_le_bytes (of_nat r :: u64)"
    using f(3) to_from_le_bytes[of "take 8 (drop 8 h)", where 'a = 64] h(1) by simp
  moreover have "take 8 (drop 16 h) = to_le_bytes (of_nat s :: u64)"
    using f(4) to_from_le_bytes[of "take 8 (drop 16 h)", where 'a = 64] h(1) by simp
  ultimately have "h = cz_header f r s" using split_header[OF h(1)] h(2) by (simp add: cz_header_def)
  moreover have "cz_lengths_ok f r s"
    using f(1)[unfolded flag_cases] f(3,4) l unat_u64_max[of ?r] unat_u64_max[of ?s] by (auto simp: cz_lengths_ok_def)
  ultimately show ?thesis by simp
qed

text \<open>The payload part of \<open>cz_deserialize\<close>, for what \<open>cz_serialize\<close> writes.\<close>

definition cz_bound :: "compressed_config \<Rightarrow> nat" where
  "cz_bound z = (case c_limit (zc_payload z) of None \<Rightarrow> DEFAULT_SIZE_LIMIT | Some l \<Rightarrow> l)"

lemma enforce_raw_limit_eq: "enforce_raw_limit z n = (if n > cz_bound z then Inl (SizeLimit (cz_bound z)) else Inr ())"
  by (simp add: enforce_raw_limit_def cz_bound_def)

lemma cz_parse_frame_append:
  assumes "cz_lengths_ok f r (length stored)" and "24 + length stored \<le> usize_max"
  shows "cz_parse_frame (cz_header f r (length stored) @ stored @ rest) policy =
    (if policy = Reject \<and> rest \<noteq> [] then Inl (TrailingBytesError (length rest)) else Inr (f, r, length stored, stored))"
proof -
  let ?h = "cz_header f r (length stored)"
  have "slice 0 24 (?h @ stored @ rest) = Some ?h" using slice_append[of "[]" ?h] by simp
  moreover have "slice 24 (24 + length stored) (?h @ stored @ rest) = Some stored"
    using slice_append[of ?h stored rest] by simp
  ultimately show ?thesis using assms by (auto simp: cz_parse_frame_def cz_parse_header_header)
qed

lemma cz_serialize_Inr:
  assumes "cz_serialize alloc z evs = Inr frame"
  obtains raw f stored where "to_vec (zc_payload z) evs = Inr raw" and "frame = cz_header f (length raw) (length stored) @ stored"
    and "f = 0 \<and> stored = raw \<or> f = 1 \<and> stored = compress raw (zc_level z) \<and> 3 \<le> length raw \<and> length stored < length raw"
    and "24 + length stored < 2 ^ 63"
proof -
  obtain raw where raw: "to_vec (zc_payload z) evs = Inr raw" using assms by (auto simp: cz_serialize_def rbind_eq_Inr)
  have m: "\<not> 3 \<le> length raw \<Longrightarrow> compress raw (zc_level z) = []" by (simp add: compress_def)
  show ?thesis using assms raw m
    by (intro that[OF raw, of "if length raw \<ge> zc_threshold z \<and> compress raw (zc_level z) \<noteq> [] \<and>
            length (compress raw (zc_level z)) < length raw then 1 else 0" "if length raw \<ge> zc_threshold z \<and> compress raw (zc_level z) \<noteq> [] \<and>
            length (compress raw (zc_level z)) < length raw then compress raw (zc_level z) else raw"])
      (auto simp: cz_serialize_def Let_def rbind_eq_Inr try_reserve_def split: if_splits)
qed

definition frame_fits :: "compressed_config \<Rightarrow> nat \<Rightarrow> bool" where
  "frame_fits z n \<longleftrightarrow> n \<le> cz_bound z \<and> n < 2 ^ 32"

lemma cz_deserialize_serialized:
  assumes "cz_serialize alloc z evs = Inr frame" and "to_vec (zc_payload z) evs = Inr raw" and "frame_fits z (length raw)"
  shows "cz_deserialize z T (frame @ rest) =
    (if c_trailing (zc_payload z) = Reject \<and> rest \<noteq> [] then Inl (TrailingBytesError (length rest))
     else from_slice (zc_payload z) T raw)"
proof -
  obtain raw' f stored where r: "to_vec (zc_payload z) evs = Inr raw'" "frame = cz_header f (length raw') (length stored) @ stored"
    and f: "f = 0 \<and> stored = raw' \<or> f = 1 \<and> stored = compress raw' (zc_level z) \<and> 3 \<le> length raw' \<and> length stored < length raw'"
    and n: "24 + length stored < 2 ^ 63"
    by (rule cz_serialize_Inr[OF assms(1)])
  have raw: "raw' = raw" using r(1) assms(2) by simp
  have b: "length raw \<le> cz_bound z" "length raw < 2 ^ 32" using assms(3) by (simp_all add: frame_fits_def)
  have l: "cz_lengths_ok f (length raw) (length stored)" using f n b by (auto simp: cz_lengths_ok_def raw)
  have s: "slice 0 24 (frame @ rest) = Some (cz_header f (length raw) (length stored))"
    using slice_append[of "[]" "cz_header f (length raw) (length stored)" "stored @ rest"] by (simp add: r(2) raw)
  have p: "cz_parse_frame (frame @ rest) (c_trailing (zc_payload z)) =
    (if c_trailing (zc_payload z) = Reject \<and> rest \<noteq> [] then Inl (TrailingBytesError (length rest)) else Inr (f, length raw, length stored, stored))"
    using cz_parse_frame_append[OF l, of rest "c_trailing (zc_payload z)"] n by (simp add: r(2) raw)
  have d: "f = 1 \<Longrightarrow> decompress stored (length raw + 1) = Inr raw"
    using f decompress_compress[of raw "length raw + 1" "zc_level z"] b by (auto simp: raw)
  show ?thesis using f d b
    by (auto simp: cz_deserialize_def cz_stored_payload_def s cz_parse_header_header[OF l] enforce_raw_limit_eq p raw)
qed

text \<open>What any accepted frame hands to the decoder of the payload.\<close>

lemma cz_deserialize_Inr:
  assumes "cz_deserialize z T input = Inr v"
  obtains h f r stored payload where "h = take 24 input" and "24 \<le> length input" and "h = cz_header f r (length stored)"
    and "cz_lengths_ok f r (length stored)" and "r \<le> cz_bound z" and "stored = take (length stored) (drop 24 input)"
    and "24 + length stored \<le> length input"
    and "c_trailing (zc_payload z) = Reject \<longrightarrow> length input = 24 + length stored"
    and "length payload = r" and "length payload \<le> 86 * length input" and "from_slice (zc_payload z) T payload = Inr v" and "24 + length stored \<le> usize_max"
proof -
  obtain h f r n f' r' n' stored payload where h: "slice 0 24 input = Some h" "cz_parse_header h = Inr (f, r, n)" "r \<le> cz_bound z"
    and f: "cz_parse_frame input (c_trailing (zc_payload z)) = Inr (f', r', n', stored)"
    and q: "cz_stored_payload f' r' n' stored = Inr payload" and v: "from_slice (zc_payload z) T payload = Inr v"
    using assms by (auto simp: cz_deserialize_def rbind_eq_Inr enforce_raw_limit_eq split: if_splits)
  have s: "f' = f" "r' = r" "n' = n" "24 + n \<le> usize_max" "slice 24 (24 + n) input = Some stored"
    and t: "c_trailing (zc_payload z) = Reject \<longrightarrow> 24 + n = length input"
    using f h(1,2) by (auto simp: cz_parse_frame_def rbind_eq_Inr split: if_splits)
  have "length stored = n" using length_slice[OF s(5)] by simp
  then have p: "length payload = r" "from_slice (zc_payload z) T payload = Inr v"
    using q v s(1-3) by (auto simp: cz_stored_payload_def rbind_eq_Inr split: if_splits)
  have "length payload \<le> 86 * length stored" using q
    by (auto simp: cz_stored_payload_def rbind_eq_Inr split: if_splits sum.splits dest!: decompress_Inr(2))
  then have e: "length payload \<le> 86 * length input" using length_slice[OF s(5)] s(5) by (auto simp: slice_eq_Some)
  have l: "length stored = n" "24 + n \<le> length input" "stored = take n (drop 24 input)" "24 \<le> length input" "h = take 24 input"
    using s(5) h(1) by (auto simp: slice_eq_Some)
  show ?thesis using cz_parse_header_Inr[OF h(2)] h(3) s(4) t p e l by (intro that[of h f r stored payload]) auto
qed


text \<open>
  The 24-byte header. \<open>parse_header\<close> accepts exactly the headers that \<open>header\<close> writes for a known
  flag and consistent lengths (equal when stored raw, smaller when compressed), and returns their
  fields.
\<close>

theorem cz_header_exact:
  "cz_parse_header h = Inr (flags, raw_len, stored_len) \<longleftrightarrow>
   h = cz_header flags raw_len stored_len \<and> cz_lengths_ok flags raw_len stored_len"
  using cz_parse_header_Inr cz_parse_header_header by blast

text \<open>
  C17: no decompression bomb. Whatever frame is accepted, the payload decoder only ever sees a payload
  within the configured limit (64 MiB without one) and at most 86 times as long as the frame.
\<close>

theorem compression_bounded:
  assumes "cz_deserialize z T input = Inr v"
  shows "\<exists>payload. from_slice (zc_payload z) T payload = Inr v \<and> length payload \<le> cz_bound z \<and>
    length payload \<le> 86 * length input"
  using cz_deserialize_Inr[OF assms] by metis

text \<open>
  Reading from a stream. Under the strict policy \<open>deserialize_from\<close> returns a value exactly when a
  prefix of the stream is a frame that \<open>deserialize\<close> accepts with that value; it reads no further.
\<close>

theorem compression_reader:
  assumes "c_trailing (zc_payload z) = Reject" and "length source < 2 ^ 63" and "\<forall>n. alloc n"
  shows "cz_deserialize_from alloc z T source = Inr v \<longleftrightarrow>
    (\<exists>n\<le>length source. cz_deserialize z T (take n source) = Inr v)"
proof
  assume "cz_deserialize_from alloc z T source = Inr v"
  then obtain h f r s where s: "24 \<le> length source" "length (take 24 source @ take s (drop 24 source)) = 24 + s"
    "cz_deserialize z T (take 24 source @ take s (drop 24 source)) = Inr v"
    by (auto simp: cz_deserialize_from_def read_exact_def rbind_eq_Inr Let_def split: if_splits)
  have "take 24 source @ take s (drop 24 source) = take (24 + s) source" by (simp add: take_add)
  then show "\<exists>n\<le>length source. cz_deserialize z T (take n source) = Inr v" using s by (intro exI[of _ "24 + s"]) simp
next
  assume "\<exists>n\<le>length source. cz_deserialize z T (take n source) = Inr v"
  then obtain n where n: "n \<le> length source" "cz_deserialize z T (take n source) = Inr v" by blast
  obtain h0 f r stored payload where h0: "h0 = take 24 (take n source)" "24 \<le> length (take n source)"
    "h0 = cz_header f r (length stored)" "cz_lengths_ok f r (length stored)" "r \<le> cz_bound z"
    and "stored = take (length stored) (drop 24 (take n source))" and "24 + length stored \<le> length (take n source)"
    and e: "c_trailing (zc_payload z) = Reject \<longrightarrow> length (take n source) = 24 + length stored"
    and "length payload = r" and "length payload \<le> 86 * length (take n source)"
    and "from_slice (zc_payload z) T payload = Inr v" and u: "24 + length stored \<le> usize_max"
    by (rule cz_deserialize_Inr[OF n(2)])
  note h = h0(2) h0(3)[unfolded h0(1)] h0(4,5) e[rule_format, OF assms(1)] u
  have t: "take 24 source = cz_header f r (length stored)" "n = 24 + length stored" using h(1,2,5) n(1) by simp_all
  have f: "take 24 source @ take (length stored) (drop 24 source) = take n source" by (simp add: t(2) take_add)
  have "24 + length stored < 2 ^ 63" using t(2) n(1) assms(2) by simp
  moreover have "cz_parse_header (take 24 source) = Inr (f, r, length stored)"
    unfolding t(1) by (rule cz_parse_header_header[OF h(3)])
  ultimately show "cz_deserialize_from alloc z T source = Inr v"
    using h(4,6) n assms(3) t(2) f
    by (simp add: cz_deserialize_from_def read_exact_def enforce_raw_limit_eq try_reserve_def)
qed

text \<open>
  No limit is not unlimited. With the byte limit switched off, every frame whose payload exceeds
  64 MiB is serialised and then refused on the way back.
\<close>

theorem compression_unlimited_refused:
  assumes "c_limit (zc_payload z) = None" and "cz_serialize alloc z evs = Inr frame"
    and "to_vec (zc_payload z) evs = Inr raw" and "DEFAULT_SIZE_LIMIT < length raw" and "length raw \<le> usize_max"
  shows "cz_deserialize z T frame = Inl (SizeLimit DEFAULT_SIZE_LIMIT)"
proof -
  obtain f stored where r: "frame = cz_header f (length raw) (length stored) @ stored"
    and f: "f = 0 \<and> stored = raw \<or> f = 1 \<and> length stored < length raw"
    using cz_serialize_Inr[OF assms(2)] assms(3) by auto
  have "cz_lengths_ok f (length raw) (length stored)" using f assms(5) by (auto simp: cz_lengths_ok_def)
  note p = cz_parse_header_header[OF this]
  have "slice 0 24 frame = Some (cz_header f (length raw) (length stored))"
    using slice_append[of "[]" "cz_header f (length raw) (length stored)" stored] by (simp add: r)
  then show ?thesis using assms(1,4) p by (simp add: cz_deserialize_def enforce_raw_limit_def)
qed

lemma deserialize_from_eq:
  assumes "length source \<le> usize_max"
  shows "deserialize_from cfg T source =
    (if within (c_limit cfg) (length source) then from_slice cfg T source else Inl (SizeLimit (the (c_limit cfg))))"
proof (cases "c_limit cfg")
  case None
  then show ?thesis using assms by (simp add: deserialize_from_def Let_def)
next
  case (Some l)
  then show ?thesis using assms by (cases "length source \<le> l") (auto simp: deserialize_from_def Let_def min_def)
qed

text \<open>A small frame for the witnesses.\<close>

abbreviation sample_z :: compressed_config where "sample_z \<equiv> cz_binary standard 3"
abbreviation sample_frame :: "byte list" where "sample_frame \<equiv> cz_header 0 1 1 @ [TAG_TRUE]"

lemma sample_z_simps: "zc_payload sample_z = standard" "zc_threshold sample_z = 256" "cz_bound sample_z = 67108864"
  "c_trailing standard = Reject" "c_limit standard = Some 67108864" "wire standard (JBool True) = [TAG_TRUE]"
  by (simp_all add: cz_binary_def DEFAULT_THRESHOLD_def cz_bound_def standard_def DEFAULT_SIZE_LIMIT_def)

lemma sample_to_vec: "to_vec standard (events True (JBool True)) = Inr [TAG_TRUE]"
  using to_vec_wire[OF reachable_config.standard, of True "JBool True" "[TAG_TRUE]"] by (simp add: sample_z_simps)

lemma sample_serialize: "cz_serialize (\<lambda>_. True) sample_z (events True (JBool True)) = Inr sample_frame"
  by (simp add: cz_serialize_def sample_z_simps sample_to_vec try_reserve_def del: events.simps)

lemma sample_deserialize: "cz_deserialize sample_z (client_value (self_describing standard) 1) sample_frame = Inr (JBool True)"
proof -
  have "frame_fits sample_z 1" by (simp add: frame_fits_def sample_z_simps)
  then have "cz_deserialize sample_z (client_value (self_describing standard) 1) (sample_frame @ []) = from_slice standard (client_value (self_describing standard) 1) [TAG_TRUE]"
    using cz_deserialize_serialized[OF sample_serialize, of "[TAG_TRUE]" "client_value (self_describing standard) 1" "[]"] sample_to_vec sample_z_simps(1)
    by (simp del: client_value.simps)
  also have "\<dots> = Inr (widened (JBool True))"
    using decode_encoded[OF reachable_config.standard client_reads sample_to_vec, of 1 "[]"] by (simp del: client_value.simps)
  finally show ?thesis by (simp del: client_value.simps)
qed


lemma compression_bounded_witness: "\<exists>payload. from_slice standard (client_value (self_describing standard) 1) payload = Inr (JBool True) \<and>
    length payload \<le> 67108864 \<and> length payload \<le> 86 * length sample_frame"
  using compression_bounded[OF sample_deserialize] by (simp only: sample_z_simps)

lemma compression_reader_witness:
  "cz_deserialize_from (\<lambda>_. True) sample_z (client_value (self_describing standard) 1) (sample_frame @ [7, 7]) = Inr (JBool True)"
proof -
  have "\<exists>n\<le>length (sample_frame @ [7, 7]). cz_deserialize sample_z (client_value (self_describing standard) 1) (take n (sample_frame @ [7, 7])) = Inr (JBool True)"
    using sample_deserialize by (intro exI[of _ 25]) simp
  then show ?thesis by (subst compression_reader) (simp_all add: sample_z_simps)
qed

lemma wire_nulls: "wire_elems cfg (replicate n JNull) = replicate n TAG_NULL" "admissible_elems lead cl (replicate n JNull)"
  "height_elems (replicate n JNull) = 0"
  by (induction n) simp_all

lemma compression_unlimited_refused_witness:
  "cz_deserialize (with_compression_threshold usize_max (cz_binary legacy 3)) (client_value (self_describing legacy) 1)
     (cz_header 0 67108867 67108867 @ TAG_ARRAY # replicate 67108865 TAG_NULL @ [TAG_END]) = Inl (SizeLimit DEFAULT_SIZE_LIMIT)"
proof -
  let ?z = "with_compression_threshold usize_max (cz_binary legacy 3)"
  let ?raw = "TAG_ARRAY # replicate 67108865 TAG_NULL @ [TAG_END]" and ?v = "JArr (replicate 67108865 JNull)"
  have z: "zc_payload ?z = legacy" "zc_threshold ?z = usize_max" "c_limit legacy = None" "c_collection_limit legacy = None"
    "c_depth_limit legacy = 128"
    by (simp_all add: with_compression_threshold_def cz_binary_def legacy_def MAX_DEPTH_def)
  have l: "length ?raw = 67108867" by (simp only: length_Cons length_append length_replicate list.size)
  have raw: "to_vec legacy (events True ?v) = Inr ?raw"
    using to_vec_wire[OF reachable_config.legacy, of True ?v ?raw] l z(3-5)
    by (simp add: wire_nulls del: events.simps)
  have "cz_serialize (\<lambda>_. True) ?z (events True ?v) = Inr (cz_header 0 67108867 67108867 @ ?raw)"
    unfolding cz_serialize_def z(1,2) raw using l by (simp add: try_reserve_def)
  from compression_unlimited_refused[OF _ this, of ?raw "client_value (self_describing legacy) 1"] show ?thesis
    using z(1,3) raw l by (simp add: DEFAULT_SIZE_LIMIT_def del: events.simps client_value.simps)
qed

end
