(* ===== verification/Rans.thy ===== *)
theory Rans
  imports RB_Prelude
begin

text \<open>
  \<^verbatim>\<open>src/rans.rs\<close>: static frequency models and the rANS coder. A state is the natural
  number of the 64-bit register, with the one operation that could drop bits, the shift of \<open>renorm\<close>,
  written out.
\<close>

section \<open>Constants\<close>

definition RANS_L :: nat where "RANS_L = 2 ^ 31"
definition RANS_M :: nat where "RANS_M = 2 ^ 15"
definition RANS_BASE_BITS :: nat where "RANS_BASE_BITS = 16"
definition RANS_EMIT_SHIFT :: nat where "RANS_EMIT_SHIFT = 32"

lemmas rans_consts = RANS_L_def RANS_M_def RANS_BASE_BITS_def RANS_EMIT_SHIFT_def

section \<open>Models\<close>

record rans_model =
  rm_symbols :: nat
  rm_freq :: "u16 list"
  rm_cum :: "u16 list"
  rm_slots :: "u16 list"

text \<open>The running sums; the first error wins.\<close>

fun cum_loop :: "u16 list \<Rightarrow> nat \<Rightarrow> error + nat list" where
  "cum_loop [] acc = Inr [acc]"
| "cum_loop (v # vs) acc =
    (if v = 0 then Inl (Entropy ''model frequency must be positive'')
     else let nxt = acc + unat v in
       if nxt > RANS_M then Inl (Entropy ''model frequencies exceed the total frequency mass'')
       else rmap ((#) acc) (cum_loop vs nxt))"

text \<open>\<open>slot_to_symbol[start..end].fill(symbol)\<close>.\<close>

definition fill_slots :: "nat list \<Rightarrow> nat \<Rightarrow> u16 list \<Rightarrow> u16 list" where
  "fill_slots cum symbol slots =
    take (cum ! symbol) slots @ replicate (cum ! (symbol + 1) - cum ! symbol) (of_nat symbol) @
    drop (cum ! (symbol + 1)) slots"

definition from_freqs :: "u16 list \<Rightarrow> error + rans_model" where
  "from_freqs freq =
    (if length freq = 0 then Inl (Entropy ''empty model frequency table'')
     else rbind (cum_loop freq 0) (\<lambda>cum.
       if last cum \<noteq> RANS_M then Inl (Entropy ''model frequencies must sum to the total frequency mass'')
       else Inr \<lparr> rm_symbols = length freq, rm_freq = freq, rm_cum = map of_nat cum,
         rm_slots = fold (fill_slots cum) [0..<length freq] (replicate RANS_M 0) \<rparr>))"

definition from_uniform :: "nat \<Rightarrow> error + rans_model" where
  "from_uniform symbols =
    (if symbols = 0 \<or> symbols > RANS_M then Inl (Entropy ''model alphabet must be in 1..=32768'')
     else let base = RANS_M div symbols; extra = RANS_M mod symbols in
       from_freqs (map (\<lambda>index. of_nat (base + (if index < extra then 1 else 0))) [0..<symbols]))"

text \<open>
  The two sorts are by a descending key with the index as tie-break: a stable sort of the indices.
\<close>

primrec reduce_loop :: "nat list \<Rightarrow> nat list \<Rightarrow> nat \<Rightarrow> nat list" where
  "reduce_loop [] freq excess = freq"
| "reduce_loop (index # order) freq excess =
    (if excess = 0 then freq
     else let reduce = min (freq ! index - 1) excess
       in reduce_loop order (freq[index := freq ! index - reduce]) (excess - reduce))"

definition from_weights :: "u32 list \<Rightarrow> error + rans_model" where
  "from_weights weights =
    (let symbols = length weights in
     if symbols = 0 \<or> symbols > RANS_M then Inl (Entropy ''model weights must contain 1..=32768 entries'')
     else let total = sum_list (map unat weights) in
       if total = 0 then Inl (Entropy ''model weights must be positive'')
       else let freq0 = map (\<lambda>w. max ((unat w * RANS_M) div total) 1) weights;
                sum0 = sum_list freq0;
                freq1 = (if sum0 > RANS_M
                  then reduce_loop (sort_key (\<lambda>i. - int (freq0 ! i)) [0..<symbols]) freq0 (sum0 - RANS_M)
                  else freq0);
                deficit = RANS_M - sum_list freq1;
                order = sort_key (\<lambda>i. - int ((unat (weights ! i) * RANS_M) mod total)) [0..<symbols];
                freq2 = fold (\<lambda>index freq. freq[index := freq ! index + 1]) (take deficit order) freq1
            in from_freqs (map of_nat freq2))"

definition rm_cum_of :: "rans_model \<Rightarrow> nat \<Rightarrow> nat" where
  "rm_cum_of model symbol = (if symbol \<ge> length (rm_cum model) then 0 else unat (rm_cum model ! symbol))"

definition rm_freq_of :: "rans_model \<Rightarrow> nat \<Rightarrow> nat" where
  "rm_freq_of model symbol = (if symbol \<ge> length (rm_freq model) then 0 else unat (rm_freq model ! symbol))"

definition symbol_for_slot :: "rans_model \<Rightarrow> nat \<Rightarrow> nat" where
  "symbol_for_slot model slot = unat (rm_slots model ! slot)"

section \<open>Encoder\<close>

record rans_encoder =
  re_state :: nat
  re_bytes :: "byte list"

definition encoder_init :: rans_encoder where
  "encoder_init = \<lparr> re_state = RANS_L, re_bytes = [] \<rparr>"

text \<open>The flush loop; it is entered with a positive frequency only.\<close>

function put_renorm :: "nat \<Rightarrow> rans_encoder \<Rightarrow> rans_encoder" where
  "put_renorm freq e =
    (if 0 < freq \<and> re_state e \<ge> freq * 2 ^ RANS_EMIT_SHIFT
     then put_renorm freq (e\<lparr>re_bytes := re_bytes e @ to_le_bytes (of_nat (re_state e) :: u16),
            re_state := re_state e div 2 ^ RANS_BASE_BITS\<rparr>)
     else e)"
  by pat_completeness auto
termination
  by (relation "measure (\<lambda>(_, e). re_state e)") (auto simp: rans_consts intro: div_less_dividend)

declare put_renorm.simps [simp del]

definition put_symbol :: "rans_model \<Rightarrow> nat \<Rightarrow> (rans_encoder, unit) op" where
  "put_symbol model symbol e0 =
    (let freq = rm_freq_of model symbol in
     if freq = 0 then (Inl (Entropy ''symbol outside the model alphabet''), e0)
     else let e = put_renorm freq e0;
              quotient = re_state e div freq;
              remainder = re_state e mod freq
          in (Inr (), e\<lparr>re_state := quotient * RANS_M + rm_cum_of model symbol + remainder\<rparr>))"

primrec put_symbols :: "(rans_model \<times> nat) list \<Rightarrow> (rans_encoder, unit) op" where
  "put_symbols [] = sret ()"
| "put_symbols (ms # rest) = sbind (put_symbol (fst ms) (snd ms)) (\<lambda>_. put_symbols rest)"

section \<open>Decoder\<close>

record rans_decoder =
  rd_state :: nat
  rd_bytes :: "byte list"
  rd_pos :: nat

definition decoder_init :: "nat \<Rightarrow> byte list \<Rightarrow> rans_decoder" where
  "decoder_init final_state payload = \<lparr> rd_state = final_state, rd_bytes = payload, rd_pos = length payload \<rparr>"

function renorm :: "(rans_decoder, unit) op" where
  "renorm d =
    (if rd_state d < RANS_L then
       (if rd_pos d < 2 then (Inl (Entropy ''truncated rANS payload''), d)
        else let pos = rd_pos d - 2;
                 word = unat (from_le_bytes [rd_bytes d ! pos, rd_bytes d ! (pos + 1)] :: u16)
             in renorm (d\<lparr>rd_pos := pos, rd_state := (rd_state d * 2 ^ RANS_BASE_BITS) mod 2 ^ 64 + word\<rparr>))
     else (Inr (), d))"
  by pat_completeness auto
termination by (relation "measure rd_pos") (auto simp: Let_def)

declare renorm.simps [simp del]

definition get_symbol :: "rans_model \<Rightarrow> (rans_decoder, nat) op" where
  "get_symbol model = sbind renorm (\<lambda>_ d.
    (let slot = rd_state d mod RANS_M;
         symbol = symbol_for_slot model slot;
         quotient = rd_state d div RANS_M
     in (Inr symbol, d\<lparr>rd_state := quotient * rm_freq_of model symbol + slot - rm_cum_of model symbol\<rparr>)))"

definition rd_finish :: "rans_decoder \<Rightarrow> error + unit" where
  "rd_finish d =
    (if rd_state d \<noteq> RANS_L then Inl (Entropy ''rANS final state did not verify'')
     else if rd_pos d \<noteq> 0 then Inl (Entropy ''trailing bytes in rANS payload'') else Inr ())"

primrec get_symbols :: "rans_model list \<Rightarrow> (rans_decoder, nat list) op" where
  "get_symbols [] = sret []"
| "get_symbols (model # models) = sbind (get_symbol model) (\<lambda>s. sbind (get_symbols models) (\<lambda>ss. sret (s # ss)))"

definition rans_encode :: "(rans_model \<times> nat) list \<Rightarrow> error + (nat \<times> byte list)" where
  "rans_encode ms = (case put_symbols ms encoder_init of
     (Inl e, _) \<Rightarrow> Inl e | (Inr _, e) \<Rightarrow> Inr (re_state e, re_bytes e))"

section \<open>Models of a schema\<close>

text \<open>What \<^verbatim>\<open>src/reflection.rs\<close> says of a type; the derive macro fills it in.\<close>

record field_info =
  fi_name :: string
  fi_type_name :: string
  fi_index :: nat
  fi_symbols :: nat

record variant_info =
  vi_name :: string
  vi_index :: nat
  vi_fields :: "field_info list"

datatype type_shape = Struct_Shape "field_info list" | Enum_Shape "variant_info list"

record field_model =
  fm_name :: string
  fm_model :: rans_model

definition uniform_or_bytes :: "nat \<Rightarrow> error + rans_model" where
  "uniform_or_bytes symbols =
    (case from_uniform symbols of
       Inr model \<Rightarrow> Inr model
     | Inl _ \<Rightarrow> (case from_uniform 256 of
         Inr model \<Rightarrow> Inr model | Inl _ \<Rightarrow> Inl (Panic ''byte alphabet is valid'')))"

definition model_for_field :: "field_info \<Rightarrow> error + rans_model" where
  "model_for_field field = uniform_or_bytes (if fi_symbols field = 0 then 256 else fi_symbols field)"

primrec field_models :: "field_info list \<Rightarrow> error + field_model list" where
  "field_models [] = Inr []"
| "field_models (f # fs) = rbind (model_for_field f) (\<lambda>model.
     rmap ((#) \<lparr> fm_name = fi_name f, fm_model = model \<rparr>) (field_models fs))"

text \<open>The variant count is cast to \<^verbatim>\<open>u32\<close>.\<close>

fun from_reflect :: "type_shape \<Rightarrow> error + field_model list" where
  "from_reflect (Struct_Shape fs) = field_models fs"
| "from_reflect (Enum_Shape variants) =
    rmap (\<lambda>model. [\<lparr> fm_name = ''variant'', fm_model = model \<rparr>]) (uniform_or_bytes (length variants mod 2 ^ 32))"

definition schema_models :: "field_model list \<Rightarrow> rans_model list" where
  "schema_models fs = map fm_model fs"

section \<open>Well-formed models\<close>

text \<open>
  The alphabet partitions the \<open>RANS_M\<close> slots: symbol \<open>s\<close> owns the interval of \<open>freq s\<close> slots from
  \<open>cum s\<close> on, and the lookup table maps each slot to its owner.
\<close>

definition rm_ok :: "rans_model \<Rightarrow> bool" where
  "rm_ok m \<longleftrightarrow>
    (\<forall>s. 0 < rm_freq_of m s \<longrightarrow> rm_cum_of m s + rm_freq_of m s \<le> RANS_M \<and>
       (\<forall>slot. rm_cum_of m s \<le> slot \<and> slot < rm_cum_of m s + rm_freq_of m s \<longrightarrow> symbol_for_slot m slot = s)) \<and>
    (\<forall>slot<RANS_M. let s = symbol_for_slot m slot in
       0 < rm_freq_of m s \<and> rm_cum_of m s \<le> slot \<and> slot < rm_cum_of m s + rm_freq_of m s)"

definition prefix_sum :: "u16 list \<Rightarrow> nat \<Rightarrow> nat" where
  "prefix_sum freq i = sum_list (map unat (take i freq))"

lemma prefix_sum_Suc: "i < length freq \<Longrightarrow> prefix_sum freq (Suc i) = prefix_sum freq i + unat (freq ! i)"
  by (simp add: prefix_sum_def take_Suc_conv_app_nth)

lemma prefix_sum_le: "prefix_sum freq i \<le> sum_list (map unat freq)"
  unfolding prefix_sum_def by (metis append_take_drop_id le_add1 map_append sum_list_append)

lemma prefix_sum_mono: "i \<le> j \<Longrightarrow> prefix_sum freq i \<le> prefix_sum freq j"
proof -
  assume "i \<le> j"
  then have "take i freq = take i (take j freq)" by (simp add: min_absorb1)
  then show ?thesis using prefix_sum_le[of "take j freq" i] by (simp add: prefix_sum_def)
qed

lemma cum_loop_Inr:
  "(\<exists>cum. cum_loop freq acc = Inr cum) \<longleftrightarrow>
     freq = [] \<or> ((\<forall>v\<in>set freq. v \<noteq> 0) \<and> acc + sum_list (map unat freq) \<le> RANS_M)"
proof (induction freq arbitrary: acc)
  case (Cons v vs)
  then show ?case by (auto simp: Let_def rmap_eq_Inr)
qed simp

lemma cum_loop_nth:
  "cum_loop freq acc = Inr cum \<Longrightarrow> cum = map (\<lambda>i. acc + prefix_sum freq i) [0..<Suc (length freq)]"
proof (induction freq arbitrary: acc cum)
  case (Cons v vs)
  then obtain c where c: "cum_loop vs (acc + unat v) = Inr c" "cum = acc # c"
    by (auto simp: Let_def rmap_eq_Inr split: if_splits)
  have "map (\<lambda>i. acc + prefix_sum (v # vs) i) [0..<Suc (length (v # vs))] =
      acc # map (\<lambda>i. acc + prefix_sum (v # vs) (Suc i)) [0..<Suc (length vs)]"
    by (simp add: upt_conv_Cons map_Suc_upt[symmetric] prefix_sum_def del: upt_Suc)
  then show ?case using Cons.IH[OF c(1)] c(2) by (simp add: prefix_sum_def add.assoc del: upt_Suc)
qed (simp add: prefix_sum_def)

lemma fill_slots_fold:
  assumes "\<forall>i<n. cum ! i \<le> cum ! Suc i" and "cum ! n \<le> RANS_M" and "k \<le> n"
  shows "length (fold (fill_slots cum) [0..<k] (replicate RANS_M 0)) = RANS_M \<and>
    (\<forall>s<k. \<forall>slot. cum ! s \<le> slot \<and> slot < cum ! Suc s \<longrightarrow>
       fold (fill_slots cum) [0..<k] (replicate RANS_M 0) ! slot = of_nat s)"
  using assms(3)
proof (induction k)
  case (Suc k)
  let ?t = "fold (fill_slots cum) [0..<k] (replicate RANS_M 0)"
  have mono: "cum ! i \<le> cum ! j" if "i \<le> j" "j \<le> n" for i j
    using that
  proof (induction j)
    case (Suc j)
    then show ?case using assms(1) by (cases "i = Suc j") (auto intro: order_trans)
  qed simp
  have c: "cum ! k \<le> cum ! Suc k" "cum ! Suc k \<le> RANS_M" using assms(1,2) Suc.prems mono[of "Suc k" n] by auto
  have t: "length ?t = RANS_M" using Suc by simp
  show ?case
  proof (intro conjI allI impI)
    show "length (fold (fill_slots cum) [0..<Suc k] (replicate RANS_M 0)) = RANS_M"
      using t c by (simp add: fill_slots_def)
    fix s slot assume s: "s < Suc k" and sl: "cum ! s \<le> slot \<and> slot < cum ! Suc s"
    show "fold (fill_slots cum) [0..<Suc k] (replicate RANS_M 0) ! slot = of_nat s"
    proof (cases "s = k")
      case True
      then have "cum ! k \<le> slot" "slot < cum ! Suc k" using sl by simp_all
      then have "slot - cum ! k < cum ! Suc k - cum ! k" by (rule diff_less_mono[rotated])
      then show ?thesis using t c sl True by (simp add: fill_slots_def nth_append)
    next
      case False
      then have "s < k" using s by simp
      then have "slot < cum ! k" "?t ! slot = of_nat s" using sl mono[of "Suc s" k] Suc by auto
      then show ?thesis using t c by (simp add: fill_slots_def nth_append)
    qed
  qed
qed simp

lemma slot_owner: "slot < prefix_sum freq n \<Longrightarrow> n \<le> length freq \<Longrightarrow> \<exists>s<n. prefix_sum freq s \<le> slot \<and> slot < prefix_sum freq (Suc s)"
proof (induction n)
  case (Suc n)
  then show ?case by (cases "slot < prefix_sum freq n") (auto simp: less_Suc_eq)
qed (simp add: prefix_sum_def)

lemma sum_list_positive: "(\<forall>v\<in>set vs. v \<noteq> (0 :: u16)) \<Longrightarrow> length vs \<le> sum_list (map unat vs)"
proof (induction vs)
  case (Cons v vs)
  then have "0 < unat v" by (simp add: unat_gt_0)
  then show ?case using Cons by simp
qed simp

lemma from_freqs_Inr:
  "(\<exists>m. from_freqs freq = Inr m) \<longleftrightarrow> freq \<noteq> [] \<and> (\<forall>v\<in>set freq. v \<noteq> 0) \<and> sum_list (map unat freq) = RANS_M"
proof (cases "freq = []")
  case False
  show ?thesis
  proof (cases "cum_loop freq 0")
    case (Inl e)
    then show ?thesis using False cum_loop_Inr[of freq 0] by (auto simp: from_freqs_def)
  next
    case (Inr cum)
    then have "last cum = sum_list (map unat freq)" using cum_loop_nth[OF Inr] by (simp add: prefix_sum_def)
    moreover have "\<forall>v\<in>set freq. v \<noteq> 0" using Inr cum_loop_Inr[of freq 0] False by auto
    ultimately show ?thesis using False Inr by (simp add: from_freqs_def)
  qed
qed (simp add: from_freqs_def)

lemma from_freqs_ok:
  assumes "from_freqs freq = Inr m"
  shows "rm_ok m \<and> rm_freq m = freq \<and> rm_symbols m = length freq"
proof -
  obtain cum where cum: "cum_loop freq 0 = Inr cum" and m: "m = \<lparr> rm_symbols = length freq, rm_freq = freq,
      rm_cum = map of_nat cum, rm_slots = fold (fill_slots cum) [0..<length freq] (replicate RANS_M 0) \<rparr>"
    using assms by (auto simp: from_freqs_def rbind_eq_Inr split: if_splits)
  have f: "freq \<noteq> []" "\<forall>v\<in>set freq. v \<noteq> 0" "sum_list (map unat freq) = RANS_M"
    using assms from_freqs_Inr[of freq] by auto
  have l: "length cum = Suc (length freq)" and c: "\<And>i. i \<le> length freq \<Longrightarrow> cum ! i = prefix_sum freq i"
    using cum_loop_nth[OF cum] by (simp_all del: upt_Suc)
  have n: "length freq \<le> RANS_M" using sum_list_positive[OF f(2)] f(3) by simp
  have F: "rm_freq_of m s = (if s < length freq then unat (freq ! s) else 0)" for s
    by (simp add: rm_freq_of_def m)
  have C: "rm_cum_of m s = prefix_sum freq s" if "s < length freq" for s
  proof -
    have "prefix_sum freq s < 2 ^ 16" using prefix_sum_le[of freq s] f(3) by (simp add: RANS_M_def)
    then show ?thesis using that l c[of s] by (simp add: rm_cum_of_def m unat_of_nat take_bit_nat_eq_self_iff)
  qed
  have S: "symbol_for_slot m slot = s" if "s < length freq" "prefix_sum freq s \<le> slot" "slot < prefix_sum freq (Suc s)" for s slot
  proof -
    have "\<forall>i<length freq. cum ! i \<le> cum ! Suc i" "cum ! length freq \<le> RANS_M"
      using c prefix_sum_mono[of _ _ freq] prefix_sum_le[of freq "length freq"] f(3) by simp_all
    from fill_slots_fold[OF this order.refl] have "rm_slots m ! slot = of_nat s"
      using that c[of s] c[of "Suc s"] by (auto simp: m)
    moreover have "s < 2 ^ 16" using that(1) n by (simp add: RANS_M_def)
    ultimately show ?thesis by (simp add: symbol_for_slot_def unat_of_nat take_bit_nat_eq_self_iff)
  qed
  have P: "prefix_sum freq (Suc s) \<le> RANS_M" for s using prefix_sum_le[of freq "Suc s"] f(3) by simp
  have T: "\<exists>s<length freq. prefix_sum freq s \<le> slot \<and> slot < prefix_sum freq (Suc s)" if "slot < RANS_M" for slot
    using slot_owner[of slot freq "length freq"] that f(3) by (simp add: prefix_sum_def)
  have pos: "0 < unat (freq ! s)" if "s < length freq" for s
    using f(2) that nth_mem[of s freq] by (simp add: unat_gt_0)
  have "rm_ok m"
    unfolding rm_ok_def
  proof (intro conjI allI impI)
    fix s assume "0 < rm_freq_of m s"
    then have s: "s < length freq" by (simp add: F split: if_splits)
    then have e: "rm_cum_of m s + rm_freq_of m s = prefix_sum freq (Suc s)" by (simp add: C F prefix_sum_Suc)
    then show "rm_cum_of m s + rm_freq_of m s \<le> RANS_M" using P by simp
    fix slot assume "rm_cum_of m s \<le> slot \<and> slot < rm_cum_of m s + rm_freq_of m s"
    then show "symbol_for_slot m slot = s" using S[OF s] e C[OF s] by simp
  next
    fix slot assume "slot < RANS_M"
    then obtain s where s: "s < length freq" "prefix_sum freq s \<le> slot" "slot < prefix_sum freq (Suc s)" using T by blast
    then show "let s = symbol_for_slot m slot in 0 < rm_freq_of m s \<and> rm_cum_of m s \<le> slot \<and> slot < rm_cum_of m s + rm_freq_of m s"
      using S[OF s] C[OF s(1)] pos[OF s(1)] by (simp add: F prefix_sum_Suc)
  qed
  then show ?thesis by (simp add: m)
qed

section \<open>One symbol\<close>

definition st_ok :: "nat \<Rightarrow> bool" where "st_ok x \<longleftrightarrow> 2 ^ 31 \<le> x \<and> x < 2 ^ 47"

text \<open>The state after the flush, before the symbol goes in.\<close>

definition mid_ok :: "nat \<Rightarrow> nat \<Rightarrow> bool" where "mid_ok f x \<longleftrightarrow> f * 2 ^ 16 \<le> x \<and> x < f * 2 ^ 32"

definition rans_push :: "nat \<Rightarrow> nat \<Rightarrow> nat \<Rightarrow> nat" where "rans_push f c x = x div f * RANS_M + c + x mod f"
definition rans_pop :: "nat \<Rightarrow> nat \<Rightarrow> nat \<Rightarrow> nat" where "rans_pop f c y = y div RANS_M * f + y mod RANS_M - c"

lemma rans_push_slot:
  assumes "0 < f" "c + f \<le> RANS_M"
  shows "rans_push f c x div RANS_M = x div f" and "rans_push f c x mod RANS_M = c + x mod f"
proof -
  have "c + x mod f < RANS_M" using assms mod_less_divisor[of f x] by linarith
  then show "rans_push f c x div RANS_M = x div f" "rans_push f c x mod RANS_M = c + x mod f"
    by (simp_all add: rans_push_def add.assoc)
qed

lemma rans_pop_push: "0 < f \<Longrightarrow> c + f \<le> RANS_M \<Longrightarrow> rans_pop f c (rans_push f c x) = x"
  by (simp add: rans_pop_def rans_push_slot)

lemma rans_push_pop:
  assumes "c \<le> y mod RANS_M" "y mod RANS_M < c + f"
  shows "rans_push f c (rans_pop f c y) = y"
proof -
  have r: "y mod RANS_M - c < f" and e: "rans_pop f c y = y div RANS_M * f + (y mod RANS_M - c)"
    using assms by (auto simp: rans_pop_def)
  have "rans_pop f c y div f = y div RANS_M" "rans_pop f c y mod f = y mod RANS_M - c"
    unfolding e using r by simp_all
  then show ?thesis using assms(1) by (simp add: rans_push_def add.assoc)
qed

lemma rans_push_ok:
  assumes "0 < f" "c + f \<le> RANS_M" "mid_ok f x" shows "st_ok (rans_push f c x)"
proof -
  have "2 ^ 16 \<le> x div f" using assms(1,3) by (simp add: mid_ok_def less_eq_div_iff_mult_less_eq mult.commute)
  moreover have "x div f < 2 ^ 32" using assms(1,3) by (simp add: mid_ok_def div_less_iff_less_mult mult.commute)
  moreover have "rans_push f c x = x div f * RANS_M + (c + x mod f)" by (simp add: rans_push_def)
  moreover have "c + x mod f < RANS_M" using assms mod_less_divisor[of f x] by linarith
  ultimately show ?thesis by (simp add: st_ok_def RANS_M_def)
qed

lemma rans_pop_ok:
  assumes "c \<le> y mod RANS_M" "y mod RANS_M < c + f" "st_ok y" shows "mid_ok f (rans_pop f c y)"
proof -
  have q: "2 ^ 16 \<le> y div RANS_M" "y div RANS_M < 2 ^ 32"
    using assms(3) by (auto simp: st_ok_def RANS_M_def)
  have e: "rans_pop f c y = y div RANS_M * f + (y mod RANS_M - c)" "y mod RANS_M - c < f"
    using assms by (auto simp: rans_pop_def)
  have "f * 2 ^ 16 \<le> y div RANS_M * f" using mult_le_mono1[OF q(1), of f] by (simp add: mult.commute)
  moreover have "(y div RANS_M + 1) * f \<le> 2 ^ 32 * f" using q(2) by (intro mult_le_mono1) simp
  then have "y div RANS_M * f + f \<le> f * 2 ^ 32" by (simp add: algebra_simps)
  ultimately show ?thesis using e unfolding mid_ok_def by linarith
qed

lemma put_renorm_stay: "re_state e < f * 2 ^ 32 \<Longrightarrow> put_renorm f e = e"
  by (simp add: put_renorm.simps[of f e] RANS_EMIT_SHIFT_def)

lemma put_renorm_flush:
  assumes "0 < f" "f * 2 ^ 32 \<le> re_state e" "re_state e < 2 ^ 47"
  shows "put_renorm f e = e\<lparr>re_bytes := re_bytes e @ to_le_bytes (of_nat (re_state e) :: u16), re_state := re_state e div 2 ^ 16\<rparr>"
proof -
  have "re_state e div 2 ^ 16 < 2 ^ 31" using assms(3) by simp
  moreover have "(2 :: nat) ^ 32 \<le> f * 2 ^ 32" using assms(1) by simp
  ultimately have "re_state e div 2 ^ 16 < f * 2 ^ 32" by simp
  then show ?thesis
    using assms(1,2) by (simp add: put_renorm.simps[of f e] put_renorm_stay RANS_EMIT_SHIFT_def RANS_BASE_BITS_def)
qed

lemma put_renorm_mid:
  assumes "0 < f" "f \<le> RANS_M" "st_ok (re_state e)" shows "mid_ok f (re_state (put_renorm f e))"
proof (cases "re_state e < f * 2 ^ 32")
  case True
  have "f * 2 ^ 16 \<le> 2 ^ 15 * 2 ^ 16" using assms(2) by (simp add: RANS_M_def)
  then have "f * 2 ^ 16 \<le> re_state e" using assms(3) by (simp add: st_ok_def)
  then show ?thesis using True by (simp add: put_renorm_stay mid_ok_def)
next
  case False
  then have "f * 2 ^ 16 \<le> re_state e div 2 ^ 16" by (simp add: less_eq_div_iff_mult_less_eq mult.assoc)
  moreover have "re_state e div 2 ^ 16 < f * 2 ^ 32"
    using assms by (simp add: st_ok_def div_less_iff_less_mult)
  ultimately show ?thesis
    using False assms by (simp add: put_renorm_flush st_ok_def mid_ok_def)
qed

text \<open>A decoder that stands where the encoder stood, in a payload that starts with the encoder's bytes.\<close>

definition dec_at :: "byte list \<Rightarrow> rans_encoder \<Rightarrow> rans_decoder" where
  "dec_at B e = \<lparr> rd_state = re_state e, rd_bytes = B, rd_pos = length (re_bytes e) \<rparr>"

lemma renorm_stay: "RANS_L \<le> rd_state d \<Longrightarrow> renorm d = (Inr (), d)"
  by (simp add: renorm.simps[of d])

lemma renorm_dec_at [simp]: "st_ok (re_state e) \<Longrightarrow> renorm (dec_at B e) = (Inr (), dec_at B e)"
  by (simp add: renorm_stay dec_at_def st_ok_def RANS_L_def)

lemma u16_of_nat: "unat (from_le_bytes (to_le_bytes (of_nat x :: u16)) :: u16) = x mod 2 ^ 16"
  by (simp add: unat_of_nat)

lemma renorm_refill:
  assumes "rd_state d < RANS_L" "2 ^ 15 \<le> rd_state d" "rd_pos d = n + 2"
  shows "renorm d = (Inr (), d\<lparr>rd_pos := n, rd_state := rd_state d * 2 ^ 16 +
    unat (from_le_bytes [rd_bytes d ! n, rd_bytes d ! (n + 1)] :: u16)\<rparr>)"
proof -
  have "rd_state d * 2 ^ 16 < 2 ^ 64" using assms(1) by (simp add: RANS_L_def)
  moreover have "RANS_L \<le> rd_state d * 2 ^ 16" using assms(2) by (simp add: RANS_L_def)
  ultimately show ?thesis
    using assms by (simp add: renorm.simps[of d] renorm_stay RANS_BASE_BITS_def Let_def)
qed

lemma renorm_put_renorm:
  assumes "0 < f" "f \<le> RANS_M" "st_ok (re_state e)" "take (length (re_bytes (put_renorm f e))) B = re_bytes (put_renorm f e)"
  shows "renorm (dec_at B (put_renorm f e)) = (Inr (), dec_at B e)"
proof (cases "re_state e < f * 2 ^ 32")
  case True
  then show ?thesis using assms by (simp add: put_renorm_stay)
next
  case False
  let ?w = "to_le_bytes (of_nat (re_state e) :: u16)"
  let ?n = "length (re_bytes e)"
  have p: "put_renorm f e = e\<lparr>re_bytes := re_bytes e @ ?w, re_state := re_state e div 2 ^ 16\<rparr>"
    using False assms by (intro put_renorm_flush) (auto simp: st_ok_def)
  have B: "take (?n + 2) B = re_bytes e @ ?w" using assms(4) p by simp
  then have "length (take (?n + 2) B) = ?n + 2" by simp
  then have l: "?n + 2 \<le> length B" by simp
  have w: "[B ! ?n, B ! (?n + 1)] = ?w"
  proof -
    have "take 2 (drop ?n B) = drop ?n (take (?n + 2) B)" by (simp add: drop_take)
    also have "\<dots> = ?w" using B by simp
    finally show ?thesis using l by (simp add: numeral_2_eq_2 take_Suc_conv_app_nth)
  qed
  let ?d = "dec_at B (put_renorm f e)"
  have s: "rd_state ?d = re_state e div 2 ^ 16" by (simp add: dec_at_def p)
  have pos: "rd_pos ?d = ?n + 2" by (simp add: dec_at_def p)
  have "2 ^ 16 \<le> re_state e div 2 ^ 16" using assms(1) False by (simp add: less_eq_div_iff_mult_less_eq)
  moreover have "re_state e div 2 ^ 16 < RANS_L" using assms(3) by (simp add: st_ok_def RANS_L_def div_less_iff_less_mult)
  ultimately have "renorm ?d = (Inr (), ?d\<lparr>rd_pos := ?n, rd_state := re_state e div 2 ^ 16 * 2 ^ 16 +
    unat (from_le_bytes [rd_bytes ?d ! ?n, rd_bytes ?d ! (?n + 1)] :: u16)\<rparr>)"
    using renorm_refill[of ?d ?n] s pos by simp
  moreover have "rd_bytes ?d = B" by (simp add: dec_at_def)
  ultimately show ?thesis unfolding w by (simp only: w u16_of_nat div_mult_mod_eq) (simp add: dec_at_def w)
qed

section \<open>Sequences\<close>

lemma rm_okD:
  assumes "rm_ok m" "0 < rm_freq_of m s"
  shows "rm_cum_of m s + rm_freq_of m s \<le> RANS_M" "rm_freq_of m s \<le> RANS_M"
    and "rm_cum_of m s \<le> slot \<Longrightarrow> slot < rm_cum_of m s + rm_freq_of m s \<Longrightarrow> symbol_for_slot m slot = s"
  using assms unfolding rm_ok_def by (auto intro: le_trans[OF le_add2])

lemma rm_ok_slot:
  assumes "rm_ok m"
  shows "0 < rm_freq_of m (symbol_for_slot m (y mod RANS_M))"
    "rm_cum_of m (symbol_for_slot m (y mod RANS_M)) \<le> y mod RANS_M"
    "y mod RANS_M < rm_cum_of m (symbol_for_slot m (y mod RANS_M)) + rm_freq_of m (symbol_for_slot m (y mod RANS_M))"
proof -
  have "y mod RANS_M < RANS_M" by (simp add: RANS_M_def)
  then show "0 < rm_freq_of m (symbol_for_slot m (y mod RANS_M))"
    "rm_cum_of m (symbol_for_slot m (y mod RANS_M)) \<le> y mod RANS_M"
    "y mod RANS_M < rm_cum_of m (symbol_for_slot m (y mod RANS_M)) + rm_freq_of m (symbol_for_slot m (y mod RANS_M))"
    using assms unfolding rm_ok_def Let_def by blast+
qed

lemma put_symbol_eq:
  "put_symbol m s e = (if rm_freq_of m s = 0 then (Inl (Entropy ''symbol outside the model alphabet''), e)
     else (Inr (), (put_renorm (rm_freq_of m s) e)
       \<lparr>re_state := rans_push (rm_freq_of m s) (rm_cum_of m s) (re_state (put_renorm (rm_freq_of m s) e))\<rparr>))"
  by (simp add: put_symbol_def Let_def rans_push_def)

lemma put_symbol_ok: "rm_ok m \<Longrightarrow> st_ok (re_state e) \<Longrightarrow> put_symbol m s e = (Inr (), e') \<Longrightarrow> st_ok (re_state e')"
  by (auto simp: put_symbol_eq rm_okD intro!: rans_push_ok put_renorm_mid split: if_splits)

lemma put_symbols_ok:
  "\<forall>ms\<in>set mss. rm_ok (fst ms) \<Longrightarrow> st_ok (re_state e) \<Longrightarrow> put_symbols mss e = (Inr (), e') \<Longrightarrow> st_ok (re_state e')"
  by (induction mss arbitrary: e) (auto simp: sbind_Inr dest: put_symbol_ok)

lemma put_renorm_bytes: "\<exists>w. re_bytes (put_renorm f e) = re_bytes e @ w"
proof (induction f e rule: put_renorm.induct)
  case (1 f e)
  then show ?case by (cases "0 < f \<and> re_state e \<ge> f * 2 ^ RANS_EMIT_SHIFT") (auto simp: put_renorm.simps[of f e])
qed

lemma put_symbol_bytes: "put_symbol m s e = (r, e') \<Longrightarrow> \<exists>w. re_bytes e' = re_bytes e @ w"
  using put_renorm_bytes[of "rm_freq_of m s" e] by (auto simp: put_symbol_eq split: if_splits)

lemma put_symbols_bytes: "put_symbols mss e = (r, e') \<Longrightarrow> \<exists>w. re_bytes e' = re_bytes e @ w"
proof (induction mss arbitrary: e)
  case (Cons ms mss)
  show ?case
  proof (cases rule: sbind_cases[of "put_symbol (fst ms) (snd ms)" e "\<lambda>_. put_symbols mss"])
    case (err x s')
    then show ?thesis using Cons.prems put_symbol_bytes[OF err(1)] by simp
  next
    case (ok x s')
    then show ?thesis using Cons.IH[of s'] Cons.prems put_symbol_bytes[OF ok(1)] by auto
  qed
qed auto

text \<open>The decoder undoes one put: it returns the symbol and stands at the flushed state.\<close>

lemma get_symbol_put:
  assumes "rm_ok m" "st_ok (re_state e)" "put_symbol m s e = (Inr (), e')"
  shows "get_symbol m (dec_at B e') = (Inr s, dec_at B (put_renorm (rm_freq_of m s) e))"
proof -
  let ?f = "rm_freq_of m s" and ?c = "rm_cum_of m s"
  let ?x = "put_renorm ?f e"
  have f: "0 < ?f" and e': "e' = ?x\<lparr>re_state := rans_push ?f ?c (re_state ?x)\<rparr>"
    using assms(3) by (auto simp: put_symbol_eq split: if_splits)
  note k = rm_okD(1,2)[OF assms(1) f]
  have "st_ok (re_state e')" using put_symbol_ok assms by blast
  then have r: "renorm (dec_at B e') = (Inr (), dec_at B e')" by simp
  let ?y = "re_state e'"
  have y: "?y div RANS_M = re_state ?x div ?f" "?y mod RANS_M = ?c + re_state ?x mod ?f"
    using rans_push_slot[OF f k(1)] by (simp_all add: e')
  have "symbol_for_slot m (?y mod RANS_M) = s"
    unfolding y(2) by (rule rm_okD(3)[OF assms(1) f]) (simp_all add: f)
  moreover have "?y div RANS_M * ?f + ?y mod RANS_M - ?c = re_state ?x"
    using div_mult_mod_eq[of "re_state ?x" ?f] by (simp add: y)
  ultimately show ?thesis
    using r by (simp add: get_symbol_def Let_def dec_at_def e')
qed

lemma get_symbols_append:
  "get_symbols (ms @ ms') = sbind (get_symbols ms) (\<lambda>ss. sbind (get_symbols ms') (\<lambda>ss'. sret (ss @ ss')))"
  by (induction ms) (auto simp: sbind_assoc sbind_def fun_eq_iff split: prod.split sum.split)

lemma get_symbol_renorm: "renorm d = (Inr (), d') \<Longrightarrow> renorm d' = (Inr (), d') \<Longrightarrow> get_symbol m d = get_symbol m d'"
  by (simp add: get_symbol_def)

lemma get_symbols_put:
  assumes "\<forall>ms\<in>set mss. rm_ok (fst ms)" "st_ok (re_state e)" "put_symbols mss e = (Inr (), e')"
    "take (length (re_bytes e')) B = re_bytes e'"
  shows "\<exists>d. get_symbols (rev (map fst mss)) (dec_at B e') = (Inr (rev (map snd mss)), d) \<and>
    renorm d = (Inr (), dec_at B e) \<and> (re_state e < 2 ^ 32 \<longrightarrow> d = dec_at B e)"
  using assms
proof (induction mss arbitrary: e)
  case Nil
  then show ?case by simp
next
  case (Cons ms mss)
  let ?m = "fst ms" and ?s = "snd ms"
  let ?x = "put_renorm (rm_freq_of ?m ?s) e"
  obtain e1 where e1: "put_symbol ?m ?s e = (Inr (), e1)" "put_symbols mss e1 = (Inr (), e')"
    using Cons.prems(3) by (auto simp: sbind_Inr)
  have f: "0 < rm_freq_of ?m ?s" using e1(1) by (auto simp: put_symbol_eq split: if_splits)
  have m: "rm_ok ?m" and st: "st_ok (re_state e1)" using Cons.prems put_symbol_ok[OF _ _ e1(1)] by auto
  obtain d1 where d1: "get_symbols (rev (map fst mss)) (dec_at B e') = (Inr (rev (map snd mss)), d1)"
    "renorm d1 = (Inr (), dec_at B e1)"
    using Cons.IH[OF _ st e1(2) Cons.prems(4)] Cons.prems(1) by auto
  have g: "get_symbol ?m d1 = (Inr ?s, dec_at B ?x)"
    using get_symbol_renorm[OF d1(2)] get_symbol_put[OF m Cons.prems(2) e1(1)] st by simp
  have p: "take (length (re_bytes ?x)) B = re_bytes ?x"
  proof -
    have "re_bytes ?x = re_bytes e1" using e1(1) f by (auto simp: put_symbol_eq)
    then obtain w where w: "re_bytes e' = re_bytes ?x @ w" using put_symbols_bytes[OF e1(2)] by auto
    have "take (length (re_bytes ?x)) (take (length (re_bytes e')) B) = re_bytes ?x"
      by (subst Cons.prems(4)) (simp add: w)
    moreover have "length (re_bytes ?x) \<le> length (re_bytes e')" using w by simp
    ultimately show ?thesis by (metis min_absorb1 take_take)
  qed
  have "renorm (dec_at B ?x) = (Inr (), dec_at B e)"
    using renorm_put_renorm[OF f rm_okD(2)[OF m f] Cons.prems(2) p] .
  moreover have "?x = e" if "re_state e < 2 ^ 32"
    using that f by (intro put_renorm_stay) (simp add: less_le_trans[OF that])
  ultimately show ?case using d1 g by (auto simp: get_symbols_append)
qed

lemma encoder_init_ok [simp]: "st_ok (re_state encoder_init)" by (simp add: st_ok_def encoder_init_def RANS_L_def)

lemma rans_encode_Inr:
  "rans_encode mss = Inr (x, B) \<longleftrightarrow> put_symbols mss encoder_init = (Inr (), \<lparr> re_state = x, re_bytes = B \<rparr>)"
  by (auto simp: rans_encode_def split: prod.split sum.split)

lemma rans_encode_total: "(\<exists>r. rans_encode mss = Inr r) \<longleftrightarrow> (\<forall>ms\<in>set mss. 0 < rm_freq_of (fst ms) (snd ms))"
proof -
  have "(\<exists>e'. put_symbols mss e = (Inr (), e')) \<longleftrightarrow> (\<forall>ms\<in>set mss. 0 < rm_freq_of (fst ms) (snd ms))" for e
    by (induction mss arbitrary: e) (auto simp: sbind_Inr put_symbol_eq)
  moreover have "(\<exists>r. rans_encode mss = Inr r) \<longleftrightarrow> (\<exists>e'. put_symbols mss encoder_init = (Inr (), e'))"
    by (auto simp: rans_encode_def split: prod.split sum.split)
  ultimately show ?thesis by simp
qed

text \<open>The coder alone: decoding returns the symbols, and the final checks pass.\<close>

lemma rans_decode_encode:
  assumes "\<forall>ms\<in>set mss. rm_ok (fst ms)" "rans_encode mss = Inr (x, B)"
  shows "get_symbols (rev (map fst mss)) (decoder_init x B) = (Inr (rev (map snd mss)), \<lparr> rd_state = RANS_L, rd_bytes = B, rd_pos = 0 \<rparr>)"
proof -
  let ?e = "\<lparr> re_state = x, re_bytes = B \<rparr>"
  have "put_symbols mss encoder_init = (Inr (), ?e)" using assms(2) by (simp add: rans_encode_Inr)
  from get_symbols_put[OF assms(1) encoder_init_ok this, of B]
  have "get_symbols (rev (map fst mss)) (dec_at B ?e) = (Inr (rev (map snd mss)), dec_at B encoder_init)"
    by (auto simp: encoder_init_def RANS_L_def)
  then show ?thesis by (simp add: dec_at_def decoder_init_def encoder_init_def)
qed

section \<open>What decodes is what the encoder emits\<close>

definition enc_of :: "rans_decoder \<Rightarrow> rans_encoder" where
  "enc_of d = \<lparr> re_state = rd_state d, re_bytes = take (rd_pos d) (rd_bytes d) \<rparr>"

definition rd_wf :: "rans_decoder \<Rightarrow> bool" where
  "rd_wf d \<longleftrightarrow> rd_pos d \<le> length (rd_bytes d) \<and> st_ok (rd_state d)"

lemma get_symbol_eq:
  assumes "renorm d = (Inr (), d)"
  shows "get_symbol m d = (let s = symbol_for_slot m (rd_state d mod RANS_M)
    in (Inr s, d\<lparr>rd_state := rans_pop (rm_freq_of m s) (rm_cum_of m s) (rd_state d)\<rparr>))"
  using assms by (simp add: get_symbol_def rans_pop_def Let_def)

lemma refill_put_renorm:
  assumes "0 < f" "f \<le> RANS_M" "mid_ok f (rd_state d)" "renorm d = (Inr (), d')" "rd_pos d \<le> length (rd_bytes d)"
  shows "rd_wf d' \<and> put_renorm f (enc_of d') = enc_of d"
proof (cases "RANS_L \<le> rd_state d")
  case True
  have "f * 2 ^ 32 \<le> 2 ^ 15 * 2 ^ 32" using assms(2) by (intro mult_le_mono1) (simp add: RANS_M_def)
  then have "rd_state d < 2 ^ 47" using assms(3) by (simp add: mid_ok_def)
  moreover have "d' = d" using True assms(4) by (simp add: renorm_stay)
  ultimately show ?thesis
    using True assms by (simp add: rd_wf_def st_ok_def RANS_L_def put_renorm_stay enc_of_def mid_ok_def)
next
  case False
  have f16: "(2 :: nat) ^ 16 \<le> f * 2 ^ 16" using assms(1) by simp
  also have "\<dots> \<le> rd_state d" using assms(3) by (simp add: mid_ok_def)
  finally have lo: "2 ^ 16 \<le> rd_state d" .
  have "2 \<le> rd_pos d" using assms(4) False by (simp add: renorm.simps[of d] split: if_splits)
  then obtain n where n: "rd_pos d = n + 2" by (metis add.commute le_Suc_ex)
  let ?b = "[rd_bytes d ! n, rd_bytes d ! (n + 1)]"
  let ?w = "unat (from_le_bytes ?b :: u16)"
  let ?x = "rd_state d * 2 ^ 16 + ?w"
  have w: "?w < 2 ^ 16" using unsigned_less[of "from_le_bytes ?b :: u16", where ?'a = nat] by simp
  have d': "d' = d\<lparr>rd_pos := n, rd_state := ?x\<rparr>"
    using renorm_refill[of d n] False lo n assms(4) by simp
  have "rd_state d + 1 \<le> 2 ^ 31" using False by (simp add: RANS_L_def)
  then have "(rd_state d + 1) * 2 ^ 16 \<le> 2 ^ 31 * 2 ^ 16" by (rule mult_le_mono1)
  then have hi: "?x < 2 ^ 47" using w by simp
  have "2 ^ 16 * 2 ^ 16 \<le> rd_state d * 2 ^ 16" using lo by (rule mult_le_mono1)
  then have "st_ok ?x" using hi by (simp add: st_ok_def)
  then have wf: "rd_wf d'" using assms(5) n by (simp add: rd_wf_def d')
  have "f * 2 ^ 16 * 2 ^ 16 \<le> rd_state d * 2 ^ 16" using assms(3) by (intro mult_le_mono1) (simp add: mid_ok_def)
  then have "f * 2 ^ 32 \<le> ?x" by simp
  then have p: "put_renorm f (enc_of d') = (enc_of d')\<lparr>re_bytes := re_bytes (enc_of d') @ to_le_bytes (of_nat ?x :: u16), re_state := ?x div 2 ^ 16\<rparr>"
    using put_renorm_flush[of f "enc_of d'"] assms(1) hi by (simp add: enc_of_def d')
  have "(of_nat ?x :: u16) = from_le_bytes ?b"
    using w by (simp only: word_unat_eq_iff unat_of_nat) (simp add: take_bit_nat_def)
  then have "to_le_bytes (of_nat ?x :: u16) = ?b" by (simp add: to_from_le_bytes)
  moreover have "take (n + 2) (rd_bytes d) = take n (rd_bytes d) @ ?b"
    using n assms(5) by (simp add: numeral_2_eq_2 take_Suc_conv_app_nth)
  moreover have "?x div 2 ^ 16 = rd_state d" using w by simp
  ultimately have "put_renorm f (enc_of d') = enc_of d" unfolding p by (simp only: n) (simp add: enc_of_def d' n)
  then show ?thesis using wf by simp
qed

lemma put_get_symbol:
  assumes "rm_ok m" "rd_wf d" "get_symbol m d = (Inr s, d1)" "renorm d1 = (Inr (), d2)"
  shows "rd_wf d2 \<and> put_symbol m s (enc_of d2) = (Inr (), enc_of d)"
proof -
  let ?y = "rd_state d"
  have r: "renorm d = (Inr (), d)" using assms(2) by (simp add: renorm_stay rd_wf_def st_ok_def RANS_L_def)
  let ?f = "rm_freq_of m s" and ?c = "rm_cum_of m s"
  have s: "s = symbol_for_slot m (?y mod RANS_M)" and d1: "d1 = d\<lparr>rd_state := rans_pop ?f ?c ?y\<rparr>"
    using assms(3) get_symbol_eq[OF r, of m] by (auto simp: Let_def)
  have f: "0 < ?f" and c: "?c \<le> ?y mod RANS_M" "?y mod RANS_M < ?c + ?f"
    using rm_ok_slot[OF assms(1), of ?y] s by auto
  have "mid_ok ?f (rd_state d1)" using rans_pop_ok[OF c] assms(2) by (simp add: d1 rd_wf_def)
  from refill_put_renorm[OF f rm_okD(2)[OF assms(1) f] this assms(4)]
  have "rd_wf d2" and p: "put_renorm ?f (enc_of d2) = enc_of d1" using assms(2) by (auto simp: d1 rd_wf_def)
  moreover have "(enc_of d1)\<lparr>re_state := rans_push ?f ?c (re_state (enc_of d1))\<rparr> = enc_of d"
    using rans_push_pop[OF c] by (simp add: enc_of_def d1)
  ultimately show ?thesis using f by (simp add: put_symbol_eq)
qed

lemma put_symbols_append: "put_symbols (xs @ ys) = sbind (put_symbols xs) (\<lambda>_. put_symbols ys)"
  by (induction xs) (auto simp: sbind_assoc sbind_def fun_eq_iff split: prod.split sum.split)

lemma rd_finish_Inr: "rd_finish d = Inr u \<longleftrightarrow> rd_state d = RANS_L \<and> rd_pos d = 0"
  by (simp add: rd_finish_def)

lemma get_symbols_renorm:
  assumes "get_symbols models d = (Inr ss, d')" "rd_finish d' = Inr ()"
  shows "\<exists>d2. renorm d = (Inr (), d2)"
proof (cases models)
  case Nil
  then show ?thesis using assms by (simp add: renorm_stay rd_finish_Inr)
next
  case (Cons m ms)
  then show ?thesis using assms by (auto simp: sbind_Inr get_symbol_def)
qed

lemma renorm_idem: "renorm d = (Inr (), d') \<Longrightarrow> renorm d' = (Inr (), d')"
proof (induction d rule: renorm.induct)
  case (1 d)
  show ?case
  proof (cases "rd_state d < RANS_L")
    case True
    then show ?thesis using 1 by (simp add: renorm.simps[of d] Let_def split: if_splits)
  next
    case False
    then show ?thesis using "1.prems" by (simp add: renorm_stay)
  qed
qed

lemma put_get_symbols:
  assumes "\<forall>m\<in>set models. rm_ok m" "get_symbols models d = (Inr ss, d')" "rd_finish d' = Inr ()"
    "renorm d = (Inr (), d2)" "rd_wf d2"
  shows "put_symbols (rev (zip models ss)) encoder_init = (Inr (), enc_of d2)"
  using assms
proof (induction models arbitrary: d d2 ss)
  case Nil
  then have "d' = d" "rd_state d = RANS_L" "rd_pos d = 0" by (auto simp: rd_finish_Inr)
  moreover have "d2 = d" using Nil(4) calculation by (simp add: renorm_stay)
  ultimately show ?case by (simp add: encoder_init_def enc_of_def)
next
  case (Cons m models)
  obtain s d1 ss' where s: "get_symbol m d = (Inr s, d1)" "get_symbols models d1 = (Inr ss', d')" "ss = s # ss'"
    using Cons.prems(2) by (auto simp: sbind_Inr)
  obtain d3 where d3: "renorm d1 = (Inr (), d3)" using get_symbols_renorm[OF s(2) Cons.prems(3)] by blast
  have "get_symbol m d2 = (Inr s, d1)"
    using get_symbol_renorm[OF Cons.prems(4) renorm_idem[OF Cons.prems(4)]] s(1) by simp
  from put_get_symbol[OF _ Cons.prems(5) this d3]
  have p: "rd_wf d3" "put_symbol m s (enc_of d3) = (Inr (), enc_of d2)" using Cons.prems(1) by auto
  have "put_symbols (rev (zip models ss')) encoder_init = (Inr (), enc_of d3)"
    using Cons.IH[OF _ s(2) Cons.prems(3) d3 p(1)] Cons.prems(1) by simp
  then show ?case using p(2) by (simp add: s(3) put_symbols_append)
qed

lemma length_get_symbols: "get_symbols models d = (Inr ss, d') \<Longrightarrow> length ss = length models"
  by (induction models arbitrary: d ss) (auto simp: sbind_Inr)

lemma rans_encode_decode:
  assumes "\<forall>m\<in>set models. rm_ok m" "st_ok x"
    "get_symbols (rev models) (decoder_init x B) = (Inr ss, d')" "rd_finish d' = Inr ()"
  shows "rans_encode (zip models (rev ss)) = Inr (x, B)"
proof -
  let ?d = "decoder_init x B"
  have wf: "rd_wf ?d" using assms(2) by (simp add: rd_wf_def decoder_init_def)
  then have "renorm ?d = (Inr (), ?d)" by (simp add: renorm_stay rd_wf_def st_ok_def RANS_L_def)
  from put_get_symbols[OF _ assms(3,4) this wf] assms(1)
  have "put_symbols (rev (zip (rev models) ss)) encoder_init = (Inr (), enc_of ?d)" by simp
  moreover have "rev (zip (rev models) ss) = zip models (rev ss)"
    using length_get_symbols[OF assms(3)] by (simp add: zip_rev[symmetric])
  ultimately show ?thesis by (simp add: rans_encode_Inr enc_of_def decoder_init_def)
qed

section \<open>The two model constructors are total\<close>

lemma sum_list_update_nat: "i < length xs \<Longrightarrow> sum_list (xs[i := v :: nat]) + xs ! i = sum_list xs + v"
proof -
  assume i: "i < length xs"
  have "xs ! i \<le> sum_list xs" using i by (simp add: elem_le_sum_list)
  then show ?thesis using i sum_list_update[of i xs v] by simp
qed

lemma from_freqs_nat:
  assumes "freq \<noteq> []" "\<forall>v\<in>set freq. 0 < v" "sum_list freq = RANS_M"
  shows "\<exists>m. from_freqs (map of_nat freq) = Inr m \<and> rm_ok m \<and> rm_symbols m = length freq \<and>
    (\<forall>s<length freq. rm_freq_of m s = freq ! s)"
proof -
  have u: "unat (of_nat v :: u16) = v" if "v \<in> set freq" for v
  proof -
    have "v \<le> 2 ^ 15" using member_le_sum_list[OF that] assms(3) by (simp add: RANS_M_def)
    then show ?thesis by (simp add: unat_of_nat take_bit_nat_eq_self_iff)
  qed
  have "map (unat \<circ> (of_nat :: nat \<Rightarrow> u16)) freq = freq" using u by (simp add: map_idI)
  moreover have "\<forall>v\<in>set (map of_nat freq). v \<noteq> (0 :: u16)"
  proof
    fix v :: u16 assume "v \<in> set (map of_nat freq)"
    then obtain k where k: "k \<in> set freq" "v = of_nat k" by auto
    then show "v \<noteq> 0" using u[OF k(1)] assms(2) by (metis less_irrefl unsigned_0)
  qed
  ultimately obtain m where m: "from_freqs (map of_nat freq) = Inr m"
    using from_freqs_Inr[of "map of_nat freq"] assms by auto
  have "rm_freq_of m s = freq ! s" if "s < length freq" for s
    using from_freqs_ok[OF m] that u[OF nth_mem[OF that]] by (simp add: rm_freq_of_def)
  then show ?thesis using m from_freqs_ok[OF m] by auto
qed

lemma sum_ite_less: "(\<Sum>i\<leftarrow>[0..<n]. b + (if i < k then 1 else 0)) = n * b + min k (n :: nat)"
  by (induction n) auto

lemma from_uniform_ok:
  assumes "0 < n" "n \<le> RANS_M"
  shows "\<exists>m. from_uniform n = Inr m \<and> rm_ok m \<and> rm_symbols m = n \<and>
    (\<forall>s<n. rm_freq_of m s = RANS_M div n + (if s < RANS_M mod n then 1 else 0))"
proof -
  let ?f = "map (\<lambda>i. RANS_M div n + (if i < RANS_M mod n then 1 else 0)) [0..<n]"
  have "0 < RANS_M div n" using assms by (simp add: div_greater_zero_iff)
  then have "\<forall>v\<in>set ?f. 0 < v" by auto
  moreover have "sum_list ?f = RANS_M"
    using assms(1) mod_less_divisor[OF assms(1), of RANS_M]
    by (simp only: sum_ite_less min_absorb1 less_imp_le mult_div_mod_eq)
  ultimately obtain m where "from_freqs (map of_nat ?f) = Inr m" "rm_ok m" "rm_symbols m = length ?f"
    "\<forall>s<length ?f. rm_freq_of m s = ?f ! s"
    using from_freqs_nat[of ?f] assms(1) by auto
  then show ?thesis using assms by (auto simp: from_uniform_def Let_def comp_def)
qed

subsection \<open>Scaling of weights\<close>

lemma reduce_loop_length [simp]: "length (reduce_loop order freq excess) = length freq"
  by (induction order arbitrary: freq excess) (auto simp: Let_def)

lemma reduce_loop_pos: "\<forall>v\<in>set freq. 0 < v \<Longrightarrow> \<forall>i\<in>set order. i < length freq \<Longrightarrow> \<forall>v\<in>set (reduce_loop order freq excess). 0 < v"
proof (induction order arbitrary: freq excess)
  case (Cons i order)
  let ?r = "min (freq ! i - 1) excess"
  have "0 < freq ! i" using Cons.prems by auto
  then have "0 < freq ! i - ?r" by linarith
  then have "\<forall>v\<in>set (freq[i := freq ! i - ?r]). 0 < v"
    using Cons.prems(1) set_update_subset_insert[of freq i "freq ! i - ?r"] by auto
  from Cons.IH[OF this, of "excess - ?r"] Cons.prems show ?case by (simp add: Let_def)
qed simp

lemma reduce_loop_sum:
  assumes "distinct order" "\<forall>i\<in>set order. i < length freq" "excess \<le> (\<Sum>i\<leftarrow>order. freq ! i - 1)"
  shows "sum_list (reduce_loop order freq excess) + excess = sum_list freq"
  using assms
proof (induction order arbitrary: freq excess)
  case (Cons i order)
  let ?r = "min (freq ! i - 1) excess"
  let ?f = "freq[i := freq ! i - ?r]"
  have same: "?f ! j = freq ! j" if "j \<in> set order" for j
    using that Cons.prems(1) by (metis distinct.simps(2) nth_list_update_neq)
  have m: "map (\<lambda>j. ?f ! j - 1) order = map (\<lambda>j. freq ! j - 1) order" by (intro map_cong refl) (simp only: same)
  have "excess \<le> freq ! i - 1 + (\<Sum>j\<leftarrow>order. freq ! j - 1)" using Cons.prems(3) by simp
  then have "excess - ?r \<le> (\<Sum>j\<leftarrow>order. ?f ! j - 1)" unfolding m by linarith
  then have "sum_list (reduce_loop order ?f (excess - ?r)) + (excess - ?r) = sum_list ?f"
    using Cons.prems by (intro Cons.IH) auto
  moreover have "sum_list ?f + freq ! i = sum_list freq + (freq ! i - ?r)" using Cons.prems(2) by (intro sum_list_update_nat) simp
  ultimately have "sum_list (reduce_loop order ?f (excess - ?r)) + excess = sum_list freq" by linarith
  then show ?case by (simp add: Let_def)
qed simp

lemma bump_fold:
  assumes "\<forall>i\<in>set order. i < length freq"
  shows "length (fold (\<lambda>i f. f[i := f ! i + 1]) order freq) = length freq \<and>
    sum_list (fold (\<lambda>i f. f[i := f ! i + 1]) order freq) = sum_list freq + length order \<and>
    ((\<forall>v\<in>set freq. 0 < v) \<longrightarrow> (\<forall>v\<in>set (fold (\<lambda>i f. f[i := f ! i + 1 :: nat]) order freq). 0 < v))"
  using assms
proof (induction order arbitrary: freq)
  case (Cons i order)
  let ?f = "freq[i := freq ! i + 1]"
  have "sum_list ?f + freq ! i = sum_list freq + (freq ! i + 1)" using Cons.prems by (intro sum_list_update_nat) simp
  moreover have "(\<forall>v\<in>set freq. 0 < v) \<longrightarrow> (\<forall>v\<in>set ?f. 0 < v)"
    using set_update_subset_insert[of freq i "freq ! i + 1"] by auto
  ultimately show ?case using Cons.IH[of ?f] Cons.prems by auto
qed simp

text \<open>The floored quotas lose less than one unit each.\<close>

lemma quota_sum:
  assumes "0 < T"
  shows "(\<Sum>w\<leftarrow>ws. (w * M) div T) * T \<le> sum_list ws * M"
    and "ws \<noteq> [] \<Longrightarrow> sum_list ws * M < ((\<Sum>w\<leftarrow>ws. (w * M) div T) + length ws) * (T :: nat)"
proof -
  show "(\<Sum>w\<leftarrow>ws. (w * M) div T) * T \<le> sum_list ws * M"
  proof (induction ws)
    case (Cons w ws)
    have "(w * M) div T * T \<le> w * M" by (rule div_times_less_eq_dividend)
    then show ?case using Cons by (simp only: list.map sum_list.Cons add_mult_distrib add_mono)
  qed simp
  have "sum_list ws * M + length ws \<le> ((\<Sum>w\<leftarrow>ws. (w * M) div T) + length ws) * T"
  proof (induction ws)
    case (Cons w ws)
    have "(w * M) div T * T + (w * M) mod T = w * M" by (rule div_mult_mod_eq)
    moreover have "(w * M) mod T < T" using assms by simp
    ultimately have "w * M + 1 \<le> (w * M) div T * T + T" by linarith
    then have "w * M + 1 \<le> ((w * M) div T + 1) * T" by simp
    then show ?case using Cons by (simp add: algebra_simps)
  qed simp
  moreover assume "ws \<noteq> []"
  ultimately show "sum_list ws * M < ((\<Sum>w\<leftarrow>ws. (w * M) div T) + length ws) * T"
    by (cases ws) auto
qed

lemma sum_floor_one: "sum_list (map (\<lambda>w. max (q w) 1) ws) \<le> sum_list (map q ws) + length ws"
  "sum_list (map q ws) \<le> sum_list (map (\<lambda>w. max (q w) (1 :: nat)) ws)"
  by (induction ws) auto

lemma sum_pred: "\<forall>v\<in>set xs. 0 < v \<Longrightarrow> (\<Sum>v\<leftarrow>xs. v - 1) + length xs = sum_list (xs :: nat list)"
  by (induction xs) auto

lemma sum_sort_key: "distinct xs \<Longrightarrow> sum_list (map g (sort_key k xs)) = (sum_list (map g xs) :: nat)"
  by (simp add: sum_list_distinct_conv_sum_set)

lemma from_weights_ok:
  assumes "ws \<noteq> []" "length ws \<le> RANS_M" "\<exists>w\<in>set ws. w \<noteq> 0"
  shows "\<exists>m. from_weights ws = Inr m \<and> rm_ok m \<and> rm_symbols m = length ws \<and> (\<forall>s<length ws. 0 < rm_freq_of m s)"
proof -
  let ?n = "length ws"
  define T where "T = sum_list (map unat ws)"
  obtain w0 where w0: "w0 \<in> set ws" "w0 \<noteq> 0" using assms(3) by blast
  have t: "0 < T"
  proof -
    have "unat w0 \<le> T" unfolding T_def using w0 by (intro member_le_sum_list) simp_all
    then show ?thesis using w0(2) unat_gt_0[of w0] by simp
  qed
  let ?q = "\<lambda>w :: u32. (unat w * RANS_M) div T"
  define f0 where "f0 = map (\<lambda>w. max (?q w) 1) ws"
  have l0: "length f0 = ?n" and p0: "\<forall>v\<in>set f0. 0 < v" by (auto simp: f0_def)
  define f1 where "f1 = (if sum_list f0 > RANS_M
    then reduce_loop (sort_key (\<lambda>i. - int (f0 ! i)) [0..<?n]) f0 (sum_list f0 - RANS_M) else f0)"
  define order where "order = sort_key (\<lambda>i. - int ((unat (ws ! i) * RANS_M) mod T)) [0..<?n]"
  define f2 where "f2 = fold (\<lambda>index freq. freq[index := freq ! index + 1]) (take (RANS_M - sum_list f1) order) f1"
  have q: "sum_list (map ?q ws) * T \<le> T * RANS_M" "T * RANS_M < (sum_list (map ?q ws) + ?n) * T"
    using quota_sum(1)[OF t, of RANS_M "map unat ws"] quota_sum(2)[OF t, of "map unat ws" RANS_M] assms(1)
    by (simp_all add: comp_def T_def[symmetric])
  have small: "RANS_M < sum_list (map ?q ws) + ?n" using q(2) t by (simp add: mult.commute)
  have f1: "length f1 = ?n" "\<forall>v\<in>set f1. 0 < v" "sum_list f1 \<le> RANS_M" "RANS_M - sum_list f1 \<le> ?n"
  proof -
    show "length f1 = ?n" by (simp add: f1_def l0)
    show "\<forall>v\<in>set f1. 0 < v" using p0 reduce_loop_pos[OF p0, of "sort_key _ [0..<?n]"] by (auto simp: f1_def l0)
    have "sum_list f1 = RANS_M" if big: "RANS_M < sum_list f0"
    proof -
      let ?o = "sort_key (\<lambda>i. - int (f0 ! i)) [0..<?n]"
      have "map ((!) f0) [0..<?n] = f0" using l0 map_nth[of f0] by simp
      then have "(\<Sum>i\<leftarrow>[0..<?n]. f0 ! i - 1) = (\<Sum>v\<leftarrow>f0. v - 1)" by (metis (no_types, lifting) map_eq_conv map_map comp_apply)
      then have "(\<Sum>i\<leftarrow>?o. f0 ! i - 1) + ?n = sum_list f0" using sum_pred[OF p0] l0 by (simp add: sum_sort_key)
      then have "sum_list f0 - RANS_M \<le> (\<Sum>i\<leftarrow>?o. f0 ! i - 1)" using assms(2) by linarith
      from reduce_loop_sum[OF _ _ this] l0 have "sum_list f1 + (sum_list f0 - RANS_M) = sum_list f0" using big by (simp add: f1_def)
      then show ?thesis using big by linarith
    qed
    then show "sum_list f1 \<le> RANS_M" by (cases "RANS_M < sum_list f0") (simp_all add: f1_def)
    have "sum_list (map ?q ws) \<le> sum_list f0" unfolding f0_def by (rule sum_floor_one(2))
    then show "RANS_M - sum_list f1 \<le> ?n"
      using small \<open>RANS_M < sum_list f0 \<Longrightarrow> sum_list f1 = RANS_M\<close>
      by (cases "RANS_M < sum_list f0") (simp_all add: f1_def)
  qed
  have "\<forall>i\<in>set (take (RANS_M - sum_list f1) order). i < length f1"
    using f1(1) by (auto simp: order_def dest: in_set_takeD)
  from bump_fold[OF this] f1 have f2: "length f2 = ?n" "sum_list f2 = RANS_M" "\<forall>v\<in>set f2. 0 < v"
    by (auto simp: f2_def order_def)
  have "f2 \<noteq> []" using f2(1) assms(1) by auto
  from from_freqs_nat[OF this f2(3,2)] obtain m where m: "from_freqs (map of_nat f2) = Inr m" "rm_ok m"
    "rm_symbols m = length f2" "\<forall>s<length f2. rm_freq_of m s = f2 ! s" by blast
  have "from_weights ws = from_freqs (map of_nat f2)"
  proof -
    have "sum_list (map unat ws) \<noteq> 0" using t T_def by linarith
    then have c: "(?n = 0 \<or> ?n > RANS_M) = False" "(sum_list (map unat ws) = 0) = False"
      using assms(1,2) by (simp_all only: simp_thms) auto
    show ?thesis unfolding f2_def f1_def f0_def order_def T_def from_weights_def Let_def c if_False ..
  qed
  then show ?thesis using m f2 by auto
qed

lemma from_weights_Inr:
  "(\<exists>m. from_weights ws = Inr m) \<longleftrightarrow> ws \<noteq> [] \<and> length ws \<le> RANS_M \<and> (\<exists>w\<in>set ws. w \<noteq> 0)"
proof
  assume "\<exists>m. from_weights ws = Inr m"
  then have "ws \<noteq> []" "length ws \<le> RANS_M" and "sum_list (map unat ws) \<noteq> 0"
    by (auto simp: from_weights_def Let_def split: if_splits)
  moreover have "sum_list (map unat ws) = 0" if "\<forall>w\<in>set ws. w = 0" using that by (induction ws) auto
  then have "\<exists>w\<in>set ws. w \<noteq> 0" using \<open>sum_list (map unat ws) \<noteq> 0\<close> by blast
  ultimately show "ws \<noteq> [] \<and> length ws \<le> RANS_M \<and> (\<exists>w\<in>set ws. w \<noteq> 0)" by blast
qed (use from_weights_ok in blast)

lemma uniform_or_bytes_ok:
  "\<exists>m. uniform_or_bytes n = Inr m \<and> rm_ok m \<and> rm_symbols m = (if 0 < n \<and> n \<le> RANS_M then n else 256)"
proof (cases "0 < n \<and> n \<le> RANS_M")
  case True
  then show ?thesis using from_uniform_ok[of n] by (auto simp: uniform_or_bytes_def)
next
  case False
  then have "\<exists>e. from_uniform n = Inl e" by (auto simp: from_uniform_def)
  then show ?thesis using False from_uniform_ok[of 256] by (auto simp: uniform_or_bytes_def RANS_M_def)
qed

text \<open>No schema makes the derivation panic, and every model of the result is well formed.\<close>

lemma field_models_ok:
  "\<exists>ms. field_models fs = Inr ms \<and> length ms = length fs \<and> (\<forall>m\<in>set (schema_models ms). rm_ok m)"
proof (induction fs)
  case (Cons f fs)
  obtain m where "model_for_field f = Inr m" "rm_ok m"
    using uniform_or_bytes_ok[of "if fi_symbols f = 0 then 256 else fi_symbols f"] by (auto simp: model_for_field_def)
  then show ?case using Cons by (auto simp: schema_models_def)
qed (simp add: schema_models_def)

lemma from_reflect_ok:
  "\<exists>ms. from_reflect shape = Inr ms \<and> (\<forall>m\<in>set (schema_models ms). rm_ok m)"
proof (cases shape)
  case (Struct_Shape fs)
  then show ?thesis using field_models_ok[of fs] by auto
next
  case (Enum_Shape variants)
  then show ?thesis using uniform_or_bytes_ok[of "length variants mod 2 ^ 32"] by (auto simp: schema_models_def)
qed

text \<open>A put flushes at most one word.\<close>

lemma put_renorm_length:
  assumes "0 < f" "st_ok (re_state e)" shows "length (re_bytes (put_renorm f e)) \<le> length (re_bytes e) + 2"
proof (cases "re_state e < f * 2 ^ 32")
  case True
  then show ?thesis by (simp add: put_renorm_stay)
next
  case False
  then show ?thesis using assms by (simp add: put_renorm_flush st_ok_def)
qed

lemma put_symbols_bound:
  "\<forall>ms\<in>set mss. rm_ok (fst ms) \<Longrightarrow> st_ok (re_state e) \<Longrightarrow> put_symbols mss e = (r, e') \<Longrightarrow>
   st_ok (re_state e') \<and> length (re_bytes e') \<le> length (re_bytes e) + 2 * length mss"
proof (induction mss arbitrary: e)
  case (Cons ms mss)
  show ?case
  proof (cases "rm_freq_of (fst ms) (snd ms) = 0")
    case True
    then show ?thesis using Cons.prems by (simp add: put_symbol_eq)
  next
    case False
    let ?e = "snd (put_symbol (fst ms) (snd ms) e)"
    have p: "put_symbol (fst ms) (snd ms) e = (Inr (), ?e)" using False by (simp add: put_symbol_eq)
    have "st_ok (re_state ?e)" using put_symbol_ok[OF _ Cons.prems(2) p] Cons.prems(1) by simp
    moreover have "length (re_bytes ?e) \<le> length (re_bytes e) + 2"
      using put_renorm_length[OF _ Cons.prems(2)] False by (simp add: put_symbol_eq)
    moreover have "put_symbols mss ?e = (r, e')" using Cons.prems(3) p by simp
    ultimately show ?thesis using Cons.IH[of ?e] Cons.prems(1) by fastforce
  qed
qed auto

lemma uniform_three: "\<exists>m. from_uniform 3 = Inr m \<and> rm_ok m \<and> (\<forall>s<3. 0 < rm_freq_of m s)"
  using from_uniform_ok[of 3] by (auto simp: RANS_M_def)

lemma three_encodes:
  assumes "\<forall>s<3. 0 < rm_freq_of m s" "\<forall>ms\<in>set mss. fst ms = m \<and> snd ms < 3"
  shows "\<exists>x B. rans_encode mss = Inr (x, B)"
  using rans_encode_total[of mss] assms by fastforce

text \<open>
  The invariant of the encoder. Over well-formed models the state stays in \<open>[2^31, 2^47)\<close>, and each
  symbol emits at most one 16-bit word, whatever the symbols, also when one of them is refused.
\<close>

theorem encoder_invariant:
  assumes "\<forall>ms\<in>set mss. rm_ok (fst ms)"
  shows "let e = snd (put_symbols mss encoder_init) in
    2 ^ 31 \<le> re_state e \<and> re_state e < 2 ^ 47 \<and> length (re_bytes e) \<le> 2 * length mss"
  using put_symbols_bound[OF assms encoder_init_ok surjective_pairing]
  by (simp add: Let_def st_ok_def encoder_init_def)

theorem encoder_invariant_witness:
  "\<exists>m. from_uniform 3 = Inr m \<and> 2 ^ 31 \<le> re_state (snd (put_symbols [(m, 1), (m, 7)] encoder_init))"
  using encoder_invariant[of "[(m, 1), (m, 7)]" for m] uniform_three by (auto simp: Let_def simp del: put_symbols.simps)

text \<open>
  The weighted models. \<open>from_weights\<close> builds a table for every list of 1 to 32768 weights that are
  not all zero, and every such table is well formed and gives each symbol, the ones of weight zero too, a
  positive frequency.
\<close>

theorem weights_total:
  "(case from_weights ws of
      Inl e \<Rightarrow> ws = [] \<or> RANS_M < length ws \<or> (\<forall>w\<in>set ws. w = 0)
    | Inr m \<Rightarrow> rm_ok m \<and> rm_symbols m = length ws \<and> (\<forall>s. 0 < rm_freq_of m s \<longleftrightarrow> s < length ws))"
proof (cases "from_weights ws")
  case (Inl e)
  then show ?thesis using from_weights_Inr[of ws] by auto
next
  case (Inr m)
  then have "ws \<noteq> []" "length ws \<le> RANS_M" "\<exists>w\<in>set ws. w \<noteq> 0" using from_weights_Inr[of ws] by auto
  from from_weights_ok[OF this] have m: "rm_ok m" "rm_symbols m = length ws" "\<forall>s<length ws. 0 < rm_freq_of m s"
    using Inr by auto
  have "rm_symbols m = length (rm_freq m)"
  proof -
    obtain f where "from_freqs f = Inr m" using Inr by (auto simp: from_weights_def Let_def split: if_splits)
    from from_freqs_ok[OF this] show ?thesis by simp
  qed
  then have "rm_freq_of m s = 0" if "\<not> s < length ws" for s using that m(2) by (simp add: rm_freq_of_def)
  then show ?thesis using m Inr by (auto intro: ccontr)
qed

theorem weights_total_witness:
  "\<exists>m. from_weights [0, 3] = Inr m \<and> rm_ok m \<and> rm_symbols m = 2 \<and> 0 < rm_freq_of m 0"
proof -
  obtain m where m: "from_weights [0, 3] = Inr m" using from_weights_Inr[of "[0, 3]"] by (auto simp: RANS_M_def)
  show ?thesis using weights_total[of "[0, 3]"] unfolding m by simp
qed

end
