(* ===== verification/Entropy.thy ===== *)
theory Entropy
  imports Rans Config Alloc Frames
begin

text \<open>
  The frame of \<^verbatim>\<open>src/rans.rs\<close>, \<^verbatim>\<open>EntropyConfig\<close>: sequences and byte buffers, coded or raw, with replay
  verification. The capacities the decoder requests from the count in a frame go through \<open>with_capacity\<close>.
\<close>

section \<open>The entropy frame\<close>

definition RB_MAGIC :: "byte list" where "RB_MAGIC = [0x52, 0x42, 0x41, 0x4E]"
definition RB_FORMAT_VERSION :: u16 where "RB_FORMAT_VERSION = 3"
definition FLAG_RAW :: u16 where "FLAG_RAW = 1"
definition RB_HEADER_LEN :: nat where "RB_HEADER_LEN = 24"

record entropy_config =
  ec_base :: config
  ec_replay_verification :: bool
  ec_raw_fallback :: bool

definition entropy_new :: "config \<Rightarrow> entropy_config" where
  "entropy_new base = \<lparr> ec_base = base, ec_replay_verification = True, ec_raw_fallback = True \<rparr>"

definition without_replay_verification :: "entropy_config \<Rightarrow> entropy_config" where
  "without_replay_verification ec = ec\<lparr>ec_replay_verification := False\<rparr>"

definition without_raw_fallback :: "entropy_config \<Rightarrow> entropy_config" where
  "without_raw_fallback ec = ec\<lparr>ec_raw_fallback := False\<rparr>"

definition check_replay :: "nat \<Rightarrow> byte list \<Rightarrow> nat \<Rightarrow> byte list \<Rightarrow> error + unit" where
  "check_replay state payload stored_state stored_payload =
    (if state \<noteq> stored_state \<or> payload \<noteq> stored_payload
     then Inl (Entropy ''entropy frame did not replay canonically'') else Inr ())"

definition ec_wrap :: "entropy_config \<Rightarrow> nat \<Rightarrow> nat \<Rightarrow> byte list \<Rightarrow> bool \<Rightarrow> error + byte list" where
  "ec_wrap ec final_state count payload raw =
    (let total = RB_HEADER_LEN + length payload in
     if total > usize_max then Inl (SizeLimit usize_max)
     else rmap (\<lambda>_. RB_MAGIC @ to_le_bytes RB_FORMAT_VERSION @ to_le_bytes (if raw then FLAG_RAW else 0) @
            to_le_bytes (of_nat count :: u64) @ to_le_bytes (of_nat (if raw then 0 else final_state) :: u64) @ payload)
          (check_limit (c_limit (ec_base ec)) total))"

definition ec_unwrap :: "entropy_config \<Rightarrow> byte list \<Rightarrow> error + (nat \<times> nat \<times> bool \<times> byte list)" where
  "ec_unwrap ec input =
    rbind (check_limit (c_limit (ec_base ec)) (length input)) (\<lambda>_.
    rbind (ok_or UnexpectedEnd (slice 0 RB_HEADER_LEN input)) (\<lambda>header.
      if take 4 header \<noteq> RB_MAGIC then Inl (InvalidFrame ''entropy magic does not match'')
      else if from_le_bytes [header ! 4, header ! 5] \<noteq> RB_FORMAT_VERSION
        then Inl (InvalidFrame ''unsupported entropy format version'')
      else let flags = from_le_bytes [header ! 6, header ! 7] in
        if flags AND NOT FLAG_RAW \<noteq> 0 then Inl (InvalidFrame ''unknown entropy frame flags'')
        else let count = unat (from_le_bytes (take 8 (drop 8 header)) :: u64);
                 final_state = unat (from_le_bytes (take 8 (drop 16 header)) :: u64) in
          if flags AND FLAG_RAW \<noteq> 0 \<and> final_state \<noteq> 0
            then Inl (InvalidFrame ''raw entropy frame has a non-zero state'')
          else Inr (count, final_state, flags AND FLAG_RAW \<noteq> 0, drop RB_HEADER_LEN input)))"

definition encode_sequence :: "entropy_config \<Rightarrow> rans_model list \<Rightarrow> nat list \<Rightarrow> error + byte list" where
  "encode_sequence ec models symbols =
    (if length models \<noteq> length symbols then Inl (Entropy ''models and symbols length mismatch'')
     else rbind (rans_encode (zip models symbols)) (\<lambda>(final_state, payload).
       ec_wrap ec final_state (length symbols) payload False))"

text \<open>\<^verbatim>\<open>chunks_exact(4)\<close> of a payload whose length is four times the count.\<close>

fun chunks4 :: "byte list \<Rightarrow> nat list" where
  "chunks4 (a # b # c # d # rest) = unat (from_le_bytes [a, b, c, d] :: u32) # chunks4 rest"
| "chunks4 _ = []"

definition decode_coded ::
  "entropy_config \<Rightarrow> rans_model list \<Rightarrow> nat \<Rightarrow> byte list \<Rightarrow> error + nat list" where
  "decode_coded ec models final_state payload =
    (case get_symbols (rev models) (decoder_init final_state payload) of
       (Inl e, _) \<Rightarrow> Inl e
     | (Inr out, d) \<Rightarrow> (let symbols = rev out in
         rbind (rd_finish d) (\<lambda>_.
         rbind (if ec_replay_verification ec
                then rbind (rans_encode (zip models symbols)) (\<lambda>(state, replay). check_replay state replay final_state payload)
                else Inr ()) (\<lambda>_. Inr symbols))))"

definition decode_sequence ::
  "(nat \<Rightarrow> bool) \<Rightarrow> entropy_config \<Rightarrow> rans_model list \<Rightarrow> byte list \<Rightarrow> error + nat list" where
  "decode_sequence alloc ec models input =
    rbind (ec_unwrap ec input) (\<lambda>(count, final_state, raw, payload).
      if count \<noteq> length models then Inl (Entropy ''entropy frame symbol count mismatch'')
      else if raw then
        (if count * 4 > usize_max then Inl (Entropy ''raw entropy frame length overflows'')
         else if length payload \<noteq> count * 4 then Inl (Entropy ''raw entropy frame length mismatch'')
         else rbind (with_capacity alloc (count * 4)) (\<lambda>_. Inr (chunks4 payload)))
      else rbind (with_capacity alloc (count * 4)) (\<lambda>_. decode_coded ec models final_state payload))"

definition entropy_compress :: "entropy_config \<Rightarrow> byte list \<Rightarrow> rans_model \<Rightarrow> error + byte list" where
  "entropy_compress ec input model =
    rbind (rans_encode (map (\<lambda>b. (model, unat b)) input)) (\<lambda>(final_state, coded).
      let raw = ec_raw_fallback ec \<and> length coded \<ge> length input;
          payload = (if raw then input else coded)
      in ec_wrap ec final_state (length input) payload raw)"

text \<open>The loop \<open>for _ in 0..count\<close>.\<close>

primrec get_bytes :: "nat \<Rightarrow> rans_model \<Rightarrow> (rans_decoder, byte list) op" where
  "get_bytes 0 model = sret []"
| "get_bytes (Suc n) model = sbind (get_symbol model) (\<lambda>symbol.
     if symbol > 255 then sfail (Entropy ''byte-alphabet rANS produced an out-of-range symbol'')
     else sbind (get_bytes n model) (\<lambda>bs. sret (of_nat symbol # bs)))"

definition entropy_decompress ::
  "(nat \<Rightarrow> bool) \<Rightarrow> entropy_config \<Rightarrow> byte list \<Rightarrow> rans_model \<Rightarrow> error + byte list" where
  "entropy_decompress alloc ec input model =
    rbind (ec_unwrap ec input) (\<lambda>(count, final_state, raw, payload).
      if raw then
        (if length payload \<noteq> count then Inl (Entropy ''raw entropy frame length mismatch'') else Inr payload)
      else rbind (with_capacity alloc count) (\<lambda>_.
        case get_bytes count model (decoder_init final_state payload) of
          (Inl e, _) \<Rightarrow> Inl e
        | (Inr out, d) \<Rightarrow> (let output = rev out in
            rbind (rd_finish d) (\<lambda>_.
            rbind (if ec_replay_verification ec
                   then rbind (rans_encode (map (\<lambda>b. (model, unat b)) output)) (\<lambda>(state, replay).
                     check_replay state replay final_state payload)
                   else Inr ()) (\<lambda>_. Inr output)))))"

section \<open>Coded payloads\<close>

lemma decode_coded_encode:
  assumes "length models = length symbols" "\<forall>m\<in>set models. rm_ok m" "rans_encode (zip models symbols) = Inr (x, B)"
  shows "decode_coded ec models x B = Inr symbols"
proof -
  have "\<forall>ms\<in>set (zip models symbols). rm_ok (fst ms)" using assms(2) by (auto dest: set_zip_leftD)
  from rans_decode_encode[OF this assms(3)] show ?thesis
    using assms by (simp add: decode_coded_def rd_finish_def check_replay_def)
qed



text \<open>The replay check on a successful decode is the range check of the final state.\<close>

lemma decode_coded_iff:
  assumes "\<forall>m\<in>set models. rm_ok m"
  shows "decode_coded ec models x B = Inr ss \<longleftrightarrow>
    decode_coded (without_replay_verification ec) models x B = Inr ss \<and> (ec_replay_verification ec \<longrightarrow> st_ok x)"
proof (cases "decode_coded (without_replay_verification ec) models x B = Inr ss")
  case True
  then obtain d out where g: "get_symbols (rev models) (decoder_init x B) = (Inr out, d)" "ss = rev out" "rd_finish d = Inr ()"
    by (auto simp: decode_coded_def without_replay_verification_def Let_def rbind_eq_Inr split: prod.splits sum.splits)
  have l: "length out = length models" using length_get_symbols[OF g(1)] by simp
  show ?thesis
  proof (cases "st_ok x")
    case True
    from rans_encode_decode[OF assms True g(1,3)] show ?thesis
      using g True \<open>decode_coded _ _ _ _ = _\<close> by (auto simp: decode_coded_def Let_def check_replay_def)
  next
    case False
    have "\<nexists>B'. rans_encode (zip models ss) = Inr (x, B')"
    proof
      assume "\<exists>B'. rans_encode (zip models ss) = Inr (x, B')"
      then obtain B' where "put_symbols (zip models ss) encoder_init = (Inr (), \<lparr> re_state = x, re_bytes = B' \<rparr>)"
        by (auto simp: rans_encode_Inr)
      moreover have "\<forall>ms\<in>set (zip models ss). rm_ok (fst ms)" using assms by (auto dest: set_zip_leftD)
      ultimately have "st_ok x" using put_symbols_ok[OF _ encoder_init_ok] by fastforce
      then show False using False by simp
    qed
    then show ?thesis
      using g False by (auto simp: decode_coded_def Let_def check_replay_def without_replay_verification_def
        rbind_eq_Inr split: prod.splits if_splits)
  qed
next
  case False
  then show ?thesis
    by (auto simp: decode_coded_def Let_def without_replay_verification_def rbind_eq_Inr split: prod.splits sum.splits)
qed

section \<open>Entropy frames\<close>

definition rb_header :: "nat \<Rightarrow> nat \<Rightarrow> bool \<Rightarrow> byte list" where
  "rb_header state count raw = RB_MAGIC @ to_le_bytes RB_FORMAT_VERSION @ to_le_bytes (if raw then FLAG_RAW else 0) @
    to_le_bytes (of_nat count :: u64) @ to_le_bytes (of_nat (if raw then 0 else state) :: u64)"

lemma length_rb_header [simp]: "length (rb_header state count raw) = 24"
  by (simp add: rb_header_def RB_MAGIC_def)

lemma ec_wrap_Inr:
  "ec_wrap ec state count payload raw = Inr frame \<longleftrightarrow>
    24 + length payload \<le> usize_max \<and> within (c_limit (ec_base ec)) (24 + length payload) \<and>
    frame = rb_header state count raw @ payload"
  by (auto simp: ec_wrap_def rb_header_def RB_HEADER_LEN_def rmap_eq_Inr Let_def)

lemma two_bytes: "length (w :: byte list) = 2 \<Longrightarrow> [w ! 0, w ! 1] = w"
  by (cases w; cases "tl w") auto

lemma rb_header_fields:
  "take 4 (rb_header x n raw) = RB_MAGIC"
  "[rb_header x n raw ! 4, rb_header x n raw ! 5] = to_le_bytes RB_FORMAT_VERSION"
  "[rb_header x n raw ! 6, rb_header x n raw ! 7] = to_le_bytes (if raw then FLAG_RAW else 0)"
  "take 8 (drop 8 (rb_header x n raw)) = to_le_bytes (of_nat n :: u64)"
  "take 8 (drop 16 (rb_header x n raw)) = to_le_bytes (of_nat (if raw then 0 else x) :: u64)"
  using two_bytes[of "to_le_bytes RB_FORMAT_VERSION"] two_bytes[of "to_le_bytes (if raw then FLAG_RAW else 0)"]
  by (simp_all add: rb_header_def RB_MAGIC_def nth_append)

lemma slice_prefix: "length h = n \<Longrightarrow> slice 0 n (h @ rest) = Some h"
  using slice_append[of "[]" h rest] by simp

lemma ec_unwrap_wrap:
  assumes "x \<le> usize_max" "n \<le> usize_max"
  shows "ec_unwrap ec (rb_header x n raw @ payload) =
    rbind (check_limit (c_limit (ec_base ec)) (24 + length payload)) (\<lambda>_. Inr (n, if raw then 0 else x, raw, payload))"
  using assms
  by (simp add: ec_unwrap_def RB_HEADER_LEN_def slice_prefix rb_header_fields Let_def unat_u64 FLAG_RAW_def)

lemma rans_encode_st_ok:
  assumes "\<forall>ms\<in>set mss. rm_ok (fst ms)" "rans_encode mss = Inr (x, B)" shows "st_ok x"
  using put_symbols_ok[OF assms(1) encoder_init_ok, of "\<lparr> re_state = x, re_bytes = B \<rparr>"] assms(2)
  by (simp add: rans_encode_Inr)

lemma zip_models: "\<forall>m\<in>set models. rm_ok m \<Longrightarrow> \<forall>ms\<in>set (zip models symbols). rm_ok (fst ms)"
  by (auto dest: set_zip_leftD)

lemma get_bytes_symbols:
  assumes "get_symbols (replicate n model) d = (Inr ss, d')" "\<forall>s\<in>set ss. s < 256"
  shows "get_bytes n model d = (Inr (map of_nat ss), d')"
  using assms
proof (induction n arbitrary: d ss)
  case (Suc n)
  then obtain s d1 ss' where s: "get_symbol model d = (Inr s, d1)" "get_symbols (replicate n model) d1 = (Inr ss', d')" "ss = s # ss'"
    by (auto simp: sbind_Inr)
  then have "get_bytes n model d1 = (Inr (map of_nat ss'), d')" "\<not> 255 < s" using Suc by auto
  then show ?case using s by (simp add: sbind_def)
qed simp

lemma entropy_decompress_coded:
  assumes "rm_ok model" "rans_encode (map (\<lambda>b. (model, unat b)) input) = Inr (x, B)" "length input \<le> 2 ^ 63 - 1"
    "alloc (length input)" "within (c_limit (ec_base ec)) (24 + length B)"
  shows "entropy_decompress alloc ec (rb_header x (length input) False @ B) model = Inr input"
proof -
  let ?mss = "map (\<lambda>b. (model, unat b)) input"
  have ok: "\<forall>ms\<in>set ?mss. rm_ok (fst ms)" using assms(1) by auto
  have "x \<le> usize_max" using rans_encode_st_ok[OF ok assms(2)] by (simp add: st_ok_def)
  then have u: "ec_unwrap ec (rb_header x (length input) False @ B) = Inr (length input, x, False, B)"
    using assms(3,5) by (simp add: ec_unwrap_wrap check_limit_if)
  have "rev (map fst ?mss) = replicate (length input) model" by (simp add: comp_def map_replicate_const rev_map[symmetric])
  then have "get_symbols (replicate (length input) model) (decoder_init x B) =
    (Inr (rev (map snd ?mss)), \<lparr> rd_state = RANS_L, rd_bytes = B, rd_pos = 0 \<rparr>)"
    using rans_decode_encode[OF ok assms(2)] by simp
  from get_bytes_symbols[OF this]
  have "get_bytes (length input) model (decoder_init x B) = (Inr (rev input), \<lparr> rd_state = RANS_L, rd_bytes = B, rd_pos = 0 \<rparr>)"
    by (simp add: comp_def rev_map[symmetric])
  then show ?thesis
    using u assms(2-4) by (simp add: entropy_decompress_def with_capacity_def Let_def rd_finish_def check_replay_def)
qed

text \<open>
  C18: the rANS coder is a bijection. For well-formed models, coding the symbols gives a state and payload
  exactly when decoding them, with no replay, gives the symbols back and the state is in
  \<open>[2^31, 2^47)\<close>.
\<close>

theorem rans_bijection:
  assumes "\<forall>m\<in>set models. rm_ok m"
  shows "length symbols = length models \<and> rans_encode (zip models symbols) = Inr (x, B) \<longleftrightarrow>
    decode_coded (without_replay_verification ec) models x B = Inr symbols \<and> st_ok x"
proof
  assume a: "length symbols = length models \<and> rans_encode (zip models symbols) = Inr (x, B)"
  then show "decode_coded (without_replay_verification ec) models x B = Inr symbols \<and> st_ok x"
    using decode_coded_encode[of models symbols x B] rans_encode_st_ok[OF zip_models[OF assms]] assms by auto
next
  assume a: "decode_coded (without_replay_verification ec) models x B = Inr symbols \<and> st_ok x"
  then obtain d out where g: "get_symbols (rev models) (decoder_init x B) = (Inr out, d)" "symbols = rev out" "rd_finish d = Inr ()"
    by (auto simp: decode_coded_def Let_def rbind_eq_Inr split: prod.splits sum.splits)
  then show "length symbols = length models \<and> rans_encode (zip models symbols) = Inr (x, B)"
    using rans_encode_decode[OF assms _ g(1,3)] a length_get_symbols[OF g(1)] by simp
qed

text \<open>
  What replay verification adds. A coded frame that decodes without it decodes to the same symbols
  with it, unless its final state lies outside \<open>[2^31, 2^47)\<close>; it finds no other substitution.
\<close>

theorem replay_checks_state:
  assumes "\<forall>m\<in>set models. rm_ok m"
  shows "decode_coded (entropy_new cfg) models x B = Inr symbols \<longleftrightarrow>
    decode_coded (without_replay_verification (entropy_new cfg)) models x B = Inr symbols \<and> st_ok x"
  using decode_coded_iff[OF assms, of "entropy_new cfg"] by (simp add: entropy_new_def)

text \<open>
  A sequence round-trips through its frame. Each symbol has its own model; the decoder with the same
  models, configuration and enough memory returns the sequence.
\<close>

theorem sequence_roundtrip:
  assumes "\<forall>m\<in>set models. rm_ok m" and "encode_sequence ec models symbols = Inr frame"
    and "length symbols * 4 \<le> 2 ^ 63 - 1" and "alloc (length symbols * 4)"
  shows "decode_sequence alloc ec models frame = Inr symbols"
proof -
  obtain x B where e: "length models = length symbols" "rans_encode (zip models symbols) = Inr (x, B)"
    "within (c_limit (ec_base ec)) (24 + length B)" "frame = rb_header x (length symbols) False @ B"
    using assms(2) by (auto simp: encode_sequence_def rbind_eq_Inr ec_wrap_Inr split: if_splits)
  have "x \<le> usize_max" using rans_encode_st_ok[OF zip_models[OF assms(1)] e(2)] by (simp add: st_ok_def)
  then have "ec_unwrap ec frame = Inr (length symbols, x, False, B)"
    using e assms(3) by (simp add: ec_unwrap_wrap check_limit_if)
  then show ?thesis
    using decode_coded_encode[OF e(1) assms(1) e(2)] e(1) assms(3,4) by (simp add: decode_sequence_def with_capacity_def)
qed

text \<open>
  Byte buffers round-trip, coded or stored raw, when the model covers the bytes of the input. With
  the raw fallback a frame is never longer than the input and its header.
\<close>

theorem bytes_roundtrip:
  assumes "rm_ok model" and "entropy_compress ec input model = Inr frame"
    and "length input \<le> 2 ^ 63 - 1" and "alloc (length input)"
  shows "entropy_decompress alloc ec frame model = Inr input \<and>
    (ec_raw_fallback ec \<longrightarrow> length frame \<le> 24 + length input)"
proof -
  obtain x B where e: "rans_encode (map (\<lambda>b. (model, unat b)) input) = Inr (x, B)"
    and w: "ec_wrap ec x (length input) (if ec_raw_fallback ec \<and> length input \<le> length B then input else B)
      (ec_raw_fallback ec \<and> length input \<le> length B) = Inr frame"
    using assms(2) by (auto simp: entropy_compress_def rbind_eq_Inr Let_def)
  have x: "x \<le> usize_max" using rans_encode_st_ok[OF _ e] assms(1) by (auto simp: st_ok_def)
  show ?thesis
  proof (cases "ec_raw_fallback ec \<and> length input \<le> length B")
    case True
    then show ?thesis using w x assms(3) by (simp add: ec_wrap_Inr ec_unwrap_wrap check_limit_if entropy_decompress_def)
  next
    case False
    then show ?thesis using w entropy_decompress_coded[OF assms(1) e assms(3), of alloc ec] assms(4) by (auto simp: ec_wrap_Inr)
  qed
qed

text \<open>
  A second final state for the same symbols: the low word of the state, moved to the payload.
\<close>

lemma decode_shifted_state:
  assumes "models \<noteq> []" "\<forall>m\<in>set models. rm_ok m" "length symbols = length models"
    and "rans_encode (zip models symbols) = Inr (x, B)"
  shows "decode_coded (without_replay_verification ec) models (x div 2 ^ 16) (B @ to_le_bytes (of_nat x :: u16)) = Inr symbols
    \<and> \<not> st_ok (x div 2 ^ 16)"
proof -
  let ?B = "B @ to_le_bytes (of_nat x :: u16)"
  let ?e = "\<lparr> re_state = x, re_bytes = B \<rparr>"
  let ?d = "decoder_init (x div 2 ^ 16) ?B"
  have st: "st_ok x" using rans_encode_st_ok[OF zip_models[OF assms(2)] assms(4)] .
  then have small: "x div 2 ^ 16 < RANS_L" by (simp add: st_ok_def RANS_L_def div_less_iff_less_mult)
  obtain b c where w: "to_le_bytes (of_nat x :: u16) = [b, c]"
    using length_to_le_bytes[of "of_nat x :: u16"] by (auto simp: length_Suc_conv numeral_2_eq_2 simp del: length_to_le_bytes)
  have word: "unat (from_le_bytes [b, c] :: u16) = x mod 2 ^ 16" unfolding w[symmetric] by (rule u16_of_nat)
  have r: "renorm ?d = (Inr (), dec_at ?B ?e)"
  proof -
    have "2 ^ 15 \<le> x div 2 ^ 16" using st by (simp add: st_ok_def less_eq_div_iff_mult_less_eq)
    then show ?thesis using renorm_refill[of ?d "length B"] small word div_mult_mod_eq[of x "2 ^ 16"]
      by (simp add: decoder_init_def dec_at_def w nth_append)
  qed
  have re: "renorm (dec_at ?B ?e) = (Inr (), dec_at ?B ?e)" using st by (simp add: renorm_dec_at)
  have "put_symbols (zip models symbols) encoder_init = (Inr (), ?e)" using assms(4) by (simp add: rans_encode_Inr)
  from get_symbols_put[OF zip_models[OF assms(2)] encoder_init_ok this, of ?B] assms(3)
  have g: "get_symbols (rev models) (dec_at ?B ?e) = (Inr (rev symbols), dec_at ?B encoder_init)"
    by (auto simp: encoder_init_def RANS_L_def)
  obtain m ms where "rev models = m # ms" using assms(1) by (cases "rev models") auto
  then have "get_symbols (rev models) ?d = (Inr (rev symbols), dec_at ?B encoder_init)"
    using g get_symbol_renorm[OF r re, of m] by (simp add: sbind_def)
  then show ?thesis using small
    by (simp add: decode_coded_def without_replay_verification_def rd_finish_def dec_at_def encoder_init_def st_ok_def RANS_L_def)
qed

theorem rans_bijection_witness:
  "\<exists>m x B. from_uniform 3 = Inr m \<and>
    decode_coded (without_replay_verification (entropy_new standard)) [m, m] x B = Inr [0, 2] \<and> st_ok x"
proof -
  obtain m where m: "from_uniform 3 = Inr m" "rm_ok m" "\<forall>s<3. 0 < rm_freq_of m s" using uniform_three by blast
  obtain x B where "rans_encode (zip [m, m] [0, 2]) = Inr (x, B)" using three_encodes[OF m(3)] by force
  then show ?thesis using rans_bijection[of "[m, m]" "[0, 2]" x B "entropy_new standard"] m by auto
qed

theorem replay_checks_state_witness:
  "\<exists>m x B y C. from_uniform 3 = Inr m \<and> decode_coded (entropy_new standard) [m] x B = Inr [2] \<and>
    decode_coded (entropy_new standard) [m] y C \<noteq> Inr [2] \<and>
    decode_coded (without_replay_verification (entropy_new standard)) [m] y C = Inr [2]"
proof -
  obtain m where m: "from_uniform 3 = Inr m" "rm_ok m" "\<forall>s<3. 0 < rm_freq_of m s" using uniform_three by blast
  obtain x B where e: "rans_encode (zip [m] [2]) = Inr (x, B)" using three_encodes[OF m(3)] by force
  have d: "decode_coded (entropy_new standard) [m] x B = Inr [2]"
    using decode_coded_encode[of "[m]" "[2]"] e m(2) by simp
  obtain y C where s: "decode_coded (without_replay_verification (entropy_new standard)) [m] y C = Inr [2]" "\<not> st_ok y"
    using decode_shifted_state[OF _ _ _ e, of "entropy_new standard"] m(2) by auto
  then have "decode_coded (entropy_new standard) [m] y C \<noteq> Inr [2]"
    using replay_checks_state[of "[m]" standard y C "[2]"] m(2) by simp
  then show ?thesis using m(1) d s(1) by blast
qed

lemma three_fits:
  assumes "rm_ok m" "\<forall>ms\<in>set mss. fst ms = m" "rans_encode mss = Inr (x, B)"
  shows "length B \<le> 2 * length mss"
  using put_symbols_bound[of mss encoder_init "Inr ()" "\<lparr> re_state = x, re_bytes = B \<rparr>"] assms
  by (simp add: rans_encode_Inr) (simp add: encoder_init_def)

theorem sequence_roundtrip_witness:
  "\<exists>m frame. from_uniform 3 = Inr m \<and> encode_sequence (entropy_new (with_no_limit standard)) [m, m] [1, 2] = Inr frame \<and>
    decode_sequence (\<lambda>_. True) (entropy_new (with_no_limit standard)) [m, m] frame = Inr [1, 2]"
proof -
  let ?ec = "entropy_new (with_no_limit standard)"
  obtain m where m: "from_uniform 3 = Inr m" "rm_ok m" "\<forall>s<3. 0 < rm_freq_of m s" using uniform_three by blast
  obtain x B where e: "rans_encode (zip [m, m] [1, 2]) = Inr (x, B)" using three_encodes[OF m(3)] by force
  have "length B \<le> 4" using three_fits[OF m(2) _ e] by simp
  then have f: "encode_sequence ?ec [m, m] [1, 2] = Inr (rb_header x (length [1, 2 :: nat]) False @ B)"
    using e by (simp add: encode_sequence_def ec_wrap_Inr entropy_new_def with_no_limit_def del: One_nat_def)
  show ?thesis
    using sequence_roundtrip[OF _ f, of "\<lambda>_. True"] f m by auto
qed

theorem bytes_roundtrip_witness:
  "\<exists>m frame. from_uniform 3 = Inr m \<and> entropy_compress (entropy_new (with_no_limit standard)) [1, 2] m = Inr frame \<and>
    entropy_decompress (\<lambda>_. True) (entropy_new (with_no_limit standard)) frame m = Inr [1, 2]"
proof -
  let ?ec = "entropy_new (with_no_limit standard)"
  obtain m where m: "from_uniform 3 = Inr m" "rm_ok m" "\<forall>s<3. 0 < rm_freq_of m s" using uniform_three by blast
  obtain x B where e: "rans_encode (map (\<lambda>b. (m, unat b)) [1 :: byte, 2]) = Inr (x, B)" using three_encodes[OF m(3)] by force
  have "length B \<le> 4" using three_fits[OF m(2) _ e] by simp
  then have "\<exists>frame. entropy_compress ?ec [1, 2] m = Inr frame"
    using e by (cases "2 \<le> length B") (auto simp: entropy_compress_def ec_wrap_Inr entropy_new_def with_no_limit_def)
  then obtain frame where f: "entropy_compress ?ec [1, 2] m = Inr frame" by blast
  show ?thesis
    using bytes_roundtrip[OF m(2) f, of "\<lambda>_. True"] f m(1) by auto
qed

text \<open>A frame of the header alone stops the process, whatever the replay setting and the model.\<close>

lemma decompress_header_panics:
  assumes "within (c_limit (ec_base ec)) 24" and "2 ^ 63 \<le> count" and "count \<le> usize_max"
  shows "entropy_decompress alloc ec (rb_header 0 count False) model = Inl (Panic ''capacity overflow'')"
  using ec_unwrap_wrap[of 0 count ec False "[]"] assms
  by (simp add: check_limit_if entropy_decompress_def with_capacity_def)

end
