(* ===== verification/Projection.thy ===== *)
theory Projection
  imports Canonical Alloc
begin

text \<open>
  \<^verbatim>\<open>src/projection.rs\<close>: self-authenticating records and their projection proofs. The hash function is the
  parameter \<open>H\<close> of every operation; a 32-byte digest is a word of 256 bits. A \<^verbatim>\<open>BTreeMap\<close> is the list of its
  entries in ascending order of their keys.
\<close>

section \<open>Records\<close>

type_synonym digest = "256 word"
type_synonym field = "u32 \<times> byte list"

definition PJ_MAGIC :: "byte list" where "PJ_MAGIC = [0x52, 0x42, 0x50, 0x4A]"
definition PJ_VERSION :: u16 where "PJ_VERSION = 1"
definition FLAG_MERKLE :: u16 where "FLAG_MERKLE = 1"
definition PJ_HEADER_LEN :: nat where "PJ_HEADER_LEN = 16"
definition AUTH_LEN :: nat where "AUTH_LEN = 32"
definition LEAF_DOMAIN :: byte where "LEAF_DOMAIN = 0"
definition SCHEMA_DOMAIN :: byte where "SCHEMA_DOMAIN = 1"
definition NODE_DOMAIN :: byte where "NODE_DOMAIN = 2"

lemmas pj_consts = PJ_MAGIC_def PJ_VERSION_def FLAG_MERKLE_def PJ_HEADER_LEN_def AUTH_LEN_def

datatype projection_error =
    BadMagic | PjUnsupportedVersion u16 | UnsupportedFlags u16 | PjUnexpectedEnd | PjTrailingBytes
  | NonCanonicalOrder | DuplicateField u32 | FieldLimit nat | PayloadLimit nat | RecordLimit nat
  | InvalidQuery | IncompleteProof | RootMismatch | InvalidPayload | TreeGeometry

record projection_limits =
  max_fields :: nat
  max_payload_len :: nat
  max_record_len :: nat

definition default_limits :: projection_limits where
  "default_limits = \<lparr> max_fields = 262144, max_payload_len = 16 * 1024 * 1024, max_record_len = 256 * 1024 * 1024 \<rparr>"

definition projection_new :: "u32 list \<Rightarrow> u32 list" where
  "projection_new ids = remdups_adj (sort ids)"

section \<open>Hash inputs\<close>

definition leaf_input :: "u32 \<Rightarrow> byte list \<Rightarrow> byte list" where
  "leaf_input field_id payload =
    [LEAF_DOMAIN] @ to_le_bytes field_id @
    to_le_bytes (of_nat (if length payload < 2 ^ 32 then length payload else 2 ^ 32 - 1) :: u32) @ payload"

definition node_input :: "digest \<Rightarrow> digest \<Rightarrow> byte list" where
  "node_input left right = [NODE_DOMAIN] @ to_le_bytes left @ to_le_bytes right"

definition schema_input :: "u32 \<Rightarrow> digest \<Rightarrow> byte list" where
  "schema_input schema_version merkle = [SCHEMA_DOMAIN] @ to_le_bytes schema_version @ to_le_bytes merkle"

definition leaf_hash :: "(byte list \<Rightarrow> digest) \<Rightarrow> u32 \<Rightarrow> byte list \<Rightarrow> digest" where
  "leaf_hash H field_id payload = H (leaf_input field_id payload)"

definition node_hash :: "(byte list \<Rightarrow> digest) \<Rightarrow> digest \<Rightarrow> digest \<Rightarrow> digest" where
  "node_hash H left right = H (node_input left right)"

definition schema_root :: "(byte list \<Rightarrow> digest) \<Rightarrow> u32 \<Rightarrow> digest \<Rightarrow> digest" where
  "schema_root H schema_version merkle = H (schema_input schema_version merkle)"

section \<open>The tree\<close>

text \<open>\<^verbatim>\<open>next_power_of_two\<close>, the least power from \<open>p\<close> on.\<close>

function pow2_from :: "nat \<Rightarrow> nat \<Rightarrow> nat" where
  "pow2_from p n = (if p \<ge> n \<or> p = 0 then p else pow2_from (2 * p) n)"
  by pat_completeness auto
termination by (relation "measure (\<lambda>(p, n). n - p)") auto

declare pow2_from.simps [simp del]

definition leaf_count :: "nat \<Rightarrow> nat" where
  "leaf_count field_count = (if field_count = 0 then 1 else pow2_from 1 field_count)"

definition merkle_leaves :: "(byte list \<Rightarrow> digest) \<Rightarrow> field list \<Rightarrow> digest list" where
  "merkle_leaves H fs =
    (let hashes = map (\<lambda>(field_id, payload). leaf_hash H field_id payload) fs
     in hashes @ replicate (leaf_count (length fs) - length fs) 0)"

definition build_tree :: "(byte list \<Rightarrow> digest) \<Rightarrow> digest list \<Rightarrow> digest list" where
  "build_tree H leaves =
    (let l = length leaves
     in fold (\<lambda>i tree. tree[i := node_hash H (tree ! (2 * i)) (tree ! (2 * i + 1))]) (rev [1..<l]) (replicate l 0 @ leaves))"

text \<open>One level of \<open>merkle_root\<close>: \<^verbatim>\<open>chunks_exact(2)\<close>.\<close>

fun pair_level :: "(byte list \<Rightarrow> digest) \<Rightarrow> digest list \<Rightarrow> digest list" where
  "pair_level H (a # b # rest) = node_hash H a b # pair_level H rest"
| "pair_level H _ = []"

lemma length_pair_level: "length (pair_level H xs) = length xs div 2"
  by (induction H xs rule: pair_level.induct) auto

function root_loop :: "(byte list \<Rightarrow> digest) \<Rightarrow> digest list \<Rightarrow> digest" where
  "root_loop H level = (if length level > 1 then root_loop H (pair_level H level) else level ! 0)"
  by pat_completeness auto
termination by (relation "measure (\<lambda>(_, level). length level)") (auto simp: length_pair_level)

declare root_loop.simps [simp del]

definition merkle_root :: "(byte list \<Rightarrow> digest) \<Rightarrow> digest list \<Rightarrow> digest" where
  "merkle_root H leaves = (if length leaves = 1 then leaves ! 0 else root_loop H leaves)"

section \<open>Building and parsing\<close>

record record_builder =
  rb_schema_version :: u32
  rb_limits :: projection_limits
  rb_fields :: "field list"
  rb_encoded_len :: nat

definition builder_with_limits :: "u32 \<Rightarrow> projection_limits \<Rightarrow> record_builder" where
  "builder_with_limits schema_version limits =
    \<lparr> rb_schema_version = schema_version, rb_limits = limits, rb_fields = [], rb_encoded_len = PJ_HEADER_LEN + AUTH_LEN \<rparr>"

definition pj_insert ::
  "u32 \<Rightarrow> byte list \<Rightarrow> record_builder \<Rightarrow> (projection_error + unit) \<times> record_builder" where
  "pj_insert field_id payload b =
    (let limits = rb_limits b; field_count = length (rb_fields b) + 1; payload_len = length payload;
         contribution = payload_len + 8; encoded_len = rb_encoded_len b + contribution
     in if rb_fields b \<noteq> [] \<and> field_id \<le> fst (last (rb_fields b))
        then (Inl (if field_id = fst (last (rb_fields b)) then DuplicateField field_id else NonCanonicalOrder), b)
        else if field_count > max_fields limits then (Inl (FieldLimit (max_fields limits)), b)
        else if payload_len > max_payload_len limits then (Inl (PayloadLimit (max_payload_len limits)), b)
        else if contribution > usize_max \<or> encoded_len > usize_max then (Inl (RecordLimit usize_max), b)
        else if encoded_len > max_record_len limits then (Inl (RecordLimit (max_record_len limits)), b)
        else (Inr (), b\<lparr>rb_encoded_len := encoded_len, rb_fields := rb_fields b @ [(field_id, payload)]\<rparr>))"

definition insert_varint ::
  "u32 \<Rightarrow> u128 \<Rightarrow> record_builder \<Rightarrow> (projection_error + unit) \<times> record_builder" where
  "insert_varint field_id value = (let (bytes, len) = encode_varint_le value in pj_insert field_id (take len bytes))"

definition insert_signed ::
  "u32 \<Rightarrow> u128 \<Rightarrow> record_builder \<Rightarrow> (projection_error + unit) \<times> record_builder" where
  "insert_signed field_id value = insert_varint field_id (zigzag_encode value)"

definition insert_bool ::
  "u32 \<Rightarrow> bool \<Rightarrow> record_builder \<Rightarrow> (projection_error + unit) \<times> record_builder" where
  "insert_bool field_id value = pj_insert field_id [if value then 1 else 0]"

definition field_bytes :: "field \<Rightarrow> byte list" where
  "field_bytes f = to_le_bytes (fst f) @ to_le_bytes (of_nat (length (snd f)) :: u32) @ snd f"

definition pj_finish ::
  "(nat \<Rightarrow> bool) \<Rightarrow> (byte list \<Rightarrow> digest) \<Rightarrow> record_builder \<Rightarrow> projection_error + byte list" where
  "pj_finish alloc H b =
    (let merkle = merkle_root H (merkle_leaves H (rb_fields b));
         root = schema_root H (rb_schema_version b) merkle
     in if rb_encoded_len b > 2 ^ 63 - 1 \<or> \<not> alloc (rb_encoded_len b) then Inl (RecordLimit usize_max)
        else Inr (PJ_MAGIC @ to_le_bytes PJ_VERSION @ to_le_bytes FLAG_MERKLE @
          to_le_bytes (of_nat (length (rb_fields b)) :: u32) @ to_le_bytes (rb_schema_version b) @
          concat (map field_bytes (rb_fields b)) @ to_le_bytes root))"

record pj_record =
  pr_schema_version :: u32
  pr_fields :: "field list"
  pr_root :: digest

definition pj_read_u32 :: "byte list \<Rightarrow> nat \<Rightarrow> projection_error + (u32 \<times> nat)" where
  "pj_read_u32 input cursor =
    (if cursor + 4 > usize_max then Inl PjUnexpectedEnd
     else rmap (\<lambda>bytes. (from_le_bytes bytes, cursor + 4)) (ok_or PjUnexpectedEnd (slice cursor (cursor + 4) input)))"

primrec parse_fields ::
  "nat \<Rightarrow> byte list \<Rightarrow> projection_limits \<Rightarrow> nat \<Rightarrow> u32 option \<Rightarrow> projection_error + (field list \<times> nat)" where
  "parse_fields 0 input limits cursor prev = Inr ([], cursor)"
| "parse_fields (Suc n) input limits cursor prev =
    rbind (pj_read_u32 input cursor) (\<lambda>(field_id, cursor1).
    rbind (pj_read_u32 input cursor1) (\<lambda>(len, cursor2).
      if unat len > max_payload_len limits then Inl (PayloadLimit (max_payload_len limits))
      else if (case prev of Some p \<Rightarrow> field_id \<le> p | None \<Rightarrow> False) then Inl NonCanonicalOrder
      else if cursor2 + unat len > usize_max then Inl PjUnexpectedEnd
      else rbind (ok_or PjUnexpectedEnd (slice cursor2 (cursor2 + unat len) input)) (\<lambda>payload.
        rmap (\<lambda>(fs, cursor3). ((field_id, payload) # fs, cursor3))
          (parse_fields n input limits (cursor2 + unat len) (Some field_id)))))"

text \<open>A parsed field is an identifier and a slice, 24 bytes of memory.\<close>

definition parse_record ::
  "(nat \<Rightarrow> bool) \<Rightarrow> byte list \<Rightarrow> projection_limits \<Rightarrow> projection_error + pj_record" where
  "parse_record alloc input limits =
    (if length input > max_record_len limits then Inl (RecordLimit (max_record_len limits))
     else if length input < PJ_HEADER_LEN + AUTH_LEN then Inl PjUnexpectedEnd
     else if take 4 input \<noteq> PJ_MAGIC then Inl BadMagic
     else let version = from_le_bytes (take 2 (drop 4 input)); flags = from_le_bytes (take 2 (drop 6 input));
              field_count = unat (from_le_bytes (take 4 (drop 8 input)) :: u32);
              schema_version = from_le_bytes (take 4 (drop 12 input))
     in if version \<noteq> PJ_VERSION then Inl (PjUnsupportedVersion version)
        else if flags \<noteq> FLAG_MERKLE then Inl (UnsupportedFlags flags)
        else if field_count > max_fields limits then Inl (FieldLimit (max_fields limits))
        else if 24 * field_count > 2 ^ 63 - 1 \<or> field_count \<noteq> 0 \<and> \<not> alloc (24 * field_count) then Inl (FieldLimit usize_max)
        else rbind (parse_fields field_count input limits PJ_HEADER_LEN None) (\<lambda>(fs, cursor).
          rbind (ok_or PjUnexpectedEnd (slice cursor (cursor + AUTH_LEN) input)) (\<lambda>root_bytes.
            if cursor + AUTH_LEN \<noteq> length input then Inl PjTrailingBytes
            else Inr \<lparr> pr_schema_version = schema_version, pr_fields = fs, pr_root = from_le_bytes root_bytes \<rparr>)))"

definition record_root :: "(byte list \<Rightarrow> digest) \<Rightarrow> u32 \<Rightarrow> field list \<Rightarrow> digest" where
  "record_root H schema_version fs = schema_root H schema_version (merkle_root H (merkle_leaves H fs))"

definition verify_root :: "(byte list \<Rightarrow> digest) \<Rightarrow> pj_record \<Rightarrow> projection_error + unit" where
  "verify_root H r = (if record_root H (pr_schema_version r) (pr_fields r) = pr_root r then Inr () else Inl RootMismatch)"

section \<open>Proofs\<close>

record proof_leaf =
  pl_index :: u32
  pl_field_id :: u32
  pl_payload :: "byte list"

record projection_proof =
  pp_schema_version :: u32
  pp_field_count :: u32
  pp_leaves :: "proof_leaf list"
  pp_siblings :: "(nat \<times> digest) list"
  pp_claimed_root :: digest

text \<open>The sibling of a heap node, \<^verbatim>\<open>i ^ 1\<close>.\<close>

definition sibling_of :: "nat \<Rightarrow> nat" where
  "sibling_of i = (if even i then i + 1 else i - 1)"

text \<open>One round of the aggregation: the siblings missing in the frontier, and the parents.\<close>

definition missing_siblings :: "digest list \<Rightarrow> nat list \<Rightarrow> (nat \<times> digest) list" where
  "missing_siblings tree frontier =
    map (\<lambda>i. (sibling_of i, tree ! sibling_of i)) (filter (\<lambda>i. sibling_of i \<notin> set frontier) frontier)"

definition parents :: "nat list \<Rightarrow> nat list" where
  "parents frontier = remdups_adj (map (\<lambda>i. i div 2) frontier)"

partial_function (option) aggregate_loop ::
  "digest list \<Rightarrow> nat list \<Rightarrow> (nat \<times> digest) list \<Rightarrow> (nat \<times> digest) list option" where
  "aggregate_loop tree frontier siblings =
    (if frontier = [1] then Some siblings
     else aggregate_loop tree (parents frontier) (siblings @ missing_siblings tree frontier))"

definition aggregate_siblings :: "digest list \<Rightarrow> nat \<Rightarrow> nat list \<Rightarrow> (nat \<times> digest) list option" where
  "aggregate_siblings tree l queried =
    (if queried = [] then Some [] else aggregate_loop tree (map ((+) l) queried) [])"

definition pj_prove ::
  "(byte list \<Rightarrow> digest) \<Rightarrow> pj_record \<Rightarrow> u32 list \<Rightarrow> (projection_error + projection_proof) option" where
  "pj_prove H r query =
    (if query = [] then Some (Inl InvalidQuery)
     else let fs = pr_fields r; l = leaf_count (length fs);
              leaves = merkle_leaves H fs; tree = build_tree H leaves;
              selected = filter (\<lambda>i. fst (fs ! i) \<in> set query) [0..<length fs]
          in if selected = [] then Some (Inl InvalidQuery)
             else map_option (\<lambda>siblings. Inr \<lparr> pp_schema_version = pr_schema_version r, pp_field_count = of_nat (length fs),
                pp_leaves = map (\<lambda>i. \<lparr> pl_index = of_nat i, pl_field_id = fst (fs ! i), pl_payload = snd (fs ! i) \<rparr>) selected,
                pp_siblings = siblings, pp_claimed_root = record_root H (pr_schema_version r) fs \<rparr>)
              (aggregate_siblings tree l selected))"

section \<open>Verification\<close>

text \<open>
  One round over the entries of the frontier map \<open>fr\<close>, in ascending order: each parent with the two
  digests it is hashed from. The sibling of a pair is skipped.
\<close>

function level_pairs ::
  "(nat \<rightharpoonup> digest) \<Rightarrow> (nat \<rightharpoonup> digest) \<Rightarrow> (nat \<times> digest) list \<Rightarrow> projection_error + (nat \<times> digest \<times> digest) list" where
  "level_pairs fr siblings [] = Inr []"
| "level_pairs fr siblings ((i, h) # rest) =
    (let j = sibling_of i in
     case fr j of
       Some hj \<Rightarrow> rmap ((#) (i div 2, h, hj)) (level_pairs fr siblings (drop 1 rest))
     | None \<Rightarrow> rbind (ok_or IncompleteProof (siblings j)) (\<lambda>sh.
         rmap ((#) (if even i then (i div 2, h, sh) else (i div 2, sh, h))) (level_pairs fr siblings rest)))"
  by pat_completeness auto
termination by (relation "measure (\<lambda>(_, _, xs). length xs)") auto

definition next_frontier ::
  "(byte list \<Rightarrow> digest) \<Rightarrow> (nat \<times> digest \<times> digest) list \<Rightarrow> (nat \<times> digest) list" where
  "next_frontier H pairs = map (\<lambda>(p, left, right). (p, node_hash H left right)) pairs"

partial_function (option) combine_loop ::
  "(byte list \<Rightarrow> digest) \<Rightarrow> (nat \<rightharpoonup> digest) \<Rightarrow> (nat \<times> digest) list \<Rightarrow> (projection_error + digest) option" where
  "combine_loop H siblings frontier =
    (if length frontier = 1 \<and> fst (hd frontier) = 1 then Some (Inr (snd (hd frontier)))
     else case level_pairs (map_of frontier) siblings frontier of
       Inl e \<Rightarrow> Some (Inl e) | Inr pairs \<Rightarrow> combine_loop H siblings (next_frontier H pairs))"

definition combine_frontier ::
  "(byte list \<Rightarrow> digest) \<Rightarrow> (nat \<times> digest) list \<Rightarrow> (nat \<rightharpoonup> digest) \<Rightarrow> (projection_error + digest) option" where
  "combine_frontier H frontier siblings =
    (if frontier = [] then Some (Inl IncompleteProof) else combine_loop H siblings frontier)"

fun check_leaves :: "proof_leaf list \<Rightarrow> nat \<Rightarrow> proof_leaf option \<Rightarrow> projection_error + unit" where
  "check_leaves [] field_count prev = Inr ()"
| "check_leaves (leaf # leaves) field_count prev =
    (if unat (pl_index leaf) \<ge> field_count then Inl TreeGeometry
     else if (case prev of Some p \<Rightarrow> pl_index leaf \<le> pl_index p | None \<Rightarrow> False) then Inl NonCanonicalOrder
     else if (case prev of Some p \<Rightarrow> pl_field_id leaf \<le> pl_field_id p | None \<Rightarrow> False) then Inl NonCanonicalOrder
     else check_leaves leaves field_count (Some leaf))"

text \<open>The positions ascend, so the entries of the frontier map are the leaves in their order.\<close>

primrec leaf_frontier ::
  "(byte list \<Rightarrow> digest) \<Rightarrow> nat \<Rightarrow> proof_leaf list \<Rightarrow> (nat \<times> digest) list \<Rightarrow> projection_error + (nat \<times> digest) list" where
  "leaf_frontier H l [] frontier = Inr frontier"
| "leaf_frontier H l (leaf # leaves) frontier =
    (let node = l + unat (pl_index leaf) in
     if node > usize_max then Inl TreeGeometry
     else if node \<ge> l * 2 then Inl TreeGeometry
     else if node \<in> fst ` set frontier then Inl TreeGeometry
     else leaf_frontier H l leaves (frontier @ [(node, leaf_hash H (pl_field_id leaf) (pl_payload leaf))]))"

definition recompute_proof_root ::
  "(byte list \<Rightarrow> digest) \<Rightarrow> projection_proof \<Rightarrow> (projection_error + digest) option" where
  "recompute_proof_root H p =
    (let field_count = unat (pp_field_count p); l = leaf_count field_count in
     if l > usize_max \<or> l * 2 > usize_max then Some (Inl TreeGeometry)
     else case check_leaves (pp_leaves p) field_count None of Inl e \<Rightarrow> Some (Inl e) | Inr _ \<Rightarrow>
       if \<not> distinct (map fst (pp_siblings p)) then Some (Inl IncompleteProof)
       else case leaf_frontier H l (pp_leaves p) [] of Inl e \<Rightarrow> Some (Inl e) | Inr frontier \<Rightarrow>
         if frontier = [] then Some (Inl IncompleteProof)
         else map_option (rmap (schema_root H (pp_schema_version p)))
           (combine_frontier H frontier (map_of (pp_siblings p))))"

definition leaf_fields :: "projection_proof \<Rightarrow> field list" where
  "leaf_fields p = map (\<lambda>leaf. (pl_field_id leaf, pl_payload leaf)) (pp_leaves p)"

definition verify ::
  "(byte list \<Rightarrow> digest) \<Rightarrow> projection_proof \<Rightarrow> digest \<Rightarrow> u32 \<Rightarrow> (projection_error + field list) option" where
  "verify H p anchor expected =
    (if pp_schema_version p \<noteq> expected then Some (Inl RootMismatch)
     else map_option (\<lambda>r. rbind r (\<lambda>recomputed.
       if recomputed \<noteq> pp_claimed_root p \<or> recomputed \<noteq> anchor then Inl RootMismatch
       else Inr (leaf_fields p))) (recompute_proof_root H p))"

definition verify_untrusted ::
  "(byte list \<Rightarrow> digest) \<Rightarrow> projection_proof \<Rightarrow> (projection_error + field list) option" where
  "verify_untrusted H p =
    map_option (\<lambda>r. rbind r (\<lambda>recomputed.
      if recomputed \<noteq> pp_claimed_root p then Inl RootMismatch else Inr (leaf_fields p))) (recompute_proof_root H p)"

section \<open>Typed payloads\<close>

definition varint_len :: "byte \<Rightarrow> nat option" where
  "varint_len marker =
    (if marker \<le> 250 then Some 1 else if marker = 251 then Some 3 else if marker = 252 then Some 5
     else if marker = 253 then Some 9 else if marker = 254 then Some 17 else None)"

definition decode_canonical_varint :: "byte list \<Rightarrow> projection_error + u128" where
  "decode_canonical_varint bytes =
    (case bytes of [] \<Rightarrow> Inl InvalidPayload
     | marker # rest \<Rightarrow> rbind (ok_or InvalidPayload (varint_len marker)) (\<lambda>expected_len.
         if length rest \<noteq> expected_len - 1 then Inl InvalidPayload
         else ok_or InvalidPayload (decode_varint_le marker rest)))"

definition as_varint :: "field \<Rightarrow> projection_error + u128" where
  "as_varint f = decode_canonical_varint (snd f)"

definition as_signed :: "field \<Rightarrow> projection_error + u128" where
  "as_signed f = rmap zigzag_decode (as_varint f)"

definition as_bool :: "field \<Rightarrow> projection_error + bool" where
  "as_bool f = (if snd f = [0] then Inr False else if snd f = [1] then Inr True else Inl InvalidPayload)"

section \<open>The heap tree\<close>

lemma pow2_from_pow: "\<exists>k. pow2_from (2 ^ a) n = 2 ^ k \<and> n \<le> 2 ^ k"
proof (induction "n - 2 ^ a" arbitrary: a rule: less_induct)
  case less
  show ?case
  proof (cases "n \<le> 2 ^ a")
    case True
    then show ?thesis by (auto simp: pow2_from.simps[of "2 ^ a"])
  next
    case False
    moreover have "(2 :: nat) ^ a < 2 ^ Suc a" by simp
    ultimately have "n - 2 ^ Suc a < n - 2 ^ a" by (intro diff_less_mono2) simp_all
    from less[OF this] show ?thesis using False by (simp add: pow2_from.simps[of "2 ^ a"])
  qed
qed

lemma leaf_count_pow: "\<exists>d. leaf_count n = 2 ^ d \<and> n \<le> leaf_count n"
  using pow2_from_pow[of 0 n] by (auto simp: leaf_count_def intro: exI[of _ 0])

lemma length_merkle_leaves [simp]: "length (merkle_leaves H fs) = leaf_count (length fs)"
  using leaf_count_pow[of "length fs"] by (auto simp: merkle_leaves_def Let_def)

lemma merkle_leaves_nth:
  "i < leaf_count (length fs) \<Longrightarrow>
   merkle_leaves H fs ! i = (if i < length fs then leaf_hash H (fst (fs ! i)) (snd (fs ! i)) else 0)"
  using leaf_count_pow[of "length fs"] by (auto simp: merkle_leaves_def Let_def nth_append split_beta)

lemma build_fold:
  fixes H :: "byte list \<Rightarrow> digest"
  assumes "1 \<le> k" "k \<le> l" "length t0 = 2 * l"
  defines "R \<equiv> \<lambda>k. fold (\<lambda>i tree. tree[i := node_hash H (tree ! (2 * i)) (tree ! (2 * i + 1))]) (rev [k..<l]) t0"
  shows "length (R k) = 2 * l \<and> (\<forall>i\<ge>l. R k ! i = t0 ! i) \<and>
    (\<forall>i. k \<le> i \<and> i < l \<longrightarrow> R k ! i = node_hash H (R k ! (2 * i)) (R k ! (2 * i + 1)))"
  using assms(2,1)
proof (induction k rule: inc_induct)
  case base
  then show ?case using assms(3) by (auto simp: R_def)
next
  case (step k)
  have r: "R k = (R (Suc k))[k := node_hash H (R (Suc k) ! (2 * k)) (R (Suc k) ! (2 * k + 1))]"
    using step by (simp add: R_def upt_conv_Cons)
  have IH: "length (R (Suc k)) = 2 * l" "\<And>i. l \<le> i \<Longrightarrow> R (Suc k) ! i = t0 ! i"
    "\<And>i. Suc k \<le> i \<Longrightarrow> i < l \<Longrightarrow> R (Suc k) ! i = node_hash H (R (Suc k) ! (2 * i)) (R (Suc k) ! (2 * i + 1))"
    using step by auto
  have same: "R k ! i = R (Suc k) ! i" if "k < i" for i using that by (simp add: r)
  have k: "R k ! k = node_hash H (R k ! (2 * k)) (R k ! (2 * k + 1))"
    using step IH(1) same[of "2 * k"] same[of "2 * k + 1"] by (simp add: r)
  show ?case
  proof (intro conjI allI impI)
    show "length (R k) = 2 * l" using IH(1) by (simp add: r)
    show "R k ! i = t0 ! i" if "l \<le> i" for i using that step IH(2) same[of i] by simp
    fix i assume i: "k \<le> i \<and> i < l"
    show "R k ! i = node_hash H (R k ! (2 * i)) (R k ! (2 * i + 1))"
    proof (cases "i = k")
      case False
      then show ?thesis using i IH(3)[of i] same[of i] same[of "2 * i"] same[of "2 * i + 1"] by simp
    qed (simp add: k)
  qed
qed

definition heap_ok :: "(byte list \<Rightarrow> digest) \<Rightarrow> nat \<Rightarrow> digest list \<Rightarrow> bool" where
  "heap_ok H n T \<longleftrightarrow> length T = 2 * 2 ^ n \<and>
    (\<forall>i. 1 \<le> i \<and> i < 2 ^ n \<longrightarrow> T ! i = node_hash H (T ! (2 * i)) (T ! (2 * i + 1)))"

lemma build_tree_ok:
  assumes "length leaves = 2 ^ n"
  shows "heap_ok H n (build_tree H leaves)" and "p < 2 ^ n \<Longrightarrow> build_tree H leaves ! (2 ^ n + p) = leaves ! p"
proof -
  have "length (replicate (length leaves) (0 :: digest) @ leaves) = 2 * length leaves" by simp
  from build_fold[OF order.refl _ this] assms
  have "length (build_tree H leaves) = 2 * 2 ^ n \<and>
    (\<forall>i\<ge>2 ^ n. build_tree H leaves ! i = (replicate (length leaves) 0 @ leaves) ! i) \<and>
    (\<forall>i. 1 \<le> i \<and> i < 2 ^ n \<longrightarrow> build_tree H leaves ! i =
       node_hash H (build_tree H leaves ! (2 * i)) (build_tree H leaves ! (2 * i + 1)))"
    by (simp add: build_tree_def Let_def)
  then show "heap_ok H n (build_tree H leaves)" "p < 2 ^ n \<Longrightarrow> build_tree H leaves ! (2 ^ n + p) = leaves ! p"
    using assms by (auto simp: heap_ok_def nth_append)
qed

lemma pair_level_map:
  "a \<le> b \<Longrightarrow> pair_level H (map f [2 * a..<2 * b]) = map (\<lambda>p. node_hash H (f (2 * p)) (f (2 * p + 1))) [a..<b]"
proof (induction a rule: inc_induct)
  case (step a)
  have "[2 * a..<2 * b] = 2 * a # (2 * a + 1) # [2 * Suc a..<2 * b]"
    using step by (simp add: upt_conv_Cons)
  then show ?case using step by (simp add: upt_conv_Cons)
qed simp

lemma root_loop_heap:
  assumes "heap_ok H n T" "e \<le> n"
  shows "root_loop H (map (\<lambda>i. T ! i) [2 ^ e..<2 * 2 ^ e]) = T ! 1"
  using assms(2)
proof (induction e)
  case 0
  then show ?case by (simp add: root_loop.simps upt_conv_Cons)
next
  case (Suc e)
  have "pair_level H (map (\<lambda>i. T ! i) [2 * 2 ^ e..<2 * (2 * 2 ^ e)]) =
    map (\<lambda>p. node_hash H (T ! (2 * p)) (T ! (2 * p + 1))) [2 ^ e..<2 * 2 ^ e]"
    by (rule pair_level_map) simp
  also have "\<dots> = map (\<lambda>i. T ! i) [2 ^ e..<2 * 2 ^ e]"
  proof (rule map_cong[OF refl])
    fix p assume "p \<in> set [2 ^ e..<2 * 2 ^ e]"
    then have p: "2 ^ e \<le> p" "p < 2 * 2 ^ e" by auto
    have "(1 :: nat) \<le> 2 ^ e" "2 * 2 ^ e \<le> (2 :: nat) ^ n"
      using Suc.prems power_increasing[of "Suc e" n "2 :: nat"] by simp_all
    then show "node_hash H (T ! (2 * p)) (T ! (2 * p + 1)) = T ! p" using assms(1) p by (simp add: heap_ok_def)
  qed
  finally have p: "pair_level H (map (\<lambda>i. T ! i) [2 ^ Suc e..<2 * 2 ^ Suc e]) = map (\<lambda>i. T ! i) [2 ^ e..<2 * 2 ^ e]"
    by simp
  have "1 < length (map (\<lambda>i. T ! i) [2 ^ Suc e..<2 * 2 ^ Suc e])" using one_less_power[of "2 :: nat" "Suc e"] by simp
  then have "root_loop H (map (\<lambda>i. T ! i) [2 ^ Suc e..<2 * 2 ^ Suc e]) =
    root_loop H (pair_level H (map (\<lambda>i. T ! i) [2 ^ Suc e..<2 * 2 ^ Suc e]))"
    by (simp only: root_loop.simps[of H "map _ [2 ^ Suc e..<_]"] if_True)
  then show ?case unfolding p using Suc by simp
qed

lemma merkle_root_tree:
  assumes "length leaves = 2 ^ n"
  shows "merkle_root H leaves = build_tree H leaves ! 1"
proof -
  let ?T = "build_tree H leaves"
  note T = build_tree_ok[OF assms, where H = H]
  have "map (\<lambda>i. ?T ! i) [2 ^ n..<2 * 2 ^ n] = leaves"
    using assms T(2) by (intro nth_equalityI) simp_all
  then have r: "root_loop H leaves = ?T ! 1" using root_loop_heap[OF T(1), of n] by simp
  show ?thesis
  proof (cases "length leaves = 1")
    case True
    then have "n = 0" using assms by (cases n) auto
    then show ?thesis using True T(2)[of 0] by (simp add: merkle_root_def)
  qed (simp add: merkle_root_def r)
qed

section \<open>Frontiers\<close>

text \<open>The nodes of one level of the heap, in ascending order.\<close>

definition at_level :: "nat \<Rightarrow> nat list \<Rightarrow> bool" where
  "at_level d ks \<longleftrightarrow> ks \<noteq> [] \<and> sorted_wrt (<) ks \<and> (\<forall>i\<in>set ks. 2 ^ d \<le> i \<and> i < 2 * 2 ^ d)"

lemma sibling_div [simp]: "0 < i \<Longrightarrow> sibling_of i div 2 = i div 2"
  by (auto simp: sibling_of_def elim!: oddE)

lemma same_parent: "i div 2 = j div 2 \<Longrightarrow> j = i \<or> j = sibling_of i"
  by (auto simp: sibling_of_def elim!: evenE oddE)

lemma sibling_sibling [simp]: "0 < i \<Longrightarrow> sibling_of (sibling_of i) = i"
  by (auto simp: sibling_of_def)

lemma sibling_inj: "0 < i \<Longrightarrow> 0 < j \<Longrightarrow> sibling_of i = sibling_of j \<Longrightarrow> i = j"
  by (metis sibling_sibling)

lemma at_level_0: "at_level 0 ks \<longleftrightarrow> ks = [1]"
proof
  assume a: "at_level 0 ks"
  then obtain k ks' where k: "ks = k # ks'" by (auto simp: at_level_def neq_Nil_conv)
  have "k = 1" "\<forall>i\<in>set ks'. i = 1" "\<forall>i\<in>set ks'. k < i" using a by (auto simp: at_level_def k)
  then show "ks = [1]" using k by (cases ks') auto
qed (simp add: at_level_def)

lemma remdups_adj_strict: "sorted_wrt (\<le>) (xs :: nat list) \<Longrightarrow> sorted_wrt (<) (remdups_adj xs)"
proof (induction xs rule: remdups_adj.induct)
  case (3 x y xs)
  then show ?case by (cases "x = y") (auto simp: order_le_less)
qed auto

lemma at_level_parents: "at_level (Suc d) ks \<Longrightarrow> at_level d (parents ks)"
proof -
  assume a: "at_level (Suc d) ks"
  have "sorted_wrt (\<le>) (map (\<lambda>i. i div 2) ks)"
    using a unfolding at_level_def sorted_wrt_map by (auto intro: sorted_wrt_mono_rel[rotated] div_le_mono)
  from remdups_adj_strict[OF this] a show ?thesis
    unfolding at_level_def parents_def by auto
qed

lemma not_root: "at_level (Suc d) ks \<Longrightarrow> ks \<noteq> [1] \<and> (\<forall>i\<in>set ks. 1 < i)"
proof -
  assume a: "at_level (Suc d) ks"
  have "(2 :: nat) \<le> 2 ^ Suc d" by simp
  have "1 < i" if "i \<in> set ks" for i
  proof -
    have "2 ^ Suc d \<le> i" using that a by (simp add: at_level_def)
    then show ?thesis using \<open>2 \<le> 2 ^ Suc d\<close> by linarith
  qed
  then show ?thesis by auto
qed

subsection \<open>One round of the verification\<close>

text \<open>What is left of a round: whole pairs of siblings.\<close>

definition families :: "(nat \<rightharpoonup> digest) \<Rightarrow> (nat \<times> digest) list \<Rightarrow> bool" where
  "families fr xs \<longleftrightarrow> sorted_wrt (<) (map fst xs) \<and> (\<forall>i\<in>set (map fst xs). 0 < i) \<and>
    (\<forall>j. (\<exists>i\<in>set (map fst xs). j div 2 = i div 2) \<longrightarrow> fr j = map_of xs j)"

lemma families_step:
  assumes "families fr ((i, h) # rest)"
  obtains (pair) hj rest' where "even i" "fr (sibling_of i) = Some hj" "rest = (sibling_of i, hj) # rest'"
      "families fr rest'" "\<forall>k\<in>set (map fst rest'). i div 2 < k div 2"
    | (single) "fr (sibling_of i) = None" "sibling_of i \<notin> set (map fst rest)" "families fr rest"
      "\<forall>k\<in>set (map fst rest). i div 2 < k div 2"
proof -
  have s: "sorted_wrt (<) (map fst rest)" "\<forall>k\<in>set (map fst rest). i < k" and p: "0 < i" "\<forall>k\<in>set (map fst rest). 0 < k"
    and f: "\<And>j. (\<exists>k\<in>set (i # map fst rest). j div 2 = k div 2) \<Longrightarrow> fr j = map_of ((i, h) # rest) j"
    using assms by (auto simp: families_def)
  let ?j = "sibling_of i"
  have j: "?j div 2 = i div 2" "?j \<noteq> i" using p(1) by (simp, auto simp: sibling_of_def)
  then have fj: "fr ?j = map_of rest ?j" using f[of ?j] by simp
  show ?thesis
  proof (cases "?j \<in> set (map fst rest)")
    case True
    then have "i < ?j" using s(2) by blast
    then have e: "even i" "?j = i + 1" by (auto simp: sibling_of_def split: if_splits)
    obtain k hk rest' where r: "rest = (k, hk) # rest'" using True by (cases rest) auto
    have "k = ?j"
    proof (rule ccontr)
      assume "k \<noteq> ?j"
      then have "?j \<in> set (map fst rest')" using True r by auto
      then have "k < ?j" "i < k" using s r by auto
      then show False using e by simp
    qed
    have big: "\<forall>k\<in>set (map fst rest'). i div 2 < k div 2"
    proof
      fix k' assume "k' \<in> set (map fst rest')"
      then have "?j < k'" using s(1) r \<open>k = ?j\<close> by auto
      then have "i + 2 \<le> k'" using e by simp
      then have "(i + 2) div 2 \<le> k' div 2" by (rule div_le_mono)
      then show "i div 2 < k' div 2" by simp
    qed
    have "families fr rest'"
      unfolding families_def
    proof (intro conjI allI impI)
      show "sorted_wrt (<) (map fst rest')" "\<forall>k\<in>set (map fst rest'). 0 < k" using s(1) p(2) r by auto
      fix x assume x: "\<exists>k\<in>set (map fst rest'). x div 2 = k div 2"
      then have "x \<noteq> i" "x \<noteq> ?j" using big j(1) by auto
      then show "fr x = map_of rest' x" using f[of x] x r \<open>k = ?j\<close> by auto
    qed
    moreover have "fr ?j = Some hk" using fj r \<open>k = ?j\<close> by simp
    ultimately show ?thesis using pair[of hk rest'] e(1) r \<open>k = ?j\<close> big by simp
  next
    case False
    have big: "\<forall>k\<in>set (map fst rest). i div 2 < k div 2"
    proof
      fix k assume k: "k \<in> set (map fst rest)"
      then have "i < k" using s(2) by metis
      have "k \<noteq> ?j" using k False by metis
      then have "i div 2 \<noteq> k div 2" using same_parent[of i k] \<open>i < k\<close> by auto
      then show "i div 2 < k div 2" using div_le_mono[of i k 2] \<open>i < k\<close> by simp
    qed
    have "families fr rest"
      unfolding families_def
    proof (intro conjI allI impI)
      show "sorted_wrt (<) (map fst rest)" "\<forall>k\<in>set (map fst rest). 0 < k" using s(1) p(2) by auto
      fix x assume x: "\<exists>k\<in>set (map fst rest). x div 2 = k div 2"
      then have "x \<noteq> i" using big by auto
      then show "fr x = map_of rest x" using f[of x] x by auto
    qed
    moreover have "fr ?j = None" using fj False by (simp add: map_of_eq_None_iff)
    ultimately show ?thesis using single False big by simp
  qed
qed

lemma families_init: "at_level (Suc d) (map fst xs) \<Longrightarrow> families (map_of xs) xs"
  using not_root[of d "map fst xs"] by (auto simp: families_def at_level_def)

lemma parents_Cons: "\<forall>k\<in>set ks. i div 2 < k div 2 \<Longrightarrow> parents (i # ks) = i div 2 # parents ks"
  by (cases ks) (auto simp: parents_def)

lemma parents_pair: "0 < i \<Longrightarrow> parents (i # sibling_of i # ks) = parents (sibling_of i # ks)"
  by (simp add: parents_def)

text \<open>The digest of node \<open>i\<close> enters the digest of its parent, on its side.\<close>

definition paired :: "(nat \<times> digest \<times> digest) list \<Rightarrow> nat \<times> digest \<Rightarrow> bool" where
  "paired ps x \<longleftrightarrow> (\<exists>l r. (fst x div 2, l, r) \<in> set ps \<and> snd x = (if even (fst x) then l else r))"

lemma paired_Cons: "paired ps x \<Longrightarrow> paired (p # ps) x"
  unfolding paired_def by (metis list.set_intros(2))

lemma paired_head: "paired ((i div 2, l, r) # ps) (i, if even i then l else r)"
  by (auto simp: paired_def)

lemma level_pairs_Inr:
  assumes "families fr xs" "level_pairs fr sib xs = Inr ps"
  shows "map fst ps = parents (map fst xs) \<and>
    (\<forall>x\<in>set xs. paired ps x)"
  using assms
proof (induction fr sib xs arbitrary: ps rule: level_pairs.induct)
  case (1 fr sib)
  then show ?case by (simp add: parents_def)
next
  case (2 fr sib i h rest)
  have i: "0 < i" using "2.prems"(1) by (simp add: families_def)
  from "2.prems"(1) show ?case
  proof (cases rule: families_step)
    case (pair hj rest')
    then obtain qs where q: "level_pairs fr sib rest' = Inr qs" "ps = (i div 2, h, hj) # qs"
      using "2.prems"(2) by (auto simp: Let_def rmap_eq_Inr)
    have o: "\<not> even (sibling_of i)" using pair(1) by (simp add: sibling_of_def)
    have "map fst qs = parents (map fst rest') \<and>
      (\<forall>x\<in>set rest'. paired qs x)"
      using "2.IH"(2)[OF refl pair(2), of qs] pair(3,4) q(1) by simp
    moreover have "paired ps (i, h)" "paired ps (sibling_of i, hj)"
      using paired_head[of i h hj qs] paired_head[of "sibling_of i" h hj qs] pair(1) o i q(2) by simp_all
    ultimately show ?thesis using pair(1,3,5) o i q(2)
      by (simp add: parents_pair parents_Cons paired_Cons)
  next
    case single
    then obtain sh qs where q: "sib (sibling_of i) = Some sh" "level_pairs fr sib rest = Inr qs"
      "ps = (if even i then (i div 2, h, sh) else (i div 2, sh, h)) # qs"
      using "2.prems"(2) by (auto simp: Let_def rmap_eq_Inr rbind_eq_Inr)
    have "map fst qs = parents (map fst rest) \<and>
      (\<forall>x\<in>set rest. paired qs x)"
      using "2.IH"(1)[OF refl single(1) _ single(3) q(2), of sh] q(1) by simp
    moreover have "paired ps (i, h)"
      using paired_head[of i h sh qs] paired_head[of i sh h qs] q(3) by (cases "even i") simp_all
    ultimately show ?thesis using single(4) q(3) by (cases "even i") (simp_all add: parents_Cons paired_Cons)
  qed
qed

text \<open>A round over nodes of the tree, with every missing sibling at hand, succeeds.\<close>

lemma level_pairs_tree:
  assumes "families fr xs" "\<forall>(i, h)\<in>set xs. h = T ! i"
    "\<forall>i\<in>set (map fst xs). sibling_of i \<notin> set (map fst xs) \<longrightarrow> sib (sibling_of i) = Some (T ! sibling_of i)"
  shows "\<exists>ps. level_pairs fr sib xs = Inr ps \<and> (\<forall>(p, l, r)\<in>set ps. l = T ! (2 * p) \<and> r = T ! (2 * p + 1))"
  using assms
proof (induction fr sib xs rule: level_pairs.induct)
  case (1 fr sib)
  then show ?case by simp
next
  case (2 fr sib i h rest)
  have h: "h = T ! i" using "2.prems"(2) by simp
  from "2.prems"(1) show ?case
  proof (cases rule: families_step)
    case (pair hj rest')
    have hj: "hj = T ! sibling_of i" using "2.prems"(2) pair(3) by simp
    have e: "2 * (i div 2) = i" "sibling_of i = i + 1" using pair(1) by (auto simp: sibling_of_def)
    have m: "\<forall>k\<in>set (map fst rest'). sibling_of k \<notin> set (map fst rest') \<longrightarrow> sib (sibling_of k) = Some (T ! sibling_of k)"
    proof (intro ballI impI)
      fix k assume k: "k \<in> set (map fst rest')" "sibling_of k \<notin> set (map fst rest')"
      have "0 < k" using pair(4) k(1) by (auto simp: families_def)
      then have "sibling_of k div 2 = k div 2" by simp
      then have "sibling_of k div 2 > i div 2" using pair(5) k(1) by auto
      then have "sibling_of k \<noteq> i" "sibling_of k \<noteq> sibling_of i" using e by auto
      then show "sib (sibling_of k) = Some (T ! sibling_of k)" using "2.prems"(3) k pair(3) by auto
    qed
    obtain qs where "level_pairs fr sib rest' = Inr qs" "\<forall>(p, l, r)\<in>set qs. l = T ! (2 * p) \<and> r = T ! (2 * p + 1)"
      using "2.IH"(2)[OF refl pair(2)] pair(3,4) "2.prems"(2) m by auto
    then show ?thesis using pair(2,3) h hj e by simp
  next
    case single
    have i: "0 < i" using "2.prems"(1) by (simp add: families_def)
    have m: "\<forall>k\<in>set (map fst rest). sibling_of k \<notin> set (map fst rest) \<longrightarrow> sib (sibling_of k) = Some (T ! sibling_of k)"
    proof (intro ballI impI)
      fix k assume k: "k \<in> set (map fst rest)" "sibling_of k \<notin> set (map fst rest)"
      have "0 < k" using single(3) k(1) by (auto simp: families_def)
      then have "sibling_of k div 2 > i div 2" using single(4) k(1) by auto
      then have "sibling_of k \<noteq> i" by auto
      then show "sib (sibling_of k) = Some (T ! sibling_of k)" using "2.prems"(3) k by auto
    qed
    have "sibling_of i \<noteq> i" using i by (auto simp: sibling_of_def)
    then have s: "sib (sibling_of i) = Some (T ! sibling_of i)" using "2.prems"(3) single(2) by simp
    obtain qs where q: "level_pairs fr sib rest = Inr qs" "\<forall>(p, l, r)\<in>set qs. l = T ! (2 * p) \<and> r = T ! (2 * p + 1)"
      using "2.IH"(1)[OF refl single(1) _ single(3), of "T ! sibling_of i"] s "2.prems"(2) m by auto
    show ?thesis
    proof (cases "even i")
      case True
      then have "2 * (i div 2) = i" "sibling_of i = i + 1" by (auto simp: sibling_of_def)
      then show ?thesis using True single(1) s q h by simp
    next
      case False
      then have "2 * (i div 2) = sibling_of i" "2 * (i div 2) + 1 = i" by (auto simp: sibling_of_def)
      then show ?thesis using False single(1) s q h by simp
    qed
  qed
qed

section \<open>Verification ends\<close>

lemma next_frontier_keys [simp]: "map fst (next_frontier H ps) = map fst ps"
  by (simp add: next_frontier_def comp_def split_beta)

lemma combine_loop_root: "combine_loop H sib [(1, h)] = Some (Inr h)"
  by (simp add: combine_loop.simps)

lemma combine_loop_step:
  assumes "at_level (Suc d) (map fst xs)"
  shows "combine_loop H sib xs = (case level_pairs (map_of xs) sib xs of
    Inl e \<Rightarrow> Some (Inl e) | Inr pairs \<Rightarrow> combine_loop H sib (next_frontier H pairs))"
proof -
  have "map fst xs \<noteq> [1]" "xs \<noteq> []" using assms not_root[OF assms] by (auto simp: at_level_def)
  then have "\<not> (length xs = 1 \<and> fst (hd xs) = 1)" by (cases xs) auto
  then show ?thesis by (subst combine_loop.simps) (simp only: if_False)
qed

lemma next_level:
  assumes "at_level (Suc d) (map fst xs)" "level_pairs (map_of xs) sib xs = Inr ps"
  shows "at_level d (map fst (next_frontier H ps))"
  using level_pairs_Inr[OF families_init[OF assms(1)] assms(2)] at_level_parents[OF assms(1)] by simp

lemma frontier_root: "at_level 0 (map fst xs) \<Longrightarrow> \<exists>h. xs = [(1, h)]"
  by (auto simp: at_level_0 map_eq_Cons_conv)

lemma combine_loop_returns: "at_level d (map fst xs) \<Longrightarrow> \<exists>r. combine_loop H sib xs = Some r"
proof (induction d arbitrary: xs)
  case 0
  then obtain h where "xs = [(1, h)]" using frontier_root by blast
  then show ?case by (simp only: combine_loop_root) blast
next
  case (Suc d)
  then show ?case
    using next_level[OF Suc.prems, of sib _ H]
    by (cases "level_pairs (map_of xs) sib xs") (simp_all add: combine_loop_step)
qed

text \<open>The checks on the leaves make the first frontier a level.\<close>

lemma check_leaves_Inr:
  "check_leaves ls n prev = Inr u \<Longrightarrow>
   sorted_wrt (<) (map (\<lambda>l. unat (pl_index l)) ls) \<and> (\<forall>l\<in>set ls. unat (pl_index l) < n) \<and>
   (\<forall>l\<in>set ls. \<forall>p. prev = Some p \<longrightarrow> pl_index p < pl_index l)"
proof (induction ls n prev rule: check_leaves.induct)
  case (2 leaf leaves n prev)
  then have c: "unat (pl_index leaf) < n" "\<forall>p. prev = Some p \<longrightarrow> pl_index p < pl_index leaf"
    "check_leaves leaves n (Some leaf) = Inr u"
    by (auto split: if_splits option.splits)
  have "sorted_wrt (<) (map (\<lambda>l. unat (pl_index l)) leaves) \<and> (\<forall>l\<in>set leaves. unat (pl_index l) < n) \<and>
    (\<forall>l\<in>set leaves. \<forall>p. Some leaf = Some p \<longrightarrow> pl_index p < pl_index l)"
    using "2.IH" "2.prems" c(3) by (auto split: if_splits option.splits)
  then show ?case using c(1,2) by (auto simp: word_less_nat_alt intro: less_trans)
qed simp

definition leaf_node :: "(byte list \<Rightarrow> digest) \<Rightarrow> nat \<Rightarrow> proof_leaf \<Rightarrow> nat \<times> digest" where
  "leaf_node H l leaf = (l + unat (pl_index leaf), leaf_hash H (pl_field_id leaf) (pl_payload leaf))"

lemma leaf_frontier_eq:
  assumes "sorted_wrt (<) (map (\<lambda>l. unat (pl_index l)) ls)" "\<forall>leaf\<in>set ls. unat (pl_index leaf) < l"
    "l * 2 \<le> usize_max" "\<forall>x\<in>set done. \<forall>leaf\<in>set ls. fst x < l + unat (pl_index leaf)"
  shows "leaf_frontier H l ls done = Inr (done @ map (leaf_node H l) ls)"
  using assms
proof (induction ls arbitrary: "done")
  case (Cons leaf ls)
  have "l + unat (pl_index leaf) < l * 2" using Cons.prems(2) by simp
  moreover have "l + unat (pl_index leaf) \<notin> fst ` set done" using Cons.prems(4) by fastforce
  moreover have "leaf_frontier H l ls (done @ [leaf_node H l leaf]) = Inr (done @ leaf_node H l leaf # map (leaf_node H l) ls)"
    using Cons.IH[of "done @ [leaf_node H l leaf]"] Cons.prems by (auto simp: leaf_node_def)
  ultimately show ?case using Cons.prems(3) by (simp add: leaf_node_def)
qed simp

lemma leaf_count_mono_u32: "leaf_count (unat (n :: u32)) \<le> 2 ^ 32"
proof -
  have "pow2_from (2 ^ a) m \<le> 2 ^ 32" if "a \<le> 32" "m \<le> 2 ^ 32" for a m
    using that
  proof (induction "32 - a" arbitrary: a)
    case 0
    then show ?case by (simp add: pow2_from.simps)
  next
    case (Suc k)
    then have "(2 :: nat) ^ a \<le> 2 ^ 32" by (intro power_increasing) simp_all
    moreover have "pow2_from (2 ^ Suc a) m \<le> 2 ^ 32" using Suc by (intro Suc.hyps(1)) simp_all
    ultimately show ?case by (simp add: pow2_from.simps[of "2 ^ a" m])
  qed
  from this[of 0 "unat n"] show ?thesis
    using unsigned_less[of n, where ?'a = nat] by (simp add: leaf_count_def)
qed

text \<open>The frontier of an accepted proof.\<close>

lemma recompute_eq:
  assumes "check_leaves (pp_leaves p) (unat (pp_field_count p)) None = Inr u"
    "distinct (map fst (pp_siblings p))" "pp_leaves p \<noteq> []"
  obtains d where "leaf_count (unat (pp_field_count p)) = 2 ^ d"
    "at_level d (map fst (map (leaf_node H (2 ^ d)) (pp_leaves p)))"
    "recompute_proof_root H p = map_option (rmap (schema_root H (pp_schema_version p)))
       (combine_loop H (map_of (pp_siblings p)) (map (leaf_node H (2 ^ d)) (pp_leaves p)))"
proof -
  let ?n = "unat (pp_field_count p)"
  obtain d where d: "leaf_count ?n = 2 ^ d" "?n \<le> 2 ^ d" using leaf_count_pow[of ?n] by auto
  have l: "\<not> (leaf_count ?n > usize_max \<or> leaf_count ?n * 2 > usize_max)" using leaf_count_mono_u32[of "pp_field_count p"] by simp
  note c = check_leaves_Inr[OF assms(1)]
  have f: "leaf_frontier H (2 ^ d) (pp_leaves p) [] = Inr (map (leaf_node H (2 ^ d)) (pp_leaves p))"
  proof -
    have "\<forall>leaf\<in>set (pp_leaves p). unat (pl_index leaf) < 2 ^ d" using c d(2) by fastforce
    then show ?thesis using leaf_frontier_eq[of "pp_leaves p" "2 ^ d" "[]" H] c d l by auto
  qed
  have "at_level d (map fst (map (leaf_node H (2 ^ d)) (pp_leaves p)))"
    unfolding at_level_def
  proof (intro conjI)
    show "map fst (map (leaf_node H (2 ^ d)) (pp_leaves p)) \<noteq> []" using assms(3) by simp
    show "sorted_wrt (<) (map fst (map (leaf_node H (2 ^ d)) (pp_leaves p)))"
      using c by (simp add: leaf_node_def sorted_wrt_map)
    show "\<forall>i\<in>set (map fst (map (leaf_node H (2 ^ d)) (pp_leaves p))). 2 ^ d \<le> i \<and> i < 2 * 2 ^ d"
      using c d(2) by (fastforce simp: leaf_node_def)
  qed
  moreover have "recompute_proof_root H p = map_option (rmap (schema_root H (pp_schema_version p)))
       (combine_loop H (map_of (pp_siblings p)) (map (leaf_node H (2 ^ d)) (pp_leaves p)))"
    unfolding recompute_proof_root_def Let_def using l assms by (simp add: f d(1) combine_frontier_def)
  ultimately show ?thesis using that d(1) by blast
qed

lemma recompute_returns: "\<exists>r. recompute_proof_root H p = Some r"
proof (cases "\<exists>u. check_leaves (pp_leaves p) (unat (pp_field_count p)) None = Inr u \<and>
    distinct (map fst (pp_siblings p)) \<and> pp_leaves p \<noteq> []")
  case True
  then obtain u where a: "check_leaves (pp_leaves p) (unat (pp_field_count p)) None = Inr u"
    "distinct (map fst (pp_siblings p))" "pp_leaves p \<noteq> []" by blast
  obtain d where d: "at_level d (map fst (map (leaf_node H (2 ^ d)) (pp_leaves p)))"
    "recompute_proof_root H p = map_option (rmap (schema_root H (pp_schema_version p)))
       (combine_loop H (map_of (pp_siblings p)) (map (leaf_node H (2 ^ d)) (pp_leaves p)))"
    by (rule recompute_eq[OF a])
  then show ?thesis using combine_loop_returns[OF d(1), of H "map_of (pp_siblings p)"] by auto
next
  case False
  then show ?thesis by (cases "check_leaves (pp_leaves p) (unat (pp_field_count p)) None")
      (auto simp: recompute_proof_root_def Let_def)
qed

end
