(* ===== verification/ProjectionProofs.thy ===== *)
theory ProjectionProofs
  imports Projection
begin

text \<open>
  The projection proofs of \<^verbatim>\<open>src/projection.rs\<close>: completeness, the round trip of records, and soundness up to
  an explicit collision among the inputs that are hashed.
\<close>

section \<open>An honest proof reconstructs the root\<close>

lemma missing_keys:
  "at_level (Suc d) ks \<Longrightarrow> x \<in> set (map fst (missing_siblings T ks)) \<Longrightarrow> 2 ^ Suc d \<le> x \<and> x < 2 * 2 ^ Suc d"
proof -
  assume a: "at_level (Suc d) ks" "x \<in> set (map fst (missing_siblings T ks))"
  then obtain i where i: "i \<in> set ks" "x = sibling_of i" by (auto simp: missing_siblings_def)
  have "2 ^ Suc d \<le> i" "i < 2 * 2 ^ Suc d" using a(1) i(1) by (auto simp: at_level_def)
  then have b: "2 * 2 ^ d \<le> i" "i < 2 * (2 * 2 ^ d)" by simp_all
  show ?thesis
  proof (cases "even i")
    case True
    then obtain k where "i = 2 * k" ..
    then show ?thesis using b i(2) by (simp add: sibling_of_def)
  next
    case False
    then obtain k where "i = 2 * k + 1" by (rule oddE)
    then show ?thesis using b i(2) by (simp add: sibling_of_def)
  qed
qed

lemma distinct_missing: "at_level (Suc d) ks \<Longrightarrow> distinct (map fst (missing_siblings T ks))"
proof -
  assume a: "at_level (Suc d) ks"
  then have "distinct ks" by (simp add: at_level_def strict_sorted_iff)
  moreover have "inj_on sibling_of (set ks)"
  proof (rule inj_onI)
    fix i j assume "i \<in> set ks" "j \<in> set ks" "sibling_of i = sibling_of j"
    moreover have "0 < i" "0 < j" using not_root[OF a] calculation by auto
    ultimately show "i = j" using sibling_inj by blast
  qed
  ultimately show ?thesis
    by (auto simp: missing_siblings_def comp_def distinct_map intro: inj_on_subset)
qed

lemma aggregate_loop_root: "at_level 0 ks \<Longrightarrow> aggregate_loop T ks acc = Some acc"
  by (subst aggregate_loop.simps) (simp add: at_level_0)

lemma aggregate_loop_step:
  "at_level (Suc d) ks \<Longrightarrow> aggregate_loop T ks acc = aggregate_loop T (parents ks) (acc @ missing_siblings T ks)"
  using not_root[of d ks] by (subst aggregate_loop.simps) simp

text \<open>The aggregation ends, with one entry for each sibling that is missing at some level.\<close>

lemma aggregate_loop_ok:
  "at_level d ks \<Longrightarrow> distinct (map fst acc) \<Longrightarrow> \<forall>x\<in>set (map fst acc). 2 * 2 ^ d \<le> x \<Longrightarrow>
   \<exists>sibs. aggregate_loop T ks acc = Some sibs \<and> distinct (map fst sibs) \<and> set acc \<subseteq> set sibs \<and>
     (\<forall>(j, v)\<in>set sibs. (j, v) \<in> set acc \<or> v = T ! j)"
proof (induction d arbitrary: ks acc)
  case 0
  then show ?case using aggregate_loop_root[OF 0(1), of T acc] by auto
next
  case (Suc d)
  let ?acc = "acc @ missing_siblings T ks"
  have "distinct (map fst ?acc)"
    using Suc.prems distinct_missing[OF Suc.prems(1), of T] missing_keys[OF Suc.prems(1), of _ T] by fastforce
  moreover have "\<forall>x\<in>set (map fst ?acc). 2 * 2 ^ d \<le> x"
  proof
    fix x assume "x \<in> set (map fst ?acc)"
    then have "x \<in> set (map fst acc) \<or> x \<in> set (map fst (missing_siblings T ks))" by auto
    then have "2 * 2 ^ Suc d \<le> x \<or> 2 ^ Suc d \<le> x" using Suc.prems(3) missing_keys[OF Suc.prems(1)] by blast
    then show "2 * 2 ^ d \<le> x" by auto
  qed
  ultimately obtain sibs where s: "aggregate_loop T (parents ks) ?acc = Some sibs" "distinct (map fst sibs)"
    "set ?acc \<subseteq> set sibs" "\<forall>(j, v)\<in>set sibs. (j, v) \<in> set ?acc \<or> v = T ! j"
    using Suc.IH[OF at_level_parents[OF Suc.prems(1)], of ?acc] by blast
  have "aggregate_loop T ks acc = Some sibs"
    using s(1) aggregate_loop_step[OF Suc.prems(1), of T acc] by simp
  moreover have "\<forall>(j, v)\<in>set sibs. (j, v) \<in> set acc \<or> v = T ! j" using s(4) by (auto simp: missing_siblings_def)
  ultimately show ?case using s(2,3) by auto
qed

text \<open>With those siblings the loop of the verifier climbs the same tree.\<close>

lemma aggregate_loop_keeps: "at_level d ks \<Longrightarrow> aggregate_loop T ks acc = Some sibs \<Longrightarrow> set acc \<subseteq> set sibs"
proof (induction d arbitrary: ks acc)
  case 0
  then show ?case using aggregate_loop_root[OF 0(1), of T acc] by simp
next
  case (Suc d)
  have "aggregate_loop T (parents ks) (acc @ missing_siblings T ks) = Some sibs"
    using Suc.prems(2) aggregate_loop_step[OF Suc.prems(1), of T acc] by simp
  from Suc.IH[OF at_level_parents[OF Suc.prems(1)] this] show ?case by simp
qed

lemma combine_loop_tree:
  assumes "heap_ok H n T"
  shows "at_level d (map fst xs) \<Longrightarrow> d \<le> n \<Longrightarrow> \<forall>(i, h)\<in>set xs. h = T ! i \<Longrightarrow>
    aggregate_loop T (map fst xs) acc = Some sibs \<Longrightarrow> \<forall>(j, v)\<in>set sibs. sib j = Some v \<Longrightarrow>
    combine_loop H sib xs = Some (Inr (T ! 1))"
proof (induction d arbitrary: xs acc)
  case 0
  then obtain h where "xs = [(1, h)]" using frontier_root by blast
  then show ?case using 0 by (auto simp: combine_loop_root[simplified])
next
  case (Suc d)
  let ?ks = "map fst xs"
  have g: "aggregate_loop T (parents ?ks) (acc @ missing_siblings T ?ks) = Some sibs"
    using Suc.prems(4) aggregate_loop_step[OF Suc.prems(1), of T acc] by simp
  from aggregate_loop_keeps[OF at_level_parents[OF Suc.prems(1)] this]
  have "set (missing_siblings T ?ks) \<subseteq> set sibs" by simp
  then have m: "\<forall>i\<in>set ?ks. sibling_of i \<notin> set ?ks \<longrightarrow> sib (sibling_of i) = Some (T ! sibling_of i)"
  proof (intro ballI impI)
    fix i assume i: "i \<in> set ?ks" "sibling_of i \<notin> set ?ks"
    then have "(sibling_of i, T ! sibling_of i) \<in> set (missing_siblings T ?ks)" by (simp add: missing_siblings_def)
    then have "(sibling_of i, T ! sibling_of i) \<in> set sibs" using \<open>set (missing_siblings T ?ks) \<subseteq> set sibs\<close> by blast
    then show "sib (sibling_of i) = Some (T ! sibling_of i)" using Suc.prems(5) by blast
  qed
  from level_pairs_tree[OF families_init[OF Suc.prems(1)] Suc.prems(3) m]
  obtain ps where p: "level_pairs (map_of xs) sib xs = Inr ps" "\<forall>(p, l, r)\<in>set ps. l = T ! (2 * p) \<and> r = T ! (2 * p + 1)"
    by blast
  have k: "map fst ps = parents ?ks" using level_pairs_Inr[OF families_init[OF Suc.prems(1)] p(1)] by simp
  have lv: "at_level d (map fst (next_frontier H ps))" by (rule next_level[OF Suc.prems(1) p(1)])
  have T: "\<forall>(i, h)\<in>set (next_frontier H ps). h = T ! i"
  proof
    fix x assume "x \<in> set (next_frontier H ps)"
    then obtain q l r where x: "x = (q, node_hash H l r)" "(q, l, r) \<in> set ps" by (auto simp: next_frontier_def)
    have "q \<in> set (map fst (next_frontier H ps))" using x(2) by force
    then have "2 ^ d \<le> q" "q < 2 * 2 ^ d" using lv by (auto simp: at_level_def)
    moreover have "(2 :: nat) * 2 ^ d \<le> 2 ^ n" using Suc.prems(2) power_increasing[of "Suc d" n "2 :: nat"] by simp
    moreover have "(1 :: nat) \<le> 2 ^ d" by simp
    ultimately have q: "1 \<le> q" "q < 2 ^ n" by linarith+
    have "l = T ! (2 * q)" "r = T ! (2 * q + 1)" using p(2) x(2) by auto
    then show "case x of (i, h) \<Rightarrow> h = T ! i" using assms q x(1) by (simp add: heap_ok_def)
  qed
  have "combine_loop H sib (next_frontier H ps) = Some (Inr (T ! 1))"
    using Suc.IH[OF lv _ T, of "acc @ missing_siblings T ?ks"] Suc.prems(2,5) g k by simp
  then show ?case using p(1) by (simp add: combine_loop_step[OF Suc.prems(1)])
qed

section \<open>A root determines the fields\<close>

text \<open>The inputs a record hashes, and the inputs the verifier hashes for a proof.\<close>

definition record_inputs :: "(byte list \<Rightarrow> digest) \<Rightarrow> u32 \<Rightarrow> field list \<Rightarrow> byte list list" where
  "record_inputs H v fs =
    (let leaves = merkle_leaves H fs; tree = build_tree H leaves
     in map (\<lambda>f. leaf_input (fst f) (snd f)) fs @
        map (\<lambda>i. node_input (tree ! (2 * i)) (tree ! (2 * i + 1))) [1..<leaf_count (length fs)] @
        [schema_input v (merkle_root H leaves)])"

fun frontier_inputs ::
  "(byte list \<Rightarrow> digest) \<Rightarrow> (nat \<rightharpoonup> digest) \<Rightarrow> nat \<Rightarrow> (nat \<times> digest) list \<Rightarrow> byte list list" where
  "frontier_inputs H siblings 0 frontier = []"
| "frontier_inputs H siblings (Suc d) frontier =
    (case level_pairs (map_of frontier) siblings frontier of
       Inl _ \<Rightarrow> []
     | Inr pairs \<Rightarrow> map (\<lambda>(_, left, right). node_input left right) pairs @
         frontier_inputs H siblings d (next_frontier H pairs))"

primrec depth_of :: "nat \<Rightarrow> nat \<Rightarrow> nat" where
  "depth_of 0 l = 0"
| "depth_of (Suc k) l = (if l \<le> 1 then 0 else Suc (depth_of k (l div 2)))"

definition proof_inputs :: "(byte list \<Rightarrow> digest) \<Rightarrow> projection_proof \<Rightarrow> byte list list" where
  "proof_inputs H p =
    (let l = leaf_count (unat (pp_field_count p));
         frontier = map (leaf_node H l) (pp_leaves p)
     in map (\<lambda>leaf. leaf_input (pl_field_id leaf) (pl_payload leaf)) (pp_leaves p) @
        frontier_inputs H (map_of (pp_siblings p)) (depth_of l l) frontier @
        (case combine_frontier H frontier (map_of (pp_siblings p)) of
           Some (Inr merkle) \<Rightarrow> [schema_input (pp_schema_version p) merkle] | _ \<Rightarrow> []))"

text \<open>No two of the inputs collide, and none of them hashes to the zero digest of the padding.\<close>

definition no_collision :: "(byte list \<Rightarrow> digest) \<Rightarrow> byte list list \<Rightarrow> bool" where
  "no_collision H xs \<longleftrightarrow> (\<forall>x\<in>set xs. H x \<noteq> 0 \<and> (\<forall>y\<in>set xs. H x = H y \<longrightarrow> x = y))"

lemma no_collisionD:
  "no_collision H xs \<Longrightarrow> x \<in> set xs \<Longrightarrow> H x \<noteq> 0"
  "no_collision H xs \<Longrightarrow> x \<in> set xs \<Longrightarrow> y \<in> set xs \<Longrightarrow> H x = H y \<Longrightarrow> x = y"
  by (auto simp: no_collision_def)

lemma depth_of_pow: "d \<le> k \<Longrightarrow> depth_of k (2 ^ d) = d"
proof (induction k arbitrary: d)
  case (Suc k)
  have "1 < (2 :: nat) ^ Suc e" for e by (rule one_less_power) simp_all
  then show ?case using Suc by (cases d) (simp_all add: not_le)
qed simp

lemma le_bytes_inj: "8 dvd LENGTH('a) \<Longrightarrow> to_le_bytes (a :: 'a::len word) = to_le_bytes b \<Longrightarrow> a = b"
  using from_to_le_bytes[of a] from_to_le_bytes[of b] by metis

lemma digest_bytes_inj: "to_le_bytes (a :: digest) = to_le_bytes b \<longleftrightarrow> a = b"
  using le_bytes_inj[of a b] by auto

lemma u32_bytes_inj: "to_le_bytes (a :: u32) = to_le_bytes b \<longleftrightarrow> a = b"
  using le_bytes_inj[of a b] by auto

lemma node_input_inj: "node_input a b = node_input c d \<longleftrightarrow> a = c \<and> b = d"
  by (simp add: node_input_def digest_bytes_inj)

lemma leaf_input_inj: "leaf_input a p = leaf_input b q \<longleftrightarrow> a = b \<and> p = q"
  by (auto simp: leaf_input_def u32_bytes_inj)

lemma schema_input_inj: "schema_input v a = schema_input w b \<longleftrightarrow> v = w \<and> a = b"
  by (auto simp: schema_input_def u32_bytes_inj digest_bytes_inj)

lemma domains_differ: "leaf_input a p \<noteq> node_input l r"
  by (simp add: leaf_input_def node_input_def LEAF_DOMAIN_def NODE_DOMAIN_def)

lemma record_root_tree:
  fixes H :: "byte list \<Rightarrow> digest"
  assumes "leaf_count (length fs) = 2 ^ n"
  defines "T \<equiv> build_tree H (merkle_leaves H fs)"
  shows "heap_ok H n T" "merkle_root H (merkle_leaves H fs) = T ! 1"
    "\<And>i. i < 2 ^ n \<Longrightarrow> T ! (2 ^ n + i) = (if i < length fs then leaf_hash H (fst (fs ! i)) (snd (fs ! i)) else 0)"
  using build_tree_ok[of "merkle_leaves H fs" n, where H = H] merkle_root_tree[of "merkle_leaves H fs" n, where H = H] assms
  by (simp_all add: merkle_leaves_nth)

text \<open>Going down: a frontier that climbs to the root of the tree lies on the tree.\<close>

lemma frontier_on_tree:
  assumes T: "heap_ok H n T" "\<And>i. i < 2 ^ n \<Longrightarrow> T ! (2 ^ n + i) = 0 \<or> (\<exists>a q. leaf_input a q \<in> set X \<and> T ! (2 ^ n + i) = H (leaf_input a q))"
    and X: "no_collision H X" "\<And>i. 1 \<le> i \<Longrightarrow> i < 2 ^ n \<Longrightarrow> node_input (T ! (2 * i)) (T ! (2 * i + 1)) \<in> set X"
  shows "at_level d (map fst xs) \<Longrightarrow> combine_loop H sib xs = Some (Inr (T ! 1)) \<Longrightarrow>
    set (frontier_inputs H sib d xs) \<subseteq> set X \<Longrightarrow> d \<le> n \<and> (\<forall>(i, h)\<in>set xs. h = T ! i)"
proof (induction d arbitrary: xs)
  case 0
  then obtain h where "xs = [(1, h)]" using frontier_root by blast
  then show ?case using 0 by (simp add: combine_loop_root[simplified])
next
  case (Suc d)
  obtain ps where p: "level_pairs (map_of xs) sib xs = Inr ps"
    using Suc.prems(2) by (cases "level_pairs (map_of xs) sib xs") (simp_all add: combine_loop_step[OF Suc.prems(1)])
  note lv = next_level[OF Suc.prems(1) p, of H]
  have "combine_loop H sib (next_frontier H ps) = Some (Inr (T ! 1))"
    using Suc.prems(2) p by (simp add: combine_loop_step[OF Suc.prems(1)])
  moreover have fi: "set (frontier_inputs H sib d (next_frontier H ps)) \<subseteq> set X"
    "\<forall>(q, l, r)\<in>set ps. node_input l r \<in> set X"
    using Suc.prems(3) p by auto
  ultimately have IH: "d \<le> n" "\<forall>(i, h)\<in>set (next_frontier H ps). h = T ! i" using Suc.IH[OF lv] by auto
  have ps: "node_hash H l r = T ! q \<and> 2 ^ d \<le> q \<and> q < 2 * 2 ^ d" if "(q, l, r) \<in> set ps" for q l r
  proof -
    have "(q, node_hash H l r) \<in> set (next_frontier H ps)" using that by (force simp: next_frontier_def)
    then have "node_hash H l r = T ! q" using IH(2) by force
    moreover have "q \<in> set (map fst ps)" using that by force
    then have "q \<in> set (map fst (next_frontier H ps))" by (simp only: next_frontier_keys)
    ultimately show ?thesis using lv unfolding at_level_def by blast
  qed
  obtain q0 l0 r0 where q0: "(q0, l0, r0) \<in> set ps"
  proof -
    have "ps \<noteq> []" using lv by (auto simp: at_level_def next_frontier_def)
    then show ?thesis using that by (cases ps) auto
  qed
  have "d \<noteq> n"
  proof
    assume "d = n"
    then obtain i where i: "q0 = 2 ^ n + i" "i < 2 ^ n" using ps[OF q0] by (metis add_less_cancel_left le_Suc_ex mult_2)
    have k: "node_input l0 r0 \<in> set X" "H (node_input l0 r0) = T ! q0" using fi(2) q0 ps[OF q0] by (auto simp: node_hash_def)
    from T(2)[OF i(2)] show False
    proof
      assume "T ! (2 ^ n + i) = 0"
      then show False using no_collisionD(1)[OF X(1) k(1)] k(2) i(1) by simp
    next
      assume "\<exists>a q. leaf_input a q \<in> set X \<and> T ! (2 ^ n + i) = H (leaf_input a q)"
      then obtain a q where l: "leaf_input a q \<in> set X" "T ! (2 ^ n + i) = H (leaf_input a q)" by blast
      then have "leaf_input a q = node_input l0 r0" using no_collisionD(2)[OF X(1) l(1) k(1)] k(2) i(1) by simp
      then show False using domains_differ by blast
    qed
  qed
  then have dn: "Suc d \<le> n" using IH(1) by simp
  have child: "l = T ! (2 * q) \<and> r = T ! (2 * q + 1)" if "(q, l, r) \<in> set ps" for q l r
  proof -
    have "(2 :: nat) * 2 ^ d \<le> 2 ^ n" using dn power_increasing[of "Suc d" n "2 :: nat"] by simp
    moreover have "(1 :: nat) \<le> 2 ^ d" by simp
    ultimately have q: "1 \<le> q" "q < 2 ^ n" using ps[OF that] by linarith+
    then have "H (node_input l r) = H (node_input (T ! (2 * q)) (T ! (2 * q + 1)))"
      using T(1) ps[OF that] by (simp add: heap_ok_def node_hash_def)
    moreover have "node_input l r \<in> set X" using fi(2) that by auto
    ultimately show ?thesis using no_collisionD(2)[OF X(1) _ X(2)[OF q]] node_input_inj by metis
  qed
  have "h = T ! i" if "(i, h) \<in> set xs" for i h
  proof -
    have "paired ps (i, h)" using level_pairs_Inr[OF families_init[OF Suc.prems(1)] p] that by blast
    then obtain l r where lr: "(i div 2, l, r) \<in> set ps" "h = (if even i then l else r)" by (auto simp: paired_def)
    have "2 * (i div 2) = i" if "even i" using that by simp
    moreover have "2 * (i div 2) + 1 = i" if "odd i" using that by simp
    ultimately show ?thesis using child[OF lr(1)] lr(2) by (cases "even i") metis+
  qed
  then show ?case using dn by auto
qed

lemma combine_frontier_loop: "at_level d (map fst xs) \<Longrightarrow> combine_frontier H xs sib = combine_loop H sib xs"
  by (auto simp: combine_frontier_def at_level_def)

text \<open>What verifies against the root of a record is a subsequence of its fields.\<close>

lemma verified_fields:
  assumes "verify H p (record_root H v fs) w = Some (Inr out)"
    and X: "no_collision H (record_inputs H v fs @ proof_inputs H p)"
  shows "w = v \<and> sorted_wrt (<) (map (\<lambda>l. unat (pl_index l)) (pp_leaves p)) \<and>
    (\<forall>l\<in>set (pp_leaves p). unat (pl_index l) < length fs \<and> fs ! unat (pl_index l) = (pl_field_id l, pl_payload l)) \<and>
    out = leaf_fields p"
proof -
  let ?X = "record_inputs H v fs @ proof_inputs H p"
  obtain root where r: "recompute_proof_root H p = Some (Inr root)" "root = record_root H v fs" "pp_schema_version p = w" "out = leaf_fields p"
    using assms(1) by (auto simp: verify_def rbind_eq_Inr split: if_splits)
  have c: "check_leaves (pp_leaves p) (unat (pp_field_count p)) None = Inr ()" "distinct (map fst (pp_siblings p))" "pp_leaves p \<noteq> []"
    using r(1) by (auto simp: recompute_proof_root_def Let_def split: if_splits sum.splits)
  obtain d where d: "leaf_count (unat (pp_field_count p)) = 2 ^ d"
    "at_level d (map fst (map (leaf_node H (2 ^ d)) (pp_leaves p)))"
    "recompute_proof_root H p = map_option (rmap (schema_root H (pp_schema_version p)))
       (combine_loop H (map_of (pp_siblings p)) (map (leaf_node H (2 ^ d)) (pp_leaves p)))"
    by (rule recompute_eq[OF c])
  let ?fr = "map (leaf_node H (2 ^ d)) (pp_leaves p)" and ?sib = "map_of (pp_siblings p)"
  obtain m where m: "combine_loop H ?sib ?fr = Some (Inr m)" "root = schema_root H w m"
    using r(1,3) unfolding d(3) map_option_eq_Some by (auto simp: rmap_eq_Inr dest: sym)
  have cf: "combine_frontier H ?fr ?sib = Some (Inr m)" using m(1) combine_frontier_loop[OF d(2)] by simp
  have pin: "set (frontier_inputs H ?sib d ?fr) \<subseteq> set ?X" "schema_input w m \<in> set ?X"
    "\<And>l. l \<in> set (pp_leaves p) \<Longrightarrow> leaf_input (pl_field_id l) (pl_payload l) \<in> set ?X"
    using d(1) cf r(3) depth_of_pow[of d "2 ^ d"] by (auto simp: proof_inputs_def Let_def less_imp_le)
  obtain n where n: "leaf_count (length fs) = 2 ^ n" "length fs \<le> 2 ^ n" using leaf_count_pow[of "length fs"] by auto
  let ?T = "build_tree H (merkle_leaves H fs)"
  note T = record_root_tree[OF n(1), where H = H]
  have rin: "\<And>i. i < length fs \<Longrightarrow> leaf_input (fst (fs ! i)) (snd (fs ! i)) \<in> set ?X"
    "\<And>i. 1 \<le> i \<Longrightarrow> i < 2 ^ n \<Longrightarrow> node_input (?T ! (2 * i)) (?T ! (2 * i + 1)) \<in> set ?X"
    "schema_input v (?T ! 1) \<in> set ?X"
    using n(1) T(2) by (auto simp: record_inputs_def Let_def)
  have "H (schema_input w m) = H (schema_input v (?T ! 1))" using r(2) m(2) T(2) by (simp add: record_root_def schema_root_def)
  from no_collisionD(2)[OF X pin(2) rin(3) this] have vw: "w = v" "m = ?T ! 1" by (simp_all add: schema_input_inj)
  have L: "?T ! (2 ^ n + i) = 0 \<or> (\<exists>a q. leaf_input a q \<in> set ?X \<and> ?T ! (2 ^ n + i) = H (leaf_input a q))" if "i < 2 ^ n" for i
    using T(3)[OF that] rin(1)[of i] by (auto simp: leaf_hash_def)
  have on: "d \<le> n" "\<forall>(i, h)\<in>set ?fr. h = ?T ! i"
    using frontier_on_tree[OF T(1) L X rin(2) d(2) _ pin(1)] m(1) vw(2) by auto
  have leaf: "H (leaf_input (pl_field_id l) (pl_payload l)) = ?T ! (2 ^ d + unat (pl_index l))" if "l \<in> set (pp_leaves p)" for l
    using on(2) that by (auto simp: leaf_node_def leaf_hash_def)
  have idx: "sorted_wrt (<) (map (\<lambda>l. unat (pl_index l)) (pp_leaves p))" "\<forall>l\<in>set (pp_leaves p). unat (pl_index l) < 2 ^ d"
    using check_leaves_Inr[OF c(1)] leaf_count_pow[of "unat (pp_field_count p)"] d(1) by fastforce+
  obtain l0 where l0: "l0 \<in> set (pp_leaves p)" using c(3) by (cases "pp_leaves p") auto
  have "d = n"
  proof (rule ccontr)
    assume "d \<noteq> n"
    then have "Suc d \<le> n" using on(1) by simp
    then have "(2 :: nat) * 2 ^ d \<le> 2 ^ n" using power_increasing[of "Suc d" n "2 :: nat"] by simp
    moreover have "(1 :: nat) \<le> 2 ^ d" by simp
    ultimately have q: "1 \<le> 2 ^ d + unat (pl_index l0)" "2 ^ d + unat (pl_index l0) < 2 ^ n" using idx(2) l0 by fastforce+
    then have "H (leaf_input (pl_field_id l0) (pl_payload l0)) =
      H (node_input (?T ! (2 * (2 ^ d + unat (pl_index l0)))) (?T ! (2 * (2 ^ d + unat (pl_index l0)) + 1)))"
      using leaf[OF l0] T(1) by (simp add: heap_ok_def node_hash_def)
    from no_collisionD(2)[OF X pin(3)[OF l0] rin(2)[OF q] this] show False using domains_differ by blast
  qed
  have "unat (pl_index l) < length fs \<and> fs ! unat (pl_index l) = (pl_field_id l, pl_payload l)" if l: "l \<in> set (pp_leaves p)" for l
  proof -
    let ?i = "unat (pl_index l)"
    have i: "?i < 2 ^ n" using idx(2) l \<open>d = n\<close> by simp
    have e: "H (leaf_input (pl_field_id l) (pl_payload l)) = (if ?i < length fs then leaf_hash H (fst (fs ! ?i)) (snd (fs ! ?i)) else 0)"
      using leaf[OF l] T(3)[OF i] \<open>d = n\<close> by simp
    have b: "?i < length fs" using e no_collisionD(1)[OF X pin(3)[OF l]] by (simp split: if_splits)
    then have "H (leaf_input (pl_field_id l) (pl_payload l)) = H (leaf_input (fst (fs ! ?i)) (snd (fs ! ?i)))"
      using e by (simp add: leaf_hash_def)
    from no_collisionD(2)[OF X pin(3)[OF l] rin(1)[OF b] this] b show ?thesis by (simp add: leaf_input_inj prod_eq_iff)
  qed
  then show ?thesis using vw(1) idx(1) r(4) by blast
qed

section \<open>Completeness\<close>

lemma check_leaves_ok:
  "sorted_wrt (\<lambda>a b. pl_index a < pl_index b \<and> pl_field_id a < pl_field_id b) ls \<Longrightarrow>
   \<forall>l\<in>set ls. unat (pl_index l) < n \<Longrightarrow>
   \<forall>p. prev = Some p \<longrightarrow> (\<forall>l\<in>set ls. pl_index p < pl_index l \<and> pl_field_id p < pl_field_id l) \<Longrightarrow>
   check_leaves ls n prev = Inr ()"
proof (induction ls n prev rule: check_leaves.induct)
  case (2 leaf leaves n prev)
  have "check_leaves leaves n (Some leaf) = Inr ()"
    using "2.IH" "2.prems" by (auto simp: not_le split: option.splits)
  then show ?case using "2.prems" by (auto simp: not_le split: option.splits)
qed simp

lemma filter_nth: "map ((!) fs) (filter (\<lambda>i. P (fs ! i)) [0..<length fs]) = filter P fs"
proof -
  have "filter P fs = filter P (map ((!) fs) [0..<length fs])" by (simp only: map_nth)
  then show ?thesis by (simp add: filter_map comp_def)
qed

lemma prove_verify:
  assumes "sorted_wrt (<) (map fst (pr_fields r))" "length (pr_fields r) < 2 ^ 32"
    "filter (\<lambda>f. fst f \<in> set q) (pr_fields r) \<noteq> []"
  shows "\<exists>p. pj_prove H r q = Some (Inr p) \<and>
    verify H p (record_root H (pr_schema_version r) (pr_fields r)) (pr_schema_version r) =
      Some (Inr (filter (\<lambda>f. fst f \<in> set q) (pr_fields r)))"
proof -
  let ?fs = "pr_fields r" and ?v = "pr_schema_version r"
  let ?n = "length ?fs"
  define sel where "sel = filter (\<lambda>i. fst (?fs ! i) \<in> set q) [0..<?n]"
  let ?leaf = "\<lambda>i. \<lparr> pl_index = of_nat i, pl_field_id = fst (?fs ! i), pl_payload = snd (?fs ! i) \<rparr>"
  let ?ls = "map ?leaf sel"
  obtain d where d: "leaf_count ?n = 2 ^ d" "?n \<le> 2 ^ d" using leaf_count_pow[of ?n] by auto
  let ?T = "build_tree H (merkle_leaves H ?fs)"
  note T = record_root_tree[OF d(1), where H = H]
  have sel_fs: "map ((!) ?fs) sel = filter (\<lambda>f. fst f \<in> set q) ?fs" unfolding sel_def by (rule filter_nth)
  then have sel: "sel \<noteq> []" "\<forall>i\<in>set sel. i < ?n" "sorted_wrt (<) sel"
    using assms(3) by (auto simp: sel_def intro: sorted_wrt_filter)
  have q: "q \<noteq> []" using assms(3) by auto
  have u: "unat (of_nat i :: u32) = i" if "i < 2 ^ 32" for i using that by (simp add: unat_of_nat take_bit_nat_eq_self_iff)
  have un: "unat (of_nat ?n :: u32) = ?n" using assms(2) by (rule u)
  have ui: "\<And>i. i \<in> set sel \<Longrightarrow> unat (of_nat i :: u32) = i" using sel(2) assms(2) by (fastforce intro: u)
  have keys: "map fst (map (leaf_node H (2 ^ d)) ?ls) = map ((+) (2 ^ d)) sel"
    using ui by (simp add: leaf_node_def)
  have lv: "at_level d (map ((+) (2 ^ d)) sel)"
    using sel d(2) by (auto simp: at_level_def sorted_wrt_map)
  obtain sibs where s: "aggregate_loop ?T (map ((+) (2 ^ d)) sel) [] = Some sibs" "distinct (map fst sibs)"
    "\<forall>(j, v)\<in>set sibs. v = ?T ! j"
    using aggregate_loop_ok[OF lv, of "[]" ?T] by auto
  define p where "p = \<lparr> pp_schema_version = ?v, pp_field_count = of_nat ?n, pp_leaves = ?ls, pp_siblings = sibs,
    pp_claimed_root = record_root H ?v ?fs \<rparr>"
  have pr: "pj_prove H r q = Some (Inr p)"
    using q sel(1) s(1) by (simp add: pj_prove_def Let_def sel_def[symmetric] d(1) aggregate_siblings_def p_def)
  have ps: "pp_schema_version p = ?v" "pp_field_count p = of_nat ?n" "pp_leaves p = ?ls" "pp_siblings p = sibs"
    "pp_claimed_root p = record_root H ?v ?fs" by (simp_all add: p_def)
  have "check_leaves ?ls ?n None = Inr ()"
  proof (rule check_leaves_ok)
    have "(of_nat i :: u32) < of_nat j \<and> fst (?fs ! i) < fst (?fs ! j)" if "i \<in> set sel" "j \<in> set sel" "i < j" for i j
      using that ui[OF that(1)] ui[OF that(2)] assms(1) sel(2) by (auto simp: word_less_nat_alt sorted_wrt_iff_nth_less)
    then show "sorted_wrt (\<lambda>a b. pl_index a < pl_index b \<and> pl_field_id a < pl_field_id b) ?ls"
      unfolding sorted_wrt_map by (auto intro: sorted_wrt_mono_rel[OF _ sel(3)])
    show "\<forall>l\<in>set ?ls. unat (pl_index l) < ?n" using sel(2) ui by auto
  qed simp
  then have c: "check_leaves (pp_leaves p) (unat (pp_field_count p)) None = Inr ()" by (simp only: ps un)
  have "distinct (map fst (pp_siblings p))" "pp_leaves p \<noteq> []" using s(2) sel(1) by (simp_all add: ps)
  from recompute_eq[OF c this, of H]
  obtain d' where d': "leaf_count (unat (pp_field_count p)) = 2 ^ d'"
    "recompute_proof_root H p = map_option (rmap (schema_root H (pp_schema_version p)))
       (combine_loop H (map_of (pp_siblings p)) (map (leaf_node H (2 ^ d')) (pp_leaves p)))" by metis
  have dd: "(2 :: nat) ^ d' = 2 ^ d" using d'(1) d(1) by (simp add: ps un)
  have "combine_loop H (map_of sibs) (map (leaf_node H (2 ^ d)) ?ls) = Some (Inr (?T ! 1))"
  proof (rule combine_loop_tree[OF T(1) _ order.refl])
    show "at_level d (map fst (map (leaf_node H (2 ^ d)) ?ls))" unfolding keys by (rule lv)
    show "aggregate_loop ?T (map fst (map (leaf_node H (2 ^ d)) ?ls)) [] = Some sibs" unfolding keys by (rule s(1))
    show "\<forall>(j, v)\<in>set sibs. map_of sibs j = Some v" using s(2) by auto
    show "\<forall>(i, h)\<in>set (map (leaf_node H (2 ^ d)) ?ls). h = ?T ! i"
    proof
      fix x assume "x \<in> set (map (leaf_node H (2 ^ d)) ?ls)"
      then obtain i where i: "i \<in> set sel" "x = leaf_node H (2 ^ d) (?leaf i)" by auto
      have "i < ?n" "i < 2 ^ d" using sel(2) i(1) d(2) by auto
      then show "case x of (i, h) \<Rightarrow> h = ?T ! i" using T(3)[of i] ui[OF i(1)] i(2) by (simp add: leaf_node_def)
    qed
  qed
  then have "recompute_proof_root H p = Some (Inr (record_root H ?v ?fs))"
    using d'(2) T(2) by (simp add: ps dd record_root_def)
  moreover have "leaf_fields p = filter (\<lambda>f. fst f \<in> set q) ?fs"
    by (simp add: leaf_fields_def ps comp_def sel_fs)
  ultimately have "verify H p (record_root H ?v ?fs) ?v = Some (Inr (filter (\<lambda>f. fst f \<in> set q) ?fs))"
    by (simp add: verify_def ps)
  then show ?thesis using pr by blast
qed

section \<open>Records round-trip\<close>

text \<open>The builders that insertions reach, refused insertions included.\<close>

inductive built :: "u32 \<Rightarrow> projection_limits \<Rightarrow> record_builder \<Rightarrow> bool" for v limits where
  built_new: "built v limits (builder_with_limits v limits)"
| built_insert: "built v limits b \<Longrightarrow> built v limits (snd (pj_insert field_id payload b))"

definition encoded_size :: "field list \<Rightarrow> nat" where
  "encoded_size fs = 48 + (\<Sum>f\<leftarrow>fs. 8 + length (snd f))"

definition record_fits :: "projection_limits \<Rightarrow> field list \<Rightarrow> bool" where
  "record_fits limits fs \<longleftrightarrow> sorted_wrt (<) (map fst fs) \<and> (\<forall>f\<in>set fs. length (snd f) \<le> max_payload_len limits) \<and>
    (fs \<noteq> [] \<longrightarrow> length fs \<le> max_fields limits \<and> encoded_size fs \<le> max_record_len limits \<and> encoded_size fs \<le> usize_max)"

lemma built_ok:
  "built v limits b \<Longrightarrow> rb_schema_version b = v \<and> rb_limits b = limits \<and> rb_encoded_len b = encoded_size (rb_fields b) \<and>
   record_fits limits (rb_fields b)"
proof (induction rule: built.induct)
  case built_new
  show ?case by (simp add: builder_with_limits_def record_fits_def encoded_size_def pj_consts)
next
  case (built_insert b field_id payload)
  show ?case
  proof (cases "fst (pj_insert field_id payload b)")
    case (Inl e)
    then have "snd (pj_insert field_id payload b) = b" by (auto simp: pj_insert_def Let_def split: if_splits)
    then show ?thesis using built_insert by simp
  next
    case (Inr u)
    then have c: "rb_fields b \<noteq> [] \<longrightarrow> fst (last (rb_fields b)) < field_id" "length (rb_fields b) + 1 \<le> max_fields (rb_limits b)"
      "length payload \<le> max_payload_len (rb_limits b)" "rb_encoded_len b + (length payload + 8) \<le> usize_max"
      "rb_encoded_len b + (length payload + 8) \<le> max_record_len (rb_limits b)"
      "snd (pj_insert field_id payload b) = b\<lparr>rb_encoded_len := rb_encoded_len b + (length payload + 8), rb_fields := rb_fields b @ [(field_id, payload)]\<rparr>"
      by (auto simp: pj_insert_def Let_def split: if_splits)
    have "fst f < field_id" if "f \<in> set (rb_fields b)" for f
    proof -
      have "sorted_wrt (<) (map fst (rb_fields b))" using built_insert.IH by (simp add: record_fits_def)
      moreover have "rb_fields b \<noteq> []" using that by auto
      then obtain fs l where "rb_fields b = fs @ [l]" by (meson rev_exhaust)
      ultimately have "fst f \<le> fst (last (rb_fields b))" using that by (auto simp: sorted_wrt_append)
      moreover have "fst (last (rb_fields b)) < field_id" using c(1) that by auto
      ultimately show ?thesis by (rule le_less_trans)
    qed
    then show ?thesis using built_insert.IH c by (auto simp: record_fits_def encoded_size_def sorted_wrt_append)
  qed
qed

lemma pj_read_u32_at:
  "length pre + 4 \<le> usize_max \<Longrightarrow> pj_read_u32 (pre @ to_le_bytes (w :: u32) @ post) (length pre) = Inr (w, length pre + 4)"
  using slice_append[of pre "to_le_bytes w" post] by (simp add: pj_read_u32_def)

lemma length_field_bytes [simp]: "length (field_bytes f) = 8 + length (snd f)"
  by (simp add: field_bytes_def)

lemma parse_fields_built:
  assumes "sorted_wrt (<) (map fst fs)" "\<forall>f\<in>set fs. length (snd f) \<le> max_payload_len limits \<and> length (snd f) < 2 ^ 32"
    "length pre + length (concat (map field_bytes fs)) \<le> usize_max"
    "\<forall>p. prev = Some p \<longrightarrow> (\<forall>f\<in>set fs. p < fst f)"
  shows "parse_fields (length fs) (pre @ concat (map field_bytes fs) @ post) limits (length pre) prev =
    Inr (fs, length pre + length (concat (map field_bytes fs)))"
  using assms
proof (induction fs arbitrary: pre prev)
  case (Cons f fs)
  let ?id = "to_le_bytes (fst f)" and ?len = "to_le_bytes (of_nat (length (snd f)) :: u32)"
  let ?rest = "concat (map field_bytes fs) @ post"
  have n: "length (snd f) < 2 ^ 32" "length (snd f) \<le> max_payload_len limits" using Cons.prems(2) by auto
  have u: "unat (of_nat (length (snd f)) :: u32) = length (snd f)" using n(1) by (simp add: unat_of_nat take_bit_nat_eq_self_iff)
  have input: "pre @ concat (map field_bytes (f # fs)) @ post = pre @ ?id @ ?len @ snd f @ ?rest" by (simp add: field_bytes_def)
  have tot: "length pre + 8 + length (snd f) + length (concat (map field_bytes fs)) \<le> usize_max"
    using Cons.prems(3) by simp
  have r1: "pj_read_u32 (pre @ ?id @ ?len @ snd f @ ?rest) (length pre) = Inr (fst f, length pre + 4)"
    using tot by (intro pj_read_u32_at) simp
  have r2: "pj_read_u32 (pre @ ?id @ ?len @ snd f @ ?rest) (length pre + 4) = Inr (of_nat (length (snd f)), length pre + 8)"
    using tot pj_read_u32_at[of "pre @ ?id" "of_nat (length (snd f))" "snd f @ ?rest"] by (simp add: add.assoc)
  have r3: "slice (length pre + 8) (length pre + 8 + length (snd f)) (pre @ ?id @ ?len @ snd f @ ?rest) = Some (snd f)"
    using slice_append[of "pre @ ?id @ ?len" "snd f" ?rest] by (simp add: add.assoc)
  have "parse_fields (length fs) ((pre @ ?id @ ?len @ snd f) @ ?rest) limits (length (pre @ ?id @ ?len @ snd f)) (Some (fst f)) =
    Inr (fs, length (pre @ ?id @ ?len @ snd f) + length (concat (map field_bytes fs)))"
    using Cons.prems tot by (intro Cons.IH) auto
  then have r4: "parse_fields (length fs) (pre @ ?id @ ?len @ snd f @ ?rest) limits (length pre + 8 + length (snd f)) (Some (fst f)) =
    Inr (fs, length pre + 8 + length (snd f) + length (concat (map field_bytes fs)))" by (simp add: add.assoc)
  have p: "\<not> (case prev of Some p \<Rightarrow> fst f \<le> p | None \<Rightarrow> False)" using Cons.prems(4) by (auto simp: not_le split: option.splits)
  show ?case unfolding input using r1 r2 r3 r4 p n u tot
    by (simp add: add.assoc)
qed simp

lemma length_fields: "length (concat (map field_bytes fs)) + 48 = encoded_size fs"
  by (induction fs) (simp_all add: field_bytes_def encoded_size_def)

definition record_bytes :: "u32 \<Rightarrow> field list \<Rightarrow> digest \<Rightarrow> byte list" where
  "record_bytes v fs root = PJ_MAGIC @ to_le_bytes PJ_VERSION @ to_le_bytes FLAG_MERKLE @
    to_le_bytes (of_nat (length fs) :: u32) @ to_le_bytes v @ concat (map field_bytes fs) @ to_le_bytes root"

lemma length_record_bytes: "length (record_bytes v fs root) = encoded_size fs"
  using length_fields[of fs] by (simp add: record_bytes_def PJ_MAGIC_def)

lemma record_header:
  "take 4 (record_bytes v fs root) = PJ_MAGIC"
  "from_le_bytes (take 2 (drop 4 (record_bytes v fs root))) = PJ_VERSION"
  "from_le_bytes (take 2 (drop 6 (record_bytes v fs root))) = FLAG_MERKLE"
  "from_le_bytes (take 4 (drop 8 (record_bytes v fs root))) = (of_nat (length fs) :: u32)"
  "from_le_bytes (take 4 (drop 12 (record_bytes v fs root))) = v"
  by (simp_all add: record_bytes_def PJ_MAGIC_def)

lemma digest_rt [simp]: "from_le_bytes (to_le_bytes (d :: digest)) = d"
  by (rule from_to_le_bytes) simp

lemma parse_built:
  assumes "record_fits limits fs" "encoded_size fs \<le> max_record_len limits" "max_payload_len limits < 2 ^ 32"
    "max_fields limits < 2 ^ 32" "alloc (24 * length fs)"
  shows "parse_record alloc (record_bytes v fs root) limits = Inr \<lparr> pr_schema_version = v, pr_fields = fs, pr_root = root \<rparr>"
proof -
  have f: "sorted_wrt (<) (map fst fs)" "\<forall>f\<in>set fs. length (snd f) \<le> max_payload_len limits \<and> length (snd f) < 2 ^ 32"
    "length fs \<le> max_fields limits" "encoded_size fs \<le> usize_max"
    using assms(1,3) by (cases "fs = []", auto simp: record_fits_def encoded_size_def)
  have u: "unat (of_nat (length fs) :: u32) = length fs" using f(3) assms(4) by (simp add: unat_of_nat take_bit_nat_eq_self_iff)
  let ?h = "PJ_MAGIC @ to_le_bytes PJ_VERSION @ to_le_bytes FLAG_MERKLE @ to_le_bytes (of_nat (length fs) :: u32) @ to_le_bytes v"
  have b: "record_bytes v fs root = ?h @ concat (map field_bytes fs) @ to_le_bytes root" by (simp add: record_bytes_def)
  have l: "length ?h = 16" by (simp add: PJ_MAGIC_def)
  let ?c = "length (concat (map field_bytes fs))"
  have p: "parse_fields (length fs) (record_bytes v fs root) limits 16 None = Inr (fs, 16 + ?c)"
    using parse_fields_built[OF f(1,2), of ?h None "to_le_bytes root"] l f(4) length_fields[of fs] by (simp add: b)
  have s: "slice (16 + ?c) (48 + ?c) (record_bytes v fs root) = Some (to_le_bytes root)"
    using slice_append[of "?h @ concat (map field_bytes fs)" "to_le_bytes root" "[]"] l by (simp add: b add.assoc)
  have e: "48 + ?c = encoded_size fs" using length_fields[of fs] by simp
  have a: "24 * length fs \<le> 2 ^ 63 - 1" using f(3) assms(4) by simp
  show ?thesis
    using assms(2,5) f(3) u p s e a record_header[of v fs root]
    by (simp add: parse_record_def length_record_bytes pj_consts encoded_size_def Let_def)
qed

section \<open>Properties\<close>

text \<open>
  C19: soundness of projections. What verifies against the root of a record, with any proof, is fields of
  this record at ascending positions, and the version is the version of the record; unless two of
  the inputs that record and proof hash collide, or one hashes to the zero digest of the padding.
\<close>

theorem projection_sound:
  assumes "verify H p (record_root H v fs) w = Some (Inr out)"
    and "no_collision H (record_inputs H v fs @ proof_inputs H p)"
  shows "\<exists>positions. sorted_wrt (<) positions \<and> set positions \<subseteq> {..<length fs} \<and> out = map ((!) fs) positions \<and> w = v"
proof -
  note f = verified_fields[OF assms]
  let ?ps = "map (\<lambda>l. unat (pl_index l)) (pp_leaves p)"
  have "out = map ((!) fs) ?ps" using f by (simp add: leaf_fields_def)
  moreover have "set ?ps \<subseteq> {..<length fs}" using f by auto
  ultimately show ?thesis using f by blast
qed

text \<open>
  C20: completeness of projections. For a query that selects fields of a record, \<open>prove\<close> returns a proof,
  and verifying it against the root gives exactly the selected fields, in order.
\<close>

theorem projection_complete:
  assumes "sorted_wrt (<) (map fst (pr_fields r))" and "length (pr_fields r) < 2 ^ 32"
    and "filter (\<lambda>f. fst f \<in> set q) (pr_fields r) \<noteq> []"
  shows "\<exists>p. pj_prove H r q = Some (Inr p) \<and>
    verify H p (record_root H (pr_schema_version r) (pr_fields r)) (pr_schema_version r) =
      Some (Inr (filter (\<lambda>f. fst f \<in> set q) (pr_fields r)))"
  using prove_verify[OF assms] .

text \<open>
  C21: records round-trip. What a builder serialises parses, under the same limits, to its version and
  fields with the root that binds them, and the stored root verifies.
\<close>

theorem record_roundtrip:
  assumes "built v limits b" and "pj_finish alloc H b = Inr bytes" and "alloc (24 * length (rb_fields b))"
    and "max_fields limits < 2 ^ 32" and "max_payload_len limits < 2 ^ 32" and "48 \<le> max_record_len limits"
  shows "\<exists>r. parse_record alloc bytes limits = Inr r \<and> pr_schema_version r = v \<and> pr_fields r = rb_fields b \<and>
    pr_root r = record_root H v (rb_fields b) \<and> verify_root H r = Inr ()"
proof -
  have b: "rb_schema_version b = v" "record_fits limits (rb_fields b)" using built_ok[OF assms(1)] by auto
  have "bytes = record_bytes v (rb_fields b) (record_root H v (rb_fields b))"
    using assms(2) b(1) by (auto simp: pj_finish_def Let_def record_root_def record_bytes_def split: if_splits)
  moreover have "encoded_size (rb_fields b) \<le> max_record_len limits"
    using b(2) assms(6) by (cases "rb_fields b = []") (auto simp: record_fits_def encoded_size_def)
  ultimately show ?thesis using parse_built[OF b(2) _ assms(5,4), of alloc v "record_root H v (rb_fields b)"] assms(3)
    by (simp add: verify_root_def)
qed

lemma insert_total: "fst (pj_insert field_id payload b) \<noteq> Inr () \<and> snd (pj_insert field_id payload b) = b \<or>
    fst (pj_insert field_id payload b) = Inr () \<and> rb_fields (snd (pj_insert field_id payload b)) = rb_fields b @ [(field_id, payload)]"
  by (simp add: pj_insert_def Let_def)

text \<open>
  C22: the invariant of the builder. Whatever is inserted, identifiers strictly ascend, the running length
  is the length of the record, and the limits on the fields, on each payload and on the record hold; the
  next insertion appends its field, or is refused and leaves the builder as it was.
\<close>

theorem builder_invariant:
  assumes "built v limits b"
  shows "sorted_wrt (<) (map fst (rb_fields b)) \<and> rb_encoded_len b = encoded_size (rb_fields b) \<and>
    (\<forall>f\<in>set (rb_fields b). length (snd f) \<le> max_payload_len limits) \<and>
    (rb_fields b = [] \<or> length (rb_fields b) \<le> max_fields limits \<and> rb_encoded_len b \<le> max_record_len limits) \<and>
    (fst (pj_insert field_id payload b) \<noteq> Inr () \<and> snd (pj_insert field_id payload b) = b \<or>
     fst (pj_insert field_id payload b) = Inr () \<and> rb_fields (snd (pj_insert field_id payload b)) = rb_fields b @ [(field_id, payload)])"
  using built_ok[OF assms] insert_total[of field_id payload b] by (auto simp: record_fits_def)

text \<open>C23: verification terminates on every proof, malformed ones included.\<close>

theorem verify_terminates: "\<exists>r. verify H p anchor expected = Some r"
  using recompute_returns[of H p] by (auto simp: verify_def)

text \<open>
  The field count of a proof is bound only up to the power of two above it.
\<close>

lemma check_leaves_mono: "check_leaves ls n prev = Inr u \<Longrightarrow> n \<le> m \<Longrightarrow> check_leaves ls m prev = Inr u"
  by (induction ls n prev rule: check_leaves.induct) (auto split: if_splits option.splits)

lemma field_count_not_bound:
  assumes "verify H p anchor w = Some (Inr out)" "leaf_count (unat n) = leaf_count (unat (pp_field_count p))"
    "pp_field_count p \<le> n"
  shows "verify H (p\<lparr>pp_field_count := n\<rparr>) anchor w = Some (Inr out)"
proof -
  let ?p = "p\<lparr>pp_field_count := n\<rparr>"
  obtain root where r: "recompute_proof_root H p = Some (Inr root)"
    using assms(1) by (auto simp: verify_def rbind_eq_Inr split: if_splits)
  then have c: "check_leaves (pp_leaves p) (unat (pp_field_count p)) None = Inr ()"
    by (auto simp: recompute_proof_root_def Let_def split: if_splits sum.splits)
  have "unat (pp_field_count p) \<le> unat n" using assms(3) by (simp add: word_le_nat_alt)
  from check_leaves_mono[OF c this] have a: "recompute_proof_root H ?p = recompute_proof_root H p"
    using c assms(2) by (simp add: recompute_proof_root_def Let_def split: sum.split)
  have b: "leaf_fields ?p = leaf_fields p" by (simp add: leaf_fields_def)
  have "verify H ?p anchor w = verify H p anchor w" by (simp only: verify_def a b) simp
  then show ?thesis using assms(1) by simp
qed

text \<open>Typed fields read back as they were inserted.\<close>

lemma decode_canonical_varint_bytes: "decode_canonical_varint (varint_bytes v) = Inr v"
proof -
  have "varint_bytes v \<noteq> []" using length_varint_bytes[of v] by auto
  then obtain m rest where w: "varint_bytes v = m # rest" "payload_len m = Some (length rest)" "decode_varint_le m rest = Some v"
    using varint_decode_encode[of v] varint_bytes_shape[of v] by (cases "varint_bytes v") auto
  then have "varint_len m = Some (length rest + 1)"
    by (auto simp: varint_len_def payload_len_def marker_defs split: if_splits)
  then show ?thesis using w by (simp add: decode_canonical_varint_def)
qed

section \<open>A sample record\<close>

definition sample_hash :: "byte list \<Rightarrow> digest" where "sample_hash bs = of_nat (length bs)"
definition sample_fs :: "field list" where "sample_fs = [(1, [7]), (2, [7, 8])]"
definition sample_proof :: projection_proof where
  "sample_proof = \<lparr> pp_schema_version = 3, pp_field_count = 2,
    pp_leaves = [\<lparr> pl_index = 1, pl_field_id = 2, pl_payload = [7, 8] \<rparr>], pp_siblings = [(2, 10)], pp_claimed_root = 37 \<rparr>"

lemma sample_lengths:
  "length (leaf_input a q) = 9 + length q" "length (node_input l r) = 65" "length (schema_input v m) = 37"
  by (simp_all add: leaf_input_def node_input_def schema_input_def)

lemma sample_hashes [simp]:
  "sample_hash (leaf_input a q) = of_nat (9 + length q)" "sample_hash (node_input l r) = 65" "sample_hash (schema_input v m) = 37"
  by (simp_all add: sample_hash_def sample_lengths)

lemma sample_count: "leaf_count 2 = 2" "leaf_count (Suc (Suc 0)) = 2"
  by (simp_all add: leaf_count_def pow2_from.simps)

lemma sample_leaves: "merkle_leaves sample_hash sample_fs = [10, 11]"
  by (simp add: merkle_leaves_def sample_fs_def leaf_hash_def sample_count)

lemma sample_tree: "build_tree sample_hash [10, 11] = [0, 65, 10, 11]"
  by (simp add: build_tree_def node_hash_def numeral_2_eq_2)

lemma sample_root: "record_root sample_hash 3 sample_fs = 37"
  by (simp add: record_root_def schema_root_def)

lemma sample_pairs: "level_pairs (map_of [(3, 11)]) (map_of [(2, 10)]) [(3, 11)] = Inr [(1, 10, 11)]"
  by (simp add: sibling_of_def)

lemma sample_combine: "combine_loop sample_hash (map_of [(2, 10)]) [(3, 11)] = Some (Inr 65)"
  using sample_pairs by (simp add: combine_loop.simps[of _ _ "[(3, 11)]"] next_frontier_def node_hash_def combine_loop_root[simplified])


lemma sample_verify: "verify sample_hash sample_proof 37 3 = Some (Inr [(2, [7, 8])])"
proof -
  have "leaf_frontier sample_hash 2 (pp_leaves sample_proof) [] = Inr [(3, 11)]"
    by (simp add: sample_proof_def leaf_hash_def)
  moreover have "check_leaves (pp_leaves sample_proof) 2 None = Inr ()" by (simp add: sample_proof_def)
  moreover have "combine_frontier sample_hash [(3, 11)] (map_of [(2, 10)]) = Some (Inr 65)"
    using sample_combine by (simp add: combine_frontier_def)
  ultimately have "recompute_proof_root sample_hash sample_proof = Some (Inr 37)"
    by (simp add: recompute_proof_root_def sample_proof_def sample_count schema_root_def)
  then show ?thesis by (simp add: verify_def sample_proof_def leaf_fields_def)
qed

lemma sample_inputs:
  "record_inputs sample_hash 3 sample_fs = [leaf_input 1 [7], leaf_input 2 [7, 8], node_input 10 11, schema_input 3 65]"
  "proof_inputs sample_hash sample_proof = [leaf_input 2 [7, 8], node_input 10 11, schema_input 3 65]"
proof -
  have "merkle_root sample_hash [10, 11] = 65" by (simp add: merkle_root_def root_loop.simps node_hash_def)
  then show "record_inputs sample_hash 3 sample_fs = [leaf_input 1 [7], leaf_input 2 [7, 8], node_input 10 11, schema_input 3 65]"
    using sample_leaves sample_tree by (simp add: record_inputs_def Let_def) (simp add: sample_fs_def sample_count numeral_2_eq_2)
  have "frontier_inputs sample_hash (map_of [(2, 10)]) 1 [(3, 11)] = [node_input 10 11]"
    using sample_pairs by (simp add: numeral_2_eq_2)
  moreover have "combine_frontier sample_hash [(3, 11)] (map_of [(2, 10)]) = Some (Inr 65)"
    using sample_combine by (simp add: combine_frontier_def)
  moreover have "depth_of 2 2 = 1" by (simp add: numeral_2_eq_2)
  ultimately show "proof_inputs sample_hash sample_proof = [leaf_input 2 [7, 8], node_input 10 11, schema_input 3 65]"
    by (simp add: proof_inputs_def sample_proof_def sample_count leaf_node_def leaf_hash_def)
qed

lemma sample_safe: "no_collision sample_hash (record_inputs sample_hash 3 sample_fs @ proof_inputs sample_hash sample_proof)"
  by (simp add: sample_inputs no_collision_def)

theorem projection_sound_witness:
  "verify sample_hash sample_proof (record_root sample_hash 3 sample_fs) 3 = Some (Inr [(2, [7, 8])]) \<and>
   (\<exists>positions. sorted_wrt (<) positions \<and> set positions \<subseteq> {..<length sample_fs} \<and> [(2, [7, 8])] = map ((!) sample_fs) positions)"
proof -
  have v: "verify sample_hash sample_proof (record_root sample_hash 3 sample_fs) 3 = Some (Inr [(2, [7, 8])])"
    unfolding sample_root by (rule sample_verify)
  then show ?thesis using projection_sound[OF v sample_safe] by simp
qed

theorem projection_complete_witness:
  "\<exists>p. pj_prove sample_hash \<lparr> pr_schema_version = 3, pr_fields = sample_fs, pr_root = 37 \<rparr> [2] = Some (Inr p) \<and>
    verify sample_hash p (record_root sample_hash 3 sample_fs) 3 = Some (Inr [(2, [7, 8])])"
  using projection_complete[of "\<lparr> pr_schema_version = 3, pr_fields = sample_fs, pr_root = 37 \<rparr>" "[2]" sample_hash]
  by (simp add: sample_fs_def)

definition sample_builder :: record_builder where
  "sample_builder = snd (pj_insert 2 [7, 8] (snd (pj_insert 1 [7] (builder_with_limits 3 default_limits))))"

lemma sample_built: "built 3 default_limits sample_builder"
  unfolding sample_builder_def by (intro built_insert built_new)

lemma sample_builder_fields: "rb_fields sample_builder = sample_fs" "rb_schema_version sample_builder = 3" "rb_encoded_len sample_builder = 67"
  by (simp_all add: sample_builder_def word_le_nat_alt pj_insert_def builder_with_limits_def default_limits_def sample_fs_def pj_consts Let_def)

theorem record_roundtrip_witness:
  "\<exists>bytes r. pj_finish (\<lambda>_. True) sample_hash sample_builder = Inr bytes \<and>
    parse_record (\<lambda>_. True) bytes default_limits = Inr r \<and> pr_fields r = sample_fs"
proof -
  obtain bytes where f: "pj_finish (\<lambda>_. True) sample_hash sample_builder = Inr bytes"
    by (simp add: pj_finish_def Let_def sample_builder_fields)
  show ?thesis using record_roundtrip[OF sample_built f] f by (auto simp: default_limits_def sample_builder_fields)
qed

theorem builder_invariant_witness:
  "sorted_wrt (<) (map fst (rb_fields sample_builder)) \<and> rb_encoded_len sample_builder = encoded_size sample_fs \<and>
   list_all (\<lambda>f. length (snd f) \<le> 16 * 1024 * 1024) sample_fs \<and> snd (pj_insert 0 [] sample_builder) = sample_builder"
proof -
  have "fst (pj_insert 0 [] sample_builder) \<noteq> Inr ()"
    by (simp add: pj_insert_def sample_builder_fields sample_fs_def Let_def)
  then show ?thesis using builder_invariant[OF sample_built, of 0 "[]"]
    by (simp add: sample_builder_fields default_limits_def list_all_iff)
qed

end
