(* ===== verification/Schema.thy ===== *)
theory Schema
  imports Compression
begin

text \<open>
  \<^verbatim>\<open>src/frame.rs\<close> and \<^verbatim>\<open>src/schema.rs\<close>: FNV-1a fingerprints of types and configurations, the 16-byte header
  that carries one, and the profile that prefixes a payload with it.
\<close>

section \<open>Fingerprint headers\<close>

definition FP_HEADER_LEN :: nat where "FP_HEADER_LEN = 16"
definition FP_VERSION :: u16 where "FP_VERSION = 1"
definition FRAME_MAGIC :: "byte list" where "FRAME_MAGIC = [0x52, 0x42, 0x46, 0x50]"

definition encode_header :: "byte list \<Rightarrow> u64 \<Rightarrow> byte list" where
  "encode_header magic fingerprint = magic @ to_le_bytes FP_VERSION @ [0, 0] @ to_le_bytes fingerprint"

definition validate_header :: "byte list \<Rightarrow> byte list \<Rightarrow> u64 \<Rightarrow> error + byte list" where
  "validate_header magic input expected =
    rbind (ok_or (InvalidFrame ''truncated fingerprint header'') (slice 0 FP_HEADER_LEN input)) (\<lambda>bytes.
      if take 4 bytes \<noteq> magic then Inl (InvalidFrame ''bad fingerprint magic'')
      else if from_le_bytes (take 2 (drop 4 bytes)) \<noteq> FP_VERSION
        then Inl (InvalidFrame ''unsupported fingerprint frame version'')
      else if take 2 (drop 6 bytes) \<noteq> [0, 0] then Inl (InvalidFrame ''reserved fingerprint flags are not zero'')
      else let actual = from_le_bytes (take 8 (drop 8 bytes)) in
        if actual \<noteq> expected then Inl (SchemaMismatch (unat expected) (unat actual))
        else Inr (drop FP_HEADER_LEN input))"

section \<open>Fingerprints\<close>

definition FNV_OFFSET :: u64 where "FNV_OFFSET = 0xcbf29ce484222325"
definition FNV_PRIME :: u64 where "FNV_PRIME = 0x00000100000001b3"

definition hash_byte :: "u64 \<Rightarrow> byte \<Rightarrow> u64" where
  "hash_byte hash b = (hash XOR ucast b) * FNV_PRIME"

definition hash_bytes :: "u64 \<Rightarrow> byte list \<Rightarrow> u64" where
  "hash_bytes hash bytes = foldl hash_byte hash bytes"

definition hash_u64 :: "u64 \<Rightarrow> u64 \<Rightarrow> u64" where
  "hash_u64 hash v = hash_bytes hash (to_le_bytes v)"

definition tagged_hash :: "string \<Rightarrow> u64" where
  "tagged_hash tag = hash_bytes FNV_OFFSET (map of_char tag)"

text \<open>
  The types with an implementation in the crate: primitives by name, references, the containers of one
  parameter by tag, arrays, the two maps, and tuples.
\<close>

datatype schema_type =
    FpPrimitive string
  | FpRef schema_type
  | FpUnary string schema_type
  | FpArray schema_type u64
  | FpMap string schema_type schema_type
  | FpTuple "schema_type list"

fun type_fingerprint :: "schema_type \<Rightarrow> u64" where
  "type_fingerprint (FpPrimitive name) = tagged_hash name"
| "type_fingerprint (FpRef t) = hash_u64 (tagged_hash ''ref'') (type_fingerprint t)"
| "type_fingerprint (FpUnary tag t) = hash_u64 (tagged_hash tag) (type_fingerprint t)"
| "type_fingerprint (FpArray t n) = hash_u64 (hash_u64 (tagged_hash ''array'') (type_fingerprint t)) n"
| "type_fingerprint (FpMap tag k v) = hash_u64 (hash_u64 (tagged_hash tag) (type_fingerprint k)) (type_fingerprint v)"
| "type_fingerprint (FpTuple ts) = foldl (\<lambda>hash t. hash_u64 hash (type_fingerprint t)) (tagged_hash ''tuple'') ts"

definition option_value :: "nat option \<Rightarrow> u64" where
  "option_value value = (case value of Some v \<Rightarrow> of_nat v XOR push_bit 63 1 | None \<Rightarrow> 0)"

definition endian_value :: "endian \<Rightarrow> u64" where
  "endian_value e = (case e of Little \<Rightarrow> 1 | Big \<Rightarrow> 2 | Native \<Rightarrow> 3)"

definition integers_value :: "int_encoding \<Rightarrow> u64" where
  "integers_value i = (case i of Fixed \<Rightarrow> 1 | Variable \<Rightarrow> 2)"

definition trailing_value :: "trailing \<Rightarrow> u64" where
  "trailing_value t = (case t of Allow \<Rightarrow> 1 | Reject \<Rightarrow> 2)"

definition config_fingerprint :: "u64 \<Rightarrow> config \<Rightarrow> u64" where
  "config_fingerprint hash0 cfg =
    (let hash1 = hash_u64 hash0 0x7275737462696e01;
         hash2 = hash_u64 hash1 (endian_value (c_endian cfg));
         hash3 = hash_u64 hash2 (integers_value (c_integers cfg));
         hash4 = hash_u64 hash3 (trailing_value (c_trailing cfg));
         hash5 = hash_u64 hash4 (option_value (c_limit cfg))
     in hash_u64 hash5 (option_value (c_collection_limit cfg)))"

definition fingerprint_of :: "schema_type \<Rightarrow> config \<Rightarrow> u64" where
  "fingerprint_of t cfg = config_fingerprint (type_fingerprint t) cfg"

section \<open>The fingerprinted profile\<close>

definition fp_serialize ::
  "(nat \<Rightarrow> bool) \<Rightarrow> config \<Rightarrow> schema_type \<Rightarrow> event list \<Rightarrow> error + byte list" where
  "fp_serialize alloc cfg t evs =
    rbind (to_vec cfg evs) (\<lambda>payload.
    rbind (try_reserve alloc (min usize_max (FP_HEADER_LEN + length payload))) (\<lambda>_.
      Inr (encode_header FRAME_MAGIC (fingerprint_of t cfg) @ payload)))"

definition fp_serialize_into_slice ::
  "config \<Rightarrow> schema_type \<Rightarrow> event list \<Rightarrow> byte list \<Rightarrow> (error + nat) \<times> byte list" where
  "fp_serialize_into_slice cfg t evs output =
    (if length output < FP_HEADER_LEN
     then (rbind (ser_size cfg evs) (\<lambda>payload.
            Inl (BufferTooSmall (min usize_max (FP_HEADER_LEN + payload)) (length output))), output)
     else let header = encode_header FRAME_MAGIC (fingerprint_of t cfg);
              (r, tail) = to_slice cfg evs (drop FP_HEADER_LEN output)
          in ((case r of
                 Inr written \<Rightarrow> Inr (FP_HEADER_LEN + written)
               | Inl (BufferTooSmall required _) \<Rightarrow>
                   Inl (BufferTooSmall (min usize_max (FP_HEADER_LEN + required)) (length output))
               | Inl e \<Rightarrow> Inl e), header @ tail))"

definition fp_deserialize ::
  "config \<Rightarrow> schema_type \<Rightarrow> (decoder, 'a) op \<Rightarrow> byte list \<Rightarrow> error + 'a" where
  "fp_deserialize cfg t T input =
    rbind (validate_header FRAME_MAGIC input (fingerprint_of t cfg)) (\<lambda>payload. from_slice cfg T payload)"

definition fp_deserialize_from ::
  "config \<Rightarrow> schema_type \<Rightarrow> (decoder, 'a) op \<Rightarrow> byte list \<Rightarrow> error + 'a" where
  "fp_deserialize_from cfg t T source =
    rbind (read_exact FP_HEADER_LEN source) (\<lambda>(frame_header, rest).
    rbind (validate_header FRAME_MAGIC frame_header (fingerprint_of t cfg)) (\<lambda>_. deserialize_from cfg T rest))"

definition fp_serialized_size :: "config \<Rightarrow> event list \<Rightarrow> error + nat" where
  "fp_serialized_size cfg evs = rbind (ser_size cfg evs) (\<lambda>n.
     if n + FP_HEADER_LEN > usize_max then Inl (SizeLimit usize_max) else Inr (n + FP_HEADER_LEN))"

section \<open>Headers are exact\<close>

lemma length_encode_header: "length magic = 4 \<Longrightarrow> length (encode_header magic fp) = 16"
  by (simp add: encode_header_def)

lemma validate_encoded:
  "length magic = 4 \<Longrightarrow> validate_header magic (encode_header magic fp @ payload) expected =
    (if fp = expected then Inr payload else Inl (SchemaMismatch (unat expected) (unat fp)))"
  using slice_append[of "[]" "encode_header magic fp" payload]
  by (simp add: validate_header_def FP_HEADER_LEN_def encode_header_def Let_def)

lemma validate_header_Inr:
  assumes "length magic = 4" "validate_header magic input fp = Inr payload"
  shows "input = encode_header magic fp @ payload"
proof -
  obtain h where h: "slice 0 16 input = Some h" "take 4 h = magic" "from_le_bytes (take 2 (drop 4 h)) = FP_VERSION"
    "take 2 (drop 6 h) = [0, 0]" "from_le_bytes (take 8 (drop 8 h)) = fp" "payload = drop 16 input"
    using assms(2) by (auto simp: validate_header_def FP_HEADER_LEN_def rbind_eq_Inr Let_def split: if_splits)
  have l: "length h = 16" "input = h @ payload" using h(1,6) by (auto simp: slice_eq_Some)
  have "take 2 (drop 4 h) = to_le_bytes FP_VERSION" using h(3) to_from_le_bytes[of "take 2 (drop 4 h)", where 'a = 16] l(1) by simp
  moreover have "take 8 (drop 8 h) = to_le_bytes fp" using h(5) to_from_le_bytes[of "take 8 (drop 8 h)", where 'a = 64] l(1) by simp
  moreover have "h = take 4 h @ take 2 (drop 4 h) @ take 2 (drop 6 h) @ take 8 (drop 8 h)"
  proof -
    have "h = take 4 h @ drop 4 h" "drop 4 h = take 2 (drop 4 h) @ drop 6 h" "drop 6 h = take 2 (drop 6 h) @ drop 8 h"
      "drop 8 h = take 8 (drop 8 h)"
      using l(1) append_take_drop_id[of 2 "drop 4 h"] append_take_drop_id[of 2 "drop 6 h"] by simp_all
    then show ?thesis by metis
  qed
  ultimately have "h = encode_header magic fp" using h(2,4) by (simp add: encode_header_def)
  then show ?thesis using l(2) by simp
qed

section \<open>FNV-1a is injective in its state\<close>

lemma prime_inverse: "FNV_PRIME * 0xce965057aff6957b = 1"
  by (simp add: FNV_PRIME_def)

lemma hash_byte_inj: "hash_byte h b = hash_byte g c \<Longrightarrow> h XOR ucast b = g XOR ucast c"
proof -
  assume "hash_byte h b = hash_byte g c"
  then have "(h XOR ucast b) * (FNV_PRIME * 0xce965057aff6957b) = (g XOR ucast c) * (FNV_PRIME * 0xce965057aff6957b)"
    by (simp only: hash_byte_def mult.assoc[symmetric])
  then show ?thesis by (simp only: prime_inverse mult_1_right)
qed

lemma xor_cancel: "(a :: 'a::len word) XOR c = b XOR c \<Longrightarrow> a = b"
  by (metis xor.assoc xor.right_neutral xor_self_eq)

lemma hash_bytes_inj: "hash_bytes h bs = hash_bytes g bs \<Longrightarrow> h = g"
  unfolding hash_bytes_def
proof (induction bs arbitrary: h g)
  case (Cons b bs)
  then have "hash_byte h b = hash_byte g b" by simp
  then show ?case using hash_byte_inj xor_cancel by blast
qed simp

lemma hash_u64_inj: "hash_u64 h v = hash_u64 g v \<longleftrightarrow> h = g"
  using hash_bytes_inj by (auto simp: hash_u64_def)

lemma hash_u64_small:
  assumes "unat v < 256" "unat w < 256" "hash_u64 h v = hash_u64 h w"
  shows "v = w"
proof -
  have s: "to_le_bytes x = of_nat (unat x) # replicate 7 0" if "unat x < 256" for x :: u64
  proof -
    have "to_le_bytes x = nat_to_le (Suc 7) (unat x)" by (simp add: to_le_bytes_def)
    then show ?thesis using that by (simp only: nat_to_le.simps div_less nat_to_le_zero)
  qed
  have "hash_byte h (of_nat (unat v)) = hash_byte h (of_nat (unat w))"
    using assms(3) hash_bytes_inj[of _ "replicate 7 0"]
    by (simp only: hash_u64_def s[OF assms(1)] s[OF assms(2)] hash_bytes_def foldl_Cons)
  from hash_byte_inj[OF this] have "ucast (of_nat (unat v) :: byte) = (ucast (of_nat (unat w) :: byte) :: u64)"
    by (metis xor.commute xor_cancel)
  then show ?thesis using assms(1,2) by (simp add: ucast_ucast_id)
qed

text \<open>
  C25: what a configuration's fingerprint sees. It separates any two configurations that differ in one of
  byte order, integer encoding or trailing policy; it does not see the depth limit, and it confuses a
  byte or collection limit of \<open>2^63\<close> with no limit.
\<close>

theorem fingerprint_sensitivity:
  "(config_fingerprint h (cfg\<lparr>c_endian := e\<rparr>) = config_fingerprint h (cfg\<lparr>c_endian := e'\<rparr>) \<longleftrightarrow> e = e') \<and>
   (config_fingerprint h (cfg\<lparr>c_integers := i\<rparr>) = config_fingerprint h (cfg\<lparr>c_integers := i'\<rparr>) \<longleftrightarrow> i = i') \<and>
   (config_fingerprint h (cfg\<lparr>c_trailing := t\<rparr>) = config_fingerprint h (cfg\<lparr>c_trailing := t'\<rparr>) \<longleftrightarrow> t = t') \<and>
   config_fingerprint h (cfg\<lparr>c_depth_limit := d\<rparr>) = config_fingerprint h cfg \<and>
   config_fingerprint h (cfg\<lparr>c_limit := Some (2 ^ 63)\<rparr>) = config_fingerprint h (cfg\<lparr>c_limit := None\<rparr>) \<and>
   config_fingerprint h (cfg\<lparr>c_collection_limit := Some (2 ^ 63)\<rparr>) = config_fingerprint h (cfg\<lparr>c_collection_limit := None\<rparr>)"
proof -
  have e: "hash_u64 g (endian_value e) = hash_u64 g (endian_value e') \<longleftrightarrow> e = e'" for g
    using hash_u64_small[of "endian_value e" "endian_value e'" g] by (auto simp: endian_value_def split: endian.splits)
  have i: "hash_u64 g (integers_value i) = hash_u64 g (integers_value i') \<longleftrightarrow> i = i'" for g
    using hash_u64_small[of "integers_value i" "integers_value i'" g] by (auto simp: integers_value_def split: int_encoding.splits)
  have t: "hash_u64 g (trailing_value t) = hash_u64 g (trailing_value t') \<longleftrightarrow> t = t'" for g
    using hash_u64_small[of "trailing_value t" "trailing_value t'" g] by (auto simp: trailing_value_def split: trailing.splits)
  have o: "option_value (Some (2 ^ 63)) = option_value None" by (simp add: option_value_def)
  show ?thesis using o by (simp add: config_fingerprint_def Let_def hash_u64_inj e i t)
qed

text \<open>
  C24: the fingerprinted profile. A value serialised for one type is decoded, when the other side expects
  the same fingerprint, to the value (its \<^verbatim>\<open>f32\<close>s widened), and is refused with both fingerprints otherwise; the payload is
  not looked at then.
\<close>

theorem fingerprint_roundtrip:
  assumes "reachable_config cfg" and "reads_values (self_describing cfg) read"
    and "fp_serialize alloc cfg t (events lead v) = Inr frame" and "strings_ok v"
    and "admissible True (c_collection_limit cfg) v" and "length (wire cfg v) \<le> n"
  shows "fp_deserialize cfg t' (read n) frame =
    (if fingerprint_of t cfg = fingerprint_of t' cfg then Inr (widened v)
     else Inl (SchemaMismatch (unat (fingerprint_of t' cfg)) (unat (fingerprint_of t cfg))))"
proof -
  obtain payload where p: "to_vec cfg (events lead v) = Inr payload" "frame = encode_header FRAME_MAGIC (fingerprint_of t cfg) @ payload"
    using assms(3) by (auto simp: fp_serialize_def rbind_eq_Inr)
  have w: "payload = wire cfg v" using to_vec_wire[OF assms(1), of lead v payload] p(1) by simp
  have m: "length FRAME_MAGIC = 4" by (simp add: FRAME_MAGIC_def)
  have "from_slice cfg (read n) payload = Inr (widened v)"
    using decode_encoded[OF assms(1,2) p(1) assms(4,5), of n "[]"] assms(6) w by simp
  then show ?thesis using validate_encoded[OF m] p(2) w by (simp add: fp_deserialize_def)
qed

text \<open>
  Only a frame with the expected header reaches the payload decoder, which sees exactly the bytes
  after it.
\<close>

lemma fingerprint_exact:
  "fp_deserialize cfg t T input = Inr v \<longleftrightarrow>
   (\<exists>payload. input = encode_header FRAME_MAGIC (fingerprint_of t cfg) @ payload \<and> from_slice cfg T payload = Inr v)"
proof -
  have m: "length FRAME_MAGIC = 4" by (simp add: FRAME_MAGIC_def)
  show ?thesis using validate_header_Inr[OF m] validate_encoded[OF m]
    by (auto simp: fp_deserialize_def rbind_eq_Inr)
qed

text \<open>The entry points agree on the frame.\<close>

lemma fingerprint_entry_points:
  assumes "to_vec cfg evs = Inr payload" "16 + length payload \<le> usize_max"
  shows "fp_serialized_size cfg evs = Inr (16 + length payload) \<and>
    fst (fp_serialize_into_slice cfg t evs output) =
      (if 16 + length payload \<le> length output then Inr (16 + length payload)
       else Inl (BufferTooSmall (16 + length payload) (length output)))"
  using assms entry_points_eq[of cfg evs "drop 16 output"]
  by (auto simp: fp_serialized_size_def fp_serialize_into_slice_def FP_HEADER_LEN_def Let_def split_beta min_def)

definition sample_fp_frame :: "byte list" where
  "sample_fp_frame = encode_header FRAME_MAGIC (fingerprint_of (FpPrimitive ''bool'') standard) @ [TAG_TRUE]"

theorem fingerprint_roundtrip_witness:
  "fp_serialize (\<lambda>_. True) standard (FpPrimitive ''bool'') (events True (JBool True)) = Inr sample_fp_frame \<and>
   fp_deserialize standard (FpPrimitive ''bool'') (client_value (self_describing standard) 1) sample_fp_frame = Inr (JBool True)"
proof -
  have s: "fp_serialize (\<lambda>_. True) standard (FpPrimitive ''bool'') (events True (JBool True)) = Inr sample_fp_frame"
    by (simp add: fp_serialize_def sample_to_vec sample_fp_frame_def try_reserve_def FP_HEADER_LEN_def del: events.simps)
  have l: "length (wire standard (JBool True)) = 1" by (simp add: sample_z_simps)
  show ?thesis using fingerprint_roundtrip[OF reachable_config.standard client_reads s, of 1 "FpPrimitive ''bool''", unfolded l] s
    by (simp del: client_value.simps)
qed

end
