(* ===== verification/Trust.thy ===== *)
theory Trust
  imports Compression
begin

text \<open>
  \<^verbatim>\<open>src/trust.rs\<close>: configurations and sessions whose authentication state is part of their type. A codec is
  its two functions; the type-level states are values here, and an operation the code does not offer in
  a state has no step from it.
\<close>

section \<open>Codecs and configurations\<close>

record 'v codec =
  serialize_frame :: "'v \<Rightarrow> error + byte list"
  deserialize_frame :: "byte list \<Rightarrow> error + 'v"

type_synonym verifier = "byte list \<Rightarrow> error + unit"

datatype auth_level = Untrusted | Authenticated

record 'v trusted_config =
  tc_inner :: "'v codec"
  tc_verifier :: "verifier option"
  tc_level :: auth_level

definition unauthenticated :: "'v codec \<Rightarrow> 'v trusted_config" where
  "unauthenticated config = \<lparr> tc_inner = config, tc_verifier = None, tc_level = Untrusted \<rparr>"

definition tc_authenticate :: "verifier \<Rightarrow> 'v trusted_config \<Rightarrow> 'v trusted_config" where
  "tc_authenticate verifier c = \<lparr> tc_inner = tc_inner c, tc_verifier = Some verifier, tc_level = Authenticated \<rparr>"

definition tc_serialize :: "'v trusted_config \<Rightarrow> 'v \<Rightarrow> error + byte list" where
  "tc_serialize c value = serialize_frame (tc_inner c) value"

definition deserialize_untrusted :: "'v trusted_config \<Rightarrow> byte list \<Rightarrow> error + 'v" where
  "deserialize_untrusted c input = deserialize_frame (tc_inner c) input"

definition tc_deserialize :: "'v trusted_config \<Rightarrow> byte list \<Rightarrow> error + 'v" where
  "tc_deserialize c input =
    rbind (ok_or (Trust ''authenticated config lost its verifier'') (tc_verifier c)) (\<lambda>verifier.
    rbind (verifier input) (\<lambda>_. deserialize_frame (tc_inner c) input))"

section \<open>Sessions\<close>

datatype session_state = Handshake | Open | Closed

text \<open>The reader is the bytes it still returns.\<close>

record 'v session =
  s_codec :: "'v codec"
  s_max_frame_len :: "nat option"
  s_verifier :: "verifier option"
  s_reader :: "byte list"
  s_state :: session_state

definition session_new :: "'v codec \<Rightarrow> byte list \<Rightarrow> 'v session" where
  "session_new codec stream =
    \<lparr> s_codec = codec, s_max_frame_len = Some DEFAULT_SIZE_LIMIT, s_verifier = None, s_reader = stream, s_state = Handshake \<rparr>"

definition with_max_frame_len :: "nat option \<Rightarrow> 'v session \<Rightarrow> 'v session" where
  "with_max_frame_len limit s = s\<lparr>s_max_frame_len := limit\<rparr>"

definition s_authenticate :: "verifier \<Rightarrow> 'v session \<Rightarrow> 'v session" where
  "s_authenticate verifier s = s\<lparr>s_verifier := Some verifier, s_state := Open\<rparr>"

definition s_close :: "'v session \<Rightarrow> 'v session" where
  "s_close s = s\<lparr>s_verifier := None, s_state := Closed\<rparr>"

text \<open>
  \<^verbatim>\<open>Read::read_exact\<close> on a source that ends early reports an error and leaves the position of the source
  open: \<open>lost\<close> says what such a source still returns.
\<close>

definition s_read_exact :: "(byte list \<Rightarrow> byte list) \<Rightarrow> nat \<Rightarrow> ('v session, byte list) op" where
  "s_read_exact lost n s =
    (case read_exact n (s_reader s) of
       Inr (bytes, rest) \<Rightarrow> (Inr bytes, s\<lparr>s_reader := rest\<rparr>)
     | Inl e \<Rightarrow> (Inl e, s\<lparr>s_reader := lost (s_reader s)\<rparr>))"

definition recv_verified ::
  "(nat \<Rightarrow> bool) \<Rightarrow> (byte list \<Rightarrow> byte list) \<Rightarrow> ('v session, 'v) op" where
  "recv_verified alloc lost =
    sbind (s_read_exact lost 8) (\<lambda>length_bytes.
      let len = unat (from_le_bytes length_bytes :: u64) in
      sbind (slift (\<lambda>s. check_limit (s_max_frame_len s) len)) (\<lambda>_.
      sbind (slift (\<lambda>s. with_capacity alloc len)) (\<lambda>_.
      sbind (s_read_exact lost len) (\<lambda>frame.
      sbind (slift (\<lambda>s. ok_or (Trust ''authenticated session lost its verifier'') (s_verifier s))) (\<lambda>verifier.
      sbind (slift (\<lambda>s. verifier frame)) (\<lambda>_.
      slift (\<lambda>s. deserialize_frame (s_codec s) frame)))))))"

text \<open>A writer is the bytes it has taken; it takes all of them.\<close>

definition s_send :: "'v session \<Rightarrow> 'v \<Rightarrow> byte list \<Rightarrow> (error + unit) \<times> byte list" where
  "s_send s value writer =
    (case serialize_frame (s_codec s) value of
       Inl e \<Rightarrow> (Inl e, writer)
     | Inr payload \<Rightarrow>
         if length payload > usize_max then (Inl (Trust ''session frame too large''), writer)
         else (Inr (), writer @ to_le_bytes (of_nat (length payload) :: u64) @ payload))"

section \<open>What a session can do\<close>

text \<open>The calls the types allow, with what they do to the outside.\<close>

datatype 'v session_event = Limited "nat option" | AuthenticatedBy verifier | Received "error + 'v" | Ended

inductive session_step ::
  "(nat \<Rightarrow> bool) \<Rightarrow> (byte list \<Rightarrow> byte list) \<Rightarrow> 'v session \<Rightarrow> 'v session_event \<Rightarrow> 'v session \<Rightarrow> bool"
  for alloc lost where
  step_limit: "s_state s = Handshake \<Longrightarrow> session_step alloc lost s (Limited limit) (with_max_frame_len limit s)"
| step_authenticate: "s_state s = Handshake \<Longrightarrow> session_step alloc lost s (AuthenticatedBy verifier) (s_authenticate verifier s)"
| step_recv: "s_state s = Open \<Longrightarrow> recv_verified alloc lost s = (r, s') \<Longrightarrow> session_step alloc lost s (Received r) s'"
| step_close: "s_state s = Open \<Longrightarrow> session_step alloc lost s Ended (s_close s)"

inductive session_run ::
  "(nat \<Rightarrow> bool) \<Rightarrow> (byte list \<Rightarrow> byte list) \<Rightarrow> 'v session \<Rightarrow> 'v session_event list \<Rightarrow> 'v session \<Rightarrow> bool"
  for alloc lost s0 where
  run_start: "session_run alloc lost s0 [] s0"
| run_step: "session_run alloc lost s0 evs s \<Longrightarrow> session_step alloc lost s ev s' \<Longrightarrow> session_run alloc lost s0 (evs @ [ev]) s'"

inductive_cases session_stepE: "session_step alloc lost s ev s'"
inductive_cases session_runE: "session_run alloc lost s0 (evs @ [ev]) s"

section \<open>What is received was verified\<close>

definition session_frame :: "byte list \<Rightarrow> byte list" where
  "session_frame payload = to_le_bytes (of_nat (length payload) :: u64) @ payload"

lemma s_read_exact_Inr:
  "s_read_exact lost n s = (Inr bytes, s') \<longleftrightarrow>
    length bytes = n \<and> (\<exists>rest. s_reader s = bytes @ rest \<and> s' = s\<lparr>s_reader := rest\<rparr>)"
  by (auto simp: s_read_exact_def read_exact_def split: if_splits) (metis append_take_drop_id)

lemma recv_Inr:
  assumes "recv_verified alloc lost s = (Inr v, s')"
  obtains frame rest verifier where "s_reader s = to_le_bytes (of_nat (length frame) :: u64) @ frame @ rest"
    "s' = s\<lparr>s_reader := rest\<rparr>" "s_verifier s = Some verifier" "verifier frame = Inr ()"
    "deserialize_frame (s_codec s) frame = Inr v" "within (s_max_frame_len s) (length frame)"
proof -
  obtain lb s1 where a: "s_read_exact lost 8 s = (Inr lb, s1)"
    "sbind (slift (\<lambda>s. check_limit (s_max_frame_len s) (unat (from_le_bytes lb :: u64)))) (\<lambda>_.
      sbind (slift (\<lambda>s. with_capacity alloc (unat (from_le_bytes lb :: u64)))) (\<lambda>_.
      sbind (s_read_exact lost (unat (from_le_bytes lb :: u64))) (\<lambda>frame.
      sbind (slift (\<lambda>s. ok_or (Trust ''authenticated session lost its verifier'') (s_verifier s))) (\<lambda>verifier.
      sbind (slift (\<lambda>s. verifier frame)) (\<lambda>_.
      slift (\<lambda>s. deserialize_frame (s_codec s) frame)))))) s1 = (Inr v, s')"
    using assms unfolding recv_verified_def Let_def by (auto simp: sbind_Inr)
  let ?n = "unat (from_le_bytes lb :: u64)"
  obtain rest1 where r1: "length lb = 8" "s_reader s = lb @ rest1" "s1 = s\<lparr>s_reader := rest1\<rparr>"
    using a(1) by (auto simp: s_read_exact_Inr)
  obtain frame s2 verifier where b: "within (s_max_frame_len s1) ?n" "s_read_exact lost ?n s1 = (Inr frame, s2)"
    "s_verifier s2 = Some verifier" "verifier frame = Inr ()" "deserialize_frame (s_codec s2) frame = Inr v" "s' = s2"
    using a(2) by (auto simp: sbind_Inr)
  obtain rest2 where r2: "length frame = ?n" "rest1 = frame @ rest2" "s2 = s1\<lparr>s_reader := rest2\<rparr>"
    using b(2) r1(3) by (auto simp: s_read_exact_Inr)
  have "to_le_bytes (of_nat (length frame) :: u64) = lb"
    using r1(1) r2(1) to_from_le_bytes[of lb, where 'a = 64] by simp
  then show ?thesis using that[of frame rest2 verifier] r1 r2 b by simp
qed

lemma recv_keeps:
  "recv_verified alloc lost s = (r, s') \<Longrightarrow> s_codec s' = s_codec s \<and> s_verifier s' = s_verifier s \<and>
    s_state s' = s_state s \<and> s_max_frame_len s' = s_max_frame_len s"
  unfolding recv_verified_def Let_def
  by (auto simp: sbind_def s_read_exact_def split: prod.splits sum.splits)


text \<open>The verifier of a session is the one it was authenticated with; the reader runs down the stream.\<close>

definition session_inv :: "'v codec \<Rightarrow> byte list \<Rightarrow> 'v session_event list \<Rightarrow> 'v session \<Rightarrow> bool" where
  "session_inv codec stream evs s \<longleftrightarrow>
    s_codec s = codec \<and> (\<exists>pre. stream = pre @ s_reader s) \<and>
    (s_state s = Open \<longrightarrow> (\<exists>verifier. s_verifier s = Some verifier \<and> AuthenticatedBy verifier \<in> set evs)) \<and>
    (s_state s \<noteq> Open \<longrightarrow> s_verifier s = None)"

definition drops :: "('v session, 'a) op \<Rightarrow> bool" where
  "drops m \<longleftrightarrow> (\<forall>s. \<exists>pre. s_reader s = pre @ s_reader (snd (m s)))"

lemma drops_slift: "drops (slift f)"
  by (simp add: drops_def)

lemma drops_sbind: "drops m \<Longrightarrow> (\<And>x. drops (f x)) \<Longrightarrow> drops (sbind m f)"
  unfolding drops_def
proof
  fix s assume m: "\<forall>s. \<exists>pre. s_reader s = pre @ s_reader (snd (m s))" and f: "\<And>x. \<forall>s. \<exists>pre. s_reader s = pre @ s_reader (snd (f x s))"
  obtain p where p: "s_reader s = p @ s_reader (snd (m s))" using m by blast
  show "\<exists>pre. s_reader s = pre @ s_reader (snd (sbind m f s))"
  proof (cases rule: sbind_cases[of m s f])
    case (err e s')
    then show ?thesis using p by auto
  next
    case (ok x s')
    obtain q where "s_reader s' = q @ s_reader (snd (f x s'))" using f by blast
    then have "s_reader s = (p @ q) @ s_reader (snd (sbind m f s))" using p ok by simp
    then show ?thesis by blast
  qed
qed

lemma drops_read:
  assumes "\<forall>xs. \<exists>pre. xs = pre @ lost xs" shows "drops (s_read_exact lost n)"
  unfolding drops_def
proof
  fix s
  show "\<exists>pre. s_reader s = pre @ s_reader (snd (s_read_exact lost n s))"
  proof (cases "length (s_reader s) < n")
    case True
    then show ?thesis using assms by (simp add: s_read_exact_def read_exact_def)
  next
    case False
    then have "s_reader s = take n (s_reader s) @ s_reader (snd (s_read_exact lost n s))"
      by (simp add: s_read_exact_def read_exact_def)
    then show ?thesis by blast
  qed
qed

lemma drops_recv: "\<forall>xs. \<exists>pre. xs = pre @ lost xs \<Longrightarrow> drops (recv_verified alloc lost)"
  unfolding recv_verified_def Let_def by (intro drops_sbind drops_slift drops_read)

lemma session_inv_step:
  assumes "\<forall>xs. \<exists>pre. xs = pre @ lost xs" "session_inv codec stream evs s" "session_step alloc lost s ev s'"
  shows "session_inv codec stream (evs @ [ev]) s'"
  using assms(3)
proof (cases rule: session_step.cases)
  case (step_recv r)
  have "\<exists>pre. s_reader s = pre @ s_reader (snd (recv_verified alloc lost s))"
    using drops_recv[OF assms(1), of alloc] unfolding drops_def by blast
  then obtain pre where "s_reader s = pre @ s_reader s'" using step_recv(3) by auto
  moreover obtain pre' where "stream = pre' @ s_reader s" using assms(2) by (auto simp: session_inv_def)
  ultimately have "stream = (pre' @ pre) @ s_reader s'" by simp
  then show ?thesis using assms(2) recv_keeps[OF step_recv(3)] step_recv(1,2) unfolding session_inv_def by auto
qed (use assms(2) in \<open>auto simp: session_inv_def with_max_frame_len_def s_authenticate_def s_close_def\<close>)

lemma session_inv_run:
  assumes "\<forall>xs. \<exists>pre. xs = pre @ lost xs" "session_run alloc lost (session_new codec stream) evs s"
  shows "session_inv codec stream evs s"
  using assms(2)
proof (induction rule: session_run.induct)
  case run_start
  show ?case by (simp add: session_inv_def session_new_def)
next
  case (run_step evs s ev s')
  show ?case by (rule session_inv_step[OF assms(1) run_step.IH run_step.hyps(2)])
qed

lemma session_run_prefix:
  "session_run alloc lost s0 evs s \<Longrightarrow> evs = pre @ ev # post \<Longrightarrow>
   \<exists>s1 s2. session_run alloc lost s0 pre s1 \<and> session_step alloc lost s1 ev s2"
proof (induction arbitrary: post rule: session_run.induct)
  case (run_step evs s ev' s')
  show ?case
  proof (cases post rule: rev_cases)
    case Nil
    then show ?thesis using run_step by auto
  next
    case (snoc post' x)
    then show ?thesis using run_step.IH[of post'] run_step.prems by simp
  qed
qed simp

text \<open>
  C26: sessions deliver verified values only. Whatever calls a session sees, a value it delivers was
  decoded from a length-prefixed frame of the stream that the verifier of an earlier \<open>authenticate\<close>
  accepted.
\<close>

theorem session_delivers_verified:
  assumes "\<forall>xs. \<exists>pre. xs = pre @ lost xs"
    and "session_run alloc lost (session_new codec stream) (pre @ Received (Inr v) # post) s"
  shows "\<exists>verifier frame before after. AuthenticatedBy verifier \<in> set pre \<and> verifier frame = Inr () \<and>
    deserialize_frame codec frame = Inr v \<and> stream = before @ session_frame frame @ after"
proof -
  obtain s1 s2 where r: "session_run alloc lost (session_new codec stream) pre s1" "session_step alloc lost s1 (Received (Inr v)) s2"
    using session_run_prefix[OF assms(2)] by blast
  have inv: "session_inv codec stream pre s1" by (rule session_inv_run[OF assms(1) r(1)])
  have o: "s_state s1 = Open" "recv_verified alloc lost s1 = (Inr v, s2)" using r(2) by (auto elim: session_stepE)
  obtain frame rest verifier where f: "s_reader s1 = to_le_bytes (of_nat (length frame) :: u64) @ frame @ rest"
    "s_verifier s1 = Some verifier" "verifier frame = Inr ()" "deserialize_frame (s_codec s1) frame = Inr v"
    by (rule recv_Inr[OF o(2)])
  then show ?thesis using inv o(1) by (auto simp: session_inv_def session_frame_def)
qed

section \<open>What is sent is received\<close>

definition send_all :: "'v session \<Rightarrow> 'v list \<Rightarrow> byte list \<Rightarrow> (error + unit) \<times> byte list" where
  "send_all s values writer =
    fold (\<lambda>v (r, w). case r of Inl e \<Rightarrow> (Inl e, w) | Inr _ \<Rightarrow> s_send s v w) values (Inr (), writer)"

primrec recv_all :: "(nat \<Rightarrow> bool) \<Rightarrow> (byte list \<Rightarrow> byte list) \<Rightarrow> nat \<Rightarrow> ('v session, 'v list) op" where
  "recv_all alloc lost 0 = sret []"
| "recv_all alloc lost (Suc n) = sbind (recv_verified alloc lost) (\<lambda>v. sbind (recv_all alloc lost n) (\<lambda>vs. sret (v # vs)))"

lemma send_all_simps:
  "send_all s [] w = (Inr (), w)"
  "send_all s (v # vs) w = (case s_send s v w of (Inl e, w') \<Rightarrow> (Inl e, w') | (Inr _, w') \<Rightarrow> send_all s vs w')"
proof -
  have "fold (\<lambda>v (r, w). case r of Inl e \<Rightarrow> (Inl e, w) | Inr _ \<Rightarrow> s_send s v w) vs (Inl e, w) = (Inl e, w)" for e w
    by (induction vs) auto
  then show "send_all s [] w = (Inr (), w)"
    "send_all s (v # vs) w = (case s_send s v w of (Inl e, w') \<Rightarrow> (Inl e, w') | (Inr _, w') \<Rightarrow> send_all s vs w')"
    by (auto simp: send_all_def split: prod.splits sum.splits)
qed

text \<open>What a receiver takes: each frame for itself, whatever the length of the stream.\<close>

definition receivable :: "(nat \<Rightarrow> bool) \<Rightarrow> 'v session \<Rightarrow> verifier \<Rightarrow> byte list \<Rightarrow> bool" where
  "receivable alloc s verifier frame \<longleftrightarrow> verifier frame = Inr () \<and> within (s_max_frame_len s) (length frame) \<and>
     length frame < 2 ^ 63 \<and> alloc (length frame)"

text \<open>A codec that returns what it serialised, in a normal form, on the values it is good for.\<close>

locale lawful_codec =
  fixes codec :: "'v codec" and good :: "'v \<Rightarrow> bool" and norm :: "'v \<Rightarrow> 'v"
  assumes law: "good v \<Longrightarrow> serialize_frame codec v = Inr frame \<Longrightarrow> deserialize_frame codec frame = Inr (norm v)"
begin

lemma recv_sent:
  assumes "s_codec s = codec" "s_verifier s = Some verifier" "good v" "serialize_frame codec v = Inr frame"
    "receivable alloc s verifier frame" "s_reader s = session_frame frame @ rest"
  shows "recv_verified alloc lost s = (Inr (norm v), s\<lparr>s_reader := rest\<rparr>)"
proof -
  have u: "unat (of_nat (length frame) :: u64) = length frame"
    using assms(5) unfolding receivable_def by (intro unat_u64) simp
  let ?s1 = "s\<lparr>s_reader := frame @ rest\<rparr>"
  have r1: "s_read_exact lost 8 s = (Inr (to_le_bytes (of_nat (length frame) :: u64)), ?s1)"
    using assms(6) by (auto simp: s_read_exact_Inr session_frame_def)
  have r2: "s_read_exact lost (length frame) ?s1 = (Inr frame, s\<lparr>s_reader := rest\<rparr>)"
    by (auto simp: s_read_exact_Inr)
  show ?thesis
    using r1 r2 u assms law[OF assms(3,4)]
    by (simp add: recv_verified_def Let_def check_limit_if with_capacity_def receivable_def)
qed

lemma recv_all_sent:
  assumes "s_codec sender = codec" and "s_codec s = codec" and "s_verifier s = Some verifier"
  shows "list_all good vs \<Longrightarrow> send_all sender vs w = (Inr (), stream) \<Longrightarrow>
    (\<And>v frame. v \<in> set vs \<Longrightarrow> serialize_frame codec v = Inr frame \<Longrightarrow> receivable alloc s verifier frame) \<Longrightarrow>
    \<exists>out. stream = w @ out \<and> (\<forall>rest. recv_all alloc lost (length vs) (s\<lparr>s_reader := out @ rest\<rparr>) =
      (Inr (map norm vs), s\<lparr>s_reader := rest\<rparr>))"
proof (induction vs arbitrary: w)
  case Nil
  then show ?case by (auto simp: send_all_simps)
next
  case (Cons v vs)
  obtain w' where s1: "s_send sender v w = (Inr (), w')" "send_all sender vs w' = (Inr (), stream)"
    using Cons.prems(2) by (auto simp: send_all_simps split: prod.splits sum.splits)
  obtain frame where f: "serialize_frame codec v = Inr frame" "w' = w @ session_frame frame"
    using s1(1) assms(1) by (auto simp: s_send_def session_frame_def split: sum.splits if_splits)
  obtain out where o: "stream = w' @ out"
    "\<And>rest. recv_all alloc lost (length vs) (s\<lparr>s_reader := out @ rest\<rparr>) = (Inr (map norm vs), s\<lparr>s_reader := rest\<rparr>)"
    using Cons.IH[OF _ s1(2)] Cons.prems(1,3) by auto
  have "receivable alloc s verifier frame" using Cons.prems(3)[OF _ f(1)] by simp
  then have "recv_verified alloc lost (s\<lparr>s_reader := session_frame frame @ out @ rest\<rparr>) = (Inr (norm v), s\<lparr>s_reader := out @ rest\<rparr>)" for rest
    using recv_sent[OF _ _ _ f(1), of "s\<lparr>s_reader := session_frame frame @ out @ rest\<rparr>" verifier alloc "out @ rest" lost]
      assms(2,3) Cons.prems(1) by (simp add: receivable_def)
  then have "recv_all alloc lost (length (v # vs)) (s\<lparr>s_reader := (session_frame frame @ out) @ rest\<rparr>) =
    (Inr (map norm (v # vs)), s\<lparr>s_reader := rest\<rparr>)" for rest
    using o(2) by simp
  moreover have "stream = w @ session_frame frame @ out" using o(1) f(2) by simp
  ultimately show ?case by blast
qed

end

text \<open>The binary profile as a codec, with a reader of dynamic values.\<close>

definition binary_codec :: "config \<Rightarrow> (nat \<Rightarrow> (decoder, jv) op) \<Rightarrow> jv codec" where
  "binary_codec cfg read = \<lparr> serialize_frame = \<lambda>v. to_vec cfg (events False v),
    deserialize_frame = \<lambda>frame. from_slice cfg (read (length frame)) frame \<rparr>"

definition binary_good :: "config \<Rightarrow> (nat \<Rightarrow> (decoder, jv) op) \<Rightarrow> jv \<Rightarrow> bool" where
  "binary_good cfg read v \<longleftrightarrow> reachable_config cfg \<and> reads_values (self_describing cfg) read \<and> strings_ok v \<and>
     admissible True (c_collection_limit cfg) v"

interpretation binary: lawful_codec "binary_codec cfg read" "binary_good cfg read" widened for cfg read
proof
  fix v frame assume "binary_good cfg read v" "serialize_frame (binary_codec cfg read) v = Inr frame"
  then show "deserialize_frame (binary_codec cfg read) frame = Inr (widened v)"
    using decode_encoded[of cfg read False v frame "length frame" "[]"] by (simp add: binary_good_def binary_codec_def)
qed

text \<open>
  C27: what one side sends the other receives. Over the binary profile, with any reader of dynamic values, the
  values of any number of successful sends are received in order, every \<^verbatim>\<open>f32\<close> widened to the \<^verbatim>\<open>f64\<close> of
  the same number, and the receiver stops where the last frame ends. Each frame has to be one the receiver
  takes: accepted by its verifier, within its frame limit and the memory; the stream may be of any length.
\<close>

theorem session_roundtrip:
  assumes "list_all (binary_good cfg read) values" and "s_codec sender = binary_codec cfg read"
    and "send_all sender values [] = (Inr (), stream)"
    and "s_codec s = binary_codec cfg read" and "s_verifier s = Some verifier" and "s_reader s = stream @ rest"
    and "\<And>v frame. v \<in> set values \<Longrightarrow> to_vec cfg (events False v) = Inr frame \<Longrightarrow> receivable alloc s verifier frame"
  shows "recv_all alloc lost (length values) s = (Inr (map widened values), s\<lparr>s_reader := rest\<rparr>)"
proof -
  have "receivable alloc s verifier frame" if "v \<in> set values" "serialize_frame (binary_codec cfg read) v = Inr frame" for v frame
    using assms(7) that by (simp add: binary_codec_def)
  then obtain out where o: "stream = [] @ out"
    "\<And>rest. recv_all alloc lost (length values) (s\<lparr>s_reader := out @ rest\<rparr>) = (Inr (map widened values), s\<lparr>s_reader := rest\<rparr>)"
    using binary.recv_all_sent[OF assms(2,4,5,1,3), of alloc lost] by blast
  have "s\<lparr>s_reader := out @ rest\<rparr> = s" using o(1) assms(6) by simp
  then show ?thesis using o(2)[of rest] by simp
qed

section \<open>Configurations\<close>

text \<open>
  An authenticated configuration decodes exactly the inputs its verifier accepts, as the codec does;
  a rejected input is not decoded, and the verifier's error is returned.
\<close>

lemma authenticated_decodes:
  "tc_deserialize (tc_authenticate verifier (unauthenticated codec)) input =
    (case verifier input of Inl e \<Rightarrow> Inl e | Inr _ \<Rightarrow> deserialize_untrusted (unauthenticated codec) input)"
  by (cases "verifier input") (simp_all add: tc_deserialize_def tc_authenticate_def unauthenticated_def deserialize_untrusted_def)

section \<open>Samples\<close>

abbreviation sample_reader :: "nat \<Rightarrow> (decoder, jv) op" where
  "sample_reader \<equiv> client_value (self_describing standard)"

definition sample_session :: "byte list \<Rightarrow> jv session" where
  "sample_session stream = s_authenticate (\<lambda>_. Inr ()) (session_new (binary_codec standard sample_reader) stream)"

lemma sample_session_simps:
  "s_codec (sample_session w) = binary_codec standard sample_reader" "s_verifier (sample_session w) = Some (\<lambda>_. Inr ())"
  "s_reader (sample_session w) = w" "s_state (sample_session w) = Open" "s_max_frame_len (sample_session w) = Some DEFAULT_SIZE_LIMIT"
  by (simp_all add: sample_session_def s_authenticate_def session_new_def)

lemma sample_true: "serialize_frame (binary_codec standard sample_reader) (JBool True) = Inr [TAG_TRUE]"
  using to_vec_wire[OF reachable_config.standard, of False "JBool True" "[TAG_TRUE]"]
  by (simp add: binary_codec_def standard_def DEFAULT_SIZE_LIMIT_def MAX_DEPTH_def)

lemma sample_good: "binary_good standard sample_reader (JBool True)"
  by (simp add: binary_good_def reachable_config.standard client_reads)

lemma sample_recv:
  "recv_verified (\<lambda>_. True) lost (sample_session (session_frame [TAG_TRUE] @ rest)) = (Inr (JBool True), sample_session rest)"
proof -
  have "recv_verified (\<lambda>_. True) lost (sample_session (session_frame [TAG_TRUE] @ rest)) =
    (Inr (widened (JBool True)), sample_session (session_frame [TAG_TRUE] @ rest)\<lparr>s_reader := rest\<rparr>)"
    by (rule binary.recv_sent[OF _ _ sample_good sample_true])
      (simp_all add: sample_session_simps DEFAULT_SIZE_LIMIT_def receivable_def)
  then show ?thesis by (simp add: sample_session_def s_authenticate_def session_new_def)
qed

theorem session_delivers_verified_witness:
  "\<exists>s. session_run (\<lambda>_. True) (\<lambda>_. []) (session_new (binary_codec standard sample_reader) (session_frame [TAG_TRUE]))
     [AuthenticatedBy (\<lambda>_. Inr ()), Received (Inr (JBool True))] s \<and>
   (\<exists>frame before after. deserialize_frame (binary_codec standard sample_reader) frame = Inr (JBool True) \<and>
     session_frame [TAG_TRUE] = before @ session_frame frame @ after)"
proof -
  let ?s0 = "session_new (binary_codec standard sample_reader) (session_frame [TAG_TRUE])"
  let ?run = "session_run (\<lambda>_. True) (\<lambda>_. [])"
  have "session_step (\<lambda>_. True) (\<lambda>_. []) ?s0 (AuthenticatedBy (\<lambda>_. Inr ())) (sample_session (session_frame [TAG_TRUE]))"
    using session_step.step_authenticate[of ?s0 _ _ "\<lambda>_. Inr ()"] by (simp add: sample_session_def session_new_def)
  then have "?run ?s0 [AuthenticatedBy (\<lambda>_. Inr ())] (sample_session (session_frame [TAG_TRUE]))"
    using session_run.run_step[OF session_run.run_start] by fastforce
  moreover have "session_step (\<lambda>_. True) (\<lambda>_. []) (sample_session (session_frame [TAG_TRUE])) (Received (Inr (JBool True))) (sample_session [])"
    using sample_recv[of "\<lambda>_. []" "[]"] by (intro session_step.step_recv) (simp_all add: sample_session_simps)
  ultimately have r: "?run ?s0 ([AuthenticatedBy (\<lambda>_. Inr ())] @ Received (Inr (JBool True)) # []) (sample_session [])"
    using session_run.run_step by fastforce
  have "\<forall>xs :: byte list. \<exists>pre. xs = pre @ []" by simp
  from session_delivers_verified[OF this r] r show ?thesis by auto
qed

theorem session_roundtrip_witness:
  "recv_all (\<lambda>_. True) (\<lambda>_. []) 1 (sample_session (session_frame [TAG_TRUE] @ [9])) = (Inr [JBool True], sample_session [9])"
proof -
  have send: "send_all (sample_session []) [JBool True] [] = (Inr (), session_frame [TAG_TRUE])"
    using sample_true by (simp add: send_all_simps s_send_def sample_session_simps session_frame_def)
  have frame: "receivable (\<lambda>_. True) (sample_session (session_frame [TAG_TRUE] @ [9])) (\<lambda>_. Inr ()) frame"
    if "v \<in> set [JBool True]" "to_vec standard (events False v) = Inr frame" for v frame
    using that sample_true by (simp add: binary_codec_def receivable_def sample_session_simps DEFAULT_SIZE_LIMIT_def)
  have "recv_all (\<lambda>_. True) (\<lambda>_. []) (length [JBool True]) (sample_session (session_frame [TAG_TRUE] @ [9])) =
    (Inr (map widened [JBool True]), sample_session (session_frame [TAG_TRUE] @ [9])\<lparr>s_reader := [9]\<rparr>)"
  proof (rule session_roundtrip[where cfg = standard and read = sample_reader and verifier = "\<lambda>_. Inr ()", OF _ _ send])
    show "receivable (\<lambda>_. True) (sample_session (session_frame [TAG_TRUE] @ [9])) (\<lambda>_. Inr ()) frame"
      if "v \<in> set [JBool True]" "to_vec standard (events False v) = Inr frame" for v frame
      using that by (rule frame)
  qed (simp_all add: sample_session_simps sample_good)
  then show ?thesis by (simp add: sample_session_def s_authenticate_def session_new_def)
qed

end
