(* ===== verification/Ibl.thy ===== *)
theory Ibl
  imports RB_Prelude "HOL-Library.Multiset"
begin

text \<open>
  \<^verbatim>\<open>src/ibl.rs\<close>: invertible Bloom lookup tables. Counts are 32-bit words (they wrap, as in a release build);
  the peeling loop may run forever, and its model then returns \<open>None\<close>.
\<close>

section \<open>Tables\<close>

definition POSITION_SEEDS :: "u64 list" where
  "POSITION_SEEDS = [0x9e3779b97f4a7c15, 0xbf58476d1ce4e5b9, 0x94d049bb133111eb]"

definition splitmix64 :: "u64 \<Rightarrow> u64" where
  "splitmix64 value0 =
    (let value1 = value0 + 0x9e3779b97f4a7c15;
         value2 = (value1 XOR drop_bit 30 value1) * 0xbf58476d1ce4e5b9;
         value3 = (value2 XOR drop_bit 27 value2) * 0x94d049bb133111eb
     in value3 XOR drop_bit 31 value3)"

record cell =
  ic_count :: u32
  ic_key_sum :: u64
  ic_value_sum :: u64
  ic_hash_sum :: u64

definition cell_default :: cell where
  "cell_default = \<lparr> ic_count = 0, ic_key_sum = 0, ic_value_sum = 0, ic_hash_sum = 0 \<rparr>"

record iblt_entry =
  ie_key :: u64
  ie_value :: u64
  ie_present_in_self :: bool

type_synonym iblt = "cell list"

definition iblt_new :: "nat \<Rightarrow> iblt" where
  "iblt_new num_cells = replicate (max num_cells 1) cell_default"

definition occupied :: "iblt \<Rightarrow> nat" where
  "occupied t = length (filter (\<lambda>c. ic_count c \<noteq> 0) t)"

definition iblt_is_empty :: "iblt \<Rightarrow> bool" where
  "iblt_is_empty t = list_all (\<lambda>c. ic_count c = 0) t"

definition position :: "u64 \<Rightarrow> nat \<Rightarrow> u64 \<Rightarrow> nat" where
  "position key n seed = unat (splitmix64 (key XOR seed)) mod n"

text \<open>\<open>delta\<close> is the change of the count, one or minus one.\<close>

definition touch_cell :: "u32 \<Rightarrow> u64 \<Rightarrow> u64 \<Rightarrow> cell \<Rightarrow> cell" where
  "touch_cell delta key v c =
    \<lparr> ic_count = ic_count c + delta, ic_key_sum = ic_key_sum c XOR key, ic_value_sum = ic_value_sum c XOR v,
      ic_hash_sum = ic_hash_sum c XOR splitmix64 key \<rparr>"

definition touch :: "u32 \<Rightarrow> u64 \<Rightarrow> u64 \<Rightarrow> iblt \<Rightarrow> iblt" where
  "touch delta key v t =
    fold (\<lambda>seed t. let p = position key (length t) seed in t[p := touch_cell delta key v (t ! p)]) POSITION_SEEDS t"

definition iblt_insert :: "u64 \<Rightarrow> u64 \<Rightarrow> iblt \<Rightarrow> iblt" where "iblt_insert = touch 1"
definition iblt_delete :: "u64 \<Rightarrow> u64 \<Rightarrow> iblt \<Rightarrow> iblt" where "iblt_delete = touch (- 1)"

definition sub_cell :: "cell \<Rightarrow> cell \<Rightarrow> cell" where
  "sub_cell l r =
    \<lparr> ic_count = ic_count l - ic_count r, ic_key_sum = ic_key_sum l XOR ic_key_sum r,
      ic_value_sum = ic_value_sum l XOR ic_value_sum r, ic_hash_sum = ic_hash_sum l XOR ic_hash_sum r \<rparr>"

definition iblt_subtract :: "iblt \<Rightarrow> iblt \<Rightarrow> error + iblt" where
  "iblt_subtract t other =
    (if length t \<noteq> length other then Inl (Iblt ''IBLT size mismatch in subtract'') else Inr (map2 sub_cell t other))"

section \<open>Peeling\<close>

definition pure_count :: "cell \<Rightarrow> bool" where
  "pure_count c \<longleftrightarrow> ic_count c = 1 \<or> ic_count c = - 1"

text \<open>One pass of the loop peels the first cell whose count is one or minus one.\<close>

definition peel :: "cell \<Rightarrow> iblt \<Rightarrow> iblt_entry \<times> iblt" where
  "peel c t =
    (let key = ic_key_sum c; v = ic_value_sum c in
     if ic_count c = 1
     then (\<lparr> ie_key = key, ie_value = v, ie_present_in_self = True \<rparr>, iblt_delete key v t)
     else (\<lparr> ie_key = key, ie_value = v, ie_present_in_self = False \<rparr>, iblt_insert key v t))"

partial_function (option) decode_loop :: "iblt \<Rightarrow> iblt_entry list \<Rightarrow> (error + iblt_entry list) option" where
  "decode_loop t entries =
    (case find pure_count t of
       None \<Rightarrow> Some (if iblt_is_empty t then Inr entries else Inl (Iblt ''IBLT decode incomplete (table too small?)''))
     | Some c \<Rightarrow>
         if splitmix64 (ic_key_sum c) \<noteq> ic_hash_sum c then Some (Inl (Iblt ''IBLT cell hash does not verify''))
         else decode_loop (snd (peel c t)) (entries @ [fst (peel c t)]))"

definition iblt_decode :: "iblt \<Rightarrow> (error + iblt_entry list) option" where
  "iblt_decode t = decode_loop t []"

definition encode_set :: "(u64 \<times> u64) list \<Rightarrow> nat \<Rightarrow> iblt" where
  "encode_set entries num_cells = fold (\<lambda>(key, v). iblt_insert key v) entries (iblt_new num_cells)"

definition reconcile :: "iblt \<Rightarrow> iblt \<Rightarrow> (error + iblt_entry list) option" where
  "reconcile mine theirs =
    (case iblt_subtract mine theirs of Inl e \<Rightarrow> Some (Inl e) | Inr difference \<Rightarrow> iblt_decode difference)"

section \<open>Tables are sums of their elements\<close>

abbreviation positions :: "u64 \<Rightarrow> nat \<Rightarrow> nat list" where
  "positions key n \<equiv> map (position key n) POSITION_SEEDS"

lemma fold_update:
  "length (fold (\<lambda>q t. t[q := f (t ! q)]) qs t) = length t \<and>
   (\<forall>p<length t. fold (\<lambda>q t. t[q := f (t ! q)]) qs t ! p = (f ^^ count_list qs p) (t ! p))"
  by (induction qs arbitrary: t) (auto simp: nth_list_update funpow_swap1)

lemma touch_fold: "touch delta key v t = fold (\<lambda>q t. t[q := touch_cell delta key v (t ! q)]) (positions key (length t)) t"
proof -
  have "fold (\<lambda>seed t. let p = position key (length t) seed in t[p := touch_cell delta key v (t ! p)]) seeds u =
    fold (\<lambda>q t. t[q := touch_cell delta key v (t ! q)]) (map (position key (length t)) seeds) u"
    if "length u = length t" for seeds u
    using that by (induction seeds arbitrary: u) (auto simp: Let_def)
  then show ?thesis by (simp only: touch_def)
qed

lemma length_touch [simp]: "length (touch delta key v t) = length t"
  using fold_update[of "touch_cell delta key v" "positions key (length t)" t] by (simp add: touch_fold)

lemma touch_nth:
  "p < length t \<Longrightarrow> touch delta key v t ! p = (touch_cell delta key v ^^ count_list (positions key (length t)) p) (t ! p)"
  using fold_update[of "touch_cell delta key v" "positions key (length t)" t] by (simp add: touch_fold)

lemma touch_cell_commute: "touch_cell d k v (touch_cell e l w c) = touch_cell e l w (touch_cell d k v c)"
  by (simp add: touch_cell_def ac_simps)

lemma funpow_commute: "(\<And>x. f (g x) = g (f x)) \<Longrightarrow> (f ^^ m) ((g ^^ n) x) = (g ^^ n) ((f ^^ m) x)"
proof -
  assume a: "\<And>x. f (g x) = g (f x)"
  have "f ((g ^^ n) x) = (g ^^ n) (f x)" for x n by (induction n) (simp_all add: a)
  then show ?thesis by (induction m) simp_all
qed

lemma touch_commute: "touch d k v (touch e l w t) = touch e l w (touch d k v t)"
  by (rule nth_equalityI) (simp_all add: touch_nth funpow_commute touch_cell_commute)

lemma touch_cell_undo: "touch_cell (- d) k v (touch_cell d k v c) = c"
  by (simp add: touch_cell_def xor.assoc)

lemma touch_undo: "touch (- d) k v (touch d k v t) = t"
proof (rule nth_equalityI)
  fix p assume "p < length (touch (- d) k v (touch d k v t))"
  then have p: "p < length t" by simp
  let ?n = "count_list (positions k (length t)) p"
  have "(touch_cell (- d) k v ^^ n) ((touch_cell d k v ^^ n) c) = c" for n c
  proof (induction n arbitrary: c)
    case (Suc n)
    have "(touch_cell (- d) k v ^^ Suc n) ((touch_cell d k v ^^ Suc n) c) =
      touch_cell (- d) k v ((touch_cell (- d) k v ^^ n) ((touch_cell d k v ^^ n) (touch_cell d k v c)))"
      by (simp add: funpow_swap1)
    then show ?case by (simp add: Suc touch_cell_undo)
  qed simp
  then show "touch (- d) k v (touch d k v t) ! p = t ! p" using p by (simp add: touch_nth)
qed simp

lemma xor_swap_cancel: "(a XOR x) XOR (b XOR x) = a XOR (b :: u64)"
  by (metis xor.assoc xor.commute xor_self_eq xor.right_neutral)

lemma sub_touch_cell: "sub_cell (touch_cell d k v c) (touch_cell d k v e) = sub_cell c e"
  by (simp add: touch_cell_def sub_cell_def xor_swap_cancel)

lemma sub_touch_cell_left: "sub_cell (touch_cell d k v c) e = touch_cell d k v (sub_cell c e)"
  by (simp add: touch_cell_def sub_cell_def ac_simps)

lemma sub_touch_both: "length t = length u \<Longrightarrow> map2 sub_cell (touch d k v t) (touch d k v u) = map2 sub_cell t u"
proof (rule nth_equalityI)
  assume l: "length t = length u"
  fix p assume "p < length (map2 sub_cell (touch d k v t) (touch d k v u))"
  then have p: "p < length t" "p < length u" using l by simp_all
  have "sub_cell ((touch_cell d k v ^^ n) c) ((touch_cell d k v ^^ n) e) = sub_cell c e" for n c e
    by (induction n arbitrary: c e) (simp_all add: sub_touch_cell)
  then show "map2 sub_cell (touch d k v t) (touch d k v u) ! p = map2 sub_cell t u ! p"
    using p l by (simp add: touch_nth)
qed simp

lemma sub_touch_left: "length t = length u \<Longrightarrow> map2 sub_cell (touch d k v t) u = touch d k v (map2 sub_cell t u)"
proof (rule nth_equalityI)
  assume l: "length t = length u"
  fix p assume "p < length (map2 sub_cell (touch d k v t) u)"
  then have p: "p < length t" "p < length u" using l by simp_all
  have "sub_cell ((touch_cell d k v ^^ n) c) e = (touch_cell d k v ^^ n) (sub_cell c e)" for n c e
    by (induction n) (simp_all add: sub_touch_cell_left)
  then show "map2 sub_cell (touch d k v t) u ! p = touch d k v (map2 sub_cell t u) ! p"
    using p l by (simp add: touch_nth)
qed simp

lemma sub_touch_cell_right: "sub_cell e (touch_cell d k v c) = touch_cell (- d) k v (sub_cell e c)"
  by (simp add: touch_cell_def sub_cell_def ac_simps)

lemma sub_touch_right: "length t = length u \<Longrightarrow> map2 sub_cell u (touch d k v t) = touch (- d) k v (map2 sub_cell u t)"
proof (rule nth_equalityI)
  assume l: "length t = length u"
  fix p assume "p < length (map2 sub_cell u (touch d k v t))"
  then have p: "p < length t" "p < length u" using l by simp_all
  have "sub_cell e ((touch_cell d k v ^^ n) c) = (touch_cell (- d) k v ^^ n) (sub_cell e c)" for n c e
    by (induction n) (simp_all add: sub_touch_cell_right)
  then show "map2 sub_cell u (touch d k v t) ! p = touch (- d) k v (map2 sub_cell u t) ! p"
    using p l by (simp add: touch_nth)
qed simp

lemma sub_self: "map2 sub_cell t t = replicate (length t) cell_default"
  by (rule nth_equalityI) (simp_all add: sub_cell_def cell_default_def)

lemma length_encode_set [simp]: "length (encode_set xs n) = max n 1"
proof -
  have "length (fold (\<lambda>(key, v). iblt_insert key v) xs t) = length t" for t
    by (induction xs arbitrary: t) (auto simp: iblt_insert_def)
  then show ?thesis by (simp add: encode_set_def iblt_new_def)
qed

text \<open>The table of a set does not depend on the order of the insertions.\<close>

lemma encode_set_mset: "mset xs = mset ys \<Longrightarrow> encode_set xs n = encode_set ys n"
  unfolding encode_set_def
  by (rule arg_cong[OF fold_multiset_equiv, where f = "\<lambda>f. f _"]) (auto simp: iblt_insert_def touch_commute fun_eq_iff)

lemma encode_set_Cons: "encode_set ((k, v) # xs) n = iblt_insert k v (encode_set xs n)"
proof -
  have "fold (\<lambda>(key, v). iblt_insert key v) xs (iblt_insert k v t) = iblt_insert k v (fold (\<lambda>(key, v). iblt_insert key v) xs t)" for t
    by (rule fold_commute_apply[symmetric]) (auto simp: fun_eq_iff iblt_insert_def touch_commute[of 1 k v])
  then show ?thesis by (simp add: encode_set_def)
qed

section \<open>Reconciliation\<close>

lemma ic_count_touch: "ic_count ((touch_cell d k v ^^ n) c) = ic_count c + of_nat n * d"
  by (induction n) (simp_all add: touch_cell_def algebra_simps)

lemma count_positions: "count_list (positions k n) p \<le> 3"
  by (simp add: POSITION_SEEDS_def)

lemma unique_position:
  "card (set (positions k n)) \<noteq> 1 \<longleftrightarrow> (\<exists>p\<in>set (positions k n). count_list (positions k n) p = 1)"
proof -
  have "card {a, b, c :: nat} \<noteq> 1 \<longleftrightarrow> (\<exists>p\<in>{a, b, c}. count_list [a, b, c] p = 1)" for a b c
    by (cases "a = b"; cases "b = c"; cases "a = c") (auto simp: card_insert_if)
  then show ?thesis by (simp add: POSITION_SEEDS_def)
qed

lemma position_less: "0 < n \<Longrightarrow> p \<in> set (positions k n) \<Longrightarrow> p < n"
  by (auto simp: position_def)

lemma single_cell:
  fixes k v :: u64
  assumes "p < n" and "d = 1 \<or> d = - 1"
  defines "t \<equiv> touch d k v (replicate n cell_default)"
  shows "ic_count (t ! p) = of_nat (count_list (positions k n) p) * d"
    "pure_count (t ! p) \<longleftrightarrow> count_list (positions k n) p = 1"
    "count_list (positions k n) p = 1 \<Longrightarrow> t ! p = touch_cell d k v cell_default"
proof -
  let ?m = "count_list (positions k n) p"
  have t: "t ! p = (touch_cell d k v ^^ ?m) cell_default" using assms(1) by (simp add: t_def touch_nth)
  then show c: "ic_count (t ! p) = of_nat ?m * d" by (simp add: ic_count_touch cell_default_def)
  have "?m = 0 \<or> ?m = 1 \<or> ?m = 2 \<or> ?m = 3" using count_positions[of k n p] by linarith
  then show "pure_count (t ! p) \<longleftrightarrow> ?m = 1" using assms(2) unfolding pure_count_def c by (elim disjE) simp_all
  show "?m = 1 \<Longrightarrow> t ! p = touch_cell d k v cell_default" using t by simp
qed

lemma decode_loop_done:
  "find pure_count t = None \<Longrightarrow> decode_loop t es =
    Some (if iblt_is_empty t then Inr es else Inl (Iblt ''IBLT decode incomplete (table too small?)''))"
  by (subst decode_loop.simps) simp

lemma zero_counts:
  assumes "\<And>c. c \<in> set t \<Longrightarrow> ic_count c = 0"
  shows "decode_loop t es = Some (Inr es)"
proof -
  have "find pure_count t = None" by (auto simp: find_None_iff pure_count_def assms)
  moreover have "iblt_is_empty t" by (auto simp: iblt_is_empty_def list_all_iff assms)
  ultimately show ?thesis by (simp add: decode_loop_done)
qed

lemma decode_empty: "decode_loop (replicate n cell_default) es = Some (Inr es)"
  by (rule zero_counts) (auto simp: cell_default_def)

lemma decode_single:
  assumes "0 < n" and "d = 1 \<or> d = - 1"
  shows "iblt_decode (touch d k v (replicate n cell_default)) =
    Some (if card (set (positions k n)) = 1 then Inl (Iblt ''IBLT decode incomplete (table too small?)'')
      else Inr [\<lparr> ie_key = k, ie_value = v, ie_present_in_self = (d = 1) \<rparr>])"
proof -
  let ?t = "touch d k v (replicate n cell_default)"
  note cell = single_cell[OF _ assms(2), of _ n k v]
  show ?thesis
  proof (cases "card (set (positions k n)) = 1")
    case True
    have "find pure_count ?t = None"
      unfolding find_None_iff
    proof
      assume "\<exists>c. c \<in> set ?t \<and> pure_count c"
      then obtain p where p: "p < n" "pure_count (?t ! p)" by (auto simp: in_set_conv_nth)
      then have one: "count_list (positions k n) p = 1" using cell(2) by simp
      then have "p \<in> set (positions k n)" by (metis count_list_0_iff zero_neq_one)
      then show False using True unique_position[of k n] one by blast
    qed
    moreover have "\<not> iblt_is_empty ?t"
    proof -
      obtain p where p: "p \<in> set (positions k n)" by (auto simp: POSITION_SEEDS_def)
      then have l: "p < n" using position_less assms(1) by blast
      have "set (positions k n) = {p}" using True p by (metis card_1_singletonE singletonD)
      then have "positions k n = [p, p, p]" by (simp add: POSITION_SEEDS_def)
      then have "count_list (positions k n) p = 3" by simp
      then have "ic_count (?t ! p) \<noteq> 0" using cell(1)[OF l] assms(2) by auto
      then show ?thesis using l by (auto simp: iblt_is_empty_def list_all_length)
    qed
    ultimately show ?thesis using True by (simp add: iblt_decode_def decode_loop_done)
  next
    case False
    then obtain q where q: "q \<in> set (positions k n)" "count_list (positions k n) q = 1" using unique_position by blast
    have "q < n" using position_less[OF assms(1) q(1)] .
    then have "pure_count (?t ! q)" "?t ! q \<in> set ?t" using cell(2) q(2) by auto
    then obtain c where c: "find pure_count ?t = Some c" by (cases "find pure_count ?t") (auto simp: find_None_iff)
    then obtain p where p: "p < n" "c = ?t ! p" "pure_count c" by (auto simp: find_Some_iff)
    then have "c = touch_cell d k v cell_default" using cell(2,3) by simp
    then have cs: "ic_count c = d" "ic_key_sum c = k" "ic_value_sum c = v" "ic_hash_sum c = splitmix64 k"
      by (simp_all add: touch_cell_def cell_default_def)
    have "touch (- d) k v ?t = replicate n cell_default" by (rule touch_undo)
    then have "peel c ?t = (\<lparr> ie_key = k, ie_value = v, ie_present_in_self = (d = 1) \<rparr>, replicate n cell_default)"
      using assms(2) by (auto simp: peel_def cs iblt_delete_def iblt_insert_def)
    then show ?thesis using c cs False by (simp add: iblt_decode_def decode_loop.simps[of ?t] decode_empty)
  qed
qed

lemma reconcile_common:
  assumes "length t = length u" "0 < length t"
  shows "reconcile t u = iblt_decode (map2 sub_cell t u)"
  using assms by (simp add: reconcile_def iblt_subtract_def)

text \<open>
  C28: reconciliation of sets that differ in one element, on either side. Whatever the common part and the
  order of the insertions, the element is recovered and attributed to the side that has it, unless its three
  positions in the table coincide, and then decoding reports the failure.
\<close>

theorem ibl_recovers_element:
  assumes "mset larger = add_mset (k, v) (mset smaller)"
  shows "reconcile (encode_set larger n) (encode_set smaller n) =
    Some (if card (set (positions k (max n 1))) = 1 then Inl (Iblt ''IBLT decode incomplete (table too small?)'')
      else Inr [\<lparr> ie_key = k, ie_value = v, ie_present_in_self = True \<rparr>]) \<and>
    reconcile (encode_set smaller n) (encode_set larger n) =
    Some (if card (set (positions k (max n 1))) = 1 then Inl (Iblt ''IBLT decode incomplete (table too small?)'')
      else Inr [\<lparr> ie_key = k, ie_value = v, ie_present_in_self = False \<rparr>])"
proof -
  let ?t = "encode_set smaller n" and ?z = "replicate (max n 1) cell_default"
  have e: "encode_set larger n = touch 1 k v ?t"
    using encode_set_mset[of larger "(k, v) # smaller" n] assms by (simp add: encode_set_Cons iblt_insert_def)
  have "reconcile (encode_set larger n) ?t = iblt_decode (touch 1 k v ?z)"
    by (simp add: e reconcile_common sub_touch_left sub_self)
  moreover have "reconcile ?t (encode_set larger n) = iblt_decode (touch (- 1) k v ?z)"
    by (simp add: e reconcile_common sub_touch_right sub_self)
  ultimately show ?thesis using decode_single[of "max n 1" 1 k v] decode_single[of "max n 1" "- 1" k v] by simp
qed

text \<open>
  C29: a changed value is not reported. Two sets that differ only in the value of one key reconcile to
  the empty difference, in tables of every size: emptiness looks at the counts alone.
\<close>

theorem ibl_misses_changed_value:
  assumes "mset mine = add_mset (k, v) (mset common)" and "mset theirs = add_mset (k, w) (mset common)"
  shows "reconcile (encode_set mine n) (encode_set theirs n) = Some (Inr [])"
proof -
  let ?t = "encode_set common n"
  have e: "encode_set mine n = touch 1 k v ?t" "encode_set theirs n = touch 1 k w ?t"
    using encode_set_mset[of mine "(k, v) # common" n] encode_set_mset[of theirs "(k, w) # common" n] assms
    by (simp_all add: encode_set_Cons iblt_insert_def)
  let ?d = "map2 sub_cell (touch 1 k v ?t) (touch 1 k w ?t)"
  have z: "ic_count c = 0" if "c \<in> set ?d" for c
  proof -
    obtain p where p: "p < max n 1" "c = ?d ! p" using \<open>c \<in> set ?d\<close> by (auto simp: in_set_conv_nth)
    then show ?thesis by (simp add: touch_nth sub_cell_def ic_count_touch)
  qed
  have "decode_loop ?d [] = Some (Inr [])" by (rule zero_counts) (rule z)
  then show ?thesis by (simp add: e reconcile_common iblt_decode_def)
qed

theorem ibl_recovers_element_witness:
  "reconcile (encode_set [(5, 6), (7, 8)] 16) (encode_set [(7, 8)] 16) =
    Some (Inr [\<lparr> ie_key = 5, ie_value = 6, ie_present_in_self = True \<rparr>]) \<and>
   reconcile (encode_set [(7, 8)] 16) (encode_set [(5, 6), (7, 8)] 16) =
    Some (Inr [\<lparr> ie_key = 5, ie_value = 6, ie_present_in_self = False \<rparr>])"
proof -
  have "card (set (positions 5 (max 16 1))) \<noteq> 1" by code_simp
  moreover have "mset [(5 :: u64, 6 :: u64), (7, 8)] = add_mset (5, 6) (mset [(7, 8)])" by simp
  ultimately show ?thesis using ibl_recovers_element[of "[(5, 6), (7, 8)]" 5 6 "[(7, 8)]" 16] by (simp only: if_False)
qed

theorem ibl_misses_changed_value_witness:
  "reconcile (encode_set [(5, 6), (7, 8)] 64) (encode_set [(7, 8), (5, 9)] 64) = Some (Inr [])"
  using ibl_misses_changed_value[of "[(5, 6), (7, 8)]" 5 6 "[(7, 8)]" "[(7, 8), (5, 9)]" 9 64] by simp

end
