(* ===== verification/Adaptive.thy ===== *)
theory Adaptive
  imports Bitpack Alloc Decoder
begin

text \<open>
  \<^verbatim>\<open>src/adaptive.rs\<close>: strings as raw UTF-8 or seven bits per scalar, \<^verbatim>\<open>i64\<close> collections as independent
  varints, deltas or runs. A string is its UTF-8 bytes, an \<^verbatim>\<open>i64\<close> a 64-bit word read with \<open>sint\<close>. A caller's
  buffer is a list that every call returns, changed or not, and a write outside of it is a panic.
\<close>

section \<open>Configuration\<close>

definition RAW_UTF8 :: byte where "RAW_UTF8 = 0"
definition ASCII7 :: byte where "ASCII7 = 1"
definition RAW_INTEGERS :: byte where "RAW_INTEGERS = 0"
definition DELTA_INTEGERS :: byte where "DELTA_INTEGERS = 1"
definition RLE_INTEGERS :: byte where "RLE_INTEGERS = 2"
definition HEURISTIC_SAMPLE :: nat where "HEURISTIC_SAMPLE = 64"

lemmas adaptive_tags = RAW_UTF8_def ASCII7_def RAW_INTEGERS_def DELTA_INTEGERS_def RLE_INTEGERS_def

datatype adaptive_mode = Off | Heuristic | Exact

datatype string_strategy = RawUtf8 | Ascii7

datatype collection_strategy = RawValues | DeltaValues | RunLength

record adaptive_config =
  ad_base :: config
  ad_mode :: adaptive_mode

definition adaptive_new :: "config \<Rightarrow> adaptive_config" where
  "adaptive_new base = \<lparr> ad_base = base, ad_mode = Off \<rparr>"

definition with_adaptive_mode :: "adaptive_mode \<Rightarrow> adaptive_config \<Rightarrow> adaptive_config" where
  "with_adaptive_mode mode a = a\<lparr>ad_mode := mode\<rparr>"

definition ad_byte_limit :: "adaptive_config \<Rightarrow> nat \<Rightarrow> error + unit" where
  "ad_byte_limit a len = check_limit (c_limit (ad_base a)) len"

definition ad_collection_limit :: "adaptive_config \<Rightarrow> nat \<Rightarrow> error + unit" where
  "ad_collection_limit a len = check_collection (c_collection_limit (ad_base a)) len"

section \<open>Integers\<close>

definition zigzag_i64 :: "u64 \<Rightarrow> u128" where
  "zigzag_i64 value = ucast (push_bit 1 value XOR signed_drop_bit 63 value)"

definition zigzag_i128 :: "u128 \<Rightarrow> u128" where
  "zigzag_i128 value = push_bit 1 value XOR signed_drop_bit 127 value"

definition decode_i128 :: "u128 \<Rightarrow> u128" where
  "decode_i128 value = drop_bit 1 value XOR - (value AND 1)"

definition to_i64 :: "int \<Rightarrow> u64 option" where
  "to_i64 k = (if - (2 ^ 63) \<le> k \<and> k < 2 ^ 63 then Some (of_int k) else None)"

definition decode_i64 :: "u128 \<Rightarrow> error + u64" where
  "decode_i64 value = ok_or (IntegerOverflow ''i64'') (to_i64 (sint (decode_i128 value)))"

definition varint_size :: "u128 \<Rightarrow> nat" where
  "varint_size value =
    (if value \<le> 250 then 1 else if value \<le> 0xffff then 3 else if value \<le> 0xffffffff then 5
     else if value \<le> 0xffffffffffffffff then 9 else 17)"

text \<open>\<^verbatim>\<open>pair[1] as i128 - pair[0] as i128\<close>.\<close>

definition i64_difference :: "u64 \<times> u64 \<Rightarrow> u128" where
  "i64_difference p = (scast (snd p) - scast (fst p))"

section \<open>Layout\<close>

definition size_add :: "nat \<Rightarrow> nat \<Rightarrow> error + nat" where
  "size_add sz n = (if sz + n > usize_max then Inl (Adaptive ''encoded size overflow'') else Inr (sz + n))"

primrec try_fold :: "('a \<Rightarrow> nat) \<Rightarrow> 'a list \<Rightarrow> nat \<Rightarrow> error + nat" where
  "try_fold f [] sz = Inr sz"
| "try_fold f (x # xs) sz = rbind (size_add sz (f x)) (\<lambda>sz. try_fold f xs sz)"

definition raw_size :: "u64 list \<Rightarrow> error + nat" where
  "raw_size values = try_fold (\<lambda>v. varint_size (zigzag_i64 v)) values 0"

definition delta_size :: "u64 list \<Rightarrow> error + nat" where
  "delta_size values = (case values of [] \<Rightarrow> Inr 0 | first # _ \<Rightarrow>
     try_fold (\<lambda>pair. varint_size (zigzag_i128 (i64_difference pair))) (zip values (tl values))
       (varint_size (zigzag_i64 first)))"

text \<open>The inner loop: the end of the run of equal values that begins at \<open>start\<close>.\<close>

function run_end :: "u64 list \<Rightarrow> nat \<Rightarrow> nat \<Rightarrow> nat" where
  "run_end values start e =
    (if e < length values \<and> values ! e = values ! start then run_end values start (e + 1) else e)"
  by pat_completeness auto

termination by (relation "measure (\<lambda>(values, start, e). length values - e)") auto

declare run_end.simps [simp del]

lemma run_end_ge: "e \<le> run_end vs start e"
proof (induction vs start e rule: run_end.induct)
  case (1 vs start e)
  then show ?case by (auto simp: run_end.simps[of vs start e])
qed

lemma run_end_step [simp]:
  "start < length values \<Longrightarrow> length values - run_end values start (Suc start) < length values - start"
  using run_end_ge[of "Suc start"] less_le_trans by (metis Suc_le_eq diff_less_mono2)

function rle_size_loop :: "u64 list \<Rightarrow> nat \<Rightarrow> nat \<Rightarrow> error + nat" where
  "rle_size_loop values sz start =
    (if start < length values then
       let e = run_end values start (start + 1) in
       rbind (size_add sz (varint_size (zigzag_i64 (values ! start)))) (\<lambda>sz.
       rbind (size_add sz (varint_size (of_nat (e - start)))) (\<lambda>sz.
       rle_size_loop values sz e))
     else Inr sz)"
  by pat_completeness auto

termination
  by (relation "measure (\<lambda>(values, sz, start). length values - start)") auto

declare rle_size_loop.simps [simp del]

definition rle_size :: "u64 list \<Rightarrow> error + nat" where
  "rle_size values = rle_size_loop values 0 0"

definition best_strategy :: "nat \<Rightarrow> nat \<Rightarrow> nat \<Rightarrow> collection_strategy \<times> nat" where
  "best_strategy raw delta rle =
    (if delta < raw \<and> delta \<le> rle then (DeltaValues, delta)
     else if rle < raw then (RunLength, rle) else (RawValues, raw))"

definition compare_sizes :: "u64 list \<Rightarrow> error + collection_strategy \<times> nat" where
  "compare_sizes values =
    rbind (raw_size values) (\<lambda>raw. rbind (delta_size values) (\<lambda>delta. rbind (rle_size values) (\<lambda>rle.
      Inr (best_strategy raw delta rle))))"

primrec strategy_size :: "collection_strategy \<Rightarrow> u64 list \<Rightarrow> error + nat" where
  "strategy_size RawValues values = raw_size values"
| "strategy_size DeltaValues values = delta_size values"
| "strategy_size RunLength values = rle_size values"

definition frame_size :: "nat \<Rightarrow> nat \<Rightarrow> error + nat" where
  "frame_size len payload = rbind (size_add 1 (varint_size (of_nat len))) (\<lambda>sz. size_add sz payload)"

definition collection_layout :: "u64 list \<Rightarrow> adaptive_mode \<Rightarrow> error + collection_strategy \<times> nat \<times> nat" where
  "collection_layout values mode =
    rbind (case mode of
        Off \<Rightarrow> rbind (raw_size values) (\<lambda>sz. Inr (RawValues, sz))
      | Exact \<Rightarrow> compare_sizes values
      | Heuristic \<Rightarrow>
          if length values \<le> HEURISTIC_SAMPLE then compare_sizes values
          else rbind (compare_sizes (take HEURISTIC_SAMPLE values)) (\<lambda>(chosen, _).
            rbind (strategy_size chosen values) (\<lambda>payload. Inr (chosen, payload))))
      (\<lambda>(strategy, payload_size).
         rbind (frame_size (length values) payload_size) (\<lambda>required. Inr (strategy, payload_size, required)))"

definition is_ascii :: "byte list \<Rightarrow> bool" where
  "is_ascii input = list_all (\<lambda>b. b < 128) input"

text \<open>The bytes seven bits per scalar need.\<close>

definition packed_len :: "string \<Rightarrow> nat \<Rightarrow> error + nat" where
  "packed_len message len =
    (if len * 7 > usize_max \<or> len * 7 + 7 > usize_max then Inl (Adaptive message) else Inr ((len * 7 + 7) div 8))"

definition string_layout :: "byte list \<Rightarrow> adaptive_mode \<Rightarrow> error + string_strategy \<times> nat \<times> nat" where
  "string_layout s mode =
    (let raw_size = length s in
     rbind (if mode = Off then Inr None
            else if is_ascii s then rbind (packed_len ''encoded size overflow'' (length s)) (\<lambda>n. Inr (Some n))
            else Inr None) (\<lambda>packed_size.
     let (strategy, payload_size) = (case packed_size of
         Some sz \<Rightarrow> if sz < raw_size then (Ascii7, sz) else (RawUtf8, raw_size)
       | None \<Rightarrow> (RawUtf8, raw_size)) in
     rbind (frame_size (length s) payload_size) (\<lambda>required. Inr (strategy, payload_size, required))))"

section \<open>Output\<close>

record output_cursor =
  oc_output :: "byte list"
  oc_position :: nat

definition oc_new :: "byte list \<Rightarrow> output_cursor" where
  "oc_new output = \<lparr> oc_output = output, oc_position = 0 \<rparr>"

text \<open>\<^verbatim>\<open>take_mut\<close> gives out the next bytes of the buffer; what the caller stores there is written back.\<close>

definition oc_fill :: "nat \<Rightarrow> (byte list \<Rightarrow> (error + unit) \<times> byte list) \<Rightarrow> (output_cursor, unit) op" where
  "oc_fill len store c =
    (let start = oc_position c; e = start + len in
     if e > length (oc_output c) then (Inl (Panic ''range end index out of range''), c\<lparr>oc_position := e\<rparr>)
     else let (r, bytes) = store (take len (drop start (oc_output c))) in
       (r, \<lparr> oc_output = take start (oc_output c) @ bytes @ drop e (oc_output c), oc_position = e \<rparr>))"

definition oc_byte :: "byte \<Rightarrow> (output_cursor, unit) op" where
  "oc_byte b c =
    (if oc_position c < length (oc_output c)
     then (Inr (), \<lparr> oc_output = (oc_output c)[oc_position c := b], oc_position = oc_position c + 1 \<rparr>)
     else (Inl (Panic ''index out of bounds''), c))"

definition oc_bytes :: "byte list \<Rightarrow> (output_cursor, unit) op" where
  "oc_bytes bs = oc_fill (length bs) (\<lambda>_. (Inr (), bs))"

definition oc_varint :: "u128 \<Rightarrow> (output_cursor, unit) op" where
  "oc_varint v = oc_bytes (varint_bytes v)"

primrec oc_each :: "('a \<Rightarrow> (output_cursor, unit) op) \<Rightarrow> 'a list \<Rightarrow> (output_cursor, unit) op" where
  "oc_each f [] = sret ()"
| "oc_each f (x # xs) = sbind (f x) (\<lambda>_. oc_each f xs)"

function oc_runs :: "u64 list \<Rightarrow> nat \<Rightarrow> (output_cursor, unit) op" where
  "oc_runs values start =
    (if start < length values then
       let e = run_end values start (start + 1) in
       sbind (oc_varint (zigzag_i64 (values ! start))) (\<lambda>_.
       sbind (oc_varint (of_nat (e - start))) (\<lambda>_. oc_runs values e))
     else sret ())"
  by pat_completeness auto

termination
  by (relation "measure (\<lambda>(values, start). length values - start)") auto

declare oc_runs.simps [simp del]

primrec oc_values :: "collection_strategy \<Rightarrow> u64 list \<Rightarrow> (output_cursor, unit) op" where
  "oc_values RawValues values = oc_each (\<lambda>v. oc_varint (zigzag_i64 v)) values"
| "oc_values DeltaValues values = (case values of [] \<Rightarrow> sret () | first # _ \<Rightarrow>
     sbind (oc_varint (zigzag_i64 first)) (\<lambda>_.
       oc_each (\<lambda>pair. oc_varint (zigzag_i128 (i64_difference pair))) (zip values (tl values))))"
| "oc_values RunLength values = oc_runs values 0"

primrec collection_tag :: "collection_strategy \<Rightarrow> byte" where
  "collection_tag RawValues = RAW_INTEGERS"
| "collection_tag DeltaValues = DELTA_INTEGERS"
| "collection_tag RunLength = RLE_INTEGERS"

text \<open>Both encoders write through a cursor over the first \<open>required\<close> bytes of the caller's buffer.\<close>

definition within_output :: "nat \<Rightarrow> byte list \<Rightarrow> (output_cursor, unit) op \<Rightarrow> (error + nat) \<times> byte list" where
  "within_output required output m =
    (if length output < required then (Inl (BufferTooSmall required (length output)), output)
     else let (r, c) = m (oc_new (take required output)) in
       (rmap (\<lambda>_. required) r, oc_output c @ drop required output))"

definition encode_i64_slice_into_slice :: "adaptive_config \<Rightarrow> byte list \<Rightarrow> u64 list \<Rightarrow> (error + nat) \<times> byte list" where
  "encode_i64_slice_into_slice a output values =
    (case rbind (ad_collection_limit a (length values)) (\<lambda>_. rbind (collection_layout values (ad_mode a)) (\<lambda>(strategy, _, required).
            rbind (ad_byte_limit a required) (\<lambda>_. Inr (strategy, required)))) of
       Inl e \<Rightarrow> (Inl e, output)
     | Inr (strategy, required) \<Rightarrow> within_output required output
         (sbind (oc_byte (collection_tag strategy)) (\<lambda>_.
          sbind (oc_varint (of_nat (length values))) (\<lambda>_. oc_values strategy values))))"

definition encoded_i64_slice_size :: "adaptive_config \<Rightarrow> u64 list \<Rightarrow> error + nat" where
  "encoded_i64_slice_size a values =
    rbind (ad_collection_limit a (length values)) (\<lambda>_. rbind (collection_layout values (ad_mode a)) (\<lambda>(_, _, required).
      rbind (ad_byte_limit a required) (\<lambda>_. Inr required)))"

text \<open>A growing vector panics beyond \<^verbatim>\<open>isize::MAX\<close> bytes.\<close>

definition grown :: "byte list \<Rightarrow> error + byte list" where
  "grown output = (if length output > 2 ^ 63 - 1 then Inl (Panic ''capacity overflow'') else Inr output)"

definition encode_i64_slice :: "(nat \<Rightarrow> bool) \<Rightarrow> adaptive_config \<Rightarrow> u64 list \<Rightarrow> error + byte list" where
  "encode_i64_slice alloc a values =
    (if ad_mode a = Off then
       rbind (ad_collection_limit a (length values)) (\<lambda>_.
       rbind (with_capacity alloc (sat_add (length values) 1)) (\<lambda>_.
       rbind (grown (RAW_INTEGERS # varint_bytes (of_nat (length values)) @
           concat (map (\<lambda>v. varint_bytes (zigzag_i64 v)) values))) (\<lambda>output.
       rbind (ad_byte_limit a (length output)) (\<lambda>_. Inr output))))
     else
       rbind (encoded_i64_slice_size a values) (\<lambda>required.
       rbind (try_reserve alloc required) (\<lambda>_.
       case encode_i64_slice_into_slice a (replicate required 0) values of
         (Inl e, _) \<Rightarrow> Inl e | (Inr _, output) \<Rightarrow> Inr output)))"

definition pack_scalars :: "byte list \<Rightarrow> byte list \<Rightarrow> (error + unit) \<times> byte list" where
  "pack_scalars s packed =
    (let (r, w) = fold (\<lambda>b (r, w). case r of Inl e \<Rightarrow> (r, w) | Inr _ \<Rightarrow> bit_write (ucast b) 7 w) s
       (Inr (), bit_writer_new packed)
     in (r, bw_output w))"

primrec string_tag :: "string_strategy \<Rightarrow> byte" where
  "string_tag RawUtf8 = RAW_UTF8"
| "string_tag Ascii7 = ASCII7"

definition encode_string_into_slice :: "adaptive_config \<Rightarrow> byte list \<Rightarrow> byte list \<Rightarrow> (error + nat) \<times> byte list" where
  "encode_string_into_slice a output s =
    (case rbind (string_layout s (ad_mode a)) (\<lambda>(strategy, payload_size, required).
            rbind (ad_byte_limit a required) (\<lambda>_. Inr (strategy, payload_size, required))) of
       Inl e \<Rightarrow> (Inl e, output)
     | Inr (strategy, payload_size, required) \<Rightarrow> within_output required output
         (sbind (oc_byte (string_tag strategy)) (\<lambda>_.
          sbind (oc_varint (of_nat (length s))) (\<lambda>_.
            case strategy of RawUtf8 \<Rightarrow> oc_bytes s | Ascii7 \<Rightarrow> oc_fill payload_size (pack_scalars s)))))"

definition encoded_string_size :: "adaptive_config \<Rightarrow> byte list \<Rightarrow> error + nat" where
  "encoded_string_size a s =
    rbind (string_layout s (ad_mode a)) (\<lambda>(_, _, required). rbind (ad_byte_limit a required) (\<lambda>_. Inr required))"

definition encode_string :: "(nat \<Rightarrow> bool) \<Rightarrow> adaptive_config \<Rightarrow> byte list \<Rightarrow> error + byte list" where
  "encode_string alloc a s =
    (if ad_mode a = Off then
       rbind (frame_size (length s) (length s)) (\<lambda>required.
       rbind (ad_byte_limit a required) (\<lambda>_.
       rbind (with_capacity alloc required) (\<lambda>_. Inr (RAW_UTF8 # varint_bytes (of_nat (length s)) @ s))))
     else
       rbind (encoded_string_size a s) (\<lambda>required.
       rbind (try_reserve alloc required) (\<lambda>_.
       case encode_string_into_slice a (replicate required 0) s of
         (Inl e, _) \<Rightarrow> Inl e | (Inr _, output) \<Rightarrow> Inr output)))"

section \<open>Input\<close>

record adaptive_cursor =
  ac_input :: "byte list"
  ac_position :: nat

definition ac_new :: "byte list \<Rightarrow> adaptive_cursor" where
  "ac_new input = \<lparr> ac_input = input, ac_position = 0 \<rparr>"

definition ac_take :: "nat \<Rightarrow> (adaptive_cursor, byte list) op" where
  "ac_take len c =
    (let e = ac_position c + len in
     if e > usize_max then (Inl UnexpectedEnd, c)
     else case slice (ac_position c) e (ac_input c) of
         None \<Rightarrow> (Inl UnexpectedEnd, c)
       | Some bytes \<Rightarrow> (Inr bytes, c\<lparr>ac_position := e\<rparr>))"

definition ac_byte :: "(adaptive_cursor, byte) op" where
  "ac_byte = sbind (ac_take 1) (\<lambda>bytes. sret (bytes ! 0))"

definition ac_remaining :: "adaptive_cursor \<Rightarrow> byte list" where
  "ac_remaining c = drop (ac_position c) (ac_input c)"

definition ac_wide :: "nat \<Rightarrow> u128 \<Rightarrow> (adaptive_cursor, u128) op" where
  "ac_wide len minimum = sbind (ac_take len) (\<lambda>bytes.
     let v = of_nat (le_to_nat bytes) in if v < minimum then sfail NonCanonicalVarint else sret v)"

definition ac_varint :: "(adaptive_cursor, u128) op" where
  "ac_varint = sbind ac_byte (\<lambda>marker.
     if marker \<le> 250 then sret (ucast marker)
     else if marker = 251 then ac_wide 2 251
     else if marker = 252 then ac_wide 4 0x10000
     else if marker = 253 then ac_wide 8 0x100000000
     else if marker = 254 then ac_wide 16 0x10000000000000000
     else sfail (InvalidVarintMarker marker))"

definition ac_usize_varint :: "(adaptive_cursor, nat) op" where
  "ac_usize_varint = sbind ac_varint (\<lambda>v.
     if unat v > usize_max then sfail (IntegerOverflow ''usize'') else sret (unat v))"

definition ac_finish :: "trailing \<Rightarrow> adaptive_cursor \<Rightarrow> error + unit" where
  "ac_finish policy c =
    (if policy = Reject \<and> ac_position c \<noteq> length (ac_input c)
     then Inl (TrailingBytesError (length (ac_input c) - ac_position c)) else Inr ())"

section \<open>Integer collections\<close>

text \<open>The cursor and the caller's buffer.\<close>

record i64_reader =
  ir_cursor :: adaptive_cursor
  ir_output :: "u64 list"

definition ir_read :: "(adaptive_cursor, 'a) op \<Rightarrow> (i64_reader, 'a) op" where
  "ir_read m s = (let (r, c) = m (ir_cursor s) in (r, s\<lparr>ir_cursor := c\<rparr>))"

definition ir_store :: "nat \<Rightarrow> u64 \<Rightarrow> (i64_reader, unit) op" where
  "ir_store i v s =
    (if i < length (ir_output s) then (Inr (), s\<lparr>ir_output := (ir_output s)[i := v]\<rparr>)
     else (Inl (Panic ''index out of bounds''), s))"

definition ir_value :: "(i64_reader, u64) op" where
  "ir_value = sbind (ir_read ac_varint) (\<lambda>v. slift (\<lambda>_. decode_i64 v))"

definition ad_plain_prefix :: "byte list \<Rightarrow> nat" where
  "ad_plain_prefix input = length (takeWhile (\<lambda>b. b \<le> 250) input)"

primrec ir_store_plain :: "byte list \<Rightarrow> nat \<Rightarrow> (i64_reader, unit) op" where
  "ir_store_plain [] written = sret ()"
| "ir_store_plain (b # bs) written =
     sbind (ir_store written (ucast (decode_i128 (ucast b)))) (\<lambda>_. ir_store_plain bs (written + 1))"

text \<open>A round takes the run of one-byte varints at once, then at most one value by the general path.\<close>

function ir_raw :: "nat \<Rightarrow> nat \<Rightarrow> (i64_reader, nat) op" where
  "ir_raw len written s =
    (if written < len then
       let plain = min (ad_plain_prefix (ac_remaining (ir_cursor s))) (len - written) in
       (case sbind (ir_read (ac_take plain)) (\<lambda>bytes. ir_store_plain bytes written) s of
          (Inl e, s1) \<Rightarrow> (Inl e, s1)
        | (Inr _, s1) \<Rightarrow>
          if written + plain < len then
            (case sbind ir_value (\<lambda>v. ir_store (written + plain) v) s1 of
               (Inl e, s2) \<Rightarrow> (Inl e, s2)
             | (Inr _, s2) \<Rightarrow> ir_raw len (written + plain + 1) s2)
          else ir_raw len (written + plain) s1)
     else (Inr written, s))"
  by pat_completeness auto

termination
  by (relation "measure (\<lambda>(len, written, s). len - written)") (auto simp: min_def split: if_splits)

declare ir_raw.simps [simp del]

definition reconstruct :: "u64 \<Rightarrow> u128 \<Rightarrow> error + u64" where
  "reconstruct previous delta =
    ok_or (Adaptive ''delta reconstruction overflow'')
      (let k = sint previous + sint delta in
       Option.bind (if - (2 ^ 127) \<le> k \<and> k < 2 ^ 127 then Some k else None) to_i64)"

function ir_deltas :: "nat \<Rightarrow> nat \<Rightarrow> (i64_reader, nat) op" where
  "ir_deltas len written s =
    (if written < len then
       (case sbind (ir_read ac_varint) (\<lambda>v. sbind (slift (\<lambda>s. reconstruct (ir_output s ! (written - 1)) (decode_i128 v)))
           (\<lambda>v. ir_store written v)) s of
          (Inl e, s1) \<Rightarrow> (Inl e, s1)
        | (Inr _, s1) \<Rightarrow> ir_deltas len (written + 1) s1)
     else (Inr written, s))"
  by pat_completeness auto

termination by (relation "measure (\<lambda>(len, written, s). len - written)") auto

declare ir_deltas.simps [simp del]

definition ir_fill :: "nat \<Rightarrow> nat \<Rightarrow> u64 \<Rightarrow> (i64_reader, unit) op" where
  "ir_fill written run v s =
    (if written + run \<le> length (ir_output s)
     then (Inr (), s\<lparr>ir_output := take written (ir_output s) @ replicate run v @ drop (written + run) (ir_output s)\<rparr>)
     else (Inl (Panic ''range end index out of range''), s))"

function ir_runs :: "nat \<Rightarrow> nat \<Rightarrow> (i64_reader, nat) op" where
  "ir_runs len written s =
    (if written < len then
       (case sbind ir_value (\<lambda>v. sbind (ir_read ac_usize_varint) (\<lambda>run.
           if run = 0 \<or> run > len - written then sfail (Adaptive ''invalid run length'')
           else sbind (ir_fill written run v) (\<lambda>_. sret run))) s of
          (Inl e, s1) \<Rightarrow> (Inl e, s1)
        | (Inr run, s1) \<Rightarrow> if run = 0 then (Inl (Panic ''unreachable''), s1) else ir_runs len (written + run) s1)
     else (Inr written, s))"
  by pat_completeness auto

termination by (relation "measure (\<lambda>(len, written, s). len - written)") auto

declare ir_runs.simps [simp del]

definition ir_values :: "byte \<Rightarrow> nat \<Rightarrow> (i64_reader, nat) op" where
  "ir_values strategy len =
    (if strategy = RAW_INTEGERS then ir_raw len 0
     else if strategy = DELTA_INTEGERS then
       (if len \<noteq> 0 then sbind ir_value (\<lambda>v. sbind (ir_store 0 v) (\<lambda>_. ir_deltas len 1)) else sret 0)
     else ir_runs len 0)"

text \<open>The header of a frame: its strategy and the declared number of elements.\<close>

definition ac_i64_header :: "adaptive_config \<Rightarrow> (adaptive_cursor, byte \<times> nat) op" where
  "ac_i64_header a = sbind ac_byte (\<lambda>strategy.
     if strategy \<noteq> RAW_INTEGERS \<and> strategy \<noteq> DELTA_INTEGERS \<and> strategy \<noteq> RLE_INTEGERS
     then sfail (Adaptive ''unknown collection strategy'')
     else sbind ac_usize_varint (\<lambda>len. sbind (slift (\<lambda>_. ad_collection_limit a len)) (\<lambda>_. sret (strategy, len))))"

definition decoded_i64_slice_len :: "adaptive_config \<Rightarrow> byte list \<Rightarrow> error + nat" where
  "decoded_i64_slice_len a input =
    rbind (ad_byte_limit a (length input)) (\<lambda>_. rbind (fst (ac_i64_header a (ac_new input))) (\<lambda>(_, len). Inr len))"

definition decode_i64_slice_into :: "adaptive_config \<Rightarrow> u64 list \<Rightarrow> byte list \<Rightarrow> (error + nat) \<times> u64 list" where
  "decode_i64_slice_into a output input =
    (case ad_byte_limit a (length input) of Inl e \<Rightarrow> (Inl e, output) | Inr _ \<Rightarrow>
     (case ac_i64_header a (ac_new input) of
        (Inl e, _) \<Rightarrow> (Inl e, output)
      | (Inr (strategy, len), c) \<Rightarrow>
          if length output < len then (Inl (BufferTooSmall len (length output)), output)
          else let (r, s) = sbind (ir_values strategy len) (\<lambda>written.
                   sbind (slift (\<lambda>s. ac_finish (c_trailing (ad_base a)) (ir_cursor s))) (\<lambda>_. sret written))
                 \<lparr> ir_cursor = c, ir_output = output \<rparr>
               in (r, ir_output s)))"

definition decode_i64_vec :: "(nat \<Rightarrow> bool) \<Rightarrow> adaptive_config \<Rightarrow> byte list \<Rightarrow> error + u64 list" where
  "decode_i64_vec alloc a input =
    rbind (decoded_i64_slice_len a input) (\<lambda>len.
    rbind (try_reserve alloc (8 * len)) (\<lambda>_.
    case decode_i64_slice_into a (replicate len 0) input of
      (Inl e, _) \<Rightarrow> Inl e | (Inr _, output) \<Rightarrow> Inr output))"

definition collection_strategy_of :: "byte list \<Rightarrow> error + collection_strategy" where
  "collection_strategy_of input =
    (case input of [] \<Rightarrow> Inl UnexpectedEnd | b # _ \<Rightarrow>
       if b = RAW_INTEGERS then Inr RawValues else if b = DELTA_INTEGERS then Inr DeltaValues
       else if b = RLE_INTEGERS then Inr RunLength else Inl (Adaptive ''unknown collection strategy''))"

section \<open>Strings\<close>

datatype cow = Borrowed "byte list" | Owned "byte list"

primrec into_owned :: "cow \<Rightarrow> byte list" where
  "into_owned (Borrowed s) = s" | "into_owned (Owned s) = s"

definition string_strategy_of :: "byte list \<Rightarrow> error + string_strategy" where
  "string_strategy_of input =
    (case input of [] \<Rightarrow> Inl UnexpectedEnd | b # _ \<Rightarrow>
       if b = RAW_UTF8 then Inr RawUtf8 else if b = ASCII7 then Inr Ascii7
       else Inl (Adaptive ''unknown string strategy''))"

definition validate_ascii_padding :: "byte list \<Rightarrow> nat \<Rightarrow> error + unit" where
  "validate_ascii_padding bytes meaningful_bits =
    (if meaningful_bits mod 8 \<noteq> 0 \<and> bytes \<noteq> [] \<and> drop_bit (meaningful_bits mod 8) (last bytes) \<noteq> 0
     then Inl (Adaptive ''non-zero ASCII7 padding'') else Inr ())"

primrec read_scalars :: "nat \<Rightarrow> (bit_reader, byte list) op" where
  "read_scalars 0 = sret []"
| "read_scalars (Suc n) = sbind (bit_read 7) (\<lambda>v. sbind (read_scalars n) (\<lambda>s. sret (ucast v # s)))"

text \<open>The same loop over the slots of a buffer: those before a failed read are written.\<close>

primrec fill_scalars :: "nat \<Rightarrow> bit_reader \<Rightarrow> byte list \<Rightarrow> (error + unit) \<times> byte list" where
  "fill_scalars 0 r slots = (Inr (), slots)"
| "fill_scalars (Suc n) r slots = (case bit_read 7 r of
     (Inl e, _) \<Rightarrow> (Inl e, slots)
   | (Inr v, r') \<Rightarrow> let (res, rest) = fill_scalars n r' (tl slots) in (res, ucast v # rest))"

definition ac_utf8 :: "nat \<Rightarrow> (adaptive_cursor, byte list) op" where
  "ac_utf8 len = sbind (ac_take len) (\<lambda>bytes. if utf8_valid bytes then sret bytes else sfail InvalidUtf8)"

definition ac_packed :: "nat \<Rightarrow> (adaptive_cursor, byte list) op" where
  "ac_packed len = sbind (slift (\<lambda>_. packed_len ''ASCII7 length overflow'' len)) ac_take"

definition decode_string_borrowed :: "(nat \<Rightarrow> bool) \<Rightarrow> adaptive_config \<Rightarrow> byte list \<Rightarrow> error + cow" where
  "decode_string_borrowed alloc a input =
    rbind (ad_byte_limit a (length input)) (\<lambda>_.
    fst (sbind ac_byte (\<lambda>strategy. sbind ac_usize_varint (\<lambda>len.
      sbind
        (if strategy = RAW_UTF8 then sbind (ac_utf8 len) (\<lambda>bytes. sret (Borrowed bytes))
         else if strategy = ASCII7 then sbind (ac_packed len) (\<lambda>bytes.
           sbind (slift (\<lambda>_. try_reserve alloc len)) (\<lambda>_.
           sbind (slift (\<lambda>_. fst (read_scalars len (bit_reader_new bytes)))) (\<lambda>s.
           sbind (slift (\<lambda>_. validate_ascii_padding bytes (len * 7))) (\<lambda>_. sret (Owned s)))))
         else sfail (Adaptive ''unknown string strategy''))
        (\<lambda>v. sbind (slift (ac_finish (c_trailing (ad_base a)))) (\<lambda>_. sret v)))) (ac_new input)))"

definition decode_string :: "(nat \<Rightarrow> bool) \<Rightarrow> adaptive_config \<Rightarrow> byte list \<Rightarrow> error + byte list" where
  "decode_string alloc a input = rmap into_owned (decode_string_borrowed alloc a input)"

text \<open>The result is the string and the buffer it borrows from.\<close>

definition decode_string_into_slice ::
  "adaptive_config \<Rightarrow> byte list \<Rightarrow> byte list \<Rightarrow> (error + byte list) \<times> byte list" where
  "decode_string_into_slice a output input =
    (case ad_byte_limit a (length input) of Inl e \<Rightarrow> (Inl e, output) | Inr _ \<Rightarrow>
     (case sbind ac_byte (\<lambda>strategy.
          if strategy \<noteq> RAW_UTF8 \<and> strategy \<noteq> ASCII7 then sfail (Adaptive ''unknown string strategy'')
          else sbind ac_usize_varint (\<lambda>len. sret (strategy, len))) (ac_new input) of
        (Inl e, _) \<Rightarrow> (Inl e, output)
      | (Inr (strategy, len), c) \<Rightarrow>
          if length output < len then (Inl (BufferTooSmall len (length output)), output)
          else
            (let (r, output', c') =
               (if strategy = RAW_UTF8 then
                  (case ac_utf8 len c of
                     (Inl e, c') \<Rightarrow> (Inl e, output, c')
                   | (Inr bytes, c') \<Rightarrow> (Inr (), bytes @ drop len output, c'))
                else
                  (case ac_packed len c of
                     (Inl e, c') \<Rightarrow> (Inl e, output, c')
                   | (Inr bytes, c') \<Rightarrow>
                       (let (r, slots) = fill_scalars len (bit_reader_new bytes) (take len output) in
                        (rbind r (\<lambda>_. validate_ascii_padding bytes (len * 7)), slots @ drop len output, c'))))
             in (rbind r (\<lambda>_. rbind (ac_finish (c_trailing (ad_base a)) c') (\<lambda>_.
                   if utf8_valid (take len output') then Inr (take len output') else Inl InvalidUtf8)), output'))))"

end
