(* ===== verification/AdaptiveProofs.thy ===== *)
theory AdaptiveProofs
  imports Adaptive
begin

text \<open>
  What \<^verbatim>\<open>src/adaptive.rs\<close> promises: the sizes of the three integer forms and the choice among them, the
  bytes each encoder writes, the decoders as readers of those bytes (another model of \<open>reader\<close>), and
  the round trips.
\<close>

section \<open>The written form\<close>

definition zz :: "u64 \<Rightarrow> byte list" where
  "zz v = varint_bytes (zigzag_i64 v)"

definition zd :: "u64 \<times> u64 \<Rightarrow> byte list" where
  "zd p = varint_bytes (zigzag_i128 (i64_difference p))"

text \<open>The maximal runs of a list, each with its length.\<close>

function value_runs :: "u64 list \<Rightarrow> (u64 \<times> nat) list" where
  "value_runs [] = []"
| "value_runs (v # vs) = (v, Suc (length (takeWhile ((=) v) vs))) # value_runs (dropWhile ((=) v) vs)"
  by pat_completeness auto

termination by (relation "measure length") (auto simp: less_Suc_eq_le length_dropWhile_le)

definition run_bytes :: "u64 \<times> nat \<Rightarrow> byte list" where
  "run_bytes r = zz (fst r) @ varint_bytes (of_nat (snd r))"

primrec value_bytes :: "collection_strategy \<Rightarrow> u64 list \<Rightarrow> byte list" where
  "value_bytes RawValues vs = concat (map zz vs)"
| "value_bytes DeltaValues vs = (case vs of [] \<Rightarrow> [] | first # _ \<Rightarrow> zz first @ concat (map zd (zip vs (tl vs))))"
| "value_bytes RunLength vs = concat (map run_bytes (value_runs vs))"

definition i64_frame :: "collection_strategy \<Rightarrow> u64 list \<Rightarrow> byte list" where
  "i64_frame strategy vs = collection_tag strategy # varint_bytes (of_nat (length vs)) @ value_bytes strategy vs"

section \<open>Sizes\<close>

lemma varint_size_length: "varint_size v = length (varint_bytes v)"
proof -
  have "v \<le> 250 \<longleftrightarrow> unat v \<le> 250" "v \<le> 0xffff \<longleftrightarrow> unat v \<le> 0xffff" "v \<le> 0xffffffff \<longleftrightarrow> unat v \<le> 0xffffffff"
    "v \<le> 0xffffffffffffffff \<longleftrightarrow> unat v \<le> 0xffffffffffffffff"
    by (simp_all add: word_le_nat_alt)
  then show ?thesis by (simp add: varint_size_def varint_bytes_nat Let_def)
qed

definition sized :: "nat \<Rightarrow> error + nat" where
  "sized n = (if n \<le> usize_max then Inr n else Inl (Adaptive ''encoded size overflow''))"

lemma sized_Inr [simp]: "sized n = Inr m \<longleftrightarrow> m = n \<and> n \<le> usize_max"
  by (auto simp: sized_def)

lemma size_add_sized: "size_add m n = sized (m + n)"
  by (simp add: size_add_def sized_def)

lemma try_fold_sized: "rbind (sized m) (try_fold f xs) = sized (m + sum_list (map f xs))"
proof (induction xs arbitrary: m)
  case (Cons x xs)
  have "rbind (sized m) (\<lambda>n. rbind (sized (n + f x)) (try_fold f xs)) = rbind (sized (m + f x)) (try_fold f xs)"
    by (auto simp: sized_def)
  then show ?case by (simp add: size_add_sized Cons.IH add.assoc)
qed (simp add: sized_def)

lemma sum_lengths: "sum_list (map (\<lambda>x. length (f x)) xs) = length (concat (map f xs))"
  by (induction xs) simp_all

lemma raw_size_eq: "raw_size vs = sized (length (value_bytes RawValues vs))"
  using try_fold_sized[of 0 "\<lambda>v. length (zz v)" vs]
  by (simp add: raw_size_def varint_size_length zz_def[symmetric] sum_lengths)
    (simp add: sized_def)

lemma delta_size_eq: "delta_size vs = sized (length (value_bytes DeltaValues vs))"
proof (cases vs)
  case (Cons v ws)
  have "length (zz v) \<le> usize_max" using length_varint_bytes[of "zigzag_i64 v"] by (auto simp: zz_def)
  then have "rbind (sized (length (zz v))) g = g (length (zz v))" for g :: "nat \<Rightarrow> error + nat" by (simp add: sized_def)
  then show ?thesis
    using try_fold_sized[of "length (zz v)" "\<lambda>p. length (zd p)" "zip vs (tl vs)"] Cons
    by (simp add: delta_size_def varint_size_length zz_def[symmetric] zd_def[symmetric] sum_lengths)
qed (simp add: delta_size_def sized_def)

lemma run_end_eq:
  "run_end vs start e = e + length (takeWhile (\<lambda>v. v = vs ! start) (drop e vs))"
proof (induction vs start e rule: run_end.induct)
  case (1 vs start e)
  then show ?case
    by (cases "e < length vs") (auto simp: run_end.simps[of vs start e] Cons_nth_drop_Suc[symmetric])
qed

lemma runs_at:
  assumes "start < length vs"
  defines "e \<equiv> run_end vs start (start + 1)"
  shows "value_runs (drop start vs) = (vs ! start, e - start) # value_runs (drop e vs)"
    and "start < e" and "e \<le> length vs"
proof -
  let ?w = "drop (Suc start) vs"
  have e: "e = Suc start + length (takeWhile ((=) (vs ! start)) ?w)"
    by (simp add: e_def run_end_eq eq_commute[of _ "vs ! start"])
  have "dropWhile ((=) (vs ! start)) ?w = drop e vs"
    by (simp add: e dropWhile_eq_drop add.commute)
  then show "value_runs (drop start vs) = (vs ! start, e - start) # value_runs (drop e vs)"
    using assms(1) by (simp add: e Cons_nth_drop_Suc[symmetric])
  show "start < e" by (simp add: e)
  have "length (takeWhile ((=) (vs ! start)) ?w) \<le> length ?w" by (rule length_takeWhile_le)
  then show "e \<le> length vs" using assms(1) by (simp add: e)
qed

lemma rle_size_loop_eq:
  "rbind (sized m) (\<lambda>sz. rle_size_loop vs sz start) =
    sized (m + length (concat (map run_bytes (value_runs (drop start vs)))))"
proof (induction "length vs - start" arbitrary: m start rule: less_induct)
  case less
  show ?case
  proof (cases "start < length vs")
    case True
    let ?e = "run_end vs start (start + 1)"
    note r = runs_at[OF True]
    have step: "rle_size_loop vs sz start =
      rbind (sized (sz + length (zz (vs ! start)))) (\<lambda>sz.
      rbind (sized (sz + length (varint_bytes (of_nat (?e - start))))) (\<lambda>sz. rle_size_loop vs sz ?e))" for sz
      using True by (subst rle_size_loop.simps) (simp add: size_add_sized varint_size_length zz_def Let_def)
    have "rbind (sized m) (\<lambda>sz. rle_size_loop vs sz start) =
      rbind (sized (m + length (zz (vs ! start)) + length (varint_bytes (of_nat (?e - start))))) (\<lambda>sz. rle_size_loop vs sz ?e)"
      unfolding step by (auto simp: sized_def)
    also have "\<dots> = sized (m + length (zz (vs ! start)) + length (varint_bytes (of_nat (?e - start))) +
      length (concat (map run_bytes (value_runs (drop ?e vs)))))"
      using r(2,3) True by (intro less) simp
    finally show ?thesis using r(1) by (simp add: run_bytes_def add.assoc)
  next
    case False
    then show ?thesis by (simp add: rle_size_loop.simps[of vs _ start] sized_def)
  qed
qed

lemma rle_size_eq: "rle_size vs = sized (length (value_bytes RunLength vs))"
  using rle_size_loop_eq[of 0 vs 0] by (simp add: rle_size_def) (simp add: sized_def)

lemma strategy_size_eq: "strategy_size strategy vs = sized (length (value_bytes strategy vs))"
  by (cases strategy) (simp_all add: raw_size_eq delta_size_eq rle_size_eq del: value_bytes.simps)

lemma frame_size_eq: "frame_size len payload = sized (1 + length (varint_bytes (of_nat len)) + payload)"
  by (auto simp: frame_size_def size_add_sized varint_size_length sized_def)

lemma compare_sizes_Inr:
  assumes "compare_sizes vs = Inr (strategy, n)"
  shows "n = length (value_bytes strategy vs)" and "\<And>s. n \<le> length (value_bytes s vs)"
proof -
  let ?l = "\<lambda>s. length (value_bytes s vs)"
  have b: "best_strategy (?l RawValues) (?l DeltaValues) (?l RunLength) = (strategy, n)"
    using assms by (auto simp: compare_sizes_def raw_size_eq delta_size_eq rle_size_eq rbind_eq_Inr simp del: value_bytes.simps)
  then show "n = ?l strategy" by (auto simp: best_strategy_def split: if_splits)
  show "n \<le> ?l s" for s
    using b by (cases s) (auto simp: best_strategy_def simp del: value_bytes.simps split: if_splits)
qed

lemma collection_layout_Inr:
  assumes "collection_layout vs mode = Inr (strategy, payload_size, required)"
  shows "required = length (i64_frame strategy vs)" and "required \<le> usize_max"
    and "mode = Exact \<Longrightarrow> required \<le> length (i64_frame s vs)" and "mode = Off \<Longrightarrow> strategy = RawValues"
proof -
  have p: "payload_size = length (value_bytes strategy vs)"
    and r: "required = 1 + length (varint_bytes (of_nat (length vs))) + payload_size" "required \<le> usize_max"
    and m: "mode = Exact \<Longrightarrow> compare_sizes vs = Inr (strategy, payload_size)" "mode = Off \<Longrightarrow> strategy = RawValues"
    using assms compare_sizes_Inr(1)[of vs strategy payload_size]
    by (auto simp: collection_layout_def frame_size_eq strategy_size_eq raw_size_eq rbind_eq_Inr
        simp del: value_bytes.simps split: adaptive_mode.splits if_splits)
  show "required = length (i64_frame strategy vs)" "required \<le> usize_max" "mode = Off \<Longrightarrow> strategy = RawValues"
    using p r m by (simp_all add: i64_frame_def)
  show "mode = Exact \<Longrightarrow> required \<le> length (i64_frame s vs)"
    using compare_sizes_Inr(2)[OF m(1), of s] r by (simp add: i64_frame_def)
qed

section \<open>Writing\<close>

definition oc_put :: "byte list \<Rightarrow> output_cursor \<Rightarrow> output_cursor" where
  "oc_put bs c = \<lparr> oc_output = take (oc_position c) (oc_output c) @ bs @ drop (oc_position c + length bs) (oc_output c),
     oc_position = oc_position c + length bs \<rparr>"

definition writes :: "(output_cursor, unit) op \<Rightarrow> byte list \<Rightarrow> bool" where
  "writes m bs \<longleftrightarrow> (\<forall>c. oc_position c + length bs \<le> length (oc_output c) \<longrightarrow> m c = (Inr (), oc_put bs c))"

lemma oc_put_append:
  "oc_position c + length (x @ y) \<le> length (oc_output c) \<Longrightarrow> oc_put y (oc_put x c) = oc_put (x @ y) c"
  by (auto simp: oc_put_def ac_simps min_def)

lemma writes_sbind:
  assumes "writes m x" and "writes m' y"
  shows "writes (sbind m (\<lambda>_. m')) (x @ y)"
  unfolding writes_def
proof (intro allI impI)
  fix c :: output_cursor assume c: "oc_position c + length (x @ y) \<le> length (oc_output c)"
  then have m: "m c = (Inr (), oc_put x c)" using assms(1) by (simp add: writes_def)
  have "oc_position (oc_put x c) + length y \<le> length (oc_output (oc_put x c))"
    using c by (simp add: oc_put_def)
  then have "m' (oc_put x c) = (Inr (), oc_put (x @ y) c)"
    using assms(2) c by (simp add: writes_def oc_put_append)
  then show "sbind m (\<lambda>_. m') c = (Inr (), oc_put (x @ y) c)" using m by (simp only: sbind_ok)
qed

lemma writes_ret: "writes (sret ()) []"
  by (simp add: writes_def oc_put_def)

lemma writes_byte: "writes (oc_byte b) [b]"
  by (auto simp: writes_def oc_byte_def oc_put_def upd_conv_take_nth_drop)

lemma writes_fill:
  assumes "\<And>slot. length slot = n \<Longrightarrow> store slot = (Inr (), bs)" and "length bs = n"
  shows "writes (oc_fill n store) bs"
  using assms by (auto simp: writes_def oc_fill_def oc_put_def Let_def)

lemma writes_bytes: "writes (oc_bytes bs) bs"
  unfolding oc_bytes_def by (rule writes_fill) simp_all

lemma writes_varint: "writes (oc_varint v) (varint_bytes v)"
  unfolding oc_varint_def by (rule writes_bytes)

lemma writes_each:
  assumes "\<And>x. writes (f x) (g x)"
  shows "writes (oc_each f xs) (concat (map g xs))"
proof (induction xs)
  case (Cons x xs)
  then show ?case using writes_sbind[OF assms[of x] Cons.IH] by (simp del: sop_simps)
qed (simp add: writes_ret del: sop_simps)

lemma writes_runs: "writes (oc_runs vs start) (concat (map run_bytes (value_runs (drop start vs))))"
proof (induction "length vs - start" arbitrary: start rule: less_induct)
  case less
  show ?case
  proof (cases "start < length vs")
    case True
    let ?e = "run_end vs start (start + 1)"
    note r = runs_at[OF True]
    have "writes (oc_runs vs ?e) (concat (map run_bytes (value_runs (drop ?e vs))))"
      using r(2,3) True by (intro less) simp
    then have "writes (sbind (oc_varint (zigzag_i64 (vs ! start))) (\<lambda>_.
        sbind (oc_varint (of_nat (?e - start))) (\<lambda>_. oc_runs vs ?e)))
      (zz (vs ! start) @ varint_bytes (of_nat (?e - start)) @ concat (map run_bytes (value_runs (drop ?e vs))))"
      unfolding zz_def by (intro writes_sbind writes_varint)
    then show ?thesis using True r(1) by (subst oc_runs.simps) (simp add: run_bytes_def Let_def del: sop_simps)
  next
    case False
    then show ?thesis by (simp add: oc_runs.simps[of vs start] writes_ret del: sop_simps)
  qed
qed

lemma writes_values: "writes (oc_values strategy vs) (value_bytes strategy vs)"
proof (cases strategy)
  case RawValues
  then show ?thesis using writes_each[of "\<lambda>v. oc_varint (zigzag_i64 v)" zz vs] by (simp add: writes_varint zz_def)
next
  case DeltaValues
  have z: "writes (oc_varint (zigzag_i64 v)) (zz v)" for v by (simp add: writes_varint zz_def)
  have "writes (oc_each (\<lambda>pair. oc_varint (zigzag_i128 (i64_difference pair))) ps) (concat (map zd ps))" for ps
    by (rule writes_each) (simp add: writes_varint zd_def)
  then show ?thesis using DeltaValues writes_ret writes_sbind[OF z]
    by (cases vs) (simp_all del: sop_simps)
next
  case RunLength
  then show ?thesis using writes_runs[of vs 0] by simp
qed

lemma within_output_writes:
  assumes "writes m bs" and "length bs = required"
  shows "within_output required output m =
    (if length output < required then (Inl (BufferTooSmall required (length output)), output)
     else (Inr required, bs @ drop required output))"
proof -
  have "m (oc_new (take required output)) = (Inr (), oc_put bs (oc_new (take required output)))" if "required \<le> length output"
    using assms \<open>required \<le> length output\<close> by (simp add: writes_def oc_new_def)
  then show ?thesis using assms(2) by (simp add: within_output_def oc_put_def oc_new_def)
qed

text \<open>The encoder into a slice writes the frame and nothing else, and reports its exact size.\<close>

lemma i64_encode_into:
  "encode_i64_slice_into_slice a output vs =
    (case encoded_i64_slice_size a vs of
       Inl e \<Rightarrow> (Inl e, output)
     | Inr required \<Rightarrow>
         if length output < required then (Inl (BufferTooSmall required (length output)), output)
         else (case collection_layout vs (ad_mode a) of Inl e \<Rightarrow> (Inl e, output)
           | Inr (strategy, _) \<Rightarrow> (Inr required, i64_frame strategy vs @ drop required output)))"
proof (cases "ad_collection_limit a (length vs)")
  case (Inr u)
  note l = Inr
  show ?thesis
  proof (cases "collection_layout vs (ad_mode a)")
    case (Inr r)
    obtain strategy n required where r: "r = (strategy, n, required)" by (cases r)
    note len = collection_layout_Inr(1)[OF Inr[unfolded r]]
    have "writes (sbind (oc_byte (collection_tag strategy)) (\<lambda>_.
          sbind (oc_varint (of_nat (length vs))) (\<lambda>_. oc_values strategy vs))) ([collection_tag strategy] @
          varint_bytes (of_nat (length vs)) @ value_bytes strategy vs)"
      by (intro writes_sbind writes_byte writes_varint writes_values)
    then have "writes (sbind (oc_byte (collection_tag strategy)) (\<lambda>_.
          sbind (oc_varint (of_nat (length vs))) (\<lambda>_. oc_values strategy vs))) (i64_frame strategy vs)"
      by (simp add: i64_frame_def)
    note w = within_output_writes[OF this len[symmetric], of "output"]
    show ?thesis
      by (cases "ad_byte_limit a required")
        (simp_all add: encode_i64_slice_into_slice_def encoded_i64_slice_size_def l Inr r w)
  qed (simp add: encode_i64_slice_into_slice_def encoded_i64_slice_size_def l)
qed (simp add: encode_i64_slice_into_slice_def encoded_i64_slice_size_def)

lemma encode_i64_Inr:
  assumes "encode_i64_slice alloc a vs = Inr bytes"
  obtains strategy where "bytes = i64_frame strategy vs" and "length bytes \<le> usize_max"
    and "within (c_limit (ad_base a)) (length bytes)" and "within (c_collection_limit (ad_base a)) (length vs)"
    and "ad_mode a = Exact \<Longrightarrow> (\<forall>s. length bytes \<le> length (i64_frame s vs))"
proof (cases "ad_mode a = Off")
  case True
  then have "bytes = i64_frame RawValues vs" "length bytes \<le> 2 ^ 63 - 1" "within (c_limit (ad_base a)) (length bytes)"
    "within (c_collection_limit (ad_base a)) (length vs)"
    using assms by (auto simp: encode_i64_slice_def i64_frame_def zz_def[abs_def] grown_def ad_byte_limit_def
        ad_collection_limit_def rbind_eq_Inr split: if_splits)
  then show thesis using that True by fastforce
next
  case False
  then obtain required where s: "encoded_i64_slice_size a vs = Inr required"
    and e: "(case encode_i64_slice_into_slice a (replicate required 0) vs of (Inl e, _) \<Rightarrow> Inl e | (Inr _, output) \<Rightarrow> Inr output) = Inr bytes"
    using assms by (auto simp: encode_i64_slice_def rbind_eq_Inr)
  then obtain strategy n where c: "collection_layout vs (ad_mode a) = Inr (strategy, n, required)"
    and l: "within (c_limit (ad_base a)) required" "within (c_collection_limit (ad_base a)) (length vs)"
    by (auto simp: encoded_i64_slice_size_def rbind_eq_Inr ad_byte_limit_def ad_collection_limit_def)
  have "bytes = i64_frame strategy vs" using e by (simp add: i64_encode_into s c)
  then show thesis using that[of strategy] collection_layout_Inr[OF c] l by auto
qed

section \<open>Integers and their codes\<close>

lemma sint_scast_i64: "sint (scast (v :: u64) :: u128) = sint v"
  by (simp add: signed_scast_eq) (rule signed_take_bit_int_eq_self, use sint_range_size[of v] in \<open>auto simp: word_size\<close>)

lemma bit_zigzag_i64: "bit (zigzag_i64 v) n \<longleftrightarrow> n < 64 \<and> ((0 < n \<and> bit v (n - 1)) \<noteq> bit v 63)"
  unfolding zigzag_i64_def bit_unsigned_iff bit_xor_iff bit_push_bit_iff bit_signed_drop_bit_iff
  by (auto simp: not_le min_def dest: bit_imp_le_length)

lemma zigzag_i64_eq: "zigzag_i64 v = zigzag_encode (scast v)"
proof (rule bit_word_eqI)
  fix n :: nat assume n: "n < LENGTH(128)"
  have s: "bit (scast v :: u128) m \<longleftrightarrow> m < 128 \<and> bit v (min m 63)" for m
    by (auto simp: bit_signed_iff min_def)
  show "bit (zigzag_i64 v) n = bit (zigzag_encode (scast v)) n"
    using n by (cases "n \<le> 63"; cases "n = 64") (auto simp: bit_zigzag_i64 bit_zigzag_encode s min_def)
qed

lemma decode_i128_eq: "decode_i128 = zigzag_decode"
  by (rule ext) (simp add: decode_i128_def zigzag_decode_def)

lemma decode_zigzag_i64 [simp]: "decode_i128 (zigzag_i64 v) = scast v"
  by (simp add: decode_i128_eq zigzag_i64_eq zigzag_decode_encode)

lemma decode_zigzag_i128 [simp]: "decode_i128 (zigzag_i128 v) = v"
  using zigzag_decode_encode[of v] by (simp add: decode_i128_eq zigzag_i128_def zigzag_encode_def)

lemma to_i64_sint [simp]: "to_i64 (sint (v :: u64)) = Some v"
  using sint_range_size[of v] by (auto simp: to_i64_def word_size)

lemma decode_i64_zigzag [simp]: "decode_i64 (zigzag_i64 v) = Inr v"
  by (simp add: decode_i64_def sint_scast_i64)

lemma reconstruct_difference [simp]: "reconstruct p (i64_difference (p, v)) = Inr v"
proof -
  have r: "- (2 ^ 63) \<le> sint w" "sint w < 2 ^ 63" for w :: u64
    using sint_range_size[of w] by (simp_all add: word_size)
  have "sint (i64_difference (p, v)) = signed_take_bit 127 (sint v - sint p)"
    by (simp add: i64_difference_def signed_scast_eq[symmetric] sint_scast_i64 sint_word_ariths)
  also have "\<dots> = sint v - sint p"
    using r[of v] r[of p] by (intro signed_take_bit_int_eq_self) simp_all
  finally show ?thesis using r[of v] by (simp add: reconstruct_def)
qed

section \<open>Reading\<close>

definition ac_rest :: "adaptive_cursor \<Rightarrow> byte list" where
  "ac_rest c = unread None (ac_input c) (ac_position c)"

definition ac_adv :: "nat \<Rightarrow> adaptive_cursor \<Rightarrow> adaptive_cursor" where
  "ac_adv n c = c\<lparr>ac_position := ac_position c + n\<rparr>"

definition ac_valid :: "adaptive_cursor \<Rightarrow> bool" where
  "ac_valid c \<longleftrightarrow> ac_position c \<le> length (ac_input c) \<and> ac_position c \<le> usize_max"

interpretation ac: reader ac_rest ac_adv ac_valid
proof
  fix s bs zs assume v: "ac_valid s" and r: "ac_rest s = bs @ zs"
  show "ac_valid (ac_adv (length bs) s)"
    using v unread_prefix[OF r[unfolded ac_rest_def]] by (cases bs) (auto simp: ac_valid_def ac_adv_def)
qed (simp_all add: ac_rest_def ac_adv_def unread_step add.assoc)

lemma ac_yields_take: "length bs = n \<Longrightarrow> ac.yields (ac_take n) bs bs"
  unfolding ac.yields_def
proof (intro allI impI)
  fix s assume n: "length bs = n" and "ac.starts s bs"
  then obtain zs where v: "ac_valid s" and r: "unread None (ac_input s) (ac_position s) = bs @ zs"
    by (auto simp: ac.starts_def ac_rest_def)
  have p: "slice (ac_position s) (ac_position s + length bs) (ac_input s) = Some bs"
    using unread_prefix[OF r] v by (simp add: ac_valid_def)
  have "ac_position s + length bs \<le> usize_max"
    using unread_prefix(3)[OF r] v by (cases bs) (auto simp: ac_valid_def)
  then show "ac_take n s = (Inr bs, ac_adv (length bs) s)"
    using p n by (auto simp: ac_take_def ac_adv_def)
qed

lemma ac_yields_byte: "ac.yields ac_byte [b] b"
  unfolding ac_byte_def by (rule ac.rd_yields_map[OF ac_yields_take]) simp_all

lemma ac_yields_wide:
  "unat v < 256 ^ n \<Longrightarrow> \<not> v < minimum \<Longrightarrow> ac.yields (ac_wide n minimum) (nat_to_le n (unat v)) v"
  unfolding ac_wide_def by (rule ac.rd_yields_map[OF ac_yields_take]) simp_all

lemma ac_yields_varint: "ac.yields ac_varint (varint_bytes v) v"
proof -
  have join: "ac.yields (sbind ac_byte f) (m # p) v" if "ac.yields (f m) p v" for f m p
    using ac.rd_yields_sbind[of ac_byte "[m]" m f p v] ac_yields_byte that by simp
  show ?thesis
  proof (cases v rule: varint_cases)
    case 1
    have "ucast (ucast v :: byte) = v" using 1(1) by (simp add: ucast_ucast_id)
    then show ?thesis unfolding 1(2) ac_varint_def using ucast_byte_le[OF 1(1)] ac.rd_yields_ret[of v]
      by (intro join) (simp del: sop_simps)
  next
    case 2
    then show ?thesis unfolding 2(3) ac_varint_def
      by (intro join) (simp add: ac_yields_wide word_less_nat_alt del: sop_simps)
  next
    case 3
    then show ?thesis unfolding 3(3) ac_varint_def
      by (intro join) (simp add: ac_yields_wide word_less_nat_alt del: sop_simps)
  next
    case 4
    then show ?thesis unfolding 4(3) ac_varint_def
      by (intro join) (simp add: ac_yields_wide word_less_nat_alt del: sop_simps)
  next
    case 5
    then show ?thesis unfolding 5(3) ac_varint_def
      by (intro join) (simp add: ac_yields_wide word_less_nat_alt del: sop_simps)
  qed
qed

lemma ac_yields_usize: "n \<le> usize_max \<Longrightarrow> ac.yields ac_usize_varint (varint_bytes (of_nat n)) n"
  unfolding ac_usize_varint_def
  by (rule ac.rd_yields_map[OF ac_yields_varint]) (simp add: unat_of_nat)

text \<open>An operation that reads \<open>bs\<close>, stores \<open>vs\<close> from index \<open>w\<close> on and returns \<open>r\<close>.\<close>

definition ir_next :: "byte list \<Rightarrow> nat \<Rightarrow> u64 list \<Rightarrow> i64_reader \<Rightarrow> i64_reader" where
  "ir_next bs w vs s = \<lparr> ir_cursor = ac_adv (length bs) (ir_cursor s),
     ir_output = take w (ir_output s) @ vs @ drop (w + length vs) (ir_output s) \<rparr>"

definition loads :: "(i64_reader, 'a) op \<Rightarrow> byte list \<Rightarrow> nat \<Rightarrow> u64 list \<Rightarrow> 'a \<Rightarrow> bool" where
  "loads m bs w vs r \<longleftrightarrow> (\<forall>s. ac.starts (ir_cursor s) bs \<longrightarrow> w + length vs \<le> length (ir_output s) \<longrightarrow>
     m s = (Inr r, ir_next bs w vs s))"

lemma ir_next_next:
  "w + length (vs @ vs') \<le> length (ir_output s) \<Longrightarrow>
   ir_next bs' (w + length vs) vs' (ir_next bs w vs s) = ir_next (bs @ bs') w (vs @ vs') s"
  by (auto simp: ir_next_def ac.adv_adv ac_simps min_def)

lemma loads_sbind:
  assumes "loads m bs w vs r" and "loads (f r) bs' (w + length vs) vs' q"
  shows "loads (sbind m f) (bs @ bs') w (vs @ vs') q"
  unfolding loads_def
proof (intro allI impI)
  fix s :: i64_reader assume s: "ac.starts (ir_cursor s) (bs @ bs')" "w + length (vs @ vs') \<le> length (ir_output s)"
  let ?s = "ir_next bs w vs s"
  have m: "m s = (Inr r, ?s)" using s assms(1) by (simp add: loads_def ac.rd_starts_append)
  have "f r ?s = (Inr q, ir_next bs' (w + length vs) vs' ?s)"
    using s assms(2) by (simp add: loads_def ir_next_def ac.rd_starts_append)
  also have "ir_next bs' (w + length vs) vs' ?s = ir_next (bs @ bs') w (vs @ vs') s"
    using s(2) by (rule ir_next_next)
  finally show "sbind m f s = (Inr q, ir_next (bs @ bs') w (vs @ vs') s)" using m by (simp only: sbind_ok)
qed

lemma loads_ret: "loads (sret r) [] w [] r"
  by (simp add: loads_def ir_next_def ac.adv_0)

lemma loads_read: "ac.yields m bs r \<Longrightarrow> loads (ir_read m) bs w [] r"
  by (simp add: loads_def ir_read_def ir_next_def ac.yields_def)

lemma loads_value: "loads ir_value (zz v) w [] v"
proof -
  have "loads (slift (\<lambda>_. decode_i64 (zigzag_i64 v))) [] w [] v"
    by (simp add: loads_def ir_next_def ac.adv_0)
  then show ?thesis
    using loads_sbind[OF loads_read[OF ac_yields_varint], of "\<lambda>v. slift (\<lambda>_. decode_i64 v)" "zigzag_i64 v" "[]" w "[]" v]
    by (simp add: ir_value_def zz_def)
qed

lemma loads_store: "loads (ir_store w v) [] w [v] ()"
  by (auto simp: loads_def ir_store_def ir_next_def ac.adv_0 upd_conv_take_nth_drop)

lemma loads_fill: "loads (ir_fill w n v) [] w (replicate n v) ()"
  by (auto simp: loads_def ir_fill_def ir_next_def ac.adv_0)

text \<open>One-byte varints are the values they show.\<close>

lemma zz_plain:
  assumes "zz v = b # r" and "b \<le> 250"
  shows "r = []" and "ucast (decode_i128 (ucast b)) = v"
proof -
  have b: "r = [] \<and> b = ucast (zigzag_i64 v) \<and> unat (zigzag_i64 v) \<le> 250"
    using assms by (cases "zigzag_i64 v" rule: varint_cases) (auto simp: zz_def)
  then show "r = []" by simp
  have "ucast b = zigzag_i64 v" using b by (simp add: ucast_ucast_id)
  then have "ucast (decode_i128 (ucast b)) = (ucast (scast v :: u128) :: u64)" by simp
  also have "\<dots> = v" by (rule bit_word_eqI) (auto simp: bit_unsigned_iff bit_signed_iff)
  finally show "ucast (decode_i128 (ucast b)) = v" .
qed

lemma loads_plain:
  "k \<le> length vs \<Longrightarrow> k \<le> ad_plain_prefix (concat (map zz vs) @ zs) \<Longrightarrow>
   \<exists>bs. length bs = k \<and> concat (map zz vs) = bs @ concat (map zz (drop k vs)) \<and>
     loads (ir_store_plain bs w) [] w (take k vs) ()"
proof (induction k arbitrary: vs w)
  case 0
  then show ?case by (simp add: loads_ret del: sop_simps)
next
  case (Suc k)
  then obtain v ws where vs: "vs = v # ws" by (cases vs) auto
  obtain b r where z: "zz v = b # r"
    using length_varint_bytes[of "zigzag_i64 v"] by (cases "zz v") (auto simp: zz_def)
  have b: "b \<le> 250" using Suc.prems(2) by (auto simp: vs z ad_plain_prefix_def split: if_splits)
  note p = zz_plain[OF z b]
  have "k \<le> ad_plain_prefix (concat (map zz ws) @ zs)"
    using Suc.prems(2) b by (simp add: vs z p(1) ad_plain_prefix_def)
  then obtain bs where bs: "length bs = k" "concat (map zz ws) = bs @ concat (map zz (drop k ws))"
    "loads (ir_store_plain bs (w + 1)) [] (w + 1) (take k ws) ()"
    using Suc.IH[of ws "w + 1"] Suc.prems(1) vs by auto
  have "loads (ir_store_plain (b # bs) w) [] w (v # take k ws) ()"
    using loads_sbind[OF loads_store[of w v], of "\<lambda>_. ir_store_plain bs (w + 1)" "[]" "take k ws"] bs(3) p(2) by simp
  then show ?case using bs(1,2) z p(1) vs by (intro exI[of _ "b # bs"]) simp
qed

lemma ir_raw_step:
  assumes "written < len" and "k = min (ad_plain_prefix (ac_remaining (ir_cursor s))) (len - written)"
  shows "ir_raw len written s =
    sbind (sbind (ir_read (ac_take k)) (\<lambda>bytes. ir_store_plain bytes written)) (\<lambda>_.
      if written + k < len then sbind (sbind ir_value (\<lambda>v. ir_store (written + k) v)) (\<lambda>_. ir_raw len (written + k + 1))
      else ir_raw len (written + k)) s"
proof -
  have s: "ir_raw len written s =
      (case sbind (ir_read (ac_take k)) (\<lambda>bytes. ir_store_plain bytes written) s of
          (Inl e, s1) \<Rightarrow> (Inl e, s1)
        | (Inr _, s1) \<Rightarrow>
          if written + k < len then
            (case sbind ir_value (\<lambda>v. ir_store (written + k) v) s1 of
               (Inl e, s2) \<Rightarrow> (Inl e, s2)
             | (Inr _, s2) \<Rightarrow> ir_raw len (written + k + 1) s2)
          else ir_raw len (written + k) s1)"
    unfolding ir_raw.simps[of len written s] using assms by (simp only: Let_def if_True)
  show ?thesis unfolding s
    by (cases rule: sbind_cases[of "sbind (ir_read (ac_take k)) (\<lambda>bytes. ir_store_plain bytes written)" s
        "\<lambda>_. if written + k < len then sbind (sbind ir_value (\<lambda>v. ir_store (written + k) v)) (\<lambda>_. ir_raw len (written + k + 1))
      else ir_raw len (written + k)"])
      (auto simp: sbind_def split: prod.splits sum.splits)
qed

lemma loads_raw: "len = w + length vs \<Longrightarrow> loads (ir_raw len w) (concat (map zz vs)) w vs len"
proof (induction "length vs" arbitrary: vs w rule: less_induct)
  case less
  show ?case
  proof (cases vs)
    case Nil
    then show ?thesis using less.prems by (simp add: loads_def ir_raw.simps ir_next_def ac.adv_0)
  next
    case (Cons v ws)
    show ?thesis unfolding loads_def
    proof (intro allI impI)
      fix s :: i64_reader assume st: "ac.starts (ir_cursor s) (concat (map zz vs))" and l: "w + length vs \<le> length (ir_output s)"
      define k where "k = min (ad_plain_prefix (ac_remaining (ir_cursor s))) (len - w)"
      obtain zs where zs: "ac_remaining (ir_cursor s) = concat (map zz vs) @ zs"
      proof -
        obtain ys where "unread None (ac_input (ir_cursor s)) (ac_position (ir_cursor s)) = concat (map zz vs) @ ys"
          using st by (auto simp: ac.starts_def ac_rest_def)
        from unread_drop[OF this] show thesis using that by (auto simp: ac_remaining_def)
      qed
      have "k \<le> length vs" "k \<le> ad_plain_prefix (concat (map zz vs) @ zs)"
        using zs less.prems by (simp_all add: k_def)
      then obtain bs where bs: "length bs = k" "concat (map zz vs) = bs @ concat (map zz (drop k vs))"
        "loads (ir_store_plain bs w) [] w (take k vs) ()" using loads_plain by blast
      have one: "loads (sbind (ir_read (ac_take k)) (\<lambda>bytes. ir_store_plain bytes w)) bs w (take k vs) ()"
        using loads_sbind[OF loads_read[OF ac_yields_take[OF bs(1)]], of "\<lambda>bytes. ir_store_plain bytes w" "[]" w "take k vs" "()"] bs(3)
        by simp
      have two: "loads (if w + k < len then sbind (sbind ir_value (\<lambda>v. ir_store (w + k) v)) (\<lambda>_. ir_raw len (w + k + 1))
          else ir_raw len (w + k)) (concat (map zz (drop k vs))) (w + k) (drop k vs) len"
      proof (cases "drop k vs")
        case Nil
        then have "w + k = len" using less.prems \<open>k \<le> length vs\<close> by simp
        then show ?thesis using Nil by (simp add: loads_def ir_raw.simps ir_next_def ac.adv_0)
      next
        case (Cons y ys)
        then have n: "length ys < length vs" "len = w + k + 1 + length ys"
          using less.prems \<open>k \<le> length vs\<close> length_drop[of k vs, unfolded Cons] by simp_all
        have "loads (sbind ir_value (\<lambda>v. ir_store (w + k) v)) (zz y) (w + k) [y] ()"
          using loads_sbind[OF loads_value, of "\<lambda>v. ir_store (w + k) v" y "[]" "w + k" "[y]" "()"] loads_store by simp
        moreover have "loads (ir_raw len (w + k + 1)) (concat (map zz ys)) (w + k + 1) ys len" using less.hyps[OF n] .
        ultimately show ?thesis
          using n(2) loads_sbind[of "sbind ir_value (\<lambda>v. ir_store (w + k) v)" "zz y" "w + k" "[y]" "()" "\<lambda>_. ir_raw len (w + k + 1)"]
          by (simp add: Cons)
      qed
      have "loads (sbind (sbind (ir_read (ac_take k)) (\<lambda>bytes. ir_store_plain bytes w)) (\<lambda>_.
        if w + k < len then sbind (sbind ir_value (\<lambda>v. ir_store (w + k) v)) (\<lambda>_. ir_raw len (w + k + 1))
        else ir_raw len (w + k))) (concat (map zz vs)) w vs len"
        using loads_sbind[OF one, of _ "concat (map zz (drop k vs))" "drop k vs" len] two bs(2) \<open>k \<le> length vs\<close> by simp
      moreover have "w < len" using less.prems Cons by simp
      ultimately show "ir_raw len w s = (Inr len, ir_next (concat (map zz vs)) w vs s)"
        using ir_raw_step[OF _ k_def] st l by (simp only: loads_def)
    qed
  qed
qed

lemma ir_deltas_loads:
  "0 < w \<Longrightarrow> len = w + length vs \<Longrightarrow> len \<le> length (ir_output s) \<Longrightarrow>
   ac.starts (ir_cursor s) (concat (map zd (zip (ir_output s ! (w - 1) # vs) vs))) \<Longrightarrow>
   ir_deltas len w s = (Inr len, ir_next (concat (map zd (zip (ir_output s ! (w - 1) # vs) vs))) w vs s)"
proof (induction vs arbitrary: w s)
  case Nil
  then show ?case by (simp add: ir_deltas.simps ir_next_def ac.adv_0)
next
  case (Cons v vs)
  let ?p = "ir_output s ! (w - 1)" and ?t = "ir_next (zd (ir_output s ! (w - 1), v)) w [v] s"
  let ?rest = "concat (map zd (zip (v # vs) vs))"
  have st: "ac.starts (ir_cursor s) (zd (?p, v))" "ac.starts (ir_cursor ?t) ?rest"
    using Cons.prems(4) by (simp_all add: ac.rd_starts_append ir_next_def)
  have r: "ac_varint (ir_cursor s) = (Inr (zigzag_i128 (i64_difference (?p, v))), ac_adv (length (zd (?p, v))) (ir_cursor s))"
    using ac.rd_yieldsD[OF ac_yields_varint st(1)[unfolded zd_def]] by (simp add: zd_def)
  have one: "sbind (ir_read ac_varint) (\<lambda>v. sbind (slift (\<lambda>s. reconstruct (ir_output s ! (w - 1)) (decode_i128 v)))
           (\<lambda>v. ir_store w v)) s = (Inr (), ?t)"
    using Cons.prems(2,3) by (simp add: sbind_def ir_read_def r ir_store_def ir_next_def upd_conv_take_nth_drop)
  have last: "ir_output ?t ! (w + 1 - 1) = v" using Cons.prems(2,3) by (simp add: ir_next_def nth_append)
  have "ir_deltas len (w + 1) ?t = (Inr len, ir_next ?rest (w + 1) vs ?t)"
    using Cons.IH[of "w + 1" ?t] Cons.prems(2,3) st(2) last by (simp add: ir_next_def)
  also have "ir_next ?rest (w + 1) vs ?t = ir_next (zd (?p, v) @ ?rest) w (v # vs) s"
    using ir_next_next[of w "[v]" vs s ?rest "zd (?p, v)"] Cons.prems(2,3) by simp
  finally show ?case unfolding ir_deltas.simps[of len w s] one using Cons.prems(2) by simp
qed

lemma loads_deltas:
  "len = length vs \<Longrightarrow> loads (ir_values DELTA_INTEGERS len) (value_bytes DeltaValues vs) 0 vs len"
proof (cases vs)
  case Nil
  then show "len = length vs \<Longrightarrow> ?thesis" by (simp add: ir_values_def adaptive_tags loads_ret del: sop_simps)
next
  case (Cons v ws)
  assume len: "len = length vs"
  show ?thesis unfolding loads_def
  proof (intro allI impI)
    fix s :: i64_reader
    assume st: "ac.starts (ir_cursor s) (value_bytes DeltaValues vs)" and l: "0 + length vs \<le> length (ir_output s)"
    let ?rest = "concat (map zd (zip (v # ws) ws))" and ?t = "ir_next (zz v) 0 [v] s"
    have b: "value_bytes DeltaValues vs = zz v @ ?rest" by (simp add: Cons)
    have "loads (sbind ir_value (ir_store 0)) (zz v) 0 [v] ()"
      using loads_sbind[OF loads_value, of "ir_store 0" v "[]" 0 "[v]" "()"] loads_store[of 0 v] by simp
    then have "sbind ir_value (ir_store 0) s = (Inr (), ?t)"
      using st l by (simp add: loads_def b ac.rd_starts_append Cons)
    moreover have "ir_deltas len 1 ?t = (Inr len, ir_next ?rest 1 ws ?t)"
      using ir_deltas_loads[of 1 len ws ?t] st l len by (simp add: b ac.rd_starts_append Cons ir_next_def)
    moreover have "ir_next ?rest 1 ws ?t = ir_next (value_bytes DeltaValues vs) 0 vs s"
      using ir_next_next[of 0 "[v]" ws s ?rest "zz v"] l by (simp add: b Cons)
    ultimately have "sbind (sbind ir_value (ir_store 0)) (\<lambda>_. ir_deltas len 1) s =
      (Inr len, ir_next (value_bytes DeltaValues vs) 0 vs s)" by simp
    then show "ir_values DELTA_INTEGERS len s = (Inr len, ir_next (value_bytes DeltaValues vs) 0 vs s)"
      using len by (simp add: ir_values_def adaptive_tags Cons sbind_assoc)
  qed
qed

lemma value_runs_Cons:
  obtains n ws where "v # vs = replicate (Suc n) v @ ws" and "value_runs (v # vs) = (v, Suc n) # value_runs ws"
proof (rule that)
  let ?t = "takeWhile ((=) v) vs"
  have "?t = replicate (length ?t) v" by (rule replicate_eqI) (auto dest: set_takeWhileD)
  then show "v # vs = replicate (Suc (length ?t)) v @ dropWhile ((=) v) vs"
    by (metis append_Cons replicate_Suc takeWhile_dropWhile_id)
qed simp

lemma loads_runs:
  "len = w + length vs \<Longrightarrow> length vs \<le> usize_max \<Longrightarrow> loads (ir_runs len w) (concat (map run_bytes (value_runs vs))) w vs len"
proof (induction "length vs" arbitrary: vs w rule: less_induct)
  case less
  show ?case
  proof (cases vs)
    case Nil
    then show ?thesis using less.prems by (simp add: loads_def ir_runs.simps ir_next_def ac.adv_0)
  next
    case (Cons v us)
    obtain n ws where v: "v # us = replicate (Suc n) v @ ws" "value_runs (v # us) = (v, Suc n) # value_runs ws"
      by (rule value_runs_Cons)
    have n: "length vs = Suc n + length ws" using arg_cong[OF v(1), of length] Cons by simp
    let ?f = "sbind ir_value (\<lambda>v. sbind (ir_read ac_usize_varint) (\<lambda>run.
           if run = 0 \<or> run > len - w then sfail (Adaptive ''invalid run length'')
           else sbind (ir_fill w run v) (\<lambda>_. sret run)))"
    have fill: "loads (sbind (ir_fill w (Suc n) v) (\<lambda>_. sret (Suc n))) [] w (replicate (Suc n) v) (Suc n)"
      using loads_sbind[OF loads_fill[of w "Suc n" v], of "\<lambda>_. sret (Suc n)" "[]" "[]" "Suc n"] by (simp add: loads_ret del: sop_simps)
    have "loads (sbind (ir_read ac_usize_varint) (\<lambda>run.
           if run = 0 \<or> run > len - w then sfail (Adaptive ''invalid run length'')
           else sbind (ir_fill w run v) (\<lambda>_. sret run))) (varint_bytes (of_nat (Suc n)) @ []) w ([] @ replicate (Suc n) v) (Suc n)"
    proof (rule loads_sbind[OF loads_read[OF ac_yields_usize]])
      show "Suc n \<le> usize_max" using n less.prems(2) by simp
      show "loads (if Suc n = 0 \<or> Suc n > len - w then sfail (Adaptive ''invalid run length'')
           else sbind (ir_fill w (Suc n) v) (\<lambda>_. sret (Suc n))) [] (w + length []) (replicate (Suc n) v) (Suc n)"
        using fill n less.prems(1) by simp
    qed
    from loads_sbind[OF loads_value[of v], of _ "varint_bytes (of_nat (Suc n)) @ []" w "[] @ replicate (Suc n) v" "Suc n"] this
    have f: "loads ?f (run_bytes (v, Suc n)) w (replicate (Suc n) v) (Suc n)" by (simp add: run_bytes_def)
    have r: "loads (ir_runs len (w + Suc n)) (concat (map run_bytes (value_runs ws))) (w + Suc n) ws len"
      using less.prems n by (intro less.hyps) simp_all
    have "loads (sbind ?f (\<lambda>run. ir_runs len (w + run))) (concat (map run_bytes (value_runs vs))) w vs len"
      using loads_sbind[OF f, of "\<lambda>run. ir_runs len (w + run)" "concat (map run_bytes (value_runs ws))" ws len] r
      by (simp add: Cons v(2) del: value_runs.simps) (simp add: v(1))
    then have all: "sbind ?f (\<lambda>run. ir_runs len (w + run)) s = (Inr len, ir_next (concat (map run_bytes (value_runs vs))) w vs s)"
      if "ac.starts (ir_cursor s) (concat (map run_bytes (value_runs vs)))" "w + length vs \<le> length (ir_output s)" for s
      using that by (simp only: loads_def)
    have first: "\<exists>t. ?f s = (Inr (Suc n), t)"
      if "ac.starts (ir_cursor s) (concat (map run_bytes (value_runs vs)))" "w + length vs \<le> length (ir_output s)" for s
    proof -
      have "ac.starts (ir_cursor s) (run_bytes (v, Suc n))"
        using that(1) unfolding Cons v(2) by (simp only: list.map concat.simps ac.rd_starts_append)
      then show ?thesis using f that(2) n by (simp add: loads_def)
    qed
    show ?thesis unfolding loads_def
    proof (intro allI impI)
      fix s :: i64_reader
      assume st: "ac.starts (ir_cursor s) (concat (map run_bytes (value_runs vs)))" "w + length vs \<le> length (ir_output s)"
      obtain t where t: "?f s = (Inr (Suc n), t)" using first[OF st] ..
      have "ir_runs len w s = ir_runs len (w + Suc n) t"
        unfolding ir_runs.simps[of len w s] t using less.prems(1) Cons by simp
      also have "\<dots> = sbind ?f (\<lambda>run. ir_runs len (w + run)) s" by (rule sbind_ok[of ?f s "Suc n" t "\<lambda>run. ir_runs len (w + run)", OF t, symmetric])
      finally show "ir_runs len w s = (Inr len, ir_next (concat (map run_bytes (value_runs vs))) w vs s)"
        using all[OF st] by simp
    qed
  qed
qed

section \<open>Integer frames\<close>

lemma ac_new_starts: "length input \<le> usize_max \<Longrightarrow> ac.starts (ac_new input) input"
  by (simp add: ac.starts_def ac_rest_def ac_valid_def ac_new_def unread_def)

lemma ac_finish_all: "ac_finish policy (ac_adv (length input) (ac_new input)) = Inr ()"
  by (simp add: ac_finish_def ac_adv_def ac_new_def)

lemma loads_values:
  "len = length vs \<Longrightarrow> len \<le> usize_max \<Longrightarrow> loads (ir_values (collection_tag strategy) len) (value_bytes strategy vs) 0 vs len"
  using loads_raw[of len 0 vs] loads_deltas[of len vs] loads_runs[of len 0 vs]
  by (cases strategy) (simp_all add: ir_values_def adaptive_tags del: value_bytes.simps(2))

lemma ac_yields_header:
  assumes "within (c_collection_limit (ad_base a)) len" and "len \<le> usize_max"
  shows "ac.yields (ac_i64_header a) ([collection_tag strategy] @ varint_bytes (of_nat len) @ []) (collection_tag strategy, len)"
  unfolding ac_i64_header_def
proof (rule ac.rd_yields_sbind[OF ac_yields_byte])
  have c: "ad_collection_limit a len = Inr ()" using assms(1) by (simp add: ad_collection_limit_def)
  have "ac.yields (sbind (slift (\<lambda>_. ad_collection_limit a len)) (\<lambda>_. sret (collection_tag strategy, len))) [] (collection_tag strategy, len)"
    by (simp add: ac.yields_def ac.adv_0 sbind_def c)
  from ac.rd_yields_sbind[OF ac_yields_usize[OF assms(2)], of "\<lambda>len. sbind (slift (\<lambda>_. ad_collection_limit a len)) (\<lambda>_. sret (collection_tag strategy, len))", OF this]
  show "ac.yields (if collection_tag strategy \<noteq> RAW_INTEGERS \<and> collection_tag strategy \<noteq> DELTA_INTEGERS \<and> collection_tag strategy \<noteq> RLE_INTEGERS
     then sfail (Adaptive ''unknown collection strategy'')
     else sbind ac_usize_varint (\<lambda>len. sbind (slift (\<lambda>_. ad_collection_limit a len)) (\<lambda>_. sret (collection_tag strategy, len))))
     (varint_bytes (of_nat len) @ []) (collection_tag strategy, len)"
    by (cases strategy) simp_all
qed

lemma i64_decode_frame:
  assumes "bytes = i64_frame strategy vs" and "length bytes \<le> usize_max" and "length vs \<le> usize_max"
    and "within (c_limit (ad_base a)) (length bytes)" and "within (c_collection_limit (ad_base a)) (length vs)"
  shows "decoded_i64_slice_len a bytes = Inr (length vs)"
    and "length vs \<le> length output \<Longrightarrow> decode_i64_slice_into a output bytes = (Inr (length vs), vs @ drop (length vs) output)"
proof -
  let ?h = "[collection_tag strategy] @ varint_bytes (of_nat (length vs)) @ []" and ?c = "ac_new bytes"
  have b: "bytes = ?h @ value_bytes strategy vs" by (simp add: assms(1) i64_frame_def)
  have st: "ac.starts ?c ?h" "ac.starts (ac_adv (length ?h) ?c) (value_bytes strategy vs)"
  proof -
    have "ac.starts ?c (?h @ value_bytes strategy vs)" using ac_new_starts[OF assms(2)] b by metis
    then show "ac.starts ?c ?h" "ac.starts (ac_adv (length ?h) ?c) (value_bytes strategy vs)"
      by (simp_all only: ac.rd_starts_append)
  qed
  have h: "ac_i64_header a ?c = (Inr (collection_tag strategy, length vs), ac_adv (length ?h) ?c)"
    using ac.rd_yieldsD[OF ac_yields_header[OF assms(5,3)] st(1)] .
  have l: "ad_byte_limit a (length bytes) = Inr ()" using assms(4) by (simp add: ad_byte_limit_def)
  show "decoded_i64_slice_len a bytes = Inr (length vs)" by (simp add: decoded_i64_slice_len_def l h)
  assume o: "length vs \<le> length output"
  let ?s = "\<lparr> ir_cursor = ac_adv (length ?h) ?c, ir_output = output \<rparr>"
  let ?t = "ir_next (value_bytes strategy vs) 0 vs ?s"
  have v: "ir_values (collection_tag strategy) (length vs) ?s = (Inr (length vs), ?t)"
    using loads_values[OF refl assms(3)] st(2) o by (simp add: loads_def)
  have "ir_cursor ?t = ac_adv (length bytes) ?c"
    using arg_cong[OF b, of length] by (simp add: ir_next_def ac.adv_adv)
  then have "sbind (ir_values (collection_tag strategy) (length vs)) (\<lambda>written.
      sbind (slift (\<lambda>s. ac_finish (c_trailing (ad_base a)) (ir_cursor s))) (\<lambda>_. sret written)) ?s = (Inr (length vs), ?t)"
    using v by (simp add: sbind_def ac_finish_all)
  then show "decode_i64_slice_into a output bytes = (Inr (length vs), vs @ drop (length vs) output)"
    using o by (simp add: decode_i64_slice_into_def l h ir_next_def)
qed

lemma i64_roundtrip:
  assumes e: "encode_i64_slice alloc a vs = Inr bytes" and n: "8 * length vs \<le> 2 ^ 63 - 1"
    and "alloc' (8 * length vs)" and "ad_base a' = ad_base a"
  shows "decode_i64_vec alloc' a' bytes = Inr vs"
    and "length vs \<le> length output \<Longrightarrow> decode_i64_slice_into a' output bytes = (Inr (length vs), vs @ drop (length vs) output)"
proof -
  obtain strategy where b: "bytes = i64_frame strategy vs" "length bytes \<le> usize_max"
    "within (c_limit (ad_base a')) (length bytes)" "within (c_collection_limit (ad_base a')) (length vs)"
    using encode_i64_Inr[OF e] assms(4) by metis
  have l: "length vs \<le> usize_max" using n by simp
  note d = i64_decode_frame[OF b(1,2) l b(3,4)]
  show "length vs \<le> length output \<Longrightarrow> decode_i64_slice_into a' output bytes = (Inr (length vs), vs @ drop (length vs) output)"
    by (rule d(2))
  show "decode_i64_vec alloc' a' bytes = Inr vs"
    using d(1) d(2)[of "replicate (length vs) 0"] n assms(3) by (simp add: decode_i64_vec_def try_reserve_def)
qed

section \<open>Seven-bit strings\<close>

definition scalar_bits :: "byte list \<Rightarrow> bool list" where
  "scalar_bits s = concat (map (word_bits 7) s)"

lemma length_scalar_bits [simp]: "length (scalar_bits s) = 7 * length s"
  by (induction s) (simp_all add: scalar_bits_def)

lemma word_bits_scalar: "word_bits 7 (ucast (b :: byte) :: u128) = word_bits 7 b"
  by (rule nth_equalityI) (simp_all add: bit_unsigned_iff)

lemma ascii_fits: "b < 128 \<longleftrightarrow> unat (ucast (b :: byte) :: u128) < 2 ^ 7"
proof -
  have "unat b < 2 ^ LENGTH(128)" using unat_byte_less[of b] by (rule less_trans) simp
  then have "unat (ucast b :: u128) = unat b" by (rule unat_ucast_id)
  then show ?thesis by (simp add: word_less_nat_alt)
qed

lemma ucast_byte_back [simp]: "ucast (ucast (b :: byte) :: u128) = b"
  by (rule bit_word_eqI) (auto simp: bit_unsigned_iff)

lemma pack_scalars_fold:
  assumes "list_all (\<lambda>b. b < 128) s" and "bw_ok w"
    and "bw_position w + 7 * length s \<le> sat_mul (length (bw_output w)) 8"
  obtains w' where "fold (\<lambda>b (r, w). case r of Inl e \<Rightarrow> (r, w) | Inr _ \<Rightarrow> bit_write (ucast b) 7 w) s (Inr (), w) = (Inr (), w')"
    and "bw_ok w'" and "bw_bits w' = bw_bits w @ scalar_bits s" and "length (bw_output w') = length (bw_output w)"
    and "bw_position w' = bw_position w + 7 * length s"
  using assms
proof (induction s arbitrary: w thesis)
  case Nil
  then show ?case by (simp add: scalar_bits_def)
next
  case (Cons b s)
  have "unat (ucast b :: u128) < 2 ^ 7" using Cons.prems(2) by (simp add: ascii_fits)
  then obtain w1 where w1: "bit_write (ucast b) 7 w = (Inr (), w1)" "bw_ok w1" "bw_bits w1 = bw_bits w @ word_bits 7 (ucast b :: u128)"
    "length (bw_output w1) = length (bw_output w)" "bw_position w1 = bw_position w + 7"
    using bit_write_ok[OF Cons.prems(3), of 7 "ucast b"] Cons.prems(4) by auto
  obtain w2 where w2: "fold (\<lambda>b (r, w). case r of Inl e \<Rightarrow> (r, w) | Inr _ \<Rightarrow> bit_write (ucast b) 7 w) s (Inr (), w1) = (Inr (), w2)"
    "bw_ok w2" "bw_bits w2 = bw_bits w1 @ scalar_bits s" "length (bw_output w2) = length (bw_output w1)"
    "bw_position w2 = bw_position w1 + 7 * length s"
    using Cons.IH[of w1] Cons.prems(2,4) w1 by (auto simp: add.commute)
  then show ?case using w1 by (intro Cons.prems(1)[of w2]) (simp_all add: scalar_bits_def word_bits_scalar)
qed

lemma packed_len_Inr: "packed_len m n = Inr k \<longleftrightarrow> n * 7 + 7 \<le> usize_max \<and> k = (n * 7 + 7) div 8"
  by (auto simp: packed_len_def)

definition ascii_bytes :: "byte list \<Rightarrow> byte list" where
  "ascii_bytes s = snd (pack_scalars s (replicate ((length s * 7 + 7) div 8) 0))"

lemma pack_scalars_ok:
  assumes "is_ascii s" and "length s * 7 + 7 \<le> usize_max" and n: "length slot = (length s * 7 + 7) div 8"
  shows "pack_scalars s slot = (Inr (), ascii_bytes s)" and "length (ascii_bytes s) = (length s * 7 + 7) div 8"
    and "bits_of (ascii_bytes s) = scalar_bits s @ replicate (8 * length (ascii_bytes s) - 7 * length s) False"
proof -
  let ?w = "bit_writer_new slot"
  have "7 * length s \<le> 8 * length slot" using n by linarith
  then have "bw_position ?w + 7 * length s \<le> sat_mul (length (bw_output ?w)) 8" using assms(2) by (simp add: sat_mul_def)
  then obtain w' where w: "fold (\<lambda>b (r, w). case r of Inl e \<Rightarrow> (r, w) | Inr _ \<Rightarrow> bit_write (ucast b) 7 w) s (Inr (), ?w) = (Inr (), w')"
    "bw_ok w'" "bw_bits w' = scalar_bits s" "length (bw_output w') = length slot" "bw_position w' = 7 * length s"
    using pack_scalars_fold[of s ?w] assms(1) by (auto simp: is_ascii_def)
  have new: "bit_writer_new (replicate ((length s * 7 + 7) div 8) 0) = ?w" by (simp add: bit_writer_new_def n)
  have p: "ascii_bytes s = bw_output w'" by (simp add: ascii_bytes_def pack_scalars_def new w(1))
  then show "pack_scalars s slot = (Inr (), ascii_bytes s)" by (simp add: pack_scalars_def w(1))
  show "length (ascii_bytes s) = (length s * 7 + 7) div 8" by (simp add: p w(4) n)
  show "bits_of (ascii_bytes s) = scalar_bits s @ replicate (8 * length (ascii_bytes s) - 7 * length s) False"
    using w(2,3,5) append_take_drop_id[of "7 * length s" "bits_of (bw_output w')"] unfolding p bw_bits_def bw_ok_def by metis
qed

lemma br_yields_scalars: "list_all (\<lambda>b. b < 128) s \<Longrightarrow> br.yields (read_scalars (length s)) (scalar_bits s) s"
proof (induction s)
  case Nil
  then show ?case by (simp add: scalar_bits_def br.rd_yields_ret del: sop_simps)
next
  case (Cons b s)
  have f: "unat (ucast b :: u128) < 2 ^ 7" using Cons.prems by (simp add: ascii_fits)
  have "br.yields (sbind (read_scalars (length s)) (\<lambda>s. sret (ucast (ucast b :: u128) # s))) (scalar_bits s) (b # s)"
    by (rule br.rd_yields_map[where v = s]) (use Cons in \<open>simp_all del: sop_simps\<close>)
  from br.rd_yields_sbind[OF br_yields_read[OF _ f], of "\<lambda>v. sbind (read_scalars (length s)) (\<lambda>s. sret (ucast v # s))", OF _ this]
  show ?case by (simp add: scalar_bits_def word_bits_scalar)
qed

lemma fill_scalars_read:
  "fst (read_scalars n r) = Inr s \<Longrightarrow> n \<le> length slots \<Longrightarrow> fill_scalars n r slots = (Inr (), s @ drop n slots)"
proof (induction n arbitrary: r s slots)
  case (Suc n)
  obtain v r1 where v: "bit_read 7 r = (Inr v, r1)" and s: "\<exists>t. fst (read_scalars n r1) = Inr t \<and> s = ucast v # t"
    using Suc.prems(1) by (auto simp: sbind_def split: prod.splits sum.splits)
  then obtain t where t: "fst (read_scalars n r1) = Inr t" "s = ucast v # t" by blast
  show ?case using Suc.IH[OF t(1), of "tl slots"] Suc.prems(2) v t(2) by (cases slots) simp_all
qed simp

lemma padding_clean:
  assumes "bits_of bytes = bs @ replicate (8 * length bytes - m) False" and "length bs = m" and "length bytes = (m + 7) div 8"
  shows "validate_ascii_padding bytes m = Inr ()"
proof (cases "m mod 8 = 0")
  case False
  then have n: "length bytes = Suc (m div 8)" using byte_ends(2)[of m] assms(3) by simp
  have e: "m = 8 * (m div 8) + m mod 8" by simp
  have "drop_bit (m mod 8) (bytes ! (m div 8)) = 0"
  proof (rule bit_word_eqI)
    fix i assume "i < LENGTH(8)"
    show "bit (drop_bit (m mod 8) (bytes ! (m div 8))) i = bit (0 :: byte) i"
    proof (cases "m mod 8 + i < 8")
      case True
      let ?k = "8 * (m div 8) + (m mod 8 + i)"
      have k: "?k < 8 * length bytes" "m \<le> ?k" "?k div 8 = m div 8" "?k mod 8 = m mod 8 + i" using True n e same_byte[of m i] by (simp, linarith) (use same_byte[of m i] True e in simp_all)
      have "\<not> bits_of bytes ! ?k" unfolding assms(1) using k(1,2) assms(2) by (simp add: nth_append)
      then show ?thesis using nth_bits_of[OF k(1)] k(3,4) by (simp add: bit_drop_bit_eq)
    next
      case False
      then show ?thesis by (auto simp: bit_drop_bit_eq dest: bit_imp_le_length)
    qed
  qed
  moreover have "bytes \<noteq> []" using n by auto
  ultimately show ?thesis using n by (simp add: validate_ascii_padding_def last_conv_nth)
qed (simp add: validate_ascii_padding_def)

lemma ascii_unpack:
  assumes "is_ascii s" and "length s * 7 + 7 \<le> usize_max"
  shows "fst (read_scalars (length s) (bit_reader_new (ascii_bytes s))) = Inr s"
    and "validate_ascii_padding (ascii_bytes s) (length s * 7) = Inr ()"
proof -
  note p = pack_scalars_ok[OF assms, of "replicate ((length s * 7 + 7) div 8) 0", simplified]
  have "length (ascii_bytes s) \<le> usize_max div 8" using p(2) assms(2) by linarith
  then have "br_rest (bit_reader_new (ascii_bytes s)) = scalar_bits s @ replicate (8 * length (ascii_bytes s) - 7 * length s) False"
    using br_new(2) p(3) by simp
  then have "br.starts (bit_reader_new (ascii_bytes s)) (scalar_bits s)" by (auto simp: br.starts_def br_new)
  from br.rd_yieldsD[OF br_yields_scalars this] show "fst (read_scalars (length s) (bit_reader_new (ascii_bytes s))) = Inr s"
    using assms(1) by (simp add: is_ascii_def)
  show "validate_ascii_padding (ascii_bytes s) (length s * 7) = Inr ()"
    using p(2,3) by (intro padding_clean[where bs = "scalar_bits s"]) (simp_all add: mult.commute)
qed

lemma ascii_utf8: "is_ascii s \<Longrightarrow> utf8_valid s"
  by (induction s) (simp_all add: is_ascii_def utf8_width_def)

section \<open>String frames\<close>

definition string_payload :: "string_strategy \<Rightarrow> byte list \<Rightarrow> byte list" where
  "string_payload strategy s = (case strategy of RawUtf8 \<Rightarrow> s | Ascii7 \<Rightarrow> ascii_bytes s)"

definition string_frame :: "string_strategy \<Rightarrow> byte list \<Rightarrow> byte list" where
  "string_frame strategy s = string_tag strategy # varint_bytes (of_nat (length s)) @ string_payload strategy s"

definition string_choice :: "string_strategy \<Rightarrow> byte list \<Rightarrow> bool" where
  "string_choice strategy s \<longleftrightarrow> (strategy = Ascii7 \<longrightarrow> is_ascii s \<and> length s * 7 + 7 \<le> usize_max)"

lemma string_layout_Inr:
  assumes "string_layout s mode = Inr (strategy, payload_size, required)"
  shows "string_choice strategy s" and "payload_size = length (string_payload strategy s)"
    and "required = length (string_frame strategy s)" and "required \<le> usize_max" and "payload_size \<le> length s"
proof -
  have a: "string_choice strategy s" "strategy = RawUtf8 \<longrightarrow> payload_size = length s" "payload_size \<le> length s"
    "strategy = Ascii7 \<longrightarrow> payload_size = (length s * 7 + 7) div 8"
    and f: "required = 1 + length (varint_bytes (of_nat (length s))) + payload_size" "required \<le> usize_max"
    using assms by (auto simp: string_layout_def string_choice_def packed_len_Inr rbind_eq_Inr frame_size_eq Let_def
        split: if_splits option.splits)
  have p: "length (string_payload strategy s) = payload_size"
    using a pack_scalars_ok(2)[of s "replicate ((length s * 7 + 7) div 8) 0"]
    by (cases strategy) (simp_all add: string_payload_def string_choice_def)
  show "string_choice strategy s" "payload_size = length (string_payload strategy s)" "payload_size \<le> length s"
    using a p by simp_all
  show "required = length (string_frame strategy s)" "required \<le> usize_max" using f p by (simp_all add: string_frame_def)
qed

lemma writes_string:
  assumes "string_choice strategy s" and "n = length (string_payload strategy s)"
  shows "writes (sbind (oc_byte (string_tag strategy)) (\<lambda>_. sbind (oc_varint (of_nat (length s))) (\<lambda>_.
      case strategy of RawUtf8 \<Rightarrow> oc_bytes s | Ascii7 \<Rightarrow> oc_fill n (pack_scalars s)))) (string_frame strategy s)"
proof -
  have "writes (case strategy of RawUtf8 \<Rightarrow> oc_bytes s | Ascii7 \<Rightarrow> oc_fill n (pack_scalars s)) (string_payload strategy s)"
  proof (cases strategy)
    case Ascii7
    then have a: "is_ascii s" "length s * 7 + 7 \<le> usize_max" using assms(1) by (simp_all add: string_choice_def)
    have "writes (oc_fill n (pack_scalars s)) (ascii_bytes s)"
    proof (rule writes_fill)
      show "length (ascii_bytes s) = n" using assms(2) Ascii7 by (simp add: string_payload_def)
      then have n: "n = (length s * 7 + 7) div 8"
        using pack_scalars_ok(2)[OF a, of "replicate ((length s * 7 + 7) div 8) 0"] by simp
      show "pack_scalars s slot = (Inr (), ascii_bytes s)" if "length slot = n" for slot
        using pack_scalars_ok(1)[OF a] that n by simp
    qed
    then show ?thesis by (simp add: Ascii7 string_payload_def)
  qed (simp add: string_payload_def writes_bytes)
  then have "writes (sbind (oc_byte (string_tag strategy)) (\<lambda>_. sbind (oc_varint (of_nat (length s))) (\<lambda>_.
      case strategy of RawUtf8 \<Rightarrow> oc_bytes s | Ascii7 \<Rightarrow> oc_fill n (pack_scalars s))))
      ([string_tag strategy] @ varint_bytes (of_nat (length s)) @ string_payload strategy s)"
    by (intro writes_sbind writes_byte writes_varint)
  then show ?thesis by (simp add: string_frame_def)
qed

lemma string_encode_into:
  assumes "encoded_string_size a s = Inr required" and "required \<le> length output"
  obtains strategy where "string_choice strategy s" and "required = length (string_frame strategy s)"
    and "within (c_limit (ad_base a)) required" and "length (string_payload strategy s) \<le> length s"
    and "encode_string_into_slice a output s = (Inr required, string_frame strategy s @ drop required output)"
proof -
  obtain strategy n where l: "string_layout s (ad_mode a) = Inr (strategy, n, required)" and b: "ad_byte_limit a required = Inr ()"
    using assms(1) by (auto simp: encoded_string_size_def rbind_eq_Inr)
  note i = string_layout_Inr[OF l]
  have "encode_string_into_slice a output s = (Inr required, string_frame strategy s @ drop required output)"
    using within_output_writes[OF writes_string[OF i(1,2)] i(3)[symmetric], of "output"] assms(2)
    by (simp add: encode_string_into_slice_def l b)
  then show thesis using that[of strategy] i b by (simp add: ad_byte_limit_def)
qed

lemma encode_string_Inr:
  assumes "encode_string alloc a s = Inr bytes"
  obtains strategy where "string_choice strategy s" and "bytes = string_frame strategy s" and "length bytes \<le> usize_max"
    and "within (c_limit (ad_base a)) (length bytes)" and "length (string_payload strategy s) \<le> length s"
proof (cases "ad_mode a = Off")
  case True
  then show thesis
    using assms by (intro that[of RawUtf8]) (auto simp: encode_string_def rbind_eq_Inr frame_size_eq string_choice_def
        string_frame_def string_payload_def ad_byte_limit_def)
next
  case False
  then obtain required where s: "encoded_string_size a s = Inr required"
    and e: "(case encode_string_into_slice a (replicate required 0) s of (Inl e, _) \<Rightarrow> Inl e | (Inr _, output) \<Rightarrow> Inr output) = Inr bytes"
    using assms by (auto simp: encode_string_def rbind_eq_Inr)
  obtain n strategy' where "string_layout s (ad_mode a) = Inr (strategy', n, required)"
    using s by (auto simp: encoded_string_size_def rbind_eq_Inr)
  then have r: "required \<le> usize_max" using string_layout_Inr(4) by blast
  obtain strategy where st: "string_choice strategy s" "required = length (string_frame strategy s)"
    "within (c_limit (ad_base a)) required" "length (string_payload strategy s) \<le> length s"
    "encode_string_into_slice a (replicate required 0) s = (Inr required, string_frame strategy s @ drop required (replicate required 0))"
    using string_encode_into[OF s, of "replicate required 0"] by auto
  then show thesis using that[of strategy] e r by simp
qed

text \<open>Both decoders read the strategy and the length, then the payload.\<close>

lemma string_frame_starts:
  assumes "bytes = string_frame strategy s" and "length bytes \<le> usize_max"
  defines "c \<equiv> ac_adv (length (varint_bytes (of_nat (length s)))) (ac_adv 1 (ac_new bytes))"
  shows "ac_byte (ac_new bytes) = (Inr (string_tag strategy), ac_adv 1 (ac_new bytes))"
    and "length s \<le> usize_max \<Longrightarrow> ac_usize_varint (ac_adv 1 (ac_new bytes)) = (Inr (length s), c)"
    and "ac.starts c (string_payload strategy s)"
    and "ac_adv (length (string_payload strategy s)) c = ac_adv (length bytes) (ac_new bytes)"
proof -
  let ?v = "varint_bytes (of_nat (length s))"
  have b: "bytes = [string_tag strategy] @ ?v @ string_payload strategy s" by (simp add: assms(1) string_frame_def)
  have "ac.starts (ac_new bytes) ([string_tag strategy] @ ?v @ string_payload strategy s)"
    using ac_new_starts[OF assms(2)] b by metis
  then have "ac.starts (ac_new bytes) [string_tag strategy] \<and> ac.starts (ac_adv (length [string_tag strategy]) (ac_new bytes)) ?v \<and>
      ac.starts (ac_adv (length ?v) (ac_adv (length [string_tag strategy]) (ac_new bytes))) (string_payload strategy s)"
    by (simp only: ac.rd_starts_append)
  then have st: "ac.starts (ac_new bytes) [string_tag strategy]" "ac.starts (ac_adv 1 (ac_new bytes)) ?v"
    "ac.starts c (string_payload strategy s)"
    by (simp_all add: c_def)
  show "ac_byte (ac_new bytes) = (Inr (string_tag strategy), ac_adv 1 (ac_new bytes))"
    using ac.rd_yieldsD[OF ac_yields_byte st(1)] by simp
  show "length s \<le> usize_max \<Longrightarrow> ac_usize_varint (ac_adv 1 (ac_new bytes)) = (Inr (length s), c)"
    using ac.rd_yieldsD[OF ac_yields_usize st(2)] by (simp add: c_def)
  show "ac.starts c (string_payload strategy s)" by (rule st(3))
  show "ac_adv (length (string_payload strategy s)) c = ac_adv (length bytes) (ac_new bytes)"
    using arg_cong[OF b, of length] by (simp add: c_def ac.adv_adv add.assoc)
qed

lemma string_decode_frame:
  assumes b: "bytes = string_frame strategy s" and c: "string_choice strategy s" and n: "length bytes \<le> usize_max" "length s \<le> 2 ^ 63 - 1"
    and l: "within (c_limit (ad_base a)) (length bytes)" and u: "utf8_valid s" and alloc: "alloc (length s)"
  shows "decode_string alloc a bytes = Inr s"
    and "length s \<le> length output \<Longrightarrow> decode_string_into_slice a output bytes = (Inr s, s @ drop (length s) output)"
proof -
  let ?c = "ac_adv (length (varint_bytes (of_nat (length s)))) (ac_adv 1 (ac_new bytes))"
  let ?e = "ac_adv (length bytes) (ac_new bytes)"
  have ls: "length s \<le> usize_max" using n(2) by simp
  have lim: "ad_byte_limit a (length bytes) = Inr ()" using l by (simp add: ad_byte_limit_def)
  note h = string_frame_starts(1,2)[OF b n(1)] note h2 = h(2)[OF ls, simplified]
  have p: "(strategy = RawUtf8 \<longrightarrow> ac_utf8 (length s) ?c = (Inr s, ?e)) \<and>
    (strategy = Ascii7 \<longrightarrow> ac_packed (length s) ?c = (Inr (ascii_bytes s), ?e) \<and> fst (read_scalars (length s) (bit_reader_new (ascii_bytes s))) = Inr s
      \<and> validate_ascii_padding (ascii_bytes s) (length s * 7) = Inr ())"
  proof (cases strategy)
    case RawUtf8
    note st = string_frame_starts(3,4)[OF b n(1), unfolded string_payload_def RawUtf8 string_strategy.case]
    have "ac_take (length s) ?c = (Inr s, ?e)" using ac.rd_yieldsD[OF ac_yields_take[OF refl] st(1)] st(2) by simp
    then show ?thesis using RawUtf8 u by (simp add: ac_utf8_def)
  next
    case Ascii7
    note st = string_frame_starts(3,4)[OF b n(1), unfolded string_payload_def Ascii7 string_strategy.case]
    have a: "is_ascii s" "length s * 7 + 7 \<le> usize_max" using c Ascii7 by (simp_all add: string_choice_def)
    note k = pack_scalars_ok(2)[OF a, of "replicate ((length s * 7 + 7) div 8) 0", simplified]
    have "ac_take ((length s * 7 + 7) div 8) ?c = (Inr (ascii_bytes s), ?e)"
      using ac.rd_yieldsD[OF ac_yields_take[OF k] st(1)] st(2) by simp
    moreover have "packed_len ''ASCII7 length overflow'' (length s) = Inr ((length s * 7 + 7) div 8)"
      using a(2) by (simp only: packed_len_Inr)
    ultimately show ?thesis using Ascii7 ascii_unpack[OF a] by (simp add: ac_packed_def sbind_def)
  qed
  have f: "ac_finish (c_trailing (ad_base a)) ?e = Inr ()" by (rule ac_finish_all)
  have r: "try_reserve alloc (length s) = Inr ()" using n(2) alloc by (simp add: try_reserve_def)
  show "decode_string alloc a bytes = Inr s"
    by (cases strategy) (use p in \<open>simp_all add: decode_string_def decode_string_borrowed_def lim sbind_def h(1) h2 f r adaptive_tags\<close>)
  assume o: "length s \<le> length output"
  have fill: "strategy = Ascii7 \<Longrightarrow> fill_scalars (length s) (bit_reader_new (ascii_bytes s)) (take (length s) output) = (Inr (), s)"
    using p o fill_scalars_read[of "length s" "bit_reader_new (ascii_bytes s)" s "take (length s) output"] by simp
  show "decode_string_into_slice a output bytes = (Inr s, s @ drop (length s) output)"
    by (cases strategy) (use p o fill in \<open>simp_all add: decode_string_into_slice_def lim sbind_def h(1) h2 f u adaptive_tags\<close>)
qed

section \<open>Properties\<close>

text \<open>
  C30: adaptive integer collections are lossless. Whatever the mode that chose the representation,
  whatever mode reads it, the decoder returns the collection, and decoding into a caller's buffer
  writes exactly its prefix.
\<close>

theorem adaptive_integers_roundtrip:
  assumes "encode_i64_slice alloc a vs = Inr bytes" and "8 * length vs \<le> 2 ^ 63 - 1"
    and "alloc' (8 * length vs)" and "ad_base a' = ad_base a" and "length vs \<le> length buffer"
  shows "decode_i64_vec alloc' a' bytes = Inr vs \<and>
    decode_i64_slice_into a' buffer bytes = (Inr (length vs), vs @ drop (length vs) buffer)"
  using i64_roundtrip[where alloc' = alloc', OF assms(1-4)] assms(5) by simp

text \<open>
  C31: the exact mode is optimal. No mode encodes a collection in fewer bytes, and both modes agree on
  the encoded size with the size they announce.
\<close>

theorem adaptive_exact_smallest:
  assumes "encode_i64_slice alloc (with_adaptive_mode Exact a) vs = Inr bytes"
    and "encode_i64_slice alloc' (with_adaptive_mode mode a) vs = Inr bytes'"
  shows "length bytes \<le> length bytes' \<and> encoded_i64_slice_size (with_adaptive_mode Exact a) vs = Inr (length bytes)"
proof
  obtain strategy where "bytes' = i64_frame strategy vs" using encode_i64_Inr[OF assms(2)] by metis
  moreover have "\<forall>s. length bytes \<le> length (i64_frame s vs)"
    using encode_i64_Inr[OF assms(1)] by (metis adaptive_config.select_convs(2) adaptive_config.surjective
        adaptive_config.update_convs(2) with_adaptive_mode_def)
  ultimately show "length bytes \<le> length bytes'" by simp
  let ?a = "with_adaptive_mode Exact a"
  obtain required where s: "encoded_i64_slice_size ?a vs = Inr required"
    and e: "(case encode_i64_slice_into_slice ?a (replicate required 0) vs of (Inl e, _) \<Rightarrow> Inl e | (Inr _, output) \<Rightarrow> Inr output) = Inr bytes"
    using assms(1) by (auto simp: encode_i64_slice_def with_adaptive_mode_def rbind_eq_Inr)
  obtain st n where c: "collection_layout vs (ad_mode ?a) = Inr (st, n, required)"
    using s by (auto simp: encoded_i64_slice_size_def rbind_eq_Inr)
  then have "bytes = i64_frame st vs" using e by (simp add: i64_encode_into s)
  then show "encoded_i64_slice_size ?a vs = Inr (length bytes)" using s collection_layout_Inr(1)[OF c] by simp
qed

text \<open>
  Adaptive strings are lossless. Raw or packed to seven bits per scalar, the string comes back
  from the owning decoder and from the decoder into a slice, and packing never takes more room than
  the raw form.
\<close>

theorem adaptive_string_roundtrip:
  assumes "encode_string alloc a s = Inr bytes" and "utf8_valid s" and "length s \<le> 2 ^ 63 - 1"
    and "alloc' (length s)" and "ad_base a' = ad_base a" and "length s \<le> length buffer"
  shows "decode_string alloc' a' bytes = Inr s \<and>
    decode_string_into_slice a' buffer bytes = (Inr s, s @ drop (length s) buffer) \<and>
    length bytes \<le> 1 + length (varint_bytes (of_nat (length s))) + length s"
proof -
  obtain strategy where s: "string_choice strategy s" "bytes = string_frame strategy s" "length bytes \<le> usize_max"
    "within (c_limit (ad_base a')) (length bytes)" "length (string_payload strategy s) \<le> length s"
    using encode_string_Inr[OF assms(1)] assms(5) by metis
  note d = string_decode_frame[where alloc = alloc', OF s(2,1,3) assms(3) s(4) assms(2,4)]
  show ?thesis using d(1) d(2)[OF assms(6)] s(5) by (simp add: s(2) string_frame_def)
qed

lemma sample_codes: "zz 7 = [14]" "varint_bytes 4 = [4]" "zd (7, 7) = [0]" "varint_bytes 8 = [8]"
  by code_simp+

lemma sample_integers:
  "encode_i64_slice (\<lambda>_. True) (with_adaptive_mode Exact (adaptive_new standard)) [7, 7, 7, 7] = Inr [2, 4, 14, 4]"
  "encode_i64_slice (\<lambda>_. True) (with_adaptive_mode Off (adaptive_new standard)) [7, 7, 7, 7] = Inr [0, 4, 14, 14, 14, 14]"
proof -
  let ?a = "with_adaptive_mode Exact (adaptive_new standard)" and ?vs = "[7, 7, 7, 7] :: u64 list"
  have l: "collection_layout ?vs Exact = Inr (RunLength, 2, 4)"
    by (simp add: collection_layout_def compare_sizes_def raw_size_eq delta_size_eq rle_size_eq best_strategy_def
        frame_size_eq sized_def run_bytes_def sample_codes)
  have "encoded_i64_slice_size ?a ?vs = Inr 4"
    by (simp add: encoded_i64_slice_size_def with_adaptive_mode_def adaptive_new_def standard_def
        ad_collection_limit_def ad_byte_limit_def check_limit_if check_collection_if l DEFAULT_SIZE_LIMIT_def
        DEFAULT_COLLECTION_LIMIT_def)
  then show "encode_i64_slice (\<lambda>_. True) ?a ?vs = Inr [2, 4, 14, 4]"
    by (simp add: encode_i64_slice_def try_reserve_def i64_encode_into with_adaptive_mode_def adaptive_new_def l
        i64_frame_def run_bytes_def sample_codes adaptive_tags)
  show "encode_i64_slice (\<lambda>_. True) (with_adaptive_mode Off (adaptive_new standard)) ?vs = Inr [0, 4, 14, 14, 14, 14]"
    by (simp add: encode_i64_slice_def with_capacity_def sat_add_def with_adaptive_mode_def adaptive_new_def standard_def
        ad_collection_limit_def ad_byte_limit_def check_limit_if check_collection_if grown_def adaptive_tags
        DEFAULT_SIZE_LIMIT_def DEFAULT_COLLECTION_LIMIT_def
        zz_def[symmetric] sample_codes)
qed

theorem adaptive_integers_roundtrip_witness:
  "decode_i64_vec (\<lambda>_. True) (adaptive_new standard) [2, 4, 14, 4] = Inr [7, 7, 7, 7] \<and>
   decode_i64_slice_into (adaptive_new standard) [1, 2, 3, 4, 5] [2, 4, 14, 4] = (Inr 4, [7, 7, 7, 7, 5])"
  using adaptive_integers_roundtrip[where alloc' = "\<lambda>_. True" and a' = "adaptive_new standard" and buffer = "[1, 2, 3, 4, 5]",
      OF sample_integers(1)]
  by (simp add: with_adaptive_mode_def adaptive_new_def)

theorem adaptive_exact_smallest_witness:
  "length [2, 4, 14, 4 :: byte] \<le> length [0, 4, 14, 14, 14, 14 :: byte] \<and>
   encoded_i64_slice_size (with_adaptive_mode Exact (adaptive_new standard)) [7, 7, 7, 7] = Inr 4"
  using adaptive_exact_smallest[OF sample_integers] by simp

theorem adaptive_string_roundtrip_witness:
  "decode_string (\<lambda>_. True) (adaptive_new standard) [1, 8, 225, 112, 56, 28, 14, 135, 195] = Inr (replicate 8 97) \<and>
   decode_string_into_slice (adaptive_new standard) (replicate 9 0) [1, 8, 225, 112, 56, 28, 14, 135, 195] =
     (Inr (replicate 8 97), replicate 8 97 @ [0])"
proof -
  have e: "encode_string (\<lambda>_. True) (with_adaptive_mode Exact (adaptive_new standard)) (replicate 8 97) =
    Inr [1, 8, 225, 112, 56, 28, 14, 135, 195]"
  proof -
    let ?s = "replicate 8 97 :: byte list" and ?a = "with_adaptive_mode Exact (adaptive_new standard)"
    have p: "pack_scalars ?s [0, 0, 0, 0, 0, 0, 0] = (Inr (), [225, 112, 56, 28, 14, 135, 195])" by code_simp
    have l: "string_layout ?s Exact = Inr (Ascii7, 7, 9)"
      by (simp add: string_layout_def is_ascii_def list_all_iff packed_len_def frame_size_eq sized_def sample_codes)
    have "encoded_string_size ?a ?s = Inr 9"
      by (simp add: encoded_string_size_def with_adaptive_mode_def adaptive_new_def standard_def ad_byte_limit_def
          check_limit_if l DEFAULT_SIZE_LIMIT_def)
    moreover have f: "string_frame Ascii7 ?s = [1, 8, 225, 112, 56, 28, 14, 135, 195]"
    proof -
      have "replicate 7 0 = [0, 0, 0, 0, 0, 0, 0 :: byte]" by (simp add: numeral_eq_Suc)
      then show ?thesis by (simp add: string_frame_def string_payload_def ascii_bytes_def p sample_codes adaptive_tags)
    qed
    moreover have "is_ascii ?s" by (simp add: is_ascii_def list_all_iff)
    then have "writes (sbind (oc_byte (string_tag Ascii7)) (\<lambda>_. sbind (oc_varint (of_nat (length ?s))) (\<lambda>_.
        oc_fill 7 (pack_scalars ?s)))) (string_frame Ascii7 ?s)"
      using writes_string[of Ascii7 ?s 7] f by (simp add: string_choice_def string_frame_def sample_codes)
    from within_output_writes[OF this, of 9 "replicate 9 0"]
    have "encode_string_into_slice ?a (replicate 9 0) ?s = (Inr 9, string_frame Ascii7 ?s)"
      by (simp add: encode_string_into_slice_def with_adaptive_mode_def adaptive_new_def standard_def ad_byte_limit_def
          check_limit_if l DEFAULT_SIZE_LIMIT_def f)
    ultimately show ?thesis
      by (simp add: encode_string_def try_reserve_def with_adaptive_mode_def adaptive_new_def)
  qed
  have u: "utf8_valid (replicate 8 97)" by code_simp
  show ?thesis
    using adaptive_string_roundtrip[where alloc' = "\<lambda>_. True" and a' = "adaptive_new standard" and buffer = "replicate 9 0",
        OF e u] by (simp add: with_adaptive_mode_def adaptive_new_def)
qed

end
