(* ===== verification/Aead.thy ===== *)
theory Aead
  imports Canonical
begin

text \<open>
  \<^verbatim>\<open>src/aead.rs\<close>: ChaCha20, HChaCha20, Poly1305 on 26-bit limbs, and XChaCha20-Poly1305. Keys, nonces and
  messages are byte lists; the fixed-size arrays of the code are lists of that length. The buffers it
  allocates are as long as an input, and are taken to be granted.
\<close>

section \<open>ChaCha20\<close>

type_synonym chacha_state = "u32 list"

text \<open>\<open>s[d] = (s[d] ^ s[a]).rotate_left(n)\<close>, after \<open>s[a] += s[b]\<close>.\<close>

definition quarter_step :: "nat \<Rightarrow> nat \<Rightarrow> nat \<Rightarrow> nat \<Rightarrow> chacha_state \<Rightarrow> chacha_state" where
  "quarter_step n a b d s =
    (let s = s[a := s ! a + s ! b]; s = s[d := s ! d XOR s ! a] in s[d := word_rotl n (s ! d)])"

definition quarter_round :: "nat \<Rightarrow> nat \<Rightarrow> nat \<Rightarrow> nat \<Rightarrow> chacha_state \<Rightarrow> chacha_state" where
  "quarter_round a b c d s =
    quarter_step 7 c d b (quarter_step 8 a b d (quarter_step 12 c d b (quarter_step 16 a b d s)))"

definition double_round :: "chacha_state \<Rightarrow> chacha_state" where
  "double_round s =
    (let s = quarter_round 0 4 8 12 s; s = quarter_round 1 5 9 13 s;
         s = quarter_round 2 6 10 14 s; s = quarter_round 3 7 11 15 s;
         s = quarter_round 0 5 10 15 s; s = quarter_round 1 6 11 12 s;
         s = quarter_round 2 7 8 13 s
     in quarter_round 3 4 9 14 s)"

definition words_bytes :: "u32 list \<Rightarrow> byte list" where
  "words_bytes ws = concat (map to_le_bytes ws)"

definition chacha20_block :: "chacha_state \<Rightarrow> byte list" where
  "chacha20_block state = words_bytes (map2 (+) ((double_round ^^ 10) state) state)"

definition load_u32 :: "byte list \<Rightarrow> nat \<Rightarrow> u32" where
  "load_u32 bytes i = from_le_bytes (take 4 (drop (4 * i) bytes))"

definition chacha_constants :: "u32 list" where
  "chacha_constants = [0x61707865, 0x3320646e, 0x79622d32, 0x6b206574]"

definition init_state :: "byte list \<Rightarrow> u32 \<Rightarrow> byte list \<Rightarrow> chacha_state" where
  "init_state key counter nonce =
    chacha_constants @ map (load_u32 key) [0..<8] @ [counter] @ map (load_u32 nonce) [0..<3]"

lemma length_quarter_step [simp]: "length (quarter_step n a b d s) = length s"
  by (simp add: quarter_step_def Let_def)

lemma length_quarter_round [simp]: "length (quarter_round a b c d s) = length s"
  by (simp add: quarter_round_def)

lemma length_double_round [simp]: "length (double_round s) = length s"
  by (simp add: double_round_def Let_def)

lemma length_rounds [simp]: "length ((double_round ^^ n) s) = length s"
  by (induction n) simp_all

lemma length_words_bytes [simp]: "length (words_bytes ws) = 4 * length ws"
  by (induction ws) (simp_all add: words_bytes_def)

lemma length_chacha20_block [simp]: "length (chacha20_block s) = 4 * length s"
  by (simp add: chacha20_block_def)

lemma length_init_state [simp]: "length (init_state key counter nonce) = 16"
  by (simp add: init_state_def chacha_constants_def)

function keystream_loop :: "byte list \<Rightarrow> byte list \<Rightarrow> nat \<Rightarrow> u32 \<Rightarrow> byte list \<Rightarrow> byte list" where
  "keystream_loop key nonce len block_counter output =
    (if length output < len then
       keystream_loop key nonce len (block_counter + 1)
         (output @ take (min (len - length output) 64) (chacha20_block (init_state key block_counter nonce)))
     else output)"
  by pat_completeness auto

termination by (relation "measure (\<lambda>(key, nonce, len, block_counter, output). len - length output)") auto

declare keystream_loop.simps [simp del]

definition chacha20_keystream :: "byte list \<Rightarrow> byte list \<Rightarrow> u32 \<Rightarrow> nat \<Rightarrow> byte list" where
  "chacha20_keystream key nonce counter len = keystream_loop key nonce len counter []"

section \<open>XChaCha20\<close>

definition hchacha20 :: "byte list \<Rightarrow> byte list \<Rightarrow> byte list" where
  "hchacha20 key nonce16 =
    (let state = (double_round ^^ 10) (chacha_constants @ map (load_u32 key) [0..<8] @ map (load_u32 nonce16) [0..<4])
     in words_bytes (map ((!) state) [0, 1, 2, 3, 12, 13, 14, 15]))"

definition xchacha20_keystream :: "byte list \<Rightarrow> byte list \<Rightarrow> u32 \<Rightarrow> nat \<Rightarrow> byte list" where
  "xchacha20_keystream key nonce counter len =
    chacha20_keystream (hchacha20 key (take 16 nonce)) (replicate 4 0 @ take 8 (drop 16 nonce)) counter len"

definition xchacha20_encrypt :: "byte list \<Rightarrow> byte list \<Rightarrow> byte list \<Rightarrow> byte list" where
  "xchacha20_encrypt key nonce plaintext =
    map2 (XOR) plaintext (xchacha20_keystream key nonce 1 (length plaintext))"

definition xchacha20_decrypt :: "byte list \<Rightarrow> byte list \<Rightarrow> byte list \<Rightarrow> byte list" where
  "xchacha20_decrypt = xchacha20_encrypt"

section \<open>Poly1305\<close>

text \<open>Five limbs of 26 bits, least significant first; \<open>l2\<close> may be one bit longer between two blocks.\<close>

record limbs =
  l0 :: u32
  l1 :: u32
  l2 :: u32
  l3 :: u32
  l4 :: u32

definition LIMB_MASK :: "'a::len word" where "LIMB_MASK = 0x3ffffff"

definition load_limbs :: "byte list \<Rightarrow> limbs" where
  "load_limbs b =
    (let at = (\<lambda>i. from_le_bytes (take 4 (drop i b)) :: u32) in
     \<lparr> l0 = at 0 AND LIMB_MASK, l1 = drop_bit 2 (at 3) AND LIMB_MASK, l2 = drop_bit 4 (at 6) AND LIMB_MASK,
       l3 = drop_bit 6 (at 9) AND LIMB_MASK, l4 = drop_bit 8 (at 12) AND LIMB_MASK \<rparr>)"

definition clamp_r :: "byte list \<Rightarrow> byte list" where
  "clamp_r r =
    (let r = r[3 := r ! 3 AND 0x0f]; r = r[7 := r ! 7 AND 0x0f]; r = r[11 := r ! 11 AND 0x0f];
         r = r[15 := r ! 15 AND 0x0f]; r = r[4 := r ! 4 AND 0xfc]; r = r[8 := r ! 8 AND 0xfc]
     in r[12 := r ! 12 AND 0xfc])"

text \<open>The products of \<open>h * r\<close> with \<open>2 ^ 130\<close> folded back as five, then the carries.\<close>

fun limb_products :: "limbs \<Rightarrow> u64 \<times> u64 \<times> u64 \<times> u64 \<times> u64 \<Rightarrow> u64 \<times> u64 \<times> u64 \<times> u64 \<times> u64" where
  "limb_products r (h0, h1, h2, h3, h4) =
    (let r0 = ucast (l0 r); r1 = ucast (l1 r); r2 = ucast (l2 r); r3 = ucast (l3 r); r4 = ucast (l4 r)
     in (h0 * r0 + h1 * (5 * r4) + h2 * (5 * r3) + h3 * (5 * r2) + h4 * (5 * r1),
         h0 * r1 + h1 * r0 + h2 * (5 * r4) + h3 * (5 * r3) + h4 * (5 * r2),
         h0 * r2 + h1 * r1 + h2 * r0 + h3 * (5 * r4) + h4 * (5 * r3),
         h0 * r3 + h1 * r2 + h2 * r1 + h3 * r0 + h4 * (5 * r4),
         h0 * r4 + h1 * r3 + h2 * r2 + h3 * r1 + h4 * r0))"

fun limb_carry :: "u64 \<times> u64 \<times> u64 \<times> u64 \<times> u64 \<Rightarrow> limbs" where
  "limb_carry (d0, d1, d2, d3, d4) =
    (let c1 = drop_bit 26 d0 + d1; c2 = drop_bit 26 c1 + d2; c3 = drop_bit 26 c2 + d3; c4 = drop_bit 26 c3 + d4;
         h0 = (d0 AND LIMB_MASK) + drop_bit 26 c4 * 5;
         h1 = (c1 AND LIMB_MASK) + drop_bit 26 h0;
         h2 = (c2 AND LIMB_MASK) + drop_bit 26 h1
     in \<lparr> l0 = ucast (h0 AND LIMB_MASK), l1 = ucast (h1 AND LIMB_MASK), l2 = ucast h2,
          l3 = ucast (c3 AND LIMB_MASK), l4 = ucast (c4 AND LIMB_MASK) \<rparr>)"

declare limb_products.simps [simp del] limb_carry.simps [simp del]

definition poly1305_accumulate :: "limbs \<Rightarrow> byte list \<Rightarrow> limbs \<Rightarrow> limbs" where
  "poly1305_accumulate r block h =
    (let b = load_limbs block; b4 = l4 b OR push_bit 24 (ucast (block ! 16))
     in limb_carry (limb_products r
          (ucast (l0 h) + ucast (l0 b), ucast (l1 h) + ucast (l1 b), ucast (l2 h) + ucast (l2 b),
           ucast (l3 h) + ucast (l3 b), ucast (l4 h) + ucast b4)))"

text \<open>The blocks of the message: \<^verbatim>\<open>chunks_exact(16)\<close> and the remainder, each with a one byte behind it.\<close>

function poly1305_blocks :: "limbs \<Rightarrow> byte list \<Rightarrow> limbs \<Rightarrow> limbs" where
  "poly1305_blocks r msg h =
    (if length msg \<ge> 16 then poly1305_blocks r (drop 16 msg) (poly1305_accumulate r (take 16 msg @ [1]) h)
     else if msg = [] then h
     else poly1305_accumulate r (msg @ [1] @ replicate (16 - length msg) 0) h)"
  by pat_completeness auto

termination by (relation "measure (\<lambda>(r, msg, h). length msg)") auto

declare poly1305_blocks.simps [simp del]

definition poly1305_finish :: "limbs \<Rightarrow> u128 \<Rightarrow> byte list" where
  "poly1305_finish h s128 =
    (let h_low = ucast (l0 h) OR push_bit 26 (ucast (l1 h)) OR push_bit 52 (ucast (l2 h))
           OR push_bit 78 (ucast (l3 h)) OR push_bit 104 (ucast (l4 h AND 0x00ffffff))
     in to_le_bytes (h_low + s128))"

definition poly1305_mac :: "byte list \<Rightarrow> byte list \<Rightarrow> byte list \<Rightarrow> byte list" where
  "poly1305_mac r s msg =
    (let s128 = ucast (load_u32 s 0) OR push_bit 32 (ucast (load_u32 s 1)) OR push_bit 64 (ucast (load_u32 s 2))
           OR push_bit 96 (ucast (load_u32 s 3))
     in poly1305_finish (poly1305_blocks (load_limbs r) msg \<lparr> l0 = 0, l1 = 0, l2 = 0, l3 = 0, l4 = 0 \<rparr>) s128)"

definition poly1305 :: "byte list \<Rightarrow> byte list \<Rightarrow> byte list \<Rightarrow> byte list" where
  "poly1305 key nonce msg =
    (let keystream = xchacha20_keystream key nonce 0 64
     in poly1305_mac (clamp_r (take 16 keystream)) (take 16 (drop 16 keystream)) msg)"

definition pad_to_16 :: "nat \<Rightarrow> nat" where
  "pad_to_16 len = (16 - len mod 16) mod 16"

definition poly1305_tag :: "byte list \<Rightarrow> byte list \<Rightarrow> byte list \<Rightarrow> byte list \<Rightarrow> byte list" where
  "poly1305_tag key nonce ciphertext aad =
    poly1305 key nonce (aad @ replicate (pad_to_16 (length aad)) 0 @ ciphertext
      @ replicate (pad_to_16 (length ciphertext)) 0
      @ to_le_bytes (of_nat (length aad) :: u64) @ to_le_bytes (of_nat (length ciphertext) :: u64))"

section \<open>XChaCha20-Poly1305\<close>

definition AEAD_TAG_LEN :: nat where "AEAD_TAG_LEN = 16"

definition constant_time_eq :: "byte list \<Rightarrow> byte list \<Rightarrow> bool" where
  "constant_time_eq left right \<longleftrightarrow>
    length left = length right \<and> fold (\<lambda>(l, r) diff. diff OR (l XOR r)) (zip left right) 0 = 0"

definition aead_encrypt :: "byte list \<Rightarrow> byte list \<Rightarrow> byte list \<Rightarrow> byte list \<Rightarrow> byte list" where
  "aead_encrypt key nonce msg aad =
    (let ciphertext = xchacha20_encrypt key nonce msg
     in ciphertext @ poly1305_tag key nonce ciphertext aad)"

text \<open>\<^verbatim>\<open>AeadError\<close> is \<open>None\<close>.\<close>

definition aead_decrypt :: "byte list \<Rightarrow> byte list \<Rightarrow> byte list \<Rightarrow> byte list \<Rightarrow> byte list option" where
  "aead_decrypt key nonce msg aad =
    (if length msg < AEAD_TAG_LEN then None
     else let split = length msg - AEAD_TAG_LEN; ciphertext = take split msg; tag = drop split msg in
       if \<not> constant_time_eq (poly1305_tag key nonce ciphertext aad) tag then None
       else Some (xchacha20_decrypt key nonce ciphertext))"

end
