(* ===== verification/AeadProofs.thy ===== *)
theory AeadProofs
  imports Aead
begin

text \<open>
  Poly1305 as the code computes it against RFC 8439: five 26-bit limbs as a number, products and carries
  without overflow, and the composition of the tag. Then the XChaCha20-Poly1305 sealing and opening.
\<close>

section \<open>Limbs as numbers\<close>

lemma le_to_nat_take: "le_to_nat (take k xs) = le_to_nat xs mod 256 ^ k"
proof (cases "k \<le> length xs")
  case True
  have "le_to_nat xs = le_to_nat (take k xs) + 256 ^ k * le_to_nat (drop k xs)"
    using le_to_nat_append[of "take k xs" "drop k xs"] True by simp
  moreover have "le_to_nat (take k xs) < 256 ^ k" using le_to_nat_bound[of "take k xs"] True by simp
  ultimately show ?thesis by simp
next
  case False
  have "le_to_nat xs < 256 ^ length xs" by (rule le_to_nat_bound)
  also have "(256 :: nat) ^ length xs \<le> 256 ^ k" using False by (intro power_increasing) simp_all
  finally show ?thesis using False by simp
qed

lemma le_to_nat_drop: "le_to_nat (drop k xs) = le_to_nat xs div 256 ^ k"
proof (cases "k \<le> length xs")
  case True
  have "le_to_nat xs = le_to_nat (take k xs) + 256 ^ k * le_to_nat (drop k xs)"
    using le_to_nat_append[of "take k xs" "drop k xs"] True by simp
  moreover have "le_to_nat (take k xs) < 256 ^ k" using le_to_nat_bound[of "take k xs"] True by simp
  ultimately show ?thesis by simp
next
  case False
  have "le_to_nat xs < 256 ^ length xs" by (rule le_to_nat_bound)
  also have "(256 :: nat) ^ length xs \<le> 256 ^ k" using False by (intro power_increasing) simp_all
  finally show ?thesis using False by simp
qed

lemma unat_limb_mask: "unat (w AND LIMB_MASK) = unat (w :: 'a::len word) mod 2 ^ 26"
proof -
  have "LIMB_MASK = (mask 26 :: 'a word)" by (simp add: LIMB_MASK_def mask_eq_exp_minus_1)
  then have "w AND LIMB_MASK = take_bit 26 w" by (simp add: take_bit_eq_mask)
  then have "unat (w AND LIMB_MASK) = take_bit 26 (unat w)" by (simp only: unsigned_take_bit_eq)
  then show ?thesis by (simp only: take_bit_eq_mod)
qed

lemma unat_shift: "unat (drop_bit n (w :: 'a::len word)) = unat w div 2 ^ n"
  by (subst unat_drop_bit_eq) (simp only: drop_bit_eq_div)

definition limbs_value :: "limbs \<Rightarrow> nat" where
  "limbs_value h = unat (l0 h) + 2 ^ 26 * unat (l1 h) + 2 ^ 52 * unat (l2 h) + 2 ^ 78 * unat (l3 h) + 2 ^ 104 * unat (l4 h)"

lemma load_at:
  assumes "i + 4 \<le> length b"
  shows "unat (from_le_bytes (take 4 (drop i b)) :: u32) = le_to_nat b div 256 ^ i mod 2 ^ 32"
proof -
  have "length (take 4 (drop i b)) = 4" using assms by simp
  then have "unat (from_le_bytes (take 4 (drop i b)) :: u32) = le_to_nat (take 4 (drop i b))"
    by (subst unat_from_le_bytes) simp_all
  also have "\<dots> = le_to_nat b div 256 ^ i mod 256 ^ 4" by (simp only: le_to_nat_take le_to_nat_drop)
  finally show ?thesis by simp
qed

lemma split_26:
  fixes n :: nat
  shows "n mod 2 ^ 26 + 2 ^ 26 * (n div 2 ^ 26 mod 2 ^ 26) + 2 ^ 52 * (n div 2 ^ 52 mod 2 ^ 26)
    + 2 ^ 78 * (n div 2 ^ 78 mod 2 ^ 26) + 2 ^ 104 * (n div 2 ^ 104) = n"
proof -
  have s: "m div 2 ^ k = m div 2 ^ k mod 2 ^ 26 + 2 ^ 26 * (m div 2 ^ (k + 26))" for m k :: nat
    using mult_div_mod_eq[of "2 ^ 26" "m div 2 ^ k"] by (simp only: power_add div_mult2_eq add.commute)
  have j: "x0 + 2 ^ 26 * x1 + 2 ^ 52 * x2 + 2 ^ 78 * x3 + 2 ^ 104 * q4 = n"
    if "n = x0 + 2 ^ 26 * q1" "q1 = x1 + 2 ^ 26 * q2" "q2 = x2 + 2 ^ 26 * q3" "q3 = x3 + 2 ^ 26 * q4" for x0 x1 x2 x3 q1 q2 q3 q4
    using that by simp
  show ?thesis
    using j[OF mod_mult_div_eq[symmetric, of n "2 ^ 26"] s[of n 26, simplified numeral_plus_numeral semiring_norm]
        s[of n 52, simplified numeral_plus_numeral semiring_norm] s[of n 78, simplified numeral_plus_numeral semiring_norm]] .
qed

lemma load_limbs_nat:
  assumes "16 \<le> length b"
  defines "n \<equiv> le_to_nat (take 16 b)"
  shows "unat (l0 (load_limbs b)) = n mod 2 ^ 26" and "unat (l1 (load_limbs b)) = n div 2 ^ 26 mod 2 ^ 26"
    and "unat (l2 (load_limbs b)) = n div 2 ^ 52 mod 2 ^ 26" and "unat (l3 (load_limbs b)) = n div 2 ^ 78 mod 2 ^ 26"
    and "unat (l4 (load_limbs b)) = n div 2 ^ 104" and "n < 2 ^ 128"
proof -
  have l: "length (take 16 b) = 16" using assms(1) by simp
  have t: "take 4 (drop i b) = take 4 (drop i (take 16 b))" if "i + 4 \<le> 16" for i
    using that by (simp add: drop_take min_absorb1)
  have at: "unat (from_le_bytes (take 4 (drop i b)) :: u32) = n div 256 ^ i mod 2 ^ 32" if "i + 4 \<le> 16" for i
    using load_at[of i "take 16 b"] that l unfolding t[OF that] n_def by simp
  show n: "n < 2 ^ 128" using le_to_nat_bound[of "take 16 b"] l by (simp add: n_def)
  have m: "(m mod 2 ^ 32) mod 2 ^ 26 = m mod 2 ^ 26" for m :: nat by (simp add: mod_mod_cancel)
  have d: "(m mod 2 ^ 32) div 2 ^ k mod 2 ^ 26 = m div 2 ^ k mod 2 ^ 26" if "k \<le> 6" for m k :: nat
  proof -
    have "m mod 2 ^ 32 = m mod (2 ^ k * 2 ^ (32 - k))" using that by (simp add: power_add[symmetric])
    also have "\<dots> div 2 ^ k = m div 2 ^ k mod 2 ^ (32 - k)" by (simp add: mod_mult2_eq)
    finally have "(m mod 2 ^ 32) div 2 ^ k mod 2 ^ 26 = m div 2 ^ k mod 2 ^ (32 - k) mod 2 ^ 26" by simp
    also have "(2 :: nat) ^ 26 dvd 2 ^ (32 - k)" using that by (intro le_imp_power_dvd) simp
    then have "m div 2 ^ k mod 2 ^ (32 - k) mod 2 ^ 26 = m div 2 ^ k mod 2 ^ 26" by (rule mod_mod_cancel)
    finally show ?thesis .
  qed
  show "unat (l0 (load_limbs b)) = n mod 2 ^ 26"
    using at[of 0] m[of n] by (simp add: load_limbs_def unat_limb_mask)
  have dd: "n div 256 ^ i div 2 ^ k = n div 2 ^ (8 * i + k)" for i k
  proof -
    have "(256 :: nat) ^ i * 2 ^ k = 2 ^ (8 * i + k)" using power_mult[of "2 :: nat" 8 i] by (simp add: power_add)
    then show ?thesis by (simp only: div_mult2_eq[symmetric])
  qed
  have limb: "unat (drop_bit k (from_le_bytes (take 4 (drop i b)) :: u32) AND LIMB_MASK) = n div 2 ^ (8 * i + k) mod 2 ^ 26"
    if "i + 4 \<le> 16" "k \<le> 6" for i k
    by (simp only: unat_limb_mask unat_shift at[OF that(1)] d[OF that(2)] dd)
  show "unat (l1 (load_limbs b)) = n div 2 ^ 26 mod 2 ^ 26" "unat (l2 (load_limbs b)) = n div 2 ^ 52 mod 2 ^ 26"
    "unat (l3 (load_limbs b)) = n div 2 ^ 78 mod 2 ^ 26"
    using limb[of 3 2] limb[of 6 4] limb[of 9 6] by (simp_all only: load_limbs_def Let_def limbs.select_convs) simp_all
  have s: "n div 256 ^ 12 < 2 ^ 32" "n div 2 ^ 104 < 2 ^ 26" using n by (simp_all add: div_less_iff_less_mult)
  have "unat (l4 (load_limbs b)) = n div 256 ^ 12 mod 2 ^ 32 div 2 ^ 8 mod 2 ^ 26"
    by (simp only: load_limbs_def Let_def limbs.select_convs unat_limb_mask unat_shift at[of 12, simplified numeral_plus_numeral semiring_norm le_numeral_Suc])
  also have "\<dots> = n div 2 ^ 104 mod 2 ^ 26" using s(1) dd[of 12 8] by (simp only: mod_less) simp
  also have "\<dots> = n div 2 ^ 104" using s(2) by (rule mod_less)
  finally show "unat (l4 (load_limbs b)) = n div 2 ^ 104" .
qed

lemma load_limbs_value: "16 \<le> length b \<Longrightarrow> limbs_value (load_limbs b) = le_to_nat (take 16 b)"
  unfolding limbs_value_def load_limbs_nat(1-5) by (rule split_26)

section \<open>One block\<close>

definition poly_p :: nat where "poly_p = 2 ^ 130 - 5"

definition limbs_ok :: "limbs \<Rightarrow> bool" where
  "limbs_ok h \<longleftrightarrow> unat (l0 h) < 2 ^ 26 \<and> unat (l1 h) < 2 ^ 26 \<and> unat (l2 h) \<le> 2 ^ 26 \<and> unat (l3 h) < 2 ^ 26 \<and> unat (l4 h) < 2 ^ 26"

definition key_ok :: "limbs \<Rightarrow> bool" where
  "key_ok r \<longleftrightarrow> limbs_ok r \<and> unat (l2 r) < 2 ^ 26"

lemma load_limbs_ok: "16 \<le> length b \<Longrightarrow> key_ok (load_limbs b)"
proof -
  assume b: "16 \<le> length b"
  have "le_to_nat (take 16 b) div 2 ^ 104 < 2 ^ 26"
    using load_limbs_nat(6)[OF b] by (simp only: div_less_iff_less_mult zero_less_power zero_less_numeral power_add[symmetric]) simp
  moreover have "m mod 2 ^ 26 < 2 ^ 26" for m :: nat by simp
  ultimately show ?thesis
    unfolding key_ok_def limbs_ok_def load_limbs_nat(1-5)[OF b] by (intro conjI less_imp_le)
qed

lemma unat_dot:
  fixes a b c d e :: u64
  assumes "unat a < 2 ^ 28" "unat b < 2 ^ 28" "unat c < 2 ^ 28" "unat d < 2 ^ 28" "unat e < 2 ^ 28"
    and "v < 2 ^ 29" "w < 2 ^ 29" "x < 2 ^ 29" "y < 2 ^ 29" "z < 2 ^ 29"
  shows "unat (a * of_nat v + b * of_nat w + c * of_nat x + d * of_nat y + e * of_nat z) =
      unat a * v + unat b * w + unat c * x + unat d * y + unat e * z" (is "unat ?l = ?r")
    and "unat (a * of_nat v + b * of_nat w + c * of_nat x + d * of_nat y + e * of_nat z) < 2 ^ 60"
proof -
  have p: "m * n \<le> 2 ^ 28 * 2 ^ 29" if "m < 2 ^ 28" "n < 2 ^ 29" for m n :: nat
    using that by (intro mult_le_mono) simp_all
  have r: "?r < 2 ^ 60" using p[OF assms(1,6)] p[OF assms(2,7)] p[OF assms(3,8)] p[OF assms(4,9)] p[OF assms(5,10)] by simp
  have "?l = of_nat ?r" by simp
  then show e: "unat ?l = ?r" using r by (simp add: unat_of_nat del: of_nat_add of_nat_mult)
  show "unat ?l < 2 ^ 60" unfolding e by (rule r)
qed

lemma product_arith:
  fixes B :: nat
  shows "(h0 + B * h1 + B ^ 2 * h2 + B ^ 3 * h3 + B ^ 4 * h4) * (r0 + B * r1 + B ^ 2 * r2 + B ^ 3 * r3 + B ^ 4 * r4)
      + 5 * (h1 * r4 + h2 * r3 + h3 * r2 + h4 * r1 + B * (h2 * r4 + h3 * r3 + h4 * r2) + B ^ 2 * (h3 * r4 + h4 * r3) + B ^ 3 * (h4 * r4))
    = (h0 * r0 + h1 * (5 * r4) + h2 * (5 * r3) + h3 * (5 * r2) + h4 * (5 * r1))
      + B * (h0 * r1 + h1 * r0 + h2 * (5 * r4) + h3 * (5 * r3) + h4 * (5 * r2))
      + B ^ 2 * (h0 * r2 + h1 * r1 + h2 * r0 + h3 * (5 * r4) + h4 * (5 * r3))
      + B ^ 3 * (h0 * r3 + h1 * r2 + h2 * r1 + h3 * r0 + h4 * (5 * r4))
      + B ^ 4 * (h0 * r4 + h1 * r3 + h2 * r2 + h3 * r1 + h4 * r0)
      + B ^ 5 * (h1 * r4 + h2 * r3 + h3 * r2 + h4 * r1 + B * (h2 * r4 + h3 * r3 + h4 * r2) + B ^ 2 * (h3 * r4 + h4 * r3) + B ^ 3 * (h4 * r4))"
  by (simp add: algebra_simps power_numeral_reduce)

lemma carry_arith:
  fixes B :: nat
  assumes "d0 = B * q0 + m0" "q0 + d1 = B * q1 + m1" "q1 + d2 = B * q2 + m2" "q2 + d3 = B * q3 + m3" "q3 + d4 = B * q4 + m4"
    and "m0 + q4 * 5 = B * e0 + f0" "m1 + e0 = B * e1 + f1"
  shows "f0 + B * f1 + B ^ 2 * (m2 + e1) + B ^ 3 * m3 + B ^ 4 * m4 + B ^ 5 * q4 =
    d0 + B * d1 + B ^ 2 * d2 + B ^ 3 * d3 + B ^ 4 * d4 + 5 * q4"
proof -
  have s: "int d0 = int B * int q0 + int m0" "int d1 = int B * int q1 + int m1 - int q0" "int d2 = int B * int q2 + int m2 - int q1"
    "int d3 = int B * int q3 + int m3 - int q2" "int d4 = int B * int q4 + int m4 - int q3"
    "int f0 = int m0 + int q4 * 5 - int B * int e0" "int f1 = int m1 + int e0 - int B * int e1"
    using assms[THEN arg_cong, of int] by simp_all
  have "int (f0 + B * f1 + B ^ 2 * (m2 + e1) + B ^ 3 * m3 + B ^ 4 * m4 + B ^ 5 * q4) =
    int (d0 + B * d1 + B ^ 2 * d2 + B ^ 3 * d3 + B ^ 4 * d4 + 5 * q4)"
    by (simp add: s algebra_simps power_numeral_reduce)
  then show ?thesis by (simp only: of_nat_eq_iff)
qed

lemma mod_poly_p: "(m :: nat) + 5 * k = n + 2 ^ 130 * k \<Longrightarrow> m mod poly_p = n mod poly_p"
proof -
  assume a: "m + 5 * k = n + 2 ^ 130 * k"
  have "2 ^ 130 * k = poly_p * k + 5 * k" by (simp add: poly_p_def)
  then have "m = n + poly_p * k" using a by simp
  then show ?thesis by simp
qed

lemma uadd: "unat x + unat y < 2 ^ 64 \<Longrightarrow> unat (x + y :: u64) = unat x + unat y"
  using unat_add_lem[of x y] by simp

lemma unat_ucast_64: "unat (ucast (w :: u32) :: u64) = unat w"
  by (rule unat_ucast_id) (rule less_trans[OF unsigned_less], simp)

lemma unat_narrow: "unat w < 2 ^ 32 \<Longrightarrow> unat (ucast (w :: u64) :: u32) = unat w"
  by (rule unat_ucast_id) simp

lemma limb_carry_value:
  assumes d: "unat d0 < 2 ^ 60" "unat d1 < 2 ^ 60" "unat d2 < 2 ^ 60" "unat d3 < 2 ^ 60" "unat d4 < 2 ^ 60"
  shows "limbs_ok (limb_carry (d0, d1, d2, d3, d4))"
    and "limbs_value (limb_carry (d0, d1, d2, d3, d4)) mod poly_p =
      (unat d0 + 2 ^ 26 * unat d1 + 2 ^ 52 * unat d2 + 2 ^ 78 * unat d3 + 2 ^ 104 * unat d4) mod poly_p"
proof -
  let ?B = "2 ^ 26 :: nat"
  define c1 where "c1 = drop_bit 26 d0 + d1"
  define c2 where "c2 = drop_bit 26 c1 + d2"
  define c3 where "c3 = drop_bit 26 c2 + d3"
  define c4 where "c4 = drop_bit 26 c3 + d4"
  define h0 where "h0 = (d0 AND LIMB_MASK) + drop_bit 26 c4 * 5"
  define h1 where "h1 = (c1 AND LIMB_MASK) + drop_bit 26 h0"
  define h2 where "h2 = (c2 AND LIMB_MASK) + drop_bit 26 h1"
  have r: "limb_carry (d0, d1, d2, d3, d4) = \<lparr> l0 = ucast (h0 AND LIMB_MASK), l1 = ucast (h1 AND LIMB_MASK), l2 = ucast h2,
     l3 = ucast (c3 AND LIMB_MASK), l4 = ucast (c4 AND LIMB_MASK) \<rparr>"
    by (simp only: limb_carry.simps Let_def c1_def c2_def c3_def c4_def h0_def h1_def h2_def)
  have step: "unat (drop_bit 26 x + y) = unat x div ?B + unat y \<and> unat (drop_bit 26 x + y) < 2 ^ 61"
    if "unat x < 2 ^ 61" "unat y < 2 ^ 60" for x y :: u64
  proof -
    have "unat x div ?B < 2 ^ 35" using that(1) by (simp add: div_less_iff_less_mult)
    then show ?thesis using that(2) uadd[of "drop_bit 26 x" y] by (simp add: unat_shift)
  qed
  have d0: "unat d0 < 2 ^ 61" using d(1) by simp
  note c1 = step[OF d0 d(2), folded c1_def] note c2 = step[OF c1[THEN conjunct2] d(3), folded c2_def]
  note c3 = step[OF c2[THEN conjunct2] d(4), folded c3_def] note c4 = step[OF c3[THEN conjunct2] d(5), folded c4_def]
  have q: "unat c4 div ?B < 2 ^ 35" using c4 by (simp add: div_less_iff_less_mult)
  have q5: "unat (drop_bit 26 c4 * 5) = unat c4 div ?B * 5" using unat_mult_lem[of "drop_bit 26 c4" 5] q by (simp add: unat_shift)
  have m: "unat (x AND LIMB_MASK) < ?B" for x :: u64 by (simp add: unat_limb_mask)
  have h0: "unat h0 = unat d0 mod ?B + unat c4 div ?B * 5" "unat h0 < 2 ^ 38"
    using uadd[of "d0 AND LIMB_MASK" "drop_bit 26 c4 * 5"] q q5 m[of d0] by (simp_all add: h0_def unat_limb_mask)
  then have "unat h0 div ?B < 2 ^ 12" by (simp add: div_less_iff_less_mult)
  then have h1: "unat h1 = unat c1 mod ?B + unat h0 div ?B" "unat h1 < 2 ^ 27"
    using uadd[of "c1 AND LIMB_MASK" "drop_bit 26 h0"] m[of c1] by (simp_all add: h1_def unat_limb_mask unat_shift)
  then have "unat h1 div ?B \<le> 1" by (simp add: less_Suc_eq_le[symmetric] div_less_iff_less_mult)
  then have h2: "unat h2 = unat c2 mod ?B + unat h1 div ?B" "unat h2 \<le> ?B"
    using uadd[of "c2 AND LIMB_MASK" "drop_bit 26 h1"] m[of c2] by (simp_all add: h2_def unat_limb_mask unat_shift)
  have n: "unat (ucast (x AND LIMB_MASK) :: u32) = unat x mod ?B" for x :: u64
    using m[of x] unat_narrow[of "x AND LIMB_MASK"] by (simp add: unat_limb_mask)
  have l: "unat (l0 (limb_carry (d0, d1, d2, d3, d4))) = unat h0 mod ?B" "unat (l1 (limb_carry (d0, d1, d2, d3, d4))) = unat h1 mod ?B"
    "unat (l2 (limb_carry (d0, d1, d2, d3, d4))) = unat h2" "unat (l3 (limb_carry (d0, d1, d2, d3, d4))) = unat c3 mod ?B"
    "unat (l4 (limb_carry (d0, d1, d2, d3, d4))) = unat c4 mod ?B"
    using h2(2) unat_narrow[of h2] by (simp_all only: r limbs.select_convs n) simp
  show "limbs_ok (limb_carry (d0, d1, d2, d3, d4))" unfolding limbs_ok_def l using h2(2) by simp
  have "unat h0 mod ?B + ?B * (unat h1 mod ?B) + ?B ^ 2 * (unat c2 mod ?B + unat h1 div ?B) + ?B ^ 3 * (unat c3 mod ?B)
      + ?B ^ 4 * (unat c4 mod ?B) + ?B ^ 5 * (unat c4 div ?B) =
    unat d0 + ?B * unat d1 + ?B ^ 2 * unat d2 + ?B ^ 3 * unat d3 + ?B ^ 4 * unat d4 + 5 * (unat c4 div ?B)"
    by (rule carry_arith[where ?q0.0 = "unat d0 div ?B" and ?q1.0 = "unat c1 div ?B" and ?q2.0 = "unat c2 div ?B" and ?q3.0 = "unat c3 div ?B"
        and ?m0.0 = "unat d0 mod ?B" and ?m1.0 = "unat c1 mod ?B" and ?e0.0 = "unat h0 div ?B"])
      (use c1 c2 c3 c4 h0 h1 in \<open>simp_all only: mult_div_mod_eq\<close>)
  then have "limbs_value (limb_carry (d0, d1, d2, d3, d4)) + 2 ^ 130 * (unat c4 div ?B) =
    (unat d0 + 2 ^ 26 * unat d1 + 2 ^ 52 * unat d2 + 2 ^ 78 * unat d3 + 2 ^ 104 * unat d4) + 5 * (unat c4 div ?B)"
    by (simp only: limbs_value_def l h2(1) power_mult[symmetric]) simp
  then show "limbs_value (limb_carry (d0, d1, d2, d3, d4)) mod poly_p =
      (unat d0 + 2 ^ 26 * unat d1 + 2 ^ 52 * unat d2 + 2 ^ 78 * unat d3 + 2 ^ 104 * unat d4) mod poly_p"
    by (rule mod_poly_p[OF sym, symmetric])
qed

lemma limb_products_value:
  assumes h: "unat h0 < 2 ^ 28" "unat h1 < 2 ^ 28" "unat h2 < 2 ^ 28" "unat h3 < 2 ^ 28" "unat h4 < 2 ^ 28" and r: "key_ok r"
  shows "limbs_ok (limb_carry (limb_products r (h0, h1, h2, h3, h4)))"
    and "limbs_value (limb_carry (limb_products r (h0, h1, h2, h3, h4))) mod poly_p =
      (unat h0 + 2 ^ 26 * unat h1 + 2 ^ 52 * unat h2 + 2 ^ 78 * unat h3 + 2 ^ 104 * unat h4) * limbs_value r mod poly_p"
proof -
  obtain d0 d1 d2 d3 d4 where d: "limb_products r (h0, h1, h2, h3, h4) = (d0, d1, d2, d3, d4)"
    by (cases "limb_products r (h0, h1, h2, h3, h4)")
  let ?r0 = "unat (l0 r)" and ?r1 = "unat (l1 r)" and ?r2 = "unat (l2 r)" and ?r3 = "unat (l3 r)" and ?r4 = "unat (l4 r)"
  have b: "?r0 < 2 ^ 26" "?r1 < 2 ^ 26" "?r2 < 2 ^ 26" "?r3 < 2 ^ 26" "?r4 < 2 ^ 26"
    using r by (simp_all add: key_ok_def limbs_ok_def)
  then have b': "?r0 < 2 ^ 29" "?r1 < 2 ^ 29" "?r2 < 2 ^ 29" "?r3 < 2 ^ 29" "?r4 < 2 ^ 29"
    "5 * ?r1 < 2 ^ 29" "5 * ?r2 < 2 ^ 29" "5 * ?r3 < 2 ^ 29" "5 * ?r4 < 2 ^ 29" by simp_all
  have u: "ucast w = (of_nat (unat w) :: u64)" for w :: u32 by (simp add: of_nat_unat)
  have u5: "5 * (of_nat n :: u64) = of_nat (5 * n)" for n by simp
  have D: "d0 = h0 * of_nat ?r0 + h1 * of_nat (5 * ?r4) + h2 * of_nat (5 * ?r3) + h3 * of_nat (5 * ?r2) + h4 * of_nat (5 * ?r1)"
    "d1 = h0 * of_nat ?r1 + h1 * of_nat ?r0 + h2 * of_nat (5 * ?r4) + h3 * of_nat (5 * ?r3) + h4 * of_nat (5 * ?r2)"
    "d2 = h0 * of_nat ?r2 + h1 * of_nat ?r1 + h2 * of_nat ?r0 + h3 * of_nat (5 * ?r4) + h4 * of_nat (5 * ?r3)"
    "d3 = h0 * of_nat ?r3 + h1 * of_nat ?r2 + h2 * of_nat ?r1 + h3 * of_nat ?r0 + h4 * of_nat (5 * ?r4)"
    "d4 = h0 * of_nat ?r4 + h1 * of_nat ?r3 + h2 * of_nat ?r2 + h3 * of_nat ?r1 + h4 * of_nat ?r0"
    using d by (simp_all only: limb_products.simps Let_def prod.inject u u5)
  note dot = unat_dot[OF h]
  have n: "unat d0 < 2 ^ 60" "unat d1 < 2 ^ 60" "unat d2 < 2 ^ 60" "unat d3 < 2 ^ 60" "unat d4 < 2 ^ 60"
    unfolding D by (rule dot(2); rule b')+
  note D' = dot(1)[OF b'(1,9,8,7,6)] dot(1)[OF b'(2,1,9,8,7)] dot(1)[OF b'(3,2,1,9,8)] dot(1)[OF b'(4,3,2,1,9)] dot(1)[OF b'(5,4,3,2,1)]
  show "limbs_ok (limb_carry (limb_products r (h0, h1, h2, h3, h4)))" unfolding d by (rule limb_carry_value(1)[OF n])
  let ?k = "unat h1 * ?r4 + unat h2 * ?r3 + unat h3 * ?r2 + unat h4 * ?r1 + 2 ^ 26 * (unat h2 * ?r4 + unat h3 * ?r3 + unat h4 * ?r2)
    + (2 ^ 26) ^ 2 * (unat h3 * ?r4 + unat h4 * ?r3) + (2 ^ 26) ^ 3 * (unat h4 * ?r4)"
  have "(unat h0 + 2 ^ 26 * unat h1 + 2 ^ 52 * unat h2 + 2 ^ 78 * unat h3 + 2 ^ 104 * unat h4) * limbs_value r + 5 * ?k =
    (unat d0 + 2 ^ 26 * unat d1 + 2 ^ 52 * unat d2 + 2 ^ 78 * unat d3 + 2 ^ 104 * unat d4) + 2 ^ 130 * ?k"
    using product_arith[of "unat h0" "2 ^ 26" "unat h1" "unat h2" "unat h3" "unat h4" ?r0 ?r1 ?r2 ?r3 ?r4]
    unfolding D D' limbs_value_def power_mult[symmetric] by (simp only: numeral_times_numeral semiring_norm)
  then show "limbs_value (limb_carry (limb_products r (h0, h1, h2, h3, h4))) mod poly_p =
      (unat h0 + 2 ^ 26 * unat h1 + 2 ^ 52 * unat h2 + 2 ^ 78 * unat h3 + 2 ^ 104 * unat h4) * limbs_value r mod poly_p"
    unfolding d limb_carry_value(2)[OF n] by (rule mod_poly_p[symmetric])
qed

lemma block_load:
  assumes "length block = 17"
  shows "limbs_value (load_limbs block) + 2 ^ 128 * unat (block ! 16) = le_to_nat block"
proof -
  have "block = take 16 block @ [block ! 16]"
    using take_Suc_conv_app_nth[of 16 block] assms by simp
  then have "le_to_nat block = le_to_nat (take 16 block @ [block ! 16])" by simp
  also have "\<dots> = le_to_nat (take 16 block) + 256 ^ 16 * unat (block ! 16)"
    using assms by (simp add: le_to_nat_append)
  finally show ?thesis using load_limbs_value[of block] assms by simp
qed

lemma accumulate_value:
  assumes b: "length block = 17" "block ! 16 \<le> 1" and r: "key_ok r" and h: "limbs_ok h"
  shows "limbs_ok (poly1305_accumulate r block h)"
    and "limbs_value (poly1305_accumulate r block h) mod poly_p = (limbs_value h + le_to_nat block) * limbs_value r mod poly_p"
proof -
  let ?b = "load_limbs block"
  have "16 \<le> length block" using b(1) by simp
  note ok = load_limbs_ok[OF this] and n = load_limbs_nat(5,6)[OF this]
  have top: "unat (l4 ?b) < 2 ^ 24"
    using n by (simp only: div_less_iff_less_mult zero_less_power zero_less_numeral power_add[symmetric]) simp
  define b4 where "b4 = l4 ?b OR push_bit 24 (ucast (block ! 16))"
  have one: "unat (block ! 16) \<le> 1" using b(2) by (simp add: word_le_nat_alt)
  have s: "unat (push_bit 24 (ucast (block ! 16) :: u32)) = 2 ^ 24 * unat (block ! 16)"
  proof -
    have "unat (block ! 16) = 0 \<or> unat (block ! 16) = 1" using one by linarith
    then have "block ! 16 = 0 \<or> block ! 16 = 1" by (auto simp: word_unat_eq_iff)
    then show ?thesis by auto
  qed
  have "b4 = l4 ?b + push_bit 24 (ucast (block ! 16))"
    unfolding b4_def
  proof (rule disjunctive_add[symmetric])
    fix k
    have "take_bit 24 (l4 ?b) = l4 ?b" using top by (simp add: word_unat_eq_iff unsigned_take_bit_eq take_bit_nat_eq_self_iff)
    then have "bit (l4 ?b) k \<Longrightarrow> k < 24" by (metis bit_take_bit_iff)
    then show "\<not> bit (l4 ?b) k \<or> \<not> bit (push_bit 24 (ucast (block ! 16) :: u32)) k" by (auto simp: bit_push_bit_iff)
  qed
  then have b4: "unat b4 = unat (l4 ?b) + 2 ^ 24 * unat (block ! 16)"
    using unat_add_lem[of "l4 ?b" "push_bit 24 (ucast (block ! 16))"] s top one by simp
  have add: "unat (ucast x + ucast y :: u64) = unat x + unat y \<and> unat (ucast x + ucast y :: u64) < 2 ^ 28"
    if "unat x \<le> 2 ^ 26" "unat y \<le> 2 ^ 26" for x y :: u32
    using that uadd[of "ucast x" "ucast y"] by (simp add: unat_ucast_64)
  have "unat b4 \<le> 2 ^ 26" using b4 top one by simp
  have hb: "unat (l0 h) \<le> 2 ^ 26" "unat (l1 h) \<le> 2 ^ 26" "unat (l2 h) \<le> 2 ^ 26" "unat (l3 h) \<le> 2 ^ 26" "unat (l4 h) \<le> 2 ^ 26"
    using h unfolding limbs_ok_def by simp_all
  have bb: "unat (l0 ?b) \<le> 2 ^ 26" "unat (l1 ?b) \<le> 2 ^ 26" "unat (l2 ?b) \<le> 2 ^ 26" "unat (l3 ?b) \<le> 2 ^ 26"
    using ok unfolding key_ok_def limbs_ok_def by simp_all
  note a = add[OF hb(1) bb(1)] add[OF hb(2) bb(2)] add[OF hb(3) bb(3)] add[OF hb(4) bb(4)] add[OF hb(5) \<open>unat b4 \<le> 2 ^ 26\<close>]
  have e: "poly1305_accumulate r block h = limb_carry (limb_products r
          (ucast (l0 h) + ucast (l0 ?b), ucast (l1 h) + ucast (l1 ?b), ucast (l2 h) + ucast (l2 ?b),
           ucast (l3 h) + ucast (l3 ?b), ucast (l4 h) + ucast b4))"
    by (simp only: poly1305_accumulate_def Let_def b4_def)
  note p = limb_products_value[OF a[THEN conjunct2] r]
  show "limbs_ok (poly1305_accumulate r block h)" unfolding e by (rule p(1))
  have v: "(unat (l0 h) + unat (l0 ?b)) + 2 ^ 26 * (unat (l1 h) + unat (l1 ?b)) + 2 ^ 52 * (unat (l2 h) + unat (l2 ?b))
      + 2 ^ 78 * (unat (l3 h) + unat (l3 ?b)) + 2 ^ 104 * (unat (l4 h) + unat b4) = limbs_value h + le_to_nat block"
    unfolding block_load[OF b(1), symmetric] limbs_value_def b4 by simp
  show "limbs_value (poly1305_accumulate r block h) mod poly_p = (limbs_value h + le_to_nat block) * limbs_value r mod poly_p"
    unfolding e p(2) a[THEN conjunct1] v ..
qed

section \<open>The reference: RFC 8439, section 2.5\<close>

function rfc_accumulator :: "nat \<Rightarrow> byte list \<Rightarrow> nat \<Rightarrow> nat" where
  "rfc_accumulator r msg a =
    (if msg = [] then a else rfc_accumulator r (drop 16 msg) ((a + le_to_nat (take 16 msg @ [1])) * r mod poly_p))"
  by pat_completeness auto

termination by (relation "measure (\<lambda>(r, msg, a). length msg)") auto

declare rfc_accumulator.simps [simp del]

definition rfc_poly1305 :: "byte list \<Rightarrow> byte list \<Rightarrow> byte list \<Rightarrow> byte list" where
  "rfc_poly1305 r s msg = nat_to_le 16 (rfc_accumulator (le_to_nat r) msg 0 + le_to_nat s)"

lemma le_to_nat_zeros: "le_to_nat (xs @ replicate n 0) = le_to_nat xs"
proof -
  have "le_to_nat (replicate n 0) = 0" by (induction n) simp_all
  then show ?thesis by (simp add: le_to_nat_append)
qed

lemma rfc_accumulator_reduced: "rfc_accumulator r msg (a mod poly_p) mod poly_p = rfc_accumulator r msg a mod poly_p"
proof -
  have "((a mod poly_p) + m) * r mod poly_p = (a + m) * r mod poly_p" for m
    by (metis mod_add_left_eq mod_mult_left_eq)
  then show ?thesis by (simp add: rfc_accumulator.simps[of r msg])
qed

lemma blocks_value:
  assumes r: "key_ok r"
  shows "limbs_ok h \<Longrightarrow> limbs_ok (poly1305_blocks r msg h) \<and>
    limbs_value (poly1305_blocks r msg h) mod poly_p = rfc_accumulator (limbs_value r) msg (limbs_value h) mod poly_p"
proof (induction "length msg" arbitrary: msg h rule: less_induct)
  case less
  show ?case
  proof (cases "16 \<le> length msg")
    case True
    let ?b = "take 16 msg @ [1]" let ?h = "poly1305_accumulate r ?b h"
    have b: "length ?b = 17" "?b ! 16 \<le> 1" using True by (simp_all add: nth_append)
    note a = accumulate_value[OF b r less.prems]
    have d: "length (drop 16 msg) < length msg" using True by simp
    have ne: "msg \<noteq> []" using True by auto
    have "rfc_accumulator (limbs_value r) (drop 16 msg) (limbs_value ?h) mod poly_p =
      rfc_accumulator (limbs_value r) msg (limbs_value h) mod poly_p"
      using ne rfc_accumulator_reduced[of "limbs_value r" "drop 16 msg" "limbs_value ?h"]
        by (simp add: a(2) rfc_accumulator.simps[of "limbs_value r" msg])
    then show ?thesis using less.hyps[OF d a(1)] True by (simp add: poly1305_blocks.simps[of r msg h])
  next
    case False
    show ?thesis
    proof (cases "msg = []")
      case True
      then show ?thesis using less.prems by (simp add: poly1305_blocks.simps rfc_accumulator.simps)
    next
      case ne: False
      let ?b = "msg @ [1] @ replicate (16 - length msg) 0"
      have b: "length ?b = 17" "?b ! 16 \<le> 1" proof -
        show "length ?b = 17" using False by simp
        have "?b ! (length msg + Suc (15 - length msg)) = 0" using False by (simp only: nth_append_length_plus) simp
        then show "?b ! 16 \<le> 1" using False by simp
      qed
      have "le_to_nat ?b = le_to_nat (msg @ [1])" using le_to_nat_zeros[of "msg @ [1]"] by simp
      moreover have "take 16 msg = msg" "drop 16 msg = []" using False by simp_all
      ultimately show ?thesis using accumulate_value[OF b r less.prems] False ne
        by (simp add: poly1305_blocks.simps[of r msg h] rfc_accumulator.simps[of "limbs_value r" msg]
            rfc_accumulator.simps[of "limbs_value r" "[]"])
    qed
  qed
qed

section \<open>The tag\<close>

lemma or_push_bit: "unat (a :: u128) < 2 ^ k \<Longrightarrow> a OR push_bit k b = a + push_bit k b"
proof (rule disjunctive_add[symmetric])
  fix n assume "unat a < 2 ^ k"
  then have "take_bit k a = a" by (simp add: word_unat_eq_iff unsigned_take_bit_eq take_bit_nat_eq_self_iff)
  then have "bit a n \<Longrightarrow> n < k" by (metis bit_take_bit_iff)
  then show "\<not> bit a n \<or> \<not> bit (push_bit k b) n" by (auto simp: bit_push_bit_iff)
qed

lemma or_shift:
  assumes "a = of_nat m" and "m < 2 ^ k" and "k \<le> 128"
  shows "a OR push_bit k (ucast (w :: u32)) = (of_nat (m + 2 ^ k * unat w) :: u128)"
proof -
  have "m < 2 ^ LENGTH(128)" using assms(2) using power_increasing[OF assms(3), of "2 :: nat"] by simp
  then have "unat a < 2 ^ k" using assms(1,2) by (simp add: unat_of_nat)
  then have e: "a OR push_bit k (ucast w) = a + push_bit k (ucast w)" by (rule or_push_bit)
  have p: "push_bit k (ucast w :: u128) = of_nat (2 ^ k * unat w)"
    by (simp add: push_bit_eq_mult of_nat_unat mult.commute)
  show ?thesis by (simp only: e) (simp only: p assms(1) of_nat_add)
qed

lemma finish_value:
  assumes h: "limbs_ok h" and "unat (l2 h) < 2 ^ 26"
  shows "poly1305_finish h s = nat_to_le 16 (limbs_value h + unat s)"
proof -
  let ?t = "l4 h AND 0x00ffffff"
  have "(0x00ffffff :: u32) = mask 24" by (simp add: mask_eq_exp_minus_1)
  then have "?t = take_bit 24 (l4 h)" by (simp add: take_bit_eq_mask)
  then have t: "unat ?t = take_bit 24 (unat (l4 h))" by (simp only: unsigned_take_bit_eq)
  have b: "unat (l0 h) < 2 ^ 26" "unat (l1 h) < 2 ^ 26" "unat (l2 h) < 2 ^ 26" "unat (l3 h) < 2 ^ 26"
    using h assms(2) unfolding limbs_ok_def by simp_all
  have 0: "ucast (l0 h) = (of_nat (unat (l0 h)) :: u128)" by (simp add: of_nat_unat)
  let ?a = "unat (l0 h) + 2 ^ 26 * unat (l1 h)"
  let ?b = "?a + 2 ^ 52 * unat (l2 h)" let ?c = "?b + 2 ^ 78 * unat (l3 h)"
  have l: "?a < 2 ^ 52" "?b < 2 ^ 78" "?c < 2 ^ 104" using b by simp_all
  have "(((ucast (l0 h) OR push_bit 26 (ucast (l1 h))) OR push_bit 52 (ucast (l2 h))) OR push_bit 78 (ucast (l3 h))) OR push_bit 104 (ucast ?t)
    = (of_nat (?c + 2 ^ 104 * unat ?t) :: u128)"
  proof -
    have 1: "ucast (l0 h) OR push_bit 26 (ucast (l1 h)) = (of_nat ?a :: u128)" by (rule or_shift[OF 0 b(1)]) simp
    have 2: "(ucast (l0 h) OR push_bit 26 (ucast (l1 h))) OR push_bit 52 (ucast (l2 h)) = (of_nat ?b :: u128)"
      by (rule or_shift[OF 1 l(1)]) simp
    have 3: "((ucast (l0 h) OR push_bit 26 (ucast (l1 h))) OR push_bit 52 (ucast (l2 h))) OR push_bit 78 (ucast (l3 h))
      = (of_nat ?c :: u128)" by (rule or_shift[OF 2 l(2)]) simp
    show ?thesis by (rule or_shift[OF 3 l(3)]) simp
  qed
  moreover have "unat ?t = unat (l4 h) mod 2 ^ 24" unfolding t by (rule take_bit_eq_mod)
  ultimately have f: "poly1305_finish h s = to_le_bytes (of_nat (?c + 2 ^ 104 * (unat (l4 h) mod 2 ^ 24)) + s)"
    by (simp only: poly1305_finish_def Let_def or.assoc)
  let ?m = "?c + 2 ^ 104 * (unat (l4 h) mod 2 ^ 24) + unat s"
  have "of_nat (?c + 2 ^ 104 * (unat (l4 h) mod 2 ^ 24)) + s = (of_nat ?m :: u128)" by simp
  then have "poly1305_finish h s = nat_to_le 16 (?m mod 2 ^ 128)"
    unfolding f by (simp only: to_le_bytes_def unat_of_nat) simp
  also have "?m mod 2 ^ 128 = (limbs_value h + unat s) mod 2 ^ 128"
  proof -
    have "limbs_value h + unat s = ?m + 2 ^ 128 * (unat (l4 h) div 2 ^ 24)"
    proof -
      have "y = 2 ^ 24 * q + m \<Longrightarrow> 2 ^ 104 * y = 2 ^ 104 * m + 2 ^ 128 * q" for y q m :: nat by simp
      from this[OF mult_div_mod_eq[symmetric]] have "2 ^ 104 * y = 2 ^ 104 * (y mod 2 ^ 24) + 2 ^ 128 * (y div 2 ^ 24)" for y :: nat .
      from this[of "unat (l4 h)"] show ?thesis unfolding limbs_value_def by simp
    qed
    then show ?thesis by (simp only: mod_mult_self2)
  qed
  also have "(2 :: nat) ^ 128 = 256 ^ 16" by simp
  finally show ?thesis by (simp only: nat_to_le_mod)
qed

lemma split_32:
  fixes n :: nat
  assumes "n < 2 ^ 128"
  shows "n mod 2 ^ 32 + 2 ^ 32 * (n div 2 ^ 32 mod 2 ^ 32) + 2 ^ 64 * (n div 2 ^ 64 mod 2 ^ 32) + 2 ^ 96 * (n div 2 ^ 96 mod 2 ^ 32) = n"
proof -
  have s: "n div 2 ^ k = n div 2 ^ k mod 2 ^ 32 + 2 ^ 32 * (n div 2 ^ (k + 32))" for k
    using mult_div_mod_eq[of "2 ^ 32" "n div 2 ^ k"] by (simp only: power_add div_mult2_eq add.commute)
  have z: "n div 2 ^ (96 + 32) = 0" using assms by simp
  have j: "x0 + 2 ^ 32 * x1 + 2 ^ 64 * x2 + 2 ^ 96 * x3 = n"
    if "n = x0 + 2 ^ 32 * q1" "q1 = x1 + 2 ^ 32 * q2" "q2 = x2 + 2 ^ 32 * q3" "q3 = x3 + 2 ^ 32 * q4" "q4 = 0" for x0 x1 x2 x3 q1 q2 q3 q4
    using that by simp
  show ?thesis
    using j[OF mod_mult_div_eq[symmetric, of n "2 ^ 32"] s[of 32, simplified numeral_plus_numeral semiring_norm]
        s[of 64, simplified numeral_plus_numeral semiring_norm] s[of 96] z] .
qed

lemma load_secret:
  assumes "length s = 16"
  shows "ucast (load_u32 s 0) OR push_bit 32 (ucast (load_u32 s 1)) OR push_bit 64 (ucast (load_u32 s 2))
           OR push_bit 96 (ucast (load_u32 s 3)) = (of_nat (le_to_nat s) :: u128)"
proof -
  let ?n = "le_to_nat s"
  have n: "?n < 2 ^ 128" using le_to_nat_bound[of s] assms by simp
  have l: "unat (load_u32 s i) = ?n div 2 ^ (32 * i) mod 2 ^ 32" if "i < 4" for i
  proof -
    have "unat (load_u32 s i) = ?n div 256 ^ (4 * i) mod 2 ^ 32"
      unfolding load_u32_def by (rule load_at) (use assms that in simp)
    moreover have "(256 :: nat) ^ (4 * i) = 2 ^ (32 * i)" using power_mult[of "2 :: nat" 8 "4 * i"] by simp
    ultimately show ?thesis by (simp only:)
  qed
  have b: "unat (load_u32 s i) < 2 ^ 32" for i using unsigned_less[of "load_u32 s i", where ?'a = nat] by simp
  have 0: "ucast (load_u32 s 0) = (of_nat (unat (load_u32 s 0)) :: u128)" by (simp add: of_nat_unat)
  let ?a = "unat (load_u32 s 0) + 2 ^ 32 * unat (load_u32 s 1)"
  let ?b = "?a + 2 ^ 64 * unat (load_u32 s 2)"
  have lt: "?a < 2 ^ 64" "?b < 2 ^ 96" using b[of 0] b[of 1] b[of 2] by simp_all
  have 1: "ucast (load_u32 s 0) OR push_bit 32 (ucast (load_u32 s 1)) = (of_nat ?a :: u128)" by (rule or_shift[OF 0 b]) simp
  have 2: "(ucast (load_u32 s 0) OR push_bit 32 (ucast (load_u32 s 1))) OR push_bit 64 (ucast (load_u32 s 2)) = (of_nat ?b :: u128)"
    by (rule or_shift[OF 1 lt(1)]) simp
  have "((ucast (load_u32 s 0) OR push_bit 32 (ucast (load_u32 s 1))) OR push_bit 64 (ucast (load_u32 s 2)))
      OR push_bit 96 (ucast (load_u32 s 3)) = (of_nat (?b + 2 ^ 96 * unat (load_u32 s 3)) :: u128)"
    by (rule or_shift[OF 2 lt(2)]) simp
  also have "?b + 2 ^ 96 * unat (load_u32 s 3) = ?n"
    using split_32[OF n] l[of 0] l[of 1] l[of 2] l[of 3] by simp
  finally show ?thesis by (simp only: or.assoc)
qed

definition poly1305_accumulator :: "byte list \<Rightarrow> byte list \<Rightarrow> limbs" where
  "poly1305_accumulator r msg = poly1305_blocks (load_limbs r) msg \<lparr> l0 = 0, l1 = 0, l2 = 0, l3 = 0, l4 = 0 \<rparr>"

lemma accumulator_value:
  assumes "length r = 16"
  shows "limbs_ok (poly1305_accumulator r msg) \<and>
    limbs_value (poly1305_accumulator r msg) mod poly_p = rfc_accumulator (le_to_nat r) msg 0 mod poly_p"
  using blocks_value[OF load_limbs_ok, of r "\<lparr> l0 = 0, l1 = 0, l2 = 0, l3 = 0, l4 = 0 \<rparr>" msg] load_limbs_value[of r] assms
  by (simp add: poly1305_accumulator_def limbs_ok_def limbs_value_def)

lemma rfc_accumulator_less: "a < poly_p \<Longrightarrow> rfc_accumulator r msg a < poly_p"
proof (induction r msg a rule: rfc_accumulator.induct)
  case (1 r msg a)
  then show ?case by (simp add: rfc_accumulator.simps[of r msg a] poly_p_def)
qed

lemma keystream_loop_length: "length out \<le> len \<Longrightarrow> length (keystream_loop key nonce len counter out) = len"
proof (induction key nonce len counter out rule: keystream_loop.induct)
  case (1 key nonce len counter out)
  then show ?case by (simp add: keystream_loop.simps[of key nonce len counter out])
qed

lemma length_xchacha20_keystream [simp]: "length (xchacha20_keystream key nonce counter len) = len"
  by (simp add: xchacha20_keystream_def chacha20_keystream_def keystream_loop_length)

lemma length_xchacha20_encrypt [simp]: "length (xchacha20_encrypt key nonce msg) = length msg"
  by (simp add: xchacha20_encrypt_def)

lemma xchacha20_involution: "xchacha20_encrypt key nonce (xchacha20_encrypt key nonce msg) = msg"
proof (rule nth_equalityI)
  fix i assume "i < length (xchacha20_encrypt key nonce (xchacha20_encrypt key nonce msg))"
  then have i: "i < length msg" by simp
  have e: "xchacha20_encrypt key nonce m ! i = m ! i XOR xchacha20_keystream key nonce 1 (length m) ! i" if "i < length m" for m
    using that by (simp add: xchacha20_encrypt_def)
  show "xchacha20_encrypt key nonce (xchacha20_encrypt key nonce msg) ! i = msg ! i"
    using i by (simp add: e xor.assoc)
qed simp

lemma xor_zero: "l XOR r = 0 \<longleftrightarrow> l = (r :: byte)"
proof
  assume "l XOR r = 0"
  then have "(l XOR r) XOR r = 0 XOR r" by (rule arg_cong)
  then show "l = r" by (simp only: xor.assoc xor_self_eq xor.left_neutral xor.right_neutral)
qed simp

lemma constant_time_eq_iff: "constant_time_eq xs ys \<longleftrightarrow> xs = ys"
proof -
  have "fold (\<lambda>(l, r) diff. diff OR (l XOR r)) ps d = 0 \<longleftrightarrow> d = 0 \<and> (\<forall>(l, r)\<in>set ps. l = r)" for ps and d :: byte
  proof (induction ps arbitrary: d)
    case (Cons p ps)
    obtain l r where p: "p = (l, r)" by (cases p)
    have "d OR (l XOR r) = 0 \<longleftrightarrow> d = 0 \<and> l = r" by (simp only: or_eq_0_iff xor_zero)
    then show ?case using Cons.IH[of "d OR (l XOR r)"] by (simp add: p)
  qed simp
  then show ?thesis
    by (auto simp: constant_time_eq_def list_eq_iff_zip_eq)
qed

lemma length_poly1305_finish: "length (poly1305_finish h s) = 16"
  by (simp only: poly1305_finish_def Let_def length_to_le_bytes) simp

lemma length_poly1305_tag [simp]: "length (poly1305_tag key nonce c aad) = 16"
  by (simp only: poly1305_tag_def poly1305_def poly1305_mac_def Let_def length_poly1305_finish)

text \<open>
  C32: the authenticator. After every message the five limbs are in range and hold the accumulator of
  RFC 8439 modulo \<open>2 ^ 130 - 5\<close>, so no product or carry overflows; and the tag is the tag of the RFC
  whenever the accumulator is fully reduced.
\<close>

theorem poly1305_refines_rfc:
  assumes "length r = 16" and "length s = 16"
  shows "limbs_ok (poly1305_accumulator r msg) \<and>
    limbs_value (poly1305_accumulator r msg) mod poly_p = rfc_accumulator (le_to_nat r) msg 0 \<and>
    (limbs_value (poly1305_accumulator r msg) < poly_p \<and> unat (l2 (poly1305_accumulator r msg)) < 2 ^ 26 \<longrightarrow>
      poly1305_mac r s msg = rfc_poly1305 r s msg)"
proof -
  define h where "h = poly1305_accumulator r msg"
  have v: "limbs_ok h" "limbs_value h mod poly_p = rfc_accumulator (le_to_nat r) msg 0"
    using accumulator_value[OF assms(1), of msg] rfc_accumulator_less[of 0 "le_to_nat r" msg]
    by (simp_all add: h_def) (simp add: poly_p_def)
  have "poly1305_mac r s msg = poly1305_finish h (of_nat (le_to_nat s))"
    by (simp only: poly1305_mac_def Let_def load_secret[OF assms(2)] h_def poly1305_accumulator_def)
  moreover have "unat (of_nat (le_to_nat s) :: u128) = le_to_nat s"
    using le_to_nat_bound[of s] assms(2) by (simp add: unat_of_nat)
  ultimately show ?thesis using v finish_value[OF v(1), of "of_nat (le_to_nat s)"] by (auto simp: rfc_poly1305_def h_def)
qed

text \<open>The two vectors, limb by limb.\<close>

abbreviation tv7_key :: "byte list" where "tv7_key \<equiv> [2, 0, 0, 0, 0, 0, 0, 0, 0, 0, 0, 0, 0, 0, 0, 0]"
abbreviation tv8_key :: "byte list" where "tv8_key \<equiv> [1, 0, 0, 0, 0, 0, 0, 0, 0, 0, 0, 0, 0, 0, 0, 0]"
abbreviation tv_block :: "byte list" where "tv_block \<equiv> [255, 255, 255, 255, 255, 255, 255, 255, 255, 255, 255, 255, 255, 255, 255, 255]"
abbreviation tv8_msg :: "byte list" where
  "tv8_msg \<equiv> tv_block @ [251, 254, 254, 254, 254, 254, 254, 254, 254, 254, 254, 254, 254, 254, 254, 254] @ [1, 1, 1, 1, 1, 1, 1, 1, 1, 1, 1, 1, 1, 1, 1, 1]"
abbreviation tv_secret :: "byte list" where "tv_secret \<equiv> [0, 0, 0, 0, 0, 0, 0, 0, 0, 0, 0, 0, 0, 0, 0, 0]"

lemma tv_steps:
  "poly1305_accumulate (load_limbs tv7_key) (tv_block @ [1]) \<lparr> l0 = 0, l1 = 0, l2 = 0, l3 = 0, l4 = 0 \<rparr> = \<lparr> l0 = 67108862, l1 = 67108863, l2 = 67108863, l3 = 67108863, l4 = 67108863 \<rparr>"
  "poly1305_accumulate (load_limbs tv8_key) ([255, 255, 255, 255, 255, 255, 255, 255, 255, 255, 255, 255, 255, 255, 255, 255] @ [1]) \<lparr> l0 = 0, l1 = 0, l2 = 0, l3 = 0, l4 = 0 \<rparr> = \<lparr> l0 = 67108863, l1 = 67108863, l2 = 67108863, l3 = 67108863, l4 = 33554431 \<rparr>"
  "poly1305_accumulate (load_limbs tv8_key) ([251, 254, 254, 254, 254, 254, 254, 254, 254, 254, 254, 254, 254, 254, 254, 254] @ [1]) \<lparr> l0 = 67108863, l1 = 67108863, l2 = 67108863, l3 = 67108863, l4 = 33554431 \<rparr> = \<lparr> l0 = 50265850, l1 = 62898111, l2 = 66056175, l3 = 66845691, l4 = 67043070 \<rparr>"
  "poly1305_accumulate (load_limbs tv8_key) ([1, 1, 1, 1, 1, 1, 1, 1, 1, 1, 1, 1, 1, 1, 1, 1] @ [1]) \<lparr> l0 = 50265850, l1 = 62898111, l2 = 66056175, l3 = 66845691, l4 = 67043070 \<rparr> = \<lparr> l0 = 0, l1 = 0, l2 = 67108864, l3 = 67108863, l4 = 16777215 \<rparr>"
  by (simp_all add: poly1305_accumulate_def load_limbs_def from_le_bytes_def limb_products.simps limb_carry.simps LIMB_MASK_def)

lemma tv_accumulators:
  "poly1305_accumulator tv7_key tv_block = \<lparr> l0 = 67108862, l1 = 67108863, l2 = 67108863, l3 = 67108863, l4 = 67108863 \<rparr>"
  "poly1305_accumulator tv8_key tv8_msg = \<lparr> l0 = 0, l1 = 0, l2 = 67108864, l3 = 67108863, l4 = 16777215 \<rparr>"
proof -
  have full: "poly1305_blocks r (b @ msg) h = poly1305_blocks r msg (poly1305_accumulate r (b @ [1]) h)" if "length b = 16" for r b msg h
    using that by (simp add: poly1305_blocks.simps[of r "b @ msg" h])
  have stop: "poly1305_blocks r [] h = h" for r h by (simp add: poly1305_blocks.simps)
  note z = poly1305_accumulator_def
  have len: "length tv_block = 16" "length ([251, 254, 254, 254, 254, 254, 254, 254, 254, 254, 254, 254, 254, 254, 254, 254] :: byte list) = 16" "length ([1, 1, 1, 1, 1, 1, 1, 1, 1, 1, 1, 1, 1, 1, 1, 1] :: byte list) = 16"
    by simp_all
  note last = full[where msg = "[]", unfolded append_Nil2 stop]
  show "poly1305_accumulator tv7_key tv_block = \<lparr> l0 = 67108862, l1 = 67108863, l2 = 67108863, l3 = 67108863, l4 = 67108863 \<rparr>"
    by (simp only: z last[OF len(1)] tv_steps)
  show "poly1305_accumulator tv8_key tv8_msg = \<lparr> l0 = 0, l1 = 0, l2 = 67108864, l3 = 67108863, l4 = 16777215 \<rparr>"
    by (simp only: z full[OF len(1)] full[OF len(2)] last[OF len(3)] tv_steps)
qed

lemma tv_mac: "poly1305_mac r tv_secret msg = poly1305_finish (poly1305_accumulator r msg) 0"
proof -
  have "load_u32 tv_secret 0 = 0" "load_u32 tv_secret 1 = 0" "load_u32 tv_secret 2 = 0" "load_u32 tv_secret 3 = 0"
    by (simp_all add: load_u32_def from_le_bytes_def)
  then show ?thesis by (simp add: poly1305_mac_def poly1305_accumulator_def)
qed

lemma nat_to_le_numeral: "nat_to_le (numeral k) v = of_nat v # nat_to_le (pred_numeral k) (v div 256)"
  by (subst numeral_eq_Suc) (rule nat_to_le.simps(2))

lemma tv_bytes:
  "nat_to_le 16 340282366920938463463374607431768211454 = [254, 255, 255, 255, 255, 255, 255, 255, 255, 255, 255, 255, 255, 255, 255, 255]"
  "nat_to_le 16 340282366920938161231919703774474534912 = [0, 0, 0, 0, 0, 0, 0, 0, 0, 192, 255, 255, 255, 255, 255, 255]"
  by (simp_all add: nat_to_le_numeral)

text \<open>
  The accumulator is not always reduced. On test vector 7 of RFC 8439, appendix A.3, the code
  returns \<open>fe ff .. ff\<close> where the RFC has \<open>03 00 .. 00\<close>, and on vector 8 the carry left in the middle
  limb is lost in the composition of the tag, which should be zero.
\<close>

theorem poly1305_unreduced_tags:
  "poly1305_mac tv7_key tv_secret tv_block = [254, 255, 255, 255, 255, 255, 255, 255, 255, 255, 255, 255, 255, 255, 255, 255] \<and>
   rfc_poly1305 tv7_key tv_secret tv_block = [3, 0, 0, 0, 0, 0, 0, 0, 0, 0, 0, 0, 0, 0, 0, 0] \<and>
   poly1305_mac tv8_key tv_secret tv8_msg = [0, 0, 0, 0, 0, 0, 0, 0, 0, 192, 255, 255, 255, 255, 255, 255] \<and>
   rfc_poly1305 tv8_key tv_secret tv8_msg = [0, 0, 0, 0, 0, 0, 0, 0, 0, 0, 0, 0, 0, 0, 0, 0]"
proof (intro conjI)
  show "poly1305_mac tv7_key tv_secret tv_block = [254, 255, 255, 255, 255, 255, 255, 255, 255, 255, 255, 255, 255, 255, 255, 255]"
    unfolding tv_mac tv_accumulators tv_bytes(1)[symmetric] by (simp add: poly1305_finish_def to_le_bytes_def)
  show "poly1305_mac tv8_key tv_secret tv8_msg = [0, 0, 0, 0, 0, 0, 0, 0, 0, 192, 255, 255, 255, 255, 255, 255]"
    unfolding tv_mac tv_accumulators tv_bytes(2)[symmetric] by (simp add: poly1305_finish_def to_le_bytes_def)
  show "rfc_poly1305 tv7_key tv_secret tv_block = [3, 0, 0, 0, 0, 0, 0, 0, 0, 0, 0, 0, 0, 0, 0, 0]"
    by (simp add: rfc_poly1305_def rfc_accumulator.simps poly_p_def nat_to_le_numeral)
  show "rfc_poly1305 tv8_key tv_secret tv8_msg = [0, 0, 0, 0, 0, 0, 0, 0, 0, 0, 0, 0, 0, 0, 0, 0]"
    by (simp add: rfc_poly1305_def rfc_accumulator.simps poly_p_def nat_to_le_numeral)
qed

theorem poly1305_refines_rfc_witness:
  "poly1305_mac tv8_key tv_secret [7] = rfc_poly1305 tv8_key tv_secret [7] \<and>
   rfc_poly1305 tv8_key tv_secret [7] = [7, 1, 0, 0, 0, 0, 0, 0, 0, 0, 0, 0, 0, 0, 0, 0]"
proof
  have a: "poly1305_accumulator tv8_key [7] = \<lparr> l0 = 263, l1 = 0, l2 = 0, l3 = 0, l4 = 0 \<rparr>"
    by (simp add: poly1305_accumulator_def poly1305_blocks.simps poly1305_accumulate_def load_limbs_def from_le_bytes_def
        limb_products.simps limb_carry.simps LIMB_MASK_def le_to_nat_zeros[of "[]", simplified])
  show "poly1305_mac tv8_key tv_secret [7] = rfc_poly1305 tv8_key tv_secret [7]"
    using poly1305_refines_rfc[of tv8_key tv_secret "[7]"] by (simp add: a limbs_value_def poly_p_def)
  show "rfc_poly1305 tv8_key tv_secret [7] = [7, 1, 0, 0, 0, 0, 0, 0, 0, 0, 0, 0, 0, 0, 0, 0]"
    by (simp add: rfc_poly1305_def rfc_accumulator.simps poly_p_def nat_to_le_numeral)
qed

text \<open>The quarter round on the vector of RFC 8439, section 2.1.1.\<close>

lemma quarter_round_vector:
  "quarter_round 0 1 2 3 [0x11111111, 0x01020304, 0x9b8d6f43, 0x01234567] = [0xea2a92f4, 0xcb1cf8ce, 0x4581472e, 0x5881c4bb]"
  by code_simp

lemma aead_decrypt_iff:
  "aead_decrypt key nonce frame aad = Some msg \<longleftrightarrow> frame = aead_encrypt key nonce msg aad"
proof
  assume d: "aead_decrypt key nonce frame aad = Some msg"
  let ?k = "length frame - 16"
  have "16 \<le> length frame" "poly1305_tag key nonce (take ?k frame) aad = drop ?k frame"
    "msg = xchacha20_encrypt key nonce (take ?k frame)"
    using d by (auto simp: aead_decrypt_def AEAD_TAG_LEN_def Let_def constant_time_eq_iff xchacha20_decrypt_def split: if_splits)
  then show "frame = aead_encrypt key nonce msg aad"
    by (simp add: aead_encrypt_def xchacha20_involution Let_def)
next
  assume "frame = aead_encrypt key nonce msg aad"
  then show "aead_decrypt key nonce frame aad = Some msg"
    by (simp add: aead_decrypt_def aead_encrypt_def AEAD_TAG_LEN_def constant_time_eq_iff xchacha20_decrypt_def xchacha20_involution
        Let_def)
qed

text \<open>
  C33: sealing is canonical. For a key, a nonce and associated data, \<open>decrypt\<close> accepts exactly the bytes
  \<open>encrypt\<close> makes of the message it returns: any other ciphertext, tag or length is refused.
\<close>

theorem aead_exact:
  "aead_decrypt key nonce frame aad = Some msg \<longleftrightarrow> frame = aead_encrypt key nonce msg aad"
  by (rule aead_decrypt_iff)

end
