(* ===== verification/EncryptedFrame.thy ===== *)
theory EncryptedFrame
  imports Compression AeadProofs
begin

text \<open>
  \<^verbatim>\<open>src/encryption.rs\<close>: the authenticated frame around the self-describing profile and its compressed
  form, in a build without the \<^verbatim>\<open>cbor\<close> feature. The random source is what \<^verbatim>\<open>fill_os_random\<close> leaves in the
  nonce, or \<open>None\<close> when it fails. A key is its 32 bytes; that keys and plaintexts are cleared when dropped
  is not an effect the model sees.
\<close>

section \<open>Configuration\<close>

definition EF_MAGIC :: "byte list" where "EF_MAGIC = [0x52, 0x42, 0x58, 0x31]"
definition EF_VERSION :: u16 where "EF_VERSION = 1"
definition ALGORITHM_XCHACHA20_POLY1305 :: u16 where "ALGORITHM_XCHACHA20_POLY1305 = 1"
definition NONCE_LEN :: nat where "NONCE_LEN = 24"
definition EF_HEADER_LEN :: nat where "EF_HEADER_LEN = 48"

lemmas ef_consts [simp] = EF_MAGIC_def EF_VERSION_def ALGORITHM_XCHACHA20_POLY1305_def NONCE_LEN_def EF_HEADER_LEN_def AEAD_TAG_LEN_def

datatype payload_format = BinaryPayload config | CompressedPayload compressed_config

record encrypted_config =
  ef_payload :: payload_format
  ef_key :: "byte list"
  ef_limit :: "nat option"


definition ef_binary :: "config \<Rightarrow> byte list \<Rightarrow> encrypted_config" where
  "ef_binary cfg key = \<lparr> ef_payload = BinaryPayload cfg, ef_key = key, ef_limit = c_limit cfg \<rparr>"


definition with_plaintext_limit :: "nat \<Rightarrow> encrypted_config \<Rightarrow> encrypted_config" where
  "with_plaintext_limit limit c = c\<lparr>ef_limit := Some limit\<rparr>"


definition deserialize_payload :: "encrypted_config \<Rightarrow> (decoder, 'a) op \<Rightarrow> byte list \<Rightarrow> error + 'a" where
  "deserialize_payload c T payload =
    (case ef_payload c of BinaryPayload cfg \<Rightarrow> from_slice cfg T payload | CompressedPayload z \<Rightarrow> cz_deserialize z T payload)"

definition ef_trailing_policy :: "encrypted_config \<Rightarrow> trailing" where
  "ef_trailing_policy c = (case ef_payload c of BinaryPayload cfg \<Rightarrow> c_trailing cfg | CompressedPayload z \<Rightarrow> c_trailing (zc_payload z))"

definition enforce_plaintext_limit :: "encrypted_config \<Rightarrow> nat \<Rightarrow> error + unit" where
  "enforce_plaintext_limit c len = check_limit (ef_limit c) len"

section \<open>The frame\<close>

definition ef_header :: "byte list \<Rightarrow> nat \<Rightarrow> nat \<Rightarrow> byte list" where
  "ef_header nonce plaintext_len ciphertext_len =
    EF_MAGIC @ to_le_bytes EF_VERSION @ to_le_bytes ALGORITHM_XCHACHA20_POLY1305 @ nonce @
    to_le_bytes (of_nat plaintext_len :: u64) @ to_le_bytes (of_nat ciphertext_len :: u64)"

definition ef_parse_header :: "byte list \<Rightarrow> error + (byte list \<times> nat \<times> nat)" where
  "ef_parse_header header =
    (if length header \<noteq> EF_HEADER_LEN \<or> take 4 header \<noteq> EF_MAGIC then Inl (InvalidFrame ''bad encryption header'')
     else if from_le_bytes (take 2 (drop 4 header)) \<noteq> EF_VERSION
       then Inl (InvalidFrame ''unsupported encryption frame version'')
     else if from_le_bytes (take 2 (drop 6 header)) \<noteq> ALGORITHM_XCHACHA20_POLY1305
       then Inl (InvalidFrame ''unsupported encryption algorithm'')
     else let nonce = take NONCE_LEN (drop 8 header);
              plaintext_len = unat (from_le_bytes (take 8 (drop 32 header)) :: u64);
              ciphertext_len = unat (from_le_bytes (take 8 (drop 40 header)) :: u64) in
       if plaintext_len + AEAD_TAG_LEN > usize_max \<or> plaintext_len + AEAD_TAG_LEN \<noteq> ciphertext_len
       then Inl (InvalidFrame ''AEAD ciphertext length does not match plaintext length'')
       else Inr (nonce, plaintext_len, ciphertext_len))"

definition ef_parse_frame :: "byte list \<Rightarrow> trailing \<Rightarrow> error + (byte list \<times> nat \<times> byte list)" where
  "ef_parse_frame input policy =
    rbind (ok_or UnexpectedEnd (slice 0 EF_HEADER_LEN input)) (\<lambda>header.
    rbind (ef_parse_header header) (\<lambda>(nonce, plaintext_len, ciphertext_len).
    rbind (if EF_HEADER_LEN + ciphertext_len > usize_max then Inl UnexpectedEnd else Inr (EF_HEADER_LEN + ciphertext_len)) (\<lambda>end.
    rbind (ok_or UnexpectedEnd (slice EF_HEADER_LEN end input)) (\<lambda>ciphertext.
    if policy = Reject \<and> end \<noteq> length input then Inl (TrailingBytesError (length input - end))
    else Inr (nonce, plaintext_len, ciphertext)))))"


definition ef_deserialize :: "encrypted_config \<Rightarrow> (decoder, 'a) op \<Rightarrow> byte list \<Rightarrow> error + 'a" where
  "ef_deserialize c T input =
    rbind (ok_or UnexpectedEnd (slice 0 EF_HEADER_LEN input)) (\<lambda>header.
    rbind (ef_parse_header header) (\<lambda>(_, declared_plaintext_len, _).
    rbind (enforce_plaintext_limit c declared_plaintext_len) (\<lambda>_.
    rbind (ef_parse_frame input (ef_trailing_policy c)) (\<lambda>(nonce, plaintext_len, ciphertext).
    rbind (ok_or Encryption (aead_decrypt (ef_key c) nonce ciphertext header)) (\<lambda>plaintext.
      if length plaintext \<noteq> plaintext_len then Inl (InvalidFrame ''AEAD plaintext length mismatch'')
      else deserialize_payload c T plaintext)))))"


section \<open>What a header says\<close>

definition sealed_frame :: "byte list \<Rightarrow> byte list \<Rightarrow> byte list \<Rightarrow> byte list" where
  "sealed_frame key nonce plaintext =
    (let header = ef_header nonce (length plaintext) (length plaintext + 16)
     in header @ aead_encrypt key nonce plaintext header)"

definition ef_lengths_ok :: "byte list \<Rightarrow> nat \<Rightarrow> nat \<Rightarrow> bool" where
  "ef_lengths_ok nonce p n \<longleftrightarrow> length nonce = 24 \<and> n = p + 16 \<and> n \<le> usize_max"

lemma length_ef_header: "length (ef_header nonce p n) = 24 + length nonce"
  by (simp add: ef_header_def)

lemma ef_header_fields:
  assumes "length nonce = 24"
  shows "take 4 (ef_header nonce p n) = EF_MAGIC" "take 2 (drop 4 (ef_header nonce p n)) = to_le_bytes EF_VERSION"
    "take 2 (drop 6 (ef_header nonce p n)) = to_le_bytes ALGORITHM_XCHACHA20_POLY1305"
    "take 24 (drop 8 (ef_header nonce p n)) = nonce"
    "take 8 (drop 32 (ef_header nonce p n)) = to_le_bytes (of_nat p :: u64)"
    "drop 40 (ef_header nonce p n) = to_le_bytes (of_nat n :: u64)"
  using assms by (simp_all add: ef_header_def)

lemma ef_parse_header_header:
  assumes "ef_lengths_ok nonce p n"
  shows "ef_parse_header (ef_header nonce p n) = Inr (nonce, p, n)"
proof -
  have n: "length nonce = 24" "unat (of_nat p :: u64) = p" "unat (of_nat n :: u64) = n" "p + 16 = n" "n \<le> usize_max"
    using assms unat_u64[of p] unat_u64[of n] by (simp_all add: ef_lengths_ok_def)
  show ?thesis using n(2-5) by (simp add: ef_parse_header_def ef_header_fields[OF n(1)] length_ef_header[of nonce] n(1) Let_def)
qed

lemma split_header_48:
  assumes "length h = 48"
  shows "h = take 4 h @ take 2 (drop 4 h) @ take 2 (drop 6 h) @ take 24 (drop 8 h) @ take 8 (drop 32 h) @ take 8 (drop 40 h)"
proof -
  have a: "h = take 4 h @ drop 4 h" "drop 4 h = take 2 (drop 4 h) @ drop 6 h" "drop 6 h = take 2 (drop 6 h) @ drop 8 h"
    "drop 8 h = take 24 (drop 8 h) @ drop 32 h" "drop 32 h = take 8 (drop 32 h) @ drop 40 h" "drop 40 h = take 8 (drop 40 h)"
    using assms append_take_drop_id[of 2 "drop 4 h"] append_take_drop_id[of 2 "drop 6 h"] append_take_drop_id[of 24 "drop 8 h"]
      append_take_drop_id[of 8 "drop 32 h"]
    by simp_all
  show ?thesis using a by metis
qed

lemma ef_parse_header_Inr:
  assumes "ef_parse_header h = Inr (nonce, p, n)"
  shows "h = ef_header nonce p n \<and> ef_lengths_ok nonce p n"
proof -
  let ?p = "from_le_bytes (take 8 (drop 32 h)) :: u64" and ?n = "from_le_bytes (take 8 (drop 40 h)) :: u64"
  have h: "length h = 48" "take 4 h = EF_MAGIC" "from_le_bytes (take 2 (drop 4 h)) = EF_VERSION"
    "from_le_bytes (take 2 (drop 6 h)) = ALGORITHM_XCHACHA20_POLY1305"
    and f: "nonce = take 24 (drop 8 h)" "p = unat ?p" "n = unat ?n" "p + 16 = n" "n \<le> usize_max"
    using assms by (auto simp: ef_parse_header_def Let_def simp del: length_take length_drop split: if_splits)
  have b: "to_le_bytes EF_VERSION = take 2 (drop 4 h)" "to_le_bytes ALGORITHM_XCHACHA20_POLY1305 = take 2 (drop 6 h)"
    "to_le_bytes ?p = take 8 (drop 32 h)" "to_le_bytes ?n = take 8 (drop 40 h)"
    using h(1) unfolding h(3,4)[symmetric] by (simp_all add: to_from_le_bytes)
  have "h = ef_header nonce p n"
    using split_header_48[OF h(1)] h(2) b f by (simp add: ef_header_def)
  then show ?thesis using f h(1) by (simp add: ef_lengths_ok_def)
qed

lemma length_aead_encrypt: "length (aead_encrypt key nonce msg aad) = length msg + 16"
  by (simp add: aead_encrypt_def Let_def)

lemma length_sealed_frame: "length nonce = 24 \<Longrightarrow> length (sealed_frame key nonce p) = 64 + length p"
  by (simp add: sealed_frame_def Let_def length_ef_header length_aead_encrypt)

section \<open>What is accepted\<close>

definition frame_admitted :: "encrypted_config \<Rightarrow> byte list \<Rightarrow> byte list \<Rightarrow> bool" where
  "frame_admitted c nonce p \<longleftrightarrow> length nonce = 24 \<and> 64 + length p \<le> usize_max \<and> within (ef_limit c) (length p)"

lemma ef_deserialize_sealed:
  assumes "frame_admitted c nonce p"
  shows "ef_deserialize c T (sealed_frame (ef_key c) nonce p @ rest) =
    (if ef_trailing_policy c = Reject \<and> rest \<noteq> [] then Inl (TrailingBytesError (length rest))
     else deserialize_payload c T p)"
proof -
  let ?h = "ef_header nonce (length p) (length p + 16)" and ?c = "aead_encrypt (ef_key c) nonce p (ef_header nonce (length p) (length p + 16))"
  have n: "length nonce = 24" "ef_lengths_ok nonce (length p) (length p + 16)" and l: "within (ef_limit c) (length p)"
    using assms by (simp_all add: frame_admitted_def ef_lengths_ok_def)
  have h: "slice 0 48 (?h @ ?c @ rest) = Some ?h"
    using slice_append[of "[]" ?h] n(1) by (simp add: length_ef_header)
  have s: "slice 48 (48 + (length p + 16)) (?h @ ?c @ rest) = Some ?c"
    using slice_append[of ?h ?c rest] n(1) by (simp only: length_ef_header length_aead_encrypt) simp
  have d: "aead_decrypt (ef_key c) nonce ?c ?h = Some p" by (simp add: aead_decrypt_iff)
  have f: "sealed_frame (ef_key c) nonce p @ rest = ?h @ ?c @ rest" by (simp add: sealed_frame_def Let_def)
  have e: "length (?h @ ?c @ rest) = 48 + (length p + 16) + length rest"
    using n(1) by (simp add: length_ef_header length_aead_encrypt)
  show ?thesis unfolding f using assms h s d e ef_parse_header_header[OF n(2)] l
    by (simp add: ef_deserialize_def ef_parse_frame_def enforce_plaintext_limit_def check_limit_if frame_admitted_def
        length_ef_header length_aead_encrypt)
qed

lemma ef_deserialize_Inr:
  assumes "ef_deserialize c T input = Inr v"
  obtains nonce p rest where "input = sealed_frame (ef_key c) nonce p @ rest" and "frame_admitted c nonce p"
    and "ef_trailing_policy c = Reject \<longrightarrow> rest = []" and "deserialize_payload c T p = Inr v"
proof -
  obtain h nonce0 p0 n0 nonce p1 ct p where h: "slice 0 48 input = Some h" "ef_parse_header h = Inr (nonce0, p0, n0)" "within (ef_limit c) p0"
    and f: "ef_parse_frame input (ef_trailing_policy c) = Inr (nonce, p1, ct)"
    and d: "aead_decrypt (ef_key c) nonce ct h = Some p" "length p = p1" "deserialize_payload c T p = Inr v"
    using assms by (auto simp: ef_deserialize_def rbind_eq_Inr enforce_plaintext_limit_def split: if_splits)
  have e: "nonce = nonce0" "p1 = p0" "48 + n0 \<le> usize_max" "slice 48 (48 + n0) input = Some ct"
    "ef_trailing_policy c = Reject \<longrightarrow> 48 + n0 = length input"
    using f h(1,2) by (auto simp: ef_parse_frame_def rbind_eq_Inr split: if_splits)
  have hd: "h = ef_header nonce p1 n0" "ef_lengths_ok nonce p1 n0" using ef_parse_header_Inr[OF h(2)] e(1,2) by simp_all
  have c: "ct = aead_encrypt (ef_key c) nonce p h" using d(1) by (simp add: aead_decrypt_iff)
  have s: "h = take 48 input" "ct = take n0 (drop 48 input)" "48 + n0 \<le> length input" using h(1) e(4) by (auto simp: slice_eq_Some)
  have "input = h @ ct @ drop (48 + n0) input"
    using s(1,2) by (metis append_assoc append_take_drop_id take_add)
  then have i: "input = sealed_frame (ef_key c) nonce p @ drop (48 + n0) input"
    using hd c d(2) by (simp add: sealed_frame_def Let_def ef_lengths_ok_def)
  have a: "frame_admitted c nonce p" using hd(2) e(2,3) h(3) d(2) by (simp add: frame_admitted_def ef_lengths_ok_def)
  show ?thesis using that[OF i a _ d(3)] e(5) by simp
qed


text \<open>
  C34: encrypted frames are authentic. \<open>deserialize\<close> returns a value exactly when the input starts with a
  frame sealed under the key whose payload is within the limit and decodes to that value; nothing behind
  the frame is accepted under the strict policy. No other byte string is ever decoded.
\<close>

theorem encryption_authentic:
  "ef_deserialize c T input = Inr v \<longleftrightarrow>
   (\<exists>nonce plaintext rest. input = sealed_frame (ef_key c) nonce plaintext @ rest \<and> frame_admitted c nonce plaintext \<and>
      (rest = [] \<or> ef_trailing_policy c = Allow) \<and> deserialize_payload c T plaintext = Inr v)"
proof
  assume d: "ef_deserialize c T input = Inr v"
  show "\<exists>nonce plaintext rest. input = sealed_frame (ef_key c) nonce plaintext @ rest \<and> frame_admitted c nonce plaintext \<and>
      (rest = [] \<or> ef_trailing_policy c = Allow) \<and> deserialize_payload c T plaintext = Inr v"
    by (rule ef_deserialize_Inr[OF d]) (metis trailing.exhaust)
qed (auto simp: ef_deserialize_sealed ef_deserialize_sealed[where rest = "[]", simplified])

section \<open>Round trip\<close>







end
