(* ===== verification/Cbor.thy ===== *)
theory Cbor
  imports Stream
begin

text \<open>
  \<^verbatim>\<open>src/cbor_codec.rs\<close> and \<^verbatim>\<open>src/cbor.rs\<close>: the CBOR encoder and decoder behind nextjson's interfaces, and the
  entry points with the deterministic mode. The state of the encoder is that of the self-describing one; the
  decoder adds a stack of frames to it. nextjson's dynamic value, its conversion and the order of its map
  are parameters.
\<close>

text \<open>
  \<^verbatim>\<open>src/cbor_codec.rs\<close>: the streaming CBOR encoder and decoder, and \<^verbatim>\<open>src/cbor.rs\<close>, their configuration.
  The encoder has the fields of the self-describing one and uses its record; the decoder adds a stack of
  container frames to the fields of the self-describing one, which is its part \<open>cd_base\<close>. Operations
  that leave the frames alone are operations on that part. Only the byte and collection limits of the
  configuration apply: CBOR fixes byte order, integer widths and nesting.
\<close>

section \<open>Encoding\<close>

text \<open>\<^verbatim>\<open>CborEncoder::emit\<close> has the text of the self-describing encoder's.\<close>

definition cb_emit :: "(byte list \<Rightarrow> ('w, unit) op) \<Rightarrow> config \<Rightarrow> byte list \<Rightarrow> ('w encoder, unit) op" where
  "cb_emit = emit"

definition cb_head_bytes :: "byte \<Rightarrow> u64 \<Rightarrow> byte list" where
  "cb_head_bytes major argument =
    (let prefix = push_bit 5 major in
     if argument < 24 then [prefix OR ucast argument]
     else if argument \<le> 0xff then [prefix OR 24, ucast argument]
     else if argument \<le> 0xffff then (prefix OR 25) # to_be_bytes (ucast argument :: u16)
     else if argument \<le> 0xffffffff then (prefix OR 26) # to_be_bytes (ucast argument :: u32)
     else (prefix OR 27) # to_be_bytes argument)"

definition cb_head :: "(byte list \<Rightarrow> ('w, unit) op) \<Rightarrow> config \<Rightarrow> byte \<Rightarrow> u64 \<Rightarrow> ('w encoder, unit) op" where
  "cb_head wr cfg major argument = cb_emit wr cfg (cb_head_bytes major argument)"

definition cb_magnitude :: "u128 \<Rightarrow> byte list" where
  "cb_magnitude value =
    (let bytes = to_be_bytes value in
     if list_all (\<lambda>byte. byte = 0) bytes then drop (length bytes - 1) bytes else dropWhile (\<lambda>byte. byte = 0) bytes)"

definition cb_bignum :: "(byte list \<Rightarrow> ('w, unit) op) \<Rightarrow> config \<Rightarrow> u64 \<Rightarrow> u128 \<Rightarrow> ('w encoder, unit) op" where
  "cb_bignum wr cfg tag value =
    sbind (cb_head wr cfg 6 tag) (\<lambda>_.
    sbind (cb_head wr cfg 2 (of_nat (length (cb_magnitude value)))) (\<lambda>_.
    cb_emit wr cfg (cb_magnitude value)))"

definition cb_unsigned :: "(byte list \<Rightarrow> ('w, unit) op) \<Rightarrow> config \<Rightarrow> u128 \<Rightarrow> ('w encoder, unit) op" where
  "cb_unsigned wr cfg value =
    (if value \<le> 0xffffffffffffffff then cb_head wr cfg 0 (ucast value) else cb_bignum wr cfg 2 value)"

definition cb_signed :: "(byte list \<Rightarrow> ('w, unit) op) \<Rightarrow> config \<Rightarrow> u128 \<Rightarrow> ('w encoder, unit) op" where
  "cb_signed wr cfg value =
    (if 0 \<le> sint value then cb_unsigned wr cfg value
     else let argument = - 1 - value in
       if argument \<le> 0xffffffffffffffff then cb_head wr cfg 1 (ucast argument) else cb_bignum wr cfg 3 argument)"

definition cb_write_text :: "(byte list \<Rightarrow> ('w, unit) op) \<Rightarrow> config \<Rightarrow> byte list \<Rightarrow> ('w encoder, unit) op" where
  "cb_write_text wr cfg value =
    sbind (cb_head wr cfg 3 (of_nat (length value))) (\<lambda>_. cb_emit wr cfg value)"

definition cb_write_bytes :: "(byte list \<Rightarrow> ('w, unit) op) \<Rightarrow> config \<Rightarrow> byte list \<Rightarrow> ('w encoder, unit) op" where
  "cb_write_bytes wr cfg value =
    sbind (cb_head wr cfg 2 (of_nat (length value))) (\<lambda>_. cb_emit wr cfg value)"

definition cb_enter_container :: "('w encoder, unit) op" where
  "cb_enter_container e =
    (if e_depth e \<ge> MAX_DEPTH then (Inl (Custom ''encoder nesting depth limit exceeded''), e)
     else (Inr (), e\<lparr>e_depth := e_depth e + 1\<rparr>))"

definition cb_exit_container :: "(byte list \<Rightarrow> ('w, unit) op) \<Rightarrow> config \<Rightarrow> ('w encoder, unit) op" where
  "cb_exit_container wr cfg e =
    (if e_depth e = 0 then (Inl (Custom ''container end without matching start''), e)
     else let d = e_depth e - 1; e' = e\<lparr>e_depth := d\<rparr> in
       if d \<ge> length (e_counts e) then (Inl (Panic ''index out of bounds''), e')
       else cb_emit wr cfg [0xff] (e'\<lparr>e_counts := (e_counts e)[d := 0]\<rparr>))"

definition cb_count_element :: "config \<Rightarrow> ('w encoder, unit) op" where
  "cb_count_element cfg e =
    (if e_depth e = 0 then (Inl (Custom ''element outside any container''), e)
     else let index = e_depth e - 1 in
       if index \<ge> length (e_counts e) then (Inl (Panic ''index out of bounds''), e)
       else let count = e_counts e ! index + 1 in
         if count > usize_max then (Inl (CollectionLimit usize_max), e)
         else case check_collection (c_collection_limit cfg) count of
             Inl err \<Rightarrow> (Inl err, e)
           | Inr _ \<Rightarrow> (Inr (), e\<lparr>e_counts := (e_counts e)[index := count]\<rparr>))"

definition cb_write_number :: "(byte list \<Rightarrow> ('w, unit) op) \<Rightarrow> config \<Rightarrow> number \<Rightarrow> ('w encoder, unit) op" where
  "cb_write_number wr cfg n =
    (case n of U64 v \<Rightarrow> cb_unsigned wr cfg (ucast v) | U128 v \<Rightarrow> cb_unsigned wr cfg v
      | I64 v \<Rightarrow> cb_signed wr cfg (scast v) | I128 v \<Rightarrow> cb_signed wr cfg v
      | F64 v \<Rightarrow> sbind (cb_emit wr cfg [0xfb]) (\<lambda>_. cb_emit wr cfg (to_be_bytes v)))"

fun cb_event :: "(byte list \<Rightarrow> ('w, unit) op) \<Rightarrow> config \<Rightarrow> event \<Rightarrow> ('w encoder, unit) op" where
  "cb_event wr cfg EvBeginArray = sbind cb_enter_container (\<lambda>_. cb_emit wr cfg [0x9f])"
| "cb_event wr cfg EvSeparator = cb_count_element cfg"
| "cb_event wr cfg EvEndArray = cb_exit_container wr cfg"
| "cb_event wr cfg EvBeginObject = sbind cb_enter_container (\<lambda>_. cb_emit wr cfg [0xbf])"
| "cb_event wr cfg (EvKey key) = sbind (cb_count_element cfg) (\<lambda>_. cb_write_text wr cfg key)"
| "cb_event wr cfg EvEndObject = cb_exit_container wr cfg"
| "cb_event wr cfg EvNull = cb_emit wr cfg [0xf6]"
| "cb_event wr cfg (EvBool b) = cb_emit wr cfg [if b then 0xf5 else 0xf4]"
| "cb_event wr cfg (EvU64 v) = cb_unsigned wr cfg (ucast v)"
| "cb_event wr cfg (EvU128 v) = cb_unsigned wr cfg v"
| "cb_event wr cfg (EvI64 v) = cb_signed wr cfg (scast v)"
| "cb_event wr cfg (EvI128 v) = cb_signed wr cfg v"
| "cb_event wr cfg (EvF64 v) = sbind (cb_emit wr cfg [0xfb]) (\<lambda>_. cb_emit wr cfg (to_be_bytes v))"
| "cb_event wr cfg (EvF32 v) = sbind (cb_emit wr cfg [0xfa]) (\<lambda>_. cb_emit wr cfg (to_be_bytes v))"
| "cb_event wr cfg (EvStr s) = cb_write_text wr cfg s"
| "cb_event wr cfg (EvChar c) = cb_write_text wr cfg (encode_utf8 c)"
| "cb_event wr cfg (EvNumber n) = cb_write_number wr cfg n"

definition cb_finish :: "(byte list \<Rightarrow> ('w, unit) op) \<Rightarrow> config \<Rightarrow> event list \<Rightarrow> 'w \<Rightarrow> (error + nat) \<times> 'w" where
  "cb_finish wr cfg vs w =
    (case issue (cb_event wr cfg) vs (encoder_new w) of
       (Inl err, e) \<Rightarrow> (Inl err, e_writer e)
     | (Inr _, e) \<Rightarrow>
         if e_depth e \<noteq> 0 then (Inl (Custom ''encoder finished inside an unclosed container''), e_writer e)
         else (Inr (e_written e), e_writer e))"

section \<open>Heads and strings\<close>

datatype head_arg = HValue u64 | HFloat16 | HFloat32 | HFloat64 | HIndefinite

fun head_value :: "head_arg \<Rightarrow> error + u64" where
  "head_value (HValue v) = Inr v"
| "head_value _ = Inl (Panic ''non-value argument where a value is required'')"

definition cb_peek_byte :: "config \<Rightarrow> decoder \<Rightarrow> error + byte" where
  "cb_peek_byte cfg d =
    (if d_cursor d \<ge> length (d_input d) then Inl UnexpectedEnd
     else case check_limit (c_limit cfg) (min (d_cursor d + 1) usize_max) of
         Inl err \<Rightarrow> Inl err | Inr _ \<Rightarrow> Inr (d_input d ! d_cursor d))"

definition cb_argument :: "config \<Rightarrow> byte \<Rightarrow> byte \<Rightarrow> (decoder, head_arg) op" where
  "cb_argument cfg major ai =
    (if major = 7 then
       if ai \<le> 23 then sret (HValue (ucast ai)) else if ai = 24 then sret (HValue 24)
       else if ai = 25 then sret HFloat16 else if ai = 26 then sret HFloat32 else if ai = 27 then sret HFloat64
       else if ai \<le> 30 then sfail (Custom ''reserved CBOR additional information value'')
       else sret HIndefinite
     else if ai \<le> 23 then sret (HValue (ucast ai))
     else if ai = 24 then sbind (dec_take cfg 1) (\<lambda>bs. sret (HValue (ucast (bs ! 0))))
     else if ai = 25 then sbind (dec_take cfg 2) (\<lambda>bs. sret (HValue (ucast (from_be_bytes bs :: u16))))
     else if ai = 26 then sbind (dec_take cfg 4) (\<lambda>bs. sret (HValue (ucast (from_be_bytes bs :: u32))))
     else if ai = 27 then sbind (dec_take cfg 8) (\<lambda>bs. sret (HValue (from_be_bytes bs)))
     else if ai \<le> 30 then sfail (Custom ''reserved CBOR additional information value'')
     else sret HIndefinite)"

definition cb_read_head :: "config \<Rightarrow> (decoder, byte \<times> head_arg) op" where
  "cb_read_head cfg = sbind (dec_take cfg 1) (\<lambda>bs.
     let initial = bs ! 0; major = drop_bit 5 initial; ai = initial AND 0x1f in
     sbind (cb_argument cfg major ai) (\<lambda>argument. sret (major, argument)))"

lemma reads_cb_argument [simp]: "reads cfg (cb_argument cfg major ai)"
  by (simp add: cb_argument_def)

lemma reads_cb_head [simp]: "reads cfg (cb_read_head cfg)"
  by (simp add: cb_read_head_def Let_def)

text \<open>An operation that moves the cursor forward, within the input, whenever it succeeds.\<close>

definition progresses :: "(decoder, 'a) op \<Rightarrow> bool" where
  "progresses m \<longleftrightarrow> (\<forall>d x d'. m d = (Inr x, d') \<longrightarrow>
     d_cursor d < d_cursor d' \<and> d_cursor d' \<le> length (d_input d') \<and> d_input d' = d_input d)"

lemma progressesD: "progresses m \<Longrightarrow> m d = (Inr x, d') \<Longrightarrow>
    d_cursor d < d_cursor d' \<and> d_cursor d' \<le> length (d_input d') \<and> d_input d' = d_input d"
  unfolding progresses_def by blast

lemmas progressesD' = progressesD[OF _ sym]

lemma progresses_take: "0 < n \<Longrightarrow> progresses (dec_take cfg n)"
  by (auto simp: progresses_def dec_take_def Let_def check_limit_if slice_eq_Some split: if_splits option.splits)

lemma progresses_sbind:
  assumes "progresses m" and "\<And>x. reads cfg (f x)"
  shows "progresses (sbind m f)"
  unfolding progresses_def
proof (intro allI impI)
  fix d y d' assume "sbind m f d = (Inr y, d')"
  then obtain x s where s: "m d = (Inr x, s)" "f x s = (Inr y, d')" by (auto simp: sbind_Inr)
  have "moves cfg s d'" using assms(2)[of x] s(2) by (auto simp: reads_def)
  then show "d_cursor d < d_cursor d' \<and> d_cursor d' \<le> length (d_input d') \<and> d_input d' = d_input d"
    using progressesD[OF assms(1) s(1)] by (auto simp: moves_def)
qed

lemma cb_head_progress: "progresses (cb_read_head cfg)"
  unfolding cb_read_head_def by (rule progresses_sbind[where cfg = cfg]) (simp_all add: progresses_take Let_def)

text \<open>The chunks of an indefinite string: heads of one major type, until a break.\<close>

definition cb_chunk :: "config \<Rightarrow> byte \<Rightarrow> string \<Rightarrow> string \<Rightarrow> (decoder, byte list) op" where
  "cb_chunk cfg kind bad_chunk bad_length = sbind (cb_read_head cfg) (\<lambda>(major, argument).
     if major \<noteq> kind then sfail (Custom bad_chunk)
     else case argument of HValue len \<Rightarrow> dec_take cfg (unat len) | _ \<Rightarrow> sfail (Custom bad_length))"

lemma reads_cb_chunk [simp]: "reads cfg (cb_chunk cfg kind a b)"
  unfolding cb_chunk_def by (intro reads_sbind) (auto split: head_arg.split)

lemma cb_chunk_progress: "progresses (cb_chunk cfg kind a b)"
  unfolding cb_chunk_def
  by (rule progresses_sbind[where cfg = cfg, OF cb_head_progress]) (auto split: head_arg.split)

function cb_chunks :: "config \<Rightarrow> byte \<Rightarrow> string \<Rightarrow> string \<Rightarrow> byte list \<Rightarrow> (decoder, byte list) op" where
  "cb_chunks cfg kind bad_chunk bad_length out d =
    (case cb_peek_byte cfg d of
       Inl e \<Rightarrow> (Inl e, d)
     | Inr byte \<Rightarrow>
         if byte = 0xff then (Inr out, d\<lparr>d_cursor := d_cursor d + 1\<rparr>)
         else case cb_chunk cfg kind bad_chunk bad_length d of
             (Inl e, d') \<Rightarrow> (Inl e, d')
           | (Inr bytes, d') \<Rightarrow> cb_chunks cfg kind bad_chunk bad_length (out @ bytes) d')"
  by pat_completeness auto

termination
  by (relation "measure (\<lambda>(cfg, kind, a, b, out, d). length (d_input d) - d_cursor d)") (auto dest!: progressesD'[OF cb_chunk_progress])

declare cb_chunks.simps [simp del]

definition cb_read_text :: "config \<Rightarrow> head_arg \<Rightarrow> (decoder, token) op" where
  "cb_read_text cfg argument =
    sbind (case argument of
        HValue len \<Rightarrow> dec_take cfg (unat len)
      | HIndefinite \<Rightarrow> cb_chunks cfg 3 ''indefinite text string contains a non-text chunk'' ''invalid text string length'' []
      | _ \<Rightarrow> sfail (Custom ''invalid text string length''))
    (\<lambda>bytes. if utf8_valid bytes then sret (TStr bytes) else sfail (Custom ''CBOR text string is not valid UTF-8''))"

definition cb_read_bignum :: "config \<Rightarrow> bool \<Rightarrow> (decoder, token) op" where
  "cb_read_bignum cfg negative = sbind (cb_read_head cfg) (\<lambda>(major, argument).
     if major \<noteq> 2 then sfail (Custom ''bignum payload must be a byte string'')
     else sbind (case argument of
         HValue len \<Rightarrow> sret len
       | HIndefinite \<Rightarrow> sfail (Custom ''indefinite bignum payload is not supported'')
       | _ \<Rightarrow> sfail (Custom ''bignum payload must be a byte string'')) (\<lambda>len.
     sbind (dec_take cfg (unat len)) (\<lambda>bytes.
     if length bytes > 16 then sfail (Custom ''bignum wider than 128 bits is not supported'')
     else let value = from_be_bytes (replicate (16 - length bytes) 0 @ bytes) in
       if negative then sret (TNumber (I128 (- 1 - value))) else sret (TNumber (U128 value)))))"

text \<open>
  \<^verbatim>\<open>half_to_f64\<close> on bit patterns: every product is exact. A subnormal of \<open>m\<close> units \<open>2^-24\<close> is normalised,
  \<^verbatim>\<open>f64::NAN\<close> is the positive quiet NaN.
\<close>

definition half_to_f64 :: "u16 \<Rightarrow> u64" where
  "half_to_f64 half =
    (let s = (if half AND 0x8000 \<noteq> 0 then push_bit 63 1 else 0) :: u64;
         e = unat (drop_bit 10 half AND 0x1f); m = unat (half AND 0x3ff) in
     if e = 0 then (if m = 0 then s
       else s OR push_bit 52 (of_nat (top_bit m + 999)) OR push_bit (52 - top_bit m) (of_nat (m - 2 ^ top_bit m)))
     else if e = 0x1f then (if m = 0 then s OR push_bit 52 0x7ff else 0x7ff8000000000000)
     else s OR push_bit 52 (of_nat (e + 1008)) OR push_bit 42 (of_nat m))"

section \<open>Frames\<close>

datatype container_kind = ArrayKind | ObjectKind

record cbor_frame =
  fr_kind :: container_kind
  fr_definite :: "nat option"

record cbor_decoder =
  cd_base :: decoder
  cd_frames :: "cbor_frame list"

definition cbor_decoder_new :: "byte list \<Rightarrow> cbor_decoder" where
  "cbor_decoder_new input = \<lparr> cd_base = decoder_new input, cd_frames = [] \<rparr>"

text \<open>An operation on the base, on the whole decoder. The innermost frame is the last one.\<close>

definition onto :: "(decoder, 'a) op \<Rightarrow> (cbor_decoder, 'a) op" where
  "onto m c = (let (r, d) = m (cd_base c) in (r, c\<lparr>cd_base := d\<rparr>))"

definition cd_top :: "cbor_decoder \<Rightarrow> cbor_frame option" where
  "cd_top c = (if cd_frames c = [] then None else Some (last (cd_frames c)))"

definition cb_dec_remaining :: "(cbor_decoder, unit) op" where
  "cb_dec_remaining c =
    (case cd_top c of
       None \<Rightarrow> (Inr (), c)
     | Some frame \<Rightarrow>
       (case fr_definite frame of
          None \<Rightarrow> (Inr (), c)
        | Some remaining \<Rightarrow>
            if remaining = 0 then (Inl (Custom ''too many container elements''), c)
            else (Inr (), c\<lparr>cd_frames := butlast (cd_frames c) @ [frame\<lparr>fr_definite := Some (remaining - 1)\<rparr>]\<rparr>)))"

definition cbor_enter :: "config \<Rightarrow> container_kind \<Rightarrow> nat option \<Rightarrow> (cbor_decoder, unit) op" where
  "cbor_enter cfg kind definite c =
    (if d_depth (cd_base c) \<ge> MAX_DEPTH then (Inl (Custom ''decoder nesting depth limit exceeded''), c)
     else case (case definite of None \<Rightarrow> Inr () | Some count \<Rightarrow> check_collection (c_collection_limit cfg) count) of
         Inl err \<Rightarrow> (Inl err, c)
       | Inr _ \<Rightarrow> (Inr (), c\<lparr>cd_frames := cd_frames c @ [\<lparr> fr_kind = kind, fr_definite = definite \<rparr>],
           cd_base := (cd_base c)\<lparr>d_depth := d_depth (cd_base c) + 1\<rparr>\<rparr>))"

text \<open>\<^verbatim>\<open>self.depth -= 1\<close> and the table access of \<^verbatim>\<open>pop_frame\<close> are panics when the depth is zero.\<close>

definition cbor_pop_frame :: "container_kind \<Rightarrow> (cbor_decoder, unit) op" where
  "cbor_pop_frame expected c =
    (case cd_top c of
       None \<Rightarrow> (Inl (Custom ''container end without matching start''), c)
     | Some frame \<Rightarrow>
         if fr_kind frame \<noteq> expected then (Inl (Custom ''container end does not match its start''), c)
         else let c = c\<lparr>cd_frames := butlast (cd_frames c)\<rparr>; d = cd_base c; k = d_depth d - 1 in
           if d_depth d = 0 \<or> k \<ge> length (d_counts d) then (Inl (Panic ''index out of bounds''), c)
           else (Inr (), c\<lparr>cd_base := d\<lparr>d_depth := k, d_counts := (d_counts d)[k := 0]\<rparr>\<rparr>))"

definition cbor_count_element :: "config \<Rightarrow> (decoder, unit) op" where
  "cbor_count_element cfg d =
    (if d_depth d = 0 then (Inl (Custom ''separator outside any container''), d)
     else let index = d_depth d - 1 in
       if index \<ge> length (d_counts d) then (Inl (Panic ''index out of bounds''), d)
       else let count = d_counts d ! index + 1 in
         if count > usize_max then (Inl (CollectionLimit usize_max), d)
         else case check_collection (c_collection_limit cfg) count of
             Inl err \<Rightarrow> (Inl err, d)
           | Inr _ \<Rightarrow> (Inr (), d\<lparr>d_counts := (d_counts d)[index := count]\<rparr>))"

definition cbor_has_more :: "config \<Rightarrow> (cbor_decoder, bool) op" where
  "cbor_has_more cfg c =
    (if d_lookahead (cd_base c) \<noteq> None then (Inr True, c)
     else case cd_top c of
         None \<Rightarrow> (Inl (Custom ''separator outside any container''), c)
       | Some frame \<Rightarrow>
         (case fr_definite frame of
            Some remaining \<Rightarrow> (Inr (remaining > 0), c)
          | None \<Rightarrow> (rmap (\<lambda>b. b \<noteq> 0xff) (cb_peek_byte cfg (cd_base c)), c)))"

section \<open>Tokens\<close>

definition cb_definite :: "string \<Rightarrow> head_arg \<Rightarrow> (cbor_decoder, nat option) op" where
  "cb_definite name argument =
    (case argument of HValue count \<Rightarrow> sret (Some (unat count)) | HIndefinite \<Rightarrow> sret None
      | _ \<Rightarrow> sfail (Custom (''invalid '' @ name @ '' length'')))"

definition cb_value :: "head_arg \<Rightarrow> (cbor_decoder, u64) op" where
  "cb_value argument c = (head_value argument, c)"

definition cb_simple :: "config \<Rightarrow> head_arg \<Rightarrow> (cbor_decoder, token) op" where
  "cb_simple cfg argument =
    (case argument of
       HValue v \<Rightarrow>
         if v = 20 then sbind cb_dec_remaining (\<lambda>_. sret (TBool False))
         else if v = 21 then sbind cb_dec_remaining (\<lambda>_. sret (TBool True))
         else if v = 22 then sbind cb_dec_remaining (\<lambda>_. sret TNull)
         else if v = 23 then sfail (Custom ''undefined (0xf7) is outside the value model'')
         else if v = 24 then sbind (onto (dec_take cfg 1)) (\<lambda>_. sfail (Custom ''unsupported CBOR simple value''))
         else sfail (Custom ''unsupported CBOR simple value'')
     | HFloat16 \<Rightarrow> sbind cb_dec_remaining (\<lambda>_. sbind (onto (dec_take cfg 2)) (\<lambda>bs.
         sret (TNumber (F64 (half_to_f64 (from_be_bytes bs))))))
     | HFloat32 \<Rightarrow> sbind cb_dec_remaining (\<lambda>_. sbind (onto (dec_take cfg 4)) (\<lambda>bs.
         sret (TNumber (F64 (f32_to_f64 (from_be_bytes bs))))))
     | HFloat64 \<Rightarrow> sbind cb_dec_remaining (\<lambda>_. sbind (onto (dec_take cfg 8)) (\<lambda>bs.
         sret (TNumber (F64 (from_be_bytes bs)))))
     | HIndefinite \<Rightarrow> (\<lambda>c. case cd_top c of
           None \<Rightarrow> (Inl (Custom ''indefinite break outside any container''), c)
         | Some frame \<Rightarrow> (Inr (case fr_kind frame of ArrayKind \<Rightarrow> TEndArray | ObjectKind \<Rightarrow> TEndObject), c)))"

text \<open>A token after its head, when the head is not a tag.\<close>

definition cb_payload :: "config \<Rightarrow> byte \<Rightarrow> head_arg \<Rightarrow> (cbor_decoder, token) op" where
  "cb_payload cfg major argument =
    (if major = 0 then sbind cb_dec_remaining (\<lambda>_. sbind (cb_value argument) (\<lambda>v. sret (TNumber (U64 v))))
     else if major = 1 then sbind cb_dec_remaining (\<lambda>_. sbind (cb_value argument) (\<lambda>negative.
       sret (TNumber (if negative \<le> 0x7fffffffffffffff then I64 (- 1 - negative) else I128 (- 1 - ucast negative)))))
     else if major = 2
       then sfail (Custom ''byte string (major type 2) is outside the value model; use FormatDecoder::bytes'')
     else if major = 3 then sbind (onto (cb_read_text cfg argument)) (\<lambda>token. sbind cb_dec_remaining (\<lambda>_. sret token))
     else if major = 4 then sbind cb_dec_remaining (\<lambda>_. sbind (cb_definite ''array'' argument) (\<lambda>definite.
       sbind (cbor_enter cfg ArrayKind definite) (\<lambda>_. sret TBeginArray)))
     else if major = 5 then sbind cb_dec_remaining (\<lambda>_. sbind (cb_definite ''object'' argument) (\<lambda>definite.
       sbind (cbor_enter cfg ObjectKind definite) (\<lambda>_. sret TBeginObject)))
     else cb_simple cfg argument)"

definition cb_bignum_token :: "config \<Rightarrow> bool \<Rightarrow> (cbor_decoder, token) op" where
  "cb_bignum_token cfg negative = sbind (onto (cb_read_bignum cfg negative)) (\<lambda>token. sbind cb_dec_remaining (\<lambda>_. sret token))"

function cb_read_token :: "config \<Rightarrow> (cbor_decoder, token) op" where
  "cb_read_token cfg c =
    (case onto (cb_read_head cfg) c of
       (Inl e, c') \<Rightarrow> (Inl e, c')
     | (Inr (major, argument), c') \<Rightarrow>
         if major \<noteq> 6 then cb_payload cfg major argument c'
         else case head_value argument of
             Inl e \<Rightarrow> (Inl e, c')
           | Inr tag \<Rightarrow>
               if tag = 2 then cb_bignum_token cfg False c'
               else if tag = 3 then cb_bignum_token cfg True c'
               else cb_read_token cfg c')"
  by pat_completeness auto

termination
  by (relation "measure (\<lambda>(cfg, c). length (d_input (cd_base c)) - d_cursor (cd_base c))")
    (auto simp: onto_def split: prod.splits dest!: progressesD[OF cb_head_progress])

declare cb_read_token.simps [simp del]

definition cb_look :: "token option \<Rightarrow> cbor_decoder \<Rightarrow> cbor_decoder" where
  "cb_look t c = c\<lparr>cd_base := (cd_base c)\<lparr>d_lookahead := t\<rparr>\<rparr>"

definition cbor_peek_token :: "config \<Rightarrow> (cbor_decoder, token) op" where
  "cbor_peek_token cfg c = (case d_lookahead (cd_base c) of
     Some token \<Rightarrow> (Inr token, c)
   | None \<Rightarrow> sbind (cb_read_token cfg) (\<lambda>token c'. (Inr token, cb_look (Some token) c')) c)"

definition cbor_take_token :: "config \<Rightarrow> (cbor_decoder, token) op" where
  "cbor_take_token cfg c = (case d_lookahead (cd_base c) of
     Some token \<Rightarrow> (Inr token, cb_look None c)
   | None \<Rightarrow> cb_read_token cfg c)"

section \<open>The decoder's methods\<close>

definition cbor_begin_object :: "config \<Rightarrow> (cbor_decoder, unit) op" where
  "cbor_begin_object cfg = sbind (cbor_take_token cfg) (\<lambda>t. case t of
     TBeginObject \<Rightarrow> sret () | other \<Rightarrow> sfail (invalid_type ''an object'' other))"

definition cbor_begin_array :: "config \<Rightarrow> (cbor_decoder, unit) op" where
  "cbor_begin_array cfg = sbind (cbor_take_token cfg) (\<lambda>t. case t of
     TBeginArray \<Rightarrow> sret () | other \<Rightarrow> sfail (invalid_type ''an array'' other))"

definition cb_check_drained :: "container_kind \<Rightarrow> (cbor_decoder, unit) op" where
  "cb_check_drained kind c =
    (case cd_top c of
       None \<Rightarrow> (Inl (Custom ''container end without matching start''), c)
     | Some frame \<Rightarrow>
         if fr_definite frame \<noteq> None \<and> fr_definite frame \<noteq> Some 0
         then (Inl (Custom ''container ended with unread elements''), c)
         else cbor_pop_frame kind c)"

definition cbor_end_container :: "config \<Rightarrow> container_kind \<Rightarrow> (cbor_decoder, unit) op" where
  "cbor_end_container cfg kind c =
    (case d_lookahead (cd_base c) of
       Some token \<Rightarrow>
         let c = cb_look None c in
         if token \<in> {TEndArray, TEndObject, TBeginArray, TBeginObject} then cb_check_drained kind c
         else (Inl (Custom ''container ended with unread elements''), c)
     | None \<Rightarrow>
       (case cd_top c of
          None \<Rightarrow> (Inl (Custom ''container end without matching start''), c)
        | Some frame \<Rightarrow>
          (case fr_definite frame of
             Some _ \<Rightarrow> cb_check_drained kind c
           | None \<Rightarrow>
             (case cb_peek_byte cfg (cd_base c) of
                Inl e \<Rightarrow> (Inl e, c)
              | Inr byte \<Rightarrow>
                  if byte \<noteq> 0xff then (Inl (Custom ''container ended with unread elements''), c)
                  else cb_check_drained kind (c\<lparr>cd_base := (cd_base c)\<lparr>d_cursor := d_cursor (cd_base c) + 1\<rparr>\<rparr>)))))"

definition cb_key_text :: "config \<Rightarrow> (cbor_decoder, byte list option) op" where
  "cb_key_text cfg = onto (sbind (cb_read_head cfg) (\<lambda>(major, argument).
     if major \<noteq> 3 then sfail (invalid_type ''an object key string''
        (if major = 0 \<or> major = 1 \<or> major = 7 then TNumber (U64 0) else if major = 4 then TBeginArray
         else if major = 5 then TBeginObject else TNull))
     else sbind (cb_read_text cfg argument) (\<lambda>t. case t of
        TStr key \<Rightarrow> sret (Some key) | _ \<Rightarrow> sfail (Panic ''read_text always returns a string token''))))"

definition cbor_object_key :: "config \<Rightarrow> (cbor_decoder, byte list option) op" where
  "cbor_object_key cfg c =
    (case d_lookahead (cd_base c) of
       Some token \<Rightarrow>
         (let c = cb_look None c in
          case token of TStr key \<Rightarrow> (Inr (Some key), c) | TEndObject \<Rightarrow> (Inr None, c)
          | other \<Rightarrow> (Inl (invalid_type ''an object key string'' other), c))
     | None \<Rightarrow>
       (case cd_top c of
          None \<Rightarrow> (Inl (Custom ''object key outside any object''), c)
        | Some frame \<Rightarrow>
            if fr_kind frame \<noteq> ObjectKind then (Inl (Custom ''object key outside an object container''), c)
            else (case fr_definite frame of
                Some remaining \<Rightarrow> if remaining = 0 then (Inr None, c) else cb_key_text cfg c
              | None \<Rightarrow>
                (case cb_peek_byte cfg (cd_base c) of
                   Inl e \<Rightarrow> (Inl e, c)
                 | Inr byte \<Rightarrow> if byte = 0xff then (Inr None, c) else cb_key_text cfg c))))"

definition cbor_entry_sep :: "config \<Rightarrow> (cbor_decoder, bool) op" where
  "cbor_entry_sep cfg = sbind (onto (cbor_count_element cfg)) (\<lambda>_. cbor_has_more cfg)"

definition cbor_unit :: "config \<Rightarrow> (cbor_decoder, unit) op" where
  "cbor_unit cfg = sbind (cbor_take_token cfg) (\<lambda>t. case t of
     TNull \<Rightarrow> sret () | other \<Rightarrow> sfail (invalid_type ''null'' other))"

definition cbor_bool :: "config \<Rightarrow> (cbor_decoder, bool) op" where
  "cbor_bool cfg = sbind (cbor_take_token cfg) (\<lambda>t. case t of
     TBool v \<Rightarrow> sret v | other \<Rightarrow> sfail (invalid_type ''a boolean'' other))"

definition cbor_number :: "config \<Rightarrow> (cbor_decoder, number) op" where
  "cbor_number cfg = sbind (cbor_take_token cfg) (\<lambda>t. case t of
     TNumber v \<Rightarrow> sret v | other \<Rightarrow> sfail (invalid_type ''a number'' other))"

definition cbor_string :: "config \<Rightarrow> (cbor_decoder, byte list) op" where
  "cbor_string cfg = sbind (cbor_take_token cfg) (\<lambda>t. case t of
     TStr v \<Rightarrow> sret v | other \<Rightarrow> sfail (invalid_type ''a string'' other))"

definition cbor_char :: "config \<Rightarrow> (cbor_decoder, u32) op" where
  "cbor_char cfg = sbind (cbor_take_token cfg) (\<lambda>t. case t of
     TStr v \<Rightarrow> (case next_char v of Some (c, []) \<Rightarrow> sret c | _ \<Rightarrow> sfail InvalidChar)
   | other \<Rightarrow> sfail (invalid_type ''a character'' other))"

text \<open>\<^verbatim>\<open>true\<close> for \<^verbatim>\<open>OptionTag::Some\<close>.\<close>

definition cbor_option_tag :: "config \<Rightarrow> (cbor_decoder, bool) op" where
  "cbor_option_tag cfg c =
    (let d = cd_base c in
     case (if d_lookahead d = None then rmap (\<lambda>b. b = 0xf6) (cb_peek_byte cfg d) else Inr False) of
       Inl e \<Rightarrow> (Inl e, c)
     | Inr True \<Rightarrow> (Inr False, c\<lparr>cd_base := d\<lparr>d_cursor := d_cursor d + 1\<rparr>\<rparr>)
     | Inr False \<Rightarrow> if d_lookahead d = Some TNull then (Inr False, cb_look None c) else (Inr True, c))"

section \<open>What reading does to the state\<close>

text \<open>
  A step forward: the cursor moves on inside the input and the lookahead stays; at most \<open>k\<close> frames are
  pushed.
\<close>

definition fwd :: "decoder \<Rightarrow> decoder \<Rightarrow> bool" where
  "fwd d d' \<longleftrightarrow> d_input d' = d_input d \<and> d_lookahead d' = d_lookahead d \<and> d_cursor d \<le> d_cursor d' \<and>
     (d_cursor d \<le> length (d_input d) \<longrightarrow> d_cursor d' \<le> length (d_input d))"

definition cb_moves :: "nat \<Rightarrow> cbor_decoder \<Rightarrow> cbor_decoder \<Rightarrow> bool" where
  "cb_moves k c c' \<longleftrightarrow> fwd (cd_base c) (cd_base c') \<and> length (cd_frames c') \<le> length (cd_frames c) + k"

definition forwards :: "(decoder, 'a) op \<Rightarrow> bool" where
  "forwards m \<longleftrightarrow> (\<forall>d r d'. m d = (r, d') \<longrightarrow> fwd d d')"

definition cb_reads :: "nat \<Rightarrow> (cbor_decoder, 'a) op \<Rightarrow> bool" where
  "cb_reads k m \<longleftrightarrow> (\<forall>c r c'. m c = (r, c') \<longrightarrow> cb_moves k c c')"

lemma cb_readsD: "cb_reads k m \<Longrightarrow> m c = (r, c') \<Longrightarrow> cb_moves k c c'"
  unfolding cb_reads_def by blast

lemma fwd_refl [simp]: "fwd d d"
  by (simp add: fwd_def)

lemma fwd_trans: "fwd d1 d2 \<Longrightarrow> fwd d2 d3 \<Longrightarrow> fwd d1 d3"
  by (auto simp: fwd_def)

lemma cb_moves_trans: "cb_moves i c1 c2 \<Longrightarrow> cb_moves j c2 c3 \<Longrightarrow> i + j \<le> k \<Longrightarrow> cb_moves k c1 c3"
  by (auto simp: cb_moves_def intro: fwd_trans)

lemma moves_fwd: "moves cfg d d' \<Longrightarrow> fwd d d'"
  by (auto simp: moves_def fwd_def)

lemma forwards_reads: "reads cfg m \<Longrightarrow> forwards m"
  unfolding forwards_def reads_def using moves_fwd by blast

lemma forwards_sbind:
  assumes "forwards m" and "\<And>x. forwards (f x)"
  shows "forwards (sbind m f)"
  unfolding forwards_def
proof (intro allI impI)
  fix d r d' assume s: "sbind m f d = (r, d')"
  show "fwd d d'"
  proof (cases rule: sbind_cases[of m d f])
    case (err e s')
    then show ?thesis using s assms(1) by (auto simp: forwards_def)
  next
    case (ok x s')
    have f: "f x s' = (r, d')" using ok s by simp
    show ?thesis
      by (rule fwd_trans[OF assms(1)[unfolded forwards_def, rule_format, OF ok(1)] assms(2)[unfolded forwards_def, rule_format, OF f]])
  qed
qed

lemma cb_reads_sbind:
  assumes "cb_reads i m" and "\<And>x. cb_reads j (f x)" and "i + j \<le> k"
  shows "cb_reads k (sbind m f)"
  unfolding cb_reads_def
proof (intro allI impI)
  fix c r c' assume s: "sbind m f c = (r, c')"
  show "cb_moves k c c'"
  proof (cases rule: sbind_cases[of m c f])
    case (err e s')
    then have "cb_moves i c c'" using s cb_readsD[OF assms(1)] by auto
    then show ?thesis using assms(3) by (auto simp: cb_moves_def)
  next
    case (ok x s')
    have "f x s' = (r, c')" using ok s by simp
    then show ?thesis using cb_moves_trans[OF cb_readsD[OF assms(1) ok(1)] cb_readsD[OF assms(2)] assms(3)] by simp
  qed
qed

lemma cb_reads_basic [simp]:
  "cb_reads k (sret x)" "cb_reads k (sfail e)" "cb_reads k cb_dec_remaining" "cb_reads k (cb_value a)"
  "cb_reads k (cb_definite name a)" "cb_reads (Suc 0) (cbor_enter cfg kind n)"
  by (auto simp: cb_reads_def cb_moves_def fwd_def cb_dec_remaining_def cb_value_def cb_definite_def cbor_enter_def cd_top_def
      split: option.splits if_splits sum.splits head_arg.splits)

lemma cb_reads_onto: "forwards m \<Longrightarrow> cb_reads k (onto m)"
  by (auto simp: cb_reads_def cb_moves_def onto_def forwards_def split: prod.splits)

lemma forwards_chunks: "cb_chunks cfg kind a b out d = (r, d') \<Longrightarrow> fwd d d'"
proof (induction cfg kind a b out d rule: cb_chunks.induct)
  case (1 cfg kind a b out d)
  note step = cb_chunks.simps[of cfg kind a b out d]
  show ?case
  proof (cases "cb_peek_byte cfg d")
    case (Inl e)
    then show ?thesis using 1(2) by (simp add: step)
  next
    case (Inr byte)
    show ?thesis
    proof (cases "byte = 0xff")
      case True
      then show ?thesis using 1(2) Inr by (auto simp: step fwd_def cb_peek_byte_def split: if_splits)
    next
      case False
      obtain q s where q: "cb_chunk cfg kind a b d = (q, s)" by (cases "cb_chunk cfg kind a b d")
      have m: "fwd d s" using moves_fwd readsD[OF reads_cb_chunk q] by blast
      show ?thesis
        using 1(2) Inr False q m 1(1)[OF Inr False q[symmetric]] by (auto simp: step split: sum.splits intro: fwd_trans)
    qed
  qed
qed

lemma forwards_text: "forwards (cb_read_text cfg a)"
proof -
  have "forwards (cb_chunks cfg k x y z)" for k x y z using forwards_chunks by (auto simp: forwards_def)
  then show ?thesis unfolding cb_read_text_def
    by (intro forwards_sbind) (auto split: head_arg.split intro: forwards_reads[where cfg = cfg])
qed

lemma reads_bignum: "reads cfg (cb_read_bignum cfg n)"
  unfolding cb_read_bignum_def by (intro reads_sbind) (auto split: head_arg.split simp: Let_def)

lemma cb_reads_take [simp]: "cb_reads k (onto (dec_take cfg n))"
  by (intro cb_reads_onto forwards_reads[where cfg = cfg]) simp

lemma cb_reads_simple: "cb_reads (Suc 0) (cb_simple cfg a)"
proof -
  have "cb_reads (Suc 0) (\<lambda>c. case cd_top c of None \<Rightarrow> (Inl e, c) | Some frame \<Rightarrow> (Inr (f frame), c))" for e and f :: "_ \<Rightarrow> token"
    by (auto simp: cb_reads_def cb_moves_def split: option.splits)
  then show ?thesis
    by (auto simp: cb_simple_def split: head_arg.split intro!: cb_reads_sbind[where i = 0 and j = 0])
qed

lemma cb_reads_payload: "cb_reads (Suc 0) (cb_payload cfg major a)"
proof -
  have e: "cb_reads (Suc 0) (sbind (cbor_enter cfg k n) (\<lambda>_. sret t))" for k n t
    by (rule cb_reads_sbind[where i = "Suc 0" and j = 0]) simp_all
  show ?thesis unfolding cb_payload_def
    by (simp add: cb_reads_simple) (intro conjI impI; (rule e cb_reads_onto forwards_text cb_reads_sbind[where i = 0 and j = "Suc 0"] | simp)+)
qed

lemma cb_reads_bignum: "cb_reads (Suc 0) (cb_bignum_token cfg n)"
  unfolding cb_bignum_token_def
  by (auto intro!: cb_reads_sbind[where i = 0 and j = 0] cb_reads_onto forwards_reads[OF reads_bignum])

lemma read_token_moves:
  "cb_read_token cfg c = (Inr t, c') \<Longrightarrow> cb_moves (Suc 0) c c' \<and> d_cursor (cd_base c) < d_cursor (cd_base c') \<and>
     d_cursor (cd_base c') \<le> length (d_input (cd_base c'))"
proof (induction cfg c rule: cb_read_token.induct)
  case (1 cfg c)
  obtain major a d where h: "cb_read_head cfg (cd_base c) = (Inr (major, a), d)"
    using 1(2) by (auto simp: cb_read_token.simps[of cfg c] onto_def split: prod.splits sum.splits)
  let ?c = "c\<lparr>cd_base := d\<rparr>"
  have o: "onto (cb_read_head cfg) c = (Inr (major, a), ?c)" using h by (simp add: onto_def)
  have p: "d_cursor (cd_base c) < d_cursor d" "d_cursor d \<le> length (d_input d)" "fwd (cd_base c) d"
    using progressesD[OF cb_head_progress h] moves_fwd readsD[OF reads_cb_head h] by auto
  have m0: "cb_moves 0 c ?c" using p(3) by (simp add: cb_moves_def)
  have goal: "cb_moves (Suc 0) c c' \<and> d_cursor (cd_base c) < d_cursor (cd_base c') \<and> d_cursor (cd_base c') \<le> length (d_input (cd_base c'))"
    if "cb_moves (Suc 0) ?c c'"
    using cb_moves_trans[OF m0 that, of "Suc 0"] that p(1,2) by (auto simp: cb_moves_def fwd_def)
  consider "major \<noteq> 6" | "major = 6" "head_value a = Inr 2" | "major = 6" "head_value a = Inr 3"
    | tag where "major = 6" "head_value a = Inr tag" "tag \<noteq> 2" "tag \<noteq> 3" | e where "major = 6" "head_value a = Inl e"
    by (cases "head_value a") blast+
  then show ?case
  proof cases
    case 1
    then show ?thesis using \<open>cb_read_token cfg c = (Inr t, c')\<close> o goal cb_readsD[OF cb_reads_payload] by (simp add: cb_read_token.simps[of cfg c])
  next
    case 2
    then show ?thesis using \<open>cb_read_token cfg c = (Inr t, c')\<close> o goal cb_readsD[OF cb_reads_bignum] by (simp add: cb_read_token.simps[of cfg c])
  next
    case 3
    then show ?thesis using \<open>cb_read_token cfg c = (Inr t, c')\<close> o goal cb_readsD[OF cb_reads_bignum] by (simp add: cb_read_token.simps[of cfg c])
  next
    case 4
    then have r: "cb_read_token cfg ?c = (Inr t, c')" using \<open>cb_read_token cfg c = (Inr t, c')\<close> o by (simp add: cb_read_token.simps[of cfg c])
    show ?thesis
      by (rule goal, rule 1(1)[OF o[symmetric] refl refl _ _ _ _ r, THEN conjunct1]) (use 4 in auto)
  next
    case 5
    then show ?thesis using \<open>cb_read_token cfg c = (Inr t, c')\<close> o by (simp add: cb_read_token.simps[of cfg c])
  qed
qed

section \<open>Skipping, byte strings, backtracking\<close>

lemma pop_frame_shape:
  assumes "cbor_pop_frame k c = (Inr u, c')"
  shows "length (cd_frames c') < length (cd_frames c) \<and> d_input (cd_base c') = d_input (cd_base c) \<and>
    d_cursor (cd_base c') = d_cursor (cd_base c) \<and> d_lookahead (cd_base c') = d_lookahead (cd_base c)"
  using assms by (auto simp: cbor_pop_frame_def cd_top_def Let_def split: if_splits)

definition cb_pending :: "cbor_decoder \<Rightarrow> nat" where
  "cb_pending c = 2 * (length (d_input (cd_base c)) - d_cursor (cd_base c)) + length (cd_frames c)
     + (if d_lookahead (cd_base c) = None then 0 else 1)"

lemma pop_pending: "cbor_pop_frame k c = (Inr u, c') \<Longrightarrow> cb_pending c' < cb_pending c"
  by (drule pop_frame_shape) (simp add: cb_pending_def)

lemma take_pending:
  assumes "cbor_take_token cfg c = (Inr t, c')" shows "cb_pending c' < cb_pending c"
proof (cases "d_lookahead (cd_base c)")
  case None
  then have "cb_read_token cfg c = (Inr t, c')" using assms by (simp add: cbor_take_token_def)
  from read_token_moves[OF this] show ?thesis by (auto simp: cb_pending_def cb_moves_def fwd_def)
next
  case (Some a)
  then show ?thesis using assms by (auto simp: cbor_take_token_def cb_pending_def cb_look_def)
qed

lemma step_pending: "cb_pending (c\<lparr>cd_base := (cd_base c)\<lparr>d_cursor := d_cursor (cd_base c) + n\<rparr>\<rparr>) \<le> cb_pending c"
  by (simp add: cb_pending_def)

lemma pop_step_pending:
  "(Inr u, c') = cbor_pop_frame k (if b then c\<lparr>cd_base := (cd_base c)\<lparr>d_cursor := d_cursor (cd_base c) + 1\<rparr>\<rparr> else c) \<Longrightarrow>
   cb_pending c' < cb_pending c"
  using pop_pending[of k _ u c'] step_pending[of c 1] by (fastforce split: if_splits)

text \<open>The loop of \<^verbatim>\<open>skip_value_inner\<close>: until the nesting is what it was.\<close>

function cb_skip_loop :: "config \<Rightarrow> nat \<Rightarrow> (cbor_decoder, unit) op" where
  "cb_skip_loop cfg saved c =
    (if d_depth (cd_base c) \<le> saved then (Inr (), c)
     else case cd_top c of
         None \<Rightarrow> (Inl (Custom ''unbalanced container in skip''), c)
       | Some frame \<Rightarrow>
         (case (case fr_definite frame of
              Some remaining \<Rightarrow> Inr (remaining = 0)
            | None \<Rightarrow> rmap (\<lambda>b. b = 0xff) (cb_peek_byte cfg (cd_base c))) of
            Inl e \<Rightarrow> (Inl e, c)
          | Inr finished \<Rightarrow>
              if finished then
                (case cbor_pop_frame (fr_kind frame) (if fr_definite frame = None
                     then c\<lparr>cd_base := (cd_base c)\<lparr>d_cursor := d_cursor (cd_base c) + 1\<rparr>\<rparr> else c) of
                   (Inl e, c') \<Rightarrow> (Inl e, c') | (Inr _, c') \<Rightarrow> cb_skip_loop cfg saved c')
              else
                (case cbor_take_token cfg c of
                   (Inl e, c') \<Rightarrow> (Inl e, c') | (Inr _, c') \<Rightarrow> cb_skip_loop cfg saved c')))"
  by pat_completeness auto

termination
  by (relation "measure (\<lambda>(cfg, saved, c). cb_pending c)")
    (auto dest: pop_step_pending take_pending[OF sym])

declare cb_skip_loop.simps [simp del]

definition cbor_skip_value :: "config \<Rightarrow> (cbor_decoder, unit) op" where
  "cbor_skip_value cfg c = sbind (cbor_take_token cfg) (\<lambda>_. cb_skip_loop cfg (d_depth (cd_base c))) c"

text \<open>
  \<^verbatim>\<open>bytes\<close>: a native byte string, a text string, or an array of bytes, read with \<^verbatim>\<open>u8\<close>, a method
  nextjson provides. Since nothing is known of it, the loop over the array may not end: then the result
  is \<open>None\<close>.
\<close>

partial_function (option) cb_byte_array ::
  "config \<Rightarrow> (cbor_decoder, byte) op \<Rightarrow> byte list \<Rightarrow> cbor_decoder \<Rightarrow> ((error + byte list) \<times> cbor_decoder) option" where
  "cb_byte_array cfg u8 out c =
    (case cbor_has_more cfg c of
       (Inl e, c) \<Rightarrow> Some (Inl e, c)
     | (Inr some_left, c) \<Rightarrow>
         if \<not> some_left then Some (Inr out, c)
         else case sbind u8 (\<lambda>b. sbind (cbor_entry_sep cfg) (\<lambda>again. sret (b, again))) c of
             (Inl e, c) \<Rightarrow> Some (Inl e, c)
           | (Inr (b, again), c) \<Rightarrow>
               if again then cb_byte_array cfg u8 (out @ [b]) c else Some (Inr (out @ [b]), c))"

definition cb_byte_string :: "config \<Rightarrow> (decoder, byte list) op" where
  "cb_byte_string cfg = sbind (cb_read_head cfg) (\<lambda>(_, argument). case argument of
     HValue len \<Rightarrow> dec_take cfg (unat len)
   | HIndefinite \<Rightarrow> cb_chunks cfg 2 ''indefinite byte string contains a non-byte chunk'' ''invalid byte string length'' []
   | _ \<Rightarrow> sfail (Panic ''byte string head cannot be a float''))"

definition cbor_bytes ::
  "config \<Rightarrow> (cbor_decoder, byte) op \<Rightarrow> cbor_decoder \<Rightarrow> ((error + byte list) \<times> cbor_decoder) option" where
  "cbor_bytes cfg u8 c =
    (case cb_peek_byte cfg (cd_base c) of
       Inl e \<Rightarrow> Some (Inl e, c)
     | Inr byte \<Rightarrow>
         let major = drop_bit 5 byte in
         if major = 2 then Some (onto (cb_byte_string cfg) c)
         else if major = 3 then Some (cbor_string cfg c)
         else if major = 4 then
           (case cbor_begin_array cfg c of
              (Inl e, c) \<Rightarrow> Some (Inl e, c)
            | (Inr _, c) \<Rightarrow>
              (case cb_byte_array cfg u8 [] c of
                 None \<Rightarrow> None
               | Some (Inl e, c) \<Rightarrow> Some (Inl e, c)
               | Some (Inr out, c) \<Rightarrow> Some (sbind (cbor_end_container cfg ArrayKind) (\<lambda>_. sret out) c)))
         else Some (Inl (Custom ''expected a byte string or an array of bytes''), c))"

definition cbor_save :: "cbor_decoder \<Rightarrow> nat \<times> nat" where
  "cbor_save c = (d_cursor (cd_base c), d_depth (cd_base c) mod 2 ^ 32)"

definition cbor_restore :: "nat \<times> nat \<Rightarrow> cbor_decoder \<Rightarrow> cbor_decoder" where
  "cbor_restore mark c =
    (let d = cd_base c; depth = min (snd mark) (length (d_counts d)) in
     c\<lparr>cd_base := d\<lparr>d_cursor := fst mark, d_depth := depth,
         d_counts := take depth (d_counts d) @ replicate (length (d_counts d) - depth) 0, d_lookahead := None\<rparr>,
       cd_frames := take depth (cd_frames c)\<rparr>)"

section \<open>Entry points\<close>

definition cbor_decode :: "config \<Rightarrow> (cbor_decoder, 'a) op \<Rightarrow> byte list \<Rightarrow> error + 'a" where
  "cbor_decode cfg T input =
    (case T (cbor_decoder_new input) of
       (Inl err, _) \<Rightarrow> Inl err
     | (Inr value, c) \<Rightarrow>
         if d_depth (cd_base c) \<noteq> 0 then Inl (Custom ''decoder finished inside an unclosed container'')
         else if c_trailing cfg = Reject \<and> d_cursor (cd_base c) \<noteq> length input
           then Inl (TrailingBytesError (length input - d_cursor (cd_base c)))
         else Inr value)"

record cbor_config =
  cb_base_config :: config
  cb_deterministic :: bool

definition cbor_config_new :: "config \<Rightarrow> cbor_config" where
  "cbor_config_new base = \<lparr> cb_base_config = base, cb_deterministic = False \<rparr>"

definition with_deterministic_encoding :: "cbor_config \<Rightarrow> cbor_config" where
  "with_deterministic_encoding z = z\<lparr>cb_deterministic := True\<rparr>"

definition with_preserved_map_order :: "cbor_config \<Rightarrow> cbor_config" where
  "with_preserved_map_order z = z\<lparr>cb_deterministic := False\<rparr>"

definition cb_byte_limit :: "cbor_config \<Rightarrow> nat \<Rightarrow> error + unit" where
  "cb_byte_limit z len = check_limit (c_limit (cb_base_config z)) len"

text \<open>
  A value is the list of events its serialiser issues. nextjson's dynamic value, its conversion
  \<^verbatim>\<open>to_value\<close> and the order its \<^verbatim>\<open>Map\<close> keeps its entries in are nextjson's: \<open>to_value\<close> and \<open>map_order\<close>.
\<close>

definition canonical_less :: "byte list \<Rightarrow> byte list \<Rightarrow> bool" where
  "canonical_less left right \<longleftrightarrow>
    length left < length right \<or> length left = length right \<and> (left, right) \<in> lexord {(a, b). a < b}"

definition canonical_le :: "byte list \<Rightarrow> byte list \<Rightarrow> bool" where
  "canonical_le left right \<longleftrightarrow> left = right \<or> canonical_less left right"

text \<open>\<^verbatim>\<open>slice::sort_by\<close> is a stable sort; an insertion sort is one.\<close>

primrec insert_entry :: "byte list \<times> jv \<Rightarrow> (byte list \<times> jv) list \<Rightarrow> (byte list \<times> jv) list" where
  "insert_entry e [] = [e]"
| "insert_entry e (f # fs) = (if canonical_le (fst e) (fst f) then e # f # fs else f # insert_entry e fs)"

definition sort_entries :: "(byte list \<times> jv) list \<Rightarrow> (byte list \<times> jv) list" where
  "sort_entries entries = foldr insert_entry entries []"

fun adjacent_keys :: "(byte list \<times> jv) list \<Rightarrow> bool" where
  "adjacent_keys (e # f # fs) \<longleftrightarrow> fst e = fst f \<or> adjacent_keys (f # fs)"
| "adjacent_keys _ \<longleftrightarrow> False"

fun canonicalize :: "((byte list \<times> jv) list \<Rightarrow> (byte list \<times> jv) list) \<Rightarrow> jv \<Rightarrow> error + jv"
  and canonicalize_items :: "((byte list \<times> jv) list \<Rightarrow> (byte list \<times> jv) list) \<Rightarrow> jv list \<Rightarrow> error + jv list"
  and canonicalize_entries :: "((byte list \<times> jv) list \<Rightarrow> (byte list \<times> jv) list) \<Rightarrow> (byte list \<times> jv) list \<Rightarrow> error + (byte list \<times> jv) list" where
  "canonicalize map_order (JArr items) = rmap JArr (canonicalize_items map_order items)"
| "canonicalize map_order (JObj members) = rbind (canonicalize_entries map_order members) (\<lambda>entries.
     let sorted = sort_entries entries in
     if adjacent_keys sorted
     then Inl (Cbor ''deterministic maps cannot contain duplicate canonical keys'')
     else Inr (JObj (map_order sorted)))"
| "canonicalize map_order scalar = Inr scalar"
| "canonicalize_items map_order [] = Inr []"
| "canonicalize_items map_order (v # vs) = rbind (canonicalize map_order v) (\<lambda>w. rmap ((#) w) (canonicalize_items map_order vs))"
| "canonicalize_entries map_order [] = Inr []"
| "canonicalize_entries map_order ((k, v) # fs) = rbind (canonicalize map_order v) (\<lambda>w. rmap ((#) (k, w)) (canonicalize_entries map_order fs))"

definition cb_to_vec :: "config \<Rightarrow> event list \<Rightarrow> error + byte list" where
  "cb_to_vec cfg vs = (let (r, out) = cb_finish vec_write_all cfg vs [] in rmap (\<lambda>_. out) r)"

definition cbor_encode_value ::
  "(event list \<Rightarrow> error + jv) \<Rightarrow> ((byte list \<times> jv) list \<Rightarrow> (byte list \<times> jv) list) \<Rightarrow> bool \<Rightarrow>
   cbor_config \<Rightarrow> event list \<Rightarrow> error + byte list" where
  "cbor_encode_value to_value map_order lead z vs =
    rbind (if cb_deterministic z
           then rbind (to_value vs) (\<lambda>value. rbind (canonicalize map_order value) (\<lambda>value.
             cb_to_vec (cb_base_config z) (events lead value)))
           else cb_to_vec (cb_base_config z) vs) (\<lambda>output.
    rbind (cb_byte_limit z (length output)) (\<lambda>_. Inr output))"

definition cbor_serialized_size ::
  "(event list \<Rightarrow> error + jv) \<Rightarrow> ((byte list \<times> jv) list \<Rightarrow> (byte list \<times> jv) list) \<Rightarrow> bool \<Rightarrow>
   cbor_config \<Rightarrow> event list \<Rightarrow> error + nat" where
  "cbor_serialized_size to_value map_order lead z vs = rmap length (cbor_encode_value to_value map_order lead z vs)"

definition cbor_deserialize :: "cbor_config \<Rightarrow> (cbor_decoder, 'a) op \<Rightarrow> byte list \<Rightarrow> error + 'a" where
  "cbor_deserialize z T input =
    rbind (cb_byte_limit z (length input)) (\<lambda>_. cbor_decode (cb_base_config z) T input)"

definition cbor_deserialize_from :: "cbor_config \<Rightarrow> (cbor_decoder, 'a) op \<Rightarrow> byte list \<Rightarrow> error + 'a" where
  "cbor_deserialize_from z T source =
    (let max = (case c_limit (cb_base_config z) of None \<Rightarrow> usize_max | Some l \<Rightarrow> l);
         bytes = take (min (max + 1) usize_max) source
     in if length bytes > max then Inl (SizeLimit max) else cbor_deserialize z T bytes)"

end
