(* ===== verification/CborProofs.thy ===== *)
theory CborProofs
  imports Cbor "HOL-Library.Multiset"
begin

text \<open>
  The CBOR encoder writes a grammar (\<open>cbor_wire\<close>), the decoder reads it back in a normal form, the
  deterministic mode is insensitive to the order of members, and three malformed heads panic.
\<close>

section \<open>The encoder writes the CBOR grammar\<close>

text \<open>RFC 8949 on nextjson's values: shortest heads, bignums beyond 64 bits, indefinite containers.\<close>

definition cbor_bignum_of :: "u64 \<Rightarrow> u128 \<Rightarrow> byte list" where
  "cbor_bignum_of tag v = cb_head_bytes 6 tag @ cb_head_bytes 2 (of_nat (length (cb_magnitude v))) @ cb_magnitude v"

definition cbor_unsigned_of :: "u128 \<Rightarrow> byte list" where
  "cbor_unsigned_of v = (if v \<le> 0xffffffffffffffff then cb_head_bytes 0 (ucast v) else cbor_bignum_of 2 v)"

definition cbor_signed_of :: "u128 \<Rightarrow> byte list" where
  "cbor_signed_of v = (if 0 \<le> sint v then cbor_unsigned_of v
     else if - 1 - v \<le> 0xffffffffffffffff then cb_head_bytes 1 (ucast (- 1 - v)) else cbor_bignum_of 3 (- 1 - v))"

definition cbor_text_of :: "byte list \<Rightarrow> byte list" where
  "cbor_text_of s = cb_head_bytes 3 (of_nat (length s)) @ s"

fun cbor_ev_bytes :: "event \<Rightarrow> byte list" where
  "cbor_ev_bytes EvBeginArray = [0x9f]"
| "cbor_ev_bytes EvSeparator = []"
| "cbor_ev_bytes EvEndArray = [0xff]"
| "cbor_ev_bytes EvBeginObject = [0xbf]"
| "cbor_ev_bytes (EvKey key) = cbor_text_of key"
| "cbor_ev_bytes EvEndObject = [0xff]"
| "cbor_ev_bytes EvNull = [0xf6]"
| "cbor_ev_bytes (EvBool b) = [if b then 0xf5 else 0xf4]"
| "cbor_ev_bytes (EvU64 v) = cbor_unsigned_of (ucast v)"
| "cbor_ev_bytes (EvU128 v) = cbor_unsigned_of v"
| "cbor_ev_bytes (EvI64 v) = cbor_signed_of (scast v)"
| "cbor_ev_bytes (EvI128 v) = cbor_signed_of v"
| "cbor_ev_bytes (EvF64 v) = 0xfb # to_be_bytes v"
| "cbor_ev_bytes (EvF32 v) = 0xfa # to_be_bytes v"
| "cbor_ev_bytes (EvStr s) = cbor_text_of s"
| "cbor_ev_bytes (EvChar c) = cbor_text_of (encode_utf8 c)"
| "cbor_ev_bytes (EvNumber n) = (case n of U64 v \<Rightarrow> cbor_unsigned_of (ucast v) | U128 v \<Rightarrow> cbor_unsigned_of v
    | I64 v \<Rightarrow> cbor_signed_of (scast v) | I128 v \<Rightarrow> cbor_signed_of v | F64 v \<Rightarrow> 0xfb # to_be_bytes v)"

fun cbor_wire :: "jv \<Rightarrow> byte list"
  and cbor_wire_elems :: "jv list \<Rightarrow> byte list"
  and cbor_wire_fields :: "(byte list \<times> jv) list \<Rightarrow> byte list" where
  "cbor_wire JNull = [0xf6]"
| "cbor_wire (JBool b) = [if b then 0xf5 else 0xf4]"
| "cbor_wire (JU64 v) = cbor_unsigned_of (ucast v)"
| "cbor_wire (JU128 v) = cbor_unsigned_of v"
| "cbor_wire (JI64 v) = cbor_signed_of (scast v)"
| "cbor_wire (JI128 v) = cbor_signed_of v"
| "cbor_wire (JF64 v) = 0xfb # to_be_bytes v"
| "cbor_wire (JF32 v) = 0xfa # to_be_bytes v"
| "cbor_wire (JStr s) = cbor_text_of s"
| "cbor_wire (JArr vs) = 0x9f # cbor_wire_elems vs @ [0xff]"
| "cbor_wire (JObj fs) = 0xbf # cbor_wire_fields fs @ [0xff]"
| "cbor_wire_elems [] = []"
| "cbor_wire_elems (v # vs) = cbor_wire v @ cbor_wire_elems vs"
| "cbor_wire_fields [] = []"
| "cbor_wire_fields ((k, v) # fs) = cbor_text_of k @ cbor_wire v @ cbor_wire_fields fs"

lemma cbor_events_wire:
  "concat (map cbor_ev_bytes (events lead v)) = cbor_wire v"
  "concat (map cbor_ev_bytes (events_elems lead sep vs)) = cbor_wire_elems vs"
  "concat (map cbor_ev_bytes (events_fields lead fs)) = cbor_wire_fields fs"
  by (induction lead v and lead sep vs and lead fs rule: events_events_elems_events_fields.induct)
    (simp_all add: concat_map_singleton)

text \<open>What the encoder asks of a value: only that its containers are not too full.\<close>

fun counted :: "bool \<Rightarrow> nat option \<Rightarrow> jv \<Rightarrow> bool"
  and counted_elems :: "bool \<Rightarrow> nat option \<Rightarrow> jv list \<Rightarrow> bool"
  and counted_fields :: "bool \<Rightarrow> nat option \<Rightarrow> (byte list \<times> jv) list \<Rightarrow> bool" where
  "counted lead cl (JArr vs) \<longleftrightarrow> within cl (seps lead (length vs)) \<and> counted_elems lead cl vs"
| "counted lead cl (JObj fs) \<longleftrightarrow> within cl (length fs) \<and> counted_fields lead cl fs"
| "counted lead cl _ = True"
| "counted_elems lead cl [] = True"
| "counted_elems lead cl (v # vs) \<longleftrightarrow> counted lead cl v \<and> counted_elems lead cl vs"
| "counted_fields lead cl [] = True"
| "counted_fields lead cl ((k, v) # fs) \<longleftrightarrow> counted lead cl v \<and> counted_fields lead cl fs"

lemma accepted_counted:
  "accepted (\<lambda>_. True) lead cl v = counted lead cl v"
  "accepted_elems (\<lambda>_. True) lead cl vs = counted_elems lead cl vs"
  "accepted_fields (\<lambda>_. True) lead cl fs = counted_fields lead cl fs"
  by (induction lead cl v and lead cl vs and lead cl fs rule: counted_counted_elems_counted_fields.induct) simp_all

abbreviation writes_out :: "config \<Rightarrow> (byte list encoder, unit) op \<Rightarrow> byte list \<Rightarrow> bool" where
  "writes_out cfg m x \<equiv> \<forall>f. outcome m f (room cfg f x) (advance f x)"

lemma cb_emit_out: "writes_out cfg (cb_emit vec_write_all cfg x) x"
  by (simp add: cb_emit_def outcome_emit)

lemma cb_then_out:
  assumes "writes_out cfg m x" and "writes_out cfg n y"
  shows "writes_out cfg (sbind m (\<lambda>_. n)) (x @ y)"
  using assms by (intro allI outcome_then) auto

lemma cb_head_out: "writes_out cfg (cb_head vec_write_all cfg major a) (cb_head_bytes major a)"
  by (simp add: cb_head_def cb_emit_out)

lemma cb_bignum_out: "writes_out cfg (cb_bignum vec_write_all cfg tag v) (cbor_bignum_of tag v)"
  unfolding cb_bignum_def cbor_bignum_of_def by (intro cb_then_out cb_head_out cb_emit_out)

lemma cb_unsigned_out: "writes_out cfg (cb_unsigned vec_write_all cfg v) (cbor_unsigned_of v)"
  using cb_head_out cb_bignum_out by (simp add: cb_unsigned_def cbor_unsigned_of_def)

lemma cb_signed_out: "writes_out cfg (cb_signed vec_write_all cfg v) (cbor_signed_of v)"
  using cb_head_out cb_bignum_out cb_unsigned_out by (simp add: cb_signed_def cbor_signed_of_def Let_def)

lemma cb_text_out: "writes_out cfg (cb_write_text vec_write_all cfg s) (cbor_text_of s)"
  unfolding cb_write_text_def cbor_text_of_def by (intro cb_then_out cb_head_out cb_emit_out)

lemma cb_float_out:
  "writes_out cfg (sbind (cb_emit vec_write_all cfg [b]) (\<lambda>_. cb_emit vec_write_all cfg x)) (b # x)"
  using cb_then_out[OF cb_emit_out[of cfg "[b]"] cb_emit_out[of cfg x]] by simp

lemma cb_scalar_out:
  "scalar_event e \<Longrightarrow> writes_out cfg (cb_event vec_write_all cfg e) (cbor_ev_bytes e)"
  by (cases e) (auto simp: scalar_event_def cb_write_number_def cb_emit_out cb_unsigned_out cb_signed_out cb_text_out cb_float_out
      split: number.split)

lemma cb_enter_out:
  "outcome (sbind cb_enter_container (\<lambda>_. cb_emit vec_write_all cfg x)) f (e_depth f < MAX_DEPTH \<and> room cfg f x)
    ((advance f x)\<lparr>e_depth := e_depth f + 1\<rparr>)"
  using cb_emit_out[of cfg x] by (auto simp: cb_enter_container_def outcome_def sbind_def dest!: spec[of _ "f\<lparr>e_depth := Suc (e_depth f)\<rparr>"])

lemma cb_exit_out:
  assumes "0 < e_depth f" and "e_depth f \<le> length (e_counts f)"
  shows "outcome (cb_exit_container vec_write_all cfg) f (room cfg f [0xff])
    (advance (f\<lparr>e_depth := e_depth f - 1, e_counts := (e_counts f)[e_depth f - 1 := 0]\<rparr>) [0xff])"
  using assms cb_emit_out[of cfg "[0xff]"]
  by (auto simp: cb_exit_container_def outcome_def Let_def dest!: spec[of _ "f\<lparr>e_depth := e_depth f - 1, e_counts := (e_counts f)[e_depth f - 1 := 0]\<rparr>"])

lemma cb_count_out:
  assumes "ready cfg f" and "0 < e_depth f" and "e_depth f \<le> MAX_DEPTH"
    and "e_counts f ! (e_depth f - 1) = c" and "c < e_written f"
  shows "outcome (cb_count_element cfg) f (within (c_collection_limit cfg) (Suc c)) (at_count f (Suc c))"
  using assms by (auto simp: outcome_def cb_count_element_def Let_def check_collection_if at_count_def
      ready_def room_def)

lemma cb_head_nonempty: "cb_head_bytes major a \<noteq> []"
  by (simp add: cb_head_bytes_def Let_def)

lemma cb_int_nonempty: "cbor_unsigned_of v \<noteq> []" "cbor_signed_of v \<noteq> []" "cbor_text_of s \<noteq> []"
  by (simp_all add: cbor_unsigned_of_def cbor_signed_of_def cbor_bignum_of_def cbor_text_of_def cb_head_nonempty)

interpretation cbor: event_encoder cfg MAX_DEPTH "cb_event vec_write_all cfg" cbor_ev_bytes "\<lambda>_. True" for cfg
proof
  fix e f assume "scalar_event e"
  then show "outcome (cb_event vec_write_all cfg e) f (True \<and> room cfg f (cbor_ev_bytes e)) (advance f (cbor_ev_bytes e))"
    using cb_scalar_out by simp
next
  fix e assume "scalar_event e \<or> e \<in> {EvBeginArray, EvBeginObject}"
  then show "cbor_ev_bytes e \<noteq> []" by (cases e) (auto simp: scalar_event_def cb_int_nonempty split: number.split)
next
  fix f :: "byte list encoder" and c k
  assume "0 < e_depth f" "e_depth f \<le> MAX_DEPTH" "ready cfg f" "e_counts f ! (e_depth f - 1) = c" "c < e_written f"
  note count = cb_count_out[OF this(3,1,2,4,5)]
  show "outcome (cb_event vec_write_all cfg EvSeparator) f (within (c_collection_limit cfg) (Suc c)) (at_count f (Suc c))"
    using count by simp
  show "outcome (cb_event vec_write_all cfg (EvKey k)) f
    (within (c_collection_limit cfg) (Suc c) \<and> room cfg (at_count f (Suc c)) (cbor_ev_bytes (EvKey k)))
    (advance (at_count f (Suc c)) (cbor_ev_bytes (EvKey k)))"
    using outcome_sbind[where k = "\<lambda>_. cb_write_text vec_write_all cfg k", OF count cb_text_out[rule_format] refl] by simp
next
  fix b and f :: "byte list encoder" assume "b \<in> {EvBeginArray, EvBeginObject}"
  then show "outcome (cb_event vec_write_all cfg b) f (e_depth f < MAX_DEPTH \<and> room cfg f (cbor_ev_bytes b))
    ((advance f (cbor_ev_bytes b))\<lparr>e_depth := e_depth f + 1\<rparr>)"
    using cb_enter_out by auto
next
  fix b and f :: "byte list encoder" assume "b \<in> {EvEndArray, EvEndObject}" "0 < e_depth f" "e_depth f \<le> length (e_counts f)"
  then show "outcome (cb_event vec_write_all cfg b) f (room cfg f (cbor_ev_bytes b))
    (advance (f\<lparr>e_depth := e_depth f - 1, e_counts := (e_counts f)[e_depth f - 1 := 0]\<rparr>) (cbor_ev_bytes b))"
    using cb_exit_out by auto
qed simp

lemma cbor_out: "cbor.out lead v = cbor_wire v"
  by (simp add: cbor.out_def cbor_events_wire)

lemma cb_to_vec_wire:
  "cb_to_vec cfg (events lead v) = Inr out \<longleftrightarrow>
    out = cbor_wire v \<and> counted lead (c_collection_limit cfg) v \<and> height v \<le> MAX_DEPTH \<and>
    length (cbor_wire v) \<le> usize_max \<and> within (c_limit cfg) (length (cbor_wire v))"
  using cbor.run_outcome[of cfg lead v]
  by (auto simp: outcome_def cb_to_vec_def cb_finish_def Let_def encoder_new_def advance_def cbor_out accepted_counted
      split: if_splits)

section \<open>Reading heads back\<close>

lemma take_small: "unat (w :: 'a::len word) < 2 ^ n \<Longrightarrow> take_bit n w = w"
proof -
  assume a: "unat w < 2 ^ n"
  have "unat (take_bit n w) = take_bit n (unat w)" by (rule unsigned_take_bit_eq)
  also have "\<dots> = unat w" using a by (simp only: take_bit_nat_eq_self)
  finally show ?thesis by (rule word_eq_iff_unsigned[THEN iffD2])
qed

lemma ucast_back:
  assumes "unat (a :: 'a::len word) < 2 ^ LENGTH('b::len)"
  shows "ucast (ucast a :: 'b word) = a" and "unat (ucast a :: 'b word) = unat a"
proof -
  have b: "unat (ucast a :: 'b word) = unat a" using assms by (simp only: unsigned_ucast_eq take_bit_nat_eq_self)
  have "unat (ucast (ucast a :: 'b word) :: 'a word) = take_bit LENGTH('a) (unat (ucast a :: 'b word))" by (rule unsigned_ucast_eq)
  also have "\<dots> = unat a" using unsigned_less[of a, where ?'a = nat] by (simp only: b take_bit_nat_eq_self)
  finally have "unat (ucast (ucast a :: 'b word) :: 'a word) = unat a" .
  then show "ucast (ucast a :: 'b word) = a" by (rule word_eq_iff_unsigned[THEN iffD2])
  show "unat (ucast a :: 'b word) = unat a" by (rule b)
qed

lemma small_ucast: "a < 24 \<Longrightarrow> ucast (a :: u64) \<le> (23 :: byte) \<and> ucast (ucast a :: byte) = a"
  using ucast_back[of a, where 'b = 8] by (simp add: word_less_nat_alt word_le_nat_alt)

lemma narrow:
  "a \<le> 0xff \<Longrightarrow> ucast (ucast (a :: u64) :: byte) = a"
  "a \<le> 0xffff \<Longrightarrow> ucast (ucast (a :: u64) :: u16) = a"
  "a \<le> 0xffffffff \<Longrightarrow> ucast (ucast (a :: u64) :: u32) = a"
  using ucast_back[of a, where 'b = 8] ucast_back[of a, where 'b = 16] ucast_back[of a, where 'b = 32]
  by (simp_all add: word_le_nat_alt)

lemma five_bits:
  assumes "(x :: byte) < 32" "major < 8"
  shows "drop_bit 5 (push_bit 5 major OR x) = major" and "(push_bit 5 major OR x) AND 0x1f = x"
proof -
  have hi: "\<not> bit x n" if "5 \<le> n" for n
  proof -
    have "take_bit 5 x = x" using assms(1) by (intro take_small) (simp add: word_less_nat_alt)
    then show ?thesis using that by (metis bit_take_bit_iff not_le)
  qed
  have mj: "\<not> bit major n" if "3 \<le> n" for n
  proof -
    have "take_bit 3 major = major" using assms(2) by (intro take_small) (simp add: word_less_nat_alt)
    then show ?thesis using that by (metis bit_take_bit_iff not_le)
  qed
  show "drop_bit 5 (push_bit 5 major OR x) = major"
    proof (rule bit_word_eqI)
    fix n assume n: "n < LENGTH(8)"
    have "n < 3" if "bit major n" using mj[of n] that by (cases "n < 3") simp_all
    then show "bit (drop_bit 5 (push_bit 5 major OR x)) n = bit major n"
      using hi[of "5 + n"] n by (auto simp: bit_simps)
  qed
  have "(0x1f :: byte) = mask 5" by (simp add: mask_eq_exp_minus_1)
  then have "(push_bit 5 major OR x) AND 0x1f = take_bit 5 (push_bit 5 major OR x)" by (simp only: take_bit_eq_mask)
  also have "\<dots> = x"
  proof (rule bit_word_eqI)
    fix n assume "n < LENGTH(8)"
    then show "bit (take_bit 5 (push_bit 5 major OR x)) n = bit x n" using hi[of n] by (cases "n < 5") (simp_all add: bit_simps)
  qed
  finally show "(push_bit 5 major OR x) AND 0x1f = x" .
qed

lemma yields_head:
  assumes "major < 7"
  shows "yields cfg (cb_read_head cfg) (cb_head_bytes major a) (major, HValue a)"
proof -
  have m: "major < 8" "major \<noteq> 7" using assms by (auto simp: word_less_nat_alt)
  have y: "yields cfg (cb_read_head cfg) ((push_bit 5 major OR x) # bs) (major, HValue a)"
    if "x < 32" "yields cfg (cb_argument cfg major x) bs (HValue a)" for x bs
  proof -
    have "yields cfg (cb_read_head cfg) ([push_bit 5 major OR x] @ bs) (major, HValue a)"
      unfolding cb_read_head_def
      by (rule yields_sbind[OF yields_take])
        (simp_all only: Let_def nth_Cons_0 five_bits[OF that(1) m(1)] yields_wrap[OF that(2), of "Pair major"] list.size One_nat_def add_0 add_Suc)
    then show ?thesis by simp
  qed
  consider "a < 24" | "24 \<le> a" "a \<le> 0xff" | "0xff < a" "a \<le> 0xffff" | "0xffff < a" "a \<le> 0xffffffff" | "0xffffffff < a"
    by fastforce
  then show ?thesis
  proof cases
    case 1
    note s = small_ucast[OF 1]
    have "ucast a < (32 :: byte)" using s by (auto simp: word_less_nat_alt word_le_nat_alt)
    then show ?thesis using 1 y[of "ucast a" "[]"] s m yields_ret[of cfg "HValue a"]
      by (simp add: cb_head_bytes_def Let_def cb_argument_def del: sop_simps)
  next
    case 2
    have "yields cfg (cb_argument cfg major 24) [ucast a] (HValue a)"
      using m narrow(1)[OF 2(2)] by (simp add: cb_argument_def yields_map[OF yields_take] del: sop_simps)
    then show ?thesis using 2 y[of 24] by (simp add: cb_head_bytes_def Let_def not_less[symmetric])
  next
    case 3
    have "yields cfg (cb_argument cfg major 25) (to_be_bytes (ucast a :: u16)) (HValue a)"
      using m narrow(2)[OF 3(2)] by (simp add: cb_argument_def yields_map[OF yields_take] from_to_be_bytes del: sop_simps)
    then show ?thesis using 3 y[of 25] by (auto simp: cb_head_bytes_def Let_def word_less_nat_alt word_le_nat_alt)
  next
    case 4
    have "yields cfg (cb_argument cfg major 26) (to_be_bytes (ucast a :: u32)) (HValue a)"
      using m narrow(3)[OF 4(2)] by (simp add: cb_argument_def yields_map[OF yields_take] from_to_be_bytes del: sop_simps)
    then show ?thesis using 4 y[of 26] by (auto simp: cb_head_bytes_def Let_def word_less_nat_alt word_le_nat_alt)
  next
    case 5
    have "yields cfg (cb_argument cfg major 27) (to_be_bytes a) (HValue a)"
      using m by (simp add: cb_argument_def yields_map[OF yields_take] from_to_be_bytes del: sop_simps)
    then show ?thesis using 5 y[of 27] by (auto simp: cb_head_bytes_def Let_def word_less_nat_alt word_le_nat_alt)
  qed
qed

lemma magnitude_pad: "replicate (16 - length (cb_magnitude v)) 0 @ cb_magnitude v = to_be_bytes v"
proof -
  let ?b = "to_be_bytes v"
  have l: "length ?b = 16" by simp
  have z: "replicate (length (takeWhile (\<lambda>b. b = 0) bs)) 0 = takeWhile (\<lambda>b :: byte. b = 0) bs" for bs
    by (induction bs) auto
  show ?thesis
  proof (cases "list_all (\<lambda>b. b = 0) ?b")
    case True
    moreover have "list_all (\<lambda>b. b = 0) bs \<Longrightarrow> bs = replicate (length bs) 0" for bs :: "byte list" by (induction bs) auto
    ultimately have "?b = replicate 16 0" using True l by metis
    then show ?thesis by (simp add: cb_magnitude_def Let_def eval_nat_numeral)
  next
    case False
    have "length (takeWhile (\<lambda>b. b = 0) ?b) + length (dropWhile (\<lambda>b. b = 0) ?b) = 16"
      using l by (metis length_append takeWhile_dropWhile_id)
    then have "16 - length (dropWhile (\<lambda>b. b = 0) ?b) = length (takeWhile (\<lambda>b. b = 0) ?b)" by simp
    then show ?thesis using False by (simp add: cb_magnitude_def Let_def z)
  qed
qed

lemma length_magnitude: "length (cb_magnitude v) \<le> 16"
  using length_dropWhile_le[of "\<lambda>b. b = 0" "to_be_bytes v"] by (simp add: cb_magnitude_def Let_def)

lemma yields_bignum:
  "yields cfg (cb_read_bignum cfg n) (cb_head_bytes 2 (of_nat (length (cb_magnitude v))) @ cb_magnitude v)
     (TNumber (if n then I128 (- 1 - v) else U128 v))"
proof -
  have l: "unat (of_nat (length (cb_magnitude v)) :: u64) = length (cb_magnitude v)"
    using length_magnitude[of v] by (simp add: unat_of_nat take_bit_nat_eq_self_iff)
  have "yields cfg (cb_read_bignum cfg n) (cb_head_bytes 2 (of_nat (length (cb_magnitude v))) @ cb_magnitude v @ [])
     (TNumber (if n then I128 (- 1 - v) else U128 v))"
    unfolding cb_read_bignum_def
    by (rule yields_sbind[OF yields_head])
      (use length_magnitude[of v] in \<open>simp_all add: sbind_sret_left yields_map[OF yields_take[OF l]] Let_def magnitude_pad from_to_be_bytes del: sop_simps\<close>)
  then show ?thesis by simp
qed

lemma yields_text:
  assumes "str_ok s"
  shows "yields cfg (cb_read_text cfg (HValue (of_nat (length s)))) s (TStr s)"
proof -
  have l: "unat (of_nat (length s) :: u64) = length s" using assms by (simp add: unat_of_nat take_bit_nat_eq_self_iff)
  show ?thesis unfolding cb_read_text_def using assms
    by (simp add: yields_map[OF yields_take[OF l]] del: sop_simps)
qed

section \<open>What comes back\<close>

text \<open>
  The decoder has one integer type per sign and width: a value returns as the narrowest \<^verbatim>\<open>Number\<close> that
  holds it, an \<^verbatim>\<open>f32\<close> as the same number.
\<close>

definition unsigned_norm :: "u128 \<Rightarrow> jv" where
  "unsigned_norm v = (if v \<le> 0xffffffffffffffff then JU64 (ucast v) else JU128 v)"

definition signed_norm :: "u128 \<Rightarrow> jv" where
  "signed_norm v = (if 0 \<le> sint v then unsigned_norm v
     else if - 1 - v \<le> 0x7fffffffffffffff then JI64 (ucast v) else JI128 v)"

fun cbor_norm :: "jv \<Rightarrow> jv"
  and cbor_norm_elems :: "jv list \<Rightarrow> jv list"
  and cbor_norm_fields :: "(byte list \<times> jv) list \<Rightarrow> (byte list \<times> jv) list" where
  "cbor_norm (JU128 v) = unsigned_norm v"
| "cbor_norm (JI64 v) = signed_norm (scast v)"
| "cbor_norm (JI128 v) = signed_norm v"
| "cbor_norm (JF32 v) = JF64 (f32_to_f64 v)"
| "cbor_norm (JArr vs) = JArr (cbor_norm_elems vs)"
| "cbor_norm (JObj fs) = JObj (cbor_norm_fields fs)"
| "cbor_norm v = v"
| "cbor_norm_elems [] = []"
| "cbor_norm_elems (v # vs) = cbor_norm v # cbor_norm_elems vs"
| "cbor_norm_fields [] = []"
| "cbor_norm_fields ((k, v) # fs) = (k, cbor_norm v) # cbor_norm_fields fs"

section \<open>Tokens of encoded values\<close>

text \<open>The encoder only writes indefinite containers: no frame counts its elements.\<close>

definition frames_open :: "cbor_decoder \<Rightarrow> bool" where
  "frames_open c \<longleftrightarrow> (\<forall>fr\<in>set (cd_frames c). fr_definite fr = None)"

definition cb_past :: "cbor_decoder \<Rightarrow> byte list \<Rightarrow> cbor_decoder" where
  "cb_past c x = c\<lparr>cd_base := past (cd_base c) x\<rparr>"

lemma cb_past_simps [simp]:
  "cd_base (cb_past c x) = past (cd_base c) x" "cd_frames (cb_past c x) = cd_frames c"
  "cb_past (cb_past c x) y = cb_past c (x @ y)" "cb_past c [] = c"
  "frames_open (cb_past c x) = frames_open c"
  by (simp_all add: cb_past_def frames_open_def)

lemma onto_yields: "yields cfg m x v \<Longrightarrow> starts cfg (cd_base c) x \<Longrightarrow> onto m c = (Inr v, cb_past c x)"
  by (simp add: onto_def yieldsD cb_past_def)

lemma remaining_open [simp]: "frames_open c \<Longrightarrow> cb_dec_remaining c = (Inr (), c)"
  by (auto simp: frames_open_def cb_dec_remaining_def cd_top_def split: option.split)

lemma remaining_past [simp]: "frames_open c \<Longrightarrow> cb_dec_remaining (cb_past c x) = (Inr (), cb_past c x)"
  by simp

lemma token_head:
  assumes "starts cfg (cd_base c) (cb_head_bytes major a @ y)" and "major < 6"
  shows "cb_read_token cfg c = cb_payload cfg major (HValue a) (cb_past c (cb_head_bytes major a))"
proof -
  have "major < 7" "major \<noteq> 6" using assms(2) by (auto simp: word_less_nat_alt)
  then show ?thesis
    using onto_yields[OF yields_head[of major cfg a], of c] assms(1) by (simp add: cb_read_token.simps[of cfg c] starts_append)
qed

lemma token_tag:
  assumes "starts cfg (cd_base c) (cbor_bignum_of tag v)" and "frames_open c" and "tag = 2 \<or> tag = 3"
  shows "cb_read_token cfg c = (Inr (TNumber (if tag = 3 then I128 (- 1 - v) else U128 v)), cb_past c (cbor_bignum_of tag v))"
proof -
  let ?p = "cb_head_bytes 6 tag" and ?b = "cb_head_bytes 2 (of_nat (length (cb_magnitude v))) @ cb_magnitude v"
  have s: "starts cfg (cd_base c) ?p" "starts cfg (cd_base (cb_past c ?p)) ?b"
    using assms(1) by (simp_all add: cbor_bignum_of_def starts_append)
  have h: "onto (cb_read_head cfg) c = (Inr (6, HValue tag), cb_past c ?p)"
    by (rule onto_yields[OF yields_head s(1)]) simp
  have b: "onto (cb_read_bignum cfg n) (cb_past c ?p) = (Inr (TNumber (if n then I128 (- 1 - v) else U128 v)), cb_past c (?p @ ?b))" for n
    using onto_yields[OF yields_bignum s(2), of n] by simp
  show ?thesis
    using assms(2,3) h b by (auto simp: cb_read_token.simps[of cfg c] cb_bignum_token_def cbor_bignum_of_def)
qed

lemma token_simple:
  assumes "starts cfg (cd_base c) (b # x)" and "drop_bit 5 b = 7" and "cb_argument cfg 7 (b AND 0x1f) = sret a"
  shows "cb_read_token cfg c = cb_simple cfg a (cb_past c [b])"
proof -
  have "yields cfg (cb_read_head cfg) ([b] @ []) (7, a)"
    unfolding cb_read_head_def
    by (rule yields_sbind[OF yields_take]) (simp_all add: Let_def assms(2,3) sbind_sret_left yields_ret del: sop_simps)
  then have "yields cfg (cb_read_head cfg) [b] (7, a)" by simp
  moreover have "starts cfg (cd_base c) [b]" using assms(1) starts_append[of cfg "cd_base c" "[b]" x] by simp
  ultimately have "onto (cb_read_head cfg) c = (Inr (7, a), cb_past c [b])" by (rule onto_yields)
  then show ?thesis by (simp add: cb_read_token.simps[of cfg c] cb_payload_def)
qed

lemma onto_take:
  assumes "starts cfg (cd_base c) x" and "length x = n"
  shows "onto (dec_take cfg n) c = (Inr x, cb_past c x)"
  using onto_yields[OF yields_take[OF assms(2)[symmetric]] assms(1)] .

lemma token_unsigned:
  assumes "starts cfg (cd_base c) (cbor_unsigned_of v)" and "frames_open c"
  shows "cb_read_token cfg c = (Inr (token_of (unsigned_norm v)), cb_past c (cbor_unsigned_of v))"
proof (cases "v \<le> 0xffffffffffffffff")
  case True
  then show ?thesis
    using token_head[of cfg c 0 "ucast v" "[]"] assms by (simp add: cbor_unsigned_of_def unsigned_norm_def cb_payload_def cb_value_def sbind_def)
next
  case False
  then show ?thesis using token_tag[of cfg c 2 v] assms by (simp add: cbor_unsigned_of_def unsigned_norm_def)
qed

lemma negative_ucast: "- 1 - (ucast (- 1 - v :: u128) :: u64) = ucast v"
proof -
  have m: "- 1 - w = NOT w" for w :: "'a::len word" by (simp add: not_eq_complement)
  have "ucast (NOT v) = (NOT (ucast v) :: u64)" by (rule bit_word_eqI) (auto simp: bit_simps)
  then show ?thesis by (simp only: m bit.double_compl)
qed

lemma negative_wide:
  assumes "(- 1 - v :: u128) \<le> 0xffffffffffffffff"
  shows "- 1 - ucast (ucast (- 1 - v) :: u64) = v"
proof -
  have "ucast (ucast (- 1 - v) :: u64) = - 1 - v"
    using assms by (intro ucast_back(1)) (simp add: word_le_nat_alt)
  then show ?thesis by simp
qed

lemma token_signed:
  assumes "starts cfg (cd_base c) (cbor_signed_of v)" and "frames_open c"
  shows "cb_read_token cfg c = (Inr (token_of (signed_norm v)), cb_past c (cbor_signed_of v))"
proof -
  consider "0 \<le> sint v" | "sint v < 0" "- 1 - v \<le> 0xffffffffffffffff" | "sint v < 0" "\<not> - 1 - v \<le> 0xffffffffffffffff"
    by linarith
  then show ?thesis
  proof cases
    case 1
    then show ?thesis using token_unsigned[of cfg c v] assms by (simp add: cbor_signed_of_def signed_norm_def)
  next
    case 2
    have n: "ucast (- 1 - v) \<le> (0x7fffffffffffffff :: u64) \<longleftrightarrow> - 1 - v \<le> 0x7fffffffffffffff"
      using ucast_back(2)[of "- 1 - v", where 'b = 64] 2(2) by (simp add: word_le_nat_alt)
    show ?thesis
      using token_head[of cfg c 1 "ucast (- 1 - v)" "[]"] assms 2 n negative_ucast[of v] negative_wide[OF 2(2)]
      by (simp add: cbor_signed_of_def signed_norm_def cb_payload_def cb_value_def sbind_def)
  next
    case 3
    then have "\<not> - 1 - v \<le> 0x7fffffffffffffff" by (simp add: word_le_nat_alt)
    then show ?thesis using token_tag[of cfg c 3 "- 1 - v"] assms 3 by (simp add: cbor_signed_of_def signed_norm_def)
  qed
qed

lemma token_text:
  assumes "starts cfg (cd_base c) (cbor_text_of s)" and "frames_open c" and "str_ok s"
  shows "cb_read_token cfg c = (Inr (TStr s), cb_past c (cbor_text_of s))"
proof -
  let ?h = "cb_head_bytes 3 (of_nat (length s))"
  have s: "starts cfg (cd_base c) (?h @ s)" "starts cfg (cd_base (cb_past c ?h)) s"
    using assms(1) by (simp_all add: cbor_text_of_def starts_append)
  have "onto (cb_read_text cfg (HValue (of_nat (length s)))) (cb_past c ?h) = (Inr (TStr s), cb_past c (?h @ s))"
    using onto_yields[OF yields_text[OF assms(3)] s(2)] by simp
  then show ?thesis using token_head[OF s(1)] assms(2) by (simp add: cb_payload_def cbor_text_of_def)
qed

lemma token_scalar:
  assumes "starts cfg (cd_base c) (cbor_wire v)" and "frames_open c" and "strings_ok v" and "height v = 0"
  shows "cb_read_token cfg c = (Inr (token_of (cbor_norm v)), cb_past c (cbor_wire v))"
proof (cases v)
  case (JU64 x)
  have "ucast x \<le> (0xffffffffffffffff :: u128) \<and> ucast (ucast x :: u128) = x"
    using ucast_back[of x, where 'b = 128] unsigned_less[of x, where ?'a = nat] by (simp add: word_le_nat_alt)
  then show ?thesis using token_unsigned[of cfg c "ucast x"] assms JU64 by (simp add: unsigned_norm_def)
next
  case (JF64 x)
  have s: "starts cfg (cd_base c) ([0xfb] @ to_be_bytes x)" using assms(1) JF64 by simp
  then have "starts cfg (cd_base (cb_past c [0xfb])) (to_be_bytes x)" by (simp add: starts_append del: append_Cons append_Nil)
  from onto_take[where n = 8, OF this] show ?thesis
    using token_simple[where c = c and b = "0xfb" and x = "to_be_bytes x" and a = HFloat64] s assms(2) JF64
    by (simp add: cb_argument_def cb_simple_def from_to_be_bytes)
next
  case (JF32 x)
  have s: "starts cfg (cd_base c) ([0xfa] @ to_be_bytes x)" using assms(1) JF32 by simp
  then have "starts cfg (cd_base (cb_past c [0xfa])) (to_be_bytes x)" by (simp add: starts_append del: append_Cons append_Nil)
  from onto_take[where n = 4, OF this] show ?thesis
    using token_simple[where c = c and b = "0xfa" and x = "to_be_bytes x" and a = HFloat32] s assms(2) JF32
    by (simp add: cb_argument_def cb_simple_def from_to_be_bytes)
next
  case JNull
  then show ?thesis using token_simple[where c = c and b = "0xf6" and x = "[]" and a = "HValue 22"] assms by (simp add: cb_argument_def cb_simple_def)
next
  case (JBool b)
  then show ?thesis
    using token_simple[where c = c and b = "0xf5" and x = "[]" and a = "HValue 21"] token_simple[where c = c and b = "0xf4" and x = "[]" and a = "HValue 20"] assms
    by (cases b) (simp_all add: cb_argument_def cb_simple_def)
qed (use assms token_unsigned token_signed token_text in auto)

section \<open>The methods of the decoder\<close>

definition cbor_methods :: "config \<Rightarrow> cbor_decoder format_decoder" where
  "cbor_methods cfg = \<lparr> fd_peek_token = cbor_peek_token cfg, fd_unit = cbor_unit cfg, fd_bool = cbor_bool cfg,
     fd_number = cbor_number cfg, fd_string = cbor_string cfg, fd_begin_array = cbor_begin_array cfg,
     fd_has_more = cbor_has_more cfg, fd_entry_sep = cbor_entry_sep cfg, fd_end_array = cbor_end_container cfg ArrayKind,
     fd_begin_object = cbor_begin_object cfg, fd_object_key = cbor_object_key cfg,
     fd_end_object = cbor_end_container cfg ObjectKind \<rparr>"

lemma cbor_methods_simps [simp]:
  "fd_peek_token (cbor_methods cfg) = cbor_peek_token cfg" "fd_unit (cbor_methods cfg) = cbor_unit cfg"
  "fd_bool (cbor_methods cfg) = cbor_bool cfg" "fd_number (cbor_methods cfg) = cbor_number cfg"
  "fd_string (cbor_methods cfg) = cbor_string cfg" "fd_begin_array (cbor_methods cfg) = cbor_begin_array cfg"
  "fd_has_more (cbor_methods cfg) = cbor_has_more cfg" "fd_entry_sep (cbor_methods cfg) = cbor_entry_sep cfg"
  "fd_end_array (cbor_methods cfg) = cbor_end_container cfg ArrayKind" "fd_begin_object (cbor_methods cfg) = cbor_begin_object cfg"
  "fd_object_key (cbor_methods cfg) = cbor_object_key cfg" "fd_end_object (cbor_methods cfg) = cbor_end_container cfg ObjectKind"
  by (simp_all add: cbor_methods_def)

section \<open>The client reads values back\<close>

definition cb_open :: "container_kind \<Rightarrow> cbor_decoder \<Rightarrow> cbor_decoder" where
  "cb_open kind c = c\<lparr>cd_frames := cd_frames c @ [\<lparr> fr_kind = kind, fr_definite = None \<rparr>],
     cd_base := (cd_base c)\<lparr>d_depth := d_depth (cd_base c) + 1\<rparr>\<rparr>"

definition cb_count :: "cbor_decoder \<Rightarrow> nat \<Rightarrow> cbor_decoder" where
  "cb_count c k = c\<lparr>cd_base := with_count (cd_base c) k\<rparr>"

lemma cb_state_simps [simp]:
  "cd_base (cb_count c k) = with_count (cd_base c) k" "cd_frames (cb_count c k) = cd_frames c"
  "cb_count (cb_past c x) k = cb_past (cb_count c k) x" "cb_count (cb_count c j) k = cb_count c k"
  "frames_open (cb_count c k) = frames_open c"
  "cd_frames (cb_open kind c) = cd_frames c @ [\<lparr> fr_kind = kind, fr_definite = None \<rparr>]"
  "cd_base (cb_open kind c) = (cd_base c)\<lparr>d_depth := d_depth (cd_base c) + 1\<rparr>"
  "frames_open (cb_open kind c) = frames_open c"
  "cd_base (cb_look t c) = (cd_base c)\<lparr>d_lookahead := t\<rparr>" "cd_frames (cb_look t c) = cd_frames c"
  by (auto simp: cb_count_def cb_past_def frames_open_def cb_open_def cb_look_def)

definition cb_decodable :: "config \<Rightarrow> cbor_decoder \<Rightarrow> jv \<Rightarrow> bool" where
  "cb_decodable cfg c v \<longleftrightarrow> d_lookahead (cd_base c) = None \<and> starts cfg (cd_base c) (cbor_wire v) \<and> strings_ok v \<and>
     counted True (c_collection_limit cfg) v \<and> (height v = 0 \<or> d_depth (cd_base c) + height v \<le> MAX_DEPTH) \<and>
     frames_open c \<and> length (d_counts (cd_base c)) = MAX_DEPTH \<and>
     (\<forall>i<MAX_DEPTH. d_depth (cd_base c) \<le> i \<longrightarrow> d_counts (cd_base c) ! i = 0)"

definition cb_inside :: "container_kind \<Rightarrow> cbor_decoder \<Rightarrow> nat \<Rightarrow> bool" where
  "cb_inside kind c k \<longleftrightarrow> d_lookahead (cd_base c) = None \<and> 0 < d_depth (cd_base c) \<and> d_depth (cd_base c) \<le> MAX_DEPTH \<and>
     d_counts (cd_base c) ! (d_depth (cd_base c) - 1) = k \<and> k < d_cursor (cd_base c) \<and> frames_open c \<and>
     length (d_counts (cd_base c)) = MAX_DEPTH \<and> (\<forall>i<MAX_DEPTH. d_depth (cd_base c) \<le> i \<longrightarrow> d_counts (cd_base c) ! i = 0) \<and>
     (\<exists>fs. cd_frames c = fs @ [\<lparr> fr_kind = kind, fr_definite = None \<rparr>])"

lemma inside_top: "cb_inside kind c k \<Longrightarrow> cd_top c = Some \<lparr> fr_kind = kind, fr_definite = None \<rparr>"
  by (auto simp: cb_inside_def cd_top_def)

lemma cb_peek_starts:
  assumes "starts cfg d (b # x)" shows "cb_peek_byte cfg d = Inr b"
proof -
  have "d_cursor d < length (d_input d)" "d_input d ! d_cursor d = b"
    using peek_starts[OF assms] by (auto simp: peek_byte_def split: if_splits)
  moreover have "d_cursor d + 1 \<le> usize_max" "within (c_limit cfg) (d_cursor d + 1)"
    using assms within_mono[of "c_limit cfg" "d_cursor d + length (b # x)" "d_cursor d + 1"] by (auto simp: starts_def)
  ultimately show ?thesis by (simp add: cb_peek_byte_def check_limit_if min_def)
qed

lemma head_not_break:
  assumes "major < 7"
  shows "\<exists>b x. cb_head_bytes major a = b # x \<and> b \<noteq> 0xff"
proof -
  have b: "push_bit 5 major OR x \<noteq> 0xff" if "x < 32" for x
  proof
    assume "push_bit 5 major OR x = 0xff"
    then have "drop_bit 5 (push_bit 5 major OR x) = (7 :: byte)" by (simp only:) simp
    then show False using five_bits(1)[OF that, of major] assms by (auto simp: word_less_nat_alt)
  qed
  have "ucast a < (32 :: byte)" if "a < 24"
    using small_ucast[OF that] by (auto simp: word_less_nat_alt word_le_nat_alt)
  then show ?thesis using b by (simp add: cb_head_bytes_def Let_def)
qed

lemma cbor_wire_first: "\<exists>b x. cbor_wire v = b # x \<and> b \<noteq> 0xff"
proof -
  have h: "\<exists>b x. cb_head_bytes major a @ y = b # x \<and> b \<noteq> 0xff" if "major < 7" for major a y
    using head_not_break[OF that, of a] by auto
  have u: "\<exists>b x. cbor_unsigned_of w = b # x \<and> b \<noteq> 0xff" "\<exists>b x. cbor_signed_of w = b # x \<and> b \<noteq> 0xff" for w
    using h[of 0 _ "[]"] h[of 1 _ "[]"] h[of 6] by (simp_all add: cbor_unsigned_of_def cbor_signed_of_def cbor_bignum_of_def)
  have t: "\<exists>b x. cbor_text_of s = b # x \<and> b \<noteq> 0xff" for s using h[of 3] by (simp add: cbor_text_of_def)
  show ?thesis using u t by (cases v) auto
qed

lemma cb_peeked:
  assumes "cb_decodable cfg c v" and "height v = 0"
  shows "cbor_peek_token cfg c = (Inr (token_of (cbor_norm v)), cb_look (Some (token_of (cbor_norm v))) (cb_past c (cbor_wire v)))"
  using assms token_scalar[of cfg c v] by (simp add: cbor_peek_token_def cb_decodable_def)

lemma cb_take_look: "cbor_take_token cfg (cb_look (Some t) c) = (Inr t, cb_look None c)"
  by (simp add: cbor_take_token_def cb_look_def)

lemma cb_look_id: "d_lookahead (cd_base c) = None \<Longrightarrow> cb_look None c = c"
  by (simp add: cb_look_def)

lemma cb_client_scalar:
  assumes "cb_decodable cfg c v" and "height v = 0" and "0 < n"
  shows "client_value (cbor_methods cfg) n c = (Inr (cbor_norm v), cb_past c (cbor_wire v))"
proof -
  obtain m where n: "n = Suc m" using assms(3) by (cases n) auto
  have t: "cbor_take_token cfg (cb_look (Some x) (cb_past c y)) = (Inr x, cb_past c y)" for x y
    using assms(1) by (simp add: cb_take_look cb_look_id cb_decodable_def)
  show ?thesis using assms(2)
    by (cases v) (simp_all add: n client_steps cb_peeked[OF assms(1,2)] t cbor_unit_def cbor_bool_def cbor_number_def cbor_string_def
        unsigned_norm_def signed_norm_def)
qed

lemma cb_container_token:
  assumes "starts cfg (cd_base c) [b]" and "frames_open c" and "d_depth (cd_base c) < MAX_DEPTH"
    and "b = 0x9f \<and> kind = ArrayKind \<and> t = TBeginArray \<or> b = 0xbf \<and> kind = ObjectKind \<and> t = TBeginObject"
  shows "cb_read_token cfg c = (Inr t, cb_open kind (cb_past c [b]))"
proof -
  define major :: byte where "major = (if b = 0x9f then 4 else 5)"
  have "drop_bit 5 b = major" "b AND 0x1f = 0x1f" using assms(4) by (auto simp: major_def)
  moreover have "cb_argument cfg major 0x1f = sret HIndefinite" by (simp add: cb_argument_def major_def)
  ultimately have "yields cfg (cb_read_head cfg) ([b] @ []) (major, HIndefinite)"
    unfolding cb_read_head_def
    by (intro yields_sbind[OF yields_take]) (simp_all add: Let_def sbind_sret_left yields_ret del: sop_simps)
  then have h: "onto (cb_read_head cfg) c = (Inr (major, HIndefinite), cb_past c [b])"
    using onto_yields[of cfg "cb_read_head cfg" "[b]" _ c] assms(1) by simp
  have e: "cbor_enter cfg kind None (cb_past c [b]) = (Inr (), cb_open kind (cb_past c [b]))"
    using assms(3) by (simp add: cbor_enter_def cb_open_def)
  show ?thesis using assms(2,4) h e
    by (auto simp: cb_read_token.simps[of cfg c] major_def cb_payload_def cb_definite_def)
qed

lemma cb_client_open:
  assumes "cb_decodable cfg c v" and "0 < height v"
    and "b = 0x9f \<and> kind = ArrayKind \<and> t = TBeginArray \<or> b = 0xbf \<and> kind = ObjectKind \<and> t = TBeginObject"
    and "starts cfg (cd_base c) [b]"
  shows "cbor_peek_token cfg c = (Inr t, cb_look (Some t) (cb_open kind (cb_past c [b])))"
    and "cbor_take_token cfg (cb_look (Some t) (cb_open kind (cb_past c [b]))) = (Inr t, cb_open kind (cb_past c [b]))"
    and "cb_inside kind (cb_open kind (cb_past c [b])) 0"
proof -
  have l: "d_lookahead (cd_base c) = None" and d: "d_depth (cd_base c) < MAX_DEPTH" and f: "frames_open c"
    using assms(1,2) by (auto simp: cb_decodable_def)
  show "cbor_peek_token cfg c = (Inr t, cb_look (Some t) (cb_open kind (cb_past c [b])))"
    using cb_container_token[OF assms(4) f d assms(3)] l by (simp add: cbor_peek_token_def)
  show "cbor_take_token cfg (cb_look (Some t) (cb_open kind (cb_past c [b]))) = (Inr t, cb_open kind (cb_past c [b]))"
    using l by (simp add: cb_take_look cb_look_id)
  show "cb_inside kind (cb_open kind (cb_past c [b])) 0"
    using assms(1) d by (auto simp: cb_inside_def cb_decodable_def)
qed

lemma cb_has_more_starts:
  assumes "cb_inside kind c k" and "starts cfg (cd_base c) (b # x)"
  shows "cbor_has_more cfg c = (Inr (b \<noteq> 0xff), c)"
  using cb_peek_starts[OF assms(2)] inside_top[OF assms(1)] assms(1) by (simp add: cbor_has_more_def cb_inside_def)

lemma cb_count_step:
  assumes "cb_inside kind c k" and "0 < length x"
  shows "cb_inside kind (cb_past c x) k" and "cb_inside kind (cb_count (cb_past c x) (Suc k)) (Suc k)"
  using assms by (cases x; auto simp: cb_inside_def with_count_def nth_list_update)+

lemma cb_sep_after:
  assumes "cb_inside kind c k" and "0 < length x" and "starts cfg (cd_base c) (x @ y @ [0xff])" and "y = [] \<or> hd y \<noteq> 0xff"
    and "within (c_collection_limit cfg) (Suc k)"
  shows "cbor_entry_sep cfg (cb_past c x) = (Inr (y \<noteq> []), cb_count (cb_past c x) (Suc k))"
proof -
  obtain b z where b: "y @ [0xff] = b # z" by (cases "y @ [0xff]") auto
  then have n: "b \<noteq> 0xff \<longleftrightarrow> y \<noteq> []" using assms(4) by (cases y) auto
  have st: "starts cfg (past (cd_base c) x) (b # z)" using assms(3) b by (simp add: starts_append)
  have "Suc k \<le> usize_max" using assms(1,3) by (auto simp: cb_inside_def starts_def)
  then have c: "onto (cbor_count_element cfg) (cb_past c x) = (Inr (), cb_count (cb_past c x) (Suc k))"
    using assms(1,5) by (auto simp: onto_def cbor_count_element_def cb_inside_def Let_def check_collection_if with_count_def cb_count_def cb_past_def past_def)
  show ?thesis
    using c cb_has_more_starts[OF cb_count_step(2)[OF assms(1,2)], of cfg b z] st n by (simp add: cbor_entry_sep_def)
qed

lemma cb_close:
  assumes "cb_decodable cfg c v" and "0 < height v" and "starts cfg (cd_base c) (x @ [0xff])"
  shows "cbor_end_container cfg kind (cb_count (cb_open kind (cb_past c x)) k) = (Inr (), cb_past c (x @ [0xff]))"
proof -
  let ?d = "cd_base c"
  have d: "d_lookahead ?d = None" "d_depth ?d < MAX_DEPTH" "length (d_counts ?d) = MAX_DEPTH" "d_counts ?d ! d_depth ?d = 0"
    using assms(1,2) by (auto simp: cb_decodable_def)
  have z: "(d_counts ?d)[d_depth ?d := 0] = d_counts ?d" using d(4) by (metis list_update_id)
  have "starts cfg (cd_base (cb_count (cb_open kind (cb_past c x)) k)) [0xff]" using assms(3) by (simp add: starts_append)
  note p = cb_peek_starts[OF this]
  show ?thesis using p d z
    by (simp add: cbor_end_container_def cd_top_def cb_check_drained_def cbor_pop_frame_def Let_def with_count_def
        cb_past_def past_def cb_count_def cb_open_def)
qed

lemma cb_decodable_inside:
  assumes "cb_inside kind c k" and "starts cfg (cd_base c) (cbor_wire v)" and "strings_ok v"
    and "counted True (c_collection_limit cfg) v" and "d_depth (cd_base c) + height v \<le> MAX_DEPTH"
  shows "cb_decodable cfg c v"
  using assms by (simp add: cb_decodable_def cb_inside_def)

lemma cbor_elems_hd: "cbor_wire_elems vs = [] \<longleftrightarrow> vs = []" "vs \<noteq> [] \<Longrightarrow> hd (cbor_wire_elems vs) \<noteq> 0xff"
proof -
  obtain b x where b: "vs = [] \<or> cbor_wire (hd vs) = b # x \<and> b \<noteq> 0xff" using cbor_wire_first by blast
  then show "cbor_wire_elems vs = [] \<longleftrightarrow> vs = []" "vs \<noteq> [] \<Longrightarrow> hd (cbor_wire_elems vs) \<noteq> 0xff"
    by (cases vs; simp)+
qed

lemma cbor_text_first: "\<exists>b x. cbor_text_of s = b # x \<and> b \<noteq> 0xff"
  using head_not_break[of 3 "of_nat (length s)"] by (auto simp: cbor_text_of_def)

lemma cbor_fields_hd: "cbor_wire_fields fs = [] \<longleftrightarrow> fs = []" "fs \<noteq> [] \<Longrightarrow> hd (cbor_wire_fields fs) \<noteq> 0xff"
proof -
  obtain b x where b: "fs = [] \<or> cbor_text_of (fst (hd fs)) = b # x \<and> b \<noteq> 0xff" using cbor_text_first by blast
  then show "cbor_wire_fields fs = [] \<longleftrightarrow> fs = []" "fs \<noteq> [] \<Longrightarrow> hd (cbor_wire_fields fs) \<noteq> 0xff"
    by (cases fs; cases "hd fs"; simp)+
qed

lemma cbor_wire_nonempty: "0 < length (cbor_wire v)"
  using cbor_wire_first[of v] by auto

lemma cb_key_starts:
  assumes "cb_inside ObjectKind c k" and "starts cfg (cd_base c) (cbor_text_of s)" and "str_ok s"
  shows "cbor_object_key cfg c = (Inr (Some s), cb_past c (cbor_text_of s))"
proof -
  obtain b x where b: "cbor_text_of s = b # x" "b \<noteq> 0xff" using cbor_text_first by blast
  have y: "yields cfg (sbind (cb_read_text cfg (HValue (of_nat (length s)))) (\<lambda>t. case t of
        TStr key \<Rightarrow> sret (Some key) | _ \<Rightarrow> sfail (Panic ''read_text always returns a string token''))) s (Some s)"
    by (rule yields_map[OF yields_text[OF assms(3)]]) simp
  have "yields cfg (sbind (cb_read_head cfg) (\<lambda>(major, argument).
     if major \<noteq> 3 then sfail (invalid_type ''an object key string''
        (if major = 0 \<or> major = 1 \<or> major = 7 then TNumber (U64 0) else if major = 4 then TBeginArray
         else if major = 5 then TBeginObject else TNull))
     else sbind (cb_read_text cfg argument) (\<lambda>t. case t of
        TStr key \<Rightarrow> sret (Some key) | _ \<Rightarrow> sfail (Panic ''read_text always returns a string token''))))
     (cbor_text_of s) (Some s)"
    unfolding cbor_text_of_def by (rule yields_sbind[OF yields_head]) (simp_all add: y del: sop_simps)
  then have "cb_key_text cfg c = (Inr (Some s), cb_past c (cbor_text_of s))"
    unfolding cb_key_text_def by (rule onto_yields) (rule assms(2))
  then show ?thesis
    using inside_top[OF assms(1)] assms(1) cb_peek_starts[of cfg "cd_base c" b x] assms(2) b
    by (simp add: cbor_object_key_def cb_inside_def)
qed

lemma cb_key_end:
  assumes "cb_inside ObjectKind c k" and "starts cfg (cd_base c) [0xff]"
  shows "cbor_object_key cfg c = (Inr None, c)"
  using inside_top[OF assms(1)] assms(1) cb_peek_starts[OF assms(2)] by (simp add: cbor_object_key_def cb_inside_def)

lemma cb_count_same: "cb_inside kind c k \<Longrightarrow> cb_count c k = c"
  using with_count_same[of "cd_base c" k] by (simp add: cb_inside_def cb_count_def)

lemma cb_starts_open: "starts cfg (cd_base (cb_open kind c)) x = starts cfg (cd_base c) x"
  by (simp add: starts_def)

lemma cb_past_open: "cb_past (cb_open kind c) x = cb_open kind (cb_past c x)"
  by (cases c; cases "cd_base c") (simp add: cb_open_def cb_past_def past_def)

lemma cb_client_wire:
  shows "cb_decodable cfg c v \<Longrightarrow> length (cbor_wire v) \<le> n \<Longrightarrow>
      client_value (cbor_methods cfg) n c = (Inr (cbor_norm v), cb_past c (cbor_wire v))"
    and "vs \<noteq> [] \<Longrightarrow> cb_inside ArrayKind c k \<Longrightarrow> starts cfg (cd_base c) (cbor_wire_elems vs @ [0xff]) \<Longrightarrow>
      strings_ok_elems vs \<Longrightarrow> counted_elems True (c_collection_limit cfg) vs \<Longrightarrow>
      within (c_collection_limit cfg) (k + length vs) \<Longrightarrow> d_depth (cd_base c) + height_elems vs \<le> MAX_DEPTH \<Longrightarrow>
      length (cbor_wire_elems vs) < n \<Longrightarrow>
      client_elems (cbor_methods cfg) n c =
        (Inr (cbor_norm_elems vs), cb_count (cb_past c (cbor_wire_elems vs)) (k + length vs))"
    and "cb_inside ObjectKind c k \<Longrightarrow> starts cfg (cd_base c) (cbor_wire_fields fs @ [0xff]) \<Longrightarrow>
      strings_ok_fields fs \<Longrightarrow> counted_fields True (c_collection_limit cfg) fs \<Longrightarrow>
      within (c_collection_limit cfg) (k + length fs) \<Longrightarrow> d_depth (cd_base c) + height_fields fs \<le> MAX_DEPTH \<Longrightarrow>
      length (cbor_wire_fields fs) < n \<Longrightarrow>
      client_fields (cbor_methods cfg) n c =
        (Inr (cbor_norm_fields fs), cb_count (cb_past c (cbor_wire_fields fs)) (k + length fs))"
proof (induction v and vs and fs arbitrary: n c and n c k and n c k rule: cbor_wire_cbor_wire_elems_cbor_wire_fields.induct)
  case (10 vs)
  then obtain m where n: "n = Suc m" by (cases n) auto
  let ?c = "cb_open ArrayKind (cb_past c [0x9f])"
  have s: "starts cfg (cd_base c) (0x9f # cbor_wire_elems vs @ [0xff])" using 10(2) by (simp add: cb_decodable_def)
  note sc = starts_container[OF s]
  have "0 < height (JArr vs)" by simp
  note op = cb_client_open[OF 10(2) this _ sc(1), of ArrayKind TBeginArray, simplified]
  have st: "starts cfg (cd_base ?c) (cbor_wire_elems vs @ [0xff])" using starts_tail[OF s] by (simp add: starts_def)
  have "cbor_has_more cfg ?c = (Inr (vs \<noteq> []), ?c) \<and>
      (if vs \<noteq> [] then client_elems (cbor_methods cfg) m else sret []) ?c =
      (Inr (cbor_norm_elems vs), cb_count (cb_past ?c (cbor_wire_elems vs)) (length vs))"
  proof (cases "vs = []")
    case True
    then show ?thesis
      using cb_has_more_starts[OF op(3), of cfg "0xff" "[]"] st cb_count_same[OF op(3)] by simp
  next
    case False
    then obtain b x where b: "cbor_wire_elems vs = b # x" "b \<noteq> 0xff"
      using cbor_elems_hd[of vs] by (cases "cbor_wire_elems vs") auto
    have "client_elems (cbor_methods cfg) m ?c =
        (Inr (cbor_norm_elems vs), cb_count (cb_past ?c (cbor_wire_elems vs)) (0 + length vs))"
      by (rule 10(1)[OF False op(3) st]) (use 10(2,3) n in \<open>auto simp: cb_decodable_def\<close>)
    then show ?thesis using cb_has_more_starts[OF op(3), of cfg b "x @ [0xff]"] st b False by simp
  qed
  moreover have "cbor_end_container cfg ArrayKind (cb_count (cb_past ?c (cbor_wire_elems vs)) (length vs)) =
      (Inr (), cb_past c (cbor_wire (JArr vs)))"
    using cb_close[OF 10(2) \<open>0 < height (JArr vs)\<close>, of "0x9f # cbor_wire_elems vs" ArrayKind "length vs"] s by (simp add: cb_past_open)
  ultimately show ?case
    unfolding n using op by (simp add: client_steps cbor_begin_array_def)
next
  case (11 fs)
  then obtain m where n: "n = Suc m" by (cases n) auto
  let ?c = "cb_open ObjectKind (cb_past c [0xbf])"
  have s: "starts cfg (cd_base c) (0xbf # cbor_wire_fields fs @ [0xff])" using 11(2) by (simp add: cb_decodable_def)
  have h: "0 < height (JObj fs)" by simp
  note op = cb_client_open[OF 11(2) h _ starts_container(1)[OF s], of ObjectKind TBeginObject, simplified]
  have st: "starts cfg (cd_base ?c) (cbor_wire_fields fs @ [0xff])" using starts_tail[OF s] by (simp add: starts_def)
  have "client_fields (cbor_methods cfg) m ?c =
        (Inr (cbor_norm_fields fs), cb_count (cb_past ?c (cbor_wire_fields fs)) (0 + length fs))"
    by (rule 11(1)[OF op(3) st]) (use 11(2,3) n in \<open>auto simp: cb_decodable_def\<close>)
  moreover have "cbor_end_container cfg ObjectKind (cb_count (cb_past ?c (cbor_wire_fields fs)) (length fs)) =
      (Inr (), cb_past c (cbor_wire (JObj fs)))"
    using cb_close[OF 11(2) h, of "0xbf # cbor_wire_fields fs" ObjectKind "length fs"] s by (simp add: cb_past_open)
  ultimately show ?case
    unfolding n using op by (simp add: client_steps cbor_begin_object_def)
next
  case 12
  then show ?case by simp
next
  case (13 v vs)
  then obtain m where n: "n = Suc m" by (cases n) auto
  let ?x = "cbor_wire v" and ?y = "cbor_wire_elems vs"
  have st: "starts cfg (cd_base c) (?x @ ?y @ [0xff])" using 13(5) by simp
  then have st2: "starts cfg (cd_base c) ?x" "starts cfg (past (cd_base c) ?x) (?y @ [0xff])"
    by (simp_all add: starts_append)
  have len: "0 < length ?x" by (rule cbor_wire_nonempty)
  have m: "length ?y < m" using 13(10) n len by (simp del: length_greater_0_conv)
  have v: "client_value (cbor_methods cfg) m c = (Inr (cbor_norm v), cb_past c ?x)"
    by (rule 13(1)[OF cb_decodable_inside[OF 13(4) st2(1)]]) (use 13 n in auto)
  have cl: "within (c_collection_limit cfg) (Suc k)"
    using 13(8) by (rule within_mono) simp
  have sep: "cbor_entry_sep cfg (cb_past c ?x) = (Inr (vs \<noteq> []), cb_count (cb_past c ?x) (Suc k))"
    using cb_sep_after[OF 13(4) len st _ cl] cbor_elems_hd[of vs] by fastforce
  show ?case
  proof (cases "vs = []")
    case True
    then show ?thesis using v sep n by (simp add: client_steps)
  next
    case False
    have "client_elems (cbor_methods cfg) m (cb_count (cb_past c ?x) (Suc k)) = (Inr (cbor_norm_elems vs),
        cb_count (cb_past (cb_count (cb_past c ?x) (Suc k)) ?y) (Suc k + length vs))"
      by (rule 13(2)[OF False cb_count_step(2)[OF 13(4) len]]) (use 13(6-9) st2(2) m in auto)
    then show ?thesis using v sep n False by (simp add: client_steps)
  qed
next
  case 14
  then obtain m where n: "n = Suc m" by (cases n) auto
  show ?case
    unfolding n using cb_key_end[OF 14(1)] 14 cb_count_same[OF 14(1)] by (simp add: client_steps)
next
  case (15 s v fs)
  then obtain m where n: "n = Suc m" by (cases n) auto
  let ?k = "cbor_text_of s" and ?x = "cbor_wire v" and ?y = "cbor_wire_fields fs"
  let ?c = "cb_past c ?k"
  have st: "starts cfg (cd_base c) (?k @ ?x @ ?y @ [0xff])" using 15(4) by simp
  then have st2: "starts cfg (cd_base c) ?k" "starts cfg (cd_base ?c) (?x @ ?y @ [0xff])" "starts cfg (cd_base ?c) ?x"
    "starts cfg (past (cd_base ?c) ?x) (?y @ [0xff])"
    by (simp_all add: starts_append)
  have len: "0 < length ?x" "0 < length ?k"
    using cbor_wire_nonempty cb_int_nonempty(3)[of s] by simp_all
  have key: "cbor_object_key cfg c = (Inr (Some s), ?c)"
    using cb_key_starts[OF 15(3) st2(1)] 15(5) by simp
  have i: "cb_inside ObjectKind ?c k" by (rule cb_count_step(1)[OF 15(3) len(2)])
  have m: "length ?y < m" using 15(9) n len by (simp del: length_greater_0_conv)
  have v: "client_value (cbor_methods cfg) m ?c = (Inr (cbor_norm v), cb_past ?c ?x)"
    by (rule 15(1)[OF cb_decodable_inside[OF i st2(3)]]) (use 15 n in auto)
  have cl: "within (c_collection_limit cfg) (Suc k)"
    using 15(7) by (rule within_mono) simp
  have sep: "cbor_entry_sep cfg (cb_past ?c ?x) = (Inr (fs \<noteq> []), cb_count (cb_past ?c ?x) (Suc k))"
    using cb_sep_after[OF i len(1) st2(2) _ cl] cbor_fields_hd[of fs] by fastforce
  show ?case
  proof (cases "fs = []")
    case True
    then show ?thesis using key v sep n by (simp add: client_steps)
  next
    case False
    have "client_fields (cbor_methods cfg) m (cb_count (cb_past ?c ?x) (Suc k)) = (Inr (cbor_norm_fields fs),
        cb_count (cb_past (cb_count (cb_past ?c ?x) (Suc k)) ?y) (Suc k + length fs))"
      by (rule 15(2)[OF cb_count_step(2)[OF i len(1)]]) (use 15(5-9) st2(4) m in auto)
    then show ?thesis using key v sep n False by (simp add: client_steps)
  qed
qed (rule cb_client_scalar, assumption, simp, rule less_le_trans[OF cbor_wire_nonempty], assumption)+

section \<open>The entry points\<close>

lemma cbor_encode_streams:
  "\<not> cb_deterministic z \<Longrightarrow> cbor_encode_value to_value map_order lead z (events lead v) = Inr out \<longleftrightarrow>
    out = cbor_wire v \<and> counted lead (c_collection_limit (cb_base_config z)) v \<and> height v \<le> MAX_DEPTH \<and>
    length (cbor_wire v) \<le> usize_max \<and> within (c_limit (cb_base_config z)) (length (cbor_wire v))"
  using cb_to_vec_wire[of "cb_base_config z" lead v out]
  by (auto simp: cbor_encode_value_def rbind_eq_Inr cb_byte_limit_def check_limit_if split: if_splits)

text \<open>
  C37: what the CBOR encoder writes. In the streaming mode a value is encoded exactly when its containers
  nest to at most 128 levels and are within the collection limit, and its bytes are within the byte limit;
  the bytes are those of the CBOR grammar: shortest heads, bignums beyond 64 bits, indefinite containers.
\<close>

theorem cbor_encode_total:
  "cbor_encode_value to_value map_order lead (cbor_config_new cfg) (events lead v) = Inr out \<longleftrightarrow>
    out = cbor_wire v \<and> counted lead (c_collection_limit cfg) v \<and> height v \<le> MAX_DEPTH \<and>
    length (cbor_wire v) \<le> usize_max \<and> within (c_limit cfg) (length (cbor_wire v))"
  using cbor_encode_streams[of "cbor_config_new cfg"] by (simp add: cbor_config_new_def)

lemma cbor_decode_wire:
  assumes "reads_values (cbor_methods cfg) read" and "strings_ok v" and "counted True (c_collection_limit cfg) v"
    and "height v \<le> MAX_DEPTH" and "length (cbor_wire v) \<le> usize_max" and "within (c_limit cfg) (length (cbor_wire v))"
    and "length (cbor_wire v) \<le> n"
  shows "cbor_decode cfg (read n) (cbor_wire v @ rest) =
    (if c_trailing cfg = Reject \<and> rest \<noteq> [] then Inl (TrailingBytesError (length rest)) else Inr (cbor_norm v))"
proof -
  let ?c = "cbor_decoder_new (cbor_wire v @ rest)"
  have "client_value (cbor_methods cfg) n ?c = (Inr (cbor_norm v), cb_past ?c (cbor_wire v))"
    by (rule cb_client_wire(1)[OF _ assms(7)])
      (use assms(2-6) in \<open>simp add: cb_decodable_def cbor_decoder_new_def decoder_new_def starts_def frames_open_def\<close>)
  from readers_agree[OF assms(1) this] show ?thesis
    by (simp add: cbor_decode_def cbor_decoder_new_def decoder_new_def)
qed

text \<open>
  C36: round trip of the CBOR profile. Whatever the streaming encoder returns for a value, \<^verbatim>\<open>deserialize\<close>
  under the same configuration, with any reader of dynamic values, gives the value back in CBOR's own
  normal form: an integer as the narrowest of the decoder's four integer types, an \<^verbatim>\<open>f32\<close> as the \<^verbatim>\<open>f64\<close> of the
  same number, everything else as it was. Bytes that follow are left alone or reported, as long as they too
  are within the byte limit.
\<close>

theorem cbor_roundtrip:
  assumes "\<not> cb_deterministic z" and "reads_values (cbor_methods (cb_base_config z)) read"
    and "cbor_encode_value to_value map_order lead z (events lead v) = Inr out" and "strings_ok v"
    and "counted True (c_collection_limit (cb_base_config z)) v"
    and "within (c_limit (cb_base_config z)) (length (out @ rest))" and "length out \<le> n"
  shows "cbor_deserialize z (read n) (out @ rest) =
    (if c_trailing (cb_base_config z) = Reject \<and> rest \<noteq> [] then Inl (TrailingBytesError (length rest))
     else Inr (cbor_norm v))"
proof -
  have o: "out = cbor_wire v" "height v \<le> MAX_DEPTH" "length (cbor_wire v) \<le> usize_max"
    "within (c_limit (cb_base_config z)) (length (cbor_wire v))"
    using assms(3) unfolding cbor_encode_streams[OF assms(1)] by blast+
  show ?thesis
    using cbor_decode_wire[OF assms(2,4,5) o(2-4), of n rest] assms(6,7) o(1)
    by (simp add: cbor_deserialize_def cb_byte_limit_def check_limit_if)
qed

lemma cbor_small_heads:
  "cb_head_bytes 3 1 = [0x61]" "cb_head_bytes 1 4 = [0x24]"
  by (simp_all add: cb_head_bytes_def)

lemma sample_cbor_wire:
  "cbor_wire (JObj [([0x61], JArr [JI64 (- 5), JF32 0x3f800000, JNull])]) =
    [0xbf, 0x61, 0x61, 0x9f, 0x24, 0xfa, 0x3f, 0x80, 0, 0, 0xf6, 0xff, 0xff]"
proof -
  have n: "(scast (- 5 :: u64) :: u128) = - 5" by code_simp
  have "cbor_signed_of (- 5) = [0x24]" by (simp add: cbor_signed_of_def cbor_small_heads)
  moreover have "to_be_bytes (0x3f800000 :: u32) = [0x3f, 0x80, 0, 0]" by code_simp
  ultimately show ?thesis by (simp add: cbor_text_of_def cbor_small_heads n)
qed

theorem cbor_roundtrip_witness:
  "let z = cbor_config_new standard; v = JObj [([0x61], JArr [JI64 (- 5), JF32 0x3f800000, JNull])];
       out = [0xbf, 0x61, 0x61, 0x9f, 0x24, 0xfa, 0x3f, 0x80, 0, 0, 0xf6, 0xff, 0xff] in
   cbor_encode_value (\<lambda>_. Inr v) id True z (events True v) = Inr out \<and>
   cbor_deserialize z (client_value (cbor_methods standard) 13) (out @ [7]) = Inl (TrailingBytesError 1) \<and>
   cbor_deserialize z (client_value (cbor_methods standard) 13) out =
     Inr (JObj [([0x61], JArr [JI64 (- 5), JF64 0x3ff0000000000000, JNull])])"
proof -
  let ?z = "cbor_config_new standard" and ?v = "JObj [([0x61], JArr [JI64 (- 5), JF32 0x3f800000, JNull])]"
  let ?out = "[0xbf, 0x61, 0x61, 0x9f, 0x24, 0xfa, 0x3f, 0x80, 0, 0, 0xf6, 0xff, 0xff] :: byte list"
  have z: "\<not> cb_deterministic ?z" "cb_base_config ?z = standard" by (simp_all add: cbor_config_new_def)
  have c: "counted True (c_collection_limit (cb_base_config ?z)) ?v" by code_simp
  have e: "cbor_encode_value (\<lambda>_. Inr ?v) id True ?z (events True ?v) = Inr ?out"
    unfolding cbor_encode_streams[OF z(1)] sample_cbor_wire using c[unfolded z(2)] unfolding z(2)
    by (simp add: MAX_DEPTH_def standard_def DEFAULT_SIZE_LIMIT_def)
  have n: "(scast (- 5 :: u64) :: u128) = - 5" "(ucast (- 5 :: u128) :: u64) = - 5" by code_simp+
  have norm: "cbor_norm ?v = JObj [([0x61], JArr [JI64 (- 5), JF64 0x3ff0000000000000, JNull])]"
    by (simp add: signed_norm_def n f32_to_f64_def Let_def)
  have s: "strings_ok ?v" by code_simp
  have w: "within (c_limit (cb_base_config ?z)) (length (?out @ rest))" if "length rest \<le> 1" for rest :: "byte list"
    using that unfolding z(2) by (simp add: standard_def DEFAULT_SIZE_LIMIT_def)
  note r = cbor_roundtrip[OF z(1) client_reads e s c w, of _ 13, unfolded norm]
  have t: "c_trailing standard = Reject" by (simp add: standard_def)
  show ?thesis using r[of "[7]"] r[of "[]"] e by (simp add: z t del: client_value.simps)
qed

section \<open>Heads that stop the decoder\<close>

lemma head_indefinite:
  assumes "starts cfg (cd_base c) [b]" and "b AND 0x1f = 0x1f"
  shows "onto (cb_read_head cfg) c = (Inr (drop_bit 5 b, HIndefinite), cb_past c [b])"
proof -
  have "cb_argument cfg (drop_bit 5 b) 0x1f = sret HIndefinite" by (simp add: cb_argument_def)
  then have "yields cfg (cb_read_head cfg) ([b] @ []) (drop_bit 5 b, HIndefinite)"
    unfolding cb_read_head_def
    by (intro yields_sbind[OF yields_take]) (simp_all add: Let_def assms(2) sbind_sret_left yields_ret del: sop_simps)
  then show ?thesis using onto_yields[of cfg "cb_read_head cfg" "[b]" _ c] assms(1) by simp
qed

lemma reserved_token:
  assumes "starts cfg (cd_base c) [b]" and "b \<in> {0x1f, 0x3f, 0xdf}" and "frames_open c"
  shows "\<exists>msg c'. cb_read_token cfg c = (Inl (Panic msg), c')"
proof -
  have "b AND 0x1f = 0x1f" "drop_bit 5 b = 0 \<or> drop_bit 5 b = 1 \<or> drop_bit 5 b = 6" using assms(2) by auto
  then show ?thesis
    using head_indefinite[OF assms(1)] assms(3) by (auto simp: cb_read_token.simps[of cfg c] cb_payload_def cb_value_def)
qed

text \<open>
  Three bytes stop the decoder. Additional information 31 on an integer (\<^verbatim>\<open>1f\<close>, \<^verbatim>\<open>3f\<close>) or on a tag (\<^verbatim>\<open>df\<close>) is
  reserved in CBOR; the decoder takes it for an indefinite length and panics when it asks for its value,
  whatever reads the input and whatever follows it, in every configuration whose limit admits the input.
\<close>

theorem cbor_reserved_head_panics:
  assumes "b \<in> {0x1f, 0x3f, 0xdf}" and "reads_values (cbor_methods (cb_base_config z)) read"
    and "within (c_limit (cb_base_config z)) (length (b # rest))"
  shows "\<exists>msg. cbor_deserialize z (read (Suc n)) (b # rest) = Inl (Panic msg)"
proof -
  let ?c = "cbor_decoder_new (b # rest)"
  have w: "within (c_limit (cb_base_config z)) 1" using assms(3) by (rule within_mono) simp
  have c: "d_lookahead (cd_base ?c) = None" "frames_open ?c" "starts (cb_base_config z) (cd_base ?c) [b]"
    using w by (simp_all add: cbor_decoder_new_def decoder_new_def frames_open_def starts_def)
  obtain msg c' where t: "cb_read_token (cb_base_config z) ?c = (Inl (Panic msg), c')"
    using reserved_token[OF c(3) assms(1) c(2)] by blast
  obtain elems fs other where "read (Suc n) = value_step (cbor_methods (cb_base_config z)) elems fs other"
    using assms(2) unfolding reads_values_def by blast
  then have "fst (read (Suc n) ?c) = Inl (Panic msg)"
    using c(1) t by (simp add: value_step_def cbor_peek_token_def sbind_def)
  then show ?thesis
    using assms(3) by (cases "read (Suc n) ?c") (simp add: cbor_deserialize_def cb_byte_limit_def check_limit_if cbor_decode_def)
qed

theorem cbor_reserved_head_panics_witness:
  "\<exists>msg. cbor_deserialize (cbor_config_new standard) (client_value (cbor_methods standard) 1) [0x1f] = Inl (Panic msg)"
proof -
  have z: "cb_base_config (cbor_config_new standard) = standard" by (simp add: cbor_config_new_def)
  have l: "within (c_limit standard) (length [0x1f :: byte])" by (simp add: standard_def DEFAULT_SIZE_LIMIT_def)
  show ?thesis
    using cbor_reserved_head_panics[of "0x1f" "cbor_config_new standard" "client_value (cbor_methods standard)" "[]" 0] l
    by (simp add: z client_reads del: client_value.simps)
qed

text \<open>
  A null read through \<^verbatim>\<open>option_tag\<close> is not counted against the length of a definite array: after the only
  element of \<^verbatim>\<open>81 f6\<close> the decoder announces another one, while the same array of indefinite length ends.
\<close>

definition one_option :: "config \<Rightarrow> (cbor_decoder, bool) op" where
  "one_option cfg = sbind (cbor_begin_array cfg) (\<lambda>_. sbind (cbor_has_more cfg) (\<lambda>_. sbind (cbor_option_tag cfg) (\<lambda>_.
     cbor_entry_sep cfg)))"

lemma cbor_null_not_counted:
  "fst (one_option standard (cbor_decoder_new [0x81, 0xf6])) = Inr True"
  "fst (one_option standard (cbor_decoder_new [0x9f, 0xf6, 0xff])) = Inr False"
  by code_simp+

text \<open>A negative bignum below the range of \<^verbatim>\<open>i128\<close> comes back as a number that is not negative.\<close>

lemma cbor_negative_wraps:
  assumes "starts cfg (cd_base c) (cbor_bignum_of 3 v)" and "frames_open c" and "2 ^ 127 \<le> unat v"
  shows "\<exists>w. fst (cb_read_token cfg c) = Inr (TNumber (I128 w)) \<and> 0 \<le> sint w"
proof -
  have "unat v < 2 ^ 128" using unsigned_less[of v, where ?'a = nat] by simp
  then have "unat v div 2 ^ 127 = 1" using assms(3) by (simp add: div_nat_eqI)
  then have "bit (unat v) 127" by (simp only: bit_iff_odd) simp
  then have "bit v 127" by (simp add: bit_unsigned_iff)
  then have "\<not> bit (NOT v) 127" by (simp add: bit_simps)
  moreover have "- 1 - v = NOT v" by (simp add: not_eq_complement)
  ultimately have "\<not> bit (- 1 - v) 127" by (simp only:) simp
  then have "0 \<le> sint (- 1 - v)" using bit_last_iff[of "- 1 - v"] by simp
  then show ?thesis using token_tag[OF assms(1,2)] by simp
qed

section \<open>Deterministic encoding\<close>

lemma byte_lexord: "trans {(a, b :: byte). a < b}" "irrefl {(a, b :: byte). a < b}" "total {(a, b :: byte). a < b}"
  by (auto simp: trans_def irrefl_def total_on_def)

lemma canonical_total: "canonical_le a b \<or> canonical_le b a"
proof -
  have "\<forall>a b :: byte. (a, b) \<in> {(a, b). a < b} \<or> a = b \<or> (b, a) \<in> {(a, b). a < b}" by auto
  from lexord_linear[OF this, of a b] show ?thesis by (auto simp: canonical_le_def canonical_less_def)
qed

lemma canonical_less_irrefl: "\<not> canonical_less a a"
  using lexord_irrefl[OF byte_lexord(2), of] by (auto simp: canonical_less_def irrefl_def)

lemma canonical_less_trans: "canonical_less a b \<Longrightarrow> canonical_less b c \<Longrightarrow> canonical_less a c"
  using lexord_trans[OF _ _ byte_lexord(1), of a b c] by (auto simp: canonical_less_def)

lemma canonical_le_antisym: "canonical_le a b \<Longrightarrow> canonical_le b a \<Longrightarrow> a = b"
  using canonical_less_trans[of a b a] canonical_less_irrefl by (auto simp: canonical_le_def)

lemma canonical_le_trans: "canonical_le a b \<Longrightarrow> canonical_le b c \<Longrightarrow> canonical_le a c"
  using canonical_less_trans[of a b c] by (auto simp: canonical_le_def)

abbreviation ascending :: "(byte list \<times> jv) list \<Rightarrow> bool" where
  "ascending fs \<equiv> sorted_wrt canonical_less (map fst fs)"

lemma insert_entry_mset: "mset (insert_entry e fs) = add_mset e (mset fs)"
  by (induction fs) auto

lemma sort_entries_mset: "mset (sort_entries fs) = mset fs"
  by (induction fs) (simp_all add: sort_entries_def insert_entry_mset)

lemma insert_entry_sorted:
  "sorted_wrt canonical_le (map fst fs) \<Longrightarrow> sorted_wrt canonical_le (map fst (insert_entry e fs))"
proof (induction fs)
  case (Cons f fs)
  have "set (insert_entry e fs) = insert e (set fs)" using insert_entry_mset[of e fs] by (metis set_mset_add_mset_insert set_mset_mset)
  then show ?case using Cons canonical_total[of "fst e" "fst f"] by (auto intro: canonical_le_trans)
qed simp

lemma sort_entries_sorted: "sorted_wrt canonical_le (map fst (sort_entries fs))"
  by (induction fs) (simp_all add: sort_entries_def insert_entry_sorted)

lemma adjacent_sorted: "sorted_wrt canonical_le (map fst fs) \<Longrightarrow> \<not> adjacent_keys fs \<longleftrightarrow> ascending fs"
proof (induction fs rule: adjacent_keys.induct)
  case (1 e f fs)
  then show ?case using canonical_less_irrefl by (auto simp: canonical_le_def dest: canonical_less_trans)
qed simp_all

lemma ascending_distinct: "ascending fs \<Longrightarrow> distinct (map fst fs)"
  by (induction fs) (use canonical_less_irrefl in auto)

lemma ascending_unique: "ascending fs \<Longrightarrow> ascending gs \<Longrightarrow> mset fs = mset gs \<Longrightarrow> fs = gs"
proof (induction fs arbitrary: gs)
  case (Cons f fs)
  then obtain g gs' where g: "gs = g # gs'" by (cases gs) auto
  have "f = g"
  proof (rule ccontr)
    assume n: "f \<noteq> g"
    have "set (f # fs) = set (g # gs')" using Cons.prems(3) g by (metis mset_eq_setD)
    then have "f \<in> set gs'" "g \<in> set fs" using n by auto
    then have "canonical_less (fst g) (fst f)" "canonical_less (fst f) (fst g)" using Cons.prems(1,2) g by auto
    then show False using canonical_less_trans canonical_less_irrefl by blast
  qed
  then show ?case using Cons g by simp
qed simp

text \<open>Sorting the members of an object in any order ends in the same list, or in the same error.\<close>

lemma sort_entries_perm:
  assumes "mset fs = mset gs"
  shows "adjacent_keys (sort_entries fs) = adjacent_keys (sort_entries gs)"
    and "\<not> adjacent_keys (sort_entries fs) \<Longrightarrow> sort_entries fs = sort_entries gs"
proof -
  let ?s = "sort_entries fs" and ?t = "sort_entries gs"
  have m: "mset ?s = mset ?t" using assms by (simp add: sort_entries_mset)
  have a: "\<not> adjacent_keys hs \<longleftrightarrow> distinct (map fst hs)" if "sorted_wrt canonical_le (map fst hs)" for hs :: "(byte list \<times> jv) list"
    using that
  proof (induction hs rule: adjacent_keys.induct)
    case (1 e f hs)
    have "fst e = fst f" if member: "fst e \<in> fst ` set hs"
    proof -
      obtain h where h: "h \<in> set hs" "fst e = fst h" using member by (rule imageE)
      then have "canonical_le (fst e) (fst f)" "canonical_le (fst f) (fst e)" using 1(2) by auto
      then show ?thesis by (rule canonical_le_antisym)
    qed
    then have "fst e \<notin> fst ` set (f # hs) \<longleftrightarrow> fst e \<noteq> fst f" by auto
    then show ?case using 1 by simp
  qed simp_all
  have "distinct (map fst ?s) = distinct (map fst ?t)" using m by (metis mset_eq_imp_distinct_iff mset_map)
  then show e: "adjacent_keys ?s = adjacent_keys ?t" using a[OF sort_entries_sorted] by blast
  show "\<not> adjacent_keys ?s \<Longrightarrow> ?s = ?t"
    using ascending_unique[OF _ _ m] e adjacent_sorted[OF sort_entries_sorted] by blast
qed

definition duplicate_keys :: error where
  "duplicate_keys = Cbor ''deterministic maps cannot contain duplicate canonical keys''"

lemma canonicalize_fails:
  "canonicalize mo v = Inl e \<Longrightarrow> e = duplicate_keys"
  "canonicalize_items mo vs = Inl e \<Longrightarrow> e = duplicate_keys"
  "canonicalize_entries mo fs = Inl e \<Longrightarrow> e = duplicate_keys"
  by (induction mo v and mo vs and mo fs arbitrary: e and e and e rule: canonicalize_canonicalize_items_canonicalize_entries.induct)
    (auto simp: rbind_def rmap_def Let_def duplicate_keys_def split: sum.splits if_splits)

lemma canonicalize_entries_eq:
  "canonicalize_entries mo fs = (if \<forall>f\<in>set fs. isl (canonicalize mo (snd f)) = False
     then Inr (map (\<lambda>f. (fst f, projr (canonicalize mo (snd f)))) fs) else Inl duplicate_keys)"
proof (induction fs)
  case (Cons f fs)
  then show ?case
    by (cases f; cases "canonicalize mo (snd f)") (auto simp: rbind_def rmap_def dest: canonicalize_fails(1))
qed simp

inductive reordered :: "jv \<Rightarrow> jv \<Rightarrow> bool" where
  reordered_same: "reordered v v"
| reordered_array: "list_all2 reordered vs ws \<Longrightarrow> reordered (JArr vs) (JArr ws)"
| reordered_object: "list_all2 (\<lambda>(f :: byte list \<times> jv) (g :: byte list \<times> jv). fst f = fst g \<and> reordered (snd f) (snd g)) fs gs \<Longrightarrow> mset gs = mset hs \<Longrightarrow>
    reordered (JObj fs) (JObj hs)"

lemma canonicalize_reordered: "reordered v w \<Longrightarrow> canonicalize mo v = canonicalize mo w"
proof (induction rule: reordered.induct)
  case (reordered_array vs ws)
  then have "canonicalize_items mo vs = canonicalize_items mo ws"
    by (induction rule: list_all2_induct) auto
  then show ?case by simp
next
  case (reordered_object fs gs hs)
  from reordered_object(1) have "canonicalize_entries mo fs = canonicalize_entries mo gs"
  proof (induction rule: list_all2_induct)
    case (Cons f fs g gs)
    then show ?case by (cases f; cases g) auto
  qed simp
  moreover have "canonicalize mo (JObj gs) = canonicalize mo (JObj hs)"
  proof -
    let ?h = "\<lambda>f. (fst f, projr (canonicalize mo (snd f)))"
    have s: "set gs = set hs" using reordered_object(2) by (metis mset_eq_setD)
    have "mset (map ?h gs) = mset (map ?h hs)" using reordered_object(2) by simp
    from sort_entries_perm[OF this] show ?thesis
      by (auto simp: canonicalize_entries_eq s rbind_def Let_def)
  qed
  ultimately show ?case by simp
qed simp

fun members_ascend :: "jv \<Rightarrow> bool"
  and members_ascend_elems :: "jv list \<Rightarrow> bool"
  and members_ascend_fields :: "(byte list \<times> jv) list \<Rightarrow> bool" where
  "members_ascend (JArr vs) \<longleftrightarrow> members_ascend_elems vs"
| "members_ascend (JObj fs) \<longleftrightarrow> ascending fs \<and> members_ascend_fields fs"
| "members_ascend _ \<longleftrightarrow> True"
| "members_ascend_elems [] \<longleftrightarrow> True"
| "members_ascend_elems (v # vs) \<longleftrightarrow> members_ascend v \<and> members_ascend_elems vs"
| "members_ascend_fields [] \<longleftrightarrow> True"
| "members_ascend_fields ((k, v) # fs) \<longleftrightarrow> members_ascend v \<and> members_ascend_fields fs"

lemma members_ascend_fields_eq: "members_ascend_fields fs \<longleftrightarrow> (\<forall>f\<in>set fs. members_ascend (snd f))"
  by (induction fs) auto

lemma canonicalize_ascends:
  assumes "\<And>fs. distinct (map fst fs) \<Longrightarrow> map_order fs = fs"
  shows "canonicalize map_order v = Inr w \<Longrightarrow> members_ascend w"
    and "canonicalize_items map_order vs = Inr ws \<Longrightarrow> members_ascend_elems ws"
    and "canonicalize_entries map_order fs = Inr gs \<Longrightarrow> members_ascend_fields gs"
  using assms
proof (induction map_order v and map_order vs and map_order fs arbitrary: w and ws and gs
    rule: canonicalize_canonicalize_items_canonicalize_entries.induct)
  case (2 mo fs)
  obtain gs where g: "canonicalize_entries mo fs = Inr gs" "\<not> adjacent_keys (sort_entries gs)" "w = JObj (mo (sort_entries gs))"
    using 2(2) by (auto simp: rbind_eq_Inr Let_def split: if_splits)
  have a: "ascending (sort_entries gs)" using g(2) adjacent_sorted[OF sort_entries_sorted] by blast
  have "mo (sort_entries gs) = sort_entries gs" using ascending_distinct[OF a] 2(3) by blast
  moreover have "set (sort_entries gs) = set gs" using sort_entries_mset by (metis mset_eq_setD)
  ultimately show ?case using 2(1)[OF g(1) 2(3)] a g(3) by (simp add: members_ascend_fields_eq)
qed (auto simp: rbind_eq_Inr rmap_eq_Inr)

lemma cbor_encode_deterministic:
  "cb_deterministic z \<Longrightarrow> to_value vs = Inr v \<Longrightarrow> cbor_encode_value to_value map_order lead z vs =
    rbind (canonicalize map_order v) (\<lambda>w. rbind (cb_to_vec (cb_base_config z) (events lead w)) (\<lambda>output.
      rbind (cb_byte_limit z (length output)) (\<lambda>_. Inr output)))"
  by (cases "canonicalize map_order v") (simp_all add: cbor_encode_value_def)

text \<open>
  C38: the deterministic mode. Two values that differ only in the order of the members of their objects, at
  any depth, are encoded to the same bytes or refused with the same error; and in what is encoded the keys of
  every object strictly ascend, shorter ones first. That nextjson's map keeps the order of insertion is a
  hypothesis of the second part.
\<close>

theorem cbor_deterministic:
  assumes "cb_deterministic z" and "to_value vs = Inr v" and "to_value ws = Inr w" and "reordered v w"
    and "\<And>fs. distinct (map fst fs) \<Longrightarrow> map_order fs = fs"
  shows "cbor_encode_value to_value map_order lead z vs = cbor_encode_value to_value map_order lead z ws \<and>
    (\<forall>out. cbor_encode_value to_value map_order lead z vs = Inr out \<longrightarrow> (\<exists>x. out = cbor_wire x \<and> members_ascend x))"
  using cbor_encode_deterministic[of z to_value vs, OF assms(1,2), of map_order lead]
    cbor_encode_deterministic[of z to_value ws, OF assms(1,3), of map_order lead]
    canonicalize_reordered[OF assms(4), of map_order] canonicalize_ascends(1)[OF assms(5), of v]
  by (auto simp: rbind_eq_Inr cb_to_vec_wire)

theorem cbor_deterministic_witness:
  "let z = with_deterministic_encoding (cbor_config_new standard);
       to_value = (\<lambda>vs. if vs = [] then Inr (JObj [([0x62, 0x62], JNull), ([0x61], JNull)]) else Inr (JObj [([0x61], JNull), ([0x62, 0x62], JNull)]))
   in cbor_encode_value to_value id True z [] = cbor_encode_value to_value id True z [EvNull]"
proof -
  let ?z = "with_deterministic_encoding (cbor_config_new standard)"
  let ?to = "\<lambda>vs :: event list. if vs = [] then Inr (JObj [([0x62, 0x62 :: byte], JNull), ([0x61], JNull)]) else Inr (JObj [([0x61], JNull), ([0x62, 0x62], JNull)]) :: error + jv"
  have d: "cb_deterministic ?z" by (simp add: with_deterministic_encoding_def)
  have r: "reordered (JObj [([0x62, 0x62], JNull), ([0x61], JNull)]) (JObj [([0x61], JNull), ([0x62, 0x62], JNull)])"
    by (rule reordered_object[of _ "[([0x62, 0x62], JNull), ([0x61], JNull)]"]) (simp_all add: reordered_same add_mset_commute)
  have "cbor_encode_value ?to id True ?z [] = cbor_encode_value ?to id True ?z [EvNull]"
    by (rule conjunct1[OF cbor_deterministic[OF d _ _ r]]) simp_all
  then show ?thesis by (simp only: Let_def)
qed

end
