(* ===== verification/FrameCursor.thy ===== *)
theory FrameCursor
  imports Stream Alloc Frames Reader
begin

text \<open>
  The cursor over a frame that \<^verbatim>\<open>src/evolution.rs\<close> and \<^verbatim>\<open>src/parallel.rs\<close> each define, with the same code; it is
  a \<open>reader\<close>.
\<close>

record frame_cursor =
  fc_input :: "byte list"
  fc_position :: nat

definition fc_new :: "byte list \<Rightarrow> frame_cursor" where
  "fc_new input = \<lparr> fc_input = input, fc_position = 0 \<rparr>"

definition fc_remaining :: "frame_cursor \<Rightarrow> nat" where
  "fc_remaining c = length (fc_input c) - fc_position c"

definition fc_take :: "nat \<Rightarrow> (frame_cursor, byte list) op" where
  "fc_take len c =
    (if fc_position c + len > usize_max then (Inl UnexpectedEnd, c)
     else case slice (fc_position c) (fc_position c + len) (fc_input c) of
         None \<Rightarrow> (Inl UnexpectedEnd, c)
       | Some bytes \<Rightarrow> (Inr bytes, c\<lparr>fc_position := fc_position c + len\<rparr>))"

definition fc_u16 :: "(frame_cursor, u16) op" where "fc_u16 = sbind (fc_take 2) (\<lambda>bs. sret (from_le_bytes bs))"
definition fc_u32 :: "(frame_cursor, u32) op" where "fc_u32 = sbind (fc_take 4) (\<lambda>bs. sret (from_le_bytes bs))"
definition fc_u64 :: "(frame_cursor, u64) op" where "fc_u64 = sbind (fc_take 8) (\<lambda>bs. sret (from_le_bytes bs))"

definition fc_finish :: "trailing \<Rightarrow> (frame_cursor, unit) op" where
  "fc_finish policy c =
    (if policy = Reject \<and> fc_position c \<noteq> length (fc_input c)
     then (Inl (TrailingBytesError (length (fc_input c) - fc_position c)), c) else (Inr (), c))"

section \<open>The cursor as a reader\<close>

definition fc_rest :: "frame_cursor \<Rightarrow> byte list" where "fc_rest c = drop (fc_position c) (fc_input c)"
definition fc_adv :: "nat \<Rightarrow> frame_cursor \<Rightarrow> frame_cursor" where "fc_adv n c = c\<lparr>fc_position := fc_position c + n\<rparr>"

definition fc_valid :: "frame_cursor \<Rightarrow> bool" where
  "fc_valid c \<longleftrightarrow> fc_position c \<le> length (fc_input c) \<and> length (fc_input c) \<le> usize_max"

lemma drop_prefix: "drop p xs = bs @ zs \<Longrightarrow> p \<le> length xs \<Longrightarrow> p + length bs \<le> length xs"
  by (drule arg_cong[where f = length]) simp

interpretation fc: reader fc_rest fc_adv fc_valid
proof
  fix c bs zs assume a: "fc_valid c" "fc_rest c = bs @ zs"
  then show "fc_valid (fc_adv (length bs) c)"
    using drop_prefix[of "fc_position c" "fc_input c" bs zs] by (simp add: fc_valid_def fc_adv_def fc_rest_def)
qed (simp_all add: fc_rest_def fc_adv_def add.commute add.assoc)

lemma fc_take_Inr:
  "fc_valid c \<Longrightarrow> fc_take n c = (Inr bs, c') \<longleftrightarrow> length bs = n \<and> (\<exists>zs. fc_rest c = bs @ zs) \<and> c' = fc_adv n c"
proof -
  assume v: "fc_valid c"
  have "slice (fc_position c) (fc_position c + n) (fc_input c) = Some bs \<longleftrightarrow> length bs = n \<and> (\<exists>zs. fc_rest c = bs @ zs)"
  proof
    assume s: "slice (fc_position c) (fc_position c + n) (fc_input c) = Some bs"
    then have "bs = take n (fc_rest c)" "fc_position c + n \<le> length (fc_input c)" by (auto simp: slice_eq_Some fc_rest_def)
    then show "length bs = n \<and> (\<exists>zs. fc_rest c = bs @ zs)" by (auto simp: fc_rest_def) (metis append_take_drop_id)
  next
    assume s: "length bs = n \<and> (\<exists>zs. fc_rest c = bs @ zs)"
    then obtain zs where z: "drop (fc_position c) (fc_input c) = bs @ zs" by (auto simp: fc_rest_def)
    from drop_prefix[OF z] have "fc_position c + n \<le> length (fc_input c)" using s v by (simp add: fc_valid_def)
    then show "slice (fc_position c) (fc_position c + n) (fc_input c) = Some bs"
      using z s v by (simp add: slice_eq_Some fc_valid_def)
  qed
  moreover have "fc_position c + n \<le> usize_max" if "slice (fc_position c) (fc_position c + n) (fc_input c) = Some bs"
    using that v by (auto simp: slice_eq_Some fc_valid_def)
  ultimately show ?thesis by (auto simp: fc_take_def fc_adv_def split: option.split)
qed

lemma fc_yields_take: "n = length bs \<Longrightarrow> fc.yields (fc_take n) bs bs"
  unfolding fc.yields_def fc.starts_def by (auto simp: fc_take_Inr)

lemma fc_yields_words:
  "fc.yields fc_u16 (to_le_bytes v) v" "fc.yields fc_u32 (to_le_bytes w) w" "fc.yields fc_u64 (to_le_bytes x) x"
  unfolding fc_u16_def fc_u32_def fc_u64_def
  by (rule fc.rd_yields_map[OF fc_yields_take]; simp add: from_to_le_bytes)+

lemma take_word:
  assumes "fc_valid c" and "LENGTH('a) = 8 * n"
  shows "sbind (fc_take n) (\<lambda>bs. sret (from_le_bytes bs :: 'a::len word)) c = (Inr v, c') \<longleftrightarrow>
    (\<exists>zs. fc_rest c = to_le_bytes v @ zs) \<and> c' = fc_adv n c"
proof
  assume "sbind (fc_take n) (\<lambda>bs. sret (from_le_bytes bs :: 'a word)) c = (Inr v, c')"
  then obtain bs zs where "length bs = n" "fc_rest c = bs @ zs" "c' = fc_adv n c" "v = from_le_bytes bs"
    by (auto simp: sbind_Inr fc_take_Inr[OF assms(1)])
  then show "(\<exists>zs. fc_rest c = to_le_bytes v @ zs) \<and> c' = fc_adv n c"
    using to_from_le_bytes[of bs, where 'a = 'a] assms(2) by auto
next
  assume a: "(\<exists>zs. fc_rest c = to_le_bytes v @ zs) \<and> c' = fc_adv n c"
  then have "fc_take n c = (Inr (to_le_bytes v), fc_adv n c)"
    using fc_take_Inr[OF assms(1), of n "to_le_bytes v"] assms(2) by auto
  then show "sbind (fc_take n) (\<lambda>bs. sret (from_le_bytes bs :: 'a word)) c = (Inr v, c')"
    using a assms(2) by (simp add: from_to_le_bytes)
qed

lemma fc_word_Inr:
  assumes "fc_valid c"
  shows "fc_u16 c = (Inr v, c') \<longleftrightarrow> (\<exists>zs. fc_rest c = to_le_bytes v @ zs) \<and> c' = fc_adv 2 c"
    and "fc_u32 c = (Inr w, c') \<longleftrightarrow> (\<exists>zs. fc_rest c = to_le_bytes w @ zs) \<and> c' = fc_adv 4 c"
    and "fc_u64 c = (Inr x, c') \<longleftrightarrow> (\<exists>zs. fc_rest c = to_le_bytes x @ zs) \<and> c' = fc_adv 8 c"
  unfolding fc_u16_def fc_u32_def fc_u64_def by (rule take_word[OF assms]; simp)+

lemma fc_new_simps [simp]: "fc_rest (fc_new input) = input" "fc_valid (fc_new input) \<longleftrightarrow> length input \<le> usize_max"
  by (simp_all add: fc_new_def fc_rest_def fc_valid_def)

lemma fc_valid_adv: "fc_valid c \<Longrightarrow> n \<le> length (fc_rest c) \<Longrightarrow> fc_valid (fc_adv n c)"
  by (auto simp: fc_valid_def fc_adv_def fc_rest_def)

lemma fc_remaining_rest: "fc_valid c \<Longrightarrow> fc_remaining c = length (fc_rest c)"
  by (simp add: fc_valid_def fc_remaining_def fc_rest_def)

lemma fc_finish_rest:
  "fc_valid c \<Longrightarrow> fc_finish policy c = (if policy = Reject \<and> fc_rest c \<noteq> [] then Inl (TrailingBytesError (length (fc_rest c))) else Inr (), c)"
  by (auto simp: fc_finish_def fc_rest_def fc_valid_def)

end
