(* ===== verification/Parallel.thy ===== *)
theory Parallel
  imports FrameCursor
begin

text \<open>
  \<^verbatim>\<open>src/parallel.rs\<close>: the batch frame whose elements are encoded and decoded on worker threads. A worker runs
  its chunk from left to right up to the first error; the chunks are joined in order.
\<close>

section \<open>Workers\<close>

text \<open>\<^verbatim>\<open>chunk.iter().map(operation).collect()\<close>.\<close>

fun collect :: "('a \<Rightarrow> error + 'b) \<Rightarrow> 'a list \<Rightarrow> error + 'b list" where
  "collect f [] = Inr []"
| "collect f (x # xs) = rbind (f x) (\<lambda>y. rmap ((#) y) (collect f xs))"

text \<open>\<^verbatim>\<open>slice::chunks\<close>; its argument is positive.\<close>

function chunks :: "nat \<Rightarrow> 'a list \<Rightarrow> 'a list list" where
  "chunks n xs = (if xs = [] \<or> n = 0 then [] else take n xs # chunks n (drop n xs))"
  by pat_completeness auto

termination by (relation "measure (length \<circ> snd)") auto

declare chunks.simps [simp del]

fun is_panic :: "error \<Rightarrow> bool" where
  "is_panic (Panic _) \<longleftrightarrow> True"
| "is_panic _ \<longleftrightarrow> False"

fun panicked :: "error + 'a \<Rightarrow> bool" where
  "panicked (Inl e) \<longleftrightarrow> is_panic e"
| "panicked (Inr _) \<longleftrightarrow> False"

text \<open>
  Joining: the first chunk that failed gives the error, a panic of its worker \<^verbatim>\<open>ParallelWorkerPanic\<close>. Workers
  that are not joined after that are awaited by \<^verbatim>\<open>thread::scope\<close>, which panics when one of them has.
\<close>

fun join_chunks :: "(error + 'b list) list \<Rightarrow> 'b list \<Rightarrow> error + 'b list" where
  "join_chunks [] output = Inr output"
| "join_chunks (Inr chunk # rs) output = join_chunks rs (output @ chunk)"
| "join_chunks (Inl e # rs) output =
    (if list_ex panicked rs then Inl (Panic ''a scoped thread panicked'')
     else Inl (if is_panic e then ParallelWorkerPanic else e))"

definition parallel_map :: "'a list \<Rightarrow> nat \<Rightarrow> ('a \<Rightarrow> error + 'b) \<Rightarrow> error + 'b list" where
  "parallel_map items workers operation =
    (if items = [] then Inr []
     else let worker_count = min workers (length items); chunk_size = (length items + worker_count - 1) div worker_count
       in join_chunks (map (collect operation) (chunks chunk_size items)) [])"

section \<open>Frames\<close>

definition PB_MAGIC :: "byte list" where "PB_MAGIC = [0x52, 0x42, 0x50, 0x31]"
definition PB_VERSION :: u16 where "PB_VERSION = 1"
definition PB_HEADER_SIZE :: nat where "PB_HEADER_SIZE = 16"

lemmas pb_consts [simp] = PB_MAGIC_def PB_VERSION_def PB_HEADER_SIZE_def

record parallel_config =
  pb_base :: config
  pb_workers :: nat

definition with_worker_count :: "nat \<Rightarrow> parallel_config \<Rightarrow> parallel_config" where
  "with_worker_count workers p = p\<lparr>pb_workers := workers\<rparr>"

definition pb_byte_limit :: "parallel_config \<Rightarrow> nat \<Rightarrow> error + unit" where
  "pb_byte_limit p len = check_limit (c_limit (pb_base p)) len"

definition pb_collection_limit :: "parallel_config \<Rightarrow> nat \<Rightarrow> error + unit" where
  "pb_collection_limit p len = check_collection (c_collection_limit (pb_base p)) len"

definition serialize_batch :: "(nat \<Rightarrow> bool) \<Rightarrow> parallel_config \<Rightarrow> event list list \<Rightarrow> error + byte list" where
  "serialize_batch alloc p values =
    rbind (pb_collection_limit p (length values)) (\<lambda>_.
    rbind (parallel_map values (pb_workers p) (to_vec (pb_base p))) (\<lambda>payloads.
      let table_size = length values * 8; required = PB_HEADER_SIZE + table_size + sum_list (map length payloads)
      in if table_size > usize_max then Inl (InvalidFrame ''parallel length table overflow'')
         else if required > usize_max then Inl (InvalidFrame ''parallel frame size overflow'')
         else rbind (pb_byte_limit p required) (\<lambda>_. rbind (try_reserve alloc required) (\<lambda>_.
           Inr (PB_MAGIC @ to_le_bytes PB_VERSION @ to_le_bytes (0 :: u16) @ to_le_bytes (of_nat (length values) :: u64) @
             concat (map (\<lambda>payload. to_le_bytes (of_nat (length payload) :: u64)) payloads) @ concat payloads)))))"

text \<open>The length table, then the payloads; an entry of either takes 8 or 16 bytes of memory.\<close>

primrec read_lengths :: "nat \<Rightarrow> (frame_cursor, nat list) op" where
  "read_lengths 0 = sret []"
| "read_lengths (Suc n) = sbind fc_u64 (\<lambda>len. sbind (read_lengths n) (\<lambda>ls. sret (unat len # ls)))"

primrec read_payloads :: "nat list \<Rightarrow> (frame_cursor, byte list list) op" where
  "read_payloads [] = sret []"
| "read_payloads (len # ls) = sbind (fc_take len) (\<lambda>bytes. sbind (read_payloads ls) (\<lambda>ps. sret (bytes # ps)))"

definition parse_batch :: "(nat \<Rightarrow> bool) \<Rightarrow> parallel_config \<Rightarrow> (frame_cursor, byte list list) op" where
  "parse_batch alloc p =
    sbind (fc_take 4) (\<lambda>magic.
    if magic \<noteq> PB_MAGIC then sfail (InvalidFrame ''bad parallel batch magic'')
    else sbind fc_u16 (\<lambda>version.
    if version \<noteq> PB_VERSION then sfail (InvalidFrame ''unsupported parallel batch version'')
    else sbind fc_u16 (\<lambda>flags.
    if flags \<noteq> 0 then sfail (InvalidFrame ''unsupported parallel batch flags'')
    else sbind fc_u64 (\<lambda>count.
    sbind (slift (\<lambda>_. pb_collection_limit p (unat count))) (\<lambda>_.
    if unat count * 8 > usize_max then sfail (InvalidFrame ''parallel length table overflow'')
    else sbind (slift (\<lambda>c. if unat count * 8 > fc_remaining c then Inl UnexpectedEnd else Inr ())) (\<lambda>_.
    sbind (slift (\<lambda>_. try_reserve alloc (unat count * 8))) (\<lambda>_.
    sbind (read_lengths (unat count)) (\<lambda>lengths.
    if sum_list lengths > usize_max then sfail (InvalidFrame ''parallel payload size overflow'')
    else sbind (slift (\<lambda>c. if sum_list lengths > fc_remaining c then Inl UnexpectedEnd else Inr ())) (\<lambda>_.
    sbind (slift (\<lambda>_. try_reserve alloc (unat count * 16))) (\<lambda>_.
    sbind (read_payloads lengths) (\<lambda>payloads.
    sbind (fc_finish (c_trailing (pb_base p))) (\<lambda>_. sret payloads))))))))))))"

definition deserialize_batch ::
  "(nat \<Rightarrow> bool) \<Rightarrow> parallel_config \<Rightarrow> (decoder, 'v) op \<Rightarrow> byte list \<Rightarrow> error + 'v list" where
  "deserialize_batch alloc p T input =
    rbind (pb_byte_limit p (length input)) (\<lambda>_.
    rbind (fst (parse_batch alloc p (fc_new input))) (\<lambda>payloads.
      parallel_map payloads (pb_workers p) (\<lambda>payload. from_slice (pb_base p) T payload)))"

section \<open>Scheduling\<close>

lemma collect_append: "collect f (xs @ ys) = rbind (collect f xs) (\<lambda>a. rmap ((@) a) (collect f ys))"
proof (induction xs)
  case Nil
  show ?case by (cases "collect f ys") simp_all
next
  case (Cons x xs)
  then show ?case by (cases "f x"; cases "collect f xs"; cases "collect f ys") simp_all
qed

lemma collect_Inr: "collect f xs = Inr ys \<longleftrightarrow> list_all2 (\<lambda>x y. f x = Inr y) xs ys"
  by (induction xs arbitrary: ys) (auto simp: rbind_eq_Inr rmap_eq_Inr list_all2_Cons1)

lemma collect_panics: "panicked (collect f xs) \<Longrightarrow> \<exists>x\<in>set xs. panicked (f x)"
proof (induction xs)
  case (Cons x xs)
  then show ?case by (cases "f x"; cases "collect f xs") auto
qed simp

lemma concat_chunks: "0 < n \<Longrightarrow> concat (chunks n xs) = xs"
proof (induction n xs rule: chunks.induct)
  case (1 n xs)
  show ?case using 1 by (subst chunks.simps) simp
qed

lemma join_chunks_Inr: "join_chunks (map (collect f) cs) out = Inr ys \<Longrightarrow> \<exists>zs. ys = out @ zs \<and> collect f (concat cs) = Inr zs"
proof (induction cs arbitrary: out)
  case (Cons c cs)
  then obtain b where b: "collect f c = Inr b" "join_chunks (map (collect f) cs) (out @ b) = Inr ys"
    by (cases "collect f c") (auto split: if_splits)
  then show ?case using Cons.IH[OF b(2)] by (auto simp: collect_append)
qed simp

lemma join_chunks_collect:
  assumes "\<And>x. x \<in> set (concat cs) \<Longrightarrow> \<not> panicked (f x)"
  shows "join_chunks (map (collect f) cs) out = rmap ((@) out) (collect f (concat cs))"
  using assms
proof (induction cs arbitrary: out)
  case (Cons c cs)
  have "\<not> list_ex panicked (map (collect f) cs)" using Cons.prems collect_panics by (fastforce simp: list_ex_iff)
  moreover have "\<not> panicked (collect f c)" using Cons.prems collect_panics[of f c] by auto
  ultimately show ?case
    using Cons by (cases "collect f c"; cases "collect f (concat cs)") (auto simp: collect_append)
qed simp

lemma chunk_size_pos: "xs \<noteq> [] \<Longrightarrow> 0 < w \<Longrightarrow> 0 < (length xs + min w (length xs) - 1) div min w (length xs)"
  by (simp add: div_greater_zero_iff)

lemma parallel_map_chunks:
  assumes "0 < w"
  obtains cs where "concat cs = xs" "parallel_map xs w f = join_chunks (map (collect f) cs) []"
proof (cases "xs = []")
  case True
  then show ?thesis using that[of "[]"] by (simp add: parallel_map_def)
next
  case False
  show ?thesis
    by (rule that[of "chunks ((length xs + min w (length xs) - 1) div min w (length xs)) xs"])
      (use concat_chunks[OF chunk_size_pos[OF False assms]] False in \<open>simp_all add: parallel_map_def Let_def\<close>)
qed

lemma parallel_map_Inr:
  assumes "0 < w" and "parallel_map xs w f = Inr ys"
  shows "collect f xs = Inr ys"
proof -
  obtain cs where c: "concat cs = xs" "parallel_map xs w f = join_chunks (map (collect f) cs) []"
    using parallel_map_chunks[OF assms(1)] .
  then show ?thesis using join_chunks_Inr[of f cs "[]" ys] assms(2) by simp
qed

text \<open>
  Scheduling is not observable. With any number of workers, a parallel map gives what the same operation
  gives element by element, from left to right: the results in order, or the error of the first element
  that fails; unless the operation panics.
\<close>

lemma parallel_map_collect:
  assumes "0 < workers" and "\<And>x. x \<in> set items \<Longrightarrow> \<not> panicked (operation x)"
  shows "parallel_map items workers operation = collect operation items"
proof -
  obtain cs where c: "concat cs = items" "parallel_map items workers operation = join_chunks (map (collect operation) cs) []"
    using parallel_map_chunks[OF assms(1)] .
  then show ?thesis
    using join_chunks_collect[of cs operation "[]"] assms(2) by (cases "collect operation items") auto
qed

section \<open>Round trip\<close>

definition batch_frame :: "byte list list \<Rightarrow> byte list" where
  "batch_frame payloads = PB_MAGIC @ to_le_bytes PB_VERSION @ to_le_bytes (0 :: u16) @ to_le_bytes (of_nat (length payloads) :: u64) @
     concat (map (\<lambda>payload. to_le_bytes (of_nat (length payload) :: u64)) payloads) @ concat payloads"

lemma length_batch_frame: "length (batch_frame ps) = 16 + 8 * length ps + sum_list (map length ps)"
proof -
  have "length (concat (map (\<lambda>payload. to_le_bytes (of_nat (length payload) :: u64)) ps)) = 8 * length ps"
    by (induction ps) simp_all
  then show ?thesis by (simp add: batch_frame_def length_concat)
qed

lemma yields_lengths:
  "list_all (\<lambda>p. length p \<le> usize_max) ps \<Longrightarrow> fc.yields (read_lengths (length ps))
    (concat (map (\<lambda>payload. to_le_bytes (of_nat (length payload) :: u64)) ps)) (map length ps)"
proof (induction ps)
  case (Cons p ps)
  have "fc.yields (sbind (read_lengths (length ps)) (\<lambda>ls. sret (unat (of_nat (length p) :: u64) # ls)))
    (concat (map (\<lambda>payload. to_le_bytes (of_nat (length payload) :: u64)) ps)) (map length (p # ps))"
    by (rule fc.rd_yields_map[OF Cons.IH]) (use Cons.prems unat_u64[of "length p"] in simp_all)
  then show ?case using fc.rd_yields_sbind[OF fc_yields_words(3)] by simp
qed (simp add: fc.rd_yields_ret del: sop_simps)

lemma yields_payloads: "fc.yields (read_payloads (map length ps)) (concat ps) ps"
proof (induction ps)
  case (Cons p ps)
  show ?case
    by (simp, rule fc.rd_yields_sbind[OF fc_yields_take[OF refl] fc.rd_yields_map[OF Cons.IH]]) (simp del: sop_simps)
qed (simp add: fc.rd_yields_ret del: sop_simps)

lemma sum_concat: "sum_list (map length ps) = length (concat ps)"
  by (simp add: length_concat)

lemma member_length: "p \<in> set ps \<Longrightarrow> length p \<le> sum_list (map length ps)"
  by (induction ps) auto

lemma parse_batch_frame:
  assumes "fc_valid c" and "fc_rest c = batch_frame ps @ rest"
    and "within (c_collection_limit (pb_base p)) (length ps)"
    and "16 * length ps < 2 ^ 63" and "alloc (8 * length ps)" and "alloc (16 * length ps)"
  shows "fst (parse_batch alloc p c) =
    (if c_trailing (pb_base p) = Reject \<and> rest \<noteq> [] then Inl (TrailingBytesError (length rest)) else Inr ps)"
proof -
  let ?n = "length ps" and ?table = "concat (map (\<lambda>payload. to_le_bytes (of_nat (length payload) :: u64)) ps)"
  have l: "16 + 8 * ?n + sum_list (map length ps) + length rest \<le> usize_max"
    using assms(1,2) by (auto simp: fc_valid_def fc_rest_def dest!: arg_cong[of _ "_ @ _" length] simp: length_batch_frame)
  have t: "length ?table = 8 * ?n" by (induction ps) simp_all
  have u: "unat (of_nat ?n :: u64) = ?n" using l by (intro unat_u64) simp
  have r: "fc_rest (fc_adv k c) = drop k (batch_frame ps @ rest)" for k by (simp add: fc.rest_adv assms(2))
  have v: "fc_valid (fc_adv k c)" if "k \<le> 16 + 8 * ?n + sum_list (map length ps)" for k
    using fc_valid_adv[OF assms(1), of k] that assms(2) by (simp add: length_batch_frame)
  have s: "fc.starts c PB_MAGIC" "fc.starts (fc_adv 4 c) (to_le_bytes PB_VERSION)" "fc.starts (fc_adv 6 c) (to_le_bytes (0 :: u16))"
    "fc.starts (fc_adv 8 c) (to_le_bytes (of_nat ?n :: u64))" "fc.starts (fc_adv 16 c) ?table"
    using v assms(1,2) t by (simp_all add: fc.starts_def r batch_frame_def)
  have "drop 16 (batch_frame ps @ rest) = ?table @ concat ps @ rest" by (simp add: batch_frame_def)
  then have "drop (8 * ?n) (drop 16 (batch_frame ps @ rest)) = concat ps @ rest" using t by simp
  then have "fc_rest (fc_adv (16 + 8 * ?n) c) = concat ps @ rest" unfolding r drop_drop by (simp only: add.commute)
  then have s6: "fc.starts (fc_adv (16 + 8 * ?n) c) (concat ps)" using v[of "16 + 8 * ?n"] by (simp add: fc.starts_def)
  have w: "list_all (\<lambda>p. length p \<le> usize_max) ps"
    using l member_length by (fastforce simp: list_all_iff)
  have magic: "fc_take 4 c = (Inr PB_MAGIC, fc_adv 4 c)"
    using fc.rd_yieldsD[OF fc_yields_take[OF refl] s(1)] by (simp add: numeral_eq_Suc)
  note steps = magic fc.rd_yieldsD[OF fc_yields_words(1) s(2)] fc.rd_yieldsD[OF fc_yields_words(1) s(3)]
    fc.rd_yieldsD[OF fc_yields_words(3) s(4)] fc.rd_yieldsD[OF yields_lengths[OF w] s(5)] fc.rd_yieldsD[OF yields_payloads s6]
  have m: "8 * ?n \<le> fc_remaining (fc_adv 16 c)" "sum_list (map length ps) \<le> fc_remaining (fc_adv (16 + 8 * ?n) c)"
    using v by (simp_all add: fc_remaining_rest r length_batch_frame)
  have e: "fc_finish policy (fc_adv (16 + 8 * ?n + length (concat ps)) c) =
    (if policy = Reject \<and> rest \<noteq> [] then Inl (TrailingBytesError (length rest)) else Inr (),
     fc_adv (16 + 8 * ?n + length (concat ps)) c)" for policy
    using v[of "16 + 8 * ?n + length (concat ps)"]
    by (subst fc_finish_rest) (simp_all add: r length_batch_frame sum_concat)
  show ?thesis
    using steps m assms(3-6) u l t
    by (simp add: sbind_def[of "fc_finish _"] e[unfolded mult.commute[of 8]] parse_batch_def fc.adv_adv pb_collection_limit_def check_collection_if try_reserve_def mult.commute sum_concat)
qed

lemma serialize_batch_frame:
  assumes "0 < pb_workers p" and "serialize_batch alloc p vs = Inr frame"
  obtains ps where "list_all2 (\<lambda>v bs. to_vec (pb_base p) v = Inr bs) vs ps" and "frame = batch_frame ps"
    and "within (c_collection_limit (pb_base p)) (length ps)" and "within (c_limit (pb_base p)) (length frame)"
    and "length frame \<le> 2 ^ 63 - 1"
proof -
  obtain ps where m: "parallel_map vs (pb_workers p) (to_vec (pb_base p)) = Inr ps"
    and r: "within (c_collection_limit (pb_base p)) (length vs)" "within (c_limit (pb_base p)) (16 + length vs * 8 + sum_list (map length ps))"
      "16 + length vs * 8 + sum_list (map length ps) \<le> 2 ^ 63 - 1"
      "frame = PB_MAGIC @ to_le_bytes PB_VERSION @ to_le_bytes (0 :: u16) @ to_le_bytes (of_nat (length vs) :: u64) @
         concat (map (\<lambda>payload. to_le_bytes (of_nat (length payload) :: u64)) ps) @ concat ps"
    using assms(2) by (auto simp: serialize_batch_def rbind_eq_Inr pb_collection_limit_def pb_byte_limit_def try_reserve_def Let_def
        split: if_splits)
  have c: "list_all2 (\<lambda>v bs. to_vec (pb_base p) v = Inr bs) vs ps"
    using parallel_map_Inr[OF assms(1) m] by (simp add: collect_Inr)
  then have l: "length vs = length ps" by (rule list_all2_lengthD)
  have f: "frame = batch_frame ps" using r(4) l by (simp add: batch_frame_def)
  then have n: "length frame = 16 + length vs * 8 + sum_list (map length ps)" by (simp add: length_batch_frame l)
  show ?thesis by (rule that[OF c f]) (use r(1-3) in \<open>simp_all only: n l\<close>)
qed

text \<open>
  C39: batches. What a batch of values becomes, with any number of workers, a receiver with any number of
  workers under the same base configuration reads back, in order, through any reader of dynamic values, with
  every \<^verbatim>\<open>f32\<close> widened to the \<^verbatim>\<open>f64\<close> of the same number; bytes behind the frame are treated as the
  trailing policy says, as long as they too are within the byte limit.
\<close>

theorem batch_roundtrip:
  assumes "reachable_config (pb_base p)" and "reads_values (self_describing (pb_base p)) read"
    and "serialize_batch alloc p (map (events lead) vs) = Inr frame"
    and "\<And>v. v \<in> set vs \<Longrightarrow> strings_ok v \<and> admissible True (c_collection_limit (pb_base p)) v"
    and "0 < pb_workers p" and "0 < workers" and "length frame \<le> n"
    and "within (c_limit (pb_base p)) (length (frame @ rest))" and "length (frame @ rest) \<le> usize_max"
    and "16 * length vs < 2 ^ 63" and "receiver (8 * length vs)" and "receiver (16 * length vs)"
  shows "deserialize_batch receiver (with_worker_count workers p) (read n) (frame @ rest) =
    (if c_trailing (pb_base p) = Reject \<and> rest \<noteq> [] then Inl (TrailingBytesError (length rest)) else Inr (map widened vs))"
proof -
  obtain ps where ps: "list_all2 (\<lambda>v bs. to_vec (pb_base p) v = Inr bs) (map (events lead) vs) ps" "frame = batch_frame ps"
    "within (c_collection_limit (pb_base p)) (length ps)"
    using serialize_batch_frame[OF assms(5,3)] by metis
  have l: "length ps = length vs" using list_all2_lengthD[OF ps(1)] by simp
  let ?p = "with_worker_count workers p"
  have b: "pb_base ?p = pb_base p" "pb_workers ?p = workers" by (simp_all add: with_worker_count_def)
  have f: "fst (parse_batch receiver ?p (fc_new (frame @ rest))) =
    (if c_trailing (pb_base p) = Reject \<and> rest \<noteq> [] then Inl (TrailingBytesError (length rest)) else Inr ps)"
    using parse_batch_frame[of "fc_new (frame @ rest)" ps rest ?p receiver] assms(9-12) ps(2,3) l by (simp add: b)
  have d: "list_all2 (\<lambda>bs w. from_slice (pb_base p) (read n) bs = Inr w) ps (map widened vs)"
    unfolding list_all2_conv_all_nth
  proof (intro conjI allI impI)
    fix i assume i: "i < length ps"
    have t: "to_vec (pb_base p) (events lead (vs ! i)) = Inr (ps ! i)" using list_all2_nthD2[OF ps(1) i] i l by simp
    have "length (ps ! i) \<le> n" using member_length[of "ps ! i" ps] i assms(7) ps(2) by (simp add: length_batch_frame)
    then show "from_slice (pb_base p) (read n) (ps ! i) = Inr (map widened vs ! i)"
      using decode_encoded[OF assms(1,2) t _ _, of n "[]"] assms(4)[of "vs ! i"] i l by simp
  qed (simp add: l)
  then have "collect (from_slice (pb_base p) (read n)) ps = Inr (map widened vs)" by (simp add: collect_Inr)
  moreover have "\<not> panicked (from_slice (pb_base p) (read n) x)" if "x \<in> set ps" for x
    using d that by (auto simp: list_all2_conv_all_nth in_set_conv_nth)
  ultimately have "parallel_map ps workers (from_slice (pb_base p) (read n)) = Inr (map widened vs)"
    using parallel_map_collect[OF assms(6), of ps "from_slice (pb_base p) (read n)"] by simp
  then show ?thesis
    using f assms(8) by (simp add: deserialize_batch_def b pb_byte_limit_def check_limit_if)
qed

section \<open>Samples\<close>

definition sample_batch :: "byte list" where
  "sample_batch = batch_frame [[TAG_TRUE], [TAG_NULL]]"

lemma sample_payloads: "to_vec standard (events True (JBool True)) = Inr [TAG_TRUE]" "to_vec standard (events True JNull) = Inr [TAG_NULL]"
  using to_vec_wire[OF reachable_config.standard, of True "JBool True" "[TAG_TRUE]"]
    to_vec_wire[OF reachable_config.standard, of True JNull "[TAG_NULL]"]
  by (simp_all add: standard_def DEFAULT_SIZE_LIMIT_def MAX_DEPTH_def)

theorem batch_roundtrip_witness:
  "let p = \<lparr> pb_base = standard, pb_workers = 3 \<rparr> in
   serialize_batch (\<lambda>_. True) p (map (events True) [JBool True, JNull]) = Inr sample_batch \<and>
   deserialize_batch (\<lambda>_. True) (with_worker_count 1 p) (client_value (self_describing standard) 40) (sample_batch @ [7]) =
     Inl (TrailingBytesError 1) \<and>
   deserialize_batch (\<lambda>_. True) (with_worker_count 1 p) (client_value (self_describing standard) 40) sample_batch =
     Inr [JBool True, JNull]"
proof -
  let ?p = "\<lparr> pb_base = standard, pb_workers = 3 \<rparr>"
  have p: "pb_base ?p = standard" "0 < pb_workers ?p" "0 < (1 :: nat)" by simp_all
  have rd: "reads_values (self_describing (pb_base ?p)) (client_value (self_describing standard))"
    using client_reads[of "self_describing standard"] by simp
  have l: "length sample_batch = 34" by (simp add: sample_batch_def length_batch_frame)
  have np: "\<not> panicked (to_vec standard x)" if "x \<in> set (map (events True) [JBool True, JNull])" for x
    using that sample_payloads by (auto simp del: events.simps)
  have "parallel_map (map (events True) [JBool True, JNull]) 3 (to_vec standard) =
    collect (to_vec standard) (map (events True) [JBool True, JNull])"
    by (rule parallel_map_collect) (use np in auto)
  then have m: "parallel_map (map (events True) [JBool True, JNull]) 3 (to_vec standard) = Inr [[TAG_TRUE], [TAG_NULL]]"
    using sample_payloads by (simp del: events.simps)
  have c: "within (c_collection_limit standard) (Suc (Suc 0))" "within (c_limit standard) 34" "within (c_limit standard) 35" "c_trailing standard = Reject"
    by (simp_all add: standard_def DEFAULT_SIZE_LIMIT_def DEFAULT_COLLECTION_LIMIT_def)
  have s: "serialize_batch (\<lambda>_. True) ?p (map (events True) [JBool True, JNull]) = Inr sample_batch"
    unfolding serialize_batch_def using m c
    by (simp add: pb_collection_limit_def pb_byte_limit_def check_collection_if check_limit_if try_reserve_def sample_batch_def batch_frame_def
        del: events.simps)
  have v: "strings_ok v \<and> admissible True (c_collection_limit (pb_base ?p)) v" if "v \<in> set [JBool True, JNull]" for v
    using that by auto
  note r = batch_roundtrip[OF _ rd s v p(2,3), of 40 _ "\<lambda>_. True"]
  show ?thesis
    using r[of "[7]"] r[of "[]"] s c l reachable_config.standard by (simp add: Let_def del: client_value.simps events.simps)
qed

end
