(* ===== verification/Evolution.thy ===== *)
theory Evolution
  imports FrameCursor
begin

text \<open>
  \<^verbatim>\<open>src/evolution.rs\<close>: frames of fields with stable identifiers. What a type writes and reads is its own
  \<^verbatim>\<open>SchemaEncode\<close> and \<^verbatim>\<open>SchemaDecode\<close> code, a parameter: an operation on the encoder, and for each version an
  operation on the decoder.
\<close>

section \<open>Encoding\<close>

definition EV_MAGIC :: "byte list" where "EV_MAGIC = [0x52, 0x42, 0x45, 0x31]"
definition EV_FORMAT_VERSION :: u16 where "EV_FORMAT_VERSION = 1"
definition EV_HEADER_SIZE :: nat where "EV_HEADER_SIZE = 24"
definition FIELD_HEADER_SIZE :: nat where "FIELD_HEADER_SIZE = 12"

lemmas ev_consts [simp] = EV_MAGIC_def EV_FORMAT_VERSION_def EV_HEADER_SIZE_def FIELD_HEADER_SIZE_def

type_synonym encoded_field = "u32 \<times> byte list"

record field_encoder =
  fe_base :: config
  fe_fields :: "encoded_field list"

definition field_encoder_new :: "config \<Rightarrow> field_encoder" where
  "field_encoder_new cfg = \<lparr> fe_base = cfg, fe_fields = [] \<rparr>"

definition fe_field :: "u32 \<Rightarrow> event list \<Rightarrow> (field_encoder, unit) op" where
  "fe_field fid value e =
    (if fid \<in> fst ` set (fe_fields e) then (Inl (SchemaEvolution ''duplicate field ID''), e)
     else case to_vec (fe_base e) value of
         Inl err \<Rightarrow> (Inl err, e)
       | Inr payload \<Rightarrow> (Inr (), e\<lparr>fe_fields := fe_fields e @ [(fid, payload)]\<rparr>))"

definition encoded_field_bytes :: "encoded_field \<Rightarrow> byte list" where
  "encoded_field_bytes f = to_le_bytes (fst f) @ to_le_bytes (of_nat (length (snd f)) :: u64) @ snd f"

definition fe_finish :: "(nat \<Rightarrow> bool) \<Rightarrow> u64 \<Rightarrow> u32 \<Rightarrow> field_encoder \<Rightarrow> error + byte list" where
  "fe_finish alloc schema_id schema_version e =
    (let fs = sort_key fst (fe_fields e); required = EV_HEADER_SIZE + (\<Sum>f\<leftarrow>fs. FIELD_HEADER_SIZE + length (snd f)) in
     rbind (check_collection (c_collection_limit (fe_base e)) (length fs)) (\<lambda>_.
     if required > usize_max then Inl (InvalidFrame ''schema evolution frame size overflow'')
     else rbind (check_limit (c_limit (fe_base e)) required) (\<lambda>_.
     if length fs > 2 ^ 32 - 1 then Inl (IntegerOverflow ''u32'')
     else rbind (try_reserve alloc required) (\<lambda>_.
       Inr (EV_MAGIC @ to_le_bytes EV_FORMAT_VERSION @ to_le_bytes (0 :: u16) @ to_le_bytes schema_id @
         to_le_bytes schema_version @ to_le_bytes (of_nat (length fs) :: u32) @ concat (map encoded_field_bytes fs))))))"

definition ev_serialize ::
  "(nat \<Rightarrow> bool) \<Rightarrow> config \<Rightarrow> u64 \<Rightarrow> u32 \<Rightarrow> (field_encoder, unit) op \<Rightarrow> error + byte list" where
  "ev_serialize alloc cfg schema_id schema_version encode_fields =
    (case encode_fields (field_encoder_new cfg) of
       (Inl e, _) \<Rightarrow> Inl e | (Inr _, encoder) \<Rightarrow> fe_finish alloc schema_id schema_version encoder)"

section \<open>Decoding\<close>

record schema_field =
  sf_id :: u32
  sf_payload :: "byte list"
  sf_consumed :: bool

record field_decoder =
  sd_base :: config
  sd_fields :: "schema_field list"

text \<open>\<^verbatim>\<open>binary_search_by_key\<close> on fields with ascending identifiers finds the only one with the key.\<close>

definition sd_find :: "u32 \<Rightarrow> schema_field list \<Rightarrow> nat option" where
  "sd_find fid fs = find (\<lambda>i. sf_id (fs ! i) = fid) [0..<length fs]"

definition sd_optional :: "u32 \<Rightarrow> (decoder, 'a) op \<Rightarrow> (field_decoder, 'a option) op" where
  "sd_optional fid T d =
    (case sd_find fid (sd_fields d) of
       None \<Rightarrow> (Inr None, d)
     | Some index \<Rightarrow>
         let field = sd_fields d ! index in
         if sf_consumed field then (Inl (SchemaEvolution ''field decoded more than once''), d)
         else (rmap Some (from_slice (sd_base d) T (sf_payload field)),
               d\<lparr>sd_fields := (sd_fields d)[index := field\<lparr>sf_consumed := True\<rparr>]\<rparr>))"

definition sd_required :: "u32 \<Rightarrow> (decoder, 'a) op \<Rightarrow> (field_decoder, 'a) op" where
  "sd_required fid T = sbind (sd_optional fid T) (\<lambda>v. case v of
     None \<Rightarrow> sfail (SchemaEvolution ''required field is missing'') | Some x \<Rightarrow> sret x)"

definition sd_or_default :: "'a \<Rightarrow> u32 \<Rightarrow> (decoder, 'a) op \<Rightarrow> (field_decoder, 'a) op" where
  "sd_or_default dflt fid T = sbind (sd_optional fid T) (\<lambda>v. sret (case v of None \<Rightarrow> dflt | Some x \<Rightarrow> x))"

definition unknown_fields :: "field_decoder \<Rightarrow> encoded_field list" where
  "unknown_fields d = map (\<lambda>f. (sf_id f, sf_payload f)) (filter (\<lambda>f. \<not> sf_consumed f) (sd_fields d))"

primrec read_fields :: "nat \<Rightarrow> u32 option \<Rightarrow> (frame_cursor, schema_field list) op" where
  "read_fields 0 previous = sret []"
| "read_fields (Suc n) previous = sbind fc_u32 (\<lambda>fid.
     if (case previous of Some last_id \<Rightarrow> fid \<le> last_id | None \<Rightarrow> False)
     then sfail (SchemaEvolution ''field IDs must be unique and strictly increasing'')
     else sbind fc_u64 (\<lambda>len. sbind (fc_take (unat len)) (\<lambda>payload. sbind (read_fields n (Some fid)) (\<lambda>fs.
       sret (\<lparr> sf_id = fid, sf_payload = payload, sf_consumed = False \<rparr> # fs)))))"

text \<open>A field takes 24 bytes of memory. The result is the version of the sender and the fields.\<close>

definition parse_fields_frame ::
  "(nat \<Rightarrow> bool) \<Rightarrow> config \<Rightarrow> u64 \<Rightarrow> (frame_cursor, u32 \<times> schema_field list) op" where
  "parse_fields_frame alloc cfg schema_id =
    sbind (fc_take 4) (\<lambda>magic.
    if magic \<noteq> EV_MAGIC then sfail (InvalidFrame ''bad schema evolution magic'')
    else sbind fc_u16 (\<lambda>format_version.
    if format_version \<noteq> EV_FORMAT_VERSION then sfail (InvalidFrame ''unsupported schema evolution format version'')
    else sbind fc_u16 (\<lambda>flags.
    if flags \<noteq> 0 then sfail (InvalidFrame ''unsupported schema evolution flags'')
    else sbind fc_u64 (\<lambda>actual.
    if actual \<noteq> schema_id then sfail (SchemaMismatch (unat schema_id) (unat actual))
    else sbind fc_u32 (\<lambda>schema_version.
    sbind fc_u32 (\<lambda>field_count.
    sbind (slift (\<lambda>_. check_collection (c_collection_limit cfg) (unat field_count))) (\<lambda>_.
    if unat field_count * FIELD_HEADER_SIZE > usize_max then sfail (InvalidFrame ''schema field table overflow'')
    else sbind (slift (\<lambda>c. if unat field_count * FIELD_HEADER_SIZE > fc_remaining c then Inl UnexpectedEnd else Inr ())) (\<lambda>_.
    sbind (slift (\<lambda>_. try_reserve alloc (unat field_count * 24))) (\<lambda>_.
    sbind (read_fields (unat field_count) None) (\<lambda>fs.
    sbind (fc_finish (c_trailing cfg)) (\<lambda>_. sret (schema_version, fs))))))))))))"

definition ev_deserialize ::
  "(nat \<Rightarrow> bool) \<Rightarrow> config \<Rightarrow> u64 \<Rightarrow> (u32 \<Rightarrow> (field_decoder, 'a) op) \<Rightarrow> byte list \<Rightarrow> error + 'a" where
  "ev_deserialize alloc cfg schema_id decode_fields input =
    rbind (check_limit (c_limit cfg) (length input)) (\<lambda>_.
    rbind (fst (parse_fields_frame alloc cfg schema_id (fc_new input))) (\<lambda>(schema_version, fs).
      fst (decode_fields schema_version \<lparr> sd_base = cfg, sd_fields = fs \<rparr>)))"

section \<open>Frames\<close>

definition ev_frame :: "u64 \<Rightarrow> u32 \<Rightarrow> encoded_field list \<Rightarrow> byte list" where
  "ev_frame schema_id version fs = EV_MAGIC @ to_le_bytes EV_FORMAT_VERSION @ to_le_bytes (0 :: u16) @ to_le_bytes schema_id @
     to_le_bytes version @ to_le_bytes (of_nat (length fs) :: u32) @ concat (map encoded_field_bytes fs)"

lemma length_encoded_fields: "length (concat (map encoded_field_bytes fs)) = 12 * length fs + (\<Sum>f\<leftarrow>fs. length (snd f))"
  by (induction fs) (simp_all add: encoded_field_bytes_def)

lemma length_ev_frame: "length (ev_frame schema_id version fs) = 24 + 12 * length fs + (\<Sum>f\<leftarrow>fs. length (snd f))"
  by (simp add: ev_frame_def length_encoded_fields)

lemma fe_finish_frame:
  assumes "fe_finish alloc schema_id version e = Inr frame"
  shows "frame = ev_frame schema_id version (sort_key fst (fe_fields e))"
    and "within (c_collection_limit (fe_base e)) (length (fe_fields e))" and "length (fe_fields e) \<le> 2 ^ 32 - 1"
  using assms by (auto simp: fe_finish_def Let_def rbind_eq_Inr ev_frame_def split: if_splits)

text \<open>The fields a decoder holds after the identifiers in \<open>used\<close> have been asked for.\<close>

definition received :: "u32 set \<Rightarrow> encoded_field list \<Rightarrow> schema_field list" where
  "received used fs = map (\<lambda>f. \<lparr> sf_id = fst f, sf_payload = snd f, sf_consumed = fst f \<in> used \<rparr>) fs"

lemma yields_fields:
  assumes "sorted_wrt (<) (map fst fs)" and "\<And>f. f \<in> set fs \<Longrightarrow> length (snd f) \<le> usize_max"
    and "\<And>last_id f. previous = Some last_id \<Longrightarrow> f \<in> set fs \<Longrightarrow> last_id < fst f"
  shows "fc.yields (read_fields (length fs) previous) (concat (map encoded_field_bytes fs)) (received {} fs)"
  using assms
proof (induction fs arbitrary: previous)
  case Nil
  show ?case by (simp add: received_def fc.rd_yields_ret del: sop_simps)
next
  case (Cons f fs)
  have b: "\<not> (case previous of Some last_id \<Rightarrow> fst f \<le> last_id | None \<Rightarrow> False)"
    using Cons.prems(3)[of _ f] by (auto split: option.split)
  have ih: "fc.yields (read_fields (length fs) (Some (fst f))) (concat (map encoded_field_bytes fs)) (received {} fs)"
    using Cons.prems by (intro Cons.IH) auto
  have u: "unat (of_nat (length (snd f)) :: u64) = length (snd f)" using Cons.prems(2)[of f] by (intro unat_u64) simp
  have t: "fc.yields (sbind (fc_take (unat (of_nat (length (snd f)) :: u64))) (\<lambda>payload. sbind (read_fields (length fs) (Some (fst f))) (\<lambda>fs.
       sret (\<lparr> sf_id = fst f, sf_payload = payload, sf_consumed = False \<rparr> # fs))))
    (snd f @ concat (map encoded_field_bytes fs)) (received {} (f # fs))"
    by (rule fc.rd_yields_sbind[OF fc_yields_take[OF u] fc.rd_yields_map[OF ih]]) (simp add: received_def del: sop_simps)
  show ?case
    unfolding list.size add_0_right add_Suc_right read_fields.simps list.map concat.simps
      encoded_field_bytes_def[of f] append_assoc
    by (rule fc.rd_yields_sbind[OF fc_yields_words(2)], simp only: b if_False)
      (rule fc.rd_yields_sbind[where v = "of_nat (length (snd f)) :: u64", OF fc_yields_words(3)], rule t)
qed

lemma parse_fields_ev_frame:
  assumes "fc_valid c" and "fc_rest c = ev_frame schema_id version fs @ rest"
    and "sorted_wrt (<) (map fst fs)" and "length fs \<le> 2 ^ 32 - 1"
    and "within (c_collection_limit cfg) (length fs)" and "alloc (24 * length fs)"
  shows "fst (parse_fields_frame alloc cfg schema_id c) =
    (if c_trailing cfg = Reject \<and> rest \<noteq> [] then Inl (TrailingBytesError (length rest)) else Inr (version, received {} fs))"
proof -
  let ?n = "length fs" and ?body = "concat (map encoded_field_bytes fs)"
  have l: "24 + length ?body + length rest \<le> usize_max"
    using assms(1,2) by (auto simp: fc_valid_def fc_rest_def dest!: arg_cong[of _ "_ @ _" length] simp: length_ev_frame length_encoded_fields)
  have n: "length (ev_frame schema_id version fs) = 24 + length ?body" by (simp add: length_ev_frame length_encoded_fields)
  have u: "unat (of_nat ?n :: u32) = ?n" using assms(4) by (simp add: unat_of_nat)
  have r: "fc_rest (fc_adv k c) = drop k (ev_frame schema_id version fs @ rest)" for k by (simp add: fc.rest_adv assms(2))
  have v: "fc_valid (fc_adv k c)" if "k \<le> 24 + length ?body" for k
    using fc_valid_adv[OF assms(1), of k] that assms(2) n by simp
  have s: "fc.starts c EV_MAGIC" "fc.starts (fc_adv 4 c) (to_le_bytes EV_FORMAT_VERSION)" "fc.starts (fc_adv 6 c) (to_le_bytes (0 :: u16))"
    "fc.starts (fc_adv 8 c) (to_le_bytes schema_id)" "fc.starts (fc_adv 16 c) (to_le_bytes version)"
    "fc.starts (fc_adv 20 c) (to_le_bytes (of_nat ?n :: u32))" "fc.starts (fc_adv 24 c) ?body"
    using v assms(1,2) by (simp_all add: fc.starts_def r ev_frame_def)
  have w: "length (snd f) \<le> usize_max" if "f \<in> set fs" for f
    using l member_le_sum_list[of "length (snd f)" "map (\<lambda>f. length (snd f)) fs"] that by (simp add: length_encoded_fields)
  have magic: "fc_take 4 c = (Inr EV_MAGIC, fc_adv 4 c)"
    using fc.rd_yieldsD[OF fc_yields_take[OF refl] s(1)] by (simp add: numeral_eq_Suc)
  have body: "read_fields ?n None (fc_adv 24 c) = (Inr (received {} fs), fc_adv (length ?body) (fc_adv 24 c))"
    by (rule fc.rd_yieldsD[OF yields_fields s(7)]) (use assms(3) w in auto)
  note steps = magic fc.rd_yieldsD[OF fc_yields_words(1) s(2)] fc.rd_yieldsD[OF fc_yields_words(1) s(3)]
    fc.rd_yieldsD[OF fc_yields_words(3) s(4)] fc.rd_yieldsD[OF fc_yields_words(2) s(5)] fc.rd_yieldsD[OF fc_yields_words(2) s(6)] body
  have m: "12 * ?n \<le> fc_remaining (fc_adv 24 c)" "12 * ?n \<le> usize_max"
    using v l by (simp_all add: fc_remaining_rest r n length_encoded_fields)
  have m2: "24 * ?n < 2 ^ 63" using assms(4) by simp
  have e: "fc_finish policy (fc_adv (24 + length ?body) c) =
    (if policy = Reject \<and> rest \<noteq> [] then Inl (TrailingBytesError (length rest)) else Inr (), fc_adv (24 + length ?body) c)" for policy
    using v[of "24 + length ?body"] by (subst fc_finish_rest) (simp_all add: r n)
  show ?thesis
    using steps m m2 assms(3-6) u
    by (simp add: sbind_def[of "fc_finish _"] e parse_fields_frame_def fc.adv_adv check_collection_if try_reserve_def mult.commute)
qed

section \<open>Access by identifier\<close>

lemma received_nth: "i < length fs \<Longrightarrow>
    received used fs ! i = \<lparr> sf_id = fst (fs ! i), sf_payload = snd (fs ! i), sf_consumed = fst (fs ! i) \<in> used \<rparr>"
  by (simp add: received_def)

lemma distinct_fst_nth:
  "distinct (map fst fs) \<Longrightarrow> i < length fs \<Longrightarrow> j < length fs \<Longrightarrow> fst (fs ! i) = fst (fs ! j) \<Longrightarrow> i = j"
  by (metis length_map nth_eq_iff_index_eq nth_map)

lemma sd_find_received:
  assumes "distinct (map fst fs)"
  shows "sd_find fid (received used fs) = Some i \<longleftrightarrow> i < length fs \<and> fst (fs ! i) = fid"
    and "sd_find fid (received used fs) = None \<longleftrightarrow> map_of fs fid = None"
proof -
  have l: "length (received used fs) = length fs" by (simp add: received_def)
  note d = distinct_fst_nth[OF assms]
  show "sd_find fid (received used fs) = Some i \<longleftrightarrow> i < length fs \<and> fst (fs ! i) = fid"
  proof
    assume "sd_find fid (received used fs) = Some i"
    then show "i < length fs \<and> fst (fs ! i) = fid" by (auto simp: sd_find_def find_Some_iff l received_nth)
  next
    assume i: "i < length fs \<and> fst (fs ! i) = fid"
    then have "fst (fs ! j) \<noteq> fid" if "j < i" for j using d[of i j] that by auto
    then show "sd_find fid (received used fs) = Some i"
      unfolding sd_find_def find_Some_iff l using i by (intro exI[of _ i]) (simp add: received_nth)
  qed
  show "sd_find fid (received used fs) = None \<longleftrightarrow> map_of fs fid = None"
    unfolding sd_find_def find_None_iff l map_of_eq_None_iff set_map[symmetric] in_set_conv_nth
    by (auto simp: received_nth simp del: set_map)
qed

text \<open>Asking for an identifier: its value, or that the sender did not write it, and an error the second time.\<close>

lemma sd_optional_received:
  assumes "distinct (map fst fs)" and "fid \<notin> used"
  shows "sd_optional fid T \<lparr> sd_base = cfg, sd_fields = received used fs \<rparr> =
    (case map_of fs fid of None \<Rightarrow> Inr None | Some payload \<Rightarrow> rmap Some (from_slice cfg T payload),
     \<lparr> sd_base = cfg, sd_fields = received (insert fid used) fs \<rparr>)"
proof (cases "map_of fs fid")
  case None
  then have "fst f \<noteq> fid" if "f \<in> set fs" for f using that by (auto simp: map_of_eq_None_iff)
  then have "received (insert fid used) fs = received used fs" by (simp add: received_def)
  moreover have "sd_find fid (received used fs) = None" using None sd_find_received(2)[OF assms(1)] by simp
  ultimately show ?thesis using None by (simp add: sd_optional_def)
next
  case (Some p)
  then obtain i where i: "i < length fs" "fs ! i = (fid, p)" by (auto dest!: map_of_SomeD simp: in_set_conv_nth)
  have f: "sd_find fid (received used fs) = Some i" using sd_find_received(1)[OF assms(1)] i by simp
  have n: "fst (fs ! j) \<noteq> fid" if "j < length fs" "j \<noteq> i" for j
    using distinct_fst_nth[OF assms(1), of j i] i that by auto
  have "(received used fs)[i := (received used fs ! i)\<lparr>sf_consumed := True\<rparr>] = received (insert fid used) fs"
  proof (rule nth_equalityI)
    fix j assume "j < length ((received used fs)[i := (received used fs ! i)\<lparr>sf_consumed := True\<rparr>])"
    then have "j < length fs" by (simp add: received_def)
    then show "(received used fs)[i := (received used fs ! i)\<lparr>sf_consumed := True\<rparr>] ! j = received (insert fid used) fs ! j"
      using i n[of j] by (cases "j = i") (simp_all add: received_nth received_def)
  qed (simp add: received_def)
  then show ?thesis using f i assms(2) Some by (simp add: sd_optional_def received_nth)
qed

lemma sd_optional_twice:
  assumes "distinct (map fst fs)" and "map_of fs fid = Some payload" and "fid \<in> used"
  shows "fst (sd_optional fid T \<lparr> sd_base = cfg, sd_fields = received used fs \<rparr>) =
    Inl (SchemaEvolution ''field decoded more than once'')"
proof -
  obtain i where i: "i < length fs" "fs ! i = (fid, payload)"
    using assms(2) by (auto dest!: map_of_SomeD simp: in_set_conv_nth)
  have "sd_find fid (received used fs) = Some i" using sd_find_received(1)[OF assms(1)] i by simp
  then show ?thesis using i assms(3) by (simp add: sd_optional_def received_nth)
qed

lemma unknown_fields_received:
  "unknown_fields \<lparr> sd_base = cfg, sd_fields = received used fs \<rparr> = filter (\<lambda>f. fst f \<notin> used) fs"
  by (induction fs) (simp_all add: unknown_fields_def received_def)

section \<open>Writers and readers\<close>

text \<open>An \<^verbatim>\<open>encode_fields\<close> that writes given fields in order, and a \<^verbatim>\<open>decode_fields\<close> that asks for identifiers in order.\<close>

primrec write_fields :: "(u32 \<times> event list) list \<Rightarrow> (field_encoder, unit) op" where
  "write_fields [] = sret ()"
| "write_fields (f # fs) = sbind (fe_field (fst f) (snd f)) (\<lambda>_. write_fields fs)"

primrec request_fields :: "(decoder, 'a) op \<Rightarrow> u32 list \<Rightarrow> (field_decoder, 'a option list) op" where
  "request_fields T [] = sret []"
| "request_fields T (i # ids) = sbind (sd_optional i T) (\<lambda>v. sbind (request_fields T ids) (\<lambda>vs. sret (v # vs)))"

lemma fe_field_Inr:
  "fe_field fid v e = (Inr u, e') \<longleftrightarrow> fid \<notin> fst ` set (fe_fields e) \<and>
    (\<exists>payload. to_vec (fe_base e) v = Inr payload \<and> e' = e\<lparr>fe_fields := fe_fields e @ [(fid, payload)]\<rparr>)"
  by (auto simp: fe_field_def split: sum.splits)

lemma write_fields_distinct:
  "write_fields vs e = (Inr u, e') \<Longrightarrow> distinct (map fst (fe_fields e)) \<Longrightarrow> distinct (map fst (fe_fields e'))"
proof (induction vs arbitrary: e)
  case (Cons v vs)
  then obtain p where p: "fst v \<notin> fst ` set (fe_fields e)"
    "write_fields vs (e\<lparr>fe_fields := fe_fields e @ [(fst v, p)]\<rparr>) = (Inr u, e')"
    by (auto simp: sbind_Inr fe_field_Inr)
  show ?case by (rule Cons.IH[OF p(2)]) (use p(1) Cons.prems(2) in simp)
qed simp

lemma write_fields_Inr:
  assumes "write_fields (map (\<lambda>f. (fst f, events lead (snd f))) fs) e = (Inr u, e')" and "reachable_config (fe_base e)"
  shows "fe_base e' = fe_base e \<and> fe_fields e' = fe_fields e @ map (\<lambda>f. (fst f, wire (fe_base e) (snd f))) fs \<and>
    (\<forall>f \<in> set fs. to_vec (fe_base e) (events lead (snd f)) = Inr (wire (fe_base e) (snd f)))"
  using assms
proof (induction fs arbitrary: e)
  case (Cons f fs)
  then obtain p where p: "to_vec (fe_base e) (events lead (snd f)) = Inr p"
    "write_fields (map (\<lambda>f. (fst f, events lead (snd f))) fs) (e\<lparr>fe_fields := fe_fields e @ [(fst f, p)]\<rparr>) = (Inr u, e')"
    by (auto simp: sbind_Inr fe_field_Inr)
  have "p = wire (fe_base e) (snd f)" using to_vec_wire[OF Cons.prems(2)] p(1) by blast
  then show ?case using Cons.IH[OF p(2)] Cons.prems(2) p(1) by simp
qed simp

lemma request_received:
  assumes "distinct (map fst fs)" and "distinct ids" and "set ids \<inter> used = {}"
    and "\<And>f. f \<in> set fs \<Longrightarrow> from_slice cfg T (snd f) = Inr (value_of (snd f))"
  shows "request_fields T ids \<lparr> sd_base = cfg, sd_fields = received used fs \<rparr> =
    (Inr (map (\<lambda>i. map_option value_of (map_of fs i)) ids), \<lparr> sd_base = cfg, sd_fields = received (set ids \<union> used) fs \<rparr>)"
  using assms(2,3)
proof (induction ids arbitrary: used)
  case (Cons i ids)
  have "sd_optional i T \<lparr> sd_base = cfg, sd_fields = received used fs \<rparr> =
    (Inr (map_option value_of (map_of fs i)), \<lparr> sd_base = cfg, sd_fields = received (insert i used) fs \<rparr>)"
    using sd_optional_received[OF assms(1), of i used T cfg] Cons.prems assms(4) map_of_SomeD[of fs i]
    by (fastforce split: option.split)
  moreover have "set ids \<inter> insert i used = {}" using Cons.prems by auto
  ultimately show ?case using Cons.IH[of "insert i used"] Cons.prems by (simp add: Un_commute)
qed simp

lemma insort_key_map_fst:
  "insort_key fst (fst f, g (snd f)) (map (\<lambda>f. (fst f, g (snd f))) fs) = map (\<lambda>f. (fst f, g (snd f))) (insort_key fst f fs)"
  by (induction fs) auto

lemma sort_key_map_fst: "sort_key fst (map (\<lambda>f. (fst f, g (snd f))) fs) = map (\<lambda>f. (fst f, g (snd f))) (sort_key fst fs)"
  by (induction fs) (simp_all add: insort_key_map_fst)

lemma sorted_strict: "distinct (map fst fs) \<Longrightarrow> sorted_wrt (<) (map fst (sort_key fst fs))"
  by (simp add: strict_sorted_iff distinct_map)

lemma map_of_sort: "distinct (map fst fs) \<Longrightarrow> map_of (sort_key fst fs) = map_of fs"
  by (subst map_of_inject_set) (simp_all add: distinct_map)

lemma map_of_map_snd: "map_of (map (\<lambda>f. (fst f, g (snd f))) fs) i = map_option g (map_of fs i)"
  by (induction fs) auto

text \<open>
  C40: schema evolution. A frame of fields with any identifiers, written in any order, is read by any revision of
  the type, one that asks for other fields included: a field the sender wrote arrives with its value (every
  \<^verbatim>\<open>f32\<close> widened to the \<^verbatim>\<open>f64\<close> of the same number), a field it did not write arrives as absent, and the
  fields the reader did not ask for are its unknown fields, by ascending identifier and byte for byte. The
  sender's version reaches the reader, and bytes behind the frame are treated as the trailing policy says.
\<close>

theorem evolution_roundtrip:
  assumes "reachable_config cfg" and "reads_values (self_describing cfg) read"
    and "ev_serialize alloc cfg schema_id version (write_fields (map (\<lambda>f. (fst f, events lead (snd f))) fs)) = Inr frame"
    and "\<And>f. f \<in> set fs \<Longrightarrow> strings_ok (snd f) \<and> admissible True (c_collection_limit cfg) (snd f)"
    and "distinct ids" and "length frame \<le> n"
    and "within (c_limit cfg) (length (frame @ rest))" and "length (frame @ rest) \<le> usize_max" and "receiver (24 * length fs)"
  shows "ev_deserialize receiver cfg schema_id
      (\<lambda>version. sbind (request_fields (read n) ids) (\<lambda>vs. slift (\<lambda>d. Inr (version, vs, unknown_fields d)))) (frame @ rest) =
    (if c_trailing cfg = Reject \<and> rest \<noteq> [] then Inl (TrailingBytesError (length rest))
     else Inr (version, map (\<lambda>i. map_option widened (map_of fs i)) ids,
       map (\<lambda>f. (fst f, wire cfg (snd f))) (filter (\<lambda>f. fst f \<notin> set ids) (sort_key fst fs))))"
proof -
  obtain e where e: "write_fields (map (\<lambda>f. (fst f, events lead (snd f))) fs) (field_encoder_new cfg) = (Inr (), e)"
    "fe_finish alloc schema_id version e = Inr frame"
    using assms(3) by (auto simp: ev_serialize_def split: prod.splits sum.splits)
  let ?fs = "map (\<lambda>f. (fst f, wire cfg (snd f))) fs" and ?ss = "map (\<lambda>f. (fst f, wire cfg (snd f))) (sort_key fst fs)"
  have w: "fe_base e = cfg" "fe_fields e = ?fs"
    and p: "\<And>f. f \<in> set fs \<Longrightarrow> to_vec cfg (events lead (snd f)) = Inr (wire cfg (snd f))"
    using write_fields_Inr[OF e(1)] assms(1) by (simp_all add: field_encoder_new_def)
  have d: "distinct (map fst fs)"
    using write_fields_distinct[OF e(1)] w(2) by (simp add: field_encoder_new_def comp_def)
  have f: "frame = ev_frame schema_id version ?ss" "within (c_collection_limit cfg) (length fs)" "length fs \<le> 2 ^ 32 - 1"
    using fe_finish_frame[OF e(2)] w by (simp_all add: sort_key_map_fst)
  have ds: "distinct (map fst ?ss)" using d by (simp add: comp_def distinct_map)
  have parsed: "fst (parse_fields_frame receiver cfg schema_id (fc_new (frame @ rest))) =
    (if c_trailing cfg = Reject \<and> rest \<noteq> [] then Inl (TrailingBytesError (length rest)) else Inr (version, received {} ?ss))"
    by (rule parse_fields_ev_frame) (use assms(8,9) f sorted_strict[OF d] in \<open>simp_all add: comp_def\<close>)
  have decoded: "from_slice cfg (read n) (wire cfg (snd g)) = Inr (widened (snd g))" if "g \<in> set fs" for g
  proof -
    have "length (wire cfg (snd g)) \<le> length frame"
      using member_le_sum_list[of "length (wire cfg (snd g))" "map (\<lambda>f. length (snd f)) ?ss"] that
      by (fastforce simp: f(1) length_ev_frame)
    then show ?thesis using decode_encoded[OF assms(1,2) p[OF that], of n "[]"] assms(4)[OF that] assms(6) by simp
  qed
  let ?payload_value = "\<lambda>payload. projr (from_slice cfg (read n) payload)"
  have asked: "request_fields (read n) ids \<lparr> sd_base = cfg, sd_fields = received {} ?ss \<rparr> =
    (Inr (map (\<lambda>i. map_option ?payload_value (map_of ?ss i)) ids), \<lparr> sd_base = cfg, sd_fields = received (set ids \<union> {}) ?ss \<rparr>)"
    by (rule request_received[OF ds assms(5)]) (use decoded in auto)
  have got: "map_option ?payload_value (map_of ?ss i) = map_option widened (map_of fs i)" for i
    using decoded map_of_SomeD[of fs i] by (cases "map_of fs i") (auto simp: map_of_map_snd map_of_sort[OF d])
  have left: "unknown_fields \<lparr> sd_base = cfg, sd_fields = received (set ids \<union> {}) ?ss \<rparr> =
    map (\<lambda>f. (fst f, wire cfg (snd f))) (filter (\<lambda>f. fst f \<notin> set ids) (sort_key fst fs))"
    unfolding unknown_fields_received by (simp add: filter_map comp_def)
  show ?thesis
    using parsed asked left assms(7) unfolding got by (simp add: ev_deserialize_def check_limit_if)
qed

definition sample_fields :: "(u32 \<times> jv) list" where
  "sample_fields = [(9, JBool True), (4, JNull), (7, JBool False)]"

lemma ev_sample: "wire standard (JBool True) = [TAG_TRUE]" "wire standard (JBool False) = [TAG_FALSE]" "wire standard JNull = [TAG_NULL]"
  "to_vec standard (events True (JBool True)) = Inr [TAG_TRUE]" "to_vec standard (events True (JBool False)) = Inr [TAG_FALSE]"
  "to_vec standard (events True JNull) = Inr [TAG_NULL]"
  using to_vec_wire[OF reachable_config.standard, of True "JBool True" "[TAG_TRUE]"]
    to_vec_wire[OF reachable_config.standard, of True "JBool False" "[TAG_FALSE]"]
    to_vec_wire[OF reachable_config.standard, of True JNull "[TAG_NULL]"]
  by (simp_all add: standard_def DEFAULT_SIZE_LIMIT_def MAX_DEPTH_def)

theorem evolution_roundtrip_witness:
  "let frame = ev_frame 1 2 [(4, [TAG_NULL]), (7, [TAG_FALSE]), (9, [TAG_TRUE])];
       reader = (\<lambda>version. sbind (request_fields (client_value (self_describing standard) 63) [9, 5]) (\<lambda>vs.
         slift (\<lambda>d. Inr (version, vs, unknown_fields d)))) in
   ev_serialize (\<lambda>_. True) standard 1 2 (write_fields (map (\<lambda>f. (fst f, events True (snd f))) sample_fields)) = Inr frame \<and>
   ev_deserialize (\<lambda>_. True) standard 1 reader frame =
     Inr (2, [Some (JBool True), None], [(4, [TAG_NULL]), (7, [TAG_FALSE])]) \<and>
   ev_deserialize (\<lambda>_. True) standard 1 reader (frame @ [0]) = Inl (TrailingBytesError 1)"
proof -
  let ?frame = "ev_frame 1 2 [(4, [TAG_NULL]), (7, [TAG_FALSE]), (9, [TAG_TRUE])]"
  have rd: "reads_values (self_describing standard) (client_value (self_describing standard))"
    using client_reads[of "self_describing standard"] by simp
  let ?e = "\<lparr> fe_base = standard, fe_fields = [(9, [TAG_TRUE]), (4, [TAG_NULL]), (7, [TAG_FALSE])] \<rparr>"
  have c: "within (c_collection_limit standard) (Suc (Suc (Suc 0)))" "within (c_limit standard) 63" "within (c_limit standard) 64"
    "c_trailing standard = Reject"
    by (simp_all add: standard_def DEFAULT_SIZE_LIMIT_def DEFAULT_COLLECTION_LIMIT_def)
  have l: "length ?frame = 63" by (simp add: length_ev_frame)
  have "write_fields (map (\<lambda>f. (fst f, events True (snd f))) sample_fields) (field_encoder_new standard) = (Inr (), ?e)"
    by (simp add: sample_fields_def sbind_def fe_field_def field_encoder_new_def ev_sample del: events.simps)
  moreover have "fe_finish (\<lambda>_. True) 1 2 ?e = Inr ?frame"
    using c by (simp add: fe_finish_def Let_def check_collection_if check_limit_if try_reserve_def ev_frame_def)
  ultimately have s: "ev_serialize (\<lambda>_. True) standard 1 2 (write_fields (map (\<lambda>f. (fst f, events True (snd f))) sample_fields)) =
    Inr ?frame"
    by (simp add: ev_serialize_def)
  have v: "strings_ok (snd f) \<and> admissible True (c_collection_limit standard) (snd f)" if "f \<in> set sample_fields" for f
    using that by (auto simp: sample_fields_def)
  note r = evolution_roundtrip[OF reachable_config.standard rd s v, of "[9, 5]" 63 _ "\<lambda>_. True"]
  show ?thesis
    using r[of "[]"] r[of "[0]"] s l c by (simp add: Let_def sample_fields_def ev_sample del: client_value.simps events.simps)
qed

end
