(* ===== verification/Spec2Isabelle.thy ===== *)
theory Spec2Isabelle
  imports Probe CompactCursor Delta Bitpack Compression Entropy ProjectionProofs Schema Trust Ibl AdaptiveProofs EncryptedFrame CborProofs Parallel Evolution
begin

text \<open>
  A verification library for RustBinary (crate \<^verbatim>\<open>rustbinary\<close>, sources under \<^verbatim>\<open>src/src\<close>), a family of
  binary serialisation profiles with explicit resource limits. The model assumes a 64-bit
  little-endian target: \<^verbatim>\<open>usize\<close> is 64 bits wide. Integers that are data are words of their width;
  lengths, limits, counters and cursors are naturals with every overflow check of the code written
  out. A fallible function returns \<open>error + 'a\<close> (the crate's \<^verbatim>\<open>Result\<close>); a method on \<^verbatim>\<open>&mut self\<close> is an
  \<open>('s, 'a) op\<close>, a function from the receiver to the result and the receiver afterwards, so that a
  failed call still has its effects. A panic of the code is the error value \<open>Panic\<close>, and the theorems
  say where it cannot occur.

  Theories.
  \<^item> \<open>RB_Prelude\<close>: \<^verbatim>\<open>src/error.rs\<close>, the result and state combinators, byte conversions, limits.
  \<^item> \<open>Canonical\<close>: \<^verbatim>\<open>src/canonical.rs\<close> and the markers of \<^verbatim>\<open>src/tags.rs\<close>: canonical varints and ZigZag; the
    decoder accepts exactly the encoder's output.
  \<^item> \<open>Config\<close>: \<^verbatim>\<open>src/config.rs\<close>, the builders, and the depth ceiling of every reachable configuration.
  \<^item> \<open>Writer\<close>: \<^verbatim>\<open>src/writer.rs\<close>, the byte sinks behind the locale \<open>sink\<close> with its three interpretations.
  \<^item> \<open>Ser\<close>: \<^verbatim>\<open>src/ser.rs\<close>, the self-describing encoder as an event machine over any sink; every sink
    gives the vector's result.
  \<^item> \<open>EventEncoding\<close>: nextjson's dynamic values, the events a serialiser issues for them, and the locale
    \<open>event_encoder\<close>: what an encoder does with a value follows from what it does with each event.
  \<^item> \<open>Wire\<close>: the wire form of nextjson's values and the totality of \<^verbatim>\<open>to_vec\<close>: which values are
    admissible under the limits, and the bytes they become.
  \<^item> \<open>Decoder\<close>: \<^verbatim>\<open>src/decoder.rs\<close>, the pull decoder, its safety against every client, \<^verbatim>\<open>skip_value\<close>.
  \<^item> \<open>Client\<close>: the methods of \<^verbatim>\<open>FormatDecoder\<close> as a record, and what the round trips rely on of nextjson's
    readers: which methods a reader of dynamic values calls, and in which order (\<open>reads_values\<close>).
  \<^item> \<open>Stream\<close>: the round trip of the profile, for every such reader.
  \<^item> \<open>Reader\<close>: the locale \<open>reader\<close>, the contract of the cursors below.
  \<^item> \<open>Probe\<close>: \<^verbatim>\<open>src/probe.rs\<close>, the structural walk; it terminates on every input within its fuel and
    reports the exact shape of what the encoder wrote in the little-endian varint profiles.
  \<^item> \<open>Alloc\<close>: what a reservation of memory does when it fails; the allocator is a parameter.
  \<^item> \<open>Compact\<close>, \<open>CompactCursor\<close>: \<^verbatim>\<open>src/compact.rs\<close>, the typed schema-driven profile over a universe of
    types, its encoder over any sink and its decoder as another \<open>reader\<close>; the round trip, the totality
    of the encoder, the equivalence of the bulk and the element-wise decoders.
  \<^item> \<open>Delta\<close>: \<^verbatim>\<open>src/delta.rs\<close>, integer deltas and update frames with the shared table; sender and
    receiver stay in the same state.
  \<^item> \<open>Bits\<close>, \<open>Bitpack\<close>: bytes as bit strings, and \<^verbatim>\<open>src/bitpack.rs\<close>, the bit-level fields; the packed
    form is canonical.
  \<^item> \<open>Lz\<close>: \<^verbatim>\<open>src/lz.rs\<close>, the LZ77 compressor with its chains and bit streams, refined to a token list;
    losslessness and the two size bounds.
  \<^item> \<open>Compression\<close>: \<^verbatim>\<open>src/compression.rs\<close>, the adaptive frame around the self-describing profile, and
    the bounded reader of \<^verbatim>\<open>src/adapters.rs\<close>.
  \<^item> \<open>Frames\<close>: what the 24-byte frame headers share.
  \<^item> \<open>Rans\<close>, \<open>Entropy\<close>: \<^verbatim>\<open>src/rans.rs\<close>, the static models, the rANS coder with the range of its state, and
    the entropy frame; coder and decoder are inverse bijections, which also settles what replay
    verification can detect.
  \<^item> \<open>Projection\<close>, \<open>ProjectionProofs\<close>: \<^verbatim>\<open>src/projection.rs\<close>, records with a Merkle root and proofs of selected
    fields; the hash is a parameter, and soundness holds up to a collision among the inputs hashed.
  \<^item> \<open>Schema\<close>: \<^verbatim>\<open>src/schema.rs\<close> and \<^verbatim>\<open>src/reflection.rs\<close>, fingerprints of types and the frames they guard.
  \<^item> \<open>Trust\<close>: \<^verbatim>\<open>src/trust.rs\<close>, authenticated configurations and sessions as a step relation; the locale
    \<open>lawful_codec\<close> carries the round trip over any codec.
  \<^item> \<open>Ibl\<close>: \<^verbatim>\<open>src/ibl.rs\<close>, invertible Bloom lookup tables as sums of their elements, and their peeling.
  \<^item> \<open>Adaptive\<close>, \<open>AdaptiveProofs\<close>: \<^verbatim>\<open>src/adaptive.rs\<close>, the integer modes and packed strings; the mode chosen is
    the smallest.
  \<^item> \<open>Aead\<close>, \<open>AeadProofs\<close>: \<^verbatim>\<open>src/aead.rs\<close>, XChaCha20-Poly1305; the limb arithmetic refines the accumulator of
    RFC 8439, and decryption is exactly the inverse of encryption.
  \<^item> \<open>EncryptedFrame\<close>: \<^verbatim>\<open>src/encryption.rs\<close>, the frame around the plain and the compressed payload.
  \<^item> \<open>Cbor\<close>, \<open>CborProofs\<close>: \<^verbatim>\<open>src/cbor_codec.rs\<close> and \<^verbatim>\<open>src/cbor.rs\<close>, the CBOR profile and its deterministic mode.
  \<^item> \<open>FrameCursor\<close>, \<open>Evolution\<close>, \<open>Parallel\<close>: \<^verbatim>\<open>src/evolution.rs\<close>, frames of fields with stable identifiers, and
    \<^verbatim>\<open>src/parallel.rs\<close>, batch frames encoded and decoded by worker threads.

  nextjson, which serialises and deserialises values through these encoders and decoders, is third-party.
  The model takes the sequence of encoder events as given, and its readers as a parameter with the
  hypothesis \<open>reads_values\<close>; \<open>client_value\<close> is a reader for which the hypothesis holds.

  Fuel and loops. The mutually recursive walk of \<open>Probe\<close> takes fuel, three units for each input byte and
  four more; \<open>walk_no_panic\<close> shows this is enough for every input. A reader takes a bound on its recursion;
  the length of the encoded value is enough. Loops that nothing bounds are partial functions whose result is
  \<open>None\<close> when they do not end: the verification of projection proofs, which always ends
  (\<open>verify_terminates\<close>), the peeling of \<open>Ibl\<close>, and the byte arrays of \<open>Cbor\<close>, whose element reader belongs
  to nextjson. The other loops terminate by measures.

  Memory. Where the code handles a failed reservation, or reserves what untrusted input asks for, the
  allocator is a parameter. Vectors that grow with data already read, and the at most 4 GiB the LZ decoder
  reserves within the bound of its caller, are not tracked: running out of memory there ends the process.
  The arithmetic of counters that wrap in a release build wraps here.

  Not modelled: the derive macro (code generation), memory mapping and operating-system entropy (I/O), the
  BLAKE3 hash (a parameter of the projection theories), SIMD intrinsics (the model follows the scalar
  code), static sizes and the bounded codec (compile-time traits, and a second encoder for them), the archive
  (random access over seekable files), fingerprinted CBOR frames, benches, examples, fuzz targets and scripts.
\<close>

end
